(* ===== verification/JQ_Prelude.thy ===== *)
theory JQ_Prelude
  imports Main "HOL-Library.AList"
begin

text \<open>
  Prelude shared by the models of the browser code under src/AspNet.SignalR/SignalR.NCache/Scripts:
  the values of the language as far as the code looks at them, objects as association lists in
  insertion order (the order in which a for-in loop visits them), and the collections of facts
  that the component theories extend.

  Strings are lists of 8-bit characters; case conversion and the whitespace class are those of
  JavaScript on that range, with case conversion on the ASCII letters only.
\<close>

named_theorems js_defs \<open>definitions that component proofs unfold\<close>
named_theorems js_frame \<open>what an operation leaves unchanged\<close>
named_theorems js_inv \<open>invariants kept by the operations\<close>

section \<open>Values\<close>

text \<open>
  A value is a primitive or a reference to an object. Numbers are modelled as integers: the code
  modelled with this type uses them as counters, indices and status codes.
\<close>

datatype jsval = Undefined | Null | Bool bool | Num int | Str string | Ref nat

text \<open>The test \<open>x == null\<close>, true of null and undefined only.\<close>

fun nullish :: "jsval \<Rightarrow> bool" where
  "nullish Undefined = True"
| "nullish Null = True"
| "nullish _ = False"

text \<open>ToBoolean: what an \<open>if\<close> or \<open>!\<close> sees.\<close>

fun truthy :: "jsval \<Rightarrow> bool" where
  "truthy Undefined = False"
| "truthy Null = False"
| "truthy (Bool b) = b"
| "truthy (Num n) = (n \<noteq> 0)"
| "truthy (Str s) = (s \<noteq> [])"
| "truthy (Ref a) = True"

lemma nullish_not_truthy [simp]: "nullish v \<Longrightarrow> \<not> truthy v"
  by (cases v) auto

section \<open>Returning and throwing\<close>

text \<open>The end of a call that works on a state: it returns or throws, in a new state.\<close>

datatype 'w outcome = Returned 'w | Threw 'w

fun and_then :: "'w outcome \<Rightarrow> ('w \<Rightarrow> 'w outcome) \<Rightarrow> 'w outcome" where
  "and_then (Returned w) f = f w"
| "and_then (Threw w) f = Threw w"

fun each_of :: "('a \<Rightarrow> 'w \<Rightarrow> 'w outcome) \<Rightarrow> 'a list \<Rightarrow> 'w \<Rightarrow> 'w outcome" where
  "each_of f [] w = Returned w"
| "each_of f (x # xs) w = and_then (f x w) (each_of f xs)"

lemma and_then_Returned [simp]: "and_then r Returned = r"
  by (cases r) simp_all

lemma and_then_assoc: "and_then (and_then r f) g = and_then r (\<lambda>w. and_then (f w) g)"
  by (cases r) simp_all

lemma each_of_append: "each_of f (xs @ ys) w = and_then (each_of f xs w) (each_of f ys)"
proof (induction xs arbitrary: w)
  case (Cons x xs)
  show ?case by (cases "f x w") (simp_all add: Cons)
qed simp

section \<open>Objects as association lists\<close>

text \<open>
  An object read and written by string keys: \<open>map_of\<close> reads, \<open>AList.update\<close> assigns (in
  place when the key is there, at the end when it is new), \<open>AList.delete\<close> deletes.
\<close>

type_synonym 'v props = "(string \<times> 'v) list"

definition get_or :: "'v \<Rightarrow> 'v props \<Rightarrow> string \<Rightarrow> 'v" where
  "get_or d ps k = (case map_of ps k of Some v \<Rightarrow> v | None \<Rightarrow> d)"

abbreviation pget :: "jsval props \<Rightarrow> string \<Rightarrow> jsval" where
  "pget ps k \<equiv> get_or Undefined ps k"

lemma get_or_update [simp]: "get_or d (AList.update k v ps) k' = (if k = k' then v else get_or d ps k')"
  by (simp add: get_or_def update_conv')

lemma get_or_delete [simp]: "get_or d (AList.delete k ps) k' = (if k = k' then d else get_or d ps k')"
  by (simp add: get_or_def delete_conv')

lemma get_or_Nil [simp]: "get_or d [] k = d"
  by (simp add: get_or_def)

locale keyed_store =
  fixes empty :: "'s"
    and get :: "'s \<Rightarrow> 'k \<Rightarrow> 'v"
    and put :: "'k \<Rightarrow> 'v \<Rightarrow> 's \<Rightarrow> 's"
    and del :: "'k \<Rightarrow> 's \<Rightarrow> 's"
    and absent :: "'v"
  assumes get_empty: "get empty k = absent"
    and get_put: "get (put k v s) k' = (if k = k' then v else get s k')"
    and get_del: "get (del k s) k' = (if k = k' then absent else get s k')"
begin

lemma get_put_same: "get (put k v s) k = v"
  by (simp add: get_put)

lemma get_put_other: "k \<noteq> k' \<Longrightarrow> get (put k v s) k' = get s k'"
  by (simp add: get_put)

lemma put_del: "get (put k v (del k s)) k' = get (put k v s) k'"
  by (simp add: get_put get_del)

lemma get_fold_put:
  "get (fold (\<lambda>(k, v) s. put k v s) kvs s) k
   = (case map_of (rev kvs) k of Some v \<Rightarrow> v | None \<Rightarrow> get s k)"
proof (induction kvs arbitrary: s)
  case Nil
  then show ?case by simp
next
  case (Cons kv kvs)
  then show ?case
    by (cases kv) (auto simp: get_put map_add_def split: option.splits)
qed

end

interpretation props: keyed_store "[]" "get_or d" AList.update AList.delete d for d
  by unfold_locales simp_all

section \<open>Strings\<close>

definition is_space :: "char \<Rightarrow> bool" where
  "is_space c \<longleftrightarrow> (let n = of_char c :: nat in n = 32 \<or> (9 \<le> n \<and> n \<le> 13) \<or> n = 160)"

definition lower_char :: "char \<Rightarrow> char" where
  "lower_char c = (let n = of_char c :: nat in if 65 \<le> n \<and> n \<le> 90 then char_of (n + 32) else c)"

definition upper_char :: "char \<Rightarrow> char" where
  "upper_char c = (let n = of_char c :: nat in if 97 \<le> n \<and> n \<le> 122 then char_of (n - 32) else c)"

abbreviation to_lower :: "string \<Rightarrow> string" where
  "to_lower \<equiv> map lower_char"

abbreviation to_upper :: "string \<Rightarrow> string" where
  "to_upper \<equiv> map upper_char"

lemma of_char_bound: "(of_char c :: nat) < 256"
  by (metis nat_of_char_less_256)

lemma lower_char_idem [simp]: "lower_char (lower_char c) = lower_char c"
proof (cases "65 \<le> (of_char c :: nat) \<and> (of_char c :: nat) \<le> 90")
  case True
  then have "(of_char (char_of ((of_char c :: nat) + 32)) :: nat) = of_char c + 32"
    by (simp add: of_char_of)
  with True show ?thesis by (simp add: lower_char_def Let_def)
qed (auto simp: lower_char_def Let_def)


definition is_digit :: "char \<Rightarrow> bool" where
  "is_digit c \<longleftrightarrow> (let n = of_char c :: nat in 48 \<le> n \<and> n \<le> 57)"

definition is_upper :: "char \<Rightarrow> bool" where
  "is_upper c \<longleftrightarrow> (let n = of_char c :: nat in 65 \<le> n \<and> n \<le> 90)"

definition is_lower :: "char \<Rightarrow> bool" where
  "is_lower c \<longleftrightarrow> (let n = of_char c :: nat in 97 \<le> n \<and> n \<le> 122)"

lemma upper_lower_char: "is_upper c \<Longrightarrow> upper_char (lower_char c) = c"
  by (auto simp: is_upper_def upper_char_def lower_char_def Let_def of_char_of)

lemma lower_char_upper: "is_upper c \<Longrightarrow> is_lower (lower_char c)"
  by (auto simp: is_upper_def is_lower_def lower_char_def Let_def of_char_of)

lemma lower_char_other: "\<not> is_upper c \<Longrightarrow> lower_char c = c"
  by (auto simp: is_upper_def lower_char_def Let_def)

lemma char_class_disjoint:
  "is_upper c \<Longrightarrow> \<not> is_lower c" "is_upper c \<Longrightarrow> \<not> is_digit c" "is_lower c \<Longrightarrow> \<not> is_digit c"
  by (auto simp: is_upper_def is_lower_def is_digit_def Let_def)

lemma dash_not_alnum [simp]: "\<not> is_upper CHR ''-''" "\<not> is_lower CHR ''-''" "\<not> is_digit CHR ''-''"
  by (simp_all add: is_upper_def is_lower_def is_digit_def)

text \<open>The decimal form of a number, as used for array indices and in selectors.\<close>

fun dec :: "nat \<Rightarrow> string" where
  "dec n = (if n < 10 then [char_of (48 + n)] else dec (n div 10) @ [char_of (48 + n mod 10)])"

declare dec.simps [simp del]

definition show_int :: "int \<Rightarrow> string" where
  "show_int i = (if i < 0 then ''-'' @ dec (nat (- i)) else dec (nat i))"

end
