(* ===== verification/JQ_Deferred.thy ===== *)
theory JQ_Deferred
  imports JQ_Prelude
begin

text \<open>
  The callback lists and deferred objects of jquery-1.6.4.js: \<open>jQuery._Deferred\<close>,
  \<open>jQuery.Deferred\<close> (a pair of callback lists that cancel one another), \<open>pipe\<close> and
  \<open>jQuery.when\<close>.

  Callbacks may call back into the library while a list is firing. A user function is an
  identifier; what its body does is a parameter \<open>prog\<close> of the model: given \<open>this\<close>, the
  arguments and the state it is entered in, the calls it makes and how it ends. Every function
  that can reach user code takes fuel and returns \<open>None\<close> when the fuel runs out; exceptions
  are values.
\<close>

section \<open>State\<close>

type_synonym sid = nat \<comment> \<open>one callback list, a \<open>_Deferred\<close>\<close>
type_synonym did = nat \<comment> \<open>one full \<open>Deferred\<close>\<close>
type_synonym wid = nat \<comment> \<open>one call of \<open>when\<close>\<close>

text \<open>Values that callbacks receive: only deferreds and promises are looked at by the code.\<close>

datatype dval = DUndef | DNum int | DObj nat | DArr "dval list" | DDeferred did | DPromise did

text \<open>
  The functions that can stand in a callback list: a user function, the \<open>cancel\<close> or
  \<open>resolve\<close> method of a callback list, and the closures built by \<open>pipe\<close> and \<open>when\<close>.
\<close>

datatype cb =
    UserFn nat
  | CancelOf sid
  | ResolveOf sid
  | PipeFn nat did did bool
  | WhenFn wid nat

datatype darg = AFn cb | AArr "darg list" | AOther

record sdef =
  callbacks :: "cb list"
  fired :: "(dval \<times> dval list) option"
  firing :: bool
  cancelled :: bool

record wstate =
  wargs :: "dval list"
  wcount :: int
  wdef :: did

record world =
  sdefs :: "sid \<Rightarrow> sdef"
  nextsid :: nat
  fulls :: "(sid \<times> sid) list"
  whens :: "wstate list"
  clog :: "(sid \<times> cb \<times> dval \<times> dval list) list" \<comment> \<open>calls made so far, oldest first\<close>

datatype outcome = Ret dval | Exn dval

text \<open>The calls a user function can make on a callback list while it runs.\<close>

datatype cmd = CDone sid "darg list" | CResolveWith sid dval "dval list"

type_synonym prog = "nat \<Rightarrow> dval \<Rightarrow> dval list \<Rightarrow> world \<Rightarrow> cmd list \<times> outcome"

definition new_sdef :: sdef where
  "new_sdef = \<lparr>callbacks = [], fired = None, firing = False, cancelled = False\<rparr>"

definition init_world :: world where
  "init_world = \<lparr>sdefs = (\<lambda>_. new_sdef), nextsid = 0, fulls = [], whens = [], clog = []\<rparr>"

definition upd :: "sid \<Rightarrow> (sdef \<Rightarrow> sdef) \<Rightarrow> world \<Rightarrow> world" where
  "upd n f w = w\<lparr>sdefs := (sdefs w)(n := f (sdefs w n))\<rparr>"

definition done_of :: "world \<Rightarrow> did \<Rightarrow> sid" where
  "done_of w d = fst (fulls w ! d)"

definition fail_of :: "world \<Rightarrow> did \<Rightarrow> sid" where
  "fail_of w d = snd (fulls w ! d)"

section \<open>Callback lists\<close>

text \<open>\<open>isResolved\<close>: firing now or fired before.\<close>

definition isResolved :: "world \<Rightarrow> sid \<Rightarrow> bool" where
  "isResolved w n \<longleftrightarrow> firing (sdefs w n) \<or> fired (sdefs w n) \<noteq> None"

definition cancel :: "sid \<Rightarrow> world \<Rightarrow> world" where
  "cancel n = upd n (\<lambda>s. s\<lparr>cancelled := True, callbacks := []\<rparr>)"

text \<open>
  The loop over the arguments of \<open>done\<close>: a function is pushed, an array is passed to \<open>done\<close>
  again. The nested \<open>done\<close> runs while \<open>fired\<close> is 0 (the outer call has taken it), so it
  tests \<open>cancelled\<close>, finds nothing fired and only pushes.
\<close>

fun done_args :: "sid \<Rightarrow> darg list \<Rightarrow> world \<Rightarrow> world" where
  "done_args n [] w = w"
| "done_args n (AFn c # as) w =
     done_args n as (upd n (\<lambda>s. s\<lparr>callbacks := callbacks s @ [c]\<rparr>) w)"
| "done_args n (AArr bs # as) w =
     done_args n as (if cancelled (sdefs w n) then w else done_args n bs w)"
| "done_args n (AOther # as) w = done_args n as w"

text \<open>
  The methods call one another through user code. Each method body is a definition over
  \<open>rec\<close>, which runs a nested call; \<open>exec\<close> ties the knot and spends one unit of fuel per
  nesting level or loop iteration.
\<close>

datatype task =
    TDone sid "darg list"
  | TResolve sid dval "dval list"
  | TFire sid dval "dval list"
  | TCall cb dval "dval list"
  | TRun "cmd list" outcome

type_synonym runner = "task \<Rightarrow> world \<Rightarrow> (outcome \<times> world) option"

text \<open>\<open>e1; e2\<close>: the second runs only when the first has returned.\<close>

definition andThen ::
  "(outcome \<times> world) option \<Rightarrow> (dval \<Rightarrow> world \<Rightarrow> (outcome \<times> world) option) \<Rightarrow> (outcome \<times> world) option"
where
  "andThen r f = (case r of
      None \<Rightarrow> None
    | Some (Exn e, w) \<Rightarrow> Some (Exn e, w)
    | Some (Ret v, w) \<Rightarrow> f v w)"

definition done_sd :: "runner \<Rightarrow> sid \<Rightarrow> darg list \<Rightarrow> world \<Rightarrow> (outcome \<times> world) option" where
  "done_sd rec n as w =
     (if cancelled (sdefs w n) then Some (Ret DUndef, w)
      else case fired (sdefs w n) of
        None \<Rightarrow> Some (Ret DUndef, done_args n as w)
      | Some (c, args) \<Rightarrow>
          rec (TResolve n c args) (done_args n as (upd n (\<lambda>s. s\<lparr>fired := None\<rparr>) w)))"

text \<open>
  \<open>resolveWith\<close>: the \<open>finally\<close> block records the firing whether the loop returned or threw.
\<close>

definition resolve_with :: "runner \<Rightarrow> sid \<Rightarrow> dval \<Rightarrow> dval list \<Rightarrow> world \<Rightarrow> (outcome \<times> world) option" where
  "resolve_with rec n c args w =
     (if cancelled (sdefs w n) \<or> fired (sdefs w n) \<noteq> None \<or> firing (sdefs w n)
      then Some (Ret DUndef, w)
      else case rec (TFire n c args) (upd n (\<lambda>s. s\<lparr>firing := True\<rparr>) w) of
        None \<Rightarrow> None
      | Some (out, w') \<Rightarrow>
          Some (out, upd n (\<lambda>s. s\<lparr>fired := Some (c, args), firing := False\<rparr>) w'))"

definition fire_loop :: "runner \<Rightarrow> sid \<Rightarrow> dval \<Rightarrow> dval list \<Rightarrow> world \<Rightarrow> (outcome \<times> world) option" where
  "fire_loop rec n c args w =
     (case callbacks (sdefs w n) of
        [] \<Rightarrow> Some (Ret DUndef, w)
      | f # fs \<Rightarrow>
          andThen (rec (TCall f c args)
                     ((upd n (\<lambda>s. s\<lparr>callbacks := fs\<rparr>) w)\<lparr>clog := clog w @ [(n, f, c, args)]\<rparr>))
                  (\<lambda>_. rec (TFire n c args)))"

fun promise_of :: "dval \<Rightarrow> did option" where
  "promise_of (DDeferred d) = Some d"
| "promise_of (DPromise d) = Some d"
| "promise_of _ = None"

text \<open>The closure that \<open>pipe\<close> registers.\<close>

definition pipe_fn ::
  "prog \<Rightarrow> runner \<Rightarrow> nat \<Rightarrow> did \<Rightarrow> did \<Rightarrow> bool \<Rightarrow> dval \<Rightarrow> dval list \<Rightarrow> world \<Rightarrow> (outcome \<times> world) option"
where
  "pipe_fn p rec u d d' act c args w =
     andThen (case p u c args w of (cmds, out) \<Rightarrow> rec (TRun cmds out) w)
       (\<lambda>returned w'. case promise_of returned of
           Some r \<Rightarrow>
             rec (TRun [CDone (done_of w' r) [AFn (ResolveOf (done_of w' d'))],
                        CDone (fail_of w' r) [AFn (ResolveOf (fail_of w' d'))]] (Ret DUndef)) w'
         | None \<Rightarrow>
             rec (TResolve (if act then done_of w' d' else fail_of w' d')
                    (if c = DDeferred d then DDeferred d' else c) [returned]) w')"

text \<open>The closure \<open>resolveFunc(i)\<close> of \<open>when\<close>.\<close>

definition when_fn ::
  "runner \<Rightarrow> wid \<Rightarrow> nat \<Rightarrow> dval list \<Rightarrow> world \<Rightarrow> (outcome \<times> world) option" where
  "when_fn rec q i args w =
     (let s = whens w ! q;
          v = (if length args > 1 then DArr args else case args of [] \<Rightarrow> DUndef | a # _ \<Rightarrow> a);
          s' = s\<lparr>wargs := (wargs s)[i := v], wcount := wcount s - 1\<rparr>;
          w' = w\<lparr>whens := (whens w)[q := s']\<rparr>
      in if wcount s' = 0
         then rec (TResolve (done_of w' (wdef s')) (DDeferred (wdef s')) (wargs s')) w'
         else Some (Ret DUndef, w'))"

fun call_cb :: "prog \<Rightarrow> runner \<Rightarrow> cb \<Rightarrow> dval \<Rightarrow> dval list \<Rightarrow> world \<Rightarrow> (outcome \<times> world) option" where
  "call_cb p rec (UserFn u) c args w = (case p u c args w of (cmds, out) \<Rightarrow> rec (TRun cmds out) w)"
| "call_cb p rec (CancelOf m) c args w = Some (Ret DUndef, cancel m w)"
| "call_cb p rec (ResolveOf m) c args w = rec (TResolve m c args) w"
| "call_cb p rec (PipeFn u d d' act) c args w = pipe_fn p rec u d d' act c args w"
| "call_cb p rec (WhenFn q i) c args w = when_fn rec q i args w"

fun run_cmds :: "runner \<Rightarrow> cmd list \<Rightarrow> outcome \<Rightarrow> world \<Rightarrow> (outcome \<times> world) option" where
  "run_cmds rec [] out w = Some (out, w)"
| "run_cmds rec (CDone n as # cmds) out w =
     andThen (rec (TDone n as) w) (\<lambda>_. rec (TRun cmds out))"
| "run_cmds rec (CResolveWith n c args # cmds) out w =
     andThen (rec (TResolve n c args) w) (\<lambda>_. rec (TRun cmds out))"

primrec exec :: "prog \<Rightarrow> nat \<Rightarrow> runner" where
  "exec p 0 t w = None"
| "exec p (Suc k) t w = (case t of
      TDone n as \<Rightarrow> done_sd (exec p k) n as w
    | TResolve n c args \<Rightarrow> resolve_with (exec p k) n c args w
    | TFire n c args \<Rightarrow> fire_loop (exec p k) n c args w
    | TCall f c args \<Rightarrow> call_cb p (exec p k) f c args w
    | TRun cmds out \<Rightarrow> run_cmds (exec p k) cmds out w)"

section \<open>Deferred objects\<close>

text \<open>
  \<open>jQuery.Deferred\<close>: two new callback lists, each of which gets the other's \<open>cancel\<close> as its
  first callback. Neither has fired, so the two \<open>done\<close> calls only push. The lists are taken
  from a pool of lists in the state of \<open>new_sdef\<close>, which is what every list of \<open>init_world\<close>
  is in until it is used.
\<close>

definition new_deferred :: "world \<Rightarrow> did \<times> world" where
  "new_deferred w =
     (let n = nextsid w; m = Suc n;
          w1 = w\<lparr>nextsid := Suc m, fulls := fulls w @ [(n, m)]\<rparr>;
          w2 = done_args n [AFn (CancelOf m)] w1;
          w3 = done_args m [AFn (CancelOf n)] w2
      in (length (fulls w), w3))"

definition deferred_then ::
  "runner \<Rightarrow> did \<Rightarrow> darg list \<Rightarrow> darg list \<Rightarrow> world \<Rightarrow> (outcome \<times> world) option" where
  "deferred_then rec d ds fs w =
     rec (TRun [CDone (done_of w d) ds, CDone (fail_of w d) fs] (Ret (DDeferred d))) w"

definition always :: "runner \<Rightarrow> did \<Rightarrow> darg list \<Rightarrow> world \<Rightarrow> (outcome \<times> world) option" where
  "always rec d as w =
     rec (TRun [CDone (done_of w d) as, CDone (fail_of w d) as] (Ret (DDeferred d))) w"

text \<open>\<open>resolve\<close> and \<open>reject\<close> called as methods of the deferred.\<close>

definition resolve :: "runner \<Rightarrow> did \<Rightarrow> dval list \<Rightarrow> world \<Rightarrow> (outcome \<times> world) option" where
  "resolve rec d args w = rec (TResolve (done_of w d) (DDeferred d) args) w"

definition reject :: "runner \<Rightarrow> did \<Rightarrow> dval list \<Rightarrow> world \<Rightarrow> (outcome \<times> world) option" where
  "reject rec d args w = rec (TResolve (fail_of w d) (DDeferred d) args) w"

text \<open>
  \<open>pipe(fnDone, fnFail)\<close>: a new deferred fed from this one; \<open>None\<close> is an argument that is not
  a function.
\<close>

definition pipe ::
  "runner \<Rightarrow> did \<Rightarrow> nat option \<Rightarrow> nat option \<Rightarrow> world \<Rightarrow> (outcome \<times> world) option" where
  "pipe rec d fnDone fnFail w =
     (case new_deferred w of (d', w1) \<Rightarrow>
       rec (TRun
         [CDone (done_of w1 d)
            [AFn (case fnDone of Some u \<Rightarrow> PipeFn u d d' True | None \<Rightarrow> ResolveOf (done_of w1 d'))],
          CDone (fail_of w1 d)
            [AFn (case fnFail of Some u \<Rightarrow> PipeFn u d d' False | None \<Rightarrow> ResolveOf (fail_of w1 d'))]]
         (Ret (DPromise d'))) w1)"

text \<open>
  \<open>when(...)\<close>. The loop over the parameters registers a \<open>resolveFunc\<close> and the new deferred's
  \<open>reject\<close> on each one that has a promise, and counts the others off.
\<close>

fun when_loop :: "runner \<Rightarrow> wid \<Rightarrow> did \<Rightarrow> nat \<Rightarrow> dval list \<Rightarrow> world \<Rightarrow> (outcome \<times> world) option" where
  "when_loop rec q d i [] w = Some (Ret DUndef, w)"
| "when_loop rec q d i (v # vs) w =
     (case promise_of v of
        Some r \<Rightarrow>
          andThen (deferred_then rec r [AFn (WhenFn q i)] [AFn (ResolveOf (fail_of w d))] w)
            (\<lambda>_. when_loop rec q d (Suc i) vs)
      | None \<Rightarrow>
          when_loop rec q d (Suc i) vs
            (w\<lparr>whens := (whens w)[q := (whens w ! q)\<lparr>wcount := wcount (whens w ! q) - 1\<rparr>]\<rparr>))"

definition jq_when :: "runner \<Rightarrow> dval list \<Rightarrow> world \<Rightarrow> (outcome \<times> world) option" where
  "jq_when rec vs w =
     (if length vs \<le> 1
      then (case (case vs of [] \<Rightarrow> None | v # _ \<Rightarrow> promise_of v) of
              Some d \<Rightarrow> Some (Ret (DPromise d), w)
            | None \<Rightarrow>
                (case new_deferred w of (d, w1) \<Rightarrow>
                  andThen (rec (TResolve (done_of w1 d) (DDeferred d) vs) w1)
                    (\<lambda>_ w2. Some (Ret (DPromise d), w2))))
      else (case new_deferred w of (d, w1) \<Rightarrow>
        (let q = length (whens w1);
             w2 = w1\<lparr>whens := whens w1 @ [\<lparr>wargs = vs, wcount = int (length vs), wdef = d\<rparr>]\<rparr>
         in andThen (when_loop rec q d 0 vs w2)
              (\<lambda>_ w3. if wcount (whens w3 ! q) = 0
                 then andThen (rec (TResolve (done_of w3 d) (DDeferred d) (wargs (whens w3 ! q))) w3)
                        (\<lambda>_ w4. Some (Ret (DPromise d), w4))
                 else Some (Ret (DPromise d), w3)))))"

section \<open>Basic facts\<close>

definition log_of :: "world \<Rightarrow> sid \<Rightarrow> (cb \<times> dval \<times> dval list) list" where
  "log_of w n = map snd (filter (\<lambda>e. fst e = n) (clog w))"

lemma sdefs_upd [simp]: "sdefs (upd n f w) m = (if m = n then f (sdefs w n) else sdefs w m)"
  by (simp add: upd_def)

lemma upd_simps [simp]:
  "clog (upd n f w) = clog w" "fulls (upd n f w) = fulls w" "whens (upd n f w) = whens w"
  "nextsid (upd n f w) = nextsid w"
  by (simp_all add: upd_def)

lemma log_of_simps [simp]:
  "log_of (upd n f w) m = log_of w m"
  "log_of (w\<lparr>whens := ws\<rparr>) m = log_of w m"
  "log_of (w\<lparr>clog := clog w' @ [(n, e)]\<rparr>) m = log_of w' m @ (if m = n then [e] else [])"
  by (simp_all add: log_of_def)

lemma sdefs_cancel [simp]:
  "sdefs (cancel n w) m = (if m = n then (sdefs w n)\<lparr>cancelled := True, callbacks := []\<rparr> else sdefs w m)"
  by (simp add: cancel_def)

lemma cancel_simps [simp]: "clog (cancel n w) = clog w" "log_of (cancel n w) m = log_of w m"
  "fulls (cancel n w) = fulls w" "whens (cancel n w) = whens w"
  by (simp_all add: cancel_def)

text \<open>The functions that a call of \<open>done\<close> adds, nested arrays flattened.\<close>

fun flat_args :: "darg list \<Rightarrow> cb list" where
  "flat_args [] = []"
| "flat_args (AFn c # as) = c # flat_args as"
| "flat_args (AArr bs # as) = flat_args bs @ flat_args as"
| "flat_args (AOther # as) = flat_args as"

lemma done_args_flat:
  "\<not> cancelled (sdefs w n) \<Longrightarrow>
   done_args n as w = upd n (\<lambda>s. s\<lparr>callbacks := callbacks s @ flat_args as\<rparr>) w"
  by (induction n as w rule: done_args.induct) (simp_all add: upd_def)

lemma andThen_Some:
  "andThen r f = Some (out, w') \<longleftrightarrow>
   (\<exists>e. r = Some (Exn e, w') \<and> out = Exn e) \<or> (\<exists>v w1. r = Some (Ret v, w1) \<and> f v w1 = Some (out, w'))"
  by (auto simp: andThen_def split: option.splits prod.splits outcome.splits)

lemmas method_defs = done_sd_def resolve_with_def fire_loop_def pipe_fn_def when_fn_def andThen_Some Let_def

section \<open>A list that is firing is left alone\<close>

definition keeps :: "sid \<Rightarrow> world \<Rightarrow> world \<Rightarrow> bool" where
  "keeps n w w' \<longleftrightarrow> firing (sdefs w' n) = firing (sdefs w n) \<and> fired (sdefs w' n) = fired (sdefs w n)
     \<and> log_of w' n = log_of w n
     \<and> (cancelled (sdefs w' n) \<or> (\<exists>bs. callbacks (sdefs w' n) = callbacks (sdefs w n) @ bs))
     \<and> (cancelled (sdefs w n) \<longrightarrow> cancelled (sdefs w' n))"

lemma keeps_refl [simp]: "keeps n w w"
  by (simp add: keeps_def)

lemma keeps_trans: "keeps n w1 w2 \<Longrightarrow> keeps n w2 w3 \<Longrightarrow> keeps n w1 w3"
  by (force simp: keeps_def)

lemma keeps_same: "sdefs w' n = sdefs w n \<Longrightarrow> log_of w' n = log_of w n \<Longrightarrow> keeps n w w'"
  by (simp add: keeps_def)

lemma keeps_done_args:
  "\<not> cancelled (sdefs w m) \<Longrightarrow> keeps n w (done_args m as w)"
  by (auto simp: keeps_def done_args_flat)

definition busy :: "sid \<Rightarrow> world \<Rightarrow> bool" where
  "busy n w \<longleftrightarrow> firing (sdefs w n) \<and> fired (sdefs w n) = None"

lemma keeps_busy: "keeps n w w' \<Longrightarrow> busy n w \<Longrightarrow> busy n w'"
  by (simp add: keeps_def busy_def)

lemma keeps_upd: "m \<noteq> n \<Longrightarrow> keeps n w (upd m f w)"
  by (simp add: keeps_def)

lemma exec_keeps:
  "exec p k t w = Some (out, w') \<Longrightarrow> busy n w \<Longrightarrow> (\<forall>c a. t \<noteq> TFire n c a) \<Longrightarrow> keeps n w w'"
proof (induction k arbitrary: t w out w')
  case 0
  then show ?case by simp
next
  case (Suc k)
  note IH = Suc.IH
  have IH2: "exec p k t1 w1 = Some (o1, w2) \<Longrightarrow> keeps n w w1 \<Longrightarrow> (\<forall>c a. t1 \<noteq> TFire n c a)
      \<Longrightarrow> keeps n w w2" for t1 w1 o1 w2
    using IH[of t1 w1 o1 w2] keeps_busy[OF _ Suc.prems(2)] keeps_trans by blast
  show ?case
  proof (cases t)
    case (TDone m as)
    with Suc.prems show ?thesis
      by (auto simp: method_defs busy_def split: if_splits option.splits
        intro: keeps_done_args elim!: IH2 intro!: keeps_trans[OF keeps_upd keeps_done_args])
  next
    case (TResolve m c args)
    show ?thesis
    proof (cases "cancelled (sdefs w m) \<or> fired (sdefs w m) \<noteq> None \<or> firing (sdefs w m)")
      case True
      with TResolve Suc.prems show ?thesis by (auto simp: method_defs)
    next
      case False
      then have "m \<noteq> n" using Suc.prems by (auto simp: busy_def)
      from False TResolve Suc.prems obtain w2 where
        r: "exec p k (TFire m c args) (upd m (\<lambda>s. s\<lparr>firing := True\<rparr>) w) = Some (out, w2)"
        and w': "w' = upd m (\<lambda>s. s\<lparr>fired := Some (c, args), firing := False\<rparr>) w2"
        by (auto simp: method_defs split: option.splits)
      have "keeps n w w2" using IH2[OF r] keeps_upd[OF \<open>m \<noteq> n\<close>] \<open>m \<noteq> n\<close> by simp
      then show ?thesis using w' keeps_upd[OF \<open>m \<noteq> n\<close>] keeps_trans by blast
    qed
  next
    case (TFire m c args)
    then have "m \<noteq> n" using Suc.prems by blast
    then have 1: "keeps n w ((upd m f w)\<lparr>clog := clog w @ [(m, e)]\<rparr>)" for f e
      by (simp add: keeps_def)
    show ?thesis
      using TFire Suc.prems \<open>m \<noteq> n\<close>
      by (auto simp: method_defs split: list.splits elim!: IH2 dest!: IH2[OF _ 1])
  next
    case (TCall f c args)
    show ?thesis
    proof (cases f)
      case (PipeFn u d d' act)
      with TCall Suc.prems show ?thesis
        by (auto simp: method_defs split: option.splits prod.splits elim!: IH2 dest!: IH2[OF _ keeps_refl])
    next
      case (WhenFn q i)
      have 1: "keeps n w (w\<lparr>whens := ws\<rparr>)" for ws by (simp add: keeps_def)
      from WhenFn TCall Suc.prems show ?thesis
        by (auto simp: method_defs 1 split: if_splits elim!: IH2)
    next
      case (CancelOf m)
      with TCall Suc.prems show ?thesis by (auto simp: keeps_def split: if_splits)
    qed (use TCall Suc.prems in \<open>auto split: prod.splits elim!: IH2\<close>)
  next
    case (TRun cmds out1)
    with Suc.prems show ?thesis
      by (cases "(exec p k, cmds, out1, w)" rule: run_cmds.cases)
        (auto simp: method_defs elim!: IH2 dest!: IH2[OF _ keeps_refl])
  qed
qed

section \<open>One firing for each list\<close>

definition idle :: "sid \<Rightarrow> world \<Rightarrow> bool" where
  "idle n w \<longleftrightarrow> \<not> firing (sdefs w n) \<and> fired (sdefs w n) = None"

definition called_with :: "sid \<Rightarrow> dval \<Rightarrow> dval list \<Rightarrow> world \<Rightarrow> bool" where
  "called_with n c args w \<longleftrightarrow> (\<forall>e \<in> set (log_of w n). snd e = (c, args))"

definition inv_at :: "sid \<Rightarrow> world \<Rightarrow> bool" where
  "inv_at n w \<longleftrightarrow> (case fired (sdefs w n) of
      Some (c, args) \<Rightarrow> \<not> firing (sdefs w n) \<and> called_with n c args w
    | None \<Rightarrow> firing (sdefs w n) \<or> log_of w n = [])"

definition inv :: "world \<Rightarrow> bool" where
  "inv w \<longleftrightarrow> (\<forall>n. inv_at n w)"

definition inv_but :: "sid \<Rightarrow> world \<Rightarrow> bool" where
  "inv_but n w \<longleftrightarrow> (\<forall>m. m \<noteq> n \<longrightarrow> inv_at m w)"

fun pre :: "task \<Rightarrow> world \<Rightarrow> bool" where
  "pre (TResolve n c args) w \<longleftrightarrow> inv_but n w \<and>
     (inv_at n w \<or> \<not> cancelled (sdefs w n) \<and> idle n w \<and> called_with n c args w)"
| "pre (TFire n c args) w \<longleftrightarrow> inv_but n w \<and> busy n w \<and> called_with n c args w"
| "pre _ w \<longleftrightarrow> inv w"

fun post :: "task \<Rightarrow> world \<Rightarrow> bool" where
  "post (TFire n c args) w \<longleftrightarrow> inv_but n w \<and> busy n w \<and> called_with n c args w"
| "post _ w \<longleftrightarrow> inv w"

lemma inv_iff: "inv w \<longleftrightarrow> inv_but n w \<and> inv_at n w"
  by (auto simp: inv_def inv_but_def)

lemma inv_at_same: "firing (sdefs w' n) = firing (sdefs w n) \<Longrightarrow> fired (sdefs w' n) = fired (sdefs w n)
    \<Longrightarrow> log_of w' n = log_of w n \<Longrightarrow> inv_at n w' = inv_at n w"
  by (simp add: inv_at_def called_with_def split: option.splits)

lemma inv_at_busy: "busy n w \<Longrightarrow> inv_at n w"
  by (simp add: inv_at_def busy_def)

lemma inv_at_callbacks [simp]: "inv_at m (upd n (\<lambda>s. s\<lparr>callbacks := g s\<rparr>) w) = inv_at m w"
  by (rule inv_at_same) simp_all

lemma inv_callbacks [simp]: "inv (upd n (\<lambda>s. s\<lparr>callbacks := g s\<rparr>) w) = inv w"
  by (simp add: inv_def)

lemma inv_cancel [simp]: "inv (cancel n w) = inv w"
  unfolding inv_def by (intro iff_allI inv_at_same) auto

lemma inv_whens [simp]: "inv (w\<lparr>whens := ws\<rparr>) = inv w"
  unfolding inv_def by (intro iff_allI inv_at_same) auto

lemma busy_idle_imp: "inv_at n w \<Longrightarrow> idle n w \<Longrightarrow> called_with n c args w"
  by (auto simp: inv_at_def idle_def called_with_def)

lemma pre_resolve: "inv w \<Longrightarrow> pre (TResolve n c args) w"
  by (simp add: inv_iff[of w n])

lemma inv_but_upd [simp]: "inv_but n (upd n f w) = inv_but n w"
  unfolding inv_but_def by (rule iff_allI, rule imp_cong, simp, rule inv_at_same) auto

lemma called_with_upd [simp]: "called_with n c args (upd m f w) = called_with n c args w"
  by (simp add: called_with_def)

definition inv_upto :: "prog \<Rightarrow> nat \<Rightarrow> bool" where
  "inv_upto p k \<longleftrightarrow> (\<forall>t w out w'. exec p k t w = Some (out, w') \<longrightarrow> pre t w \<longrightarrow> post t w')"

lemma inv_upto_post: "inv_upto p k \<Longrightarrow> exec p k t w = Some (out, w') \<Longrightarrow> pre t w \<Longrightarrow> post t w'"
  by (simp add: inv_upto_def)

lemma inv_upto_inv:
  assumes "inv_upto p k" "exec p k t w = Some (out, w')" "\<forall>n c a. t \<noteq> TFire n c a" "inv w"
  shows "inv w'"
  using inv_upto_post[OF assms(1,2)] assms(3,4) pre_resolve by (cases t) auto

lemma inv_done:
  assumes up: "inv_upto p k" and ex: "exec p (Suc k) (TDone n as) w = Some (out, w')" and "inv w"
  shows "inv w'"
proof (cases "cancelled (sdefs w n) \<or> fired (sdefs w n) = None")
  case True
  with assms show ?thesis by (auto simp: method_defs done_args_flat split: if_splits option.splits)
next
  case False
  then obtain c args where f: "fired (sdefs w n) = Some (c, args)" and nc: "\<not> cancelled (sdefs w n)"
    by auto
  let ?w1 = "done_args n as (upd n (\<lambda>s. s\<lparr>fired := None\<rparr>) w)"
  have "exec p k (TResolve n c args) ?w1 = Some (out, w')"
    using ex f nc by (simp add: method_defs)
  moreover have "pre (TResolve n c args) ?w1"
    using \<open>inv w\<close> f nc inv_iff[of w n] by (auto simp: done_args_flat idle_def inv_at_def)
  ultimately show ?thesis using inv_upto_post[OF up] by fastforce
qed

lemma inv_resolve:
  assumes up: "inv_upto p k" and ex: "exec p (Suc k) (TResolve n c args) w = Some (out, w')"
    and pre: "pre (TResolve n c args) w"
  shows "inv w'"
proof (cases "cancelled (sdefs w n) \<or> fired (sdefs w n) \<noteq> None \<or> firing (sdefs w n)")
  case True
  with ex pre show ?thesis by (auto simp: method_defs inv_iff[of _ n] idle_def)
next
  case False
  let ?w1 = "upd n (\<lambda>s. s\<lparr>firing := True\<rparr>) w"
  from False ex obtain w2 where
    r: "exec p k (TFire n c args) ?w1 = Some (out, w2)"
    and w': "w' = upd n (\<lambda>s. s\<lparr>fired := Some (c, args), firing := False\<rparr>) w2"
    by (auto simp: method_defs split: option.splits)
  have F: "\<not> cancelled (sdefs w n)" "fired (sdefs w n) = None" "\<not> firing (sdefs w n)"
    using False by blast+
  then have "idle n w" by (simp add: idle_def)
  then have "called_with n c args w" using pre busy_idle_imp[of n w] by auto
  then have "pre (TFire n c args) ?w1" using pre F by (auto simp: busy_def)
  from inv_upto_post[OF up r this] show ?thesis
    using w' by (simp add: inv_iff[of _ n] inv_at_def)
qed

lemma inv_fire:
  assumes up: "inv_upto p k" and ex: "exec p (Suc k) (TFire n c args) w = Some (out, w')"
    and pre: "pre (TFire n c args) w"
  shows "post (TFire n c args) w'"
proof (cases "callbacks (sdefs w n)")
  case Nil
  with ex pre show ?thesis by (auto simp: method_defs)
next
  case (Cons f fs)
  let ?w1 = "(upd n (\<lambda>s. s\<lparr>callbacks := fs\<rparr>) w)\<lparr>clog := clog w @ [(n, f, c, args)]\<rparr>"
  from pre have pw: "inv_but n w" "busy n w" "called_with n c args w" by auto
  have b1: "busy n ?w1" and c1: "called_with n c args ?w1"
    using pw by (auto simp: busy_def called_with_def)
  have "inv_at m ?w1 = inv_at m w" if "m \<noteq> n" for m
    using that by (intro inv_at_same) auto
  then have i1: "inv ?w1"
    unfolding inv_iff[of _ n] using inv_at_busy[OF b1] pw(1) by (simp add: inv_but_def)
  have step: "post (TFire n c args) w2" if "exec p k (TCall f c args) ?w1 = Some (o2, w2)" for o2 w2
  proof -
    have "keeps n ?w1 w2" by (rule exec_keeps[OF that b1]) simp
    moreover have "inv w2" using inv_upto_inv[OF up that _ i1] by simp
    ultimately show ?thesis using b1 c1 inv_iff[of w2 n]
      by (auto simp: keeps_def busy_def called_with_def)
  qed
  from ex Cons consider (e) e where "exec p k (TCall f c args) ?w1 = Some (Exn e, w')"
    | (r) v w2 where "exec p k (TCall f c args) ?w1 = Some (Ret v, w2)"
        "exec p k (TFire n c args) w2 = Some (out, w')"
    by (auto simp: method_defs)
  then show ?thesis
  proof cases
    case e
    then show ?thesis using step by simp
  next
    case r
    then show ?thesis using step[OF r(1)] inv_upto_post[OF up r(2)] by simp
  qed
qed

lemma inv_call_run:
  assumes up: "inv_upto p k" and ex: "exec p (Suc k) t w = Some (out, w')" and "inv w"
    and t: "t = TCall f c args \<or> t = TRun cmds o1"
  shows "inv w'"
  using t
proof (elim disjE)
  assume "t = TCall f c args"
  with ex \<open>inv w\<close> show ?thesis
    by (cases f) (auto simp: method_defs split: prod.splits option.splits if_splits
      elim!: inv_upto_inv[OF up] dest!: inv_upto_inv[OF up])
next
  assume "t = TRun cmds o1"
  with ex \<open>inv w\<close> show ?thesis
    by (cases "(exec p k, cmds, o1, w)" rule: run_cmds.cases)
      (auto simp: method_defs elim!: inv_upto_inv[OF up] dest!: inv_upto_inv[OF up])
qed

lemma exec_inv:
  "exec p k t w = Some (out, w') \<Longrightarrow> pre t w \<Longrightarrow> post t w'"
proof (induction k arbitrary: t w out w')
  case 0
  then show ?case by simp
next
  case (Suc k)
  then have up: "inv_upto p k" by (simp add: inv_upto_def)
  note ex = Suc.prems(1) and pr = Suc.prems(2)
  show ?case
  proof (cases t)
    case (TDone n as)
    show ?thesis using inv_done[OF up ex[unfolded TDone]] pr by (simp add: TDone)
  next
    case (TResolve n c args)
    show ?thesis using inv_resolve[OF up ex[unfolded TResolve] pr[unfolded TResolve]] by (simp add: TResolve)
  next
    case (TFire n c args)
    show ?thesis using inv_fire[OF up ex[unfolded TFire] pr[unfolded TFire]] by (simp only: TFire)
  qed (use inv_call_run[OF up ex] pr in simp_all)
qed

lemma exec_firing:
  "exec p k t w = Some (out, w') \<Longrightarrow> firing (sdefs w' n) = firing (sdefs w n)"
proof (induction k arbitrary: t w out w')
  case 0
  then show ?case by simp
next
  case (Suc k)
  note IH = Suc.IH
  show ?case
  proof (cases t)
    case (TDone m as)
    with Suc.prems show ?thesis
      by (auto simp: method_defs done_args_flat split: if_splits option.splits dest!: IH)
  next
    case (TResolve m c args)
    with Suc.prems show ?thesis
      by (auto simp: method_defs split: if_splits option.splits dest!: IH)
  next
    case (TFire m c args)
    with Suc.prems show ?thesis
      by (auto simp: method_defs split: list.splits if_splits dest!: IH)
  next
    case (TCall f c args)
    with Suc.prems show ?thesis
      by (cases f) (auto simp: method_defs split: prod.splits option.splits if_splits dest!: IH)
  next
    case (TRun cmds out1)
    with Suc.prems show ?thesis
      by (cases "(exec p k, cmds, out1, w)" rule: run_cmds.cases) (auto simp: method_defs dest!: IH)
  qed
qed

text \<open>
  The states that a page can reach: start with no list in use and apply operations from outside
  of any callback.
\<close>

inductive reachable :: "prog \<Rightarrow> world \<Rightarrow> bool" for p where
  start: "reachable p init_world"
| op: "reachable p w \<Longrightarrow> exec p k t w = Some (out, w') \<Longrightarrow> (\<forall>n c args. t \<noteq> TFire n c args)
    \<Longrightarrow> reachable p w'"
| new: "reachable p w \<Longrightarrow> new_deferred w = (d, w') \<Longrightarrow> reachable p w'"
| pipe: "reachable p w \<Longrightarrow> pipe (exec p k) d f g w = Some (out, w') \<Longrightarrow> reachable p w'"
| combine: "reachable p w \<Longrightarrow> jq_when (exec p k) vs w = Some (out, w') \<Longrightarrow> reachable p w'"

definition settled :: "world \<Rightarrow> bool" where
  "settled w \<longleftrightarrow> inv w \<and> (\<forall>n. \<not> firing (sdefs w n))"

lemma settled_exec:
  "exec p k t w = Some (out, w') \<Longrightarrow> (\<forall>n c args. t \<noteq> TFire n c args) \<Longrightarrow> settled w \<Longrightarrow> settled w'"
  using exec_inv[of p k t w out w'] exec_firing[of p k t w out w'] pre_resolve
  by (cases t) (auto simp: settled_def)

lemma settled_same:
  "settled w \<Longrightarrow> (\<And>n. firing (sdefs w' n) = firing (sdefs w n) \<and> fired (sdefs w' n) = fired (sdefs w n))
   \<Longrightarrow> clog w' = clog w \<Longrightarrow> settled w'"
  unfolding settled_def inv_def by (metis inv_at_same log_of_def)

lemma done_args_same:
  "firing (sdefs (done_args m as w) n) = firing (sdefs w n)"
  "fired (sdefs (done_args m as w) n) = fired (sdefs w n)"
  "clog (done_args m as w) = clog w"
  by (induction m as w rule: done_args.induct) simp_all

lemma settled_new_deferred: "settled w \<Longrightarrow> new_deferred w = (d, w') \<Longrightarrow> settled w'"
  by (erule settled_same) (auto simp: new_deferred_def Let_def split: if_splits)

lemma settled_whens [simp]: "settled (w\<lparr>whens := ws\<rparr>) = settled w"
  by (simp add: settled_def)

lemma settled_when_loop:
  "when_loop (exec p k) q d i vs w = Some (out, w') \<Longrightarrow> settled w \<Longrightarrow> settled w'"
proof (induction vs arbitrary: i w)
  case Nil
  then show ?case by simp
next
  case (Cons v vs)
  then show ?case
    by (auto simp: andThen_Some deferred_then_def split: option.splits dest!: settled_exec)
qed

lemma settled_jq_when:
  assumes "jq_when (exec p k) vs w = Some (out, w')" and "settled w"
  shows "settled w'"
proof -
  obtain d w1 where nd: "new_deferred w = (d, w1)" by fastforce
  have s1: "settled w1" using assms(2) nd by (rule settled_new_deferred)
  have r: "settled w3" if "exec p k (TResolve n c args) w2 = Some (o2, w3)" "settled w2" for n c args o2 w2 w3
    using settled_exec[OF that(1)] that(2) by simp
  show ?thesis
  proof (cases "length vs \<le> 1")
    case True
    then show ?thesis
      using assms nd s1 by (auto simp: jq_when_def andThen_Some split: option.splits dest!: r)
  next
    case False
    let ?w2 = "w1\<lparr>whens := whens w1 @ [\<lparr>wargs = vs, wcount = int (length vs), wdef = d\<rparr>]\<rparr>"
    have l: "settled w3" if "when_loop (exec p k) q d i us ?w2 = Some (o2, w3)" for q i us o2 w3
      using settled_when_loop[OF that] s1 by simp
    show ?thesis
      using assms(1) False nd
      by (auto simp: jq_when_def andThen_Some Let_def split: if_splits dest!: l r)
  qed
qed

lemma settled_init: "settled init_world"
  by (simp add: settled_def inv_def inv_at_def init_world_def new_sdef_def log_of_def)

lemma reachable_settled: "reachable p w \<Longrightarrow> settled w"
proof (induction rule: reachable.induct)
  case (op w k t out w')
  then show ?case by (blast intro: settled_exec)
next
  case (pipe w k d f g out w')
  then show ?case
    by (auto simp: pipe_def split: prod.splits elim!: settled_exec dest: settled_new_deferred)
next
  case (combine w k vs out w')
  then show ?case by (blast intro: settled_jq_when)
qed (auto intro: settled_init settled_new_deferred)

text \<open>
  C1: The first resolution of a callback list wins. In every state a page can reach, whatever callbacks do (register more callbacks, resolve again, throw), two calls made from the same list were made with the same context and arguments, namely the ones the list has recorded as fired.
\<close>

theorem first_resolution_wins:
  assumes "reachable p w" and "(n, f, c, args) \<in> set (clog w)" and "(n, g, c', args') \<in> set (clog w)"
  shows "c = c' \<and> args = args' \<and> fired (sdefs w n) = Some (c, args)"
proof -
  have "settled w" by (rule reachable_settled) fact
  then have "inv_at n w" "\<not> firing (sdefs w n)" by (auto simp: settled_def inv_def)
  moreover have "(f, c, args) \<in> set (log_of w n)" "(g, c', args') \<in> set (log_of w n)"
    using assms(2,3) by (force simp: log_of_def)+
  moreover obtain c0 a0 where "fired (sdefs w n) = Some (c0, a0)"
    using calculation by (cases "fired (sdefs w n)") (auto simp: inv_at_def)
  ultimately have "called_with n c0 a0 w" and "fired (sdefs w n) = Some (c0, a0)"
    and "(f, c, args) \<in> set (log_of w n)" "(g, c', args') \<in> set (log_of w n)"
    by (simp_all add: inv_at_def)
  then show ?thesis unfolding called_with_def by (metis prod.inject snd_conv)
qed

section \<open>Callbacks that do not call back\<close>

definition quiet_fn :: "prog \<Rightarrow> nat \<Rightarrow> bool" where
  "quiet_fn p u \<longleftrightarrow> (\<forall>c args w. \<exists>v. p u c args w = ([], Ret v))"

definition throws :: "prog \<Rightarrow> nat \<Rightarrow> dval \<Rightarrow> bool" where
  "throws p u e \<longleftrightarrow> (\<forall>c args w. p u c args w = ([], Exn e))"

lemma exec_TResolve: "exec p (k + 1) (TResolve n c args) w = resolve_with (exec p k) n c args w"
  and exec_TDone: "exec p (k + 1) (TDone n as) w = done_sd (exec p k) n as w"
  and exec_TFire: "exec p (k + 1) (TFire n c args) w = fire_loop (exec p k) n c args w"
  by simp_all

lemma exec_call_quiet_fn:
  "quiet_fn p u \<Longrightarrow> \<exists>v. exec p (Suc (Suc k)) (TCall (UserFn u) c args) w = Some (Ret v, w)"
proof -
  assume "quiet_fn p u"
  then obtain v where "p u c args w = ([], Ret v)" unfolding quiet_fn_def by blast
  then show ?thesis by simp
qed

lemma exec_call_throws:
  "throws p u e \<Longrightarrow> exec p (Suc (Suc k)) (TCall (UserFn u) c args) w = Some (Exn e, w)"
  by (simp add: throws_def)

lemma exec_fire_passive:
  "\<forall>u \<in> set us. quiet_fn p u \<Longrightarrow> callbacks (sdefs w n) = map UserFn us @ fs \<Longrightarrow>
   exec p (k + length us + 2) (TFire n c args) w =
   exec p (k + 2) (TFire n c args)
     ((upd n (\<lambda>s. s\<lparr>callbacks := fs\<rparr>) w)\<lparr>clog := clog w @ map (\<lambda>u. (n, UserFn u, c, args)) us\<rparr>)"
proof (induction us arbitrary: w)
  case Nil
  have "upd n (\<lambda>s. s\<lparr>callbacks := fs\<rparr>) w = w"
    using Nil by (simp add: upd_def fun_upd_idem)
  then show ?case by simp
next
  case (Cons u us)
  let ?w1 = "(upd n (\<lambda>s. s\<lparr>callbacks := map UserFn us @ fs\<rparr>) w)\<lparr>clog := clog w @ [(n, UserFn u, c, args)]\<rparr>"
  obtain v where v: "exec p (Suc (Suc (k + length us))) (TCall (UserFn u) c args) ?w1 = Some (Ret v, ?w1)"
    using exec_call_quiet_fn Cons.prems(1) by (meson list.set_intros(1))
  have "exec p (k + length (u # us) + 2) (TFire n c args) w
      = exec p (k + length us + 2) (TFire n c args) ?w1"
    using v Cons.prems(2) by (simp add: fire_loop_def andThen_def)
  also have "\<dots> = exec p (k + 2) (TFire n c args)
     ((upd n (\<lambda>s. s\<lparr>callbacks := fs\<rparr>) ?w1)\<lparr>clog := clog ?w1 @ map (\<lambda>u. (n, UserFn u, c, args)) us\<rparr>)"
    using Cons by simp
  also have "(upd n (\<lambda>s. s\<lparr>callbacks := fs\<rparr>) ?w1)\<lparr>clog := clog ?w1 @ map (\<lambda>u. (n, UserFn u, c, args)) us\<rparr>
    = (upd n (\<lambda>s. s\<lparr>callbacks := fs\<rparr>) w)\<lparr>clog := clog w @ map (\<lambda>u. (n, UserFn u, c, args)) (u # us)\<rparr>"
    by (simp add: upd_def)
  finally show ?case .
qed

text \<open>
  Resolving a list whose callbacks do not call back runs every callback exactly once, in the order of registration, with the context and arguments given, empties the list and records the firing; the fuel needed is the number of callbacks plus three.
\<close>

theorem resolve_runs_all_in_order:
  assumes "\<forall>u \<in> set us. quiet_fn p u" and "sdefs w n = \<lparr>callbacks = map UserFn us, fired = None,
      firing = False, cancelled = False\<rparr>"
  shows "exec p (k + length us + 3) (TResolve n c args) w = Some (Ret DUndef,
     w\<lparr>sdefs := (sdefs w)(n := \<lparr>callbacks = [], fired = Some (c, args), firing = False, cancelled = False\<rparr>),
       clog := clog w @ map (\<lambda>u. (n, UserFn u, c, args)) us\<rparr>)"
proof -
  let ?w1 = "upd n (\<lambda>s. s\<lparr>firing := True\<rparr>) w"
  have "exec p (k + length us + 2) (TFire n c args) ?w1 = Some (Ret DUndef,
     (upd n (\<lambda>s. s\<lparr>callbacks := []\<rparr>) ?w1)\<lparr>clog := clog ?w1 @ map (\<lambda>u. (n, UserFn u, c, args)) us\<rparr>)"
    using exec_fire_passive[of us p ?w1 n "[]" k c args] assms
    by (simp add: fire_loop_def)
  then show ?thesis
    using assms(2) exec_TResolve[of p "k + length us + 2"]
    by (simp add: resolve_with_def upd_def eval_nat_numeral del: exec.simps)
qed

text \<open>
  A callback that throws: the ones before it have run, the list counts as fired, and the ones
  after it stay on the list until a later \<open>done\<close> runs them before its own.
\<close>

text \<open>
  C3: In a deferred, whose lists begin with the cancel of the other list, let the callbacks before one that throws return without
  using callback lists. The exception leaves resolveWith after its finally block: the other list is cancelled, the callbacks before
  it have run, the list counts as resolved and no longer firing, and the callbacks after it are still on the list.
\<close>

theorem throwing_callback_keeps_the_rest:
  assumes us: "\<forall>u \<in> set us. quiet_fn p u" and x: "throws p x e" and nm: "n \<noteq> m"
    and s: "sdefs w n = \<lparr>callbacks = CancelOf m # map UserFn us @ UserFn x # fs, fired = None,
      firing = False, cancelled = False\<rparr>"
  shows "exec p (k + length us + 5) (TResolve n c args) w = Some (Exn e,
     (cancel m w)\<lparr>sdefs := (sdefs (cancel m w))(n := \<lparr>callbacks = fs, fired = Some (c, args), firing = False, cancelled = False\<rparr>),
       clog := clog w @ (n, CancelOf m, c, args) # map (\<lambda>u. (n, UserFn u, c, args)) (us @ [x])\<rparr>)"
proof -
  let ?w1 = "upd n (\<lambda>s. s\<lparr>firing := True\<rparr>) w"
  let ?w2 = "cancel m ((upd n (\<lambda>s. s\<lparr>callbacks := map UserFn us @ UserFn x # fs\<rparr>) ?w1)\<lparr>clog := clog w @ [(n, CancelOf m, c, args)]\<rparr>)"
  have s2: "callbacks (sdefs ?w2 n) = map UserFn us @ UserFn x # fs" using s nm by simp
  have "exec p (Suc k + length us + 2) (TFire n c args) ?w2 = Some (Exn e,
     (upd n (\<lambda>s. s\<lparr>callbacks := fs\<rparr>) ?w2)\<lparr>clog := clog ?w2 @ map (\<lambda>u. (n, UserFn u, c, args)) (us @ [x])\<rparr>)"
    using exec_fire_passive[of us p ?w2 n "UserFn x # fs" "Suc k" c args] us s2
      exec_call_throws[OF x, of k c args]
    by (simp add: fire_loop_def andThen_def upd_def)
  then have "exec p (Suc k + length us + 3) (TFire n c args) ?w1 = Some (Exn e,
     (upd n (\<lambda>s. s\<lparr>callbacks := fs\<rparr>) ?w2)\<lparr>clog := clog ?w2 @ map (\<lambda>u. (n, UserFn u, c, args)) (us @ [x])\<rparr>)"
    using s by (simp add: fire_loop_def andThen_def eval_nat_numeral)
  then have "exec p (k + length us + 5) (TResolve n c args) w = Some (Exn e, upd n (\<lambda>s. s\<lparr>fired := Some (c, args), firing := False\<rparr>)
     ((upd n (\<lambda>s. s\<lparr>callbacks := fs\<rparr>) ?w2)\<lparr>clog := clog ?w2 @ map (\<lambda>u. (n, UserFn u, c, args)) (us @ [x])\<rparr>))"
    using s exec_TResolve[of p "Suc k + length us + 3"]
    by (simp add: resolve_with_def eval_nat_numeral del: exec.simps)
  also have "upd n (\<lambda>s. s\<lparr>fired := Some (c, args), firing := False\<rparr>)
     ((upd n (\<lambda>s. s\<lparr>callbacks := fs\<rparr>) ?w2)\<lparr>clog := clog ?w2 @ map (\<lambda>u. (n, UserFn u, c, args)) (us @ [x])\<rparr>)
     = (cancel m w)\<lparr>sdefs := (sdefs (cancel m w))(n := \<lparr>callbacks = fs, fired = Some (c, args), firing = False, cancelled = False\<rparr>),
       clog := clog w @ (n, CancelOf m, c, args) # map (\<lambda>u. (n, UserFn u, c, args)) (us @ [x])\<rparr>"
    using s nm by (simp add: upd_def cancel_def fun_upd_twist)
  finally show ?thesis .
qed

text \<open>
  A done() on a list that has fired runs at once, with the recorded context and arguments: first the callbacks left over by an exception, then the new ones, arrays flattened.
\<close>

theorem done_after_resolve_runs_at_once:
  assumes us: "\<forall>u \<in> set us. quiet_fn p u" and vs: "\<forall>u \<in> set vs. quiet_fn p u"
    and fl: "flat_args as = map UserFn vs"
    and s: "sdefs w n = \<lparr>callbacks = map UserFn us, fired = Some (c, args), firing = False, cancelled = False\<rparr>"
  shows "exec p (k + length (us @ vs) + 4) (TDone n as) w = Some (Ret DUndef,
     w\<lparr>sdefs := (sdefs w)(n := \<lparr>callbacks = [], fired = Some (c, args), firing = False, cancelled = False\<rparr>),
       clog := clog w @ map (\<lambda>u. (n, UserFn u, c, args)) (us @ vs)\<rparr>)"
proof -
  let ?w1 = "done_args n as (upd n (\<lambda>s. s\<lparr>fired := None\<rparr>) w)"
  have e: "?w1 = upd n (\<lambda>s. \<lparr>callbacks = map UserFn (us @ vs), fired = None, firing = False, cancelled = False\<rparr>) w"
    using s fl by (simp add: done_args_flat upd_def)
  have "\<forall>u \<in> set (us @ vs). quiet_fn p u" using us vs fl by auto
  from resolve_runs_all_in_order[OF this, of ?w1 n k c args] e
  have "exec p (k + length (us @ vs) + 3) (TResolve n c args) ?w1 = Some (Ret DUndef,
     w\<lparr>sdefs := (sdefs w)(n := \<lparr>callbacks = [], fired = Some (c, args), firing = False, cancelled = False\<rparr>),
       clog := clog w @ map (\<lambda>u. (n, UserFn u, c, args)) (us @ vs)\<rparr>)"
    by (simp add: upd_def)
  then show ?thesis
    using s exec_TDone[of p "k + length (us @ vs) + 3"] by (simp add: done_sd_def eval_nat_numeral del: exec.simps)
qed

section \<open>A deferred is never both resolved and rejected\<close>

text \<open>
  The \<open>cancel\<close> of a full deferred's lists is deleted from the object (line 1110), so user code
  cannot register or call it: no callback it passes is \<open>CancelOf\<close> one of the two lists.
\<close>

fun no_cancel :: "sid \<Rightarrow> sid \<Rightarrow> cb \<Rightarrow> bool" where
  "no_cancel n m (CancelOf l) \<longleftrightarrow> l \<noteq> n \<and> l \<noteq> m"
| "no_cancel n m _ \<longleftrightarrow> True"

abbreviation clean :: "sid \<Rightarrow> sid \<Rightarrow> cb list \<Rightarrow> bool" where
  "clean n m \<equiv> list_all (no_cancel n m)"

fun clean_cmd :: "sid \<Rightarrow> sid \<Rightarrow> cmd \<Rightarrow> bool" where
  "clean_cmd n m (CDone l as) \<longleftrightarrow> clean n m (flat_args as)"
| "clean_cmd n m (CResolveWith l c args) \<longleftrightarrow> True"

definition clean_prog :: "sid \<Rightarrow> sid \<Rightarrow> prog \<Rightarrow> bool" where
  "clean_prog n m p \<longleftrightarrow> (\<forall>u c args w. \<forall>cmd \<in> set (fst (p u c args w)). clean_cmd n m cmd)"

definition others_clean :: "sid \<Rightarrow> sid \<Rightarrow> world \<Rightarrow> bool" where
  "others_clean n m w \<longleftrightarrow> (\<forall>l. l \<noteq> n \<longrightarrow> l \<noteq> m \<longrightarrow> clean n m (callbacks (sdefs w l)))"

definition guarded :: "sid \<Rightarrow> sid \<Rightarrow> sid \<Rightarrow> sid \<Rightarrow> world \<Rightarrow> bool" where
  "guarded n m a b w \<longleftrightarrow> (\<exists>cs. callbacks (sdefs w a) = CancelOf b # cs \<and> clean n m cs)"

text \<open>
  The life of the pair \<open>(n, m)\<close>: untouched; the list \<open>a\<close> has started to fire but has not yet
  run its first callback, the other's \<open>cancel\<close>; \<open>b\<close> is cancelled and has never fired.
\<close>

definition untouched :: "sid \<Rightarrow> sid \<Rightarrow> world \<Rightarrow> bool" where
  "untouched n m w \<longleftrightarrow> idle n w \<and> idle m w \<and> \<not> cancelled (sdefs w n) \<and> \<not> cancelled (sdefs w m)
     \<and> guarded n m n m w \<and> guarded n m m n w \<and> others_clean n m w"

definition starting :: "sid \<Rightarrow> sid \<Rightarrow> sid \<Rightarrow> sid \<Rightarrow> world \<Rightarrow> bool" where
  "starting n m a b w \<longleftrightarrow> idle b w \<and> guarded n m a b w \<and> others_clean n m w"

definition taken :: "sid \<Rightarrow> sid \<Rightarrow> sid \<Rightarrow> world \<Rightarrow> bool" where
  "taken n m b w \<longleftrightarrow> cancelled (sdefs w b) \<and> idle b w \<and> (\<forall>l. clean n m (callbacks (sdefs w l)))"

definition pair_inv :: "sid \<Rightarrow> sid \<Rightarrow> world \<Rightarrow> bool" where
  "pair_inv n m w \<longleftrightarrow> untouched n m w \<or> taken n m n w \<or> taken n m m w"

lemmas pair_defs = pair_inv_def untouched_def starting_def taken_def others_clean_def guarded_def idle_def

fun pair_pre :: "sid \<Rightarrow> sid \<Rightarrow> task \<Rightarrow> world \<Rightarrow> bool" where
  "pair_pre n m (TFire l c args) w \<longleftrightarrow>
     (if l = n then starting n m n m w \<or> taken n m m w
      else if l = m then starting n m m n w \<or> taken n m n w
      else pair_inv n m w)"
| "pair_pre n m (TDone l as) w \<longleftrightarrow> pair_inv n m w \<and> clean n m (flat_args as)"
| "pair_pre n m (TCall f c args) w \<longleftrightarrow> pair_inv n m w \<and> clean n m [f]"
| "pair_pre n m (TRun cmds out) w \<longleftrightarrow> pair_inv n m w \<and> (\<forall>cmd \<in> set cmds. clean_cmd n m cmd)"
| "pair_pre n m (TResolve l c args) w \<longleftrightarrow> pair_inv n m w"

definition later :: "sid \<Rightarrow> sid \<Rightarrow> world \<Rightarrow> world \<Rightarrow> bool" where
  "later n m w w' \<longleftrightarrow> pair_inv n m w' \<and> (taken n m n w \<longrightarrow> taken n m n w') \<and> (taken n m m w \<longrightarrow> taken n m m w')"

fun pair_post :: "sid \<Rightarrow> sid \<Rightarrow> task \<Rightarrow> world \<Rightarrow> world \<Rightarrow> bool" where
  "pair_post n m (TFire l c args) w w' \<longleftrightarrow> later n m w w' \<and> (l = n \<longrightarrow> taken n m m w') \<and> (l = m \<longrightarrow> taken n m n w')"
| "pair_post n m _ w w' \<longleftrightarrow> later n m w w'"

lemma later_refl: "pair_inv n m w \<Longrightarrow> later n m w w"
  by (simp add: later_def)

lemma later_trans: "later n m w1 w2 \<Longrightarrow> later n m w2 w3 \<Longrightarrow> later n m w1 w3"
  by (auto simp: later_def)

lemma later_inv: "later n m w w' \<Longrightarrow> pair_inv n m w'"
  by (simp add: later_def)

lemma later_done_args:
  assumes "pair_inv n m w" "clean n m (flat_args as)" "\<not> cancelled (sdefs w l)" "n \<noteq> m"
  shows "later n m w (done_args l as w)"
  using assms by (auto simp: later_def done_args_flat pair_defs)

lemma later_cancel_other:
  assumes "pair_inv n m w" "l \<noteq> n" "l \<noteq> m"
  shows "later n m w (cancel l w)"
  using assms by (auto simp: later_def pair_defs)

lemma later_upd_other:
  assumes "pair_inv n m w" "l \<noteq> n" "l \<noteq> m" "\<And>s. clean n m (callbacks s) \<Longrightarrow> clean n m (callbacks (f s))"
  shows "later n m w (upd l f w)"
  using assms by (auto simp: later_def pair_defs)

lemma starting_fire:
  "untouched n m w \<Longrightarrow> n \<noteq> m \<Longrightarrow> starting n m n m (upd n (\<lambda>s. s\<lparr>firing := b\<rparr>) w)"
  "untouched n m w \<Longrightarrow> n \<noteq> m \<Longrightarrow> starting n m m n (upd m (\<lambda>s. s\<lparr>firing := b\<rparr>) w)"
  by (simp_all add: pair_defs)

lemma taken_upd:
  "taken n m b w \<Longrightarrow> l \<noteq> b \<Longrightarrow> callbacks (f (sdefs w l)) = callbacks (sdefs w l) \<Longrightarrow> taken n m b (upd l f w)"
  by (simp add: taken_def idle_def)

lemma taken_clean: "taken n m b w \<Longrightarrow> clean n m (callbacks (sdefs w l))"
  by (simp add: taken_def)

lemma pair_inv_clean: "pair_inv n m w \<Longrightarrow> l \<noteq> n \<Longrightarrow> l \<noteq> m \<Longrightarrow> clean n m (callbacks (sdefs w l))"
  by (auto simp: pair_inv_def untouched_def others_clean_def taken_clean)

lemma pop_callback:
  assumes "clean n m cs" and "w1 = (upd l (\<lambda>s. s\<lparr>callbacks := cs\<rparr>) w)\<lparr>clog := g\<rparr>"
  shows "taken n m b w \<Longrightarrow> taken n m b w1"
    and "l \<noteq> n \<Longrightarrow> l \<noteq> m \<Longrightarrow> untouched n m w \<Longrightarrow> untouched n m w1"
  using assms by (auto simp: taken_def untouched_def idle_def guarded_def others_clean_def)

lemma pipe_fn_cases:
  assumes "pipe_fn p rec u d d' act c args w = Some (out, w')"
  obtains (Exn) e where "rec (TRun (fst (p u c args w)) (snd (p u c args w))) w = Some (Exn e, w')"
  | (Ret) v w2 t2 where "rec (TRun (fst (p u c args w)) (snd (p u c args w))) w = Some (Ret v, w2)"
      "rec t2 w2 = Some (out, w')"
      "(\<exists>l cc aa. t2 = TResolve l cc aa) \<or>
       (\<exists>l i l' i'. t2 = TRun [CDone l [AFn (ResolveOf i)], CDone l' [AFn (ResolveOf i')]] (Ret DUndef))"
proof -
  let ?r = "rec (TRun (fst (p u c args w)) (snd (p u c args w))) w"
  from assms consider (1) e where "?r = Some (Exn e, w')"
    | (2) v w2 where "?r = Some (Ret v, w2)"
      "(case promise_of v of
          Some r \<Rightarrow> rec (TRun [CDone (done_of w2 r) [AFn (ResolveOf (done_of w2 d'))],
                              CDone (fail_of w2 r) [AFn (ResolveOf (fail_of w2 d'))]] (Ret DUndef)) w2
        | None \<Rightarrow> rec (TResolve (if act then done_of w2 d' else fail_of w2 d')
                    (if c = DDeferred d then DDeferred d' else c) [v]) w2) = Some (out, w')"
    unfolding pipe_fn_def andThen_Some case_prod_beta by blast
  then show thesis
  proof cases
    case 1
    then show ?thesis by (rule Exn)
  next
    case 2
    then show ?thesis by (cases "promise_of v") (auto intro: Ret)
  qed
qed

definition pair_upto :: "sid \<Rightarrow> sid \<Rightarrow> prog \<Rightarrow> nat \<Rightarrow> bool" where
  "pair_upto n m p k \<longleftrightarrow> (\<forall>t w out w'. exec p k t w = Some (out, w') \<longrightarrow> pair_pre n m t w \<longrightarrow> pair_post n m t w w')"

lemma pair_upto_post:
  "pair_upto n m p k \<Longrightarrow> exec p k t w = Some (out, w') \<Longrightarrow> pair_pre n m t w \<Longrightarrow> pair_post n m t w w'"
  by (simp add: pair_upto_def)

lemma pair_upto_later:
  assumes "pair_upto n m p k" "exec p k t w = Some (out, w')" "pair_pre n m t w"
  shows "later n m w w'"
  using pair_upto_post[OF assms] by (cases t) auto

lemma pair_done:
  assumes "n \<noteq> m" "pair_upto n m p k" "exec p (Suc k) (TDone l as) w = Some (out, w')"
    and pre: "pair_pre n m (TDone l as) w"
  shows "later n m w w'"
proof -
  let ?w1 = "done_args l as (upd l (\<lambda>s. s\<lparr>fired := None\<rparr>) w)"
  consider "cancelled (sdefs w l)" | "\<not> cancelled (sdefs w l)" "fired (sdefs w l) = None"
    | c args where "\<not> cancelled (sdefs w l)" "fired (sdefs w l) = Some (c, args)"
    by fastforce
  then show ?thesis
  proof cases
    case 3
    have "later n m w ?w1"
      using 3 pre assms(1) by (auto simp: later_def done_args_flat pair_defs)
    moreover from this have "later n m ?w1 w'"
      using assms(3) 3 pair_upto_later[OF assms(2), of "TResolve l c args" ?w1 out w'] later_inv
      by (simp add: done_sd_def)
    ultimately show ?thesis using later_trans by auto
  qed (use assms in \<open>auto simp: method_defs later_refl later_done_args\<close>)
qed

lemma pair_pre_fire:
  assumes "n \<noteq> m" "pair_inv n m w" "\<not> taken n m l w"
  shows "pair_pre n m (TFire l c args) (upd l (\<lambda>s. s\<lparr>firing := True\<rparr>) w)"
proof (cases "l = n \<or> l = m")
  case True
  then show ?thesis using assms by (auto simp: pair_inv_def intro: starting_fire taken_upd)
next
  case False
  then have "later n m w (upd l (\<lambda>s. s\<lparr>firing := True\<rparr>) w)" using assms(2) by (intro later_upd_other) auto
  with False show ?thesis by (simp add: later_def)
qed

lemma pair_resolve:
  assumes "n \<noteq> m" "pair_upto n m p k" "exec p (Suc k) (TResolve l c args) w = Some (out, w')"
    and pre: "pair_pre n m (TResolve l c args) w"
  shows "later n m w w'"
proof (cases "cancelled (sdefs w l) \<or> fired (sdefs w l) \<noteq> None \<or> firing (sdefs w l)")
  case True
  with assms show ?thesis by (auto simp: method_defs later_refl)
next
  case False
  let ?w1 = "upd l (\<lambda>s. s\<lparr>firing := True\<rparr>) w"
  from False assms(3) obtain w2 where
    r: "exec p k (TFire l c args) ?w1 = Some (out, w2)"
    and w': "w' = upd l (\<lambda>s. s\<lparr>fired := Some (c, args), firing := False\<rparr>) w2"
    by (auto simp: method_defs split: option.splits)
  have nt: "\<not> taken n m l w" using False by (simp add: taken_def)
  have "pair_inv n m w" using pre by simp
  then have po: "pair_post n m (TFire l c args) ?w1 w2"
    by (intro pair_upto_post[OF assms(2) r] pair_pre_fire assms(1) nt)
  have tk: "taken n m b w \<Longrightarrow> taken n m b ?w1" "taken n m b w2 \<Longrightarrow> taken n m b w'" if "b \<noteq> l" for b
    using that w' by (simp_all add: taken_upd)
  show ?thesis
  proof (cases "l = n \<or> l = m")
    case True
    then show ?thesis using po tk(2) nt assms(1) by (auto simp: later_def pair_inv_def)
  next
    case False
    then have "pair_inv n m w2" using po by (simp add: later_def)
    then have "later n m w2 w'" unfolding w' using False by (intro later_upd_other) auto
    then show ?thesis using False po tk(1) by (auto simp: later_def)
  qed
qed

text \<open>The first callback of a list of the pair cancels the other one.\<close>

lemma pair_fire_first:
  assumes "n \<noteq> m" "pair_upto n m p k" and ab: "l = n \<and> b = m \<or> l = m \<and> b = n"
    and st: "starting n m l b w" and ex: "exec p (Suc k) (TFire l c args) w = Some (out, w')"
  shows "pair_post n m (TFire l c args) w w'"
proof -
  obtain fs where cs: "callbacks (sdefs w l) = CancelOf b # fs" and cl: "clean n m fs"
    using st ab by (auto simp: starting_def guarded_def)
  let ?w1 = "(upd l (\<lambda>s. s\<lparr>callbacks := fs\<rparr>) w)\<lparr>clog := clog w @ [(l, CancelOf b, c, args)]\<rparr>"
  have "exec p k (TFire l c args) (cancel b ?w1) = Some (out, w')"
    using ex cs by (cases k) (auto simp: method_defs)
  moreover have tk: "taken n m b (cancel b ?w1)"
    using st ab assms(1) cl by (auto simp: pair_defs)
  then have "pair_pre n m (TFire l c args) (cancel b ?w1)" using ab by auto
  ultimately have "pair_post n m (TFire l c args) (cancel b ?w1) w'"
    by (rule pair_upto_post[OF assms(2)])
  moreover have "\<not> taken n m a w" for a
    using taken_clean[of n m a w l] st ab by (auto simp: starting_def guarded_def)
  ultimately show ?thesis using ab by (auto simp: later_def)
qed

lemma pair_fire_next:
  assumes up: "pair_upto n m p k" and ex: "exec p (Suc k) (TFire l c args) w = Some (out, w')"
    and cs: "callbacks (sdefs w l) = f # fs" and pi: "pair_inv n m w"
    and nu: "l = n \<longrightarrow> taken n m m w" "l = m \<longrightarrow> taken n m n w"
  shows "pair_post n m (TFire l c args) w w'"
proof -
  let ?w1 = "(upd l (\<lambda>s. s\<lparr>callbacks := fs\<rparr>) w)\<lparr>clog := clog w @ [(l, f, c, args)]\<rparr>"
  have cf: "clean n m (f # fs)"
    using pair_inv_clean[OF pi, of l] nu taken_clean[of n m _ w l] cs by fastforce
  have l1: "later n m w ?w1"
    using pi nu pop_callback[where ?w1.0 = ?w1 and cs = fs and l = l and w = w, OF _ refl] cf
    by (auto simp: later_def pair_inv_def)
  then have pc: "pair_pre n m (TCall f c args) ?w1"
    using cf by (simp add: later_def)
  have step: "later n m w w2" if "exec p k (TCall f c args) ?w1 = Some (o2, w2)" for o2 w2
    using pair_upto_later[OF up that pc] l1 later_trans by blast
  from ex cs consider (e) e where "exec p k (TCall f c args) ?w1 = Some (Exn e, w')"
    | (r) v w2 where "exec p k (TCall f c args) ?w1 = Some (Ret v, w2)"
        "exec p k (TFire l c args) w2 = Some (out, w')"
    by (auto simp: method_defs)
  then show ?thesis
  proof cases
    case e
    from step[OF this] show ?thesis using nu by (auto simp: later_def)
  next
    case r
    have l2: "later n m w w2" by (rule step[OF r(1)])
    then have "pair_pre n m (TFire l c args) w2" using nu by (auto simp: later_def)
    from pair_upto_post[OF up r(2) this] l2 show ?thesis
      using later_trans by auto
  qed
qed

lemma pair_fire:
  assumes "n \<noteq> m" "pair_upto n m p k" "exec p (Suc k) (TFire l c args) w = Some (out, w')"
    and pre: "pair_pre n m (TFire l c args) w"
  shows "pair_post n m (TFire l c args) w w'"
proof (cases "\<exists>b. (l = n \<and> b = m \<or> l = m \<and> b = n) \<and> starting n m l b w")
  case True
  then show ?thesis using pair_fire_first[OF assms(1,2) _ _ assms(3)] by blast
next
  case False
  then have pi: "pair_inv n m w" and nu: "l = n \<longrightarrow> taken n m m w" "l = m \<longrightarrow> taken n m n w"
    using pre by (auto simp: pair_inv_def split: if_splits)
  show ?thesis
  proof (cases "callbacks (sdefs w l)")
    case Nil
    with assms(3) have "w' = w" by (auto simp: method_defs)
    with pi nu show ?thesis by (auto simp: later_def)
  next
    case (Cons f fs)
    then show ?thesis by (rule pair_fire_next[OF assms(2,3) _ pi nu])
  qed
qed

lemma pair_call:
  assumes "n \<noteq> m" and cp: "clean_prog n m p" and up: "pair_upto n m p k"
    and ex: "exec p (Suc k) (TCall f c args) w = Some (out, w')"
    and pre: "pair_pre n m (TCall f c args) w"
  shows "later n m w w'"
proof -
  note IHl = pair_upto_later[OF up]
  have run: "later n m w w2" if "exec p k (TRun (fst (p u c args w)) o1) w = Some (o2, w2)" for u o1 o2 w2
    using IHl[OF that] pre cp by (simp add: clean_prog_def)
  have whens: "later n m w (w\<lparr>whens := ws\<rparr>)" for ws
    using pre by (simp add: later_def pair_defs)
  show ?thesis
  proof (cases f)
    case (UserFn u)
    with ex run[of u] show ?thesis by (auto split: prod.splits)
  next
    case (CancelOf l)
    with ex pre show ?thesis by (auto intro: later_cancel_other)
  next
    case (ResolveOf l)
    with ex pre show ?thesis by (auto dest: IHl)
  next
    case (PipeFn u d d' act)
    have pre2: "pair_pre n m (TResolve l cc aa) w2" "pair_pre n m (TRun [CDone x [AFn (ResolveOf y)],
        CDone x' [AFn (ResolveOf y')]] oo) w2" if "later n m w w2" for l cc aa w2 x y x' y' oo
      using that by (simp_all add: later_def)
    from ex PipeFn have "pipe_fn p (exec p k) u d d' act c args w = Some (out, w')" by simp
    then show ?thesis
    proof (cases rule: pipe_fn_cases)
      case (Exn e)
      then show ?thesis using run by auto
    next
      case (Ret v w2 t2)
      have l2: "later n m w w2" using run[OF Ret(1)] .
      then have "pair_pre n m t2 w2" using Ret(3) pre2 by auto
      then show ?thesis using IHl[OF Ret(2)] later_trans[OF l2] by blast
    qed
  next
    case (WhenFn q i)
    have "pair_pre n m (TResolve l cc aa) (w\<lparr>whens := ws\<rparr>)" for l cc aa ws
      using whens by (simp add: later_def)
    with ex WhenFn whens show ?thesis
      by (auto simp: when_fn_def Let_def split: if_splits intro: later_trans[OF whens IHl])
  qed
qed

lemma pair_run:
  assumes up: "pair_upto n m p k" and ex: "exec p (Suc k) (TRun cmds o1) w = Some (out, w')"
    and pre: "pair_pre n m (TRun cmds o1) w"
  shows "later n m w w'"
proof -
  note IHl = pair_upto_later[OF up]
  have st: "later n m w w'" if "exec p k t1 w = Some (Ret v, w1)" "pair_pre n m t1 w"
    "exec p k (TRun cs o1) w1 = Some (out, w')" "\<forall>cmd \<in> set cs. clean_cmd n m cmd" for t1 v w1 cs
  proof -
    have 1: "later n m w w1" using that IHl by blast
    then have "pair_pre n m (TRun cs o1) w1" using that by (simp add: later_def)
    with IHl[OF that(3)] 1 later_trans show ?thesis by blast
  qed
  show ?thesis
    using ex pre
    by (cases "(exec p k, cmds, o1, w)" rule: run_cmds.cases)
      (auto simp: andThen_Some intro: later_refl IHl st)
qed

lemma exec_pair:
  assumes "n \<noteq> m" and "clean_prog n m p"
  shows "exec p k t w = Some (out, w') \<Longrightarrow> pair_pre n m t w \<Longrightarrow> pair_post n m t w w'"
proof (induction k arbitrary: t w out w')
  case 0
  then show ?case by simp
next
  case (Suc k)
  then have up: "pair_upto n m p k" by (simp add: pair_upto_def)
  note ex = Suc.prems(1) and pr = Suc.prems(2)
  show ?case
  proof (cases t)
    case (TDone l as)
    show ?thesis using pair_done[OF assms(1) up ex[unfolded TDone] pr[unfolded TDone]] by (simp add: TDone)
  next
    case (TResolve l c args)
    show ?thesis
      using pair_resolve[OF assms(1) up ex[unfolded TResolve] pr[unfolded TResolve]] by (simp add: TResolve)
  next
    case (TFire l c args)
    show ?thesis using pair_fire[OF assms(1) up ex[unfolded TFire] pr[unfolded TFire]] by (simp only: TFire)
  next
    case (TCall f c args)
    show ?thesis using pair_call[OF assms up ex[unfolded TCall] pr[unfolded TCall]] by (simp add: TCall)
  next
    case (TRun cmds o1)
    show ?thesis using pair_run[OF up ex[unfolded TRun] pr[unfolded TRun]] by (simp add: TRun)
  qed
qed

inductive user_runs :: "prog \<Rightarrow> sid \<Rightarrow> sid \<Rightarrow> world \<Rightarrow> world \<Rightarrow> bool" for p n m w1 where
  none: "user_runs p n m w1 w1"
| run: "user_runs p n m w1 w2 \<Longrightarrow> \<forall>cmd \<in> set cmds. clean_cmd n m cmd
    \<Longrightarrow> exec p k (TRun cmds (Ret DUndef)) w2 = Some (out, w3) \<Longrightarrow> user_runs p n m w1 w3"

lemma user_runs_pair:
  assumes "n \<noteq> m" "clean_prog n m p" "user_runs p n m w1 w2" "pair_inv n m w1"
  shows "pair_inv n m w2"
  using assms(3,4)
proof (induction rule: user_runs.induct)
  case (run w2 cmds k out w3)
  then show ?case
    using exec_pair[OF assms(1,2) run.hyps(3)] by (simp add: later_def)
qed

lemma new_deferred_untouched:
  assumes "new_deferred w = (d, w1)" "sdefs w (nextsid w) = new_sdef" "sdefs w (Suc (nextsid w)) = new_sdef"
    and "\<forall>l. clean (nextsid w) (Suc (nextsid w)) (callbacks (sdefs w l))"
  shows "untouched (nextsid w) (Suc (nextsid w)) w1"
  using assms by (auto simp: new_deferred_def Let_def pair_defs new_sdef_def)

text \<open>
  C2: A Deferred is never both resolved and rejected: whatever user code does from the moment it is created, its two callback lists are never both firing or fired.
\<close>

theorem never_resolved_and_rejected:
  assumes "new_deferred w = (d, w1)" and "n = nextsid w" and "m = Suc n"
    and "sdefs w n = new_sdef" and "sdefs w m = new_sdef" and "\<forall>l. clean n m (callbacks (sdefs w l))"
    and "clean_prog n m p" and "user_runs p n m w1 w2"
  shows "\<not> (isResolved w2 n \<and> isResolved w2 m)"
proof -
  have "untouched n m w1" using new_deferred_untouched[of w d w1] assms by simp
  then have "pair_inv n m w2"
    using user_runs_pair[of n m p w1 w2] assms by (simp add: pair_inv_def)
  then show ?thesis by (auto simp: isResolved_def pair_defs)
qed

section \<open>Counting in \<open>when\<close>\<close>

text \<open>The settling of \<open>when\<close>'s parameters one after the other, each with one value.\<close>

fun settle :: "runner \<Rightarrow> wid \<Rightarrow> (nat \<times> dval) list \<Rightarrow> world \<Rightarrow> (outcome \<times> world) option" where
  "settle rec q [] w = Some (Ret DUndef, w)"
| "settle rec q ((i, v) # ivs) w = andThen (when_fn rec q i [v] w) (\<lambda>_. settle rec q ivs)"

abbreviation fill :: "(nat \<times> dval) list \<Rightarrow> dval list \<Rightarrow> dval list" where
  "fill ivs args \<equiv> fold (\<lambda>(i, v) xs. xs[i := v]) ivs args"

lemma settle_Nil: "settle rec q [] = (\<lambda>w. Some (Ret DUndef, w))"
  by (rule ext) simp

text \<open>
  When() resolves its deferred with the last of its parameters to settle and not before, and the value of the i-th parameter stands at position i whatever the order in which they settled.
\<close>

theorem when_resolves_with_the_last:
  assumes "q < length (whens w)" and "wcount (whens w ! q) = int (length ivs) + 1"
    and "s = (whens w ! q)\<lparr>wargs := fill (ivs @ [(i, v)]) (wargs (whens w ! q)), wcount := 0\<rparr>"
    and "w' = w\<lparr>whens := (whens w)[q := s]\<rparr>"
  shows "settle rec q (ivs @ [(i, v)]) w
       = andThen (rec (TResolve (done_of w (wdef s)) (DDeferred (wdef s)) (wargs s)) w')
           (\<lambda>_ w''. Some (Ret DUndef, w''))"
  using assms
proof (induction ivs arbitrary: w)
  case Nil
  then show ?case by (simp add: when_fn_def Let_def done_of_def settle_Nil del: settle.simps(1))
next
  case (Cons iv ivs)
  obtain j u where iv: "iv = (j, u)" by fastforce
  let ?s1 = "(whens w ! q)\<lparr>wargs := (wargs (whens w ! q))[j := u], wcount := wcount (whens w ! q) - 1\<rparr>"
  let ?w1 = "w\<lparr>whens := (whens w)[q := ?s1]\<rparr>"
  have "when_fn rec q j [u] w = Some (Ret DUndef, ?w1)"
    using Cons.prems iv by (simp add: when_fn_def Let_def)
  then have "settle rec q ((iv # ivs) @ [(i, v)]) w = settle rec q (ivs @ [(i, v)]) ?w1"
    by (simp add: iv andThen_def)
  also have "\<dots> = andThen (rec (TResolve (done_of ?w1 (wdef s)) (DDeferred (wdef s)) (wargs s)) w')
           (\<lambda>_ w''. Some (Ret DUndef, w''))"
    by (rule Cons.IH) (use Cons.prems iv in simp_all)
  finally show ?case by (simp add: done_of_def)
qed

lemma when_loop_no_promise:
  "\<forall>v \<in> set vs. promise_of v = None \<Longrightarrow> q < length (whens w) \<Longrightarrow>
   when_loop rec q d i vs w = Some (Ret DUndef, w\<lparr>whens := (whens w)[q :=
      (whens w ! q)\<lparr>wcount := wcount (whens w ! q) - int (length vs)\<rparr>]\<rparr>)"
  by (induction vs arbitrary: i w) (simp_all add: algebra_simps)

lemma resolve_fresh:
  assumes "sdefs w n = \<lparr>callbacks = [CancelOf m], fired = None, firing = False, cancelled = False\<rparr>" "n \<noteq> m"
  shows "exec p (k + 3) (TResolve n c args) w = Some (Ret DUndef,
     (cancel m (upd n (\<lambda>s. \<lparr>callbacks = [], fired = Some (c, args), firing = False, cancelled = False\<rparr>) w))
       \<lparr>clog := clog w @ [(n, CancelOf m, c, args)]\<rparr>)"
  using assms
  by (simp add: eval_nat_numeral resolve_with_def fire_loop_def andThen_def cancel_def upd_def fun_upd_twist)

text \<open>
  when() called on values none of which has a promise resolves its new deferred before it returns, with those values, and its fail list is cancelled.
\<close>

theorem when_of_values_resolves_at_once:
  assumes "\<forall>v \<in> set vs. promise_of v = None"
    and "n = nextsid w" and "sdefs w n = new_sdef" and "sdefs w (Suc n) = new_sdef"
  shows "\<exists>w'. jq_when (exec p (k + 3)) vs w = Some (Ret (DPromise (length (fulls w))), w')
     \<and> done_of w' (length (fulls w)) = n \<and> fail_of w' (length (fulls w)) = Suc n
     \<and> fired (sdefs w' n) = Some (DDeferred (length (fulls w)), vs)
     \<and> cancelled (sdefs w' (Suc n)) \<and> \<not> isResolved w' (Suc n)"
proof -
  obtain w1 where nd: "new_deferred w = (length (fulls w), w1)"
    and f1: "fulls w1 = fulls w @ [(n, Suc n)]"
    and n1: "sdefs w1 n = \<lparr>callbacks = [CancelOf (Suc n)], fired = None, firing = False, cancelled = False\<rparr>"
    and m1: "sdefs w1 (Suc n) = \<lparr>callbacks = [CancelOf n], fired = None, firing = False, cancelled = False\<rparr>"
    using assms by (simp add: new_deferred_def Let_def new_sdef_def)
  show ?thesis
  proof (cases "length vs \<le> 1")
    case True
    then have "(case vs of [] \<Rightarrow> None | v # _ \<Rightarrow> promise_of v) = None"
      using assms(1) by (cases vs) auto
    with True show ?thesis
      using nd f1 n1 m1 resolve_fresh[of w1 n "Suc n" p k]
      by (simp add: jq_when_def done_of_def fail_of_def andThen_def isResolved_def nth_append del: exec.simps)
  next
    case False
    let ?ws = "whens w1 @ [\<lparr>wargs = vs, wcount = int (length vs), wdef = length (fulls w)\<rparr>]"
    have l: "when_loop (exec p (k + 3)) (length (whens w1)) (length (fulls w)) 0 vs (w1\<lparr>whens := ?ws\<rparr>)
      = Some (Ret DUndef, w1\<lparr>whens := ?ws[length (whens w1) := \<lparr>wargs = vs, wcount = 0, wdef = length (fulls w)\<rparr>]\<rparr>)"
      using when_loop_no_promise[OF assms(1), of "length (whens w1)" "w1\<lparr>whens := ?ws\<rparr>"]
      by (simp add: nth_append)
    show ?thesis
      using False nd f1 n1 m1 l resolve_fresh[of "w1\<lparr>whens := ws\<rparr>" n "Suc n" p k for ws]
      by (simp add: jq_when_def Let_def done_of_def fail_of_def andThen_def isResolved_def nth_append del: exec.simps)
  qed
qed

section \<open>Witnesses\<close>

definition demo_prog :: prog where
  "demo_prog u c args w = ([], if u = 9 then Exn (DNum 1) else Ret DUndef)"

lemma quiet_demo: "u \<noteq> 9 \<Longrightarrow> quiet_fn demo_prog u"
  by (simp add: quiet_fn_def demo_prog_def)

lemma throws_demo: "throws demo_prog 9 (DNum 1)"
  by (simp add: throws_def demo_prog_def)

abbreviation two_callbacks :: world where
  "two_callbacks \<equiv> done_args 0 [AFn (UserFn 1), AArr [AFn (UserFn 2)]] init_world"

theorem resolve_runs_all_in_order_witness:
  "\<exists>w'. exec demo_prog 5 (TResolve 0 DUndef [DNum 7]) two_callbacks = Some (Ret DUndef, w')
     \<and> clog w' = [(0, UserFn 1, DUndef, [DNum 7]), (0, UserFn 2, DUndef, [DNum 7])]"
proof -
  have "\<forall>u \<in> set [1, 2]. quiet_fn demo_prog u" by (simp add: quiet_demo)
  from resolve_runs_all_in_order[OF this, of two_callbacks 0 0 DUndef "[DNum 7]"]
  show ?thesis by (simp add: init_world_def new_sdef_def)
qed

theorem throwing_callback_keeps_the_rest_witness:
  "\<exists>w1 w'. new_deferred init_world = (0, w1) \<and> exec demo_prog 6 (TResolve 0 DUndef [])
      (done_args 0 [AFn (UserFn 1), AFn (UserFn 9), AFn (UserFn 2)] w1) = Some (Exn (DNum 1), w')
     \<and> callbacks (sdefs w' 0) = [UserFn 2] \<and> isResolved w' 0"
proof -
  define w1 where "w1 = snd (new_deferred init_world)"
  have nd: "new_deferred init_world = (0, w1)" by (simp add: w1_def new_deferred_def Let_def init_world_def)
  let ?w = "done_args 0 [AFn (UserFn 1), AFn (UserFn 9), AFn (UserFn 2)] w1"
  have q: "\<forall>u \<in> set [1]. quiet_fn demo_prog u" by (simp add: quiet_demo)
  have s: "sdefs ?w 0 = \<lparr>callbacks = CancelOf 1 # map UserFn [1] @ UserFn 9 # [UserFn 2], fired = None, firing = False, cancelled = False\<rparr>"
    by (simp add: w1_def new_deferred_def Let_def init_world_def new_sdef_def)
  from throwing_callback_keeps_the_rest[OF q throws_demo _ s, of 0 DUndef "[]"] nd
  show ?thesis by (auto simp: isResolved_def simp del: exec.simps)
qed

theorem done_after_resolve_runs_at_once_witness:
  "\<exists>w'. exec demo_prog 6 (TDone 0 [AFn (UserFn 3)])
      (upd 0 (\<lambda>s. \<lparr>callbacks = [UserFn 2], fired = Some (DUndef, [DNum 7]), firing = False, cancelled = False\<rparr>) init_world)
      = Some (Ret DUndef, w') \<and> map (fst \<circ> snd) (clog w') = [UserFn 2, UserFn 3]"
proof -
  let ?w = "upd 0 (\<lambda>s. \<lparr>callbacks = [UserFn 2], fired = Some (DUndef, [DNum 7]), firing = False, cancelled = False\<rparr>) init_world"
  have 1: "\<forall>u \<in> set [2]. quiet_fn demo_prog u" "\<forall>u \<in> set [3]. quiet_fn demo_prog u"
    by (simp_all add: quiet_demo)
  from done_after_resolve_runs_at_once[OF 1, of "[AFn (UserFn 3)]" ?w 0 DUndef "[DNum 7]" 0]
  show ?thesis by (simp add: init_world_def)
qed

text \<open>A function that registers another one on the list that is firing, as user code may.\<close>

definition nested_prog :: prog where
  "nested_prog u c args w = (if u = 1 then [CDone 0 [AFn (UserFn 2)], CResolveWith 0 DUndef [DNum 8]] else [], Ret DUndef)"

theorem first_resolution_wins_witness:
  "\<exists>w. reachable nested_prog w \<and> clog w = [(0, UserFn 1, DUndef, [DNum 7]), (0, UserFn 2, DUndef, [DNum 7])]
     \<and> fired (sdefs w 0) = Some (DUndef, [DNum 7])"
proof -
  let ?cmds = "[CDone 0 [AFn (UserFn 1)], CResolveWith 0 DUndef [DNum 7], CResolveWith 0 (DNum 0) []]"
  obtain w out where w: "exec nested_prog 15 (TRun ?cmds (Ret DUndef)) init_world = Some (out, w)"
    and l: "clog w = [(0, UserFn 1, DUndef, [DNum 7]), (0, UserFn 2, DUndef, [DNum 7])]"
    by (simp add: eval_nat_numeral method_defs andThen_def nested_prog_def init_world_def new_sdef_def upd_def)
  have "reachable nested_prog w"
    by (rule reachable.op[OF reachable.start w]) simp
  with l first_resolution_wins[OF this, of 0 "UserFn 1" DUndef "[DNum 7]" "UserFn 2" DUndef "[DNum 7]"]
  show ?thesis by auto
qed

theorem never_resolved_and_rejected_witness:
  "\<exists>w1 w2. new_deferred init_world = (0, w1)
     \<and> exec demo_prog 9 (TRun [CResolveWith 0 DUndef [], CResolveWith 1 DUndef []] (Ret DUndef)) w1 = Some (Ret DUndef, w2)
     \<and> isResolved w2 0 \<and> \<not> isResolved w2 1"
proof -
  obtain w1 where nd: "new_deferred init_world = (0, w1)"
    and s: "sdefs w1 0 = \<lparr>callbacks = [CancelOf 1], fired = None, firing = False, cancelled = False\<rparr>"
      "sdefs w1 1 = \<lparr>callbacks = [CancelOf 0], fired = None, firing = False, cancelled = False\<rparr>"
    by (simp add: new_deferred_def Let_def init_world_def new_sdef_def)
  let ?cmds = "[CResolveWith 0 DUndef [], CResolveWith 1 DUndef []]"
  obtain w2 where w2: "exec demo_prog 9 (TRun ?cmds (Ret DUndef)) w1 = Some (Ret DUndef, w2)"
    and r: "isResolved w2 0"
    using s by (simp add: eval_nat_numeral method_defs andThen_def isResolved_def)
  have "user_runs demo_prog 0 1 w1 w2"
    by (rule user_runs.run[OF user_runs.none _ w2]) simp
  from never_resolved_and_rejected[OF nd _ _ _ _ _ _ this]
  have "\<not> (isResolved w2 0 \<and> isResolved w2 1)"
    by (simp add: init_world_def new_sdef_def clean_prog_def demo_prog_def)
  with nd w2 r show ?thesis by blast
qed

theorem when_of_values_resolves_at_once_witness:
  "\<exists>w'. jq_when (exec demo_prog 3) [DNum 1, DObj 2] init_world = Some (Ret (DPromise 0), w')
     \<and> fired (sdefs w' 0) = Some (DDeferred 0, [DNum 1, DObj 2])"
  using when_of_values_resolves_at_once[of "[DNum 1, DObj 2]" 0 init_world demo_prog 0]
  by (auto simp: init_world_def)

theorem when_resolves_with_the_last_witness:
  "\<exists>w w'. settle (exec demo_prog 4) 0 [(1, DNum 5), (0, DNum 6)] w = Some (Ret DUndef, w')
     \<and> fired (sdefs w' 0) = Some (DDeferred 0, [DNum 6, DNum 5])"
proof -
  define w where "w = init_world\<lparr>fulls := [(0, 1)], nextsid := 2,
    whens := [\<lparr>wargs = [DUndef, DUndef], wcount = 2, wdef = 0\<rparr>]\<rparr>"
  let ?s = "\<lparr>wargs = [DNum 6, DNum 5], wcount = 0, wdef = 0\<rparr>"
  have "settle (exec demo_prog 4) 0 ([(1, DNum 5)] @ [(0, DNum 6)]) w
    = andThen (exec demo_prog 4 (TResolve (done_of w 0) (DDeferred 0) [DNum 6, DNum 5]) (w\<lparr>whens := [?s]\<rparr>))
           (\<lambda>_ w''. Some (Ret DUndef, w''))"
    by (subst when_resolves_with_the_last[where s = ?s and w' = "w\<lparr>whens := [?s]\<rparr>"]) (simp_all add: w_def)
  moreover obtain w' where "exec demo_prog 4 (TResolve (done_of w 0) (DDeferred 0) [DNum 6, DNum 5]) (w\<lparr>whens := [?s]\<rparr>)
      = Some (Ret DUndef, w')" and "fired (sdefs w' 0) = Some (DDeferred 0, [DNum 6, DNum 5])"
    by (simp add: w_def eval_nat_numeral resolve_with_def fire_loop_def init_world_def new_sdef_def done_of_def)
  ultimately show ?thesis by (auto simp: andThen_def)
qed

end
