(* ===== verification/JQ_Data.thy ===== *)
theory JQ_Data
  imports JQ_Prelude
begin

text \<open>
  The data store of jquery-1.6.4.js: \<open>jQuery.data\<close>, \<open>jQuery.removeData\<close>, \<open>hasData\<close>,
  \<open>acceptData\<close> and the conversions of names (\<open>camelCase\<close>, the \<open>data-\<close> attributes).

  A DOM node is given a number (its expando) and its data live in the global \<open>jQuery.cache\<close>
  under that number; a plain object carries its data itself. Either way the data are one object
  with the user's properties and, under the expando as key, the library's own (internal)
  properties; the model keeps the two parts as two fields.
\<close>

section \<open>State\<close>

record elemt =
  ename :: "string option" \<comment> \<open>\<open>nodeName\<close>\<close>
  enode :: bool \<comment> \<open>\<open>nodeType\<close> is set\<close>
  classid :: "string option" \<comment> \<open>the attribute \<open>classid\<close>\<close>

record dobj =
  user :: "jsval props"
  internal :: "jsval props option"

record dstore =
  elems :: "nat \<Rightarrow> elemt"
  cache :: "nat \<Rightarrow> dobj option"
  uuid :: nat
  expando :: "nat \<Rightarrow> nat option" \<comment> \<open>\<open>elem[jQuery.expando]\<close> of the nodes\<close>
  objdata :: "nat \<Rightarrow> dobj option" \<comment> \<open>\<open>obj[jQuery.expando]\<close> of the plain objects\<close>

datatype dname = NoName | Key string | Bulk "jsval props"

datatype dres = RVal jsval | RUser "jsval props" | RInternal "jsval props" | RTypeError

section \<open>Names\<close>

definition alnum :: "char \<Rightarrow> bool" where
  "alnum c \<longleftrightarrow> is_digit c \<or> is_upper c \<or> is_lower c"

text \<open>\<open>/-([a-z]|[0-9])/ig\<close> replaced by the upper-case letter.\<close>

fun dash_alpha :: "string \<Rightarrow> string" where
  "dash_alpha (c # d # s) = (if c = CHR ''-'' \<and> alnum d then upper_char d # dash_alpha s else c # dash_alpha (d # s))"
| "dash_alpha s = s"

definition camelCase :: "string \<Rightarrow> string" where
  "camelCase s = dash_alpha (if take 4 s = ''-ms-'' then drop 1 s else s)"

text \<open>\<open>key.replace(rmultiDash, "-$1").toLowerCase()\<close>\<close>

definition dashed :: "string \<Rightarrow> string" where
  "dashed s = to_lower (concat (map (\<lambda>c. if is_upper c then [CHR ''-'', c] else [c]) s))"

section \<open>Operations\<close>

definition noData :: "string \<Rightarrow> string option option" where
  "noData n = (if n = ''embed'' \<or> n = ''applet'' then Some None
     else if n = ''object'' then Some (Some ''clsid:D27CDB6E-AE6D-11cf-96B8-444553540000'')
     else None)"

definition acceptData :: "elemt \<Rightarrow> bool" where
  "acceptData e = (case ename e of
      None \<Rightarrow> True
    | Some n \<Rightarrow>
        if n = [] then True
        else (case noData (to_lower n) of
          None \<Rightarrow> True
        | Some None \<Rightarrow> False
        | Some (Some cls) \<Rightarrow> classid e = Some cls))"

definition isEmptyData :: "jsval props \<Rightarrow> bool" where
  "isEmptyData ps \<longleftrightarrow> list_all (\<lambda>(k, v). k = ''toJSON'') ps"

text \<open>The expando of the internal part is a key of the object, and not \<open>toJSON\<close>.\<close>

definition isEmptyDataObject :: "dobj \<Rightarrow> bool" where
  "isEmptyDataObject d \<longleftrightarrow> isEmptyData (user d) \<and> internal d = None"

definition cell :: "dstore \<Rightarrow> nat \<Rightarrow> dobj option" where
  "cell s e = (if enode (elems s e) then (case expando s e of None \<Rightarrow> None | Some i \<Rightarrow> cache s i)
     else objdata s e)"

definition set_cell :: "nat \<Rightarrow> dobj option \<Rightarrow> dstore \<Rightarrow> dstore" where
  "set_cell e d s = (if enode (elems s e)
     then (case expando s e of None \<Rightarrow> s | Some i \<Rightarrow> s\<lparr>cache := (cache s)(i := d)\<rparr>)
     else s\<lparr>objdata := (objdata s)(e := d)\<rparr>)"

definition has_id :: "dstore \<Rightarrow> nat \<Rightarrow> bool" where
  "has_id s e = (if enode (elems s e) then expando s e \<noteq> None else objdata s e \<noteq> None)"

definition hasData :: "dstore \<Rightarrow> nat \<Rightarrow> bool" where
  "hasData s e = (case cell s e of None \<Rightarrow> False | Some d \<Rightarrow> \<not> isEmptyDataObject d)"

text \<open>\<open>cache[id] = {}\<close>, with \<open>toJSON\<close> set to \<open>jQuery.noop\<close> on a plain object.\<close>

definition noop :: jsval where
  "noop = Ref 0"

definition fresh_cell :: "dstore \<Rightarrow> nat \<Rightarrow> dobj" where
  "fresh_cell s e = \<lparr>user = (if enode (elems s e) then [] else [(''toJSON'', noop)]), internal = None\<rparr>"

definition ensure_id :: "nat \<Rightarrow> dstore \<Rightarrow> dstore" where
  "ensure_id e s = (if has_id s e then s
     else if enode (elems s e) then s\<lparr>uuid := Suc (uuid s), expando := (expando s)(e := Some (Suc (uuid s)))\<rparr>
     else s)"

definition ensure_cell :: "nat \<Rightarrow> dstore \<Rightarrow> dstore" where
  "ensure_cell e s = (case cell s e of None \<Rightarrow> set_cell e (Some (fresh_cell s e)) s | Some d \<Rightarrow> s)"

text \<open>The shallow \<open>jQuery.extend(target, source)\<close>: undefined values are not copied.\<close>

definition extend_props :: "jsval props \<Rightarrow> jsval props \<Rightarrow> jsval props" where
  "extend_props tgt src = fold (\<lambda>(k, v) t. if v = Undefined then t else AList.update k v t) src tgt"

definition bulk_set :: "bool \<Rightarrow> jsval props \<Rightarrow> dobj \<Rightarrow> dobj" where
  "bulk_set pvt ps d =
     (if pvt then d\<lparr>internal := Some (extend_props (case internal d of None \<Rightarrow> [] | Some i \<Rightarrow> i) ps)\<rparr>
      else d\<lparr>user := extend_props (user d) ps\<rparr>)"

definition ensure_internal :: "bool \<Rightarrow> dobj \<Rightarrow> dobj" where
  "ensure_internal pvt d = (if pvt \<and> internal d = None then d\<lparr>internal := Some []\<rparr> else d)"

definition part :: "bool \<Rightarrow> dobj \<Rightarrow> jsval props" where
  "part pvt d = (if pvt then (case internal d of None \<Rightarrow> [] | Some i \<Rightarrow> i) else user d)"

definition put_part :: "bool \<Rightarrow> string \<Rightarrow> jsval \<Rightarrow> dobj \<Rightarrow> dobj" where
  "put_part pvt k v d =
     (if pvt then d\<lparr>internal := Some (AList.update k v (part True d))\<rparr>
      else d\<lparr>user := AList.update k v (user d)\<rparr>)"

text \<open>What \<open>data\<close> returns from the object it has arrived at.\<close>

definition read_part :: "bool \<Rightarrow> dname \<Rightarrow> dobj \<Rightarrow> dres" where
  "read_part pvt name d =
     (case name of
        Key k \<Rightarrow>
          if k = ''events'' \<and> \<not> truthy (pget (part pvt d) k)
          then (if pvt then RVal Undefined
                else case internal d of None \<Rightarrow> RVal Undefined | Some i \<Rightarrow> RVal (pget i ''events''))
          else let ret = pget (part pvt d) k
               in if nullish ret then RVal (pget (part pvt d) (camelCase k)) else RVal ret
      | _ \<Rightarrow> if pvt then RInternal (part True d) else RUser (user d))"

text \<open>The steps of \<open>data\<close> on an existing cell.\<close>

definition data_in_cell :: "bool \<Rightarrow> dname \<Rightarrow> jsval \<Rightarrow> dobj \<Rightarrow> dres \<times> dobj" where
  "data_in_cell pvt name v d =
     (let d1 = (case name of Bulk ps \<Rightarrow> bulk_set pvt ps d | _ \<Rightarrow> d);
          d2 = ensure_internal pvt d1
      in if v = Undefined then (read_part pvt name d2, d2)
         else case name of
           Key k \<Rightarrow> (let d3 = put_part pvt (camelCase k) v d2 in (read_part pvt name d3, d3))
         | _ \<Rightarrow> (RTypeError, d2))"

definition jq_data :: "nat \<Rightarrow> dname \<Rightarrow> jsval \<Rightarrow> bool \<Rightarrow> dstore \<Rightarrow> dres \<times> dstore" where
  "jq_data e name v pvt s =
     (if \<not> acceptData (elems s e) then (RVal Undefined, s)
      else if (\<not> has_id s e \<or> pvt \<and> (case cell s e of None \<Rightarrow> False | Some d \<Rightarrow> internal d = None))
          \<and> (case name of Key k \<Rightarrow> True | _ \<Rightarrow> False) \<and> v = Undefined
        then (RVal Undefined, s)
      else let s1 = ensure_cell e (ensure_id e s)
           in case cell s1 e of
                Some d \<Rightarrow> (case data_in_cell pvt name v d of (r, d') \<Rightarrow> (r, set_cell e (Some d') s1))
              | None \<Rightarrow> (RVal Undefined, s1))"

text \<open>The end of \<open>removeData\<close>: the cell is destroyed and rebuilt if it has an internal part.\<close>

definition drop_cell :: "nat \<Rightarrow> dobj \<Rightarrow> dstore \<Rightarrow> dstore" where
  "drop_cell e d s =
     (case internal d of
        Some i \<Rightarrow> set_cell e (Some ((fresh_cell s e)\<lparr>internal := Some i\<rparr>)) s
      | None \<Rightarrow>
          let s1 = set_cell e None s
          in if enode (elems s e) then s1\<lparr>expando := (expando s1)(e := None)\<rparr> else s1)"

definition delete_key :: "string \<Rightarrow> jsval props \<Rightarrow> jsval props" where
  "delete_key k ps = AList.delete (if truthy (pget ps k) then k else camelCase k) ps"

definition removeData :: "nat \<Rightarrow> string option \<Rightarrow> bool \<Rightarrow> dstore \<Rightarrow> dstore" where
  "removeData e name pvt s =
     (if \<not> acceptData (elems s e) then s
      else case cell s e of
        None \<Rightarrow> s
      | Some d \<Rightarrow>
          (let named = (case name of None \<Rightarrow> False | Some k \<Rightarrow> k \<noteq> []);
               k = (case name of None \<Rightarrow> [] | Some k \<Rightarrow> k);
               present = (\<not> pvt \<or> internal d \<noteq> None);
               d1 = (if named \<and> present
                     then (if pvt then d\<lparr>internal := Some (delete_key k (part True d))\<rparr>
                           else d\<lparr>user := delete_key k (user d)\<rparr>)
                     else d);
               s1 = set_cell e (Some d1) s
           in if named \<and> present \<and> \<not> (if pvt then isEmptyData (part True d1) else isEmptyDataObject d1)
              then s1
              else if pvt
                then (let d2 = d1\<lparr>internal := None\<rparr>; s2 = set_cell e (Some d2) s1
                      in if \<not> isEmptyDataObject d2 then s2 else drop_cell e d2 s2)
              else drop_cell e d1 s1))"

text \<open>\<open>jQuery._data\<close>\<close>

definition jq_data_pvt :: "nat \<Rightarrow> dname \<Rightarrow> jsval \<Rightarrow> dstore \<Rightarrow> dres \<times> dstore" where
  "jq_data_pvt e name v s = jq_data e name v True s"

text \<open>
  \<open>dataAttr\<close>: the \<open>data-\<close> attribute behind a key. Numbers and JSON are read by functions of the
  host: \<open>number\<close> gives \<open>None\<close> for a string that is not a number, \<open>json\<close> gives \<open>None\<close> when the
  parser throws (the exception is swallowed and the string is kept).
\<close>

definition has_digit :: "string \<Rightarrow> bool" where
  "has_digit s \<longleftrightarrow> list_ex is_digit s"

definition braced :: "string \<Rightarrow> bool" where
  "braced s \<longleftrightarrow> length s \<ge> 2 \<and> list_all (\<lambda>c. c \<noteq> CHR 0x0A \<and> c \<noteq> CHR 0x0D) s \<and>
     (hd s = CHR ''{'' \<and> last s = CHR ''}'' \<or> hd s = CHR ''['' \<and> last s = CHR '']'')"

definition attr_value :: "(string \<Rightarrow> jsval option) \<Rightarrow> (string \<Rightarrow> jsval option) \<Rightarrow> string \<Rightarrow> jsval" where
  "attr_value number json s =
     (if s = ''true'' then Bool True
      else if s = ''false'' then Bool False
      else if s = ''null'' then Null
      else case (if has_digit s then number s else None) of
        Some n \<Rightarrow> n
      | None \<Rightarrow> if braced s then (case json s of Some v \<Rightarrow> v | None \<Rightarrow> Str s) else Str s)"

definition dataAttr ::
  "(string \<Rightarrow> jsval option) \<Rightarrow> (string \<Rightarrow> jsval option) \<Rightarrow> (nat \<Rightarrow> string \<Rightarrow> string option)
   \<Rightarrow> (nat \<Rightarrow> bool) \<Rightarrow> nat \<Rightarrow> string \<Rightarrow> jsval \<Rightarrow> dstore \<Rightarrow> jsval \<times> dstore" where
  "dataAttr number json getAttribute is_element e key d s =
     (if d = Undefined \<and> is_element e
      then (case getAttribute e (''data-'' @ dashed key) of
              Some a \<Rightarrow> (let v = attr_value number json a in (v, snd (jq_data e (Key key) v False s)))
            | None \<Rightarrow> (Undefined, s))
      else (d, s))"

section \<open>The store invariant\<close>

text \<open>
  Every expando names its own cell of the cache, and every cell of the cache belongs to a node:
  no node shares its data with another and no cell is left behind.
\<close>

definition data_inv :: "dstore \<Rightarrow> bool" where
  "data_inv s \<longleftrightarrow>
     (\<forall>e i. expando s e = Some i \<longrightarrow> enode (elems s e) \<and> i \<le> uuid s \<and> cache s i \<noteq> None) \<and>
     (\<forall>e e' i. expando s e = Some i \<longrightarrow> expando s e' = Some i \<longrightarrow> e = e') \<and>
     (\<forall>i. cache s i \<noteq> None \<longrightarrow> (\<exists>e. expando s e = Some i))"

lemma data_invD:
  assumes "data_inv s"
  shows "expando s e = Some i \<Longrightarrow> enode (elems s e)"
    and "expando s e = Some i \<Longrightarrow> i \<le> uuid s"
    and "expando s e = Some i \<Longrightarrow> \<exists>d. cache s i = Some d"
    and "expando s e = Some i \<Longrightarrow> expando s e' = Some i \<Longrightarrow> e' = e"
    and "cache s i = Some d \<Longrightarrow> \<exists>e. expando s e = Some i"
  using assms by (auto simp: data_inv_def)

text \<open>An operation on one element: the invariant and the other elements' data are kept.\<close>

definition local_to :: "nat \<Rightarrow> dstore \<Rightarrow> dstore \<Rightarrow> bool" where
  "local_to e s s' \<longleftrightarrow> data_inv s' \<and> elems s' = elems s \<and> (\<forall>e'. e' \<noteq> e \<longrightarrow> cell s' e' = cell s e')"

lemma local_to_refl: "data_inv s \<Longrightarrow> local_to e s s"
  by (simp add: local_to_def)

lemma local_to_trans: "local_to e s1 s2 \<Longrightarrow> local_to e s2 s3 \<Longrightarrow> local_to e s1 s3"
  by (simp add: local_to_def)

lemma local_to_inv: "local_to e s s' \<Longrightarrow> data_inv s'"
  by (simp add: local_to_def)

lemma set_cell_Some:
  assumes inv: "data_inv s" and c: "cell s e \<noteq> None"
  shows "local_to e s (set_cell e (Some d) s)" and "cell (set_cell e (Some d) s) e = Some d"
proof -
  show "cell (set_cell e (Some d) s) e = Some d"
    using c by (auto simp: cell_def set_cell_def split: option.splits)
  show "local_to e s (set_cell e (Some d) s)"
  proof (cases "enode (elems s e)")
    case False
    then show ?thesis
      using inv by (auto simp: local_to_def data_inv_def set_cell_def cell_def split: option.splits)
  next
    case True
    then obtain i where i: "expando s e = Some i" using c by (auto simp: cell_def split: option.splits)
    have "data_inv (set_cell e (Some d) s)"
      using inv True i unfolding data_inv_def set_cell_def by (auto; fastforce)
    moreover have "cell (set_cell e (Some d) s) e' = cell s e'" if "e' \<noteq> e" for e'
      using that True i data_invD(4)[OF inv i, of e']
      by (auto simp: cell_def set_cell_def split: option.splits)
    ultimately show ?thesis using True i by (auto simp: local_to_def set_cell_def)
  qed
qed

lemma open_cell:
  assumes inv: "data_inv s"
  shows "local_to e s (ensure_cell e (ensure_id e s))"
    and "cell (ensure_cell e (ensure_id e s)) e
         = Some (case cell s e of Some d \<Rightarrow> d | None \<Rightarrow> fresh_cell s e)"
proof -
  let ?s = "ensure_cell e (ensure_id e s)"
  have "local_to e s ?s \<and> cell ?s e = Some (case cell s e of Some d \<Rightarrow> d | None \<Rightarrow> fresh_cell s e)"
  proof (cases "cell s e")
    case (Some d)
    then have "has_id s e" by (auto simp: has_id_def cell_def split: option.splits if_splits)
    with Some show ?thesis using inv by (simp add: ensure_id_def ensure_cell_def local_to_refl)
  next
    case None
    show ?thesis
    proof (cases "enode (elems s e)")
      case False
      then have "\<not> has_id s e" using None by (auto simp: has_id_def cell_def)
      with None False show ?thesis
        using inv by (auto simp: ensure_id_def ensure_cell_def set_cell_def cell_def local_to_def
          fresh_cell_def data_inv_def split: option.splits)
    next
      case True
      then have ni: "expando s e = None"
        using None data_invD(3)[OF inv, of e] by (auto simp: cell_def split: option.splits)
      let ?i = "Suc (uuid s)"
      have fr: "expando s e' \<noteq> Some ?i" for e'
        using data_invD(2)[OF inv, of e' ?i] by auto
      have s: "?s = s\<lparr>uuid := ?i, expando := (expando s)(e := Some ?i),
          cache := (cache s)(?i := Some (fresh_cell s e))\<rparr>"
        using True ni fr data_invD(5)[OF inv, of ?i]
        by (auto simp: ensure_id_def ensure_cell_def has_id_def cell_def set_cell_def fresh_cell_def
          split: option.splits)
      have "data_inv ?s"
        unfolding s data_inv_def using inv True ni fr
        by (auto simp: data_inv_def le_Suc_eq) (metis option.distinct(1))
      moreover have "cell ?s e' = cell s e'" if "e' \<noteq> e" for e'
        unfolding s using that fr[of e'] by (auto simp: cell_def split: option.splits)
      moreover have "cell ?s e = Some (fresh_cell s e)"
        unfolding s using True by (simp add: cell_def)
      ultimately show ?thesis using None by (simp add: local_to_def s)
    qed
  qed
  then show "local_to e s ?s" and "cell ?s e = Some (case cell s e of Some d \<Rightarrow> d | None \<Rightarrow> fresh_cell s e)"
    by simp_all
qed

lemma drop_cell_local:
  assumes inv: "data_inv s" and c: "cell s e \<noteq> None"
  shows "local_to e s (drop_cell e d s)"
    and "cell (drop_cell e d s) e
         = (case internal d of None \<Rightarrow> None | Some i \<Rightarrow> Some ((fresh_cell s e)\<lparr>internal := Some i\<rparr>))"
proof -
  have "local_to e s (drop_cell e d s) \<and> cell (drop_cell e d s) e
      = (case internal d of None \<Rightarrow> None | Some i \<Rightarrow> Some ((fresh_cell s e)\<lparr>internal := Some i\<rparr>))"
  proof (cases "internal d")
    case (Some i)
    then show ?thesis using set_cell_Some[OF inv c] by (simp add: drop_cell_def)
  next
    case None
    show ?thesis
    proof (cases "enode (elems s e)")
      case False
      then show ?thesis
        using inv None by (auto simp: drop_cell_def set_cell_def local_to_def cell_def data_inv_def Let_def
          split: option.splits)
    next
      case True
      then obtain i where i: "expando s e = Some i" using c by (auto simp: cell_def split: option.splits)
      have s: "drop_cell e d s = s\<lparr>cache := (cache s)(i := None), expando := (expando s)(e := None)\<rparr>"
        using True i None by (simp add: drop_cell_def set_cell_def Let_def)
      have ne: "expando s e' \<noteq> Some i" if "e' \<noteq> e" for e'
        using that data_invD(4)[OF inv i] by blast
      have "data_inv (drop_cell e d s)"
        unfolding s data_inv_def using inv ne i by (auto simp: data_inv_def) (metis option.inject)+
      moreover have "cell (drop_cell e d s) e' = cell s e'" if "e' \<noteq> e" for e'
        unfolding s using that ne[OF that] by (auto simp: cell_def split: option.splits)
      ultimately show ?thesis using True None by (simp add: local_to_def s cell_def)
    qed
  qed
  then show "local_to e s (drop_cell e d s)" and "cell (drop_cell e d s) e
         = (case internal d of None \<Rightarrow> None | Some i \<Rightarrow> Some ((fresh_cell s e)\<lparr>internal := Some i\<rparr>))"
    by simp_all
qed

lemma fresh_cell_elems: "elems s' = elems s \<Longrightarrow> fresh_cell s' e = fresh_cell s e"
  by (simp add: fresh_cell_def)

text \<open>What \<open>data\<close> does, in terms of the cell it works on.\<close>

definition cell_or_fresh :: "dstore \<Rightarrow> nat \<Rightarrow> dobj" where
  "cell_or_fresh s e = (case cell s e of Some d \<Rightarrow> d | None \<Rightarrow> fresh_cell s e)"

lemma jq_data_write:
  assumes inv: "data_inv s" and a: "acceptData (elems s e)" and v: "v \<noteq> Undefined \<or> \<not> (\<exists>k. name = Key k)"
  shows "local_to e s (snd (jq_data e name v pvt s))"
    and "cell (snd (jq_data e name v pvt s)) e = Some (snd (data_in_cell pvt name v (cell_or_fresh s e)))"
    and "fst (jq_data e name v pvt s) = fst (data_in_cell pvt name v (cell_or_fresh s e))"
proof -
  let ?s1 = "ensure_cell e (ensure_id e s)" and ?d = "cell_or_fresh s e"
  have c1: "cell ?s1 e = Some ?d" and l1: "local_to e s ?s1"
    using open_cell[OF inv, of e] by (simp_all add: cell_or_fresh_def)
  have j: "jq_data e name v pvt s
    = (fst (data_in_cell pvt name v ?d), set_cell e (Some (snd (data_in_cell pvt name v ?d))) ?s1)"
    using a v c1 by (auto simp: jq_data_def Let_def split: prod.splits dname.splits)
  note sc = set_cell_Some[OF local_to_inv[OF l1], of e "snd (data_in_cell pvt name v ?d)"]
  show "local_to e s (snd (jq_data e name v pvt s))"
    using j sc c1 l1 local_to_trans by auto
  show "cell (snd (jq_data e name v pvt s)) e = Some (snd (data_in_cell pvt name v ?d))"
    using j sc c1 by simp
  show "fst (jq_data e name v pvt s) = fst (data_in_cell pvt name v ?d)"
    using j by simp
qed

lemma jq_data_local: "data_inv s \<Longrightarrow> local_to e s (snd (jq_data e name v pvt s))"
proof -
  assume inv: "data_inv s"
  show ?thesis
  proof (cases "acceptData (elems s e) \<and> (v \<noteq> Undefined \<or> \<not> (\<exists>k. name = Key k))")
    case True
    then show ?thesis using jq_data_write(1)[OF inv] by blast
  next
    case False
    have "local_to e s (set_cell e (Some d') (ensure_cell e (ensure_id e s)))" for d'
      using set_cell_Some(1)[OF local_to_inv[OF open_cell(1)[OF inv, of e]], where e = e and d = d']
        open_cell[OF inv, of e]
        local_to_trans by fastforce
    then show ?thesis
      using False open_cell[OF inv, of e] inv
      by (auto simp: jq_data_def Let_def local_to_refl split: prod.splits option.splits)
  qed
qed

lemma removeData_local: "data_inv s \<Longrightarrow> local_to e s (removeData e name pvt s)"
proof -
  assume inv: "data_inv s"
  have sc: "local_to e s (set_cell e (Some d) s)" "cell (set_cell e (Some d) s) e = Some d"
    if "cell s e \<noteq> None" for d
    using set_cell_Some[OF inv that] by blast+
  have sc2: "local_to e s (set_cell e (Some d') (set_cell e (Some d) s))"
    "cell (set_cell e (Some d') (set_cell e (Some d) s)) e = Some d'"
    if "cell s e \<noteq> None" for d d'
    using set_cell_Some[OF local_to_inv[OF sc(1)[OF that, of d]], where e = e and d = d'] sc[OF that, of d] local_to_trans
    by fastforce+
  have dc: "local_to e s (drop_cell e d' (set_cell e (Some d) s))" if "cell s e \<noteq> None" for d d'
    using drop_cell_local(1)[OF local_to_inv[OF sc(1)[OF that, of d]], where e = e and d = d'] sc[OF that, of d] local_to_trans
    by fastforce
  have dc2: "local_to e s (drop_cell e d'' (set_cell e (Some d') (set_cell e (Some d) s)))"
    if "cell s e \<noteq> None" for d d' d''
    using drop_cell_local(1)[OF local_to_inv[OF sc2(1)[OF that, of d' d]], where e = e and d = d''] sc2[OF that, of d' d]
      local_to_trans by fastforce
  show ?thesis
    by (auto simp: removeData_def Let_def local_to_refl[OF inv] sc sc2 dc dc2 split: option.splits)
qed

text \<open>
  C4: The data store keeps its invariant (every expando names its own cache cell, and no cell is
  left without a node) and keeps elements apart: whatever is written to, read from or removed
  from one element, the data of every other element are unchanged.
\<close>

theorem data_ops_are_local:
  assumes "data_inv s"
  shows "data_inv (snd (jq_data e name v pvt s)) \<and> data_inv (removeData e k pvt s) \<and>
    (e' \<noteq> e \<longrightarrow> cell (snd (jq_data e name v pvt s)) e' = cell s e' \<and> cell (removeData e k pvt s) e' = cell s e')"
  using jq_data_local[OF assms] removeData_local[OF assms] by (auto simp: local_to_def)

lemma read_pure:
  "data_inv s \<Longrightarrow> k \<noteq> ''events'' \<Longrightarrow> acceptData (elems s e) \<Longrightarrow> has_id s e \<Longrightarrow> cell s e = Some d \<Longrightarrow>
   \<not> pvt \<or> internal d \<noteq> None \<Longrightarrow>
   jq_data e (Key k) Undefined pvt s = (read_part pvt (Key k) d, set_cell e (Some d) s)"
  by (auto simp: jq_data_def Let_def ensure_id_def ensure_cell_def data_in_cell_def ensure_internal_def)

lemma set_cell_self: "cell s e = Some d \<Longrightarrow> set_cell e (Some d) s = s"
  by (auto simp: cell_def set_cell_def fun_upd_idem split: if_splits option.splits)

lemma cell_has_id: "cell s e = Some d \<Longrightarrow> has_id s e"
  by (auto simp: cell_def has_id_def split: if_splits option.splits)

lemma read_user:
  "acceptData (elems s e) \<Longrightarrow> cell s e = Some d \<Longrightarrow>
   jq_data e (Key k) Undefined False s = (read_part False (Key k) d, s)"
  using cell_has_id set_cell_self[of s e d]
  by (auto simp: jq_data_def Let_def ensure_id_def ensure_cell_def data_in_cell_def ensure_internal_def)

text \<open>
  A value stored under a name is what the same name reads back, when no value stands under
  the name as it was written (the store writes the camel-cased name but reads the name as it is
  first), and the value is not a falsy one stored as \<open>events\<close>. Other names that differ after
  camel-casing keep their values, and the library's private data are not touched.
\<close>

theorem data_roundtrip:
  assumes inv: "data_inv s" and a: "acceptData (elems s e)" and v: "v \<noteq> Undefined"
    and k: "k = ''events'' \<Longrightarrow> truthy v"
    and asis: "k = camelCase k \<or> nullish (pget (user (cell_or_fresh s e)) k)"
  shows "fst (jq_data e (Key k) Undefined False (snd (jq_data e (Key k) v False s))) = RVal v \<and>
    internal (cell_or_fresh (snd (jq_data e (Key k) v False s)) e) = internal (cell_or_fresh s e)"
proof -
  let ?s' = "snd (jq_data e (Key k) v False s)"
  have c: "cell ?s' e = Some (put_part False (camelCase k) v (cell_or_fresh s e))"
    using jq_data_write(2)[OF inv a, of v "Key k" False] v
    by (simp add: data_in_cell_def Let_def ensure_internal_def)
  have e: "camelCase ''events'' = ''events''" by code_simp
  have "elems ?s' = elems s" using jq_data_local[OF inv] by (simp add: local_to_def)
  with a have "fst (jq_data e (Key k) Undefined False ?s')
      = read_part False (Key k) (put_part False (camelCase k) v (cell_or_fresh s e))"
    using read_user[OF _ c] by simp
  also have "\<dots> = RVal v"
    using asis k e by (auto simp: read_part_def put_part_def part_def Let_def)
  finally have "fst (jq_data e (Key k) Undefined False ?s') = RVal v" .
  moreover have "internal (cell_or_fresh ?s' e) = internal (cell_or_fresh s e)"
    using c by (simp add: cell_or_fresh_def put_part_def)
  ultimately show ?thesis by blast
qed

text \<open>
  Setting a dashed name after an object was merged in under that same name is lost on the
  next read: the merged property keeps the dashed name, the setter writes the camel-cased one,
  and the reader looks at the dashed one first.
\<close>

theorem data_stale_after_bulk:
  assumes inv: "data_inv s" and a: "acceptData (elems s e)" and d: "camelCase k \<noteq> k"
    and w: "\<not> nullish w" and v: "v \<noteq> Undefined" and k: "k \<noteq> ''events''"
  shows "fst (jq_data e (Key k) Undefined False
      (snd (jq_data e (Key k) v False (snd (jq_data e (Bulk [(k, w)]) Undefined False s))))) = RVal w"
proof -
  let ?s1 = "snd (jq_data e (Bulk [(k, w)]) Undefined False s)"
  let ?s2 = "snd (jq_data e (Key k) v False ?s1)"
  have l1: "local_to e s ?s1" by (rule jq_data_local[OF inv])
  have c1: "cell ?s1 e = Some (bulk_set False [(k, w)] (cell_or_fresh s e))"
    using jq_data_write(2)[OF inv a, of Undefined "Bulk [(k, w)]" False]
    by (simp add: data_in_cell_def Let_def ensure_internal_def)
  have a1: "acceptData (elems ?s1 e)" using a l1 by (simp add: local_to_def)
  have c2: "cell ?s2 e = Some (put_part False (camelCase k) v (bulk_set False [(k, w)] (cell_or_fresh s e)))"
    using jq_data_write(2)[OF local_to_inv[OF l1] a1, of v "Key k" False] v c1
    by (simp add: data_in_cell_def Let_def ensure_internal_def cell_or_fresh_def)
  have a2: "acceptData (elems ?s2 e)"
    using a1 jq_data_local[OF local_to_inv[OF l1]] by (simp add: local_to_def)
  have "w \<noteq> Undefined" using w by auto
  with read_user[OF a2 c2, of k] d w k show ?thesis
    by (simp add: read_part_def put_part_def bulk_set_def extend_props_def part_def Let_def)
qed

text \<open>
  Removing an element's data without a name removes all of the user's and none of the
  library's; when there is no private part, the cell and the node's expando go too.
\<close>

theorem removeData_all:
  assumes inv: "data_inv s" and a: "acceptData (elems s e)" and c: "cell s e = Some d"
  shows "cell (removeData e None False s) e =
       (case internal d of None \<Rightarrow> None | Some i \<Rightarrow> Some ((fresh_cell s e)\<lparr>internal := Some i\<rparr>))
     \<and> has_id (removeData e None False s) e = (internal d \<noteq> None)
     \<and> hasData (removeData e None False s) e = (internal d \<noteq> None)"
proof -
  have r: "removeData e None False s = drop_cell e d s"
    using a c by (simp add: removeData_def Let_def set_cell_self)
  have 1: "cell (removeData e None False s) e =
     (case internal d of None \<Rightarrow> None | Some i \<Rightarrow> Some ((fresh_cell s e)\<lparr>internal := Some i\<rparr>))"
    unfolding r using drop_cell_local(2)[OF inv] c by simp
  have "\<not> has_id (removeData e None False s) e" if "internal d = None"
    unfolding r using c that
    by (auto simp: drop_cell_def has_id_def set_cell_def cell_def Let_def split: option.splits)
  moreover have "has_id (removeData e None False s) e" if "internal d \<noteq> None"
    using 1 that cell_has_id by fastforce
  moreover have "hasData (removeData e None False s) e \<longleftrightarrow> internal d \<noteq> None"
    using 1 by (auto simp: hasData_def isEmptyDataObject_def isEmptyData_def fresh_cell_def split: option.splits)
  ultimately show ?thesis using 1 by blast
qed

section \<open>Private data as a store\<close>

text \<open>
  The private part seen through \<open>jQuery.data(elem, name, value, true)\<close> and
  \<open>jQuery.removeData(elem, name, true)\<close> is a plain keyed store for the names the library uses.
\<close>

definition plain :: "string \<Rightarrow> bool" where
  "plain k \<longleftrightarrow> camelCase k = k \<and> k \<noteq> ''events'' \<and> k \<noteq> ''toJSON'' \<and> k \<noteq> []"

definition priv_get :: "dstore \<Rightarrow> nat \<Rightarrow> string \<Rightarrow> jsval" where
  "priv_get s e k = (case fst (jq_data e (Key k) Undefined True s) of RVal v \<Rightarrow> v | _ \<Rightarrow> Undefined)"

definition priv_set :: "nat \<Rightarrow> string \<Rightarrow> jsval \<Rightarrow> dstore \<Rightarrow> dstore" where
  "priv_set e k v s = snd (jq_data e (Key k) v True s)"

definition priv_del :: "nat \<Rightarrow> string \<Rightarrow> dstore \<Rightarrow> dstore" where
  "priv_del e k s = removeData e (Some k) True s"

lemma priv_get_cell:
  assumes "data_inv s" "plain k" "acceptData (elems s e)"
  shows "priv_get s e k = pget (part True (cell_or_fresh s e)) k"
    and "snd (jq_data e (Key k) Undefined True s) = s"
proof -
  have "jq_data e (Key k) Undefined True s = (RVal (pget (part True (cell_or_fresh s e)) k), s)"
  proof (cases "cell s e")
    case None
    then have "part True (cell_or_fresh s e) = []"
      by (simp add: cell_or_fresh_def fresh_cell_def part_def)
    moreover have "\<not> has_id s e"
      using None data_invD(3)[OF assms(1), of e] by (auto simp: has_id_def cell_def split: option.splits if_splits)
    ultimately show ?thesis using assms None by (simp add: jq_data_def)
  next
    case (Some d)
    show ?thesis
    proof (cases "internal d")
      case None
      with Some show ?thesis
        using assms by (simp add: jq_data_def cell_or_fresh_def part_def)
    next
      case (Some i)
      with \<open>cell s e = Some d\<close> show ?thesis
        using assms cell_has_id[of s e d] set_cell_self[of s e d]
        by (auto simp: jq_data_def Let_def ensure_id_def ensure_cell_def data_in_cell_def
          ensure_internal_def read_part_def plain_def cell_or_fresh_def)
    qed
  qed
  then show "priv_get s e k = pget (part True (cell_or_fresh s e)) k"
    and "snd (jq_data e (Key k) Undefined True s) = s"
    by (simp_all add: priv_get_def)
qed

lemma cell_or_fresh_other: "local_to e s s' \<Longrightarrow> e' \<noteq> e \<Longrightarrow> cell_or_fresh s' e' = cell_or_fresh s e'"
  by (simp add: local_to_def cell_or_fresh_def fresh_cell_def split: option.split)

lemma part_cell_or_fresh: "part True (cell_or_fresh s e) = (case cell s e of None \<Rightarrow> [] | Some d \<Rightarrow> part True d)"
  by (simp add: cell_or_fresh_def fresh_cell_def part_def split: option.split)

lemma cell_or_fresh_Some: "cell s e = Some d \<Longrightarrow> cell_or_fresh s e = d"
  by (simp add: cell_or_fresh_def)

lemma priv_get_set:
  assumes "data_inv s" "plain k" "plain k'" "v \<noteq> Undefined" "acceptData (elems s e)" "acceptData (elems s e')"
  shows "priv_get (priv_set e k v s) e' k' = (if e = e' \<and> k = k' then v else priv_get s e' k')"
proof -
  have l: "local_to e s (priv_set e k v s)"
    unfolding priv_set_def by (rule jq_data_local) fact
  then have el: "elems (priv_set e k v s) = elems s" by (simp add: local_to_def)
  have c: "cell (priv_set e k v s) e = Some (put_part True k v (ensure_internal True (cell_or_fresh s e)))"
    using jq_data_write(2)[OF assms(1,5), of v "Key k" True] assms(2,4)
    by (simp add: priv_set_def data_in_cell_def Let_def plain_def)
  show ?thesis
  proof (cases "e = e'")
    case True
    have "part True (cell_or_fresh (priv_set e k v s) e) = AList.update k v (part True (cell_or_fresh s e))"
      using cell_or_fresh_Some[OF c] by (auto simp: put_part_def part_def ensure_internal_def split: option.splits)
    with True show ?thesis using assms el local_to_inv[OF l] by (simp add: priv_get_cell)
  next
    case False
    then show ?thesis
      using assms el local_to_inv[OF l] cell_or_fresh_other[OF l, of e'] by (simp add: priv_get_cell)
  qed
qed

lemma isEmptyData_pget: "isEmptyData ps \<Longrightarrow> k \<noteq> ''toJSON'' \<Longrightarrow> pget ps k = Undefined"
  by (induction ps) (auto simp: isEmptyData_def get_or_def)

lemma priv_get_del:
  assumes "data_inv s" "plain k" "plain k'" "acceptData (elems s e)" "acceptData (elems s e')"
  shows "priv_get (priv_del e k s) e' k' = (if e = e' \<and> k = k' then Undefined else priv_get s e' k')"
proof -
  have l: "local_to e s (priv_del e k s)"
    unfolding priv_del_def by (rule removeData_local) fact
  then have el: "elems (priv_del e k s) = elems s" by (simp add: local_to_def)
  show ?thesis
  proof (cases "e = e'")
    case True
    have "pget (part True (cell_or_fresh (priv_del e k s) e)) k'
      = pget (AList.delete k (part True (cell_or_fresh s e))) k'"
    proof (cases "cell s e")
      case None
      then show ?thesis using assms by (simp add: priv_del_def removeData_def part_cell_or_fresh)
    next
      case (Some d)
      let ?i = "AList.delete k (part True d)"
      have dk: "delete_key k (part True d) = ?i" using assms(2) by (simp add: delete_key_def plain_def)
      have c1: "cell (set_cell e (Some x) s) e = Some x" for x
        using set_cell_Some(2)[OF assms(1)] Some by simp
      have i1: "data_inv (set_cell e (Some x) s)" for x
        using set_cell_Some(1)[OF assms(1)] Some by (simp add: local_to_def)
      have c2: "cell (set_cell e (Some y) (set_cell e (Some x) s)) e = Some y" for x y
        using set_cell_Some(2)[OF i1, where e = e and d = y] c1 by simp
      have i2: "data_inv (set_cell e (Some y) (set_cell e (Some x) s))" for x y
        using set_cell_Some(1)[OF i1, where e = e and d = y] c1 by (simp add: local_to_def)
      have dc: "part True (cell_or_fresh (drop_cell e z (set_cell e (Some y) (set_cell e (Some x) s))) e) = []"
        if "internal z = None" for x y z
        using drop_cell_local(2)[OF i2, where e = e and d = z] c2 that by (simp add: part_cell_or_fresh)
      have empty: "isEmptyData ?i \<Longrightarrow> pget ?i k' = Undefined"
        using isEmptyData_pget[of ?i k'] assms(3) by (simp add: plain_def)
      have cs: "cell_or_fresh s e = d" using Some by (rule cell_or_fresh_Some)
      let ?d1 = "if internal d = None then d else d\<lparr>internal := Some ?i\<rparr>"
      let ?s1 = "set_cell e (Some ?d1) s"
      let ?d2 = "d\<lparr>internal := None\<rparr>"
      let ?s2 = "set_cell e (Some ?d2) ?s1"
      have p1: "part True (d\<lparr>internal := Some x\<rparr>) = x" for x by (simp add: part_def)
      have pd: "priv_del e k s = (if internal d \<noteq> None \<and> \<not> isEmptyData ?i then ?s1
          else if \<not> isEmptyDataObject ?d2 then ?s2 else drop_cell e ?d2 ?s2)"
        using Some assms(2,4) dk
        by (cases "internal d") (simp_all add: priv_del_def removeData_def Let_def p1 plain_def)
      consider (keep) "internal d \<noteq> None" "priv_del e k s = ?s1"
        | (clear) "internal d = None \<or> isEmptyData ?i" "priv_del e k s = ?s2"
        | (drop) "internal d = None \<or> isEmptyData ?i" "priv_del e k s = drop_cell e ?d2 ?s2"
        using pd by (auto split: if_splits)
      then show ?thesis
      proof cases
        case keep
        then show ?thesis using cell_or_fresh_Some[OF c1, of ?d1] cs by (simp add: part_def)
      next
        case clear
        then show ?thesis using cell_or_fresh_Some[OF c2, of ?d2 ?d1] cs empty by (auto simp: part_def)
      next
        case drop
        then show ?thesis using dc[of ?d2 ?d2 ?d1] cs empty by (auto simp: part_def)
      qed
    qed
    with True show ?thesis using assms el local_to_inv[OF l] by (simp add: priv_get_cell)
  next
    case False
    then show ?thesis
      using assms el local_to_inv[OF l] cell_or_fresh_other[OF l, of e'] by (simp add: priv_get_cell)
  qed
qed

text \<open>The contract that the queues (and the effects that run on them) rely on.\<close>

locale private_store =
  fixes inv :: "'s \<Rightarrow> bool"
    and accepts :: "'s \<Rightarrow> nat \<Rightarrow> bool"
    and key :: "string \<Rightarrow> bool"
    and get :: "'s \<Rightarrow> nat \<Rightarrow> string \<Rightarrow> jsval"
    and put :: "nat \<Rightarrow> string \<Rightarrow> jsval \<Rightarrow> 's \<Rightarrow> 's"
    and del :: "nat \<Rightarrow> string \<Rightarrow> 's \<Rightarrow> 's"
  assumes inv_put: "inv s \<Longrightarrow> inv (put e k v s)"
    and inv_del: "inv s \<Longrightarrow> inv (del e k s)"
    and accepts_put: "inv s \<Longrightarrow> accepts (put e k v s) e' = accepts s e'"
    and accepts_del: "inv s \<Longrightarrow> accepts (del e k s) e' = accepts s e'"
    and get_put: "inv s \<Longrightarrow> key k \<Longrightarrow> key k' \<Longrightarrow> v \<noteq> Undefined \<Longrightarrow> accepts s e \<Longrightarrow> accepts s e' \<Longrightarrow>
      get (put e k v s) e' k' = (if e = e' \<and> k = k' then v else get s e' k')"
    and get_del: "inv s \<Longrightarrow> key k \<Longrightarrow> key k' \<Longrightarrow> accepts s e \<Longrightarrow> accepts s e' \<Longrightarrow>
      get (del e k s) e' k' = (if e = e' \<and> k = k' then Undefined else get s e' k')"

interpretation priv: private_store data_inv "\<lambda>s e. acceptData (elems s e)" plain priv_get priv_set priv_del
proof
  fix s e k v e'
  assume inv: "data_inv s"
  show "data_inv (priv_set e k v s)" and "acceptData (elems (priv_set e k v s) e') = acceptData (elems s e')"
    using jq_data_local[OF inv, of e "Key k" v True] by (auto simp: priv_set_def local_to_def)
  show "data_inv (priv_del e k s)" and "acceptData (elems (priv_del e k s) e') = acceptData (elems s e')"
    using removeData_local[OF inv, of e "Some k" True] by (auto simp: priv_del_def local_to_def)
qed (use priv_get_set priv_get_del in auto)

section \<open>Names\<close>

lemma dash_alpha_alnum: "alnum c \<Longrightarrow> dash_alpha (c # s) = c # dash_alpha s"
  by (cases s) (auto simp: alnum_def)

lemma alnum_lower: "alnum c \<Longrightarrow> alnum (lower_char c)"
  by (cases "is_upper c") (auto simp: alnum_def lower_char_other lower_char_upper)

lemma alnum_not_dash: "alnum c \<Longrightarrow> c \<noteq> CHR ''-''"
  by (auto simp: alnum_def)

lemma lower_dash [simp]: "lower_char CHR ''-'' = CHR ''-''"
  by (simp add: lower_char_def)

lemma dashed_Cons: "dashed (c # s) = (if is_upper c then [CHR ''-'', lower_char c] else [c]) @ dashed s"
  by (simp add: dashed_def lower_char_other)

lemma dash_alpha_dashed: "list_all alnum s \<Longrightarrow> dash_alpha (dashed s) = s"
proof (induction s)
  case Nil
  then show ?case by (simp add: dashed_def)
next
  case (Cons c s)
  show ?case
  proof (cases "is_upper c")
    case True
    then have "alnum (lower_char c)" using Cons.prems alnum_lower by simp
    with True Cons show ?thesis by (simp add: dashed_Cons upper_lower_char)
  next
    case False
    with Cons show ?thesis by (simp add: dashed_Cons dash_alpha_alnum)
  qed
qed

text \<open>
  CamelCase undoes the conversion of a key to the name of its \<open>data-\<close> attribute, for a key
  of ASCII letters and digits that does not begin with a capital: \<open>data("fooBar")\<close> and the
  attribute \<open>data-foo-bar\<close> name each other.
\<close>

theorem camelCase_dashed:
  assumes "list_all alnum k" and "k \<noteq> [] \<Longrightarrow> \<not> is_upper (hd k)"
  shows "camelCase (dashed k) = k"
proof -
  have "take 4 (dashed k) \<noteq> ''-ms-''"
  proof (cases k)
    case (Cons c s)
    then have "dashed k = c # dashed s" and "c \<noteq> CHR ''-''"
      using assms alnum_not_dash by (auto simp: dashed_Cons)
    then show ?thesis by simp
  qed (simp add: dashed_def)
  then show ?thesis using assms(1) by (simp add: camelCase_def dash_alpha_dashed)
qed

section \<open>Witnesses\<close>

definition demo_store :: dstore where
  "demo_store = \<lparr>elems = (\<lambda>e. \<lparr>ename = (if e < 5 then Some ''DIV'' else None), enode = e < 5, classid = None\<rparr>),
     cache = Map.empty, uuid = 0, expando = Map.empty, objdata = Map.empty\<rparr>"

lemma demo_store_inv: "data_inv demo_store"
  by (simp add: data_inv_def demo_store_def)

lemma demo_store_accepts: "acceptData (elems demo_store e)"
  by (simp add: acceptData_def demo_store_def noData_def lower_char_def)

theorem data_ops_are_local_witness:
  "data_inv (snd (jq_data 1 (Key ''x'') (Num 1) False demo_store)) \<and>
   cell (snd (jq_data 1 (Key ''x'') (Num 1) False demo_store)) 2 = None"
  using data_ops_are_local[OF demo_store_inv, where e = 1 and e' = 2 and name = "Key ''x''" and v = "Num 1" and pvt = False]
  by (simp add: demo_store_def cell_def)

theorem data_roundtrip_witness:
  "fst (jq_data 1 (Key ''foo-bar'') Undefined False
     (snd (jq_data 1 (Key ''foo-bar'') (Num 1) False demo_store))) = RVal (Num 1)"
  using data_roundtrip[OF demo_store_inv demo_store_accepts, of "Num 1" "''foo-bar''" 1]
  by (simp add: demo_store_def cell_or_fresh_def cell_def fresh_cell_def)

theorem data_stale_after_bulk_witness:
  "fst (jq_data 1 (Key ''foo-bar'') Undefined False (snd (jq_data 1 (Key ''foo-bar'') (Num 2) False
      (snd (jq_data 1 (Bulk [(''foo-bar'', Num 1)]) Undefined False demo_store))))) = RVal (Num 1)"
proof -
  have "camelCase ''foo-bar'' = ''fooBar''" by code_simp
  then show ?thesis
    using data_stale_after_bulk[OF demo_store_inv demo_store_accepts, of "''foo-bar''" "Num 1" "Num 2" 1]
    by simp
qed

theorem removeData_all_witness:
  "\<exists>s d. cell s 1 = Some d \<and> internal d = None \<and> \<not> has_id (removeData 1 None False s) 1"
proof -
  let ?s = "snd (jq_data 1 (Key ''x'') (Num 1) False demo_store)"
  have inv: "data_inv ?s" and a: "acceptData (elems ?s 1)"
    using jq_data_local[OF demo_store_inv, of 1 "Key ''x''" "Num 1" False] demo_store_accepts[of 1]
    by (simp_all add: local_to_def)
  have c: "cell ?s 1 = Some (put_part False (camelCase ''x'') (Num 1) (fresh_cell demo_store 1))"
    using jq_data_write(2)[OF demo_store_inv demo_store_accepts, of "Num 1" "Key ''x''" 1 False]
    by (simp add: data_in_cell_def Let_def ensure_internal_def cell_or_fresh_def cell_def demo_store_def)
  from removeData_all[OF inv a c] c show ?thesis
    by (intro exI[of _ ?s]) (simp add: put_part_def fresh_cell_def)
qed

theorem camelCase_dashed_witness: "camelCase (dashed ''fooBar9'') = ''fooBar9''"
  using camelCase_dashed[of "''fooBar9''"]
  by (simp add: alnum_def is_upper_def is_lower_def is_digit_def)

end
