(* ===== verification/JQ_Queue.thy ===== *)
theory JQ_Queue
  imports JQ_Data "HOL-Library.Sublist"
begin

text \<open>
  The function queues of jquery-1.6.4.js (\<open>jQuery.queue\<close>, \<open>dequeue\<close>, the marks and the
  deferreds that wait for them). A queue is an array stored in an element's private data; the
  code keeps references to it across user code, so arrays live in a store of their own.
\<close>

section \<open>State\<close>

record qworld =
  dat :: dstore
  arrays :: "nat \<Rightarrow> jsval list"
  nextarr :: nat
  timers :: "(nat \<times> string \<times> nat) list" \<comment> \<open>pending \<open>setTimeout(.., 0)\<close>: element, type, deferred\<close>
  qlog :: "(nat \<times> string \<times> jsval) list" \<comment> \<open>queue functions called, oldest first\<close>
  resolved :: "nat list" \<comment> \<open>deferreds resolved, oldest first\<close>
  waiting :: "(nat \<times> nat) list" \<comment> \<open>promise waiting on a deferred\<close>
  pcount :: "nat \<Rightarrow> int" \<comment> \<open>\<open>count\<close> of each promise\<close>
  presolved :: "nat list"
  nextdefer :: nat

datatype qarg = QNone | QFn jsval | QArr "jsval list"

text \<open>What a queue function does when it is called: it returns or throws, in a new state.\<close>

type_synonym qbody = "jsval \<Rightarrow> nat \<Rightarrow> string \<Rightarrow> qworld \<Rightarrow> qworld outcome"

definition qdefault :: "string \<Rightarrow> string" where
  "qdefault t = (if t = [] then ''fx'' else t)"

definition pdata :: "qworld \<Rightarrow> nat \<Rightarrow> string \<Rightarrow> jsval" where
  "pdata w e k = priv_get (dat w) e k"

definition set_pdata :: "nat \<Rightarrow> string \<Rightarrow> jsval \<Rightarrow> qworld \<Rightarrow> qworld" where
  "set_pdata e k v w = w\<lparr>dat := priv_set e k v (dat w)\<rparr>"

definition del_pdata :: "nat \<Rightarrow> string \<Rightarrow> qworld \<Rightarrow> qworld" where
  "del_pdata e k w = w\<lparr>dat := priv_del e k (dat w)\<rparr>"

definition set_array :: "nat \<Rightarrow> jsval list \<Rightarrow> qworld \<Rightarrow> qworld" where
  "set_array a xs w = w\<lparr>arrays := (arrays w)(a := xs)\<rparr>"

definition new_array :: "jsval list \<Rightarrow> qworld \<Rightarrow> nat \<times> qworld" where
  "new_array xs w = (nextarr w, w\<lparr>arrays := (arrays w)(nextarr w := xs), nextarr := Suc (nextarr w)\<rparr>)"

section \<open>Operations\<close>

text \<open>
  \<open>handleQueueMarkDefer\<close> and the closure it passes to \<open>setTimeout\<close>. Resolving the deferred
  counts down the promises that wait for it; a deferred is resolved once, by a later timer not again.
\<close>

definition handleQueueMarkDefer :: "nat \<Rightarrow> string \<Rightarrow> string \<Rightarrow> qworld \<Rightarrow> qworld" where
  "handleQueueMarkDefer e t src w =
     (case pdata w e (t @ ''defer'') of
        Ref d \<Rightarrow>
          if (src = ''queue'' \<or> \<not> truthy (pdata w e (t @ ''queue''))) \<and>
             (src = ''mark'' \<or> \<not> truthy (pdata w e (t @ ''mark'')))
          then w\<lparr>timers := timers w @ [(e, t, d)]\<rparr> else w
      | _ \<Rightarrow> w)"

definition promise_down :: "nat \<Rightarrow> qworld \<Rightarrow> qworld" where
  "promise_down p w =
     (let c = pcount w p - 1; w1 = w\<lparr>pcount := (pcount w)(p := c)\<rparr>
      in if c = 0 then w1\<lparr>presolved := presolved w1 @ [p]\<rparr> else w1)"

definition resolve_defer :: "nat \<Rightarrow> qworld \<Rightarrow> qworld" where
  "resolve_defer d w =
     (if d \<in> set (resolved w) then w
      else fold promise_down (map fst (filter (\<lambda>(p, d'). d' = d) (waiting w))) (w\<lparr>resolved := resolved w @ [d]\<rparr>))"

definition run_timer :: "nat \<times> string \<times> nat \<Rightarrow> qworld \<Rightarrow> qworld" where
  "run_timer tm w = (case tm of (e, t, d) \<Rightarrow>
     if \<not> truthy (pdata w e (t @ ''queue'')) \<and> \<not> truthy (pdata w e (t @ ''mark''))
     then resolve_defer d (del_pdata e (t @ ''defer'') w) else w)"

definition mark :: "nat \<Rightarrow> string \<Rightarrow> qworld \<Rightarrow> qworld" where
  "mark e t w =
     (let k = qdefault t @ ''mark'';
          c = (case pdata w e k of Num n \<Rightarrow> n | _ \<Rightarrow> 0)
      in set_pdata e k (Num (c + 1)) w)"

definition unmark :: "bool \<Rightarrow> nat \<Rightarrow> string \<Rightarrow> qworld \<Rightarrow> qworld" where
  "unmark force e t w =
     (let t' = qdefault t; k = t' @ ''mark'';
          c = (if force then 0 else (case pdata w e k of Num n \<Rightarrow> if n = 0 then 1 else n | _ \<Rightarrow> 1) - 1)
      in if c \<noteq> 0 then set_pdata e k (Num c) w
         else handleQueueMarkDefer e t' ''mark'' (del_pdata e k w))"

text \<open>
  \<open>jQuery.queue\<close>: the stored array, or \<open>None\<close> where the code returns a new empty one. The
  argument is \<open>QNone\<close> for a missing (falsy) value.
\<close>

definition ref_of :: "dres \<Rightarrow> nat option" where
  "ref_of r = (case r of RVal (Ref a) \<Rightarrow> Some a | _ \<Rightarrow> None)"

definition store_array :: "nat \<Rightarrow> string \<Rightarrow> jsval list \<Rightarrow> qworld \<Rightarrow> nat option \<times> qworld" where
  "store_array e k xs w =
     (case new_array xs w of (a, w1) \<Rightarrow>
        (case jq_data e (Key k) (Ref a) True (dat w1) of (r, s) \<Rightarrow> (ref_of r, w1\<lparr>dat := s\<rparr>)))"

definition jq_queue :: "nat \<Rightarrow> string \<Rightarrow> qarg \<Rightarrow> qworld \<Rightarrow> nat option \<times> qworld" where
  "jq_queue e t d w =
     (let k = qdefault t @ ''queue'';
          q = (case pdata w e k of Ref a \<Rightarrow> Some a | _ \<Rightarrow> None)
      in case d of
        QNone \<Rightarrow> (q, w)
      | QArr xs \<Rightarrow> store_array e k xs w
      | QFn f \<Rightarrow> (case q of
            None \<Rightarrow> store_array e k [f] w
          | Some a \<Rightarrow> (Some a, set_array a (arrays w a @ [f]) w)))"

definition inprogress :: jsval where
  "inprogress = Str ''inprogress''"

definition shift :: "nat \<Rightarrow> qworld \<Rightarrow> jsval \<times> qworld" where
  "shift a w = (case arrays w a of [] \<Rightarrow> (Undefined, w) | x # xs \<Rightarrow> (x, set_array a xs w))"

text \<open>
  \<open>jQuery.dequeue\<close>. \<open>body f e t\<close> is what the queue function \<open>f\<close> does when it is called with the
  element and a continuation that dequeues again.
\<close>

definition call_body :: "qbody \<Rightarrow> nat \<Rightarrow> nat \<Rightarrow> string \<Rightarrow> jsval \<Rightarrow> qworld \<Rightarrow> qworld outcome" where
  "call_body body a e t fn w =
     (if truthy fn
      then (let w' = (if t = ''fx'' then set_array a (inprogress # arrays w a) w else w)
            in body fn e t (w'\<lparr>qlog := qlog w' @ [(e, t, fn)]\<rparr>))
      else Returned w)"

definition after_call :: "nat \<Rightarrow> nat \<Rightarrow> string \<Rightarrow> qworld \<Rightarrow> qworld" where
  "after_call a e t w =
     (if arrays w a = [] then handleQueueMarkDefer e t ''queue'' (del_pdata e (t @ ''queue'') w) else w)"

definition dequeue :: "qbody \<Rightarrow> nat \<Rightarrow> string \<Rightarrow> qworld \<Rightarrow> qworld outcome" where
  "dequeue body e t0 w =
     (let t = qdefault t0;
          (q, w0) = jq_queue e t QNone w;
          (a, w1) = (case q of Some a \<Rightarrow> (a, w0) | None \<Rightarrow> new_array [] w0);
          (fn1, w2) = shift a w1;
          (fn, w3) = (if fn1 = inprogress then shift a w2 else (fn1, w2))
      in and_then (call_body body a e t fn w3) (\<lambda>w4. Returned (after_call a e t w4)))"

text \<open>The methods on a set of elements.\<close>

definition fn_queue_one :: "qbody \<Rightarrow> string \<Rightarrow> qarg \<Rightarrow> nat \<Rightarrow> qworld \<Rightarrow> qworld outcome" where
  "fn_queue_one body t d e w =
     (case jq_queue e t d w of (q, w1) \<Rightarrow>
        if t = ''fx'' \<and> (case q of None \<Rightarrow> True
             | Some a \<Rightarrow> (case arrays w1 a of [] \<Rightarrow> True | x # _ \<Rightarrow> x \<noteq> inprogress))
        then dequeue body e t w1 else Returned w1)"

definition fn_queue :: "qbody \<Rightarrow> string \<Rightarrow> qarg \<Rightarrow> nat list \<Rightarrow> qworld \<Rightarrow> qworld outcome" where
  "fn_queue body t d es w = each_of (fn_queue_one body t d) es w"

definition fn_dequeue :: "qbody \<Rightarrow> string \<Rightarrow> nat list \<Rightarrow> qworld \<Rightarrow> qworld outcome" where
  "fn_dequeue body t es w = each_of (\<lambda>e. dequeue body e t) es w"

definition clearQueue :: "qbody \<Rightarrow> string \<Rightarrow> nat list \<Rightarrow> qworld \<Rightarrow> qworld outcome" where
  "clearQueue body t es w = fn_queue body (qdefault t) (QArr []) es w"

text \<open>
  \<open>promise(type)\<close>: a promise \<open>p\<close> that counts the elements with a pending deferred, a queue or a
  mark, from the last to the first, and starts one too high.
\<close>

definition promise_elem :: "nat \<Rightarrow> string \<Rightarrow> nat \<Rightarrow> qworld \<Rightarrow> qworld" where
  "promise_elem p t e w =
     (case (case pdata w e (t @ ''defer'') of
              Ref d \<Rightarrow> (Some d, w)
            | _ \<Rightarrow>
                if truthy (pdata w e (t @ ''queue'')) \<or> truthy (pdata w e (t @ ''mark''))
                then (let d = nextdefer w
                      in (Some d, set_pdata e (t @ ''defer'') (Ref d) (w\<lparr>nextdefer := Suc d\<rparr>)))
                else (None, w)) of
        (None, w1) \<Rightarrow> w1
      | (Some d, w1) \<Rightarrow>
          w1\<lparr>pcount := (pcount w1)(p := pcount w1 p + 1), waiting := waiting w1 @ [(p, d)]\<rparr>)"

definition fn_promise :: "nat \<Rightarrow> string \<Rightarrow> nat list \<Rightarrow> qworld \<Rightarrow> qworld" where
  "fn_promise p t es w =
     promise_down p (fold (promise_elem p (qdefault t)) (rev es) (w\<lparr>pcount := (pcount w)(p := 1)\<rparr>))"

section \<open>The queues seen from outside\<close>

definition qref :: "qworld \<Rightarrow> nat \<Rightarrow> string \<Rightarrow> nat option" where
  "qref w e t = (case pdata w e (t @ ''queue'') of Ref a \<Rightarrow> Some a | _ \<Rightarrow> None)"

definition qview :: "qworld \<Rightarrow> nat \<Rightarrow> string \<Rightarrow> jsval list" where
  "qview w e t = (case qref w e t of None \<Rightarrow> [] | Some a \<Rightarrow> arrays w a)"

definition accepts :: "qworld \<Rightarrow> nat \<Rightarrow> bool" where
  "accepts w e \<longleftrightarrow> acceptData (elems (dat w) e)"

text \<open>A type is usable when it is not empty and its three keys are unchanged by camelCase.\<close>

definition qtype :: "string \<Rightarrow> bool" where
  "qtype t \<longleftrightarrow> t \<noteq> [] \<and> plain (t @ ''queue'') \<and> plain (t @ ''mark'') \<and> plain (t @ ''defer'')"

text \<open>No two queues share an array, and a new array is not a queue yet.\<close>

definition q_inv :: "qworld \<Rightarrow> bool" where
  "q_inv w \<longleftrightarrow> data_inv (dat w) \<and>
     (\<forall>e t a. accepts w e \<longrightarrow> qtype t \<longrightarrow> qref w e t = Some a \<longrightarrow> a < nextarr w \<and>
       (\<forall>e' t'. accepts w e' \<longrightarrow> qtype t' \<longrightarrow> qref w e' t' = Some a \<longrightarrow> e' = e \<and> t' = t))"

lemma queue_mark: "t @ ''queue'' \<noteq> t' @ ''mark''"
proof
  assume "t @ ''queue'' = t' @ ''mark''"
  then have "last (t @ ''queue'') = last (t' @ ''mark'')" by (rule arg_cong)
  then show False by simp
qed

lemma queue_defer: "t @ ''queue'' \<noteq> t' @ ''defer''"
proof
  assume "t @ ''queue'' = t' @ ''defer''"
  then have "last (t @ ''queue'') = last (t' @ ''defer'')" by (rule arg_cong)
  then show False by simp
qed

lemmas key_eqs [simp] =
  append_same_eq[of _ "''queue''"] queue_defer queue_defer[symmetric] queue_mark queue_mark[symmetric]

lemma qtype_simps [simp]: "qtype t \<Longrightarrow> qdefault t = t" "qtype t \<Longrightarrow> t \<noteq> []"
  "qtype t \<Longrightarrow> plain (t @ ''queue'')" "qtype t \<Longrightarrow> plain (t @ ''mark'')" "qtype t \<Longrightarrow> plain (t @ ''defer'')"
  by (simp_all add: qtype_def qdefault_def)

lemma q_invD: assumes "q_inv w"
  shows "data_inv (dat w)"
    and "accepts w e \<Longrightarrow> qtype t \<Longrightarrow> qref w e t = Some a \<Longrightarrow> a < nextarr w"
    and "accepts w e \<Longrightarrow> qtype t \<Longrightarrow> accepts w e' \<Longrightarrow> qtype t' \<Longrightarrow> qref w e t = Some a \<Longrightarrow>
      qref w e' t' = Some a \<Longrightarrow> e' = e \<and> t' = t"
  using assms unfolding q_inv_def by blast+

lemma pdata_set:
  assumes "q_inv w" "plain k" "plain k'" "v \<noteq> Undefined" "accepts w e" "accepts w e'"
  shows "pdata (set_pdata e k v w) e' k' = (if e = e' \<and> k = k' then v else pdata w e' k')"
  using priv.get_put[OF q_invD(1)[OF assms(1)] assms(2-4)] assms(5,6)
  by (simp add: pdata_def set_pdata_def accepts_def)

lemma pdata_del:
  assumes "q_inv w" "plain k" "plain k'" "accepts w e" "accepts w e'"
  shows "pdata (del_pdata e k w) e' k' = (if e = e' \<and> k = k' then Undefined else pdata w e' k')"
  using priv.get_del[OF q_invD(1)[OF assms(1)] assms(2,3)] assms(4,5)
  by (simp add: pdata_def del_pdata_def accepts_def)

lemma accepts_set [simp]: "q_inv w \<Longrightarrow> accepts (set_pdata e k v w) e' = accepts w e'"
  using priv.accepts_put q_invD(1) by (simp add: accepts_def set_pdata_def)

lemma accepts_del [simp]: "q_inv w \<Longrightarrow> accepts (del_pdata e k w) e' = accepts w e'"
  using priv.accepts_del q_invD(1) by (simp add: accepts_def del_pdata_def)

lemma pdata_frame [simp]:
  "pdata (w\<lparr>arrays := x\<rparr>) e k = pdata w e k" "pdata (w\<lparr>nextarr := n\<rparr>) e k = pdata w e k"
  "pdata (w\<lparr>timers := y\<rparr>) e k = pdata w e k" "pdata (w\<lparr>qlog := l\<rparr>) e k = pdata w e k"
  "pdata (w\<lparr>resolved := r\<rparr>) e k = pdata w e k" "pdata (w\<lparr>waiting := g\<rparr>) e k = pdata w e k"
  "pdata (w\<lparr>pcount := c\<rparr>) e k = pdata w e k" "pdata (w\<lparr>presolved := q\<rparr>) e k = pdata w e k"
  "pdata (w\<lparr>nextdefer := n\<rparr>) e k = pdata w e k"
  by (simp_all add: pdata_def)

text \<open>An operation that leaves every queue as it is.\<close>

definition keeps_queues :: "qworld \<Rightarrow> qworld \<Rightarrow> bool" where
  "keeps_queues w w' \<longleftrightarrow> data_inv (dat w') \<and> elems (dat w') = elems (dat w) \<and> arrays w' = arrays w \<and>
     nextarr w' = nextarr w \<and> qlog w' = qlog w \<and>
     (\<forall>e t. accepts w e \<longrightarrow> qtype t \<longrightarrow> qref w' e t = qref w e t)"

lemma kq_refl: "q_inv w \<Longrightarrow> keeps_queues w w"
  by (simp add: keeps_queues_def q_inv_def)

lemma kq_accepts: "keeps_queues w w' \<Longrightarrow> accepts w' e = accepts w e"
  by (simp add: keeps_queues_def accepts_def)

lemma kq_trans: "keeps_queues w1 w2 \<Longrightarrow> keeps_queues w2 w3 \<Longrightarrow> keeps_queues w1 w3"
  by (auto simp: keeps_queues_def accepts_def)

lemma q_inv_transfer:
  assumes i: "q_inv w" and d: "data_inv (dat w')" and ac: "\<And>e. accepts w' e = accepts w e"
    and n: "nextarr w \<le> nextarr w'"
    and q: "\<And>e t. accepts w e \<Longrightarrow> qtype t \<Longrightarrow> qref w' e t = qref w e t"
  shows "q_inv w'"
  unfolding q_inv_def ac
proof (intro conjI allI impI d)
  fix e t a
  assume h: "accepts w e" "qtype t" "qref w' e t = Some a"
  then have r: "qref w e t = Some a" using q by simp
  then show "a < nextarr w'" using q_invD(2)[OF i h(1,2)] n by (meson less_le_trans)
  fix e' t'
  assume g: "accepts w e'" "qtype t'" "qref w' e' t' = Some a"
  then have "qref w e' t' = Some a" using q by simp
  then show "e' = e" "t' = t" using q_invD(3)[OF i h(1,2) g(1,2) r] by blast+
qed

lemma kq_inv: "q_inv w \<Longrightarrow> keeps_queues w w' \<Longrightarrow> q_inv w'"
  by (erule q_inv_transfer) (simp_all only: keeps_queues_def accepts_def order.refl)

lemma kq_view: "keeps_queues w w' \<Longrightarrow> accepts w e \<Longrightarrow> qtype t \<Longrightarrow> qview w' e t = qview w e t"
  by (simp add: qview_def keeps_queues_def split: option.split)

lemma kq_same: "q_inv w \<Longrightarrow> dat w' = dat w \<Longrightarrow> arrays w' = arrays w \<Longrightarrow> nextarr w' = nextarr w \<Longrightarrow> qlog w' = qlog w \<Longrightarrow>
  keeps_queues w w'"
  by (simp add: keeps_queues_def qref_def pdata_def q_inv_def)

lemma kq_set:
  assumes "q_inv w" "accepts w e" "plain k" "v \<noteq> Undefined" "\<And>t. k \<noteq> t @ ''queue''"
  shows "keeps_queues w (set_pdata e k v w)"
proof -
  have "qref (set_pdata e k v w) e' t = qref w e' t" if "accepts w e'" "qtype t" for e' t
    using assms that by (simp add: qref_def pdata_set)
  moreover have "data_inv (dat (set_pdata e k v w))" "elems (dat (set_pdata e k v w)) = elems (dat w)"
    using jq_data_local[OF q_invD(1)[OF assms(1)], of e "Key k" v True]
    by (simp_all add: set_pdata_def priv_set_def local_to_def)
  ultimately show ?thesis by (simp add: keeps_queues_def) (simp add: set_pdata_def)
qed

lemma del_pdata_elems:
  "q_inv w \<Longrightarrow> data_inv (dat (del_pdata e k w)) \<and> elems (dat (del_pdata e k w)) = elems (dat w)"
  using removeData_local[OF q_invD(1), of w e "Some k" True]
  by (simp add: del_pdata_def priv_del_def local_to_def)

lemma kq_del:
  assumes "q_inv w" "accepts w e" "plain k" "\<And>t. k \<noteq> t @ ''queue''"
  shows "keeps_queues w (del_pdata e k w)"
proof -
  have "qref (del_pdata e k w) e' t = qref w e' t" if "accepts w e'" "qtype t" for e' t
    using assms that by (simp add: qref_def pdata_del)
  with del_pdata_elems[OF assms(1)] show ?thesis by (simp add: keeps_queues_def) (simp add: del_pdata_def)
qed

lemma kq_handle: "q_inv w \<Longrightarrow> keeps_queues w (handleQueueMarkDefer e t src w)"
  by (auto simp: handleQueueMarkDefer_def kq_refl intro!: kq_same split: jsval.splits)

lemma kq_promise_down: "q_inv w \<Longrightarrow> keeps_queues w (promise_down p w)"
  by (auto simp: promise_down_def Let_def intro!: kq_same)

lemma kq_fold:
  assumes "\<And>x w. x \<in> set xs \<Longrightarrow> q_inv w \<Longrightarrow> (\<forall>e. accepts w e = accepts w0 e) \<Longrightarrow> keeps_queues w (f x w)"
    and "q_inv w" and "\<forall>e. accepts w e = accepts w0 e"
  shows "keeps_queues w (fold f xs w)"
  using assms
proof (induction xs arbitrary: w)
  case Nil
  then show ?case by (simp add: kq_refl)
next
  case (Cons x xs)
  have k: "keeps_queues w (f x w)" using Cons.prems by simp
  then have "keeps_queues (f x w) (fold f xs (f x w))"
    using Cons.prems kq_inv[OF Cons.prems(2) k] kq_accepts[OF k] by (intro Cons.IH) auto
  with k show ?case by (simp add: kq_trans)
qed

lemma kq_resolve: "q_inv w \<Longrightarrow> keeps_queues w (resolve_defer d w)"
proof -
  assume i: "q_inv w"
  have k: "keeps_queues w (w\<lparr>resolved := resolved w @ [d]\<rparr>)" using i by (rule kq_same) simp_all
  then have "keeps_queues (w\<lparr>resolved := resolved w @ [d]\<rparr>) (fold promise_down ps (w\<lparr>resolved := resolved w @ [d]\<rparr>))" for ps
    using kq_inv[OF i k] kq_promise_down by (intro kq_fold) auto
  then show ?thesis using kq_trans[OF k] kq_refl[OF i] by (simp add: resolve_defer_def)
qed

lemma kq_run_timer: "q_inv w \<Longrightarrow> accepts w e \<Longrightarrow> qtype t \<Longrightarrow> keeps_queues w (run_timer (e, t, d) w)"
  using kq_trans[OF kq_del kq_resolve[OF kq_inv[OF _ kq_del]]]
  by (simp add: run_timer_def kq_refl)

lemma kq_mark: "q_inv w \<Longrightarrow> accepts w e \<Longrightarrow> qtype t \<Longrightarrow> keeps_queues w (mark e t w)"
  by (simp add: mark_def Let_def kq_set)

lemma kq_unmark: "q_inv w \<Longrightarrow> accepts w e \<Longrightarrow> qtype t \<Longrightarrow> keeps_queues w (unmark fc e t w)"
  using kq_trans[OF kq_del kq_handle[OF kq_inv[OF _ kq_del]]]
  by (simp add: unmark_def Let_def kq_set)

lemma kq_promise_elem: "q_inv w \<Longrightarrow> accepts w e \<Longrightarrow> qtype t \<Longrightarrow> keeps_queues w (promise_elem p t e w)"
proof -
  assume a: "q_inv w" "accepts w e" "qtype t"
  let ?s = "set_pdata e (t @ ''defer'') (Ref (nextdefer w)) (w\<lparr>nextdefer := Suc (nextdefer w)\<rparr>)"
  have 1: "keeps_queues w (w\<lparr>nextdefer := Suc (nextdefer w)\<rparr>)" using a(1) by (rule kq_same) simp_all
  then have "keeps_queues (w\<lparr>nextdefer := Suc (nextdefer w)\<rparr>) ?s"
    using a kq_inv[OF a(1) 1] kq_accepts[OF 1] by (intro kq_set) simp_all
  with 1 have 2: "keeps_queues w ?s" by (rule kq_trans)
  have 3: "keeps_queues w (x\<lparr>pcount := c, waiting := g\<rparr>)" if "keeps_queues w x" for x c g
    using that kq_trans[OF that kq_same[OF kq_inv[OF a(1) that]]] by simp
  show ?thesis
    using a 2 3 kq_refl[OF a(1)] by (auto simp: promise_elem_def Let_def split: jsval.split)
qed

lemma kq_fn_promise:
  assumes "q_inv w" "\<forall>e\<in>set es. accepts w e" "qtype t"
  shows "keeps_queues w (fn_promise p t es w)"
proof -
  let ?w = "w\<lparr>pcount := (pcount w)(p := 1)\<rparr>"
  have k: "keeps_queues w ?w" using assms(1) by (rule kq_same) simp_all
  then have "keeps_queues ?w (fold (promise_elem p t) (rev es) ?w)"
    using assms kq_inv[OF assms(1) k] kq_accepts[OF k]
    by (intro kq_fold[where ?w0.0 = w]) (simp_all add: kq_promise_elem)
  with k have 2: "keeps_queues w (fold (promise_elem p t) (rev es) ?w)" by (rule kq_trans)
  from kq_trans[OF 2 kq_promise_down[OF kq_inv[OF assms(1) 2]]] assms(3) show ?thesis
    by (simp add: fn_promise_def)
qed

section \<open>Queueing and dequeueing\<close>

text \<open>What an operation on the queue \<open>t\<close> of \<open>e\<close> does: its array becomes \<open>xs\<close>, the others stay.\<close>

definition sets_queue :: "nat \<Rightarrow> string \<Rightarrow> jsval list \<Rightarrow> qworld \<Rightarrow> qworld \<Rightarrow> bool" where
  "sets_queue e t xs w w' \<longleftrightarrow> q_inv w' \<and> elems (dat w') = elems (dat w) \<and> qview w' e t = xs \<and>
     (\<forall>e' t'. accepts w e' \<longrightarrow> qtype t' \<longrightarrow> (e', t') \<noteq> (e, t) \<longrightarrow> qview w' e' t' = qview w e' t')"

lemma sets_accepts: "sets_queue e t xs w w' \<Longrightarrow> accepts w' e' = accepts w e'"
  by (simp add: sets_queue_def accepts_def)

lemma sets_trans:
  "sets_queue e t xs w1 w2 \<Longrightarrow> sets_queue e t ys w2 w3 \<Longrightarrow> sets_queue e t ys w1 w3"
  by (simp add: sets_queue_def accepts_def)

lemma sets_keeps: "accepts w e \<Longrightarrow> qtype t \<Longrightarrow> q_inv w \<Longrightarrow> keeps_queues w w' \<Longrightarrow> sets_queue e t (qview w e t) w w'"
  using kq_view kq_inv by (simp add: sets_queue_def) (simp add: keeps_queues_def)

lemma sets_array:
  assumes i: "q_inv w" and a: "accepts w e" "qtype t" and q: "qref w e t = Some b"
  shows "sets_queue e t xs w (set_array b xs w)"
proof -
  have r: "qref (set_array b xs w) e' t' = qref w e' t'" for e' t'
    by (simp add: qref_def set_array_def)
  have ac: "accepts (set_array b xs w) e' = accepts w e'" for e'
    by (simp add: accepts_def set_array_def)
  have "q_inv (set_array b xs w)"
    using i by (rule q_inv_transfer) (simp_all add: r ac, simp_all add: set_array_def q_invD(1)[OF i])
  moreover have "qview (set_array b xs w) e' t' = qview w e' t'"
    if "accepts w e'" "qtype t'" "(e', t') \<noteq> (e, t)" for e' t'
  proof (cases "qref w e' t'")
    case (Some c)
    then have "c \<noteq> b" using q_invD(3)[OF i a that(1,2) q] that(3) by blast
    with Some show ?thesis by (simp add: qview_def r) (simp add: set_array_def)
  qed (simp add: qview_def r)
  ultimately show ?thesis using q by (simp add: sets_queue_def qview_def r) (simp add: set_array_def)
qed

lemma jq_data_fst:
  assumes "data_inv s" "plain k" "v \<noteq> Undefined" "\<not> nullish v" "acceptData (elems s e)"
  shows "fst (jq_data e (Key k) v True s) = RVal v"
  using jq_data_write(3)[OF assms(1,5), of v "Key k" True] assms(2-4)
  by (auto simp: data_in_cell_def Let_def plain_def read_part_def put_part_def part_def ensure_internal_def)

lemma store_array_sets:
  assumes i: "q_inv w" and a: "accepts w e" "qtype t"
  shows "fst (store_array e (t @ ''queue'') xs w) = Some (nextarr w)"
    and "qref (snd (store_array e (t @ ''queue'') xs w)) e t = Some (nextarr w)"
    and "sets_queue e t xs w (snd (store_array e (t @ ''queue'') xs w))"
    and "qlog (snd (store_array e (t @ ''queue'') xs w)) = qlog w"
proof -
  let ?k = "t @ ''queue''" and ?w1 = "snd (new_array xs w)"
  let ?w = "set_pdata e ?k (Ref (nextarr w)) ?w1"
  have k1: "data_inv (dat ?w1)" "accepts ?w1 e' = accepts w e'" "qref ?w1 e' t' = qref w e' t'" for e' t'
    using q_invD(1)[OF i] by (simp_all add: new_array_def accepts_def qref_def)
  have i1: "q_inv ?w1"
    using i k1(1) by (rule q_inv_transfer) (simp_all add: k1, simp add: new_array_def)
  have f: "fst (jq_data e (Key ?k) (Ref (nextarr w)) True (dat w)) = RVal (Ref (nextarr w))"
    using q_invD(1)[OF i] a by (intro jq_data_fst) (simp_all add: accepts_def)
  have st: "store_array e ?k xs w = (Some (nextarr w), ?w)"
    using f by (cases "jq_data e (Key ?k) (Ref (nextarr w)) True (dat w)")
      (simp add: store_array_def new_array_def set_pdata_def priv_set_def ref_of_def)
  have r: "qref ?w e' t' = (if e = e' \<and> t = t' then Some (nextarr w) else qref w e' t')"
    if "accepts w e'" "qtype t'" for e' t'
    using i1 a that k1 by (simp add: qref_def pdata_set)
  have ac: "accepts ?w e' = accepts w e'" for e' using i1 k1 by simp
  have loc: "data_inv (dat ?w)" "elems (dat ?w) = elems (dat w)"
    using jq_data_local[OF k1(1), of e "Key ?k" "Ref (nextarr w)" True]
    by (simp_all add: set_pdata_def priv_set_def local_to_def new_array_def)
  have n: "nextarr ?w = Suc (nextarr w)" "arrays ?w = (arrays w)(nextarr w := xs)"
    by (simp_all add: set_pdata_def new_array_def)
  have lt: "qref w e' t' = Some b \<Longrightarrow> b < nextarr w" if "accepts w e'" "qtype t'" for e' t' b
    using q_invD(2)[OF i that] .
  have inv: "q_inv ?w"
    unfolding q_inv_def
  proof (intro conjI allI impI loc(1))
    fix e' t' b
    assume h: "accepts ?w e'" "qtype t'" "qref ?w e' t' = Some b"
    then have h': "accepts w e'" using ac by blast
    show "b < nextarr ?w" using h h' r n lt[OF h'] by (auto split: if_splits intro: less_SucI)
    fix e'' t''
    assume g: "accepts ?w e''" "qtype t''" "qref ?w e'' t'' = Some b"
    then have g': "accepts w e''" using ac by blast
    have "b < nextarr w" if "\<not> (e = e' \<and> t = t')"
    proof -
      have "qref w e' t' = Some b" using that r[OF h' h(2)] h(3) by metis
      then show ?thesis by (rule lt[OF h' h(2)])
    qed
    moreover have "b < nextarr w" if "\<not> (e = e'' \<and> t = t'')"
    proof -
      have "qref w e'' t'' = Some b" using that r[OF g' g(2)] g(3) by metis
      then show ?thesis by (rule lt[OF g' g(2)])
    qed
    moreover have "e'' = e' \<and> t'' = t'" if "b < nextarr w"
    proof (rule q_invD(3)[OF i h' h(2) g' g(2)])
      show "qref w e' t' = Some b" "qref w e'' t'' = Some b"
        using that r[OF h' h(2)] h(3) r[OF g' g(2)] g(3) by (metis less_irrefl_nat option.inject)+
    qed
    ultimately show "e'' = e'" "t'' = t'" by blast+
  qed
  have view: "qview ?w e' t' = qview w e' t'" if "accepts w e'" "qtype t'" "(e', t') \<noteq> (e, t)" for e' t'
    using r[OF that(1,2)] that(3) lt[OF that(1,2)] n by (auto simp: qview_def split: option.splits)
  show "fst (store_array e ?k xs w) = Some (nextarr w)" by (simp add: st)
  show "qref (snd (store_array e ?k xs w)) e t = Some (nextarr w)" using r[OF a] by (simp add: st)
  show "sets_queue e t xs w (snd (store_array e ?k xs w))"
    using inv loc view r[OF a] n by (simp add: st sets_queue_def) (simp add: qview_def)
  show "qlog (snd (store_array e ?k xs w)) = qlog w" by (simp add: st set_pdata_def new_array_def)
qed

lemma qview_qref: "qref w e t = Some a \<Longrightarrow> qview w e t = arrays w a"
  by (simp add: qview_def)

lemma jq_queue_eq:
  "qtype t \<Longrightarrow> jq_queue e t d w = (case d of
        QNone \<Rightarrow> (qref w e t, w)
      | QArr xs \<Rightarrow> store_array e (t @ ''queue'') xs w
      | QFn f \<Rightarrow> (case qref w e t of
            None \<Rightarrow> store_array e (t @ ''queue'') [f] w
          | Some a \<Rightarrow> (Some a, set_array a (arrays w a @ [f]) w)))"
  by (cases d) (simp_all add: jq_queue_def qref_def Let_def)

lemma jq_queue_push:
  assumes i: "q_inv w" and a: "accepts w e" "qtype t"
  shows "\<exists>b w'. jq_queue e t (QFn f) w = (Some b, w') \<and> qref w' e t = Some b \<and>
    sets_queue e t (qview w e t @ [f]) w w' \<and> qlog w' = qlog w"
proof (cases "qref w e t")
  case None
  then show ?thesis
    using store_array_sets[OF i a, of "[f]"] a
    by (cases "store_array e (t @ ''queue'') [f] w") (auto simp: jq_queue_eq qview_def)
next
  case (Some b)
  moreover have "qref (set_array b xs w) e t = Some b" for xs
    using Some by (simp add: qref_def set_array_def)
  ultimately show ?thesis
    using sets_array[OF i a Some] a by (simp add: jq_queue_eq qview_qref) (simp add: set_array_def)
qed

text \<open>Removing a queue and its marks-and-queues check.\<close>

lemma after_call_view:
  assumes i: "q_inv w" and a: "accepts w e" "qtype t" and q: "qref w e t = Some b \<or> qref w e t = None \<and> arrays w b = []"
  shows "sets_queue e t (qview w e t) w (after_call b e t w)" and "qlog (after_call b e t w) = qlog w"
proof -
  let ?k = "t @ ''queue''"
  let ?d = "del_pdata e ?k w"
  have r: "qref ?d e' t' = (if e = e' \<and> t = t' then None else qref w e' t')" if "accepts w e'" "qtype t'" for e' t'
    using i a that by (simp add: qref_def pdata_del)
  have ar: "arrays ?d = arrays w" "nextarr ?d = nextarr w" "qlog ?d = qlog w" by (simp_all add: del_pdata_def)
  have inv: "q_inv ?d"
    unfolding q_inv_def accepts_del[OF i] ar(2)
  proof (intro conjI allI impI)
    show "data_inv (dat ?d)" using del_pdata_elems[OF i] by blast
    fix e' t' c
    assume h: "accepts w e'" "qtype t'" "qref ?d e' t' = Some c"
    then have hq: "qref w e' t' = Some c" using r[OF h(1,2)] by (simp split: if_splits)
    then show "c < nextarr w" using q_invD(2)[OF i h(1,2)] by blast
    fix e'' t''
    assume g: "accepts w e''" "qtype t''" "qref ?d e'' t'' = Some c"
    then have "qref w e'' t'' = Some c" using r[OF g(1,2)] by (simp split: if_splits)
    then show "e'' = e'" "t'' = t'" using q_invD(3)[OF i h(1,2) g(1,2) hq] by blast+
  qed
  have v: "qview w e t = arrays w b" using q by (auto simp: qview_def)
  have k: "keeps_queues ?d (handleQueueMarkDefer e t ''queue'' ?d)" by (rule kq_handle[OF inv])
  have same: "qview ?d e' t' = qview w e' t'" if "accepts w e'" "qtype t'" "(e', t') \<noteq> (e, t)" for e' t'
    using r[OF that(1,2)] that(3) ar by (auto simp: qview_def split: option.split)
  have "sets_queue e t [] w ?d"
    unfolding sets_queue_def using inv same del_pdata_elems[OF i] r[OF a] by (simp add: qview_def)
  moreover have "sets_queue e t [] ?d (handleQueueMarkDefer e t ''queue'' ?d)"
    using sets_keeps[of ?d e t, OF _ a(2) inv k] accepts_del[OF i] a r[OF a] by (simp add: qview_def)
  ultimately have e: "sets_queue e t [] w (handleQueueMarkDefer e t ''queue'' ?d)" by (rule sets_trans)
  show "sets_queue e t (qview w e t) w (after_call b e t w)"
    using e v sets_keeps[OF a i kq_refl[OF i]] by (simp add: after_call_def)
  show "qlog (after_call b e t w) = qlog w"
    using k ar by (simp add: after_call_def keeps_queues_def)
qed

text \<open>A queue function that only starts something: it returns without touching the state.\<close>

definition starts :: qbody where
  "starts f e t w = Returned w"

text \<open>\<open>dequeue\<close> on lists: the new queue and the function it calls.\<close>

fun drop_sentinel :: "jsval list \<Rightarrow> jsval list" where
  "drop_sentinel (x # xs) = (if x = inprogress then xs else x # xs)"
| "drop_sentinel [] = []"

definition dequeue_spec :: "string \<Rightarrow> jsval list \<Rightarrow> jsval list \<times> jsval option" where
  "dequeue_spec t xs = (case drop_sentinel xs of
      [] \<Rightarrow> ([], None)
    | f # ys \<Rightarrow> (if truthy f then (if t = ''fx'' then inprogress # ys else ys, Some f) else (ys, None)))"

lemma inprogress_simps [simp]: "truthy inprogress" "inprogress \<noteq> Undefined" "Undefined \<noteq> inprogress"
  by (simp_all add: inprogress_def)

lemma sets_log: "sets_queue e t xs w (w'\<lparr>qlog := l\<rparr>) = sets_queue e t xs w w'"
proof -
  have "qref (w'\<lparr>qlog := l\<rparr>) e t = qref w' e t" "accepts (w'\<lparr>qlog := l\<rparr>) e = accepts w' e"
    "qview (w'\<lparr>qlog := l\<rparr>) e t = qview w' e t" for e t
    by (simp_all add: qref_def accepts_def qview_def split: option.split jsval.split)
  then show ?thesis by (simp add: sets_queue_def q_inv_def)
qed

lemma shift_eq: "shift a w = (case arrays w a of [] \<Rightarrow> Undefined | x # xs \<Rightarrow> x, set_array a (tl (arrays w a)) w)"
  by (cases "arrays w a") (simp_all add: shift_def set_array_def fun_upd_idem)

lemma set_array_simps [simp]:
  "arrays (set_array a xs w) = (arrays w)(a := xs)" "set_array a xs (set_array a ys w) = set_array a xs w"
  "qlog (set_array a xs w) = qlog w" "pdata (set_array a xs w) e k = pdata w e k"
  "qref (set_array a xs w) e t = qref w e t"
  by (simp_all add: set_array_def qref_def)

lemma qref_log [simp]: "qref (w\<lparr>qlog := l\<rparr>) e t = qref w e t"
  by (simp add: qref_def)

text \<open>The calls of \<open>dequeue\<close> on an array \<open>a\<close>, as one change of the array.\<close>

lemma dequeue_array:
  assumes "qtype t" and "(case qref w e t of Some a \<Rightarrow> (a, w) | None \<Rightarrow> new_array [] w) = (a, w1)"
  shows "dequeue starts e t w = (case dequeue_spec t (arrays w1 a) of (ys, called) \<Rightarrow>
     Returned (after_call a e t ((set_array a ys w1)\<lparr>qlog := qlog w1 @ (case called of None \<Rightarrow> [] | Some f \<Rightarrow> [(e, t, f)])\<rparr>)))"
proof -
  have id: "(set_array a ys w1)\<lparr>qlog := qlog w1\<rparr> = set_array a ys w1" for ys
    by (metis qworld.surjective qworld.update_convs(5) set_array_simps(3))
  show ?thesis
  proof (cases "arrays w1 a")
    case Nil
    then show ?thesis
      using assms by (simp add: dequeue_def jq_queue_eq shift_eq dequeue_spec_def call_body_def id split: prod.splits)
  next
    case (Cons x xs)
    show ?thesis
    proof (cases "x = inprogress")
      case True
      with Cons show ?thesis
        using assms by (cases xs)
          (auto simp: id dequeue_def jq_queue_eq shift_eq dequeue_spec_def call_body_def starts_def Let_def)
    next
      case False
      with Cons show ?thesis
        using assms
        by (auto simp: id dequeue_def jq_queue_eq shift_eq dequeue_spec_def call_body_def starts_def Let_def)
    qed
  qed
qed

lemma dequeue_starts:
  assumes i: "q_inv w" and a: "accepts w e" "qtype t"
  shows "\<exists>w'. dequeue starts e t w = Returned w' \<and> sets_queue e t (fst (dequeue_spec t (qview w e t))) w w' \<and>
    qlog w' = qlog w @ (case snd (dequeue_spec t (qview w e t)) of None \<Rightarrow> [] | Some f \<Rightarrow> [(e, t, f)])"
proof (cases "qref w e t")
  case None
  obtain b w1 where n: "new_array [] w = (b, w1)" by fastforce
  then have w1: "w1 = w\<lparr>arrays := (arrays w)(b := []), nextarr := Suc b\<rparr>" "b = nextarr w"
    by (auto simp: new_array_def)
  have r: "qref w1 e' t' = qref w e' t'" "accepts w1 e' = accepts w e'" for e' t'
    by (simp_all add: w1 qref_def accepts_def)
  have i1: "q_inv w1"
    using i by (rule q_inv_transfer) (simp_all add: r, simp_all add: w1 q_invD(1)[OF i])
  have v: "qview w1 e' t' = qview w e' t'" if "accepts w e'" "qtype t'" for e' t'
  proof (cases "qref w e' t'")
    case (Some c)
    then have "c \<noteq> b" using q_invD(2)[OF i that Some] w1(2) by simp
    then show ?thesis unfolding qview_def r using Some by (simp add: w1)
  qed (simp add: qview_def r)
  have s1: "sets_queue e t [] w w1"
    using i1 v None by (simp add: sets_queue_def qview_def r) (simp add: w1)
  have emp: "dequeue_spec t [] = ([], None)" by (simp add: dequeue_spec_def)
  have "set_array b [] w1 = w1" "arrays w1 b = []" "w1\<lparr>qlog := qlog w1\<rparr> = w1"
    by (simp_all add: set_array_def w1)
  then have "dequeue starts e t w = Returned (after_call b e t w1)"
    using dequeue_array[OF a(2), of w e b w1] None n emp by simp
  moreover have "sets_queue e t [] w1 (after_call b e t w1)" "qlog (after_call b e t w1) = qlog w1"
    using after_call_view[OF i1, of e t b] a r None by (simp_all add: qview_def w1)
  ultimately show ?thesis
    using sets_trans[OF s1] None emp by (simp add: qview_def w1)
next
  case (Some b)
  obtain ys c where sp: "dequeue_spec t (qview w e t) = (ys, c)" by fastforce
  let ?l = "qlog w @ (case c of None \<Rightarrow> [] | Some f \<Rightarrow> [(e, t, f)])"
  let ?w = "(set_array b ys w)\<lparr>qlog := ?l\<rparr>"
  have d: "dequeue starts e t w = Returned (after_call b e t ?w)"
    using dequeue_array[OF a(2), of w e b w] Some sp by (simp add: qview_qref)
  have s: "sets_queue e t ys w ?w" unfolding sets_log by (rule sets_array[OF i a Some])
  then have i1: "q_inv ?w" "accepts ?w e" "qview ?w e t = ys" using a by (simp_all add: sets_queue_def accepts_def)
  have r: "qref ?w e t = Some b" using Some by simp
  note ac = after_call_view[OF i1(1,2) a(2), of b]
  have "sets_queue e t ys ?w (after_call b e t ?w)" "qlog (after_call b e t ?w) = ?l"
    using ac r i1(3) by simp_all
  with d sp sets_trans[OF s] show ?thesis by simp
qed

section \<open>The queues as lists of pending functions\<close>

text \<open>
  What the queues promise: per element and type the functions still to call and whether one is
  running, and the calls made so far.
\<close>

type_synonym qspec = "(nat \<times> string \<Rightarrow> jsval list \<times> bool) \<times> (nat \<times> string \<times> jsval) list"

definition spec_next :: "string \<Rightarrow> nat \<Rightarrow> qspec \<Rightarrow> qspec" where
  "spec_next t e SL = (case SL of (S, L) \<Rightarrow> (case S (e, t) of
      (f # p, r) \<Rightarrow> (S((e, t) := (p, t = ''fx'')), L @ [(e, t, f)])
    | ([], r) \<Rightarrow> (S((e, t) := ([], False)), L)))"

definition spec_push :: "string \<Rightarrow> jsval \<Rightarrow> nat \<Rightarrow> qspec \<Rightarrow> qspec" where
  "spec_push t f e SL = (case SL of (S, L) \<Rightarrow> (case S (e, t) of (p, r) \<Rightarrow>
     (if t = ''fx'' \<and> \<not> r then spec_next t e (S((e, t) := (p @ [f], r)), L)
      else (S((e, t) := (p @ [f], r)), L))))"

text \<open>\<open>queue\<close> with an array takes the place of what was pending; what runs keeps running.\<close>

definition spec_replace :: "string \<Rightarrow> jsval list \<Rightarrow> nat \<Rightarrow> qspec \<Rightarrow> qspec" where
  "spec_replace t fs e SL = (case SL of (S, L) \<Rightarrow>
     (if t = ''fx'' then spec_next t e (S((e, t) := (fs, False)), L) else (S((e, t) := (fs, False)), L)))"

datatype qevent =
    Queue string jsval "nat list" | Dequeue string "nat list"
  | Replace string "jsval list" "nat list" | Clear string "nat list"
  | Mark nat string | Unmark bool nat string
  | Promise nat string "nat list" | Timer nat string nat

fun q_step :: "qevent \<Rightarrow> qworld \<Rightarrow> qworld outcome" where
  "q_step (Queue t f es) w = fn_queue starts t (QFn f) es w"
| "q_step (Dequeue t es) w = fn_dequeue starts t es w"
| "q_step (Replace t fs es) w = fn_queue starts t (QArr fs) es w"
| "q_step (Clear t es) w = clearQueue starts t es w"
| "q_step (Mark e t) w = Returned (mark e t w)"
| "q_step (Unmark fc e t) w = Returned (unmark fc e t w)"
| "q_step (Promise p t es) w = Returned (fn_promise p t es w)"
| "q_step (Timer e t d) w = Returned (run_timer (e, t, d) w)"

fun spec_step :: "qevent \<Rightarrow> qspec \<Rightarrow> qspec" where
  "spec_step (Queue t f es) s = fold (spec_push t f) es s"
| "spec_step (Dequeue t es) s = fold (spec_next t) es s"
| "spec_step (Replace t fs es) s = fold (spec_replace t fs) es s"
| "spec_step (Clear t es) s = fold (spec_replace t []) es s"
| "spec_step _ s = s"

fun is_fn :: "jsval \<Rightarrow> bool" where
  "is_fn (Ref a) = True"
| "is_fn _ = False"

fun ok_event :: "(nat \<Rightarrow> bool) \<Rightarrow> qevent \<Rightarrow> bool" where
  "ok_event ok (Queue t f es) \<longleftrightarrow> list_all ok es \<and> qtype t \<and> is_fn f"
| "ok_event ok (Dequeue t es) \<longleftrightarrow> list_all ok es \<and> qtype t"
| "ok_event ok (Replace t fs es) \<longleftrightarrow> list_all ok es \<and> qtype t \<and> list_all is_fn fs"
| "ok_event ok (Clear t es) \<longleftrightarrow> list_all ok es \<and> qtype t"
| "ok_event ok (Mark e t) \<longleftrightarrow> ok e \<and> qtype t"
| "ok_event ok (Unmark fc e t) \<longleftrightarrow> ok e \<and> qtype t"
| "ok_event ok (Promise p t es) \<longleftrightarrow> list_all ok es \<and> qtype t"
| "ok_event ok (Timer e t d) \<longleftrightarrow> ok e \<and> qtype t"

definition shown :: "string \<Rightarrow> jsval list \<times> bool \<Rightarrow> jsval list \<Rightarrow> bool" where
  "shown t pr xs \<longleftrightarrow> xs = (if snd pr then [inprogress] else []) @ fst pr \<and> (snd pr \<longrightarrow> t = ''fx'') \<and>
     list_all is_fn (fst pr)"

definition sim :: "(nat \<Rightarrow> bool) \<Rightarrow> qworld \<Rightarrow> qspec \<Rightarrow> bool" where
  "sim ok w s \<longleftrightarrow> q_inv w \<and> qlog w = snd s \<and> (\<forall>e. accepts w e = ok e) \<and>
     (\<forall>e t. ok e \<longrightarrow> qtype t \<longrightarrow> shown t (fst s (e, t)) (qview w e t))"

lemma is_fn_simps [simp]: "is_fn f \<Longrightarrow> truthy f" "is_fn f \<Longrightarrow> f \<noteq> inprogress" "\<not> is_fn inprogress"
  by (cases f; simp add: inprogress_def)+

lemma shown_next:
  assumes "shown t pr xs"
  shows "shown t (fst (spec_next t e (S((e, t) := pr), L)) (e, t)) (fst (dequeue_spec t xs))"
    and "snd (spec_next t e (S((e, t) := pr), L)) =
      L @ (case snd (dequeue_spec t xs) of None \<Rightarrow> [] | Some f \<Rightarrow> [(e, t, f)])"
proof -
  obtain p r where pr: "pr = (p, r)" by fastforce
  have "drop_sentinel xs = p"
    using assms pr by (cases p; cases r) (auto simp: shown_def)
  then show "shown t (fst (spec_next t e (S((e, t) := pr), L)) (e, t)) (fst (dequeue_spec t xs))"
    and "snd (spec_next t e (S((e, t) := pr), L)) =
      L @ (case snd (dequeue_spec t xs) of None \<Rightarrow> [] | Some f \<Rightarrow> [(e, t, f)])"
    using assms pr by (cases p; simp add: shown_def spec_next_def dequeue_spec_def)+
qed

lemma sim_sets:
  assumes "sim ok w s" and "sets_queue e t xs w w'" and "qlog w' = snd s'"
    and "shown t (fst s' (e, t)) xs" and "\<And>et. et \<noteq> (e, t) \<Longrightarrow> fst s' et = fst s et"
  shows "sim ok w' s'"
proof -
  have ac: "accepts w' e' = ok e'" for e'
    using assms(1) sets_accepts[OF assms(2)] by (simp add: sim_def)
  have "shown t' (fst s' (e', t')) (qview w' e' t')" if "ok e'" "qtype t'" for e' t'
  proof (cases "(e', t') = (e, t)")
    case True
    then show ?thesis using assms(2,4) by (simp add: sets_queue_def)
  next
    case False
    then have "qview w' e' t' = qview w e' t'"
      using assms(1,2) that by (auto simp: sets_queue_def sim_def)
    then show ?thesis using assms(1,5) False that by (simp add: sim_def)
  qed
  with ac assms(2,3) show ?thesis by (auto simp: sim_def sets_queue_def)
qed

lemma sim_keeps: "sim ok w s \<Longrightarrow> keeps_queues w w' \<Longrightarrow> sim ok w' s"
  using kq_inv[of w w'] kq_accepts[of w w'] kq_view[of w w']
  by (simp add: sim_def) (simp add: keeps_queues_def)

lemma spec_frame:
  "et \<noteq> (e, t) \<Longrightarrow> fst (spec_next t e s) et = fst s et"
  "et \<noteq> (e, t) \<Longrightarrow> fst (spec_push t f e s) et = fst s et"
  "et \<noteq> (e, t) \<Longrightarrow> fst (spec_replace t fs e s) et = fst s et"
  by (auto simp: spec_next_def spec_push_def spec_replace_def split: prod.splits list.splits)

lemma sim_dequeue:
  assumes s: "sim ok w s" and a: "ok e" "qtype t"
  shows "\<exists>w'. dequeue starts e t w = Returned w' \<and> sim ok w' (spec_next t e s)"
proof -
  have i: "q_inv w" "accepts w e" and sh: "shown t (fst s (e, t)) (qview w e t)" and l: "qlog w = snd s"
    using s a by (auto simp: sim_def)
  obtain w' where w': "dequeue starts e t w = Returned w'"
    and st: "sets_queue e t (fst (dequeue_spec t (qview w e t))) w w'"
    and lg: "qlog w' = qlog w @ (case snd (dequeue_spec t (qview w e t)) of None \<Rightarrow> [] | Some f \<Rightarrow> [(e, t, f)])"
    using dequeue_starts[OF i a(2)] by blast
  have eq: "((fst s)((e, t) := fst s (e, t)), snd s) = s" by simp
  have "sim ok w' (spec_next t e s)"
    using shown_next[OF sh, of e "fst s" "snd s"] lg l
    by (intro sim_sets[OF s st]) (simp_all add: eq spec_frame)
  with w' show ?thesis by blast
qed

lemma sim_queue_one:
  assumes s: "sim ok w s" and a: "ok e" "qtype t" and f: "is_fn f"
  shows "\<exists>w'. fn_queue_one starts t (QFn f) e w = Returned w' \<and> sim ok w' (spec_push t f e s)"
proof -
  have i: "q_inv w" "accepts w e" and sh: "shown t (fst s (e, t)) (qview w e t)" and l: "qlog w = snd s"
    using s a by (auto simp: sim_def)
  obtain b w1 where j: "jq_queue e t (QFn f) w = (Some b, w1)" "qref w1 e t = Some b"
    and st: "sets_queue e t (qview w e t @ [f]) w w1" and lg: "qlog w1 = qlog w"
    using jq_queue_push[OF i a(2)] by blast
  obtain p r where pr: "fst s (e, t) = (p, r)" by fastforce
  let ?s1 = "((fst s)((e, t) := (p @ [f], r)), snd s)"
  have s1: "sim ok w1 ?s1"
    using sh f pr lg l by (intro sim_sets[OF s st]) (auto simp: shown_def)
  have v: "arrays w1 b = (if r then [inprogress] else []) @ p @ [f]"
    using st j(2) sh pr by (auto simp: sets_queue_def shown_def qview_qref)
  have hd: "(case arrays w1 b of [] \<Rightarrow> True | x # _ \<Rightarrow> x \<noteq> inprogress) = (\<not> r)"
    using f pr sh unfolding v by (cases p; cases r) (auto simp: shown_def)
  have sp: "spec_push t f e s = (if t = ''fx'' \<and> \<not> r then spec_next t e ?s1 else ?s1)"
    using pr by (cases s) (simp add: spec_push_def)
  have fq: "fn_queue_one starts t (QFn f) e w =
      (if t = ''fx'' \<and> \<not> r then dequeue starts e t w1 else Returned w1)"
    by (simp add: fn_queue_one_def j hd)
  show ?thesis
  proof (cases "t = ''fx'' \<and> \<not> r")
    case True
    show ?thesis unfolding fq sp if_P[OF True] by (rule sim_dequeue[OF s1 a])
  next
    case False
    show ?thesis unfolding fq sp if_not_P[OF False] using s1 by blast
  qed
qed

lemma sim_replace_one:
  assumes s: "sim ok w s" and a: "ok e" "qtype t" and f: "list_all is_fn fs"
  shows "\<exists>w'. fn_queue_one starts t (QArr fs) e w = Returned w' \<and> sim ok w' (spec_replace t fs e s)"
proof -
  have i: "q_inv w" "accepts w e" and l: "qlog w = snd s" using s a by (auto simp: sim_def)
  obtain b w1 where j: "jq_queue e t (QArr fs) w = (Some b, w1)" "qref w1 e t = Some b"
    and st: "sets_queue e t fs w w1" and lg: "qlog w1 = qlog w"
    using store_array_sets[OF i a(2), of fs] a
    by (cases "store_array e (t @ ''queue'') fs w") (auto simp: jq_queue_eq)
  let ?s1 = "((fst s)((e, t) := (fs, False)), snd s)"
  have s1: "sim ok w1 ?s1" using f lg l by (intro sim_sets[OF s st]) (auto simp: shown_def)
  have v: "arrays w1 b = fs" using st j(2) by (auto simp: sets_queue_def qview_qref)
  have hd: "(case arrays w1 b of [] \<Rightarrow> True | x # _ \<Rightarrow> x \<noteq> inprogress)" using f unfolding v by (cases fs) auto
  have sp: "spec_replace t fs e s = (if t = ''fx'' then spec_next t e ?s1 else ?s1)" by (cases s) (simp add: spec_replace_def)
  have fq: "fn_queue_one starts t (QArr fs) e w = (if t = ''fx'' then dequeue starts e t w1 else Returned w1)"
    using hd by (simp add: fn_queue_one_def j)
  show ?thesis
  proof (cases "t = ''fx''")
    case True
    show ?thesis unfolding fq sp if_P[OF True] by (rule sim_dequeue[OF s1 a])
  next
    case False
    show ?thesis unfolding fq sp if_not_P[OF False] using s1 by blast
  qed
qed

lemma sim_each:
  assumes "\<And>w s e. sim ok w s \<Longrightarrow> ok e \<Longrightarrow> \<exists>w'. f e w = Returned w' \<and> sim ok w' (g e s)"
    and "list_all ok es" and "sim ok w s"
  shows "\<exists>w'. each_of f es w = Returned w' \<and> sim ok w' (fold g es s)"
  using assms(2,3)
proof (induction es arbitrary: w s)
  case Nil
  then show ?case by simp
next
  case (Cons e es)
  then obtain w1 where "f e w = Returned w1" "sim ok w1 (g e s)" using assms(1)[of w s e] by auto
  with Cons.IH[of w1 "g e s"] Cons.prems show ?case by simp
qed

lemma sim_step:
  assumes s: "sim ok w s" and o: "ok_event ok ev"
  shows "\<exists>w'. q_step ev w = Returned w' \<and> sim ok w' (spec_step ev s)"
proof -
  have i: "q_inv w" "\<And>e. accepts w e = ok e" using s by (simp_all add: sim_def)
  show ?thesis
  proof (cases ev)
    case (Queue t f es)
    then show ?thesis using o s
      by (auto simp: fn_queue_def intro!: sim_each dest: sim_queue_one)
  next
    case (Dequeue t es)
    then show ?thesis using o s by (auto simp: fn_dequeue_def intro!: sim_each dest: sim_dequeue)
  next
    case (Replace t fs es)
    then show ?thesis using o s by (auto simp: fn_queue_def intro!: sim_each dest: sim_replace_one)
  next
    case (Clear t es)
    then have "ok e \<Longrightarrow> sim ok w s \<Longrightarrow> \<exists>w'. fn_queue_one starts t (QArr []) e w = Returned w' \<and> sim ok w' (spec_replace t [] e s)"
      for w s e using o sim_replace_one[of ok w s e t "[]"] by simp
    then show ?thesis using o s Clear sim_each[of ok "fn_queue_one starts t (QArr [])" "spec_replace t []" es w s]
      by (simp add: clearQueue_def fn_queue_def)
  next
    case (Promise p t es)
    then have "keeps_queues w (fn_promise p t es w)"
      using o i by (intro kq_fn_promise) (auto simp: list_all_iff)
    with Promise s show ?thesis by (simp add: sim_keeps)
  qed (use o i s sim_keeps kq_mark kq_unmark kq_run_timer in auto)
qed

fun q_run :: "qevent list \<Rightarrow> qworld \<Rightarrow> qworld outcome" where
  "q_run evs w = each_of q_step evs w"

lemma queues_sim:
  assumes "sim ok w s" and "list_all (ok_event ok) evs"
  shows "\<exists>w'. q_run evs w = Returned w' \<and> sim ok w' (fold spec_step evs s)"
  using assms
proof (induction evs arbitrary: w s)
  case Nil
  then show ?case by simp
next
  case (Cons ev evs)
  then obtain w1 where "q_step ev w = Returned w1" "sim ok w1 (spec_step ev s)"
    using sim_step[of ok w s ev] by auto
  with Cons.IH[of w1] Cons.prems show ?case by simp
qed

text \<open>
  C6: for functions that return and leave the queues alone (an animation, a delay: they call
  their continuation later, the event Dequeue), any sequence of calls of queue with a function or
  an array of functions, dequeue, clearQueue, mark, unmark and promise and of timers returns, and
  it leaves every queue of every element that takes data as the abstract queues leave it, with the same
  calls made in the same order.
\<close>

theorem queues_refine_spec:
  assumes "sim ok w s" and "list_all (ok_event ok) evs"
  shows "\<exists>w'. q_run evs w = Returned w' \<and> sim ok w' (fold spec_step evs s)"
  using assms by (rule queues_sim)

section \<open>First in, first out; one at a time\<close>

definition calls :: "nat \<Rightarrow> string \<Rightarrow> (nat \<times> string \<times> jsval) list \<Rightarrow> jsval list" where
  "calls e t l = map (\<lambda>(_, _, f). f) (filter (\<lambda>(e', t', _). e' = e \<and> t' = t) l)"

definition pending :: "nat \<Rightarrow> string \<Rightarrow> qworld \<Rightarrow> jsval list" where
  "pending e t w = drop_sentinel (qview w e t)"

fun pushed_by :: "nat \<Rightarrow> string \<Rightarrow> qevent \<Rightarrow> jsval list" where
  "pushed_by e t (Queue t' f es) = (if t' = t then replicate (count_list es e) f else [])"
| "pushed_by e t (Replace t' fs es) = (if t' = t then concat (replicate (count_list es e) fs) else [])"
| "pushed_by e t _ = []"

fun dequeues_of :: "nat \<Rightarrow> string \<Rightarrow> qevent \<Rightarrow> nat" where
  "dequeues_of e t (Dequeue t' es) = (if t' = t then count_list es e else 0)"
| "dequeues_of e t _ = 0"

text \<open>How often a queue was replaced, which starts the next function of an fx queue.\<close>

fun restarts_of :: "nat \<Rightarrow> string \<Rightarrow> qevent \<Rightarrow> nat" where
  "restarts_of e t (Replace t' fs es) = (if t' = t then count_list es e else 0)"
| "restarts_of e t (Clear t' es) = (if t' = t then count_list es e else 0)"
| "restarts_of e t _ = 0"

definition restarts :: "nat \<Rightarrow> string \<Rightarrow> qevent list \<Rightarrow> nat" where
  "restarts e t evs = sum_list (map (restarts_of e t) evs)"

definition pushed :: "nat \<Rightarrow> string \<Rightarrow> qevent list \<Rightarrow> jsval list" where
  "pushed e t evs = concat (map (pushed_by e t) evs)"

definition dequeued :: "nat \<Rightarrow> string \<Rightarrow> qevent list \<Rightarrow> nat" where
  "dequeued e t evs = sum_list (map (dequeues_of e t) evs)"

text \<open>The calls and the pending functions of a queue, and how many calls its dequeues allow.\<close>

definition spec_all :: "nat \<Rightarrow> string \<Rightarrow> qspec \<Rightarrow> jsval list" where
  "spec_all e t s = calls e t (snd s) @ fst (fst s (e, t))"

definition spec_ok :: "nat \<Rightarrow> string \<Rightarrow> nat \<Rightarrow> qspec \<Rightarrow> bool" where
  "spec_ok e t n s \<longleftrightarrow> length (calls e t (snd s)) \<le> n + (if snd (fst s (e, t)) then 1 else 0) \<and>
     (if t = ''fx'' then snd (fst s (e, t)) \<or> fst (fst s (e, t)) = [] else \<not> snd (fst s (e, t)))"

lemma calls_append: "calls e t (l @ [(e', t', f)]) = calls e t l @ (if e' = e \<and> t' = t then [f] else [])"
  by (simp add: calls_def)

lemma spec_next_all: "spec_all e t (spec_next t' e' s) = spec_all e t s"
  by (auto simp: spec_all_def spec_next_def calls_append split: prod.splits list.splits)

lemma spec_push_all:
  "spec_all e t (spec_push t' f e' s) = spec_all e t s @ (if e' = e \<and> t' = t then [f] else [])"
  by (auto simp: spec_push_def spec_next_all split: prod.split) (auto simp: spec_all_def)

lemma calls_frame:
  "(e, t) \<noteq> (e', t') \<Longrightarrow> calls e t (snd (spec_next t' e' s)) = calls e t (snd s)"
  "(e, t) \<noteq> (e', t') \<Longrightarrow> calls e t (snd (spec_push t' f e' s)) = calls e t (snd s)"
  by (auto simp: spec_next_def spec_push_def calls_append split: prod.splits list.splits)

lemma spec_next_ok:
  assumes "spec_ok e t n s"
  shows "spec_ok e t (n + (if e' = e \<and> t' = t then 1 else 0)) (spec_next t' e' s)"
proof -
  obtain S L where s: "s = (S, L)" by fastforce
  obtain p r where pr: "S (e', t') = (p, r)" by fastforce
  show ?thesis
  proof (cases "e' = e \<and> t' = t")
    case True
    with assms s pr show ?thesis
      by (cases p; cases r; cases "t = ''fx''") (simp_all add: spec_ok_def spec_next_def calls_append)
  next
    case False
    then have "(e, t) \<noteq> (e', t')" by auto
    then show ?thesis using assms
      unfolding spec_ok_def spec_frame(1)[OF \<open>(e, t) \<noteq> (e', t')\<close>] calls_frame(1)[OF \<open>(e, t) \<noteq> (e', t')\<close>]
      by (auto split: if_splits)
  qed
qed

lemma spec_push_ok:
  assumes "spec_ok e t n s"
  shows "spec_ok e t n (spec_push t' f e' s)"
proof -
  obtain S L where s: "s = (S, L)" by fastforce
  obtain p r where pr: "S (e', t') = (p, r)" by fastforce
  show ?thesis
  proof (cases "e' = e \<and> t' = t")
    case True
    with assms s pr show ?thesis
      by (cases p; cases r; cases "t = ''fx''") (simp_all add: spec_ok_def spec_push_def spec_next_def calls_append)
  next
    case False
    then have "(e, t) \<noteq> (e', t')" by auto
    then show ?thesis using assms
      unfolding spec_ok_def spec_frame(2)[OF \<open>(e, t) \<noteq> (e', t')\<close>] calls_frame(2)[OF \<open>(e, t) \<noteq> (e', t')\<close>]
      by blast
  qed
qed

lemma spec_replace_all:
  "subseq (spec_all e t (spec_replace t' fs e' s)) (spec_all e t s @ (if e' = e \<and> t' = t then fs else []))"
proof (cases "e' = e \<and> t' = t")
  case True
  obtain S L where s: "s = (S, L)" by fastforce
  have "spec_all e t (spec_replace t fs e s) = calls e t L @ fs"
    unfolding s spec_replace_def prod.case by (auto simp: spec_next_all) (simp_all add: spec_all_def)
  then show ?thesis using True by (simp add: s spec_all_def) (metis list_emb_append_mono subseq_order.refl self_append_conv list_emb_Nil append_assoc)
next
  case False
  then have "spec_all e t (spec_replace t' fs e' s) = spec_all e t s"
    by (cases s) (auto simp: spec_replace_def spec_next_all, auto simp: spec_all_def)
  then show ?thesis using False by auto
qed

lemma spec_replace_ok:
  assumes "spec_ok e t n s"
  shows "spec_ok e t (n + (if e' = e \<and> t' = t then 1 else 0)) (spec_replace t' fs e' s)"
proof -
  obtain S L where s: "s = (S, L)" by fastforce
  show ?thesis
  proof (cases "e' = e \<and> t' = t")
    case True
    with assms s show ?thesis
      by (cases fs; cases "t = ''fx''") (auto simp: spec_ok_def spec_replace_def spec_next_def calls_append split: if_splits)
  next
    case False
    then have ne: "(e, t) \<noteq> (e', t')" by auto
    have "calls e t (snd (spec_replace t' fs e' s)) = calls e t (snd s)"
      using calls_frame(1)[OF ne, of "(S((e', t') := (fs, False)), L)"] unfolding s spec_replace_def prod.case by (cases "t' = ''fx''") simp_all
    then show ?thesis using assms False unfolding spec_ok_def spec_frame(3)[OF ne] by (auto split: if_splits)
  qed
qed

lemma subseq_fold:
  assumes "\<And>x s. subseq (f (g x s)) (f s @ h x)"
  shows "subseq (f (fold g xs s)) (f s @ concat (map h xs))"
proof (induction xs arbitrary: s)
  case (Cons x xs)
  have "subseq (f (fold g xs (g x s))) (f (g x s) @ concat (map h xs))" by (rule Cons.IH)
  moreover have "subseq (f (g x s) @ concat (map h xs)) ((f s @ h x) @ concat (map h xs))"
    using assms by (rule list_emb_append_mono) simp
  ultimately show ?case by (auto intro: subseq_order.trans)
qed simp

lemma concat_count: "concat (map (\<lambda>e'. if e' = e \<and> P then fs else []) es) = (if P then concat (replicate (count_list es e) fs) else [])"
  by (induction es) auto

lemma spec_step_all: "subseq (spec_all e t (spec_step ev s)) (spec_all e t s @ pushed_by e t ev)"
proof (cases ev)
  case (Queue t' f es)
  have "spec_all e t (fold (spec_push t' f) es s) = spec_all e t s @ (if t' = t then replicate (count_list es e) f else [])"
    by (induction es arbitrary: s) (simp_all add: spec_push_all)
  then show ?thesis by (simp add: Queue)
next
  case (Dequeue t' es)
  have "spec_all e t (fold (spec_next t') es s) = spec_all e t s"
    by (induction es arbitrary: s) (simp_all add: spec_next_all)
  then show ?thesis by (simp add: Dequeue)
next
  case (Replace t' fs es)
  then show ?thesis using subseq_fold[of "spec_all e t" "spec_replace t' fs", OF spec_replace_all] by (simp add: concat_count)
next
  case (Clear t' es)
  have n: "concat (map (\<lambda>e'. if e' = e \<and> t' = t then [] else []) es) = ([] :: jsval list)" by (induction es) auto
  have "subseq (spec_all e t (fold (spec_replace t' []) es s))
      (spec_all e t s @ concat (map (\<lambda>e'. if e' = e \<and> t' = t then [] else []) es))"
    by (rule subseq_fold) (rule spec_replace_all)
  then show ?thesis unfolding n by (simp add: Clear)
qed simp_all

text \<open>Without replacements nothing is dropped.\<close>

fun no_replace :: "qevent \<Rightarrow> bool" where
  "no_replace (Replace t fs es) = False"
| "no_replace (Clear t es) = False"
| "no_replace _ = True"

lemma spec_step_all_eq: "no_replace ev \<Longrightarrow> spec_all e t (spec_step ev s) = spec_all e t s @ pushed_by e t ev"
proof (cases ev)
  case (Queue t' f es)
  have "spec_all e t (fold (spec_push t' f) es s) = spec_all e t s @ (if t' = t then replicate (count_list es e) f else [])"
    by (induction es arbitrary: s) (simp_all add: spec_push_all)
  then show ?thesis by (simp add: Queue)
next
  case (Dequeue t' es)
  have "spec_all e t (fold (spec_next t') es s) = spec_all e t s"
    by (induction es arbitrary: s) (simp_all add: spec_next_all)
  then show ?thesis by (simp add: Dequeue)
qed simp_all

lemma spec_ok_fold:
  assumes "\<And>e' n s. spec_ok e t n s \<Longrightarrow> spec_ok e t (n + (if e' = e \<and> P then 1 else 0)) (g e' s)"
  shows "spec_ok e t n s \<Longrightarrow> spec_ok e t (n + (if P then count_list es e else 0)) (fold g es s)"
proof (induction es arbitrary: n s)
  case (Cons e' es)
  from Cons.IH[OF assms[OF Cons.prems, of e']] show ?case by (cases P; cases "e' = e"; simp)
qed simp

lemma spec_step_ok: "spec_ok e t n s \<Longrightarrow> spec_ok e t (n + (dequeues_of e t ev + restarts_of e t ev)) (spec_step ev s)"
proof (cases ev)
  case (Queue t' f es)
  moreover have "spec_ok e t n s \<Longrightarrow> spec_ok e t n (fold (spec_push t' f) es s)"
    by (induction es arbitrary: s) (simp_all add: spec_push_ok)
  moreover assume "spec_ok e t n s"
  ultimately show ?thesis by simp
next
  case (Dequeue t' es)
  moreover assume "spec_ok e t n s"
  ultimately show ?thesis using spec_ok_fold[of e t "t' = t" "spec_next t'" n s es, OF spec_next_ok] by simp
next
  case (Replace t' fs es)
  moreover assume "spec_ok e t n s"
  ultimately show ?thesis using spec_ok_fold[of e t "t' = t" "spec_replace t' fs" n s es, OF spec_replace_ok] by simp
next
  case (Clear t' es)
  moreover assume "spec_ok e t n s"
  ultimately show ?thesis using spec_ok_fold[of e t "t' = t" "spec_replace t' []" n s es, OF spec_replace_ok] by simp
qed simp_all

lemma spec_run:
  "subseq (spec_all e t (fold spec_step evs s)) (spec_all e t s @ pushed e t evs)"
  "list_all no_replace evs \<Longrightarrow> spec_all e t (fold spec_step evs s) = spec_all e t s @ pushed e t evs"
  "spec_ok e t n s \<Longrightarrow> spec_ok e t (n + (dequeued e t evs + restarts e t evs)) (fold spec_step evs s)"
proof -
  show "subseq (spec_all e t (fold spec_step evs s)) (spec_all e t s @ pushed e t evs)"
    unfolding pushed_def by (rule subseq_fold) (rule spec_step_all)
  show "list_all no_replace evs \<Longrightarrow> spec_all e t (fold spec_step evs s) = spec_all e t s @ pushed e t evs"
    by (induction evs arbitrary: s) (simp_all add: spec_step_all_eq pushed_def)
  show "spec_ok e t n s \<Longrightarrow> spec_ok e t (n + (dequeued e t evs + restarts e t evs)) (fold spec_step evs s)"
  proof (induction evs arbitrary: n s)
    case (Cons ev evs)
    from Cons.IH[OF spec_step_ok[OF Cons.prems]] show ?case by (simp add: dequeued_def restarts_def algebra_simps)
  qed (simp add: dequeued_def restarts_def)
qed

text \<open>No queue yet, no call made.\<close>

definition q_fresh :: "qworld \<Rightarrow> bool" where
  "q_fresh w \<longleftrightarrow> q_inv w \<and> qlog w = [] \<and> (\<forall>e t. accepts w e \<longrightarrow> qtype t \<longrightarrow> qref w e t = None)"

lemma sim_fresh: "q_fresh w \<Longrightarrow> sim (accepts w) w (\<lambda>_. ([], False), [])"
  by (simp add: q_fresh_def sim_def shown_def qview_def)

lemma shown_pending: "shown t pr xs \<Longrightarrow> drop_sentinel xs = fst pr"
  by (cases pr; cases "fst pr"; cases "snd pr") (auto simp: shown_def)

text \<open>
  C5: let the queued functions return and dequeue later. From fresh elements, after any sequence of calls of queue with a
  function or an array, dequeue, clearQueue, mark, unmark, promise and of timers, the functions called from the queue of an
  element followed by those still pending on it are a subsequence of the functions given to it, in their order, and all of them
  when no call replaced or cleared a queue; and an fx queue has called at most one function more than its dequeues
  and replacements: the next one starts only when the one running calls its continuation or the queue is replaced.
\<close>

theorem queues_are_fifo:
  assumes "q_fresh w" and "list_all (ok_event (accepts w)) evs" and "accepts w e" and "qtype t"
  shows "\<exists>w'. q_run evs w = Returned w' \<and>
    subseq (calls e t (qlog w') @ pending e t w') (pushed e t evs) \<and>
    (list_all no_replace evs \<longrightarrow> calls e t (qlog w') @ pending e t w' = pushed e t evs) \<and>
    length (calls e t (qlog w')) \<le> dequeued e t evs + restarts e t evs + (if t = ''fx'' then 1 else 0)"
proof -
  let ?s = "fold spec_step evs (\<lambda>_. ([], False), [])"
  obtain w' where w': "q_run evs w = Returned w'" and s: "sim (accepts w) w' ?s"
    using queues_sim[OF sim_fresh[OF assms(1)] assms(2)] by blast
  then have l: "qlog w' = snd ?s" and sh: "shown t (fst ?s (e, t)) (qview w' e t)"
    using assms(3,4) by (auto simp: sim_def)
  have "spec_ok e t 0 (\<lambda>_. ([], False), [])" by (simp add: spec_ok_def calls_def)
  from spec_run(3)[OF this, of evs] have "spec_ok e t (dequeued e t evs + restarts e t evs) ?s" by simp
  moreover have "snd (fst ?s (e, t)) \<Longrightarrow> t = ''fx''" using sh by (simp add: shown_def)
  ultimately have "length (calls e t (qlog w')) \<le> dequeued e t evs + restarts e t evs + (if t = ''fx'' then 1 else 0)"
    by (auto simp: spec_ok_def l split: if_splits)
  moreover have "calls e t (qlog w') @ pending e t w' = spec_all e t ?s"
    using shown_pending[OF sh] by (simp add: l pending_def spec_all_def)
  ultimately show ?thesis using w' spec_run(1)[of e t evs "(\<lambda>_. ([], False), [])"] spec_run(2)[of evs e t "(\<lambda>_. ([], False), [])"]
    by (auto simp: spec_all_def calls_def)
qed

section \<open>A queue function that throws\<close>

text \<open>
  When a function of the fx queue throws as it starts, the exception leaves the sentinel in
  the queue: a function queued later is appended and not started, and so are all the next ones,
  until something else dequeues.
\<close>

theorem throwing_function_blocks_fx:
  assumes i: "q_inv w" and a: "accepts w e" and q: "qref w e ''fx'' = None"
    and f: "is_fn f" and body: "\<And>w. body f e ''fx'' w = Threw w"
  shows "\<exists>w'. fn_queue body ''fx'' (QFn f) [e] w = Threw w' \<and>
    (\<forall>g. \<exists>w''. fn_queue body' ''fx'' (QFn g) [e] w' = Returned w'' \<and>
       qview w'' e ''fx'' = [inprogress, g] \<and> qlog w'' = qlog w')"
proof -
  have fx: "qtype ''fx''" by code_simp
  obtain b w1 where j: "jq_queue e ''fx'' (QFn f) w = (Some b, w1)" "qref w1 e ''fx'' = Some b"
    and st: "sets_queue e ''fx'' [f] w w1"
    using jq_queue_push[OF i a fx, of f] q by (auto simp: qview_def)
  then have i1: "q_inv w1" and v: "arrays w1 b = [f]" and a1: "accepts w1 e"
    using a sets_accepts[OF st] by (simp_all add: sets_queue_def qview_qref)
  let ?w = "(set_array b [inprogress] w1)\<lparr>qlog := qlog w1 @ [(e, ''fx'', f)]\<rparr>"
  have d: "dequeue body e ''fx'' w1 = Threw ?w"
    using fx f body by (simp add: dequeue_def jq_queue_eq j shift_eq v call_body_def Let_def)
  then have one: "fn_queue body ''fx'' (QFn f) [e] w = Threw ?w"
    using f by (simp add: fn_queue_def fn_queue_one_def j v)
  have "sets_queue e ''fx'' [inprogress] w1 ?w"
    unfolding sets_log by (rule sets_array[OF i1 a1 fx j(2)])
  then have i2: "q_inv ?w" "accepts ?w e" "qview ?w e ''fx'' = [inprogress]"
    using a1 by (simp_all add: sets_queue_def accepts_def)
  have "\<exists>w''. fn_queue body' ''fx'' (QFn g) [e] ?w = Returned w'' \<and>
    qview w'' e ''fx'' = [inprogress, g] \<and> qlog w'' = qlog ?w" for g
  proof -
    obtain c w2 where "jq_queue e ''fx'' (QFn g) ?w = (Some c, w2)" "qref w2 e ''fx'' = Some c"
      "sets_queue e ''fx'' [inprogress, g] ?w w2" "qlog w2 = qlog ?w"
      using jq_queue_push[OF i2(1,2) fx, of g] i2(3) by auto
    then show ?thesis by (simp add: fn_queue_def fn_queue_one_def sets_queue_def qview_qref)
  qed
  with one show ?thesis by blast
qed

section \<open>Promises\<close>

definition busy :: "string \<Rightarrow> qworld \<Rightarrow> nat \<Rightarrow> bool" where
  "busy t w e \<longleftrightarrow> (\<exists>d. pdata w e (t @ ''defer'') = Ref d) \<or>
     truthy (pdata w e (t @ ''queue'')) \<or> truthy (pdata w e (t @ ''mark''))"

lemma promise_elem_pcount:
  assumes "q_inv w" "accepts w e" "qtype t"
  shows "pcount (promise_elem p t e w) = (if busy t w e then (pcount w)(p := pcount w p + 1) else pcount w)"
    and "presolved (promise_elem p t e w) = presolved w"
    and "accepts w e' \<Longrightarrow> busy t (promise_elem p t e w) e' = busy t w e'"
proof -
  have k: "q_inv (w\<lparr>nextdefer := n\<rparr>)" "accepts (w\<lparr>nextdefer := n\<rparr>) e' = accepts w e'" for n e'
    using assms(1) kq_inv[OF assms(1) kq_same[OF assms(1)]] by (simp_all add: accepts_def)
  have ne: "t @ ''defer'' \<noteq> t @ ''mark''" using arg_cong[where f = length and x = "t @ ''defer''"] by auto
  show "pcount (promise_elem p t e w) = (if busy t w e then (pcount w)(p := pcount w p + 1) else pcount w)"
    and "presolved (promise_elem p t e w) = presolved w"
    by (auto simp: promise_elem_def busy_def Let_def set_pdata_def split: jsval.split)
  show "busy t (promise_elem p t e w) e' = busy t w e'" if "accepts w e'"
    using that assms k ne
    by (auto simp: promise_elem_def busy_def Let_def pdata_set split: jsval.split)
qed

lemma promise_fold:
  assumes "q_inv w" "list_all (accepts w) es" "qtype t" "\<forall>e. accepts w e \<longrightarrow> busy t w e = busy t w0 e"
  shows "pcount (fold (promise_elem p t) es w) p = pcount w p + int (length (filter (busy t w0) es)) \<and>
    presolved (fold (promise_elem p t) es w) = presolved w"
  using assms
proof (induction es arbitrary: w)
  case Nil
  then show ?case by simp
next
  case (Cons e es)
  let ?w = "promise_elem p t e w"
  have k: "keeps_queues w ?w" using Cons.prems by (intro kq_promise_elem) simp_all
  have "list_all (accepts ?w) es" using Cons.prems kq_accepts[OF k] by (simp add: list_all_iff)
  moreover have "\<forall>e'. accepts ?w e' \<longrightarrow> busy t ?w e' = busy t w0 e'"
    using Cons.prems promise_elem_pcount(3)[of w e t] kq_accepts[OF k] by simp
  moreover have "busy t w e = busy t w0 e" using Cons.prems by simp
  ultimately show ?case
    using Cons.IH[OF kq_inv[OF Cons.prems(1) k]] Cons.prems promise_elem_pcount(1,2)[of w e t p] by simp
qed

text \<open>
  C7: the promise of a set of elements counts exactly the elements that have a queue, a mark or
  a pending deferred of the type, and it is resolved at once when there is none.
\<close>

theorem promise_counts_busy_elements:
  assumes i: "q_inv w" and a: "list_all (accepts w) es" and t: "qtype t"
  shows "pcount (fn_promise p t es w) p = int (length (filter (busy t w) es)) \<and>
    presolved (fn_promise p t es w) = presolved w @ (if list_ex (busy t w) es then [] else [p])"
proof -
  let ?w = "w\<lparr>pcount := (pcount w)(p := 1)\<rparr>"
  have k: "keeps_queues w ?w" using i by (rule kq_same) simp_all
  have b: "busy t ?w e = busy t w e" "accepts ?w e = accepts w e" for e by (simp_all add: busy_def accepts_def)
  have "pcount (fold (promise_elem p t) (rev es) ?w) p = 1 + int (length (filter (busy t w) (rev es)))"
    and "presolved (fold (promise_elem p t) (rev es) ?w) = presolved w"
    using promise_fold[OF kq_inv[OF i k], of "rev es" t w p] a t b by (simp_all add: list_all_iff)
  moreover have "length (filter (busy t w) (rev es)) = length (filter (busy t w) es)"
    by (metis length_rev rev_filter)
  moreover have "list_ex (busy t w) es \<longleftrightarrow> length (filter (busy t w) es) \<noteq> 0"
    by (auto simp: list_ex_iff filter_empty_conv)
  ultimately show ?thesis using t by (simp add: fn_promise_def promise_down_def Let_def)
qed

section \<open>Witnesses\<close>

definition demo_q :: qworld where
  "demo_q = \<lparr>dat = demo_store, arrays = (\<lambda>_. []), nextarr = 0, timers = [], qlog = [], resolved = [],
     waiting = [], pcount = (\<lambda>_. 0), presolved = [], nextdefer = 0\<rparr>"

lemma demo_q_simps:
  "data_inv (dat demo_q)" "accepts demo_q e" "qlog demo_q = []" "pdata demo_q e k = Undefined" "qref demo_q e t = None"
proof -
  have c: "cell demo_store e = None" "\<not> has_id demo_store e" for e
    by (simp_all add: cell_def has_id_def demo_store_def)
  have d: "fst (jq_data e (Key k) Undefined True demo_store) = RVal Undefined" for e k
    by (simp add: jq_data_def c)
  then show "pdata demo_q e k = Undefined" by (simp add: pdata_def priv_get_def demo_q_def)
  then show "qref demo_q e t = None" using d by (simp add: qref_def pdata_def priv_get_def demo_q_def)
qed (simp_all add: demo_q_def demo_store_inv demo_store_accepts accepts_def)

lemma demo_q_fresh: "q_fresh demo_q" "q_inv demo_q"
  by (simp_all add: q_fresh_def q_inv_def demo_q_simps)

lemma qtype_fx: "qtype ''fx''"
  by code_simp

theorem queues_refine_spec_witness:
  "\<exists>w'. q_run [Queue ''fx'' (Ref 7) [1, 2], Dequeue ''fx'' [1]] demo_q = Returned w' \<and>
    sim (accepts demo_q) w' (fold spec_step [Queue ''fx'' (Ref 7) [1, 2], Dequeue ''fx'' [1]] (\<lambda>_. ([], False), []))"
  using queues_refine_spec[OF sim_fresh[OF demo_q_fresh(1)], of "[Queue ''fx'' (Ref 7) [1, 2], Dequeue ''fx'' [1]]"]
  by (simp add: demo_q_simps qtype_fx)

theorem queues_are_fifo_witness:
  "\<exists>w'. q_run [Queue ''fx'' (Ref 7) [1], Queue ''fx'' (Ref 8) [1], Dequeue ''fx'' [1]] demo_q = Returned w' \<and>
    calls 1 ''fx'' (qlog w') @ pending 1 ''fx'' w' = [Ref 7, Ref 8]"
  using queues_are_fifo[OF demo_q_fresh(1), of "[Queue ''fx'' (Ref 7) [1], Queue ''fx'' (Ref 8) [1], Dequeue ''fx'' [1]]" 1 "''fx''"]
  by (auto simp: demo_q_simps qtype_fx pushed_def)

theorem throwing_function_blocks_fx_witness:
  "\<exists>w'. fn_queue (\<lambda>f e t w. Threw w) ''fx'' (QFn (Ref 7)) [1] demo_q = Threw w' \<and>
    (\<exists>w''. fn_queue starts ''fx'' (QFn (Ref 8)) [1] w' = Returned w'' \<and> qview w'' 1 ''fx'' = [inprogress, Ref 8])"
  using throwing_function_blocks_fx[OF demo_q_fresh(2), of 1 "Ref 7" "\<lambda>f e t w. Threw w" starts]
  by (simp add: demo_q_simps) blast

theorem promise_counts_busy_elements_witness:
  "pcount (fn_promise 3 ''fx'' [1, 2] demo_q) 3 = 0 \<and> presolved (fn_promise 3 ''fx'' [1, 2] demo_q) = [3]"
  using promise_counts_busy_elements[OF demo_q_fresh(2), of "[1, 2]" "''fx''" 3]
  by (simp add: demo_q_simps qtype_fx busy_def) (simp add: demo_q_def)

end
