(* ===== verification/JQ_Extend.thy ===== *)
theory JQ_Extend
  imports JQ_Prelude
begin

text \<open>
  Types of values and the merging of objects in jquery-1.6.4.js: \<open>jQuery.type\<close> and the tests
  built on it, \<open>isPlainObject\<close>, \<open>isEmptyObject\<close> and \<open>jQuery.extend\<close>.

  Objects live in a heap, because \<open>extend\<close> promises not to share the objects it copies. An
  object has its class (what \<open>Object.prototype.toString\<close> reports), its own enumerable properties
  and the enumerable ones it inherits, in the order a for-in loop visits them. A loop visits the
  keys that the object has when the loop starts and reads their values as it goes.
\<close>

section \<open>The heap\<close>

record obj =
  cls :: string
  own :: "jsval props"
  inherited :: "jsval props"
  nodeType :: bool
  window :: bool \<comment> \<open>\<open>"setInterval" in obj\<close>\<close>
  constructor :: "bool option" \<comment> \<open>inherited constructor, and whether its prototype has \<open>isPrototypeOf\<close>\<close>

record heap =
  objs :: "nat \<Rightarrow> obj"
  next_obj :: nat

definition empty_obj :: obj where
  "empty_obj = \<lparr>cls = ''Object'', own = [], inherited = [], nodeType = False, window = False, constructor = Some True\<rparr>"

definition empty_arr :: obj where
  "empty_arr = empty_obj\<lparr>cls := ''Array''\<rparr>"

definition alloc :: "obj \<Rightarrow> heap \<Rightarrow> nat \<times> heap" where
  "alloc x h = (next_obj h, h\<lparr>objs := (objs h)(next_obj h := x), next_obj := Suc (next_obj h)\<rparr>)"

definition has_own :: "obj \<Rightarrow> string \<Rightarrow> bool" where
  "has_own x k \<longleftrightarrow> k \<in> set (map fst (own x))"

definition obj_get :: "obj \<Rightarrow> string \<Rightarrow> jsval" where
  "obj_get x k = (if has_own x k then pget (own x) k else pget (inherited x) k)"

definition obj_set :: "nat \<Rightarrow> string \<Rightarrow> jsval \<Rightarrow> heap \<Rightarrow> heap" where
  "obj_set a k v h = h\<lparr>objs := (objs h)(a := (objs h a)\<lparr>own := AList.update k v (own (objs h a))\<rparr>)\<rparr>"

text \<open>The keys of a for-in loop: own ones first.\<close>

definition obj_keys :: "obj \<Rightarrow> string list" where
  "obj_keys x = map fst (own x) @ filter (\<lambda>k. \<not> has_own x k) (map fst (inherited x))"

fun keys_of :: "heap \<Rightarrow> jsval \<Rightarrow> string list" where
  "keys_of h (Ref a) = obj_keys (objs h a)"
| "keys_of h (Str s) = map dec [0..<length s]"
| "keys_of h _ = []"

fun read :: "heap \<Rightarrow> jsval \<Rightarrow> string \<Rightarrow> jsval" where
  "read h (Ref a) k = obj_get (objs h a) k"
| "read h (Str s) k = (case find (\<lambda>i. dec i = k) [0..<length s] of Some i \<Rightarrow> Str [s ! i] | None \<Rightarrow> Undefined)"
| "read h _ k = Undefined"

section \<open>Types\<close>

definition class2type :: "string \<Rightarrow> string option" where
  "class2type c = (if c \<in> set [''Boolean'', ''Number'', ''String'', ''Function'', ''Array'', ''Date'', ''RegExp'', ''Object'']
     then Some (to_lower c) else None)"

fun jq_type :: "heap \<Rightarrow> jsval \<Rightarrow> string" where
  "jq_type h Undefined = ''undefined''"
| "jq_type h Null = ''null''"
| "jq_type h (Bool b) = ''boolean''"
| "jq_type h (Num n) = ''number''"
| "jq_type h (Str s) = ''string''"
| "jq_type h (Ref a) = (case class2type (cls (objs h a)) of Some t \<Rightarrow> t | None \<Rightarrow> ''object'')"

definition isFunction :: "heap \<Rightarrow> jsval \<Rightarrow> bool" where
  "isFunction h v \<longleftrightarrow> jq_type h v = ''function''"

definition isArray :: "heap \<Rightarrow> jsval \<Rightarrow> bool" where
  "isArray h v \<longleftrightarrow> jq_type h v = ''array''"

definition isWindow :: "heap \<Rightarrow> jsval \<Rightarrow> bool" where
  "isWindow h v \<longleftrightarrow> (case v of Ref a \<Rightarrow> \<not> isFunction h v \<and> window (objs h a) | _ \<Rightarrow> False)"

definition isPlainObject :: "heap \<Rightarrow> jsval \<Rightarrow> bool" where
  "isPlainObject h v \<longleftrightarrow> (case v of
     Ref a \<Rightarrow> (let x = objs h a in
       if jq_type h v \<noteq> ''object'' \<or> nodeType x \<or> isWindow h v then False
       else if (case constructor x of None \<Rightarrow> False | Some std \<Rightarrow> \<not> has_own x ''constructor'' \<and> \<not> std) then False
       else obj_keys x = [] \<or> has_own x (last (obj_keys x)))
   | _ \<Rightarrow> False)"

definition isEmptyObject :: "heap \<Rightarrow> jsval \<Rightarrow> bool" where
  "isEmptyObject h v \<longleftrightarrow> keys_of h v = []"

section \<open>extend\<close>

fun foldM :: "('a \<Rightarrow> 's \<Rightarrow> 's option) \<Rightarrow> 'a list \<Rightarrow> 's \<Rightarrow> 's option" where
  "foldM f [] s = Some s"
| "foldM f (x # xs) s = (case f x s of None \<Rightarrow> None | Some s' \<Rightarrow> foldM f xs s')"

text \<open>A reference to an object that is copied, not shared.\<close>

definition copied :: "heap \<Rightarrow> jsval \<Rightarrow> bool" where
  "copied h v \<longleftrightarrow> isPlainObject h v \<or> isArray h v"

definition clone_of :: "heap \<Rightarrow> jsval \<Rightarrow> jsval \<Rightarrow> nat \<times> heap" where
  "clone_of h src copy =
     (if isPlainObject h copy
      then (case src of Ref s \<Rightarrow> if isPlainObject h src then (s, h) else alloc empty_obj h | _ \<Rightarrow> alloc empty_obj h)
      else (case src of Ref s \<Rightarrow> if isArray h src then (s, h) else alloc empty_arr h | _ \<Rightarrow> alloc empty_arr h))"

definition copy_name ::
  "(nat \<Rightarrow> jsval list \<Rightarrow> heap \<Rightarrow> heap option) \<Rightarrow> bool \<Rightarrow> nat \<Rightarrow> jsval \<Rightarrow> string \<Rightarrow> heap \<Rightarrow> heap option" where
  "copy_name rec deep t opt name h =
     (let src = read h (Ref t) name; copy = read h opt name
      in if copy = Ref t then Some h
         else if deep \<and> truthy copy \<and> copied h copy
           then (case clone_of h src copy of (c, h1) \<Rightarrow>
             (case rec c [copy] h1 of None \<Rightarrow> None | Some h2 \<Rightarrow> Some (obj_set t name (Ref c) h2)))
         else if copy \<noteq> Undefined then Some (obj_set t name copy h) else Some h)"

definition copy_from ::
  "(nat \<Rightarrow> jsval list \<Rightarrow> heap \<Rightarrow> heap option) \<Rightarrow> bool \<Rightarrow> nat \<Rightarrow> jsval \<Rightarrow> heap \<Rightarrow> heap option" where
  "copy_from rec deep t opt h =
     (if nullish opt then Some h else foldM (copy_name rec deep t opt) (keys_of h opt) h)"

text \<open>
  The loop of \<open>extend\<close> over its sources. The fuel bounds the depth of the recursion; \<open>None\<close> means
  that it was not enough.
\<close>

primrec extend_into :: "nat \<Rightarrow> bool \<Rightarrow> nat \<Rightarrow> jsval list \<Rightarrow> heap \<Rightarrow> heap option" where
  "extend_into 0 deep t opts h = None"
| "extend_into (Suc n) deep t opts h = foldM (copy_from (extend_into n True) deep t) opts h"

text \<open>\<open>jQuery.extend\<close> called on the object \<open>this\<close> with the arguments \<open>args\<close>: its target and the heap.\<close>

definition target_of :: "jsval \<Rightarrow> heap \<Rightarrow> nat \<times> heap" where
  "target_of v h = (case v of Ref a \<Rightarrow> (a, h) | _ \<Rightarrow> alloc empty_obj h)"

definition jq_extend :: "nat \<Rightarrow> nat \<Rightarrow> jsval list \<Rightarrow> heap \<Rightarrow> (nat \<times> heap) option" where
  "jq_extend fuel this args h =
     (let (deep, tv, i) = (case args of
            Bool True # rest \<Rightarrow> (True, (case rest of [] \<Rightarrow> Undefined | v # _ \<Rightarrow> v), 2)
          | v # rest \<Rightarrow> (False, v, 1)
          | [] \<Rightarrow> (False, Undefined, 1));
          (t0, h0) = target_of tv h;
          (t, j) = (if length args = i then (this, i - 1) else (t0, i))
      in case extend_into fuel deep t (drop j args) h0 of None \<Rightarrow> None | Some h' \<Rightarrow> Some (t, h'))"

section \<open>Reading after writing\<close>

lemma obj_set_simps [simp]:
  "next_obj (obj_set a k v h) = next_obj h"
  "b \<noteq> a \<Longrightarrow> objs (obj_set a k v h) b = objs h b"
  by (simp_all add: obj_set_def)

lemma has_own_update: "has_own (x\<lparr>own := AList.update k v (own x)\<rparr>) k' \<longleftrightarrow> k' = k \<or> has_own x k'"
  by (auto simp: has_own_def dom_update)

lemma read_obj_set:
  "read (obj_set a k v h) (Ref b) k' = (if b = a \<and> k' = k then v else read h (Ref b) k')"
proof (cases "b = a")
  case True
  have "obj_get ((objs h a)\<lparr>own := AList.update k v (own (objs h a))\<rparr>) k'
    = (if k' = k then v else obj_get (objs h a) k')"
    by (auto simp: obj_get_def has_own_update)
  with True show ?thesis by (simp add: obj_set_def)
qed (simp add: obj_set_def)

lemma alloc_simps:
  "alloc x h = (c, h') \<Longrightarrow> c = next_obj h \<and> next_obj h' = Suc c \<and> objs h' c = x \<and> (\<forall>b. b \<noteq> c \<longrightarrow> objs h' b = objs h b)"
  by (auto simp: alloc_def)

lemma foldM_inv:
  assumes "foldM f xs s = Some s'" and "P s"
    and "\<And>x s s'. x \<in> set xs \<Longrightarrow> P s \<Longrightarrow> f x s = Some s' \<Longrightarrow> P s'"
  shows "P s'"
  using assms
proof (induction xs arbitrary: s)
  case (Cons x xs)
  then obtain s1 where s1: "f x s = Some s1" "foldM f xs s1 = Some s'" by (auto split: option.splits)
  have "P s1" using Cons.prems(2,3) s1(1) by (meson list.set_intros(1))
  with s1(2) show ?case using Cons.prems(3) by (intro Cons.IH) (auto intro: list.set_intros(2))
qed simp

lemma foldM_total:
  assumes "P s" and "\<And>x s. x \<in> set xs \<Longrightarrow> P s \<Longrightarrow> \<exists>s'. f x s = Some s' \<and> P s'"
  shows "\<exists>s'. foldM f xs s = Some s' \<and> P s'"
  using assms
proof (induction xs arbitrary: s)
  case (Cons x xs)
  then obtain s1 where "f x s = Some s1" "P s1" by (meson list.set_intros(1))
  with Cons.IH[of s1] Cons.prems show ?case by simp
qed simp

section \<open>What a deep extend writes\<close>

text \<open>The objects that a deep extend of \<open>t\<close> may go into: those it reaches through copied references.\<close>

inductive reach :: "heap \<Rightarrow> nat \<Rightarrow> nat \<Rightarrow> bool" for h t where
  here: "reach h t t"
| into: "reach h t a \<Longrightarrow> read h (Ref a) k = Ref b \<Longrightarrow> copied h (Ref b) \<Longrightarrow> reach h t b"

definition closed :: "heap \<Rightarrow> nat set \<Rightarrow> bool" where
  "closed h M \<longleftrightarrow> (\<forall>a\<in>M. \<forall>k b. read h (Ref a) k = Ref b \<longrightarrow> copied h (Ref b) \<longrightarrow> b \<in> M)"

definition stays_in :: "nat set \<Rightarrow> heap \<Rightarrow> heap \<Rightarrow> bool" where
  "stays_in M h h' \<longleftrightarrow> closed h' M \<and> {a. next_obj h' \<le> a} \<subseteq> M \<and> (\<forall>a. a \<notin> M \<longrightarrow> objs h' a = objs h a)"

lemma copied_cong: "objs h' b = objs h b \<Longrightarrow> copied h' (Ref b) = copied h (Ref b)"
  by (simp add: copied_def isPlainObject_def isArray_def isWindow_def isFunction_def)

lemma stays_in_trans: "stays_in M h h1 \<Longrightarrow> stays_in M h1 h2 \<Longrightarrow> stays_in M h h2"
  by (simp add: stays_in_def)

lemma stays_set:
  assumes s: "stays_in M h0 h" and t: "t \<in> M" and v: "\<And>b. v = Ref b \<Longrightarrow> copied h (Ref b) \<Longrightarrow> b \<in> M"
  shows "stays_in M h0 (obj_set t k v h)"
proof -
  have c: "closed h M" using s by (simp add: stays_in_def)
  have same: "copied (obj_set t k v h) (Ref b) = copied h (Ref b)" if "b \<notin> M" for b
  proof -
    have "b \<noteq> t" using t that by blast
    then show ?thesis by (intro copied_cong) simp
  qed
  have "closed (obj_set t k v h) M"
    unfolding closed_def read_obj_set
  proof (intro ballI allI impI)
    fix a k' b
    assume a: "a \<in> M" and r: "(if a = t \<and> k' = k then v else read h (Ref a) k') = Ref b"
      and cp: "copied (obj_set t k v h) (Ref b)"
    show "b \<in> M"
    proof (rule ccontr)
      assume "b \<notin> M"
      with same cp have "copied h (Ref b)" by blast
      with \<open>b \<notin> M\<close> r a v c show False by (auto simp: closed_def split: if_splits)
    qed
  qed
  moreover have "objs (obj_set t k v h) a = objs h0 a" if "a \<notin> M" for a
  proof -
    have "a \<noteq> t" using t that by blast
    with s that show ?thesis by (simp add: stays_in_def)
  qed
  ultimately show ?thesis using s by (simp add: stays_in_def)
qed

lemma get_empty [simp]: "obj_get empty_obj k = Undefined" "obj_get empty_arr k = Undefined"
  by (simp_all add: obj_get_def empty_obj_def empty_arr_def has_own_def)

lemma stays_alloc:
  assumes s: "stays_in M h0 h" and x: "x = empty_obj \<or> x = empty_arr" and al: "alloc x h = (c, h')"
  shows "stays_in M h0 h'" and "c \<in> M"
proof -
  have c: "c = next_obj h" "next_obj h' = Suc c" "objs h' c = x" "\<And>b. b \<noteq> c \<Longrightarrow> objs h' b = objs h b"
    using alloc_simps[OF al] by auto
  then show cM: "c \<in> M" using s by (auto simp: stays_in_def)
  have u: "obj_get x k = Undefined" for k using x by auto
  have "closed h' M"
    unfolding closed_def
  proof (intro ballI allI impI)
    fix a k b
    assume a: "a \<in> M" and r: "read h' (Ref a) k = Ref b" and cp: "copied h' (Ref b)"
    from r have ac: "a \<noteq> c" using c(3) u by auto
    show "b \<in> M"
    proof (cases "b = c")
      case False
      then have "copied h (Ref b)" using cp copied_cong[OF c(4)] by blast
      moreover have "read h (Ref a) k = Ref b" using r c(4)[OF ac] by simp
      ultimately show ?thesis using s a by (auto simp: stays_in_def closed_def)
    qed (use cM in simp)
  qed
  moreover have "objs h' a = objs h0 a" if "a \<notin> M" for a
  proof -
    have "a \<noteq> c" using cM that by blast
    with s c(4) that show ?thesis by (simp add: stays_in_def)
  qed
  moreover have "{a. next_obj h' \<le> a} \<subseteq> M" using s c(1,2) by (auto simp: stays_in_def)
  ultimately show "stays_in M h0 h'" by (simp add: stays_in_def)
qed

lemma stays_clone:
  assumes s: "stays_in M h0 h" and t: "t \<in> M" and cl: "clone_of h (read h (Ref t) name) copy = (c, h1)"
  shows "stays_in M h0 h1" and "c \<in> M"
proof -
  consider (new) x where "x = empty_obj \<or> x = empty_arr" "alloc x h = (c, h1)"
    | (old) "h1 = h" "read h (Ref t) name = Ref c" "copied h (Ref c)"
    using cl unfolding clone_of_def copied_def by (auto split: if_splits jsval.splits)
  then have "stays_in M h0 h1 \<and> c \<in> M"
  proof cases
    case new
    then show ?thesis using stays_alloc[OF s] by blast
  next
    case old
    have "closed h M" using s by (simp add: stays_in_def)
    then have "c \<in> M" using old t unfolding closed_def by blast
    with old s show ?thesis by simp
  qed
  then show "stays_in M h0 h1" and "c \<in> M" by blast+
qed

lemma stays_copy_name:
  assumes rec: "\<And>c v h1 h2. c \<in> M \<Longrightarrow> stays_in M h0 h1 \<Longrightarrow> rec c v h1 = Some h2 \<Longrightarrow> stays_in M h0 h2"
    and s: "stays_in M h0 h" and t: "t \<in> M" and r: "copy_name rec True t opt name h = Some h'"
  shows "stays_in M h0 h'"
proof -
  let ?src = "read h (Ref t) name" and ?copy = "read h opt name"
  show ?thesis
  proof (cases "?copy = Ref t")
    case True
    with r have "h' = h" by (simp add: copy_name_def)
    with s show ?thesis by simp
  next
    case nt: False
    show ?thesis
    proof (cases "truthy ?copy \<and> copied h ?copy")
      case True
      obtain c h1 where cl: "clone_of h ?src ?copy = (c, h1)" by fastforce
      then obtain h2 where h2: "rec c [?copy] h1 = Some h2" "h' = obj_set t name (Ref c) h2"
        using r nt True by (auto simp: copy_name_def Let_def split: option.splits)
      have "c \<in> M" by (rule stays_clone(2)[OF s t cl])
      moreover have "stays_in M h0 h2"
        by (rule rec[OF \<open>c \<in> M\<close> stays_clone(1)[OF s t cl] h2(1)])
      ultimately show ?thesis unfolding h2(2) by (intro stays_set t) auto
    next
      case False
      with r nt have "h' = obj_set t name ?copy h \<or> h' = h"
        by (auto simp: copy_name_def Let_def split: if_splits)
      moreover have "stays_in M h0 (obj_set t name ?copy h)"
        by (rule stays_set[OF s t]) (use False in auto)
      ultimately show ?thesis using s by blast
    qed
  qed
qed

lemma stays_extend:
  "extend_into n True t opts h = Some h' \<Longrightarrow> t \<in> M \<Longrightarrow> stays_in M h0 h \<Longrightarrow> stays_in M h0 h'"
proof (induction n arbitrary: t opts h h')
  case (Suc n)
  have step: "stays_in M h0 g'" if "stays_in M h0 g" "copy_from (extend_into n True) True t opt g = Some g'" for g g' opt
  proof (cases "nullish opt")
    case False
    with that have "foldM (copy_name (extend_into n True) True t opt) (keys_of g opt) g = Some g'"
      by (simp add: copy_from_def)
    then show ?thesis
      using that(1)
    proof (rule foldM_inv)
      show "stays_in M h0 s'" if "stays_in M h0 s" "copy_name (extend_into n True) True t opt x s = Some s'" for x s s'
        by (rule stays_copy_name[OF Suc.IH that(1) Suc.prems(2) that(2)])
    qed
  qed (use that in \<open>simp add: copy_from_def\<close>)
  from Suc.prems(1) have "foldM (copy_from (extend_into n True) True t) opts h = Some h'" by simp
  then show ?case using Suc.prems(3) by (rule foldM_inv) (rule step)
qed simp

text \<open>Nothing beyond \<open>next_obj\<close>: no reference into it and no properties there.\<close>

definition heap_ok :: "heap \<Rightarrow> bool" where
  "heap_ok h \<longleftrightarrow> (\<forall>a k. next_obj h \<le> a \<longrightarrow> read h (Ref a) k = Undefined)"

lemma stays_start: "heap_ok h \<Longrightarrow> stays_in ({a. reach h t a} \<union> {a. next_obj h \<le> a}) h h"
  by (auto simp: stays_in_def closed_def heap_ok_def intro: reach.into)

text \<open>
  C8: a deep extend writes only into its target, the plain objects and arrays that the target
  reaches through plain objects and arrays, and objects it creates: every other object, the
  sources included, is left as it was.
\<close>

theorem deep_extend_writes_only_the_target:
  assumes "heap_ok h" and "extend_into fuel True t opts h = Some h'"
    and "a < next_obj h" and "\<not> reach h t a"
  shows "objs h' a = objs h a"
proof -
  let ?M = "{a. reach h t a} \<union> {a. next_obj h \<le> a}"
  have "stays_in ?M h h'"
    using assms(2) by (rule stays_extend) (use assms(1) stays_start reach.here in auto)
  then show ?thesis using assms(3,4) by (auto simp: stays_in_def)
qed

section \<open>Termination\<close>

lemma class2type_Object: "class2type ''Object'' = Some ''object''"
  by code_simp

lemma copied_Ref: "copied h v \<Longrightarrow> \<exists>a. v = Ref a"
  by (cases v) (simp_all add: copied_def isPlainObject_def isArray_def)

text \<open>Sources without cycles: following a copied reference decreases a rank, and never meets the target.\<close>

definition ranked :: "(nat \<Rightarrow> nat) \<Rightarrow> nat set \<Rightarrow> nat set \<Rightarrow> heap \<Rightarrow> bool" where
  "ranked rank S M h \<longleftrightarrow> S \<inter> M = {} \<and> (\<forall>a\<in>S. \<forall>k b. read h (Ref a) k = Ref b \<longrightarrow>
     b \<notin> M \<and> (copied h (Ref b) \<longrightarrow> b \<in> S \<and> rank b < rank a))"

lemma ranked_read:
  assumes r: "ranked rank S M h0" and s: "stays_in M h0 h" and a: "a \<in> S"
    and rd: "read h (Ref a) k = Ref b" and c: "copied h (Ref b)"
  shows "b \<in> S \<and> rank b < rank a"
proof -
  have "a \<notin> M" using r a by (auto simp: ranked_def)
  then have "read h0 (Ref a) k = Ref b" using s rd by (simp add: stays_in_def)
  then have b: "b \<notin> M" "copied h0 (Ref b) \<Longrightarrow> b \<in> S \<and> rank b < rank a" using r a unfolding ranked_def by blast+
  then have "copied h0 (Ref b)" using c s copied_cong[of h b h0] by (simp add: stays_in_def)
  with b(2) show ?thesis .
qed

lemma extend_total:
  assumes r: "ranked rank S M h0"
  shows "0 < n \<Longrightarrow> t \<in> M \<Longrightarrow> stays_in M h0 h \<Longrightarrow> (\<And>a. Ref a \<in> set opts \<Longrightarrow> a \<in> S \<and> rank a < n) \<Longrightarrow>
    \<exists>h'. extend_into n True t opts h = Some h' \<and> stays_in M h0 h'"
proof (induction n arbitrary: t opts h)
  case (Suc n)
  have name: "\<exists>g'. copy_name (extend_into n True) True t opt k g = Some g' \<and> stays_in M h0 g'"
    if o: "opt \<in> set opts" and g: "stays_in M h0 g" for opt k g
  proof -
    let ?copy = "read g opt k"
    have tot: "\<exists>g'. copy_name (extend_into n True) True t opt k g = Some g'"
    proof (cases "?copy \<noteq> Ref t \<and> truthy ?copy \<and> copied g ?copy")
      case True
      then obtain b where b: "?copy = Ref b" using copied_Ref by blast
      then obtain a where a: "opt = Ref a" by (cases opt) (auto split: option.splits)
      have "a \<in> S \<and> rank a < Suc n" using Suc.prems(4) o a by blast
      moreover have "b \<in> S \<and> rank b < rank a"
        using ranked_read[OF r g] calculation a b True by metis
      ultimately have bn: "b \<in> S \<and> rank b < n" by linarith
      obtain c g1 where cl: "clone_of g (read g (Ref t) k) ?copy = (c, g1)" by fastforce
      have "\<exists>g2. extend_into n True c [?copy] g1 = Some g2 \<and> stays_in M h0 g2"
        by (rule Suc.IH) (use bn b stays_clone[OF g Suc.prems(2) cl] in auto)
      then obtain g2 where "extend_into n True c [?copy] g1 = Some g2" by blast
      with cl True show ?thesis by (simp add: copy_name_def Let_def)
    next
      case False
      then consider "?copy = Ref t" | "?copy \<noteq> Ref t" "\<not> (truthy ?copy \<and> copied g ?copy)" by blast
      then show ?thesis by cases (auto simp: copy_name_def Let_def simp del: read.simps)
    qed
    then obtain g' where g': "copy_name (extend_into n True) True t opt k g = Some g'" by blast
    moreover have "stays_in M h0 g'"
      by (rule stays_copy_name[OF stays_extend g Suc.prems(2) g'])
    ultimately show ?thesis by blast
  qed
  have "\<exists>g'. copy_from (extend_into n True) True t opt g = Some g' \<and> stays_in M h0 g'"
    if "opt \<in> set opts" "stays_in M h0 g" for opt g
  proof -
    have "\<exists>g'. foldM (copy_name (extend_into n True) True t opt) (keys_of g opt) g = Some g' \<and> stays_in M h0 g'"
      by (rule foldM_total[where P = "stays_in M h0"]) (use that name in auto)
    with that(2) show ?thesis by (simp add: copy_from_def)
  qed
  then have "\<exists>h'. foldM (copy_from (extend_into n True) True t) opts h = Some h' \<and> stays_in M h0 h'"
    by (intro foldM_total[where P = "stays_in M h0"] Suc.prems(3))
  then show ?case by simp
qed simp

text \<open>
  A deep extend returns when its sources have no cycle (a rank decreases along the references
  that are copied) and do not meet the objects that the target reaches: a recursion depth above
  the rank of every source is enough.
\<close>

theorem deep_extend_returns:
  assumes ok: "heap_ok h" and n: "0 < fuel"
    and src: "\<And>a. Ref a \<in> set opts \<Longrightarrow> a \<in> S \<and> rank a < fuel"
    and acyclic: "\<And>a k b. a \<in> S \<Longrightarrow> read h (Ref a) k = Ref b \<Longrightarrow>
      b < next_obj h \<and> \<not> reach h t b \<and> (copied h (Ref b) \<longrightarrow> b \<in> S \<and> rank b < rank a)"
    and disjoint: "\<And>a. a \<in> S \<Longrightarrow> a < next_obj h \<and> \<not> reach h t a"
  shows "\<exists>h'. extend_into fuel True t opts h = Some h' \<and> (\<forall>a\<in>S. objs h' a = objs h a)"
proof -
  let ?M = "{a. reach h t a} \<union> {a. next_obj h \<le> a}"
  have "S \<inter> ?M = {}" using disjoint by fastforce
  moreover have "b \<notin> ?M \<and> (copied h (Ref b) \<longrightarrow> b \<in> S \<and> rank b < rank a)"
    if "a \<in> S" "read h (Ref a) k = Ref b" for a k b
    using acyclic[OF that] by simp
  ultimately have r: "ranked rank S ?M h" unfolding ranked_def by blast
  from extend_total[OF r n _ stays_start[OF ok] src, of t] reach.here
  obtain h' where "extend_into fuel True t opts h = Some h'" "stays_in ?M h h'" by blast
  moreover have "objs h' a = objs h a" if "a \<in> S" for a
    using calculation(2) disjoint[OF that] by (auto simp: stays_in_def)
  ultimately show ?thesis by blast
qed

text \<open>
  A deep extend never returns when the source contains itself: no recursion depth is enough
  for an object \<open>o\<close> with a property that refers to \<open>o\<close>. (The guard against loops only compares
  with the target of the current level.)
\<close>

theorem deep_extend_of_a_cycle_never_returns:
  assumes "objs h a = empty_obj\<lparr>own := [(k, Ref a)]\<rparr>" and "a < next_obj h"
    and "t \<noteq> a" and "\<not> copied h (read h (Ref t) k)"
  shows "extend_into fuel True t [Ref a] h = None"
  using assms
proof (induction fuel arbitrary: t h)
  case (Suc n)
  let ?h1 = "snd (alloc empty_obj h)" and ?c = "next_obj h"
  have h1: "alloc empty_obj h = (?c, ?h1)" "objs ?h1 a = objs h a" "a < next_obj ?h1" "objs ?h1 ?c = empty_obj"
    using Suc.prems(2) by (simp_all add: alloc_def)
  have ks: "keys_of h (Ref a) = [k]" using Suc.prems(1) by (simp add: obj_keys_def empty_obj_def)
  have rd: "read h (Ref a) k = Ref a" using Suc.prems(1) by (simp add: obj_get_def has_own_def get_or_def)
  have pl: "isPlainObject h (Ref a)"
    using Suc.prems(1)
    by (simp add: isPlainObject_def isWindow_def isFunction_def class2type_Object obj_keys_def has_own_def
        empty_obj_def)
  have cl: "clone_of h (read h (Ref t) k) (Ref a) = (?c, ?h1)"
    using pl Suc.prems(4) h1(1) by (auto simp: clone_of_def copied_def split: jsval.split)
  have "\<not> copied ?h1 (read ?h1 (Ref ?c) k)"
    using h1(4) copied_Ref by auto
  then have "extend_into n True ?c [Ref a] ?h1 = None"
    using Suc.IH[of ?h1 ?c] h1 Suc.prems(1,2) by simp
  then show ?case
    using ks rd cl pl Suc.prems(3) by (simp add: copy_from_def copy_name_def copied_def)
qed simp

section \<open>A shallow extend\<close>

definition overrides :: "nat \<Rightarrow> jsval \<Rightarrow> bool" where
  "overrides t v \<longleftrightarrow> v \<noteq> Undefined \<and> v \<noteq> Ref t"

lemma shallow_names:
  assumes "a \<noteq> t"
  shows "\<exists>h'. foldM (copy_name rec False t (Ref a)) ks h = Some h' \<and>
    (\<forall>b. b \<noteq> t \<longrightarrow> objs h' b = objs h b) \<and>
    (\<forall>k. read h' (Ref t) k = (if k \<in> set ks \<and> overrides t (read h (Ref a) k) then read h (Ref a) k else read h (Ref t) k))"
proof (induction ks arbitrary: h)
  case (Cons x ks)
  let ?v = "read h (Ref a) x"
  let ?h = "if overrides t ?v then obj_set t x ?v h else h"
  have step: "copy_name rec False t (Ref a) x h = Some ?h"
    by (simp add: copy_name_def overrides_def Let_def)
  have fr: "objs ?h b = objs h b" if "b \<noteq> t" for b using that by simp
  have rd: "read ?h (Ref t) k = (if k = x \<and> overrides t ?v then ?v else read h (Ref t) k)" for k
    by (simp add: read_obj_set del: read.simps)
  have ra: "read ?h (Ref a) k = read h (Ref a) k" for k using fr[OF assms] by simp
  obtain h' where h': "foldM (copy_name rec False t (Ref a)) ks ?h = Some h'"
    "\<forall>b. b \<noteq> t \<longrightarrow> objs h' b = objs ?h b"
    "\<forall>k. read h' (Ref t) k = (if k \<in> set ks \<and> overrides t (read ?h (Ref a) k) then read ?h (Ref a) k else read ?h (Ref t) k)"
    using Cons.IH[of ?h] by blast
  have "foldM (copy_name rec False t (Ref a)) (x # ks) h = Some h'" using step h'(1) by simp
  moreover have "\<forall>b. b \<noteq> t \<longrightarrow> objs h' b = objs h b" using h'(2) fr by metis
  moreover have "read h' (Ref t) k = (if k \<in> set (x # ks) \<and> overrides t (read h (Ref a) k) then read h (Ref a) k
      else read h (Ref t) k)" for k
    unfolding h'(3)[rule_format] ra rd by auto
  ultimately show ?case by blast
qed simp

lemma read_not_key: "k \<notin> set (keys_of h (Ref a)) \<Longrightarrow> read h (Ref a) k = Undefined"
  by (auto simp: obj_keys_def obj_get_def has_own_def get_or_def split: option.splits dest: map_of_SomeD)
    (metis fst_conv imageI map_of_SomeD)

text \<open>
  A shallow extend returns; it changes only the target, whose property \<open>k\<close> becomes that of the
  last source that defines it, other than as undefined or as the target itself, and is left alone
  when no source does.
\<close>

theorem shallow_extend_last_wins:
  assumes "t \<notin> set os"
  shows "\<exists>h'. extend_into (Suc n) False t (map Ref os) h = Some h' \<and> (\<forall>b. b \<noteq> t \<longrightarrow> objs h' b = objs h b) \<and>
    read h' (Ref t) k = fold (\<lambda>a v. if overrides t (read h (Ref a) k) then read h (Ref a) k else v) os (read h (Ref t) k)"
  using assms
proof (induction os arbitrary: h)
  case (Cons a os)
  obtain h1 where h1: "copy_from (extend_into n True) False t (Ref a) h = Some h1"
    "\<forall>b. b \<noteq> t \<longrightarrow> objs h1 b = objs h b"
    "read h1 (Ref t) k = (if overrides t (read h (Ref a) k) then read h (Ref a) k else read h (Ref t) k)"
  proof -
    have u: "overrides t (read h (Ref a) k) \<Longrightarrow> k \<in> set (keys_of h (Ref a))"
      using read_not_key by (fastforce simp: overrides_def)
    have "a \<noteq> t" using Cons.prems by simp
    from shallow_names[OF this, of "extend_into n True" "keys_of h (Ref a)" h]
    show ?thesis using that u by (force simp: copy_from_def simp del: keys_of.simps read.simps)
  qed
  have eq: "read h1 (Ref b) k = read h (Ref b) k" if "b \<in> set os" for b
  proof -
    have "b \<noteq> t" using Cons.prems that by auto
    with h1(2) show ?thesis by simp
  qed
  have f: "fold (\<lambda>a v. if overrides t (read h1 (Ref a) k) then read h1 (Ref a) k else v) os v
      = fold (\<lambda>a v. if overrides t (read h (Ref a) k) then read h (Ref a) k else v) os v" for v
    using eq by (intro fold_cong) (auto simp del: read.simps)
  obtain h' where "extend_into (Suc n) False t (map Ref os) h1 = Some h'" "\<forall>b. b \<noteq> t \<longrightarrow> objs h' b = objs h1 b"
    "read h' (Ref t) k = fold (\<lambda>a v. if overrides t (read h1 (Ref a) k) then read h1 (Ref a) k else v) os (read h1 (Ref t) k)"
    using Cons.IH[of h1] Cons.prems by (auto simp del: read.simps)
  with h1 f show ?case by (auto simp del: read.simps)
qed simp

section \<open>Witnesses\<close>

text \<open>Objects 0 (empty), 1 (\<open>{p: 2}\<close>), 2 (\<open>{}\<close>), 3 (\<open>{self: 3}\<close>).\<close>

definition demo_heap :: heap where
  "demo_heap = \<lparr>objs = (\<lambda>a. if a = 1 then empty_obj\<lparr>own := [(''p'', Ref 2)]\<rparr>
       else if a = 3 then empty_obj\<lparr>own := [(''self'', Ref 3)]\<rparr> else empty_obj), next_obj = 4\<rparr>"

lemma demo_heap_read:
  "read demo_heap (Ref a) k = (if a = 1 \<and> k = ''p'' then Ref 2 else if a = 3 \<and> k = ''self'' then Ref 3 else Undefined)"
  by (auto simp: demo_heap_def obj_get_def has_own_def get_or_def) (simp_all add: empty_obj_def)

lemma demo_heap_ok: "heap_ok demo_heap"
  unfolding heap_ok_def demo_heap_read by (simp add: demo_heap_def)

lemma demo_reach: "reach demo_heap 0 a \<longleftrightarrow> a = 0"
proof
  show "reach demo_heap 0 a \<Longrightarrow> a = 0"
    by (induction rule: reach.induct) (auto simp: demo_heap_read split: if_splits simp del: read.simps)
qed (simp add: reach.here)

theorem deep_extend_writes_only_the_target_witness:
  "\<exists>h'. extend_into 2 True 0 [Ref 1] demo_heap = Some h' \<and> objs h' 1 = objs demo_heap 1"
proof -
  have "case extend_into 2 True 0 [Ref 1] demo_heap of None \<Rightarrow> False | Some _ \<Rightarrow> True"
    by code_simp
  then have "\<exists>h'. extend_into 2 True 0 [Ref 1] demo_heap = Some h'" by (simp split: option.splits)
  then obtain h' where "extend_into 2 True 0 [Ref 1] demo_heap = Some h'" by blast
  with deep_extend_writes_only_the_target[OF demo_heap_ok this, of 1] show ?thesis
    by (simp add: demo_reach) (simp add: demo_heap_def)
qed

theorem deep_extend_returns_witness:
  "\<exists>h'. extend_into 2 True 0 [Ref 1] demo_heap = Some h' \<and> (\<forall>a\<in>{1, 2}. objs h' a = objs demo_heap a)"
  by (rule deep_extend_returns[OF demo_heap_ok, where rank = "\<lambda>a. if a = 1 then 1 else 0"])
    (auto simp: demo_heap_read demo_reach simp del: read.simps split: if_splits, simp_all add: demo_heap_def)

theorem deep_extend_of_a_cycle_never_returns_witness: "extend_into 1000 True 0 [Ref 3] demo_heap = None"
proof (rule deep_extend_of_a_cycle_never_returns)
  show "\<not> copied demo_heap (read demo_heap (Ref 0) ''self'')"
    unfolding demo_heap_read using copied_Ref by auto
qed (simp_all add: demo_heap_def)

theorem shallow_extend_last_wins_witness:
  "\<exists>h'. extend_into 1 False 0 [Ref 1, Ref 3] demo_heap = Some h' \<and> read h' (Ref 0) ''p'' = Ref 2"
  using shallow_extend_last_wins[of 0 "[1, 3]" 0 demo_heap "''p''"]
  by (simp add: demo_heap_read overrides_def del: read.simps extend_into.simps) blast

end
