(* ===== verification/JQ_Util.thy ===== *)
theory JQ_Util
  imports JQ_Prelude
begin

text \<open>
  The utilities of jquery-1.6.4.js that the rest of the library is written with: the loops over
  arrays and objects (\<open>each\<close>, \<open>grep\<close>, \<open>map\<close>, \<open>inArray\<close>, \<open>merge\<close>, \<open>makeArray\<close>), element sets
  (\<open>get\<close>, \<open>eq\<close>, \<open>slice\<close>, \<open>pushStack\<close>, \<open>end\<close>), \<open>access\<close>, \<open>proxy\<close>, \<open>trim\<close>, and the state machine of the
  document's ready event. Callbacks are parameters that work on a state \<open>'w\<close> and may throw; they do
  not modify the array that is being visited.
\<close>

section \<open>Loops\<close>

datatype ('v, 'w) res = Val 'v 'w | Err 'w

fun bind_res :: "('v, 'w) res \<Rightarrow> ('v \<Rightarrow> 'w \<Rightarrow> ('u, 'w) res) \<Rightarrow> ('u, 'w) res" where
  "bind_res (Val v w) f = f v w"
| "bind_res (Err w) f = Err w"

text \<open>A property name or an array index.\<close>

datatype key = Ix nat | Nm string

fun each_loop :: "(key \<Rightarrow> jsval \<Rightarrow> 'w \<Rightarrow> (jsval, 'w) res) \<Rightarrow> (key \<times> jsval) list \<Rightarrow> 'w \<Rightarrow> (unit, 'w) res" where
  "each_loop cb [] w = Val () w"
| "each_loop cb ((k, v) # kvs) w =
     bind_res (cb k v w) (\<lambda>r w'. if r = Bool False then Val () w' else each_loop cb kvs w')"

text \<open>
  The two kinds of collections that \<open>each\<close> distinguishes: an array-like object, and an object (one
  without a length, or a function) whose properties are visited by name.
\<close>

datatype coll = ArrayLike "jsval list" | ByName "jsval props"

fun entries :: "coll \<Rightarrow> (key \<times> jsval) list" where
  "entries (ArrayLike xs) = map (\<lambda>i. (Ix i, xs ! i)) [0..<length xs]"
| "entries (ByName ps) = map (\<lambda>(k, v). (Nm k, v)) ps"

definition jq_each :: "(key \<Rightarrow> jsval \<Rightarrow> 'w \<Rightarrow> (jsval, 'w) res) \<Rightarrow> coll \<Rightarrow> 'w \<Rightarrow> (unit, 'w) res" where
  "jq_each cb c w = each_loop cb (entries c) w"

fun grep_loop :: "(jsval \<Rightarrow> nat \<Rightarrow> 'w \<Rightarrow> (jsval, 'w) res) \<Rightarrow> bool \<Rightarrow> nat \<Rightarrow> jsval list \<Rightarrow> 'w \<Rightarrow> (jsval list, 'w) res" where
  "grep_loop cb invert i [] w = Val [] w"
| "grep_loop cb invert i (x # xs) w =
     bind_res (cb x i w) (\<lambda>r w1. bind_res (grep_loop cb invert (Suc i) xs w1) (\<lambda>ys w2.
       Val (if invert \<noteq> truthy r then x # ys else ys) w2))"

definition jq_grep :: "(jsval \<Rightarrow> nat \<Rightarrow> 'w \<Rightarrow> (jsval, 'w) res) \<Rightarrow> jsval \<Rightarrow> jsval list \<Rightarrow> 'w \<Rightarrow> (jsval list, 'w) res" where
  "jq_grep cb invert xs w = grep_loop cb (truthy invert) 0 xs w"

text \<open>What a callback of \<open>map\<close> returns: a value, or an array that is flattened into the result.\<close>

datatype mapped = One jsval | Many "jsval list"

fun flat :: "mapped \<Rightarrow> jsval list" where
  "flat (One v) = (if nullish v then [] else [v])"
| "flat (Many vs) = vs"

fun map_loop :: "(jsval \<Rightarrow> key \<Rightarrow> 'w \<Rightarrow> (mapped, 'w) res) \<Rightarrow> (key \<times> jsval) list \<Rightarrow> 'w \<Rightarrow> (jsval list, 'w) res" where
  "map_loop cb [] w = Val [] w"
| "map_loop cb ((k, v) # kvs) w =
     bind_res (cb v k w) (\<lambda>m w1. bind_res (map_loop cb kvs w1) (\<lambda>ys w2. Val (flat m @ ys) w2))"

definition jq_map :: "(jsval \<Rightarrow> key \<Rightarrow> 'w \<Rightarrow> (mapped, 'w) res) \<Rightarrow> coll \<Rightarrow> 'w \<Rightarrow> (jsval list, 'w) res" where
  "jq_map cb c w = map_loop cb (entries c) w"

fun index_from :: "nat \<Rightarrow> jsval \<Rightarrow> jsval list \<Rightarrow> int" where
  "index_from i x [] = -1"
| "index_from i x (y # ys) = (if y = x then int i else index_from (Suc i) x ys)"

definition inArray :: "jsval \<Rightarrow> jsval list option \<Rightarrow> int" where
  "inArray x a = (case a of None \<Rightarrow> -1 | Some xs \<Rightarrow> index_from 0 x xs)"

text \<open>The second argument of \<open>merge\<close>: with a numeric length, or read up to an undefined element.\<close>

datatype source = WithLength "jsval list" | NoLength "jsval list"

fun merge :: "jsval list \<Rightarrow> source \<Rightarrow> jsval list" where
  "merge first (WithLength xs) = first @ xs"
| "merge first (NoLength xs) = first @ takeWhile (\<lambda>v. v \<noteq> Undefined) xs"

text \<open>The argument of \<open>makeArray\<close>: a value that is pushed, or an array-like object that is merged.\<close>

datatype arrayish = Single jsval | Listed source

fun makeArray :: "arrayish \<Rightarrow> jsval list \<Rightarrow> jsval list" where
  "makeArray (Single v) results = (if nullish v then results else results @ [v])"
| "makeArray (Listed s) results = merge results s"

section \<open>Element sets\<close>

datatype jqset = JQ (els: "jsval list") (prevObject: "jqset option") (selector: string)

definition js_index :: "int \<Rightarrow> nat \<Rightarrow> nat" where
  "js_index i n = (if i < 0 then nat (int n + i) else min (nat i) n)"

text \<open>\<open>Array.prototype.slice\<close>; \<open>None\<close> for an end that is not given.\<close>

definition array_slice :: "int \<Rightarrow> int option \<Rightarrow> 'a list \<Rightarrow> 'a list" where
  "array_slice s e xs = (let n = length xs; i = js_index s n; j = (case e of None \<Rightarrow> n | Some e \<Rightarrow> js_index e n)
     in drop i (take j xs))"

definition pushStack :: "jqset \<Rightarrow> jsval list \<Rightarrow> string option \<Rightarrow> string \<Rightarrow> jqset" where
  "pushStack this xs name sel =
     JQ xs (Some this)
       (case name of None \<Rightarrow> []
        | Some n \<Rightarrow>
            if n = ''find'' then selector this @ (if selector this \<noteq> [] then '' '' else []) @ sel
            else if n \<noteq> [] then selector this @ ''.'' @ n @ ''('' @ sel @ '')'' else [])"

definition jq_slice :: "int \<Rightarrow> int option \<Rightarrow> jqset \<Rightarrow> jqset" where
  "jq_slice s e this =
     pushStack this (array_slice s e (els this)) (Some ''slice'')
       (show_int s @ (case e of None \<Rightarrow> [] | Some j \<Rightarrow> '','' @ show_int j))"

definition jq_eq :: "int \<Rightarrow> jqset \<Rightarrow> jqset" where
  "jq_eq i this = (if i = -1 then jq_slice i None this else jq_slice i (Some (i + 1)) this)"

definition jq_first :: "jqset \<Rightarrow> jqset" where
  "jq_first this = jq_eq 0 this"

definition jq_last :: "jqset \<Rightarrow> jqset" where
  "jq_last this = jq_eq (-1) this"

definition at_index :: "int \<Rightarrow> jsval list \<Rightarrow> jsval" where
  "at_index i xs = (if 0 \<le> i \<and> i < int (length xs) then xs ! nat i else Undefined)"

definition jq_get :: "int option \<Rightarrow> jqset \<Rightarrow> jsval list + jsval" where
  "jq_get num this = (case num of
     None \<Rightarrow> Inl (array_slice 0 None (els this))
   | Some n \<Rightarrow> Inr (if n < 0 then at_index (int (length (els this)) + n) (els this) else at_index n (els this)))"

definition jq_end :: "jqset \<Rightarrow> jqset" where
  "jq_end this = (case prevObject this of Some p \<Rightarrow> p | None \<Rightarrow> JQ [] None [])"

section \<open>access\<close>

text \<open>
  \<open>jQuery.access\<close>: \<open>getter\<close> and \<open>setter\<close> are the two ways \<open>fn\<close> is called; a value is a constant or a
  function of the index and the old value.
\<close>

datatype aval = NoVal | Const jsval | Fun "nat \<Rightarrow> jsval \<Rightarrow> jsval"

fun set_each :: "(jsval \<Rightarrow> string \<Rightarrow> 'w \<Rightarrow> jsval) \<Rightarrow> (jsval \<Rightarrow> string \<Rightarrow> aval \<Rightarrow> bool \<Rightarrow> 'w \<Rightarrow> 'w) \<Rightarrow>
    bool \<Rightarrow> bool \<Rightarrow> string \<Rightarrow> aval \<Rightarrow> nat \<Rightarrow> jsval list \<Rightarrow> 'w \<Rightarrow> 'w" where
  "set_each getter setter exec pass k v i [] w = w"
| "set_each getter setter exec pass k v i (x # xs) w =
     set_each getter setter exec pass k v (Suc i) xs
       (setter x k (case v of Fun f \<Rightarrow> if exec then Const (f i (getter x k w)) else v | _ \<Rightarrow> v) pass w)"

definition access_one :: "(jsval \<Rightarrow> string \<Rightarrow> 'w \<Rightarrow> jsval) \<Rightarrow> (jsval \<Rightarrow> string \<Rightarrow> aval \<Rightarrow> bool \<Rightarrow> 'w \<Rightarrow> 'w) \<Rightarrow>
    jsval list \<Rightarrow> string \<Rightarrow> aval \<Rightarrow> bool \<Rightarrow> bool \<Rightarrow> 'w \<Rightarrow> jsval \<times> 'w" where
  "access_one getter setter elems k v exec pass w =
     (if v = NoVal then ((case elems of [] \<Rightarrow> Undefined | x # _ \<Rightarrow> getter x k w), w)
      else (Undefined, set_each getter setter (\<not> pass \<and> exec) pass k v 0 elems w))"

text \<open>The call with an object of attributes: its values are set in order, and \<open>value\<close> is passed on as \<open>pass\<close>.\<close>

definition access_all :: "(jsval \<Rightarrow> string \<Rightarrow> 'w \<Rightarrow> jsval) \<Rightarrow> (jsval \<Rightarrow> string \<Rightarrow> aval \<Rightarrow> bool \<Rightarrow> 'w \<Rightarrow> 'w) \<Rightarrow>
    jsval list \<Rightarrow> (string \<times> aval) list \<Rightarrow> bool \<Rightarrow> bool \<Rightarrow> 'w \<Rightarrow> 'w" where
  "access_all getter setter elems kvs exec value w =
     fold (\<lambda>(k, v) w. snd (access_one getter setter elems k v exec value w)) kvs w"

section \<open>proxy\<close>

text \<open>Functions by number: their \<open>guid\<close> property, and what the ones made by \<open>proxy\<close> call.\<close>

record fns =
  fguid :: "nat \<Rightarrow> nat option"
  bound :: "nat \<Rightarrow> (nat \<times> jsval \<times> jsval list) option"
  next_fn :: nat
  next_guid :: nat

definition guid_of :: "nat \<Rightarrow> fns \<Rightarrow> nat option" where
  "guid_of f s = (case fguid s f of Some 0 \<Rightarrow> None | g \<Rightarrow> g)"

definition proxy :: "nat \<Rightarrow> jsval \<Rightarrow> jsval list \<Rightarrow> fns \<Rightarrow> nat \<times> fns" where
  "proxy f ctx args s =
     (let p = next_fn s;
          (g, ng) = (case guid_of f s of Some g \<Rightarrow> (g, next_guid s) | None \<Rightarrow> (next_guid s, Suc (next_guid s)))
      in (p, s\<lparr>fguid := (fguid s)(f \<mapsto> g, p \<mapsto> g), bound := (bound s)(p \<mapsto> (f, ctx, args)),
               next_fn := Suc p, next_guid := ng\<rparr>))"

section \<open>trim\<close>

definition trim_left :: "string \<Rightarrow> string" where
  "trim_left s = dropWhile is_space s"

definition trim_right :: "string \<Rightarrow> string" where
  "trim_right s = rev (dropWhile is_space (rev s))"

definition jq_trim :: "string option \<Rightarrow> string" where
  "jq_trim text = (case text of None \<Rightarrow> [] | Some s \<Rightarrow> trim_right (trim_left s))"

section \<open>The ready event\<close>

record ready_state =
  readyWait :: int
  isReady :: bool
  hasBody :: bool
  complete :: bool \<comment> \<open>\<open>document.readyState === "complete"\<close>\<close>
  listeners :: nat \<comment> \<open>pending DOMContentLoaded and load listeners\<close>
  ready_timers :: nat \<comment> \<open>pending \<open>setTimeout(jQuery.ready, 1)\<close>\<close>
  readyList :: bool
  list_fired :: bool \<comment> \<open>\<open>fired\<close> of \<open>readyList\<close>\<close>
  list_fns :: "nat list" \<comment> \<open>\<open>callbacks\<close> of \<open>readyList\<close>\<close>
  fn_calls :: "(nat \<times> bool \<times> nat) list" \<comment> \<open>the functions called, each with whether it was given after the firing and the holds outstanding\<close>
  fns_given :: "nat list" \<comment> \<open>the arguments of the calls of \<open>.ready(fn)\<close> (of the model only)\<close>
  holds :: nat \<comment> \<open>\<open>holdReady(true)\<close> not yet released (of the model only)\<close>

text \<open>
  \<open>readyList.resolveWith(document, [jQuery])\<close>: the first one calls what is on the list, a later one
  nothing; without a list it throws. The ready functions return, and do not hold or release.
\<close>

definition run_ready :: "ready_state \<Rightarrow> ready_state outcome" where
  "run_ready s =
     (if \<not> readyList s then Threw s
      else if list_fired s then Returned s
      else Returned (s\<lparr>list_fired := True, list_fns := [],
             fn_calls := fn_calls s @ map (\<lambda>f. (f, False, holds s)) (list_fns s)\<rparr>))"

definition ready :: "bool \<Rightarrow> ready_state \<Rightarrow> ready_state outcome" where
  "ready wait s =
     (let s1 = (if wait then s\<lparr>readyWait := readyWait s - 1\<rparr> else s)
      in if wait \<and> readyWait s1 = 0 \<or> \<not> wait \<and> \<not> isReady s
         then (if \<not> hasBody s1 then Returned (s1\<lparr>ready_timers := Suc (ready_timers s1)\<rparr>)
               else (let s2 = s1\<lparr>isReady := True\<rparr>
                     in if \<not> wait
                        then (let s3 = s2\<lparr>readyWait := readyWait s2 - 1\<rparr>
                              in if readyWait s3 > 0 then Returned s3 else run_ready s3)
                        else run_ready s2))
         else Returned s1)"

definition holdReady :: "bool \<Rightarrow> ready_state \<Rightarrow> ready_state outcome" where
  "holdReady hold s = (if hold then Returned (s\<lparr>readyWait := readyWait s + 1\<rparr>) else ready True s)"

definition bindReady :: "ready_state \<Rightarrow> ready_state" where
  "bindReady s =
     (if readyList s then s
      else (let s1 = s\<lparr>readyList := True\<rparr>
            in if complete s then s1\<lparr>ready_timers := Suc (ready_timers s1)\<rparr>
               else s1\<lparr>listeners := listeners s1 + 2\<rparr>))"

text \<open>\<open>readyList.done(fn)\<close>: on a list that has fired, the function is called at once.\<close>

definition fn_ready :: "nat \<Rightarrow> ready_state \<Rightarrow> ready_state" where
  "fn_ready f s =
     (let s1 = (bindReady s)\<lparr>fns_given := fns_given s @ [f]\<rparr>
      in if list_fired s1 then s1\<lparr>fn_calls := fn_calls s1 @ [(f, True, holds s1)]\<rparr>
         else s1\<lparr>list_fns := list_fns s1 @ [f]\<rparr>)"

text \<open>
  What can happen, in any order: holds and releases that match, calls of \<open>.ready(fn)\<close>, the
  document completing and its body appearing, and the pending listeners and timers.
\<close>

inductive ready_step :: "ready_state \<Rightarrow> ready_state outcome \<Rightarrow> bool" where
  hold: "holdReady True s = Returned s' \<Longrightarrow> ready_step s (Returned (s'\<lparr>holds := Suc (holds s)\<rparr>))"
| release: "0 < holds s \<Longrightarrow> holdReady False (s\<lparr>holds := holds s - 1\<rparr>) = r \<Longrightarrow> ready_step s r"
| bind: "ready_step s (Returned (fn_ready f s))"
| body: "ready_step s (Returned (s\<lparr>hasBody := True\<rparr>))"
| complete: "hasBody s \<Longrightarrow> ready_step s (Returned (s\<lparr>complete := True\<rparr>))"
| listener: "0 < listeners s \<Longrightarrow> ready False (s\<lparr>listeners := listeners s - 1\<rparr>) = r \<Longrightarrow> ready_step s r"
| timer: "0 < ready_timers s \<Longrightarrow> ready False (s\<lparr>ready_timers := ready_timers s - 1\<rparr>) = r \<Longrightarrow> ready_step s r"

definition ready_init :: ready_state where
  "ready_init = \<lparr>readyWait = 1, isReady = False, hasBody = False, complete = False, listeners = 0,
     ready_timers = 0, readyList = False, list_fired = False, list_fns = [], fn_calls = [], fns_given = [], holds = 0\<rparr>"

inductive ready_reachable :: "ready_state outcome \<Rightarrow> bool" where
  start: "ready_reachable (Returned ready_init)"
| later: "ready_reachable (Returned s) \<Longrightarrow> ready_step s r \<Longrightarrow> ready_reachable r"

lemmas ready_defs = ready_def holdReady_def bindReady_def run_ready_def fn_ready_def

section \<open>Loops over callbacks without effects\<close>

lemma grep_pure:
  assumes "\<And>x i w. cb x i w = Val (f x i) w"
  shows "jq_grep cb invert xs w =
    Val (map fst (filter (\<lambda>(x, i). truthy invert \<noteq> truthy (f x i)) (zip xs [0..<length xs]))) w"
proof -
  have "grep_loop cb b i xs w = Val (map fst (filter (\<lambda>(x, i). b \<noteq> truthy (f x i)) (zip xs [i..<i + length xs]))) w" for b i
  proof (induction xs arbitrary: i)
    case (Cons x xs)
    have "[i..<i + length (x # xs)] = i # [Suc i..<Suc i + length xs]"
      by (simp add: upt_conv_Cons del: upt_Suc)
    with Cons[of "Suc i"] show ?case by (simp add: assms del: upt_Suc)
  qed simp
  from this[of _ 0] show ?thesis by (simp add: jq_grep_def)
qed

text \<open>With the two values of \<open>inv\<close>, \<open>grep\<close> splits the array.\<close>

lemma grep_splits:
  assumes "\<And>x i w. cb x i w = Val (f x i) w"
  shows "\<exists>ys zs. jq_grep cb (Bool False) xs w = Val ys w \<and> jq_grep cb (Bool True) xs w = Val zs w \<and>
    length ys + length zs = length xs \<and> set ys \<union> set zs = set xs"
proof -
  let ?z = "zip xs [0..<length xs]" and ?P = "\<lambda>(x, i). truthy (f x i)"
  have l: "length (filter ?P ?z) + length (filter (\<lambda>y. \<not> ?P y) ?z) = length xs"
    by (simp add: sum_length_filter_compl)
  have "set (map fst (filter ?P ?z)) \<union> set (map fst (filter (\<lambda>y. \<not> ?P y) ?z)) =
      fst ` ({y \<in> set ?z. ?P y} \<union> {y \<in> set ?z. \<not> ?P y})"
    by (simp only: set_map set_filter image_Un)
  also have "{y \<in> set ?z. ?P y} \<union> {y \<in> set ?z. \<not> ?P y} = set ?z" by blast
  also have "fst ` set ?z = set (map fst ?z)" by (simp only: set_map)
  also have "\<dots> = set xs" by (subst map_fst_zip) simp_all
  finally show ?thesis
    using l by (simp add: grep_pure[OF assms] case_prod_unfold)
qed

text \<open>Which entries \<open>each\<close> visits: up to the first that answers false.\<close>

fun visited :: "(key \<Rightarrow> jsval \<Rightarrow> jsval) \<Rightarrow> (key \<times> jsval) list \<Rightarrow> (key \<times> jsval) list" where
  "visited f [] = []"
| "visited f ((k, v) # kvs) = (k, v) # (if f k v = Bool False then [] else visited f kvs)"

lemma each_visits:
  assumes "\<And>k v w. cb k v w = Val (f k v) (w @ [(k, v)])"
  shows "jq_each cb c w = Val () (w @ visited f (entries c))"
proof -
  have "each_loop cb kvs w = Val () (w @ visited f kvs)" for kvs
  proof (induction kvs arbitrary: w)
    case (Cons kv kvs)
    then show ?case by (cases kv) (simp add: assms)
  qed simp
  then show ?thesis by (simp add: jq_each_def)
qed

lemma inArray_first:
  "inArray x (Some xs) = (if x \<in> set xs then int (length (takeWhile (\<lambda>y. y \<noteq> x) xs)) else -1)"
proof -
  have "index_from i x xs = (if x \<in> set xs then int (i + length (takeWhile (\<lambda>y. y \<noteq> x) xs)) else -1)" for i
    by (induction xs arbitrary: i) auto
  from this[of 0] show ?thesis by (simp add: inArray_def)
qed

section \<open>trim\<close>

lemma trim_parts:
  "\<exists>l r. s = l @ jq_trim (Some s) @ r \<and> list_all is_space l \<and> list_all is_space r"
proof -
  have "\<exists>l. s = l @ dropWhile is_space s \<and> list_all is_space l" for s
    by (metis list_all_iff set_takeWhileD takeWhile_dropWhile_id)
  then obtain l where l: "s = l @ trim_left s" "list_all is_space l" unfolding trim_left_def by blast
  obtain r where r: "rev (trim_left s) = r @ dropWhile is_space (rev (trim_left s))" "list_all is_space r"
    by (metis list_all_iff set_takeWhileD takeWhile_dropWhile_id)
  then have "trim_left s = trim_right (trim_left s) @ rev r"
    unfolding trim_right_def by (metis rev_append rev_rev_ident)
  moreover have "list_all is_space (rev r)" using r(2) by (simp add: list_all_iff)
  ultimately show ?thesis using l by (metis append.assoc jq_trim_def option.simps(5))
qed

section \<open>Element sets\<close>

text \<open>
  \<open>eq(i)\<close> is the set of the one element that \<open>get(i)\<close> returns, the one at index \<open>i\<close> or, for a
  negative index, \<open>-i\<close> places from the end, and the empty set when there is none; \<open>end\<close> goes back to
  the set it was called on.
\<close>

theorem eq_is_get:
  "els (jq_eq i this) =
     (if - int (length (els this)) \<le> i \<and> i < int (length (els this))
      then [els this ! nat (if i < 0 then int (length (els this)) + i else i)] else []) \<and>
   jq_get (Some i) this = Inr (case els (jq_eq i this) of [] \<Rightarrow> Undefined | x # _ \<Rightarrow> x) \<and>
   jq_end (jq_eq i this) = this"
proof -
  let ?xs = "els this" and ?n = "length (els this)"
  have one: "drop k (take (Suc k) ?xs) = [?xs ! k]" if "k < ?n" for k
    using that by (simp add: take_Suc_conv_app_nth)
  have e: "els (jq_eq i this) = (if - int ?n \<le> i \<and> i < int ?n
      then [?xs ! nat (if i < 0 then int ?n + i else i)] else [])"
  proof (cases "i < 0")
    case True
    show ?thesis
    proof (cases "- int ?n \<le> i")
      case in_range: True
      let ?k = "nat (int ?n + i)"
      have k: "?k < ?n" using True in_range by linarith
      have "els (jq_eq i this) = drop ?k (take (Suc ?k) ?xs)"
      proof (cases "i = -1")
        case True
        then show ?thesis using k by (simp add: jq_eq_def jq_slice_def pushStack_def array_slice_def js_index_def Let_def)
      next
        case False
        then have "nat (int ?n + (i + 1)) = Suc ?k" "i + 1 < 0" using True in_range by linarith+
        then show ?thesis using True False by (simp add: jq_eq_def jq_slice_def pushStack_def array_slice_def js_index_def Let_def)
      qed
      then show ?thesis using one[OF k] True in_range by simp
    next
      case False
      then show ?thesis
        using True by (auto simp: jq_eq_def jq_slice_def pushStack_def array_slice_def js_index_def Let_def)
    qed
  next
    case False
    then show ?thesis
      using one[of "nat i"]
      by (auto simp: jq_eq_def jq_slice_def pushStack_def array_slice_def js_index_def Let_def nat_add_distrib min_def)
  qed
  moreover have "jq_end (jq_eq i this) = this"
    by (simp add: jq_eq_def jq_slice_def pushStack_def jq_end_def)
  moreover have "jq_get (Some i) this = Inr (case els (jq_eq i this) of [] \<Rightarrow> Undefined | x # _ \<Rightarrow> x)"
    unfolding e by (auto simp: jq_get_def at_index_def)
  ultimately show ?thesis by blast
qed

section \<open>proxy\<close>

definition fns_ok :: "fns \<Rightarrow> bool" where
  "fns_ok s \<longleftrightarrow> 0 < next_guid s \<and> (\<forall>f g. fguid s f = Some g \<longrightarrow> 0 < g \<and> g < next_guid s) \<and>
     (\<forall>f. next_fn s \<le> f \<longrightarrow> fguid s f = None)"

text \<open>
  A proxy and the function it was made from have the same guid (so that the function can be
  unbound through either); a guid given by \<open>proxy\<close> was no other function's, and no other guid
  changes.
\<close>

theorem proxy_shares_guid:
  assumes ok: "fns_ok s" and f: "f < next_fn s" and r: "proxy f ctx args s = (p, s')"
  shows "\<exists>g. guid_of f s' = Some g \<and> guid_of p s' = Some g \<and> fns_ok s' \<and>
    (guid_of f s = Some g \<or> guid_of f s = None \<and> (\<forall>f'. guid_of f' s \<noteq> Some g)) \<and>
    (\<forall>f'. f' \<noteq> f \<longrightarrow> f' \<noteq> p \<longrightarrow> guid_of f' s' = guid_of f' s)"
proof -
  have g0: "guid_of f' s = fguid s f'" for f'
  proof (cases "fguid s f'")
    case (Some g)
    then have "0 < g" using ok by (simp add: fns_ok_def)
    with Some show ?thesis by (cases g) (simp_all add: guid_of_def)
  qed (simp add: guid_of_def)
  show ?thesis
  proof (cases "fguid s f")
    case (Some g)
    then have g: "0 < g" "g < next_guid s" using ok by (auto simp: fns_ok_def)
    have s': "s' = s\<lparr>fguid := (fguid s)(f \<mapsto> g, p \<mapsto> g), bound := (bound s)(p \<mapsto> (f, ctx, args)), next_fn := Suc p\<rparr>"
      and p: "p = next_fn s" using r Some by (auto simp: proxy_def g0 Let_def)
    have "fns_ok s'" using ok f g by (auto simp: fns_ok_def s' p)
    moreover have "guid_of f s' = Some g" "guid_of p s' = Some g" using g by (cases g; simp add: guid_of_def s')+
    moreover have "f' \<noteq> f \<Longrightarrow> f' \<noteq> p \<Longrightarrow> guid_of f' s' = guid_of f' s" for f' by (simp add: guid_of_def s')
    ultimately show ?thesis using Some g0 by auto
  next
    case None
    let ?g = "next_guid s"
    have g: "0 < ?g" using ok by (simp add: fns_ok_def)
    have s': "s' = s\<lparr>fguid := (fguid s)(f \<mapsto> ?g, p \<mapsto> ?g), bound := (bound s)(p \<mapsto> (f, ctx, args)), next_fn := Suc p,
        next_guid := Suc ?g\<rparr>"
      and p: "p = next_fn s" using r None by (auto simp: proxy_def g0 Let_def)
    have "fns_ok s'" using ok f by (auto simp: fns_ok_def s' p less_Suc_eq)
    moreover have "guid_of f s' = Some ?g" "guid_of p s' = Some ?g" using g by (cases ?g; simp add: guid_of_def s')+
    moreover have "f' \<noteq> f \<Longrightarrow> f' \<noteq> p \<Longrightarrow> guid_of f' s' = guid_of f' s" for f' by (simp add: guid_of_def s')
    moreover have "guid_of f' s \<noteq> Some ?g" for f' using ok unfolding g0 by (auto simp: fns_ok_def)
    ultimately show ?thesis using None g0 by auto
  qed
qed

section \<open>The ready event\<close>

definition ready_inv :: "ready_state \<Rightarrow> bool" where
  "ready_inv s \<longleftrightarrow> readyWait s = 1 + int (holds s) - (if isReady s then 1 else 0) \<and>
     map fst (fn_calls s) @ list_fns s = fns_given s \<and> (\<forall>(f, late, h) \<in> set (fn_calls s). late \<or> h = 0) \<and>
     (list_fired s \<longrightarrow> list_fns s = []) \<and> (\<not> list_fired s \<longrightarrow> fn_calls s = []) \<and>
     (isReady s \<and> holds s = 0 \<longrightarrow> list_fired s) \<and> (list_fired s \<longrightarrow> isReady s) \<and>
     (isReady s \<longrightarrow> hasBody s) \<and> (isReady s \<or> 0 < listeners s \<or> 0 < ready_timers s \<longrightarrow> readyList s)"

lemma fn_ready_inv: "ready_inv s \<Longrightarrow> ready_inv (fn_ready f s)"
  unfolding ready_inv_def
  by (elim conjE, cases "list_fired s"; cases "readyList s"; cases "complete s")
    (simp_all add: fn_ready_def bindReady_def Let_def)

text \<open>A ready event, and a release: what is called is called with no hold outstanding.\<close>

lemma ready_event_inv:
  assumes "ready_inv s'" and "readyList s'"
  shows "\<exists>s''. ready False s' = Returned s'' \<and> ready_inv s''"
  using assms unfolding ready_inv_def
  by (elim conjE, cases "isReady s'"; cases "holds s' = 0"; cases "hasBody s'"; cases "list_fired s'")
    (simp_all add: ready_def run_ready_def Let_def comp_def split_beta)

lemma ready_release_inv:
  assumes "ready_inv s" and "0 < holds s"
  shows "\<exists>s''. ready True (s\<lparr>holds := holds s - 1\<rparr>) = Returned s'' \<and> ready_inv s''"
  using assms
  by (cases "isReady s"; cases "holds s = 1"; cases "list_fired s")
    (auto simp: ready_inv_def ready_def run_ready_def Let_def comp_def of_nat_diff)

lemma ready_step_inv:
  assumes i: "ready_inv s" and st: "ready_step s r"
  shows "\<exists>s'. r = Returned s' \<and> ready_inv s'"
  using st
proof (cases rule: ready_step.cases)
  case hold
  then have r: "r = Returned (s\<lparr>readyWait := readyWait s + 1, holds := Suc (holds s)\<rparr>)"
    by (auto simp: holdReady_def)
  show ?thesis unfolding r using i by (cases "isReady s"; cases "list_fired s") (auto simp: ready_inv_def)
next
  case release
  then show ?thesis using ready_release_inv[OF i] by (simp add: holdReady_def)
next
  case bind
  then show ?thesis using fn_ready_inv[OF i] by simp
next
  case listener
  moreover from this i have "ready_inv (s\<lparr>listeners := listeners s - 1\<rparr>)" "readyList s" by (auto simp: ready_inv_def)
  ultimately show ?thesis using ready_event_inv[of "s\<lparr>listeners := listeners s - 1\<rparr>"] by simp
next
  case timer
  moreover from this i have "ready_inv (s\<lparr>ready_timers := ready_timers s - 1\<rparr>)" "readyList s" by (auto simp: ready_inv_def)
  ultimately show ?thesis using ready_event_inv[of "s\<lparr>ready_timers := ready_timers s - 1\<rparr>"] by simp
qed (use i in \<open>auto simp: ready_inv_def\<close>)

text \<open>
  C9: when every release matches a hold and the ready functions return without holding or releasing, nothing throws in any order of
  events; the functions are called once each in the order they were given, the first of them only after the document was ready; one
  that was given before the list fired is never called while a hold is outstanding (one given later is called at once, hold or
  not); and once the document is ready and no hold is outstanding, every function given so far has been called.
\<close>

theorem ready_waits_for_holds:
  assumes "ready_reachable r"
  shows "\<exists>s. r = Returned s \<and> map fst (fn_calls s) @ list_fns s = fns_given s \<and> (fn_calls s \<noteq> [] \<longrightarrow> isReady s \<and> hasBody s) \<and>
    (\<forall>(f, late, h) \<in> set (fn_calls s). late \<or> h = 0) \<and> (isReady s \<and> holds s = 0 \<longrightarrow> map fst (fn_calls s) = fns_given s)"
proof -
  from assms have "\<exists>s. r = Returned s \<and> ready_inv s"
  proof induction
    case start
    show ?case by (simp add: ready_init_def ready_inv_def)
  next
    case (later s r)
    then show ?case using ready_step_inv[of s r] by auto
  qed
  then show ?thesis by (auto simp: ready_inv_def)
qed

section \<open>Witnesses\<close>

definition demo_fns :: fns where
  "demo_fns = \<lparr>fguid = [3 \<mapsto> 5], bound = Map.empty, next_fn = 10, next_guid = 6\<rparr>"

theorem proxy_shares_guid_witness:
  "\<exists>p s' g. proxy 4 Null [] demo_fns = (p, s') \<and> guid_of 4 s' = Some g \<and> guid_of p s' = Some g \<and> guid_of 3 s' = Some 5"
proof -
  obtain p s' where r: "proxy 4 Null [] demo_fns = (p, s')" by fastforce
  then have "p = 10" by (simp add: proxy_def demo_fns_def Let_def split: prod.splits)
  have "fns_ok demo_fns" "4 < next_fn demo_fns" "guid_of 3 demo_fns = Some 5"
    by (auto simp: fns_ok_def demo_fns_def guid_of_def eval_nat_numeral split: if_splits)
  with proxy_shares_guid[OF _ _ r] \<open>p = 10\<close> obtain g where "guid_of 4 s' = Some g" "guid_of p s' = Some g"
    "guid_of 3 s' = guid_of 3 demo_fns" by auto
  with r \<open>guid_of 3 demo_fns = Some 5\<close> show ?thesis by auto
qed

text \<open>A function given before the event, a hold after it, and a function given while the hold is outstanding.\<close>

lemma ready_demo:
  "ready_reachable (Returned (ready_init\<lparr>readyWait := 1, isReady := True, hasBody := True, readyList := True, listeners := 1,
     list_fired := True, fn_calls := [(4, False, 0), (5, True, 1)], fns_given := [4, 5], holds := 1\<rparr>))"
proof -
  let ?s2 = "(fn_ready 4 ready_init)\<lparr>hasBody := True\<rparr>"
  let ?s3 = "ready_init\<lparr>readyWait := 0, isReady := True, hasBody := True, readyList := True, listeners := 1,
     list_fired := True, fn_calls := [(4, False, 0)], fns_given := [4]\<rparr>"
  have "ready_reachable (Returned (fn_ready 4 ready_init))" by (rule ready_reachable.later[OF ready_reachable.start ready_step.bind])
  then have "ready_reachable (Returned ?s2)" by (rule ready_reachable.later[OF _ ready_step.body])
  then have "ready_reachable (ready False (?s2\<lparr>listeners := listeners ?s2 - 1\<rparr>))"
    by (rule ready_reachable.later[OF _ ready_step.listener[OF _ refl]]) (simp add: ready_defs ready_init_def Let_def)
  then have 3: "ready_reachable (Returned ?s3)" by (simp add: ready_defs ready_init_def Let_def)
  have "holdReady True ?s3 = Returned (?s3\<lparr>readyWait := 1\<rparr>)" by (simp add: holdReady_def ready_init_def)
  from ready_reachable.later[OF 3 ready_step.hold[OF this]]
  have "ready_reachable (Returned (fn_ready 5 (?s3\<lparr>readyWait := 1, holds := 1\<rparr>)))"
    by (intro ready_reachable.later[OF _ ready_step.bind]) (simp add: ready_init_def)
  then show ?thesis by (simp add: fn_ready_def bindReady_def Let_def ready_init_def)
qed

theorem ready_waits_for_holds_witness:
  "\<exists>s. ready_reachable (Returned s) \<and> fn_calls s = [(4, False, 0), (5, True, 1)] \<and> map fst (fn_calls s) @ list_fns s = fns_given s \<and> isReady s"
proof -
  let ?s = "ready_init\<lparr>readyWait := 1, isReady := True, hasBody := True, readyList := True, listeners := 1,
     list_fired := True, fn_calls := [(4, False, 0), (5, True, 1)], fns_given := [4, 5], holds := 1\<rparr>"
  have c: "fn_calls ?s = [(4, False, 0), (5, True, 1)]" "isReady ?s" by simp_all
  obtain s where s: "Returned ?s = Returned s" "map fst (fn_calls s) @ list_fns s = fns_given s"
    using ready_waits_for_holds[OF ready_demo] by blast
  then have "s = ?s" by simp
  with s(2) c ready_demo show ?thesis by metis
qed

end
