(* ===== verification/JQ_DOM.thy ===== *)
theory JQ_DOM
  imports JQ_Prelude "HOL-Library.Monad_Syntax"
begin

text \<open>
  The document as the browser code sees it: nodes with an ordered list of children, a parent and a
  type, and the walks over it in jquery-1.6.4.js that do not need selectors: \<open>dir\<close>, \<open>nth\<close>,
  \<open>sibling\<close>, the comparison of positions used to sort element sets, and \<open>getText\<close>. The loops follow
  references from node to node and end when there is none; they are partial functions, whose value
  \<open>None\<close> is a loop that does not end.
\<close>

section \<open>Documents\<close>

record dom =
  childNodes :: "nat \<Rightarrow> nat list"
  parentNode :: "nat \<Rightarrow> nat option"
  ntype :: "nat \<Rightarrow> nat"
  nodeValue :: "nat \<Rightarrow> string"

abbreviation is_element :: "dom \<Rightarrow> nat \<Rightarrow> bool" where
  "is_element d n \<equiv> ntype d n = 1"

text \<open>
  Parents and children agree, no node is listed twice, and a depth grows from a parent to its
  children, so that there is no cycle.
\<close>

definition dom_inv :: "dom \<Rightarrow> bool" where
  "dom_inv d \<longleftrightarrow> (\<forall>c p. parentNode d c = Some p \<longleftrightarrow> c \<in> set (childNodes d p)) \<and>
     (\<forall>p. distinct (childNodes d p)) \<and>
     (\<exists>depth :: nat \<Rightarrow> nat. \<forall>c p. parentNode d c = Some p \<longrightarrow> depth p < depth c)"

definition before :: "nat \<Rightarrow> nat list \<Rightarrow> nat list" where
  "before c xs = takeWhile (\<lambda>x. x \<noteq> c) xs"

definition after :: "nat \<Rightarrow> nat list \<Rightarrow> nat list" where
  "after c xs = drop 1 (dropWhile (\<lambda>x. x \<noteq> c) xs)"

definition head :: "nat list \<Rightarrow> nat option" where
  "head xs = (case xs of [] \<Rightarrow> None | x # _ \<Rightarrow> Some x)"

definition firstChild :: "dom \<Rightarrow> nat \<Rightarrow> nat option" where
  "firstChild d n = head (childNodes d n)"

definition siblings_of :: "dom \<Rightarrow> nat \<Rightarrow> nat list" where
  "siblings_of d c = (case parentNode d c of None \<Rightarrow> [c] | Some p \<Rightarrow> childNodes d p)"

definition nextSibling :: "dom \<Rightarrow> nat \<Rightarrow> nat option" where
  "nextSibling d c = head (after c (siblings_of d c))"

definition previousSibling :: "dom \<Rightarrow> nat \<Rightarrow> nat option" where
  "previousSibling d c = head (rev (before c (siblings_of d c)))"

section \<open>Walks\<close>

text \<open>The loop \<open>while (cur && !stop(cur)) { ...; cur = cur[dir] }\<close>: the nodes it visits.\<close>

partial_function (option) visit :: "(nat \<Rightarrow> nat option) \<Rightarrow> (nat \<Rightarrow> bool) \<Rightarrow> nat option \<Rightarrow> nat list option" where
  "visit nxt stop cur = (case cur of None \<Rightarrow> Some [] | Some c \<Rightarrow>
     if stop c then Some [] else do { rest \<leftarrow> visit nxt stop (nxt c); Some (c # rest) })"

text \<open>The loop that stops at the first node with a property, and where it stops.\<close>

partial_function (option) seek :: "(nat \<Rightarrow> nat option) \<Rightarrow> (nat \<Rightarrow> bool) \<Rightarrow> nat option \<Rightarrow> nat option option" where
  "seek nxt P cur = (case cur of None \<Rightarrow> Some None | Some c \<Rightarrow>
     if P c then Some (Some c) else seek nxt P (nxt c))"

text \<open>\<open>jQuery.dir\<close>; \<open>until\<close> is the test \<open>jQuery(cur).is(until)\<close> when there is one.\<close>

definition jq_dir :: "dom \<Rightarrow> (nat \<Rightarrow> nat option) \<Rightarrow> (nat \<Rightarrow> bool) option \<Rightarrow> nat \<Rightarrow> nat list option" where
  "jq_dir d nxt until elem =
     do { cs \<leftarrow> visit nxt (\<lambda>c. ntype d c = 9 \<or> (case until of None \<Rightarrow> False | Some u \<Rightarrow> is_element d c \<and> u c)) (nxt elem);
          Some (filter (is_element d) cs) }"

text \<open>\<open>jQuery.nth\<close>: the \<open>result\<close>-th element from \<open>cur\<close> on, \<open>cur\<close> included.\<close>

partial_function (option) nth_loop :: "dom \<Rightarrow> (nat \<Rightarrow> nat option) \<Rightarrow> nat \<Rightarrow> nat \<Rightarrow> nat option \<Rightarrow> nat option option" where
  "nth_loop d nxt result num cur = (case cur of None \<Rightarrow> Some None | Some c \<Rightarrow>
     if is_element d c \<and> Suc num = result then Some (Some c)
     else nth_loop d nxt result (if is_element d c then Suc num else num) (nxt c))"

definition jq_nth :: "dom \<Rightarrow> nat \<Rightarrow> nat \<Rightarrow> (nat \<Rightarrow> nat option) \<Rightarrow> nat option option" where
  "jq_nth d cur result nxt = nth_loop d nxt (if result = 0 then 1 else result) 0 (Some cur)"

definition jq_sibling :: "dom \<Rightarrow> nat option \<Rightarrow> nat option \<Rightarrow> nat list option" where
  "jq_sibling d n elem =
     do { cs \<leftarrow> visit (nextSibling d) (\<lambda>_. False) n; Some (filter (\<lambda>c. is_element d c \<and> Some c \<noteq> elem) cs) }"

section \<open>Document positions\<close>

text \<open>\<open>siblingCheck\<close>: -1 when \<open>b\<close> is among the next siblings of \<open>a\<close>.\<close>

definition siblingCheck :: "dom \<Rightarrow> nat \<Rightarrow> nat \<Rightarrow> int \<Rightarrow> int option" where
  "siblingCheck d a b ret =
     (if a = b then Some ret
      else do { r \<leftarrow> seek (nextSibling d) (\<lambda>c. c = b) (nextSibling d a);
                Some (case r of Some _ \<Rightarrow> -1 | None \<Rightarrow> 1) })"

text \<open>The loop that looks for the first difference of two lists of parents.\<close>

fun split_point :: "nat list \<Rightarrow> nat list \<Rightarrow> nat" where
  "split_point (x # xs) (y # ys) = (if x = y then Suc (split_point xs ys) else 0)"
| "split_point _ _ = 0"

text \<open>
  The walk of \<open>sortOrder\<close> where the browser has no \<open>compareDocumentPosition\<close>. The last
  comparison is reached with an index that both lists of parents have, unless one node is above
  the other.
\<close>

definition compare_walk :: "dom \<Rightarrow> nat \<Rightarrow> nat \<Rightarrow> int option" where
  "compare_walk d a b =
     (if parentNode d a = parentNode d b then siblingCheck d a b 0
      else if parentNode d a = None then Some (-1)
      else if parentNode d b = None then Some 1
      else do {
        as \<leftarrow> visit (parentNode d) (\<lambda>_. False) (parentNode d a);
        bs \<leftarrow> visit (parentNode d) (\<lambda>_. False) (parentNode d b);
        let ap = rev as; let bp = rev bs; let i = split_point ap bp;
        if i < length ap \<and> i < length bp then siblingCheck d (ap ! i) (bp ! i) 0
        else if i = length ap then siblingCheck d a (bp ! i) (-1)
        else siblingCheck d (ap ! i) b 1 })"

text \<open>\<open>sortOrder\<close>; \<open>src\<close> gives the \<open>sourceIndex\<close> of a node, 0 where the browser has none.\<close>

definition sortOrder :: "(nat \<Rightarrow> int) \<Rightarrow> dom \<Rightarrow> nat \<Rightarrow> nat \<Rightarrow> int option" where
  "sortOrder src d a b =
     (if a = b then Some 0
      else if src a \<noteq> 0 \<and> src b \<noteq> 0 then Some (src a - src b)
      else compare_walk d a b)"

text \<open>\<open>uniqueSort\<close>: sort by position (the host's sort, given the positions), then drop repetitions.\<close>

fun drop_repeats :: "nat list \<Rightarrow> nat list" where
  "drop_repeats (x # y # xs) = (if x = y then drop_repeats (x # xs) else x # drop_repeats (y # xs))"
| "drop_repeats xs = xs"

definition uniqueSort :: "(nat \<Rightarrow> nat) \<Rightarrow> nat list \<Rightarrow> nat list" where
  "uniqueSort pos results = drop_repeats (sort_key pos results)"

section \<open>Text\<close>

text \<open>\<open>getText\<close>, with fuel for the depth of the tree.\<close>

fun getText :: "nat \<Rightarrow> dom \<Rightarrow> nat list \<Rightarrow> string option" where
  "getText fuel d [] = Some []"
| "getText 0 d (e # es) = None"
| "getText (Suc n) d (e # es) =
     do { t \<leftarrow> (if ntype d e = 3 \<or> ntype d e = 4 then Some (nodeValue d e)
               else if ntype d e \<noteq> 8 then getText n d (childNodes d e) else Some []);
          ts \<leftarrow> getText (Suc n) d es; Some (t @ ts) }"

section \<open>Chains\<close>

inductive chain :: "(nat \<Rightarrow> nat option) \<Rightarrow> nat option \<Rightarrow> nat list \<Rightarrow> bool" for nxt where
  stop: "chain nxt None []"
| go: "chain nxt (nxt c) xs \<Longrightarrow> chain nxt (Some c) (c # xs)"

inductive_simps chain_simps: "chain nxt None xs" "chain nxt (Some c) xs" "chain nxt cur (x # xs)" "chain nxt cur []"

declare visit.simps [code] seek.simps [code] nth_loop.simps [code]

lemma visit_chain: "chain nxt cur xs \<Longrightarrow> visit nxt stop cur = Some (takeWhile (\<lambda>c. \<not> stop c) xs)"
proof (induction rule: chain.induct)
  case stop
  show ?case by (simp add: visit.simps)
next
  case (go c xs)
  then show ?case by (subst visit.simps) simp
qed

lemma seek_chain: "chain nxt cur xs \<Longrightarrow> seek nxt P cur = Some (find P xs)"
proof (induction rule: chain.induct)
  case stop
  show ?case by (simp add: seek.simps)
next
  case (go c xs)
  then show ?case by (subst seek.simps) simp
qed

lemma dom_invD:
  assumes "dom_inv d"
  shows "parentNode d c = Some p \<longleftrightarrow> c \<in> set (childNodes d p)" and "distinct (childNodes d p)"
  using assms unfolding dom_inv_def by blast+

lemma in_siblings: "dom_inv d \<Longrightarrow> c \<in> set (siblings_of d c)"
  using dom_invD(1) by (auto simp: siblings_of_def split: option.split)

lemma distinct_siblings: "dom_inv d \<Longrightarrow> distinct (siblings_of d c)"
  using dom_invD(2) by (simp add: siblings_of_def split: option.split)

lemma siblings_same: "dom_inv d \<Longrightarrow> c' \<in> set (siblings_of d c) \<Longrightarrow> siblings_of d c' = siblings_of d c"
proof (cases "parentNode d c")
  case (Some p)
  assume d: "dom_inv d" and c: "c' \<in> set (siblings_of d c)"
  with Some have "c' \<in> set (childNodes d p)" by (simp add: siblings_of_def)
  then have "parentNode d c' = Some p" using dom_invD(1)[OF d] by blast
  with Some show ?thesis by (simp add: siblings_of_def)
qed (simp add: siblings_of_def)

lemma before_after: "c \<in> set xs \<Longrightarrow> xs = before c xs @ c # after c xs"
proof -
  assume "c \<in> set xs"
  then have "dropWhile (\<lambda>x. x \<noteq> c) xs = c # after c xs"
    by (induction xs) (auto simp: after_def)
  then show ?thesis unfolding before_def by (metis takeWhile_dropWhile_id)
qed

lemma split_before_after:
  "distinct (us @ c # vs) \<Longrightarrow> before c (us @ c # vs) = us \<and> after c (us @ c # vs) = vs"
  by (induction us) (auto simp: before_def after_def)

lemma chain_next_list:
  assumes d: "dom_inv d" and s: "siblings_of d c = us @ vs"
  shows "chain (nextSibling d) (head vs) vs"
  using s
proof (induction vs arbitrary: us)
  case Nil
  show ?case by (simp add: head_def chain.stop)
next
  case (Cons v vs)
  have "v \<in> set (siblings_of d c)" using Cons.prems by simp
  then have "siblings_of d v = us @ v # vs" using siblings_same[OF d, of v c] Cons.prems by simp
  moreover have "distinct (us @ v # vs)" using distinct_siblings[OF d, of c] Cons.prems by simp
  ultimately have "nextSibling d v = head vs" using split_before_after by (simp add: nextSibling_def)
  moreover have "chain (nextSibling d) (head vs) vs" using Cons.IH[of "us @ [v]"] Cons.prems by simp
  ultimately show ?case by (simp add: head_def chain.go)
qed

lemma chain_prev_list:
  assumes d: "dom_inv d" and s: "siblings_of d c = us @ vs"
  shows "chain (previousSibling d) (head (rev us)) (rev us)"
  using s
proof (induction us arbitrary: vs rule: rev_induct)
  case Nil
  show ?case by (simp add: head_def chain.stop)
next
  case (snoc u us)
  have "u \<in> set (siblings_of d c)" using snoc.prems by simp
  then have "siblings_of d u = us @ u # vs" using siblings_same[OF d, of u c] snoc.prems by simp
  moreover have "distinct (us @ u # vs)" using distinct_siblings[OF d, of c] snoc.prems by simp
  ultimately have "previousSibling d u = head (rev us)" using split_before_after by (simp add: previousSibling_def)
  moreover have "chain (previousSibling d) (head (rev us)) (rev us)" using snoc.IH[of "u # vs"] snoc.prems by simp
  ultimately show ?case by (simp add: head_def chain.go)
qed

lemma chain_next: "dom_inv d \<Longrightarrow> chain (nextSibling d) (nextSibling d c) (after c (siblings_of d c))"
  using chain_next_list[of d c "before c (siblings_of d c) @ [c]" "after c (siblings_of d c)"]
    before_after[OF in_siblings] by (simp add: nextSibling_def)

lemma chain_prev: "dom_inv d \<Longrightarrow> chain (previousSibling d) (previousSibling d c) (rev (before c (siblings_of d c)))"
  using chain_prev_list[of d c "before c (siblings_of d c)" "c # after c (siblings_of d c)"]
    before_after[OF in_siblings] by (simp add: previousSibling_def)

lemma chain_children: "dom_inv d \<Longrightarrow> chain (nextSibling d) (firstChild d p) (childNodes d p)"
proof (cases "childNodes d p")
  case Nil
  then show ?thesis by (simp add: firstChild_def head_def chain.stop)
next
  case (Cons c cs)
  assume d: "dom_inv d"
  have "parentNode d c = Some p" using Cons dom_invD(1)[OF d] by simp
  then have "siblings_of d c = [] @ childNodes d p" by (simp add: siblings_of_def)
  from chain_next_list[OF d this] show ?thesis by (simp add: firstChild_def)
qed

lemma chain_parents_ex: "dom_inv d \<Longrightarrow> \<exists>xs. chain (parentNode d) (parentNode d c) xs"
proof -
  assume "dom_inv d"
  then obtain depth :: "nat \<Rightarrow> nat" where dp: "\<And>c p. parentNode d c = Some p \<Longrightarrow> depth p < depth c"
    unfolding dom_inv_def by blast
  show ?thesis
  proof (induction "depth c" arbitrary: c rule: less_induct)
    case less
    show ?case
    proof (cases "parentNode d c")
      case None
      then show ?thesis by (auto intro: chain.stop)
    next
      case (Some p)
      then obtain xs where "chain (parentNode d) (parentNode d p) xs" using less dp by blast
      with Some show ?thesis by (auto intro: chain.go)
    qed
  qed
qed

lemma chain_unique: "chain nxt cur xs \<Longrightarrow> chain nxt cur ys \<Longrightarrow> xs = ys"
proof (induction arbitrary: ys rule: chain.induct)
  case stop
  then show ?case by (simp add: chain_simps)
next
  case (go c xs)
  from go.prems obtain zs where "ys = c # zs" "chain nxt (nxt c) zs" by (auto simp: chain_simps)
  with go.IH show ?case by blast
qed

section \<open>sortOrder is document order\<close>

text \<open>
  Document order on the paths from the root: a node comes before those below it, and two nodes that
  are not above one another are ordered as the children where their paths part.
\<close>

fun path_less :: "dom \<Rightarrow> nat list \<Rightarrow> nat list \<Rightarrow> bool" where
  "path_less d xs [] = False"
| "path_less d [] (y # ys) = True"
| "path_less d (x # xs) (y # ys) = (if x = y then path_less d xs ys else y \<in> set (after x (siblings_of d x)))"

lemma path_less_prefix: "path_less d (cs @ xs) (cs @ ys) = path_less d xs ys"
  by (induction cs) simp_all

lemma siblingCheck_after:
  assumes "dom_inv d" and "a \<noteq> b"
  shows "siblingCheck d a b r = Some (if b \<in> set (after a (siblings_of d a)) then -1 else 1)"
proof -
  have "seek (nextSibling d) (\<lambda>c. c = b) (nextSibling d a) = Some (find (\<lambda>c. c = b) (after a (siblings_of d a)))"
    by (rule seek_chain[OF chain_next[OF assms(1)]])
  with assms(2) show ?thesis
    by (cases "find (\<lambda>c. c = b) (after a (siblings_of d a))")
      (auto simp: siblingCheck_def find_None_iff find_Some_iff)
qed

lemma split_point_props:
  "split_point xs ys \<le> length xs" "split_point xs ys \<le> length ys"
  "take (split_point xs ys) xs = take (split_point xs ys) ys"
  "split_point xs ys < length xs \<Longrightarrow> split_point xs ys < length ys \<Longrightarrow> xs ! split_point xs ys \<noteq> ys ! split_point xs ys"
  by (induction xs ys rule: split_point.induct) auto

lemma visit_parents: "chain (parentNode d) cur xs \<Longrightarrow> visit (parentNode d) (\<lambda>_. False) cur = Some xs"
  using visit_chain[of "parentNode d" cur xs "\<lambda>_. False"] by (simp add: takeWhile_eq_all_conv[THEN iffD2])

lemma path_less_at:
  assumes "take i xs = take i ys" and "i < length xs" and "i < length ys"
  shows "path_less d xs ys = (if xs ! i = ys ! i then path_less d (drop (Suc i) xs) (drop (Suc i) ys)
    else ys ! i \<in> set (after (xs ! i) (siblings_of d (xs ! i))))"
proof -
  have "xs = take i xs @ xs ! i # drop (Suc i) xs" "ys = take i xs @ ys ! i # drop (Suc i) ys"
    using id_take_nth_drop[OF assms(2)] id_take_nth_drop[OF assms(3)] assms(1) by metis+
  then show ?thesis using path_less_prefix by (metis path_less.simps(3))
qed

lemma path_less_end: "xs \<noteq> [] \<Longrightarrow> path_less d [] xs" "\<not> path_less d xs []"
  by (cases xs) simp_all

lemma compare_deep:
  assumes d: "dom_inv d" and ne: "a \<noteq> b" and dif: "ap \<noteq> bp"
  shows "(let i = split_point ap bp
    in if i < length ap \<and> i < length bp then siblingCheck d (ap ! i) (bp ! i) 0
       else if i = length ap then siblingCheck d a (bp ! i) (-1)
       else siblingCheck d (ap ! i) b 1) =
    Some (if path_less d (ap @ [a]) (bp @ [b]) then -1 else 1)"
proof -
  let ?i = "split_point ap bp" and ?xs = "ap @ [a]" and ?ys = "bp @ [b]"
  note sp = split_point_props[where xs = ap and ys = bp]
  have t: "take ?i ?xs = take ?i ?ys" using sp(1,2,3) by simp
  have at: "path_less d ?xs ?ys = (if ?xs ! ?i = ?ys ! ?i then path_less d (drop (Suc ?i) ?xs) (drop (Suc ?i) ?ys)
    else ?ys ! ?i \<in> set (after (?xs ! ?i) (siblings_of d (?xs ! ?i))))"
    by (rule path_less_at[OF t]) (use sp(1,2) in simp_all)
  consider (both) "?i < length ap" "?i < length bp" | (above) "?i = length ap" "?i < length bp"
    | (below) "?i < length ap" "?i = length bp"
    using sp dif by (metis le_neq_implies_less take_all_iff order.refl)
  then show ?thesis
  proof cases
    case both
    then have "ap ! ?i \<noteq> bp ! ?i" using sp(4) by blast
    then show ?thesis using both siblingCheck_after[OF d] at by (simp add: Let_def nth_append)
  next
    case above
    show ?thesis
    proof (cases "a = bp ! ?i")
      case True
      have "path_less d ?xs ?ys" using above True at by (simp add: nth_append path_less_end)
      then show ?thesis using above True by (simp add: siblingCheck_def)
    next
      case False
      then show ?thesis using above siblingCheck_after[OF d False] at by (simp add: Let_def nth_append)
    qed
  next
    case below
    show ?thesis
    proof (cases "ap ! ?i = b")
      case True
      have "\<not> path_less d ?xs ?ys" using below True at by (simp add: nth_append path_less_end)
      then show ?thesis using below True by (simp add: siblingCheck_def)
    next
      case False
      then show ?thesis using below siblingCheck_after[OF d False] at by (simp add: Let_def nth_append)
    qed
  qed
qed

lemma compare_path:
  assumes d: "dom_inv d" and ne: "a \<noteq> b"
    and as: "chain (parentNode d) (Some a) as" and bs: "chain (parentNode d) (Some b) bs"
    and root: "last as = last bs"
  shows "compare_walk d a b = Some (if path_less d (rev as) (rev bs) then -1 else 1)"
proof -
  obtain as' bs' where as': "as = a # as'" "chain (parentNode d) (parentNode d a) as'"
    and bs': "bs = b # bs'" "chain (parentNode d) (parentNode d b) bs'"
    using as bs by (auto simp: chain_simps)
  consider (sib) "parentNode d a = parentNode d b" | (atop) "parentNode d a = None" "parentNode d b \<noteq> None"
    | (btop) "parentNode d a \<noteq> None" "parentNode d b = None"
    | (deep) "parentNode d a \<noteq> parentNode d b" "parentNode d a \<noteq> None" "parentNode d b \<noteq> None"
    by metis
  then show ?thesis
  proof cases
    case sib
    then have "as' = bs'" using as'(2) bs'(2) chain_unique by metis
    then have "path_less d (rev as) (rev bs) = (b \<in> set (after a (siblings_of d a)))"
      using ne as'(1) bs'(1) by (simp add: path_less_prefix)
    then show ?thesis using sib ne siblingCheck_after[OF d ne] by (simp add: compare_walk_def)
  next
    case atop
    then have "as' = []" using as'(2) by (auto simp: chain_simps)
    then have "last bs' = a" "bs' \<noteq> []" using root as'(1) bs'(1) ne by (auto split: if_splits)
    then have "rev bs = [a] @ rev (butlast bs') @ [b]" using bs'(1) by (metis append_butlast_last_id rev.simps(2) rev_append rev_singleton_conv append.assoc rev_rev_ident)
    moreover have "rev as = [a]" using as'(1) \<open>as' = []\<close> by simp
    ultimately have "path_less d (rev as) (rev bs)" by (simp add: path_less_end)
    then show ?thesis using atop ne by (auto simp: compare_walk_def)
  next
    case btop
    then have "bs' = []" using bs'(2) by (auto simp: chain_simps)
    then have "last as' = b" "as' \<noteq> []" using root as'(1) bs'(1) ne by (auto split: if_splits)
    then have "rev as = [b] @ rev (butlast as') @ [a]" using as'(1) by (metis append_butlast_last_id rev.simps(2) rev_append rev_singleton_conv append.assoc rev_rev_ident)
    moreover have "rev bs = [b]" using bs'(1) \<open>bs' = []\<close> by simp
    ultimately have "\<not> path_less d (rev as) (rev bs)" by (simp add: path_less_end)
    then show ?thesis using btop ne by (auto simp: compare_walk_def)
  next
    case deep
    have "as' \<noteq> bs'"
    proof
      assume "as' = bs'"
      with as'(2) bs'(2) deep(2,3) have "parentNode d a = parentNode d b"
        by (cases as') (auto simp: chain_simps)
      with deep(1) show False by simp
    qed
    then have "rev as' \<noteq> rev bs'" by simp
    from compare_deep[OF d ne this] show ?thesis
      using deep ne visit_parents[OF as'(2)] visit_parents[OF bs'(2)] as'(1) bs'(1)
      by (simp add: compare_walk_def Let_def)
  qed
qed

fun linked :: "dom \<Rightarrow> nat list \<Rightarrow> bool" where
  "linked d (x # y # zs) = (parentNode d y = Some x \<and> linked d (y # zs))"
| "linked d _ = True"

lemma linked_snoc: "linked d (xs @ [y]) \<Longrightarrow> parentNode d z = Some y \<Longrightarrow> linked d (xs @ [y, z])"
  by (induction d xs rule: linked.induct) simp_all

lemma chain_linked: "chain (parentNode d) cur xs \<Longrightarrow> linked d (rev xs)"
proof (induction rule: chain.induct)
  case (go c xs)
  show ?case
  proof (cases xs)
    case (Cons p ps)
    then have "parentNode d c = Some p" using go.hyps by (auto simp: chain_simps)
    with go.IH Cons show ?thesis using linked_snoc[of d "rev ps" p c] by simp
  qed simp
qed simp

lemma after_flip: "distinct xs \<Longrightarrow> u \<in> set xs \<Longrightarrow> v \<in> set xs \<Longrightarrow> u \<noteq> v \<Longrightarrow>
  (v \<in> set (after u xs)) = (u \<notin> set (after v xs))"
proof (induction xs)
  case (Cons x xs)
  have c: "after w (x # xs) = (if w = x then xs else after w xs)" for w by (simp add: after_def)
  have sub: "set (after w xs) \<subseteq> set xs" for w
    by (auto simp: after_def dest: in_set_dropD set_dropWhileD)
  show ?case
  proof (cases "u = x \<or> v = x")
    case True
    with Cons.prems sub show ?thesis by (auto simp: c)
  next
    case False
    with Cons show ?thesis by (simp add: c)
  qed
qed simp

lemma path_less_flip:
  assumes d: "dom_inv d"
  shows "linked d (x # xs) \<Longrightarrow> linked d (x # ys) \<Longrightarrow> xs \<noteq> ys \<Longrightarrow> path_less d (x # ys) (x # xs) = (\<not> path_less d (x # xs) (x # ys))"
proof (induction xs arbitrary: x ys)
  case Nil
  then show ?case by (cases ys) simp_all
next
  case (Cons x' xs)
  show ?case
  proof (cases ys)
    case (Cons y' ys')
    show ?thesis
    proof (cases "x' = y'")
      case True
      with Cons Cons.prems Cons.IH[of x' ys'] show ?thesis by simp
    next
      case False
      have p: "parentNode d x' = Some x" "parentNode d y' = Some x" using Cons Cons.prems by simp_all
      then have sb: "siblings_of d x' = childNodes d x" "siblings_of d y' = childNodes d x"
        by (simp_all add: siblings_of_def)
      have m: "x' \<in> set (childNodes d x)" "y' \<in> set (childNodes d x)"
        using p dom_invD(1)[OF d] by blast+
      have "y' \<in> set (after x' (siblings_of d x')) \<longleftrightarrow> x' \<notin> set (after y' (siblings_of d y'))"
        unfolding sb by (rule after_flip[OF dom_invD(2)[OF d] m False])
      then show ?thesis using Cons False by simp
    qed
  qed simp
qed

text \<open>
  C12: for two nodes of one tree, \<open>sortOrder\<close> returns a number that is negative exactly when the first node comes before the
  second in document order, and never 0; swapping the nodes negates it; and it is -1 or 1 unless both nodes have a source index
  (then it is the difference, and source indices are assumed to grow in document order).
\<close>

theorem sortOrder_is_document_order:
  assumes d: "dom_inv d" and ne: "a \<noteq> b"
    and as: "chain (parentNode d) (Some a) as" and bs: "chain (parentNode d) (Some b) bs"
    and root: "last as = last bs"
    and src: "src a \<noteq> 0 \<and> src b \<noteq> 0 \<longrightarrow> src a \<noteq> src b \<and> (src a < src b) = path_less d (rev as) (rev bs)"
  shows "\<exists>r. sortOrder src d a b = Some r \<and> (r < 0) = path_less d (rev as) (rev bs) \<and> r \<noteq> 0 \<and>
    sortOrder src d b a = Some (- r) \<and> (src a = 0 \<or> src b = 0 \<longrightarrow> \<bar>r\<bar> = 1)"
proof -
  obtain as' bs' where as': "as = a # as'" and bs': "bs = b # bs'"
    using as bs by (auto simp: chain_simps)
  have "rev as = last as # rev (butlast as)" "rev bs = last as # rev (butlast bs)"
    using as' bs' root by (metis append_butlast_last_id list.distinct(1) rev_eq_Cons_iff rev_rev_ident)+
  then obtain r xs ys where xs: "rev as = r # xs" "rev bs = r # ys" by blast
  have "xs \<noteq> ys"
  proof
    assume "xs = ys"
    with xs have "as = bs" by (metis rev_rev_ident)
    with as' bs' ne show False by simp
  qed
  then have "path_less d (rev bs) (rev as) = (\<not> path_less d (rev as) (rev bs))"
    using path_less_flip[OF d] chain_linked[OF as] chain_linked[OF bs] xs by metis
  with compare_path[OF d ne as bs root] compare_path[OF d ne[symmetric] bs as root[symmetric]] src
  show ?thesis by (cases "src a \<noteq> 0 \<and> src b \<noteq> 0") (auto simp: sortOrder_def ne ne[symmetric])
qed

lemma uniqueSort_set: "set (uniqueSort pos xs) = set xs"
proof -
  have "set (drop_repeats ys) = set ys" for ys
    by (induction ys rule: drop_repeats.induct) auto
  then show ?thesis by (simp add: uniqueSort_def)
qed

lemma uniqueSort_distinct:
  assumes "inj_on pos (set xs)"
  shows "distinct (uniqueSort pos xs) \<and> sorted (map pos (uniqueSort pos xs))"
proof -
  have s: "set (drop_repeats ys) = set ys" for ys
    by (induction ys rule: drop_repeats.induct) auto
  have "distinct (drop_repeats ys) \<and> sorted (map pos (drop_repeats ys))"
    if "sorted (map pos ys)" "inj_on pos (set ys)" for ys
    using that
  proof (induction ys rule: drop_repeats.induct)
    case (1 x y xs)
    show ?case
    proof (cases "x = y")
      case False
      have "pos x \<noteq> pos y" using 1(4) False by (auto dest: inj_onD)
      then have "\<forall>z\<in>set (y # xs). pos x < pos z" using 1(3) by auto
      moreover have "inj_on pos (set (y # xs))" using 1(4) by (auto simp: inj_on_def)
      moreover have "sorted (map pos (y # xs))" using 1(3) by simp
      ultimately show ?thesis using False 1(2) s[of "y # xs"] by (auto simp: less_imp_le)
    qed (use 1 in \<open>simp add: insert_absorb\<close>)
  qed simp_all
  from this[of "sort_key pos xs"] show ?thesis using assms by (simp add: uniqueSort_def)
qed

section \<open>Siblings\<close>

lemma jq_dir_next:
  "dom_inv d \<Longrightarrow> \<forall>s\<in>set (siblings_of d c). ntype d s \<noteq> 9 \<Longrightarrow>
    jq_dir d (nextSibling d) None c = Some (filter (is_element d) (after c (siblings_of d c)))"
proof -
  assume d: "dom_inv d" and t: "\<forall>s\<in>set (siblings_of d c). ntype d s \<noteq> 9"
  have "set (after c (siblings_of d c)) \<subseteq> set (siblings_of d c)"
    by (auto simp: after_def dest: in_set_dropD set_dropWhileD)
  then have "\<forall>x\<in>set (after c (siblings_of d c)). ntype d x \<noteq> 9" using t by blast
  then show ?thesis using visit_chain[OF chain_next[OF d]]
    by (simp add: jq_dir_def takeWhile_eq_all_conv[THEN iffD2])
qed

lemma jq_dir_prev:
  "dom_inv d \<Longrightarrow> \<forall>s\<in>set (siblings_of d c). ntype d s \<noteq> 9 \<Longrightarrow>
    jq_dir d (previousSibling d) None c = Some (filter (is_element d) (rev (before c (siblings_of d c))))"
proof -
  assume d: "dom_inv d" and t: "\<forall>s\<in>set (siblings_of d c). ntype d s \<noteq> 9"
  have "set (before c (siblings_of d c)) \<subseteq> set (siblings_of d c)"
    by (auto simp: before_def dest: set_takeWhileD)
  then have "\<forall>x\<in>set (rev (before c (siblings_of d c))). ntype d x \<noteq> 9" using t by auto
  then show ?thesis using visit_chain[OF chain_prev[OF d]]
    by (simp add: jq_dir_def takeWhile_eq_all_conv[THEN iffD2])
qed

lemma jq_sibling_children:
  "dom_inv d \<Longrightarrow> jq_sibling d (firstChild d p) e = Some (filter (\<lambda>c. is_element d c \<and> Some c \<noteq> e) (childNodes d p))"
  using visit_chain[OF chain_children, of d "\<lambda>_. False" p]
  by (simp add: jq_sibling_def takeWhile_eq_all_conv[THEN iffD2])

section \<open>Witness\<close>

text \<open>A root 0 with the children 1 and 2, and 3 below 1.\<close>

definition demo_tree :: dom where
  "demo_tree = \<lparr>childNodes = (\<lambda>n. if n = 0 then [1, 2] else if n = 1 then [3] else []),
     parentNode = (\<lambda>n. if n = 1 \<or> n = 2 then Some 0 else if n = 3 then Some 1 else None),
     ntype = (\<lambda>n. 1), nodeValue = (\<lambda>n. [])\<rparr>"

lemma demo_tree_inv: "dom_inv demo_tree"
  by (auto simp: dom_inv_def demo_tree_def intro!: exI[of _ id])

theorem sortOrder_is_document_order_witness:
  "sortOrder (\<lambda>n. 0) demo_tree 3 2 = Some (-1) \<and> sortOrder (\<lambda>n. 0) demo_tree 2 3 = Some 1 \<and>
    (\<exists>r. sortOrder (\<lambda>n. if n = 2 then 9 else int n + 1) demo_tree 3 2 = Some r \<and> r < 0)"
proof -
  have c: "chain (parentNode demo_tree) (Some 3) [3, 1, 0]" "chain (parentNode demo_tree) (Some 2) [2, 0]"
    by (simp_all add: chain_simps) (simp_all add: demo_tree_def chain_simps)
  have pl: "path_less demo_tree (rev [3, 1, 0]) (rev [2, 0])"
    by (simp add: siblings_of_def after_def) (simp add: demo_tree_def)
  from sortOrder_is_document_order[OF demo_tree_inv _ c, of "\<lambda>n. 0"] pl
  have "sortOrder (\<lambda>n. 0) demo_tree 3 2 = Some (-1) \<and> sortOrder (\<lambda>n. 0) demo_tree 2 3 = Some 1" by (auto simp: abs_if)
  moreover from sortOrder_is_document_order[OF demo_tree_inv _ c, of "\<lambda>n. if n = 2 then 9 else int n + 1"] pl
  have "\<exists>r. sortOrder (\<lambda>n. if n = 2 then 9 else int n + 1) demo_tree 3 2 = Some r \<and> r < 0" by auto
  ultimately show ?thesis by blast
qed

end
