(* ===== verification/JQ_Traverse.thy ===== *)
theory JQ_Traverse
  imports JQ_DOM "HOL-Library.Multiset"
begin

text \<open>
  The traversing methods of jquery-1.6.4.js on a document: \<open>filter\<close>, \<open>not\<close>, \<open>is\<close>, \<open>find\<close>, \<open>has\<close>,
  \<open>closest\<close>, \<open>index\<close>, \<open>add\<close> and the family built from \<open>dir\<close>, \<open>nth\<close> and \<open>sibling\<close>. The selector
  engine is a parameter; a method is given the elements of its set and returns those of the new one
  (the bookkeeping of sets is in \<open>JQ_Util\<close>).
\<close>

section \<open>Selectors and filters\<close>

record engine =
  matchesSelector :: "nat \<Rightarrow> string \<Rightarrow> bool"
  matches :: "string \<Rightarrow> nat list \<Rightarrow> nat list"
  query :: "string \<Rightarrow> nat option \<Rightarrow> nat list" \<comment> \<open>\<open>jQuery(selector, context)\<close>\<close>
  find_into :: "string \<Rightarrow> nat \<Rightarrow> nat list \<Rightarrow> nat list" \<comment> \<open>\<open>Sizzle(selector, context, results)\<close>: the new results\<close>
  positional :: "string \<Rightarrow> bool" \<comment> \<open>\<open>POS.test\<close>\<close>
  position :: "nat \<Rightarrow> nat" \<comment> \<open>place in the document\<close>

definition jq_filter :: "engine \<Rightarrow> string \<Rightarrow> nat list \<Rightarrow> bool \<Rightarrow> nat list" where
  "jq_filter en expr elems invert =
     (let e = (if invert then '':not('' @ expr @ '')'' else expr)
      in case elems of [x] \<Rightarrow> if matchesSelector en x e then [x] else [] | _ \<Rightarrow> matches en e elems)"

text \<open>\<open>/^.[^:#\[\.,]*$/\<close>\<close>

definition isSimple :: "string \<Rightarrow> bool" where
  "isSimple s \<longleftrightarrow> (case s of [] \<Rightarrow> False | c # cs \<Rightarrow>
     c \<notin> set [CHR 0x0A, CHR 0x0D] \<and> list_all (\<lambda>c. c \<notin> set '':#[.,'') cs)"

text \<open>A qualifier; the empty string and other falsy values are \<open>QNothing\<close>.\<close>

datatype qualifier = QNothing | QFun "nat \<Rightarrow> nat \<Rightarrow> bool" | QNode nat | QSel string | QList "nat list"

definition grep_nodes :: "(nat \<Rightarrow> nat \<Rightarrow> bool) \<Rightarrow> nat list \<Rightarrow> nat list" where
  "grep_nodes f xs = map fst (filter (\<lambda>(x, i). f x i) (zip xs [0..<length xs]))"

fun winnow :: "dom \<Rightarrow> engine \<Rightarrow> nat list \<Rightarrow> qualifier \<Rightarrow> bool \<Rightarrow> nat list" where
  "winnow d en elements (QFun f) keep = grep_nodes (\<lambda>e i. f e i = keep) elements"
| "winnow d en elements (QNode n) keep = grep_nodes (\<lambda>e i. (e = n) = keep) elements"
| "winnow d en elements (QSel s) keep =
     (let filtered = grep_nodes (\<lambda>e i. is_element d e) elements
      in if isSimple s then jq_filter en s filtered (\<not> keep)
         else (let q = jq_filter en s filtered False in grep_nodes (\<lambda>e i. (e \<in> set q) = keep) elements))"
| "winnow d en elements (QList q) keep = grep_nodes (\<lambda>e i. (e \<in> set q) = keep) elements"
| "winnow d en elements QNothing keep = grep_nodes (\<lambda>e i. False = keep) elements"

definition fn_not :: "dom \<Rightarrow> engine \<Rightarrow> qualifier \<Rightarrow> nat list \<Rightarrow> nat list" where
  "fn_not d en q this = winnow d en this q False"

definition fn_filter :: "dom \<Rightarrow> engine \<Rightarrow> qualifier \<Rightarrow> nat list \<Rightarrow> nat list" where
  "fn_filter d en q this = winnow d en this q True"

definition fn_is :: "dom \<Rightarrow> engine \<Rightarrow> qualifier \<Rightarrow> nat list \<Rightarrow> bool" where
  "fn_is d en q this = (case q of QNothing \<Rightarrow> False
     | QSel s \<Rightarrow> jq_filter en s this False \<noteq> []
     | _ \<Rightarrow> fn_filter d en q this \<noteq> [])"

section \<open>find, has, add\<close>

text \<open>\<open>Sizzle.contains\<close>: strictly above.\<close>

definition contains :: "dom \<Rightarrow> nat \<Rightarrow> nat \<Rightarrow> bool" where
  "contains d a b \<longleftrightarrow> (case seek (parentNode d) (\<lambda>c. c = a) (parentNode d b) of Some (Some _) \<Rightarrow> True | _ \<Rightarrow> False)"

text \<open>The results found in one more element, without those that were there before.\<close>

definition find_more :: "engine \<Rightarrow> string \<Rightarrow> nat \<times> nat list \<Rightarrow> nat \<Rightarrow> nat \<times> nat list" where
  "find_more en sel st ctx = (case st of (i, ret) \<Rightarrow>
     let n = length ret; ret' = find_into en sel ctx ret; old = take n ret'
     in (Suc i, if i > 0 then old @ filter (\<lambda>x. x \<notin> set old) (drop n ret') else ret'))"

definition fn_find :: "engine \<Rightarrow> string \<Rightarrow> nat list \<Rightarrow> nat list" where
  "fn_find en sel this = snd (foldl (find_more en sel) (0, []) this)"

definition fn_find_among :: "dom \<Rightarrow> nat list \<Rightarrow> nat list \<Rightarrow> nat list" where
  "fn_find_among d set' this = filter (\<lambda>x. list_ex (\<lambda>s. contains d s x) this) set'"

definition fn_has :: "dom \<Rightarrow> nat list \<Rightarrow> nat list \<Rightarrow> nat list" where
  "fn_has d targets this = filter (\<lambda>x. list_ex (contains d x) targets) this"

definition isDisconnected :: "dom \<Rightarrow> nat option \<Rightarrow> bool" where
  "isDisconnected d node = (case node of None \<Rightarrow> True | Some n \<Rightarrow>
     (case parentNode d n of None \<Rightarrow> True | Some p \<Rightarrow> ntype d p = 11))"

definition fn_add :: "dom \<Rightarrow> engine \<Rightarrow> nat list \<Rightarrow> nat list \<Rightarrow> nat list" where
  "fn_add d en set' this =
     (let all = this @ set'
      in if isDisconnected d (head set') \<or> isDisconnected d (head all) then all
         else uniqueSort (position en) all)"

definition andSelf :: "dom \<Rightarrow> engine \<Rightarrow> nat list \<Rightarrow> nat list \<Rightarrow> nat list" where
  "andSelf d en prev this = fn_add d en prev this"

section \<open>closest\<close>

partial_function (option) closest_from :: "dom \<Rightarrow> (nat \<Rightarrow> bool) \<Rightarrow> nat option \<Rightarrow> nat \<Rightarrow> nat option option" where
  "closest_from d ok ctx cur =
     (if ok cur then Some (Some cur)
      else case parentNode d cur of
        None \<Rightarrow> Some None
      | Some p \<Rightarrow> if ntype d p = 9 \<or> Some p = ctx \<or> ntype d p = 11 then Some None else closest_from d ok ctx p)"

fun collect :: "('a \<Rightarrow> 'b list option) \<Rightarrow> 'a list \<Rightarrow> 'b list option" where
  "collect f [] = Some []"
| "collect f (x # xs) = do { ys \<leftarrow> f x; zs \<leftarrow> collect f xs; Some (ys @ zs) }"

definition closest_test :: "engine \<Rightarrow> nat option \<Rightarrow> qualifier \<Rightarrow> nat \<Rightarrow> bool" where
  "closest_test en ctx q = (case q of
     QSel s \<Rightarrow> (if positional en s then (\<lambda>n. n \<in> set (query en s ctx)) else (\<lambda>n. matchesSelector en n s))
   | QList l \<Rightarrow> (\<lambda>n. n \<in> set l)
   | QNode m \<Rightarrow> (\<lambda>n. n = m)
   | _ \<Rightarrow> (\<lambda>n. False))"

definition fn_closest :: "dom \<Rightarrow> engine \<Rightarrow> qualifier \<Rightarrow> nat option \<Rightarrow> nat list \<Rightarrow> nat list option" where
  "fn_closest d en q ctx this =
     do { ret \<leftarrow> collect (\<lambda>c. map_option (\<lambda>r. case r of None \<Rightarrow> [] | Some x \<Rightarrow> [x])
                 (closest_from d (closest_test en ctx q) ctx c)) this;
          Some (if length ret > 1 then uniqueSort (position en) ret else ret) }"

text \<open>With an array of selectors: every match of each on the way up, with its level.\<close>

partial_function (option) closest_levels ::
  "dom \<Rightarrow> engine \<Rightarrow> string list \<Rightarrow> nat option \<Rightarrow> nat option \<Rightarrow> nat \<Rightarrow> (string \<times> nat \<times> nat) list option" where
  "closest_levels d en sels ctx cur level = (case cur of
     None \<Rightarrow> Some []
   | Some c \<Rightarrow>
       if ntype d c = 9 \<or> cur = ctx then Some []
       else do { rest \<leftarrow> closest_levels d en sels ctx (parentNode d c) (Suc level);
                 Some (map (\<lambda>s. (s, c, level)) (filter (\<lambda>s. closest_test en ctx (QSel s) c) sels) @ rest) })"

definition fn_closest_array :: "dom \<Rightarrow> engine \<Rightarrow> string list \<Rightarrow> nat option \<Rightarrow> nat list \<Rightarrow> (string \<times> nat \<times> nat) list option" where
  "fn_closest_array d en sels ctx this =
     (case this of [] \<Rightarrow> Some [] | c # _ \<Rightarrow>
        if sels = [] then Some [] else closest_levels d en (rev (remdups (rev sels))) ctx (Some c) 1)"

section \<open>The methods on the tree\<close>

datatype trav = Parent | Parents | ParentsUntil | NextM | PrevM | NextAll | PrevAll | NextUntil | PrevUntil
  | Siblings | Children | Contents

text \<open>\<open>None\<close>: the loop does not end; \<open>Inl\<close>: a TypeError (\<open>siblings\<close> of a node without a parent).\<close>

datatype failure = TypeError

fun trav_fn :: "dom \<Rightarrow> (nat \<Rightarrow> nat option) \<Rightarrow> trav \<Rightarrow> (nat \<Rightarrow> bool) option \<Rightarrow> nat \<Rightarrow> (failure + nat list) option" where
  "trav_fn d frame Parent u e = Some (Inr (case parentNode d e of
     None \<Rightarrow> [] | Some p \<Rightarrow> if ntype d p \<noteq> 11 then [p] else []))"
| "trav_fn d frame Parents u e = map_option Inr (jq_dir d (parentNode d) None e)"
| "trav_fn d frame ParentsUntil u e = map_option Inr (jq_dir d (parentNode d) u e)"
| "trav_fn d frame NextM u e = map_option (\<lambda>r. Inr (case r of None \<Rightarrow> [] | Some x \<Rightarrow> [x])) (jq_nth d e 2 (nextSibling d))"
| "trav_fn d frame PrevM u e = map_option (\<lambda>r. Inr (case r of None \<Rightarrow> [] | Some x \<Rightarrow> [x])) (jq_nth d e 2 (previousSibling d))"
| "trav_fn d frame NextAll u e = map_option Inr (jq_dir d (nextSibling d) None e)"
| "trav_fn d frame PrevAll u e = map_option Inr (jq_dir d (previousSibling d) None e)"
| "trav_fn d frame NextUntil u e = map_option Inr (jq_dir d (nextSibling d) u e)"
| "trav_fn d frame PrevUntil u e = map_option Inr (jq_dir d (previousSibling d) u e)"
| "trav_fn d frame Siblings u e = (case parentNode d e of
     None \<Rightarrow> Some (Inl TypeError)
   | Some p \<Rightarrow> map_option Inr (jq_sibling d (firstChild d p) (Some e)))"
| "trav_fn d frame Children u e = map_option Inr (jq_sibling d (firstChild d e) None)"
| "trav_fn d frame Contents u e = Some (Inr (case frame e of Some doc \<Rightarrow> [doc] | None \<Rightarrow> childNodes d e))"

definition runtil :: "trav \<Rightarrow> bool" where
  "runtil m \<longleftrightarrow> m \<in> {ParentsUntil, NextUntil, PrevUntil}"

definition rparentsprev :: "trav \<Rightarrow> bool" where
  "rparentsprev m \<longleftrightarrow> m \<in> {Parents, ParentsUntil, PrevUntil, PrevAll}"

definition guaranteedUnique :: "trav \<Rightarrow> bool" where
  "guaranteedUnique m \<longleftrightarrow> m \<in> {Children, Contents, NextM, PrevM}"

fun collect_trav :: "(nat \<Rightarrow> (failure + nat list) option) \<Rightarrow> nat list \<Rightarrow> (failure + nat list) option" where
  "collect_trav f [] = Some (Inr [])"
| "collect_trav f (x # xs) = (case f x of
     None \<Rightarrow> None
   | Some (Inl e) \<Rightarrow> Some (Inl e)
   | Some (Inr ys) \<Rightarrow> (case collect_trav f xs of
        None \<Rightarrow> None | Some (Inl e) \<Rightarrow> Some (Inl e) | Some (Inr zs) \<Rightarrow> Some (Inr (ys @ zs))))"

definition traverse :: "dom \<Rightarrow> engine \<Rightarrow> (nat \<Rightarrow> nat option) \<Rightarrow> trav \<Rightarrow> string option \<Rightarrow> string option \<Rightarrow>
    nat list \<Rightarrow> (failure + nat list) option" where
  "traverse d en frame m until sel0 this =
     (let u = map_option (\<lambda>s n. fn_is d en (if s = [] then QNothing else QSel s) [n]) until;
          sel = (if runtil m then sel0 else until)
      in case collect_trav (trav_fn d frame m u) this of
        None \<Rightarrow> None
      | Some (Inl e) \<Rightarrow> Some (Inl e)
      | Some (Inr ret) \<Rightarrow>
          (let r1 = (case sel of Some s \<Rightarrow> if s \<noteq> [] then jq_filter en s ret False else ret | None \<Rightarrow> ret);
               r2 = (if length this > 1 \<and> \<not> guaranteedUnique m then uniqueSort (position en) r1 else r1);
               multi = (case sel of Some s \<Rightarrow> CHR '','' \<in> set s | None \<Rightarrow> False)
           in Some (Inr (if (length this > 1 \<or> multi) \<and> rparentsprev m then rev r2 else r2))))"

text \<open>\<open>index\<close>: without an argument, with a selector, and with an element.\<close>

datatype index_arg = NoArg | SelArg string | ElemArg nat

fun position_in :: "nat \<Rightarrow> nat list \<Rightarrow> int" where
  "position_in x [] = -1"
| "position_in x (y # ys) = (if x = y then 0 else (let i = position_in x ys in if i < 0 then -1 else i + 1))"

definition fn_index :: "dom \<Rightarrow> engine \<Rightarrow> index_arg \<Rightarrow> nat list \<Rightarrow> int option" where
  "fn_index d en a this = (case a of
     NoArg \<Rightarrow> (case this of [] \<Rightarrow> Some (-1) | c # _ \<Rightarrow>
        if parentNode d c = None then Some (-1)
        else (case traverse d en (\<lambda>_. None) PrevAll None None this of
            Some (Inr ps) \<Rightarrow> Some (int (length ps)) | _ \<Rightarrow> None))
   | SelArg s \<Rightarrow> Some (case this of [] \<Rightarrow> -1 | c # _ \<Rightarrow> position_in c (query en s None))
   | ElemArg e \<Rightarrow> Some (position_in e this))"

section \<open>filter and not\<close>

text \<open>
  What the selector engine promises: \<open>matches\<close> keeps the nodes that match, in order, and \<open>:not\<close>
  negates.
\<close>

definition engine_ok :: "engine \<Rightarrow> bool" where
  "engine_ok en \<longleftrightarrow> (\<forall>e xs. matches en e xs = filter (\<lambda>x. matchesSelector en x e) xs) \<and>
     (\<forall>x e. matchesSelector en x ('':not('' @ e @ '')'') = (\<not> matchesSelector en x e))"

lemma jq_filter_engine:
  "engine_ok en \<Longrightarrow> jq_filter en s xs invert = filter (\<lambda>x. matchesSelector en x s \<noteq> invert) xs"
  by (auto simp: jq_filter_def engine_ok_def Let_def split: list.split)

lemma grep_nodes_ignore: "grep_nodes (\<lambda>x i. P x) xs = filter P xs"
proof -
  have "map fst (filter (\<lambda>(x, i). P x) (zip xs js)) = filter P xs" if "length xs = length js" for js :: "nat list"
    using that by (induction xs js rule: list_induct2) auto
  then show ?thesis by (simp add: grep_nodes_def)
qed

lemma grep_nodes_split:
  "mset (grep_nodes (\<lambda>x i. f x i = True) xs) + mset (grep_nodes (\<lambda>x i. f x i = False) xs) = mset xs"
proof -
  define z P where "z = zip xs [0..<length xs]" and "P = (\<lambda>(x, i). f x i)"
  have g: "grep_nodes (\<lambda>x i. f x i = True) xs = map fst (filter P z)"
    "grep_nodes (\<lambda>x i. f x i = False) xs = map fst (filter (\<lambda>y. \<not> P y) z)"
    by (auto simp: grep_nodes_def z_def P_def intro!: arg_cong[where f = "map fst"] filter_cong)
  have "mset (map fst (filter P z)) + mset (map fst (filter (\<lambda>y. \<not> P y) z)) =
      image_mset fst (filter_mset P (mset z) + filter_mset (\<lambda>y. \<not> P y) (mset z))"
    by (simp only: mset_map mset_filter image_mset_union)
  also have "filter_mset P (mset z) + filter_mset (\<lambda>y. \<not> P y) (mset z) = mset z"
    by (rule multiset_partition[symmetric])
  also have "image_mset fst (mset z) = mset xs"
    by (metis length_upt map_fst_zip minus_nat.diff_0 mset_map z_def)
  finally show ?thesis by (simp only: g)
qed

text \<open>
  On a set of elements, \<open>filter\<close> and \<open>not\<close> with the same qualifier (a function, a node, a list of
  nodes or a selector) divide the set between them: every member is in exactly one of the results,
  as often as it is in the set.
\<close>

theorem filter_and_not_divide:
  assumes en: "engine_ok en" and el: "list_all (is_element d) this"
  shows "mset (fn_filter d en q this) + mset (fn_not d en q this) = mset this"
proof (cases q)
  case (QSel s)
  have fl: "filter (is_element d) this = this" using el by (simp add: list_all_iff filter_id_conv)
  show ?thesis
  proof (cases "isSimple s")
    case True
    have "mset (filter (\<lambda>x. matchesSelector en x s) this) + mset (filter (\<lambda>x. \<not> matchesSelector en x s) this) = mset this"
      using multiset_partition[of "mset this" "\<lambda>x. matchesSelector en x s"] by simp
    with True QSel fl show ?thesis
      by (simp add: fn_filter_def fn_not_def grep_nodes_ignore jq_filter_engine[OF en])
  next
    case False
    with QSel grep_nodes_split[of "\<lambda>x i. x \<in> set (jq_filter en s (grep_nodes (\<lambda>e i. is_element d e) this) False)" this]
    show ?thesis by (simp add: fn_filter_def fn_not_def Let_def)
  qed
next
  case (QFun f)
  with grep_nodes_split[of f this] show ?thesis by (simp add: fn_filter_def fn_not_def)
next
  case (QNode n)
  with grep_nodes_split[of "\<lambda>x i. x = n" this] show ?thesis by (simp add: fn_filter_def fn_not_def)
next
  case (QList l)
  with grep_nodes_split[of "\<lambda>x i. x \<in> set l" this] show ?thesis by (simp add: fn_filter_def fn_not_def)
next
  case QNothing
  with grep_nodes_split[of "\<lambda>x i. False" this] show ?thesis by (simp add: fn_filter_def fn_not_def)
qed

section \<open>find\<close>

lemma find_no_repeats:
  assumes "\<And>ctx ret. \<exists>new. find_into en sel ctx ret = ret @ new \<and> distinct new"
  shows "distinct (fn_find en sel this)"
proof -
  have step: "distinct (snd (find_more en sel (i, ret) ctx))" if "distinct ret" "i > 0 \<or> ret = []" for i ret ctx
    using assms[where ctx = ctx and ret = ret] that by (auto simp: find_more_def Let_def)
  have "distinct (snd (foldl (find_more en sel) (i, ret) this))" if "distinct ret" "i > 0 \<or> ret = []" for i ret
    using that
  proof (induction this arbitrary: i ret)
    case (Cons c cs)
    obtain j r where jr: "find_more en sel (i, ret) c = (j, r)" by fastforce
    then have "j = Suc i" by (auto simp: find_more_def Let_def)
    with step[OF Cons.prems, of c] jr Cons.IH[of r j] show ?case by simp
  qed simp
  from this[of "[]" 0] show ?thesis by (simp add: fn_find_def)
qed

section \<open>closest\<close>

text \<open>
  C13: \<open>closest\<close> returns on every document, with the nearest node that matches among the node itself
  and the nodes above it, up to but without the context, the document or a fragment.
\<close>

theorem closest_is_the_nearest:
  assumes d: "dom_inv d"
  shows "\<exists>ps. chain (parentNode d) (parentNode d c) ps \<and>
    closest_from d ok ctx c =
      Some (find ok (c # takeWhile (\<lambda>p. ntype d p \<noteq> 9 \<and> ntype d p \<noteq> 11 \<and> Some p \<noteq> ctx) ps))"
proof -
  let ?in = "\<lambda>p. ntype d p \<noteq> 9 \<and> ntype d p \<noteq> 11 \<and> Some p \<noteq> ctx"
  obtain ps where ps: "chain (parentNode d) (parentNode d c) ps" using chain_parents_ex[OF d] by blast
  then have "closest_from d ok ctx c = Some (find ok (c # takeWhile ?in ps))"
  proof (induction ps arbitrary: c rule: list.induct)
    case Nil
    then have "parentNode d c = None" by (auto simp: chain_simps)
    then show ?case by (subst closest_from.simps) simp
  next
    case (Cons p ps)
    then have p: "parentNode d c = Some p" and ch: "chain (parentNode d) (parentNode d p) ps"
      by (auto simp: chain_simps)
    show ?case
      using p Cons.IH[OF ch] by (subst closest_from.simps) auto
  qed
  with ps show ?thesis by blast
qed

section \<open>Siblings and index\<close>

text \<open>
  The siblings of a node are the elements before it, which \<open>prevAll\<close> returns from the nearest
  to the first, and the elements after it, which \<open>nextAll\<close> returns; all three loops end.
\<close>

theorem siblings_are_prev_and_next:
  assumes d: "dom_inv d" and p: "parentNode d c = Some p"
    and nodoc: "\<forall>s\<in>set (childNodes d p). ntype d s \<noteq> 9"
  shows "\<exists>prevs nexts. trav_fn d frame PrevAll u c = Some (Inr prevs) \<and> trav_fn d frame NextAll u c = Some (Inr nexts) \<and>
    trav_fn d frame Siblings u c = Some (Inr (rev prevs @ nexts))"
proof -
  have s: "siblings_of d c = childNodes d p" using p by (simp add: siblings_of_def)
  let ?b = "before c (childNodes d p)" and ?a = "after c (childNodes d p)"
  have cp: "childNodes d p = ?b @ c # ?a" using before_after[OF in_siblings[OF d, of c]] s by simp
  then have "c \<notin> set ?b" "c \<notin> set ?a" using dom_invD(2)[OF d, of p] by (metis distinct_append distinct.simps(2) not_distinct_conv_prefix)+
  then have "filter (\<lambda>x. is_element d x \<and> x \<noteq> c) (childNodes d p) = filter (is_element d) ?b @ filter (is_element d) ?a"
  proof -
    have "filter (\<lambda>x. is_element d x \<and> x \<noteq> c) ?b = filter (is_element d) ?b"
      "filter (\<lambda>x. is_element d x \<and> x \<noteq> c) ?a = filter (is_element d) ?a"
      using \<open>c \<notin> set ?b\<close> \<open>c \<notin> set ?a\<close> by (auto intro: filter_cong)
    then show ?thesis by (subst cp) simp
  qed
  then show ?thesis
    using jq_dir_next[OF d, of c] jq_dir_prev[OF d, of c] jq_sibling_children[OF d, of p "Some c"] p s nodoc
    by (simp add: rev_filter)
qed

lemma index_of_one:
  assumes d: "dom_inv d" and p: "parentNode d c = Some p" and nodoc: "\<forall>s\<in>set (childNodes d p). ntype d s \<noteq> 9"
  shows "fn_index d en NoArg [c] = Some (int (length (filter (is_element d) (before c (childNodes d p)))))"
proof -
  have s: "siblings_of d c = childNodes d p" using p by (simp add: siblings_of_def)
  show ?thesis
    using jq_dir_prev[OF d, of c] s p nodoc
    by (simp add: fn_index_def traverse_def runtil_def rparentsprev_def guaranteedUnique_def Let_def rev_filter[symmetric])
qed

text \<open>
  Without an argument, \<open>index\<close> of a set of two adjacent elements is not the index of its first
  element among its siblings but the number of elements before either: 1 where the first element
  is the first child.
\<close>

theorem index_counts_the_whole_set:
  assumes d: "dom_inv d" and k: "childNodes d p = [a, b]" and el: "is_element d a" "is_element d b"
  shows "fn_index d en NoArg [a, b] = Some 1 \<and> fn_index d en NoArg [a] = Some 0"
proof -
  have p: "parentNode d a = Some p" "parentNode d b = Some p" using dom_invD(1)[OF d] k by auto
  have ne: "a \<noteq> b" using dom_invD(2)[OF d, of p] k by auto
  have s: "siblings_of d a = [a, b]" "siblings_of d b = [a, b]" using p k by (simp_all add: siblings_of_def)
  have "jq_dir d (previousSibling d) None a = Some []" "jq_dir d (previousSibling d) None b = Some [a]"
    using jq_dir_prev[OF d, of a] jq_dir_prev[OF d, of b] s ne el by (simp_all add: before_def)
  then show ?thesis
    using p by (simp add: fn_index_def traverse_def runtil_def rparentsprev_def guaranteedUnique_def Let_def uniqueSort_def)
qed

section \<open>Witnesses\<close>

text \<open>A document 0 with a child 1 that has the children 2 and 3.\<close>

definition demo_dom :: dom where
  "demo_dom = \<lparr>childNodes = (\<lambda>n. if n = 0 then [1] else if n = 1 then [2, 3] else []),
     parentNode = (\<lambda>n. if n = 1 then Some 0 else if n = 2 \<or> n = 3 then Some 1 else None),
     ntype = (\<lambda>n. if n = 0 then 9 else 1), nodeValue = (\<lambda>n. [])\<rparr>"

lemma demo_dom_inv: "dom_inv demo_dom"
  by (auto simp: dom_inv_def demo_dom_def intro!: exI[of _ id])

definition demo_match :: "string \<Rightarrow> bool" where
  "demo_match s \<longleftrightarrow> even (length (filter (\<lambda>c. c = CHR '':'') s))"

definition demo_engine :: engine where
  "demo_engine = \<lparr>matchesSelector = (\<lambda>n. demo_match), matches = (\<lambda>s. filter (\<lambda>n. demo_match s)),
     query = (\<lambda>s c. []), find_into = (\<lambda>s c r. r), positional = (\<lambda>s. False), position = id\<rparr>"

lemma demo_engine_ok: "engine_ok demo_engine"
  by (simp add: engine_ok_def demo_engine_def demo_match_def)

theorem filter_and_not_divide_witness:
  "mset (fn_filter demo_dom demo_engine (QSel ''p'') [2, 3]) + mset (fn_not demo_dom demo_engine (QSel ''p'') [2, 3]) = mset [2, 3]"
  using filter_and_not_divide[OF demo_engine_ok, of demo_dom "[2, 3]" "QSel ''p''"] by (simp add: demo_dom_def)

theorem closest_is_the_nearest_witness:
  "\<exists>ps. chain (parentNode demo_dom) (parentNode demo_dom 2) ps \<and>
    closest_from demo_dom (\<lambda>n. n = 1) None 2 =
      Some (find (\<lambda>n. n = 1) (2 # takeWhile (\<lambda>p. ntype demo_dom p \<noteq> 9 \<and> ntype demo_dom p \<noteq> 11 \<and> Some p \<noteq> None) ps))"
  by (rule closest_is_the_nearest[OF demo_dom_inv])

theorem siblings_are_prev_and_next_witness:
  "\<exists>prevs nexts. trav_fn demo_dom (\<lambda>_. None) PrevAll None 2 = Some (Inr prevs) \<and>
    trav_fn demo_dom (\<lambda>_. None) NextAll None 2 = Some (Inr nexts) \<and>
    trav_fn demo_dom (\<lambda>_. None) Siblings None 2 = Some (Inr (rev prevs @ nexts))"
  by (rule siblings_are_prev_and_next[OF demo_dom_inv, of 2 1]) (simp_all add: demo_dom_def)

theorem index_counts_the_whole_set_witness: "fn_index demo_dom demo_engine NoArg [2, 3] = Some 1"
  using index_counts_the_whole_set[OF demo_dom_inv, of 1 2 3 demo_engine] by (simp add: demo_dom_def)

end
