(* ===== verification/JQ_Regex.thy ===== *)
theory JQ_Regex
  imports JQ_Prelude
begin

text \<open>
  Regular expressions as the scripts use them: classes of characters, sequences, alternatives, greedy and
  lazy repetition, groups that capture, references to them, looking ahead and the two anchors. The matcher
  tries alternatives in the order of the language standard and goes back when what follows fails; a
  repetition does not take an empty turn. None of the expressions modelled with it captures
  inside a repetition, so captures are not reset there.
\<close>

section \<open>Expressions\<close>

datatype cset = One char | Word | Digit | Space | High \<comment> \<open>High: the range from \<open>\u00c0\<close>\<close>

datatype re =
    Eps
  | Cls bool "cset list" \<comment> \<open>negated or not\<close>
  | Seq re re
  | Alt re re
  | Rep bool re \<comment> \<open>greedy or lazy\<close>
  | Grp nat re
  | Back nat
  | Look bool re
  | Bol
  | Eol

definition is_word :: "char \<Rightarrow> bool" where
  "is_word c \<longleftrightarrow> is_digit c \<or> is_upper c \<or> is_lower c \<or> c = CHR ''_''"

fun in_cset :: "char \<Rightarrow> cset \<Rightarrow> bool" where
  "in_cset c (One x) = (c = x)"
| "in_cset c Word = is_word c"
| "in_cset c Digit = is_digit c"
| "in_cset c Space = is_space c"
| "in_cset c High = (192 \<le> (of_char c :: nat))"

definition in_class :: "bool \<Rightarrow> cset list \<Rightarrow> char \<Rightarrow> bool" where
  "in_class neg cs c = (neg \<noteq> list_ex (in_cset c) cs)"

text \<open>Shorthands for what the sources of the expressions write.\<close>

definition ch :: "char \<Rightarrow> re" where
  "ch c = Cls False [One c]"

fun seqs :: "re list \<Rightarrow> re" where
  "seqs [] = Eps"
| "seqs [r] = r"
| "seqs (r # rs) = Seq r (seqs rs)"

fun alts_of :: "re list \<Rightarrow> re" where
  "alts_of [] = Cls False []"
| "alts_of [r] = r"
| "alts_of (r # rs) = Alt r (alts_of rs)"

definition lit :: "string \<Rightarrow> re" where
  "lit s = seqs (map ch s)"

abbreviation opt :: "re \<Rightarrow> re" where
  "opt r \<equiv> Alt r Eps"

abbreviation many :: "re \<Rightarrow> re" where
  "many r \<equiv> Rep True r"

abbreviation some :: "re \<Rightarrow> re" where
  "some r \<equiv> Seq r (Rep True r)"

definition dot :: re where
  "dot = Cls True [One CHR 0x0A, One CHR 0x0D]"

definition any_char :: re where
  "any_char = Cls True []"

section \<open>Matching\<close>

text \<open>What was read, what is left, and the captures.\<close>

record mstate =
  at_pos :: nat
  left :: string
  caps :: "(nat \<times> string) list"

definition advance :: "nat \<Rightarrow> mstate \<Rightarrow> mstate" where
  "advance n s = s\<lparr>at_pos := at_pos s + n, left := drop n (left s)\<rparr>"

definition capture :: "nat \<Rightarrow> mstate \<Rightarrow> mstate \<Rightarrow> mstate" where
  "capture i s s' = s'\<lparr>caps := AList.update i (take (at_pos s' - at_pos s) (left s)) (caps s')\<rparr>"

definition or_else :: "'a option \<Rightarrow> 'a option \<Rightarrow> 'a option" where
  "or_else a b = (case a of None \<Rightarrow> b | Some x \<Rightarrow> Some x)"

text \<open>The turns of a repetition, at most as many as characters are left.\<close>

primrec turns :: "bool \<Rightarrow> nat \<Rightarrow> (mstate \<Rightarrow> (mstate \<Rightarrow> mstate option) \<Rightarrow> mstate option) \<Rightarrow> mstate \<Rightarrow> (mstate \<Rightarrow> mstate option) \<Rightarrow> mstate option" where
  "turns g 0 f s k = k s"
| "turns g (Suc n) f s k =
     (let more = (\<lambda>s'. if at_pos s' = at_pos s then None else turns g n f s' k)
      in if g then or_else (f s more) (k s) else or_else (k s) (f s more))"

primrec attempt :: "re \<Rightarrow> mstate \<Rightarrow> (mstate \<Rightarrow> mstate option) \<Rightarrow> mstate option" where
  "attempt Eps s k = k s"
| "attempt (Cls neg cs) s k = (case left s of [] \<Rightarrow> None | c # _ \<Rightarrow> if in_class neg cs c then k (advance 1 s) else None)"
| "attempt (Seq a b) s k = attempt a s (\<lambda>s'. attempt b s' k)"
| "attempt (Alt a b) s k = or_else (attempt a s k) (attempt b s k)"
| "attempt (Rep g a) s k = turns g (length (left s)) (attempt a) s k"
| "attempt (Grp i a) s k = attempt a s (\<lambda>s'. k (capture i s s'))"
| "attempt (Back i) s k = (case map_of (caps s) i of
      None \<Rightarrow> k s
    | Some w \<Rightarrow> if take (length w) (left s) = w then k (advance (length w) s) else None)"
| "attempt (Look b a) s k = (case attempt a s Some of
      Some s' \<Rightarrow> if b then k (s\<lparr>caps := caps s'\<rparr>) else None
    | None \<Rightarrow> if b then None else k s)"
| "attempt Bol s k = (if at_pos s = 0 then k s else None)"
| "attempt Eol s k = (if left s = [] then k s else None)"

text \<open>A found match: where it begins, its text, its captures.\<close>

record found =
  index :: nat
  whole :: string
  group :: "(nat \<times> string) list"

fun exec_from :: "re \<Rightarrow> nat \<Rightarrow> string \<Rightarrow> found option" where
  "exec_from r i s = (case attempt r \<lparr>at_pos = i, left = s, caps = []\<rparr> Some of
      Some m \<Rightarrow> Some \<lparr>index = i, whole = take (at_pos m - i) s, group = caps m\<rparr>
    | None \<Rightarrow> (case s of [] \<Rightarrow> None | _ # cs \<Rightarrow> exec_from r (Suc i) cs))"

declare exec_from.simps [simp del]

definition exec :: "re \<Rightarrow> string \<Rightarrow> found option" where
  "exec r s = exec_from r 0 s"

definition test :: "re \<Rightarrow> string \<Rightarrow> bool" where
  "test r s \<longleftrightarrow> exec r s \<noteq> None"

definition grp :: "found \<Rightarrow> nat \<Rightarrow> string option" where
  "grp m i = map_of (group m) i"

text \<open>A capture as a text, empty when it took no part.\<close>

definition gtext :: "found \<Rightarrow> nat \<Rightarrow> string" where
  "gtext m i = (case grp m i of Some s \<Rightarrow> s | None \<Rightarrow> [])"

text \<open>\<open>replace\<close> with an empty text: the first match is taken out.\<close>

definition erase :: "re \<Rightarrow> string \<Rightarrow> string" where
  "erase r s = (case exec r s of None \<Rightarrow> s | Some m \<Rightarrow> take (index m) s @ drop (index m + length (whole m)) s)"

text \<open>The number of each group and reference grows by one.\<close>

primrec shift_groups :: "re \<Rightarrow> re" where
  "shift_groups Eps = Eps"
| "shift_groups (Cls neg cs) = Cls neg cs"
| "shift_groups (Seq a b) = Seq (shift_groups a) (shift_groups b)"
| "shift_groups (Alt a b) = Alt (shift_groups a) (shift_groups b)"
| "shift_groups (Rep g a) = Rep g (shift_groups a)"
| "shift_groups (Grp i a) = Grp (Suc i) (shift_groups a)"
| "shift_groups (Back i) = Back (Suc i)"
| "shift_groups (Look b a) = Look b (shift_groups a)"
| "shift_groups Bol = Bol"
| "shift_groups Eol = Eol"

section \<open>Replacing all matches\<close>

text \<open>\<open>replace\<close> with a global expression and a text that depends on the match; an empty match goes on by one character.\<close>

function replace_from :: "re \<Rightarrow> (mstate \<Rightarrow> string) \<Rightarrow> nat \<Rightarrow> string \<Rightarrow> string" where
  "replace_from r t i s =
     (case attempt r \<lparr>at_pos = i, left = s, caps = []\<rparr> Some of
        Some m \<Rightarrow>
          (if i < at_pos m \<and> s \<noteq> [] then t m @ replace_from r t (at_pos m) (drop (at_pos m - i) s)
           else t m @ (case s of [] \<Rightarrow> [] | c # cs \<Rightarrow> c # replace_from r t (Suc i) cs))
      | None \<Rightarrow> (case s of [] \<Rightarrow> [] | c # cs \<Rightarrow> c # replace_from r t (Suc i) cs))"
  by pat_completeness auto

termination
  by (relation "measure (\<lambda>(r, t, i, s). length s)") (auto simp flip: length_greater_0_conv)

declare replace_from.simps [simp del]

definition replace_all :: "re \<Rightarrow> string \<Rightarrow> string \<Rightarrow> string" where
  "replace_all r t s = replace_from r (\<lambda>_. t) 0 s"

section \<open>The matcher finds the first of all matches\<close>

text \<open>The reference: all ways to match, the preferred ones first.\<close>

primrec all_turns :: "bool \<Rightarrow> nat \<Rightarrow> (mstate \<Rightarrow> mstate list) \<Rightarrow> mstate \<Rightarrow> mstate list" where
  "all_turns g 0 f s = [s]"
| "all_turns g (Suc n) f s =
     (let more = concat (map (all_turns g n f) (filter (\<lambda>s'. at_pos s' \<noteq> at_pos s) (f s)))
      in if g then more @ [s] else s # more)"

primrec all_matches :: "re \<Rightarrow> mstate \<Rightarrow> mstate list" where
  "all_matches Eps s = [s]"
| "all_matches (Cls neg cs) s = (case left s of [] \<Rightarrow> [] | c # _ \<Rightarrow> if in_class neg cs c then [advance 1 s] else [])"
| "all_matches (Seq a b) s = concat (map (all_matches b) (all_matches a s))"
| "all_matches (Alt a b) s = all_matches a s @ all_matches b s"
| "all_matches (Rep g a) s = all_turns g (length (left s)) (all_matches a) s"
| "all_matches (Grp i a) s = map (capture i s) (all_matches a s)"
| "all_matches (Back i) s = (case map_of (caps s) i of
      None \<Rightarrow> [s]
    | Some w \<Rightarrow> if take (length w) (left s) = w then [advance (length w) s] else [])"
| "all_matches (Look b a) s = (case all_matches a s of
      s' # _ \<Rightarrow> if b then [s\<lparr>caps := caps s'\<rparr>] else []
    | [] \<Rightarrow> if b then [] else [s])"
| "all_matches Bol s = (if at_pos s = 0 then [s] else [])"
| "all_matches Eol s = (if left s = [] then [s] else [])"

fun first_some :: "('a \<Rightarrow> 'b option) \<Rightarrow> 'a list \<Rightarrow> 'b option" where
  "first_some k [] = None"
| "first_some k (x # xs) = or_else (k x) (first_some k xs)"

lemma or_else_simps [simp]: "or_else None b = b" "or_else a None = a" "or_else (Some x) b = Some x"
  by (simp_all add: or_else_def split: option.split)

lemma or_else_assoc: "or_else (or_else a b) c = or_else a (or_else b c)"
  by (cases a) simp_all

lemma first_some_append: "first_some k (xs @ ys) = or_else (first_some k xs) (first_some k ys)"
  by (induction xs) (simp_all add: or_else_assoc)

lemma first_some_map: "first_some k (map f xs) = first_some (\<lambda>x. k (f x)) xs"
  by (induction xs) simp_all

lemma first_some_concat: "first_some k (concat (map f xs)) = first_some (\<lambda>x. first_some k (f x)) xs"
  by (induction xs) (simp_all add: first_some_append)

lemma first_some_filter: "first_some k (filter P xs) = first_some (\<lambda>x. if P x then k x else None) xs"
  by (induction xs) simp_all

lemma first_some_Some: "first_some Some xs = (case xs of [] \<Rightarrow> None | x # _ \<Rightarrow> Some x)"
  by (cases xs) simp_all

lemma turns_first:
  assumes "\<And>s k. f s k = first_some k (g s)"
  shows "turns b n f s k = first_some k (all_turns b n g s)"
proof (induction n arbitrary: s k)
  case (Suc n)
  have "(\<lambda>s'. if at_pos s' = at_pos s then None else turns b n f s' k) =
      (\<lambda>s'. if at_pos s' \<noteq> at_pos s then first_some k (all_turns b n g s') else None)"
    by (auto simp: Suc.IH)
  then show ?case by (simp add: assms[of s] Let_def first_some_append first_some_concat first_some_filter cong: if_cong)
qed simp

text \<open>
  The matcher with continuations gives what the first of all ways to match gives with which what
  follows succeeds.
\<close>

theorem attempt_is_first_match: "attempt r s k = first_some k (all_matches r s)"
proof (induction r arbitrary: s k)
  case (Rep g r)
  then show ?case by (simp add: turns_first)
next
  case (Look b r)
  then show ?case by (simp add: first_some_Some split: list.split)
qed (simp_all add: first_some_append first_some_concat first_some_map split: list.split option.split)

end
