(* ===== verification/JQ_Sizzle.thy ===== *)
theory JQ_Sizzle
  imports JQ_Regex JQ_DOM
begin

text \<open>
  The selector engine in jquery-1.6.4.js, for hosts on which \<open>querySelectorAll\<close> does not answer: the split of a selector,
  \<open>Sizzle.find\<close>, \<open>Sizzle.filter\<close> with its preparations and filters, the relations between parts and the walks that keep
  marks on the nodes, positions, and \<open>Sizzle\<close> itself. Names that every object inherits are not taken for keys of its tables.
\<close>

section \<open>The expressions of the selector engine\<close>

datatype ftype = PSEUDO | CHILD | ID | TAG | CLASS | ATTR | POS | NAME

abbreviation quote_mark :: "cset list" where
  "quote_mark \<equiv> [One CHR 0x27, One CHR 0x22]"

abbreviation spaces :: re where
  "spaces \<equiv> many (Cls False [Space])"

definition ident_char :: re where
  "ident_char = Alt (Cls False [Word, High, One CHR ''-'']) (Seq (ch CHR 0x5C) dot)"

primrec source_re :: "ftype \<Rightarrow> re" where
  "source_re ID = seqs [ch CHR ''#'', Grp 1 (some ident_char)]"
| "source_re CLASS = seqs [ch CHR ''.'', Grp 1 (some ident_char)]"
| "source_re NAME = seqs [lit ''[name='', many (Cls False quote_mark), Grp 1 (some ident_char), many (Cls False quote_mark), ch CHR '']'']"
| "source_re ATTR = seqs [ch CHR ''['', spaces, Grp 1 (some ident_char), spaces,
     opt (seqs [Grp 2 (Seq (opt (Cls True [Space])) (ch CHR ''='')), spaces,
       alts_of [seqs [Grp 3 (Cls False quote_mark), Grp 4 (Rep False dot), Back 3],
                Grp 5 (Seq (opt (ch CHR ''#'')) (many ident_char)),
                Eps]]),
     spaces, ch CHR '']'']"
| "source_re TAG = seqs [Bol, Grp 1 (some (Alt (Cls False [Word, High, One CHR ''*'', One CHR ''-'']) (Seq (ch CHR 0x5C) dot)))]"
| "source_re CHILD = seqs [ch CHR '':'', Grp 1 (alts_of [lit ''only'', lit ''nth'', lit ''last'', lit ''first'']), lit ''-child'',
     opt (seqs [ch CHR ''('', spaces,
       Grp 2 (alts_of [lit ''even'', lit ''odd'',
         seqs [opt (Cls False [One CHR ''+'', One CHR ''-'']), some (Cls False [Digit])],
         seqs [opt (Seq (opt (Cls False [One CHR ''+'', One CHR ''-''])) (many (Cls False [Digit]))), ch CHR ''n'', spaces,
           opt (seqs [Cls False [One CHR ''+'', One CHR ''-''], spaces, some (Cls False [Digit])])]]),
       spaces, ch CHR '')''])]"
| "source_re POS = seqs [ch CHR '':'',
     Grp 1 (alts_of [lit ''nth'', lit ''eq'', lit ''gt'', lit ''lt'', lit ''first'', lit ''last'', lit ''even'', lit ''odd'']),
     opt (seqs [ch CHR ''('', Grp 2 (many (Cls False [Digit])), ch CHR '')'']),
     Look True (Alt (Cls True [One CHR ''-'']) Eol)]"
| "source_re PSEUDO = seqs [ch CHR '':'', Grp 1 (some ident_char),
     opt (seqs [ch CHR ''('', Grp 2 (opt (Cls False quote_mark)),
       Grp 3 (some (Alt (seqs [ch CHR ''('', some (Cls True [One CHR '')'']), ch CHR '')''])
                        (many (Cls True [One CHR ''('', One CHR '')''])))),
       Back 2, ch CHR '')''])]"

text \<open>Not inside brackets or parentheses.\<close>

definition not_inside :: re where
  "not_inside = Seq (Look False (Seq (many (Cls True [One CHR ''[''])) (ch CHR '']'')))
                    (Look False (Seq (many (Cls True [One CHR ''(''])) (ch CHR '')'')))"

definition match_re :: "ftype \<Rightarrow> re" where
  "match_re t = Seq (source_re t) not_inside"

definition line_char :: re where
  "line_char = alts_of [dot, ch CHR 0x0D, ch CHR 0x0A]"

definition left_re :: "ftype \<Rightarrow> re" where
  "left_re t = Seq (Grp 1 (Seq Bol (Rep False line_char))) (shift_groups (match_re t))"

definition chunker :: re where
  "chunker = seqs [
     Grp 1 (Alt
       (some (alts_of [
          seqs [ch CHR ''('',
            some (Alt (seqs [ch CHR ''('', some (Cls True [One CHR ''('', One CHR '')'']), ch CHR '')''])
                      (some (Cls True [One CHR ''('', One CHR '')'']))),
            ch CHR '')''],
          seqs [ch CHR ''['',
            some (alts_of [
              seqs [ch CHR ''['', many (Cls True [One CHR ''['', One CHR '']'']), ch CHR '']''],
              seqs [Cls False quote_mark, many (Cls True quote_mark), Cls False quote_mark],
              some (Cls True (One CHR ''['' # One CHR '']'' # quote_mark))]),
            ch CHR '']''],
          Seq (ch CHR 0x5C) dot,
          some (Cls True (map One ('' >+~,([''@ [CHR 0x5C])))]))
       (Cls False [One CHR ''>'', One CHR ''+'', One CHR ''~''])),
     opt (Grp 2 (seqs [spaces, ch CHR '','', spaces])),
     Grp 3 (many line_char)]"

text \<open>A global expression goes on from where its last match ended, and from the start after a failure.\<close>

definition exec_global :: "re \<Rightarrow> nat \<Rightarrow> string \<Rightarrow> found option \<times> nat" where
  "exec_global r i s =
     (if length s < i then (None, 0)
      else case exec_from r i (drop i s) of None \<Rightarrow> (None, 0) | Some m \<Rightarrow> (Some m, index m + length (whole m)))"

text \<open>Backslashes are taken out.\<close>

definition unescape :: "string \<Rightarrow> string" where
  "unescape s = filter (\<lambda>c. c \<noteq> CHR 0x5C) s"

definition rNonWord :: "string \<Rightarrow> bool" where
  "rNonWord s \<longleftrightarrow> (\<exists>c\<in>set s. \<not> is_word c)"

section \<open>Pages and the state of the engine\<close>

record sdoc =
  sdom :: dom
  nodeName :: "nat \<Rightarrow> string"
  attribute :: "nat \<Rightarrow> string \<Rightarrow> string option" \<comment> \<open>\<open>getAttribute\<close>\<close>
  property :: "nat \<Rightarrow> string \<Rightarrow> jsval" \<comment> \<open>\<open>elem[name]\<close>\<close>
  object_text :: "nat \<Rightarrow> string" \<comment> \<open>the text of an object\<close>
  docnode :: nat
  bound :: nat \<comment> \<open>more than the depth of the tree\<close>
  active :: "nat option"
  xml :: bool \<comment> \<open>\<open>Sizzle.isXML\<close>\<close>
  by_class :: bool \<comment> \<open>the host finds elements by class\<close>
  more_filters :: "string \<Rightarrow> (nat \<Rightarrow> bool) option" \<comment> \<open>filters other code adds\<close>

text \<open>The counter of walks, the marks on nodes, and where the expression \<open>chunker\<close> goes on.\<close>

record sstate =
  done_count :: nat
  sizcache :: "nat \<Rightarrow> nat option"
  sizset :: "nat \<Rightarrow> nat"
  nodeIndex :: "nat \<Rightarrow> nat" \<comment> \<open>0 when it was never set\<close>
  lastIndex :: nat

text \<open>A call ends, throws, or has used up its fuel.\<close>

datatype 'a run = Ok 'a | Throws | Out

fun andthen :: "'a run \<Rightarrow> ('a \<Rightarrow> 'b run) \<Rightarrow> 'b run" where
  "andthen (Ok a) f = f a"
| "andthen Throws f = Throws"
| "andthen Out f = Out"

text \<open>What a set in work holds: a node, \<open>false\<close>, \<open>true\<close>, or \<open>null\<close>.\<close>

datatype slot = Node nat | SFalse | STrue | SNull

fun node_of :: "slot \<Rightarrow> nat list" where
  "node_of (Node n) = [n]"
| "node_of _ = []"

definition nodes :: "slot list \<Rightarrow> nat list" where
  "nodes ss = concat (map node_of ss)"

text \<open>Loops over such a set end at a \<open>null\<close>.\<close>

definition to_null :: "slot list \<Rightarrow> slot list" where
  "to_null ss = takeWhile (\<lambda>s. s \<noteq> SNull) ss"

section \<open>The host's searches\<close>

primrec tree :: "nat \<Rightarrow> dom \<Rightarrow> nat \<Rightarrow> nat list" where
  "tree 0 d c = [c]"
| "tree (Suc k) d c = c # concat (map (tree k d) (childNodes d c))"

definition below_of :: "sdoc \<Rightarrow> nat \<Rightarrow> nat list" where
  "below_of p n = tl (tree (bound p) (sdom p) n)"

definition elements :: "sdoc \<Rightarrow> nat \<Rightarrow> nat list" where
  "elements p n = filter (is_element (sdom p)) (below_of p n)"

definition same_tag :: "sdoc \<Rightarrow> string \<Rightarrow> string \<Rightarrow> bool" where
  "same_tag p a b \<longleftrightarrow> (if xml p then a = b else to_lower a = to_lower b)"

definition getElementsByTagName :: "sdoc \<Rightarrow> string \<Rightarrow> nat \<Rightarrow> nat list" where
  "getElementsByTagName p t n = filter (\<lambda>e. t = ''*'' \<or> same_tag p (nodeName p e) t) (elements p n)"

definition getElementsByName :: "sdoc \<Rightarrow> string \<Rightarrow> nat \<Rightarrow> nat list" where
  "getElementsByName p s n = filter (\<lambda>e. attribute p e ''name'' = Some s) (elements p n)"

definition getElementById :: "sdoc \<Rightarrow> string \<Rightarrow> nat \<Rightarrow> nat option" where
  "getElementById p s n = find (\<lambda>e. attribute p e ''id'' = Some s) (elements p n)"

fun split_spaces :: "string \<Rightarrow> string \<Rightarrow> string list" where
  "split_spaces acc [] = (if acc = [] then [] else [rev acc])"
| "split_spaces acc (c # cs) =
     (if is_space c then (if acc = [] then [] else [rev acc]) @ split_spaces [] cs else split_spaces (c # acc) cs)"

definition names_in :: "string \<Rightarrow> string list" where
  "names_in s = split_spaces [] s"

definition getElementsByClassName :: "sdoc \<Rightarrow> string \<Rightarrow> nat \<Rightarrow> nat list" where
  "getElementsByClassName p s n = filter (\<lambda>e. names_in s \<noteq> [] \<and>
     (case attribute p e ''class'' of None \<Rightarrow> False | Some c \<Rightarrow> set (names_in s) \<subseteq> set (names_in c))) (elements p n)"

text \<open>\<open>Sizzle.contains\<close>.\<close>

definition contains :: "sdoc \<Rightarrow> nat \<Rightarrow> nat \<Rightarrow> bool" where
  "contains p a b \<longleftrightarrow> a \<noteq> b \<and> b \<in> set (tree (bound p) (sdom p) a)"

definition textContent :: "sdoc \<Rightarrow> nat \<Rightarrow> string" where
  "textContent p n = concat (map (nodeValue (sdom p)) (filter (\<lambda>e. ntype (sdom p) e = 3 \<or> ntype (sdom p) e = 4) (tree (bound p) (sdom p) n)))"

section \<open>Sizzle.find\<close>

definition order :: "sdoc \<Rightarrow> ftype list" where
  "order p = (if by_class p then [ID, CLASS, NAME, TAG] else [ID, NAME, TAG])"

definition find_by :: "sdoc \<Rightarrow> ftype \<Rightarrow> string \<Rightarrow> nat \<Rightarrow> nat list option" where
  "find_by p t s ctx =
     (let is_doc = (ntype (sdom p) ctx = 9)
      in case t of
        ID \<Rightarrow> if is_doc \<and> \<not> xml p then
            (case getElementById p s ctx of
               Some m \<Rightarrow> Some (if parentNode (sdom p) m \<noteq> None then [m] else [])
             | None \<Rightarrow> Some [])
          else None
      | CLASS \<Rightarrow> if xml p then None else Some (getElementsByClassName p s ctx)
      | NAME \<Rightarrow> if is_doc then (let r = getElementsByName p s ctx in if r = [] then None else Some r) else None
      | TAG \<Rightarrow> Some (getElementsByTagName p s ctx)
      | _ \<Rightarrow> None)"

definition ends_escaped :: "string \<Rightarrow> bool" where
  "ends_escaped s \<longleftrightarrow> s \<noteq> [] \<and> last s = CHR 0x5C"

fun find_in :: "sdoc \<Rightarrow> ftype list \<Rightarrow> string \<Rightarrow> nat \<Rightarrow> (nat list \<times> string) option" where
  "find_in p [] expr ctx = None"
| "find_in p (t # ts) expr ctx =
     (case exec (left_re t) expr of
        None \<Rightarrow> find_in p ts expr ctx
      | Some m \<Rightarrow>
          if ends_escaped (gtext m 1) then find_in p ts expr ctx
          else (case find_by p t (unescape (gtext m 2)) ctx of
                  Some ns \<Rightarrow> Some (ns, erase (match_re t) expr)
                | None \<Rightarrow> find_in p ts expr ctx))"

definition sizzle_find :: "sdoc \<Rightarrow> string \<Rightarrow> nat \<Rightarrow> nat list \<times> string" where
  "sizzle_find p expr ctx = (case find_in p (order p) expr ctx of
      Some r \<Rightarrow> r
    | None \<Rightarrow> (elements p ctx, expr))"

section \<open>Filters of one token\<close>

text \<open>A token after its preparation; a number \<open>NaN\<close> is \<open>None\<close>, a capture that took no part too.\<close>

datatype token =
    TPseudo string "string option"
  | TNot "nat list"
  | TChild string "int option" "int option" nat
  | TId string
  | TTag string
  | TClass string
  | TAttr string string string \<comment> \<open>name, operator, value\<close>
  | TPos string "string option"

fun contains_word :: "string \<Rightarrow> string \<Rightarrow> bool" where
  "contains_word w [] = (w = [])"
| "contains_word w (c # cs) = (take (length w) (c # cs) = w \<or> contains_word w cs)"

text \<open>The builtin filters on fields and their kind.\<close>

definition is_input :: "sdoc \<Rightarrow> nat \<Rightarrow> string \<Rightarrow> bool" where
  "is_input p e t \<longleftrightarrow> to_lower (nodeName p e) = ''input'' \<and> property p e ''type'' = Str t"

definition is_button :: "sdoc \<Rightarrow> nat \<Rightarrow> string \<Rightarrow> bool" where
  "is_button p e t \<longleftrightarrow> to_lower (nodeName p e) \<in> {''input'', ''button''} \<and> property p e ''type'' = Str t"

fun header_name :: "string \<Rightarrow> bool" where
  "header_name (a # b # cs) = (lower_char a = CHR ''h'' \<and> is_digit b \<or> header_name (b # cs))"
| "header_name _ = False"

definition simple_filter :: "sdoc \<Rightarrow> string \<Rightarrow> (nat \<Rightarrow> bool) option" where
  "simple_filter p name =
     (let lname = (\<lambda>e. to_lower (nodeName p e)); ptype = (\<lambda>e. property p e ''type'')
      in if name = ''enabled'' then Some (\<lambda>e. property p e ''disabled'' = Bool False \<and> ptype e \<noteq> Str ''hidden'')
      else if name = ''disabled'' then Some (\<lambda>e. property p e ''disabled'' = Bool True)
      else if name = ''checked'' then Some (\<lambda>e. property p e ''checked'' = Bool True)
      else if name = ''selected'' then Some (\<lambda>e. property p e ''selected'' = Bool True)
      else if name = ''parent'' then Some (\<lambda>e. firstChild (sdom p) e \<noteq> None)
      else if name = ''empty'' then Some (\<lambda>e. firstChild (sdom p) e = None)
      else if name = ''header'' then Some (\<lambda>e. header_name (nodeName p e))
      else if name = ''text'' then Some (\<lambda>e. is_input p e ''text'' \<and> attribute p e ''type'' \<in> {None, Some ''text''})
      else if name \<in> {''radio'', ''checkbox'', ''file'', ''password'', ''image''} then Some (\<lambda>e. is_input p e name)
      else if name \<in> {''submit'', ''reset''} then Some (\<lambda>e. is_button p e name)
      else if name = ''button'' then Some (\<lambda>e. is_input p e ''button'' \<or> lname e = ''button'')
      else if name = ''input'' then
        Some (\<lambda>e. \<exists>w\<in>{''input'', ''select'', ''textarea'', ''button''}. contains_word w (lname e))
      else if name = ''focus'' then Some (\<lambda>e. active p = Some e)
      else more_filters p name)"

definition number_of :: "string option \<Rightarrow> nat option" where
  "number_of s = map_option (foldl (\<lambda>n c. 10 * n + (of_char c - 48)) 0) s"

definition set_filter :: "string \<Rightarrow> string option \<Rightarrow> nat \<Rightarrow> nat \<Rightarrow> bool" where
  "set_filter name arg i len =
     (if name = ''first'' then i = 0
      else if name = ''last'' then i + 1 = len
      else if name = ''even'' then i mod 2 = 0
      else if name = ''odd'' then i mod 2 = 1
      else (case number_of arg of
          None \<Rightarrow> False
        | Some n \<Rightarrow> if name = ''lt'' then i < n else if name = ''gt'' then i > n else n = i))"

text \<open>\<open>CHILD\<close>: no element before it, none behind it, or its number among the elements.\<close>

definition elem_before :: "sdoc \<Rightarrow> nat \<Rightarrow> bool run" where
  "elem_before p e = (case seek (previousSibling (sdom p)) (is_element (sdom p)) (previousSibling (sdom p) e) of
      None \<Rightarrow> Out | Some r \<Rightarrow> Ok (r \<noteq> None))"

definition elem_after :: "sdoc \<Rightarrow> nat \<Rightarrow> bool run" where
  "elem_after p e = (case seek (nextSibling (sdom p)) (is_element (sdom p)) (nextSibling (sdom p) e) of
      None \<Rightarrow> Out | Some r \<Rightarrow> Ok (r \<noteq> None))"

text \<open>The elements below a parent get their numbers, from 1; the parent keeps the number of the call.\<close>

definition number_children :: "sdoc \<Rightarrow> nat \<Rightarrow> nat \<Rightarrow> sstate \<Rightarrow> sstate" where
  "number_children p parent done_name st =
     (let es = filter (is_element (sdom p)) (childNodes (sdom p) parent)
      in st\<lparr>nodeIndex := (\<lambda>n. if n \<in> set es then Suc (length (takeWhile (\<lambda>x. x \<noteq> n) es)) else nodeIndex st n),
            sizcache := (sizcache st)(parent := Some done_name)\<rparr>)"

definition nth_child :: "sdoc \<Rightarrow> int option \<Rightarrow> int option \<Rightarrow> nat \<Rightarrow> nat \<Rightarrow> sstate \<Rightarrow> bool \<times> sstate" where
  "nth_child p first last_n done_name e st =
     (if first = Some 1 \<and> last_n = Some 0 then (True, st)
      else
        let st1 = (case parentNode (sdom p) e of
              Some q \<Rightarrow> if sizcache st q \<noteq> Some done_name \<or> nodeIndex st e = 0 then number_children p q done_name st else st
            | None \<Rightarrow> st)
        in (case (first, last_n) of
              (Some a, Some b) \<Rightarrow>
                if nodeIndex st1 e = 0 then False
                else let diff = int (nodeIndex st1 e) - b
                  in if a = 0 then diff = 0 else a dvd diff \<and> 0 \<le> diff * a
            | _ \<Rightarrow> False, st1))"

definition child_filter :: "sdoc \<Rightarrow> string \<Rightarrow> int option \<Rightarrow> int option \<Rightarrow> nat \<Rightarrow> nat \<Rightarrow> sstate \<Rightarrow> (bool \<times> sstate) run" where
  "child_filter p type first last_n done_name e st =
     (if type = ''nth'' then Ok (nth_child p first last_n done_name e st)
      else andthen (if type \<in> {''only'', ''first''} then elem_before p e else Ok False) (\<lambda>b.
        if b then Ok (False, st)
        else if type = ''first'' then Ok (True, st)
        else andthen (elem_after p e) (\<lambda>a. Ok (\<not> a, st))))"

definition show_value :: "sdoc \<Rightarrow> jsval \<Rightarrow> string" where
  "show_value p v = (case v of
      Undefined \<Rightarrow> ''undefined'' | Null \<Rightarrow> ''null'' | Bool b \<Rightarrow> if b then ''true'' else ''false''
    | Num i \<Rightarrow> show_int i | Str s \<Rightarrow> s | Ref a \<Rightarrow> object_text p a)"

definition attr_value :: "sdoc \<Rightarrow> string \<Rightarrow> nat \<Rightarrow> jsval" where
  "attr_value p name e =
     (let a = (case attribute p e name of Some s \<Rightarrow> Str s | None \<Rightarrow> Null)
      in if name \<in> {''href'', ''type''} then a
         else if \<not> nullish (property p e name) then property p e name else a)"

definition attr_filter :: "sdoc \<Rightarrow> jsval \<Rightarrow> string \<Rightarrow> string \<Rightarrow> bool" where
  "attr_filter p result type check =
     (let value = show_value p result
      in if nullish result then type = ''!=''
         else if type = ''='' then value = check
         else if type = ''*='' then contains_word check value
         else if type = ''~='' then contains_word check ('' '' @ value @ '' '')
         else if check = [] then value \<noteq> [] \<and> result \<noteq> Bool False
         else if type = ''!='' then value \<noteq> check
         else if type = ''^='' then take (length check) value = check
         else if type = ''$='' then length check \<le> length value \<and> drop (length value - length check) value = check
         else if type = ''|='' then value = check \<or> take (length check + 1) value = check @ ''-''
         else False)"

definition class_text :: "sdoc \<Rightarrow> nat \<Rightarrow> string" where
  "class_text p e =
     (if truthy (property p e ''className'') then show_value p (property p e ''className'')
      else case attribute p e ''class'' of Some s \<Rightarrow> s | None \<Rightarrow> ''null'')"

text \<open>One token on one node; \<open>:has\<close> and the fuel of the engine come with the argument \<open>siz\<close>.\<close>

type_synonym sizzle_call = "string \<Rightarrow> nat \<Rightarrow> nat list \<Rightarrow> slot list option \<Rightarrow> sstate \<Rightarrow> (nat list \<times> sstate) run"

definition pseudo_filter :: "sdoc \<Rightarrow> sizzle_call \<Rightarrow> string \<Rightarrow> string option \<Rightarrow> nat \<Rightarrow> sstate \<Rightarrow> (bool \<times> sstate) run" where
  "pseudo_filter p siz name arg e st =
     (if name = ''has'' then
        andthen (siz (case arg of Some s \<Rightarrow> s | None \<Rightarrow> []) e [] None st) (\<lambda>(ns, st1). Ok (ns \<noteq> [], st1))
      else case simple_filter p name of
        Some f \<Rightarrow> Ok (f e, st)
      | None \<Rightarrow>
          if name = ''contains'' then
            Ok (contains_word (case arg of Some s \<Rightarrow> s | None \<Rightarrow> ''undefined'') (textContent p e), st)
          else Throws)"

definition apply_token :: "sdoc \<Rightarrow> sizzle_call \<Rightarrow> token \<Rightarrow> nat \<Rightarrow> nat \<Rightarrow> nat \<Rightarrow> sstate \<Rightarrow> (bool \<times> sstate) run" where
  "apply_token p siz t e i len st = (case t of
      TPseudo name arg \<Rightarrow> pseudo_filter p siz name arg e st
    | TNot ns \<Rightarrow> Ok (e \<notin> set ns, st)
    | TChild type a b dn \<Rightarrow> child_filter p type a b dn e st
    | TId s \<Rightarrow> Ok (is_element (sdom p) e \<and> attribute p e ''id'' = Some s, st)
    | TTag s \<Rightarrow> Ok (s = ''*'' \<and> is_element (sdom p) e \<or> to_lower (nodeName p e) = s, st)
    | TClass s \<Rightarrow> Ok (contains_word s ('' '' @ class_text p e @ '' ''), st)
    | TAttr name type check \<Rightarrow> Ok (attr_filter p (attr_value p name e) type check, st)
    | TPos name arg \<Rightarrow> Ok (set_filter name arg i len, st))"

section \<open>Preparation of tokens\<close>

text \<open>The formula of \<open>:nth-child\<close>: a sign, digits, and what follows an n.\<close>

definition int_of_digits :: "string \<Rightarrow> int" where
  "int_of_digits s = int (foldl (\<lambda>n c. 10 * n + (of_char c - 48)) 0 s)"

definition signed_int :: "string \<Rightarrow> int option" where
  "signed_int s = (case s of
      [] \<Rightarrow> Some 0
    | c # ds \<Rightarrow> if c = CHR ''-'' then (if ds = [] then None else Some (- int_of_digits ds))
        else if c = CHR ''+'' then (if ds = [] then None else Some (int_of_digits ds))
        else Some (int_of_digits s))"

definition nth_formula :: "string \<Rightarrow> int option \<times> int option" where
  "nth_formula arg =
     (let s0 = (if arg \<noteq> [] \<and> hd arg = CHR ''+'' then tl arg else arg); s1 = filter (\<lambda>c. \<not> is_space c) s0;
          s = (if s1 = ''even'' then ''2n'' else if s1 = ''odd'' then ''2n+1''
               else if list_all is_digit s1 then ''0n+'' @ s1 else s1);
          neg = (s \<noteq> [] \<and> hd s = CHR ''-''); r0 = (if neg then tl s else s);
          ds = takeWhile is_digit r0; r1 = dropWhile is_digit r0;
          a = (if ds = [] then 1 else int_of_digits ds)
      in (Some (if neg then - a else a),
          (case r1 of
             c # r2 \<Rightarrow> if c \<noteq> CHR ''n'' then None
               else (let sg = (if r2 \<noteq> [] \<and> hd r2 \<in> {CHR ''+'', CHR ''-''} then [hd r2] else []);
                         r3 = drop (length sg) r2
                     in signed_int (sg @ takeWhile is_digit r3))
           | [] \<Rightarrow> None)))"

definition class_passes :: "sdoc \<Rightarrow> string \<Rightarrow> nat \<Rightarrow> bool" where
  "class_passes p w e \<longleftrightarrow> truthy (property p e ''className'') \<and>
     contains_word w (map (\<lambda>c. if c \<in> {CHR 0x09, CHR 0x0A, CHR 0x0D} then CHR '' '' else c)
       ('' '' @ show_value p (property p e ''className'') @ '' ''))"

text \<open>
  What a preparation says: the token to try on each node, that all is done (with the set as left and what was found),
  or that the token is not this filter's.
\<close>

datatype prepared = Try token | Handled "slot list" "slot list" | Skip

fun class_prefilter :: "(nat \<Rightarrow> bool) \<Rightarrow> bool \<Rightarrow> bool \<Rightarrow> slot list \<Rightarrow> slot list \<times> slot list" where
  "class_prefilter ok inplace neg [] = ([], [])"
| "class_prefilter ok inplace neg (s # ss) =
     (case s of
        SNull \<Rightarrow> (s # ss, [])
      | SFalse \<Rightarrow> (let (cs, rs) = class_prefilter ok inplace neg ss in (s # cs, rs))
      | _ \<Rightarrow>
          let pass = (neg \<noteq> (case s of Node e \<Rightarrow> ok e | _ \<Rightarrow> False)); (cs, rs) = class_prefilter ok inplace neg ss
          in ((if inplace \<and> \<not> pass then SFalse else s) # cs, if pass \<and> \<not> inplace then s # rs else rs))"

type_synonym filter_call = "string \<Rightarrow> slot list \<Rightarrow> bool \<Rightarrow> bool \<Rightarrow> sstate \<Rightarrow> (slot list \<times> slot list \<times> sstate) run"

definition attrMap :: "string \<Rightarrow> string" where
  "attrMap s = (if s = ''class'' then ''className'' else if s = ''for'' then ''htmlFor'' else s)"

definition child_prefilter :: "string \<Rightarrow> string \<Rightarrow> sstate \<Rightarrow> (prepared \<times> sstate) run" where
  "child_prefilter type arg st =
     (let st1 = st\<lparr>done_count := done_count st + 1\<rparr>
      in if type = ''nth'' then
           (if arg = [] then Throws
            else let (a, b) = nth_formula arg in Ok (Try (TChild type a b (done_count st)), st1))
         else if arg \<noteq> [] then Throws
         else Ok (Try (TChild type None None (done_count st)), st1))"

definition attr_prefilter :: "bool \<Rightarrow> found \<Rightarrow> token" where
  "attr_prefilter isxml m =
     (let name = unescape (gtext m 2); op = gtext m 3;
          value = unescape (if gtext m 5 \<noteq> [] then gtext m 5 else gtext m 6)
      in TAttr (if isxml then name else attrMap name) op (if op = ''~='' then '' '' @ value @ '' '' else value))"

text \<open>
  \<open>:not\<close> takes a whole selector when the expression \<open>chunker\<close> finds a part in it, from the place where its last use has
  left it, or when it begins with a word; else it is one chain of filters, applied the other way round.
\<close>

definition not_prefilter :: "sdoc \<Rightarrow> sizzle_call \<Rightarrow> filter_call \<Rightarrow> string option \<Rightarrow> slot list \<Rightarrow> bool \<Rightarrow> bool \<Rightarrow> sstate \<Rightarrow> (prepared \<times> sstate) run" where
  "not_prefilter p siz sf arg cur inplace neg st =
     (let text = (case arg of Some s \<Rightarrow> s | None \<Rightarrow> ''undefined''); sel = (case arg of Some s \<Rightarrow> s | None \<Rightarrow> []);
          (r, li) = exec_global chunker (lastIndex st) text; st1 = st\<lparr>lastIndex := li\<rparr>
      in if r \<noteq> None \<or> (text \<noteq> [] \<and> is_word (hd text)) then
           andthen (siz sel (docnode p) [] (Some cur) st1) (\<lambda>(ns, st2). Ok (Try (TNot ns), st2))
         else andthen (sf sel cur inplace (\<not> neg) st1) (\<lambda>(ret, cur1, st2). Ok (Handled cur1 ret, st2)))"

definition prefilter :: "sdoc \<Rightarrow> sizzle_call \<Rightarrow> filter_call \<Rightarrow> ftype \<Rightarrow> found \<Rightarrow> bool \<Rightarrow> slot list \<Rightarrow> bool \<Rightarrow> bool \<Rightarrow> sstate \<Rightarrow> (prepared \<times> sstate) run" where
  "prefilter p siz sf t m isxml cur inplace neg st = (case t of
      CLASS \<Rightarrow>
        (let w = '' '' @ unescape (gtext m 2) @ '' ''
         in if isxml then Ok (Try (TClass w), st)
            else let (cs, rs) = class_prefilter (class_passes p w) inplace neg cur in Ok (Handled cs rs, st))
    | ID \<Rightarrow> Ok (Try (TId (unescape (gtext m 2))), st)
    | TAG \<Rightarrow> Ok (Try (TTag (to_lower (unescape (gtext m 2)))), st)
    | CHILD \<Rightarrow> child_prefilter (gtext m 2) (gtext m 3) st
    | ATTR \<Rightarrow> Ok (Try (attr_prefilter isxml m), st)
    | PSEUDO \<Rightarrow>
        if gtext m 2 = ''not'' then not_prefilter p siz sf (grp m 4) cur inplace neg st
        else if test (match_re POS) (whole m) \<or> test (match_re CHILD) (whole m) then Ok (Skip, st)
        else Ok (Try (TPseudo (gtext m 2) (grp m 4)), st)
    | POS \<Rightarrow> Ok (Try (TPos (gtext m 2) (grp m 3)), st)
    | NAME \<Rightarrow> Ok (Skip, st))"

section \<open>Sizzle.filter\<close>

text \<open>
  One token along the set: what the set becomes, what is collected, whether anything passed, whether anything was tried.
\<close>

fun run_token :: "sdoc \<Rightarrow> sizzle_call \<Rightarrow> token \<Rightarrow> bool \<Rightarrow> bool \<Rightarrow> nat \<Rightarrow> nat \<Rightarrow> slot list \<Rightarrow> sstate \<Rightarrow>
    (slot list \<times> slot list \<times> bool \<times> bool \<times> sstate) run" where
  "run_token p siz t inplace neg i len [] st = Ok ([], [], False, False, st)"
| "run_token p siz t inplace neg i len (s # ss) st =
     (case s of
        SNull \<Rightarrow> Ok (s # ss, [], False, False, st)
      | SFalse \<Rightarrow> andthen (run_token p siz t inplace neg (Suc i) len ss st) (\<lambda>(cs, rs, any, tried, st1). Ok (s # cs, rs, any, tried, st1))
      | STrue \<Rightarrow> Throws
      | Node e \<Rightarrow> andthen (apply_token p siz t e i len st) (\<lambda>(b, st1).
          andthen (run_token p siz t inplace neg (Suc i) len ss st1) (\<lambda>(cs, rs, any, tried, st2).
            let pass = (neg \<noteq> b)
            in Ok ((if inplace \<and> \<not> pass then SFalse else s) # cs, (if pass \<and> \<not> inplace then s # rs else rs), any \<or> pass, True, st2))))"

text \<open>The types are tried in turn; the first that applies takes its token off the selector.\<close>

datatype round = Applied string bool | Untouched

fun try_types :: "sdoc \<Rightarrow> sizzle_call \<Rightarrow> filter_call \<Rightarrow> bool \<Rightarrow> bool \<Rightarrow> bool \<Rightarrow> ftype list \<Rightarrow> string \<Rightarrow> slot list \<Rightarrow> bool option \<Rightarrow> bool \<Rightarrow> sstate \<Rightarrow>
    (round \<times> slot list \<times> bool option \<times> bool \<times> sstate) run" where
  "try_types p siz sf isxml inplace neg [] expr cur any_found found st = Ok (Untouched, cur, any_found, found, st)"
| "try_types p siz sf isxml inplace neg (t # ts) expr cur any_found found st =
     (case exec (left_re t) expr of
        None \<Rightarrow> try_types p siz sf isxml inplace neg ts expr cur any_found found st
      | Some m \<Rightarrow>
          if gtext m 2 = [] then try_types p siz sf isxml inplace neg ts expr cur any_found found st
          else if ends_escaped (gtext m 1) then try_types p siz sf isxml inplace neg ts expr cur (Some False) found st
          else andthen (prefilter p siz sf t m isxml cur inplace neg st) (\<lambda>(pr, st1).
            case pr of
              Skip \<Rightarrow> try_types p siz sf isxml inplace neg ts expr cur (Some False) found st1
            | Handled cs rs \<Rightarrow> Ok (Applied (erase (match_re t) expr) True, if inplace then cs else rs, Some True, True, st1)
            | Try tok \<Rightarrow> andthen (run_token p siz tok inplace neg 0 (length cur) cur st1) (\<lambda>(cs, rs, any, tried, st2).
                if found \<or> tried then Ok (Applied (erase (match_re t) expr) any, if inplace then cs else rs, Some any, True, st2)
                else try_types p siz sf isxml inplace neg ts expr cur (Some False) found st2)))"

definition filter_order :: "ftype list" where
  "filter_order = [PSEUDO, CHILD, ID, TAG, CLASS, ATTR, POS]"

text \<open>
  The result and what is left of the set. Each round takes at least a character off the selector or is the last one, so a round more than the
  selector is long is enough.
\<close>

primrec filter_rounds :: "nat \<Rightarrow> sdoc \<Rightarrow> sizzle_call \<Rightarrow> filter_call \<Rightarrow> bool \<Rightarrow> bool \<Rightarrow> bool \<Rightarrow> string \<Rightarrow> slot list \<Rightarrow> bool option \<Rightarrow> bool \<Rightarrow> sstate \<Rightarrow>
    (slot list \<times> slot list \<times> sstate) run" where
  "filter_rounds 0 p siz sf isxml inplace neg expr cur any_found found st = Out"
| "filter_rounds (Suc k) p siz sf isxml inplace neg expr cur any_found found st =
     (if expr = [] then Ok (cur, cur, st)
      else andthen (try_types p siz sf isxml inplace neg filter_order expr cur any_found found st) (\<lambda>(r, cur1, any1, found1, st1).
        case r of
          Applied expr1 any \<Rightarrow>
            if \<not> any then Ok ([], cur1, st1)
            else if expr1 = expr then Ok (cur1, cur1, st1)
            else filter_rounds k p siz sf isxml inplace neg expr1 cur1 any1 found1 st1
        | Untouched \<Rightarrow> if any1 = None then Throws else Ok (cur1, cur1, st1)))"

definition filter_body :: "sdoc \<Rightarrow> sizzle_call \<Rightarrow> filter_call \<Rightarrow> filter_call" where
  "filter_body p siz sf expr set1 inplace neg st =
     (if set1 = [] then Ok ([], [], st)
      else let isxml = (xml p \<and> (case hd set1 of Node n \<Rightarrow> True | _ \<Rightarrow> False))
           in andthen (filter_rounds (Suc (length expr)) p siz sf isxml inplace neg expr set1 None False st) (\<lambda>(ret, cur, st1).
                Ok (ret, if inplace then cur else set1, st1)))"

section \<open>Relations\<close>

datatype part = Text string | Here nat

definition is_tag_part :: "part \<Rightarrow> bool" where
  "is_tag_part x \<longleftrightarrow> (case x of Text s \<Rightarrow> \<not> rNonWord s | Here n \<Rightarrow> False)"

definition tag_of :: "sdoc \<Rightarrow> nat \<Rightarrow> string" where
  "tag_of p n = to_lower (nodeName p n)"

definition truth :: "bool \<Rightarrow> slot" where
  "truth b = (if b then STrue else SFalse)"

definition prev_element :: "sdoc \<Rightarrow> nat \<Rightarrow> nat option run" where
  "prev_element p e = (case seek (previousSibling (sdom p)) (is_element (sdom p)) (previousSibling (sdom p) e) of
      None \<Rightarrow> Out | Some r \<Rightarrow> Ok r)"

definition plus_slot :: "sdoc \<Rightarrow> part \<Rightarrow> slot \<Rightarrow> slot run" where
  "plus_slot p x s = (case s of
      Node e \<Rightarrow> andthen (prev_element p e) (\<lambda>r. Ok (case x of
          Here q \<Rightarrow> truth (r = Some q)
        | Text t \<Rightarrow> (case r of
              None \<Rightarrow> SFalse
            | Some n \<Rightarrow> if is_tag_part x \<and> tag_of p n \<noteq> to_lower t then SFalse else Node n)))
    | STrue \<Rightarrow> Ok SFalse
    | _ \<Rightarrow> Ok s)"

fun each_slot :: "(slot \<Rightarrow> slot run) \<Rightarrow> slot list \<Rightarrow> slot list run" where
  "each_slot f [] = Ok []"
| "each_slot f (s # ss) = andthen (f s) (\<lambda>s1. andthen (each_slot f ss) (\<lambda>rest. Ok (s1 # rest)))"

definition filter_part :: "filter_call \<Rightarrow> part \<Rightarrow> slot list \<Rightarrow> sstate \<Rightarrow> (slot list \<times> sstate) run" where
  "filter_part sf x cs st = (case x of
      Text t \<Rightarrow> if rNonWord t then andthen (sf t cs True False st) (\<lambda>(ret, cs1, st1). Ok (cs1, st1)) else Ok (cs, st)
    | Here n \<Rightarrow> Ok (cs, st))"

definition rel_plus :: "sdoc \<Rightarrow> filter_call \<Rightarrow> slot list \<Rightarrow> part \<Rightarrow> sstate \<Rightarrow> (slot list \<times> sstate) run" where
  "rel_plus p sf cs x st = andthen (each_slot (plus_slot p x) cs) (\<lambda>cs1. filter_part sf x cs1 st)"

definition child_slot :: "sdoc \<Rightarrow> part \<Rightarrow> slot \<Rightarrow> slot run" where
  "child_slot p x s = (case s of
      Node e \<Rightarrow>
        (let q = parentNode (sdom p) e
         in case x of
              Here n \<Rightarrow> Ok (truth (q = Some n))
            | Text t \<Rightarrow>
                if is_tag_part x then
                  (case q of None \<Rightarrow> Throws | Some n \<Rightarrow> Ok (if tag_of p n = to_lower t then Node n else SFalse))
                else Ok (case q of None \<Rightarrow> SNull | Some n \<Rightarrow> Node n))
    | STrue \<Rightarrow> if is_tag_part x then Throws else Ok (case x of Here n \<Rightarrow> SFalse | Text t \<Rightarrow> SNull)
    | _ \<Rightarrow> Ok s)"

definition rel_child :: "sdoc \<Rightarrow> filter_call \<Rightarrow> slot list \<Rightarrow> part \<Rightarrow> sstate \<Rightarrow> (slot list \<times> sstate) run" where
  "rel_child p sf cs x st = andthen (each_slot (child_slot p x) cs) (\<lambda>cs1. filter_part sf x cs1 st)"

text \<open>
  The walks: from node to node in one direction; a node with the mark of this walk answers with what was found for the
  element that has marked it.
\<close>

definition mark :: "nat \<Rightarrow> nat \<Rightarrow> nat \<Rightarrow> sstate \<Rightarrow> sstate" where
  "mark done_name i e st = st\<lparr>sizcache := (sizcache st)(e := Some done_name), sizset := (sizset st)(e := i)\<rparr>"

primrec walk_name :: "nat \<Rightarrow> sdoc \<Rightarrow> (nat \<Rightarrow> nat option) \<Rightarrow> string \<Rightarrow> nat \<Rightarrow> slot list \<Rightarrow> nat \<Rightarrow> nat option \<Rightarrow> sstate \<Rightarrow> (slot \<times> sstate) run" where
  "walk_name 0 p dir name dn cs i cur st = Out"
| "walk_name (Suc k) p dir name dn cs i cur st = (case cur of
      None \<Rightarrow> Ok (SFalse, st)
    | Some e \<Rightarrow>
        if sizcache st e = Some dn then Ok (cs ! sizset st e, st)
        else let st1 = (if is_element (sdom p) e \<and> \<not> xml p then mark dn i e st else st)
             in if tag_of p e = name then Ok (Node e, st1) else walk_name k p dir name dn cs i (dir e) st1)"

definition part_here :: "filter_call \<Rightarrow> part \<Rightarrow> nat \<Rightarrow> sstate \<Rightarrow> (slot option \<times> sstate) run" where
  "part_here sf x e st = (case x of
      Here n \<Rightarrow> Ok (if e = n then Some STrue else None, st)
    | Text t \<Rightarrow> andthen (sf t [Node e] False False st) (\<lambda>(ret, cs, st1). Ok (if ret \<noteq> [] then Some (Node e) else None, st1)))"

primrec walk_part :: "nat \<Rightarrow> sdoc \<Rightarrow> filter_call \<Rightarrow> (nat \<Rightarrow> nat option) \<Rightarrow> part \<Rightarrow> nat \<Rightarrow> slot list \<Rightarrow> nat \<Rightarrow> nat option \<Rightarrow> sstate \<Rightarrow> (slot \<times> sstate) run" where
  "walk_part 0 p sf dir x dn cs i cur st = Out"
| "walk_part (Suc k) p sf dir x dn cs i cur st = (case cur of
      None \<Rightarrow> Ok (SFalse, st)
    | Some e \<Rightarrow>
        if sizcache st e = Some dn then Ok (cs ! sizset st e, st)
        else if is_element (sdom p) e then
          andthen (part_here sf x e (if xml p then st else mark dn i e st)) (\<lambda>(r, st1).
            case r of Some s \<Rightarrow> Ok (s, st1) | None \<Rightarrow> walk_part k p sf dir x dn cs i (dir e) st1)
        else walk_part k p sf dir x dn cs i (dir e) st)"

text \<open>Every element in turn; its place in the set gets what its walk gives.\<close>

fun check_all :: "(slot list \<Rightarrow> nat \<Rightarrow> nat \<Rightarrow> sstate \<Rightarrow> (slot \<times> sstate) run) \<Rightarrow> nat list \<Rightarrow> slot list \<Rightarrow> sstate \<Rightarrow> (slot list \<times> sstate) run" where
  "check_all f [] cs st = Ok (cs, st)"
| "check_all f (i # is) cs st = (case cs ! i of
      Node e \<Rightarrow> andthen (f cs i e st) (\<lambda>(s, st1). check_all f is (cs[i := s]) st1)
    | STrue \<Rightarrow> check_all f is (cs[i := SFalse]) st
    | _ \<Rightarrow> check_all f is cs st)"

definition dirNodeCheck :: "sdoc \<Rightarrow> (nat \<Rightarrow> nat option) \<Rightarrow> string \<Rightarrow> nat \<Rightarrow> slot list \<Rightarrow> sstate \<Rightarrow> (slot list \<times> sstate) run" where
  "dirNodeCheck p dir name dn cs st =
     check_all (\<lambda>cs i e st. walk_name (bound p) p dir name dn cs i (dir e) st) [0..<length cs] cs st"

definition dirCheck :: "sdoc \<Rightarrow> filter_call \<Rightarrow> (nat \<Rightarrow> nat option) \<Rightarrow> part \<Rightarrow> nat \<Rightarrow> slot list \<Rightarrow> sstate \<Rightarrow> (slot list \<times> sstate) run" where
  "dirCheck p sf dir x dn cs st =
     check_all (\<lambda>cs i e st. walk_part (bound p) p sf dir x dn cs i (dir e) st) [0..<length cs] cs st"

definition rel_walk :: "sdoc \<Rightarrow> filter_call \<Rightarrow> (nat \<Rightarrow> nat option) \<Rightarrow> slot list \<Rightarrow> part \<Rightarrow> sstate \<Rightarrow> (slot list \<times> sstate) run" where
  "rel_walk p sf dir cs x st =
     (let dn = done_count st; st1 = st\<lparr>done_count := dn + 1\<rparr>
      in case x of
           Text t \<Rightarrow> if rNonWord t then dirCheck p sf dir x dn cs st1 else dirNodeCheck p dir (to_lower t) dn cs st1
         | Here n \<Rightarrow> dirCheck p sf dir x dn cs st1)"

definition relative :: "string \<Rightarrow> bool" where
  "relative s \<longleftrightarrow> s \<in> {''+'', ''>'', [], ''~''}"

definition apply_rel :: "sdoc \<Rightarrow> filter_call \<Rightarrow> string \<Rightarrow> slot list \<Rightarrow> part \<Rightarrow> sstate \<Rightarrow> (slot list \<times> sstate) run" where
  "apply_rel p sf rel cs x st =
     (if rel = ''+'' then rel_plus p sf cs x st
      else if rel = ''>'' then rel_child p sf cs x st
      else if rel = ''~'' then rel_walk p sf (previousSibling (sdom p)) cs x st
      else rel_walk p sf (parentNode (sdom p)) cs x st)"

section \<open>Sizzle\<close>

text \<open>
  The parts of a selector and, after a comma, what is left of it; with them where the expression \<open>chunker\<close> goes on. Each part
  takes at least a character, so a round more than the selector is long is enough.
\<close>

primrec chunks :: "nat \<Rightarrow> string \<Rightarrow> (string list \<times> string \<times> nat) run" where
  "chunks 0 s = Out"
| "chunks (Suc k) s = (case exec_global chunker 0 s of
      (None, li) \<Rightarrow> Ok ([], [], li)
    | (Some m, li) \<Rightarrow>
        if gtext m 2 \<noteq> [] then Ok ([gtext m 1], gtext m 3, li)
        else andthen (chunks k (gtext m 3)) (\<lambda>(ps, extra, li1). Ok (gtext m 1 # ps, extra, li1)))"

text \<open>\<open>posProcess\<close>: the pseudo filters are put aside and applied to all that the rest finds.\<close>

primrec strip_pseudos :: "nat \<Rightarrow> string \<Rightarrow> (string \<times> string) run" where
  "strip_pseudos 0 s = Out"
| "strip_pseudos (Suc k) s = (case exec (match_re PSEUDO) s of
      None \<Rightarrow> Ok ([], s)
    | Some m \<Rightarrow> andthen (strip_pseudos k (erase (match_re PSEUDO) s)) (\<lambda>(later, rest). Ok (whole m @ later, rest)))"

fun from_roots :: "sdoc \<Rightarrow> sizzle_call \<Rightarrow> string \<Rightarrow> nat list \<Rightarrow> nat list \<Rightarrow> sstate \<Rightarrow> (nat list \<times> sstate) run" where
  "from_roots p siz sel [] tmp st = Ok (tmp, st)"
| "from_roots p siz sel (r # rs) tmp st =
     (if ntype (sdom p) r \<in> {1, 9} then andthen (siz sel r tmp None st) (\<lambda>(tmp1, st1). from_roots p siz sel rs tmp1 st1)
      else from_roots p siz sel rs tmp st)"

definition posProcess :: "sdoc \<Rightarrow> sizzle_call \<Rightarrow> filter_call \<Rightarrow> string \<Rightarrow> nat list \<Rightarrow> sstate \<Rightarrow> (nat list \<times> sstate) run" where
  "posProcess p siz sf selector roots st =
     andthen (strip_pseudos (Suc (length selector)) selector) (\<lambda>(later, sel).
       andthen (from_roots p siz (if relative sel then sel @ ''*'' else sel) roots [] st) (\<lambda>(tmp, st1).
         andthen (sf later (map Node tmp) False False st1) (\<lambda>(ret, cs, st2). Ok (nodes ret, st2))))"

fun pos_parts :: "sdoc \<Rightarrow> sizzle_call \<Rightarrow> filter_call \<Rightarrow> string list \<Rightarrow> nat list \<Rightarrow> sstate \<Rightarrow> (nat list \<times> sstate) run" where
  "pos_parts p siz sf [] ns st = Ok (ns, st)"
| "pos_parts p siz sf [x] ns st = posProcess p siz sf (if relative x then x @ ''undefined'' else x) ns st"
| "pos_parts p siz sf (x # y # xs) ns st =
     (if relative x then andthen (posProcess p siz sf (x @ y) ns st) (\<lambda>(ns1, st1). pos_parts p siz sf xs ns1 st1)
      else andthen (posProcess p siz sf x ns st) (\<lambda>(ns1, st1). pos_parts p siz sf (y # xs) ns1 st1))"

definition by_position :: "sdoc \<Rightarrow> sizzle_call \<Rightarrow> filter_call \<Rightarrow> string list \<Rightarrow> nat \<Rightarrow> sstate \<Rightarrow> (nat list \<times> sstate) run" where
  "by_position p siz sf parts ctx st = (case parts of
      [x, y] \<Rightarrow> if relative x then posProcess p siz sf (x @ y) [ctx] st
        else andthen (siz x ctx [] None st) (\<lambda>(ns, st1). pos_parts p siz sf [y] ns st1)
    | x # xs \<Rightarrow> if relative x then pos_parts p siz sf parts [ctx] st
        else andthen (siz x ctx [] None st) (\<lambda>(ns, st1). pos_parts p siz sf xs ns st1)
    | [] \<Rightarrow> Ok ([], st))"

text \<open>The relations from right to left; before the first part stands the context.\<close>

fun relate :: "sdoc \<Rightarrow> filter_call \<Rightarrow> nat \<Rightarrow> string list \<Rightarrow> slot list \<Rightarrow> sstate \<Rightarrow> (slot list \<times> sstate) run" where
  "relate p sf ctx [] cs st = Ok (cs, st)"
| "relate p sf ctx [x] cs st =
     (if relative x then apply_rel p sf x cs (Here ctx) st else apply_rel p sf [] cs (Text x) st)"
| "relate p sf ctx (x # y # xs) cs st =
     (if relative x then andthen (apply_rel p sf x cs (Text y) st) (\<lambda>(cs1, st1). relate p sf ctx xs cs1 st1)
      else andthen (apply_rel p sf [] cs (Text x) st) (\<lambda>(cs1, st1). relate p sf ctx (y # xs) cs1 st1))"

text \<open>The elements whose place in the set still has something true.\<close>

definition kept :: "sdoc \<Rightarrow> nat option \<Rightarrow> slot \<Rightarrow> bool" where
  "kept p ctx s = (case s of
      Node n \<Rightarrow> is_element (sdom p) n \<and> (case ctx of Some c \<Rightarrow> is_element (sdom p) c \<longrightarrow> contains p c n | None \<Rightarrow> True)
    | STrue \<Rightarrow> (case ctx of Some c \<Rightarrow> is_element (sdom p) c | None \<Rightarrow> False)
    | _ \<Rightarrow> False)"

definition pruned :: "sdoc \<Rightarrow> nat option \<Rightarrow> slot list \<Rightarrow> slot list \<Rightarrow> nat list" where
  "pruned p ctx cs set1 = nodes (map snd (filter (\<lambda>(c, s). kept p ctx c) (zip (to_null cs) set1)))"

text \<open>A selector that begins with an id moves the context there first.\<close>

definition root_context :: "sdoc \<Rightarrow> filter_call \<Rightarrow> bool \<Rightarrow> string list \<Rightarrow> nat \<Rightarrow> sstate \<Rightarrow> (string list \<times> nat option \<times> sstate) run" where
  "root_context p sf seeded parts ctx st =
     (if \<not> seeded \<and> length parts > 1 \<and> ntype (sdom p) ctx = 9 \<and> \<not> xml p \<and> test (match_re ID) (hd parts) \<and> \<not> test (match_re ID) (last parts) then
        (let (ns, expr) = sizzle_find p (hd parts) ctx
         in andthen (if expr \<noteq> [] then andthen (sf expr (map Node ns) False False st) (\<lambda>(ret, cs, st1). Ok (nodes ret, st1)) else Ok (ns, st))
              (\<lambda>(found, st1). Ok (tl parts, (case found of [] \<Rightarrow> None | c # _ \<Rightarrow> Some c), st1)))
      else Ok (parts, Some ctx, st))"

definition start_set :: "sdoc \<Rightarrow> filter_call \<Rightarrow> slot list option \<Rightarrow> string list \<Rightarrow> nat \<Rightarrow> sstate \<Rightarrow> (slot list \<times> sstate) run" where
  "start_set p sf seed parts ctx st =
     (let rest = butlast parts;
          from = (if rest \<in> {[''~''], [''+'']} then (case parentNode (sdom p) ctx of Some q \<Rightarrow> q | None \<Rightarrow> ctx) else ctx);
          (set0, expr) = (case seed of Some ss \<Rightarrow> (ss, last parts) | None \<Rightarrow> (let (ns, e) = sizzle_find p (last parts) from in (map Node ns, e)))
      in if expr \<noteq> [] then andthen (sf expr set0 False False st) (\<lambda>(ret, cs, st1). Ok (ret, st1)) else Ok (set0, st))"

definition from_right :: "sdoc \<Rightarrow> filter_call \<Rightarrow> slot list option \<Rightarrow> string list \<Rightarrow> nat \<Rightarrow> sstate \<Rightarrow> (nat list \<times> sstate) run" where
  "from_right p sf seed parts0 ctx0 st =
     andthen (root_context p sf (seed \<noteq> None) parts0 ctx0 st) (\<lambda>(parts, ctx, st1).
       case ctx of
         None \<Rightarrow> Ok ([], st1)
       | Some c \<Rightarrow>
           if parts = [] then (case seed of None \<Rightarrow> Throws | Some ss \<Rightarrow> Ok (nodes ss, st1))
           else andthen (start_set p sf seed parts c st1) (\<lambda>(set1, st2).
             if butlast parts = [] then Ok (nodes set1, st2)
             else andthen (relate p sf c (rev (butlast parts)) set1 st2) (\<lambda>(cs, st3). Ok (pruned p (Some c) cs set1, st3))))"

definition document_pos :: "sdoc \<Rightarrow> nat \<Rightarrow> nat" where
  "document_pos p n = length (takeWhile (\<lambda>x. x \<noteq> n) (tree (bound p) (sdom p) (docnode p)))"

definition sizzle_body :: "sdoc \<Rightarrow> sizzle_call \<Rightarrow> filter_call \<Rightarrow> sizzle_call" where
  "sizzle_body p siz sf selector ctx results seed st =
     (if ntype (sdom p) ctx \<notin> {1, 9} then Ok ([], st)
      else if selector = [] then Ok (results, st)
      else andthen (chunks (Suc (length selector)) selector) (\<lambda>(parts, extra, li).
        let st1 = st\<lparr>lastIndex := li\<rparr>
        in andthen (if length parts > 1 \<and> test (source_re POS) selector then
                      andthen (by_position p siz sf parts ctx st1) (\<lambda>(ns, st2). Ok (pruned p (Some ctx) (map Node ns) (map Node ns), st2))
                    else from_right p sf seed parts ctx st1) (\<lambda>(ns, st2).
             let out = results @ ns
             in if extra = [] then Ok (out, st2)
                else andthen (siz extra ctx out seed st2) (\<lambda>(out1, st3). Ok (uniqueSort (document_pos p) out1, st3)))))"

text \<open>The engine with a depth of nested calls.\<close>

primrec engine :: "nat \<Rightarrow> sdoc \<Rightarrow> sizzle_call \<times> filter_call" where
  "engine 0 p = ((\<lambda>selector ctx results seed st. Out), (\<lambda>expr set1 inplace neg st. Out))"
| "engine (Suc n) p = (let (siz, sf) = engine n p in (sizzle_body p siz sf, filter_body p siz sf))"

definition sizzle :: "nat \<Rightarrow> sdoc \<Rightarrow> string \<Rightarrow> nat \<Rightarrow> sstate \<Rightarrow> nat list run" where
  "sizzle n p selector ctx st = andthen (fst (engine n p) selector ctx [] None st) (\<lambda>(ns, st1). Ok ns)"

text \<open>\<open>Sizzle.matches\<close> and \<open>Sizzle.matchesSelector\<close>.\<close>

definition matches :: "nat \<Rightarrow> sdoc \<Rightarrow> string \<Rightarrow> nat list \<Rightarrow> sstate \<Rightarrow> nat list run" where
  "matches n p expr ns st = andthen (fst (engine n p) expr (docnode p) [] (Some (map Node ns)) st) (\<lambda>(r, st1). Ok r)"

definition matchesSelector :: "nat \<Rightarrow> sdoc \<Rightarrow> nat \<Rightarrow> string \<Rightarrow> sstate \<Rightarrow> bool run" where
  "matchesSelector n p e expr st = andthen (matches n p expr [e] st) (\<lambda>r. Ok (r \<noteq> []))"

end
