(* ===== verification/JQ_Match.thy ===== *)
theory JQ_Match
  imports JQ_Sizzle
begin

text \<open>
  What the selector engine does: \<open>:nth-child\<close> counts as its formula says, the walks with marks find the nearest node, filtering in place
  and collecting agree, its own loops end, and a selector for which it does not.
\<close>

section \<open>Numbers of children\<close>

definition child_number :: "sdoc \<Rightarrow> nat \<Rightarrow> nat" where
  "child_number p e = (case parentNode (sdom p) e of
      None \<Rightarrow> 0
    | Some q \<Rightarrow> Suc (length (takeWhile (\<lambda>x. x \<noteq> e) (filter (is_element (sdom p)) (childNodes (sdom p) q)))))"

text \<open>The children of a parent with the number of a call have their numbers.\<close>

definition numbered :: "sdoc \<Rightarrow> nat \<Rightarrow> sstate \<Rightarrow> bool" where
  "numbered p dn st \<longleftrightarrow> (\<forall>e q. parentNode (sdom p) e = Some q \<longrightarrow> is_element (sdom p) e \<longrightarrow> sizcache st q = Some dn \<longrightarrow>
     nodeIndex st e = child_number p e)"

lemma number_children_numbered:
  assumes d: "dom_inv (sdom p)" and n: "numbered p dn st" and q: "parentNode (sdom p) e = Some q" "is_element (sdom p) e"
  shows "numbered p dn (number_children p q dn st) \<and> nodeIndex (number_children p q dn st) e = child_number p e"
proof -
  have kid: "x \<in> set (filter (is_element (sdom p)) (childNodes (sdom p) q)) \<longleftrightarrow> parentNode (sdom p) x = Some q \<and> is_element (sdom p) x" for x
    using dom_invD(1)[OF d, of x q] by auto
  have "nodeIndex (number_children p q dn st) x = child_number p x"
    if "parentNode (sdom p) x = Some r" "is_element (sdom p) x" "sizcache (number_children p q dn st) r = Some dn" for x r
  proof (cases "r = q")
    case True
    with that kid[of x] show ?thesis by (simp add: number_children_def child_number_def Let_def)
  next
    case False
    with that kid[of x] have "nodeIndex (number_children p q dn st) x = nodeIndex st x" "sizcache st r = Some dn"
      by (auto simp: number_children_def Let_def)
    with n that(1,2) show ?thesis unfolding numbered_def by simp
  qed
  moreover have "sizcache (number_children p q dn st) q = Some dn" by (simp add: number_children_def Let_def)
  ultimately show ?thesis using q unfolding numbered_def by blast
qed

lemma multiple_iff: "(a dvd d \<and> 0 \<le> d * a) \<longleftrightarrow> (\<exists>k :: nat. d = a * int k)" if "a \<noteq> (0 :: int)"
proof
  assume h: "a dvd d \<and> 0 \<le> d * a"
  then obtain c where c: "d = a * c" by (auto simp: dvd_def)
  with h have "0 \<le> c * (a * a)" by (simp add: ac_simps)
  moreover have "0 < a * a" using that by (simp add: zero_less_mult_iff) linarith
  ultimately have "0 \<le> c" by (metis mult_neg_pos not_le)
  with c show "\<exists>k :: nat. d = a * int k" by (intro exI[of _ "nat c"]) simp
next
  assume "\<exists>k :: nat. d = a * int k"
  then obtain k :: nat where k: "d = a * int k" by blast
  have "0 \<le> int k * (a * a)" by simp
  with k show "a dvd d \<and> 0 \<le> d * a" by (simp add: ac_simps)
qed

text \<open>An element passes \<open>:nth-child(an+b)\<close> exactly when its number among the elements of its parent is \<open>a * k + b\<close> for a natural \<open>k\<close>,
  whatever earlier calls have left on the nodes, and the numbers it leaves serve the calls that follow.\<close>

theorem nth_child_counts:
  assumes d: "dom_inv (sdom p)" and n: "numbered p dn st" and q: "parentNode (sdom p) e = Some q" "is_element (sdom p) e"
  shows "(fst (nth_child p (Some a) (Some b) dn e st) \<longleftrightarrow> (\<exists>k :: nat. int (child_number p e) = a * int k + b)) \<and>
    numbered p dn (snd (nth_child p (Some a) (Some b) dn e st))"
proof
  define st1 where "st1 = (if sizcache st q \<noteq> Some dn \<or> nodeIndex st e = 0 then number_children p q dn st else st)"
  have i: "nodeIndex st1 e = child_number p e" and n1: "numbered p dn st1"
    using number_children_numbered[OF d n q] n q unfolding st1_def numbered_def by auto
  have pos: "child_number p e \<noteq> 0" using q by (simp add: child_number_def)
  have c: "(case parentNode (sdom p) e of
        Some q \<Rightarrow> if sizcache st q \<noteq> Some dn \<or> nodeIndex st e = 0 then number_children p q dn st else st | None \<Rightarrow> st) = st1"
    unfolding q(1) st1_def by simp
  have nc: "nth_child p (Some a) (Some b) dn e st = (if a = 1 \<and> b = 0 then (True, st)
      else (if a = 0 then int (child_number p e) - b = 0
            else a dvd (int (child_number p e) - b) \<and> 0 \<le> (int (child_number p e) - b) * a, st1))"
    unfolding nth_child_def c Let_def i using pos by simp
  have sk: "(\<exists>k :: nat. int (child_number p e) = a * int k + b) \<longleftrightarrow> (\<exists>k :: nat. int (child_number p e) - b = a * int k)"
    by (intro ex_cong1) auto
  show "fst (nth_child p (Some a) (Some b) dn e st) \<longleftrightarrow> (\<exists>k :: nat. int (child_number p e) = a * int k + b)"
  proof (cases "a = 1 \<and> b = 0")
    case True
    then show ?thesis unfolding nc sk using q by (auto intro!: exI[of _ "child_number p e"])
  next
    case False
    then show ?thesis unfolding sk nc using multiple_iff[of a "int (child_number p e) - b"] by (cases "a = 0") auto
  qed
  show "numbered p dn (snd (nth_child p (Some a) (Some b) dn e st))" unfolding nc using n n1 by simp
qed

section \<open>Formulas\<close>

lemma digit_val: "n < 10 \<Longrightarrow> of_char (char_of (48 + n)) - 48 = (n :: nat)"
  by (simp add: of_char_of)

lemma dec_digits: "list_all is_digit (dec n) \<and> dec n \<noteq> []"
proof (induction n rule: dec.induct)
  case (1 n)
  have dig: "m < 10 \<Longrightarrow> is_digit (char_of (48 + m))" for m :: nat by (simp add: is_digit_def of_char_of Let_def)
  show ?case by (subst dec.simps, subst dec.simps) (use 1 dig[of n] dig[of "n mod 10"] in auto)
qed

lemma digits_of_dec: "foldl (\<lambda>n c. 10 * n + (of_char c - 48)) 0 (dec n) = n"
proof (induction n rule: dec.induct)
  case (1 n)
  show ?case
  proof (cases "n < 10")
    case True
    then show ?thesis by (simp add: dec.simps[of n] digit_val)
  next
    case False
    with 1 have "foldl (\<lambda>n c. 10 * n + (of_char c - 48)) 0 (dec n) = 10 * (n div 10) + n mod 10"
      using digit_val[of "n mod 10"] by (subst dec.simps) simp
    then show ?thesis by simp
  qed
qed

lemma int_of_dec [simp]: "int_of_digits (dec n) = int n"
  by (simp add: int_of_digits_def digits_of_dec)

lemma not_digit: "\<not> is_digit CHR ''n''" "\<not> is_digit CHR ''+''"
  by (simp_all add: is_digit_def)

lemma digit_not_space: "is_digit c \<Longrightarrow> \<not> is_space c"
  by (auto simp: is_digit_def is_space_def Let_def)

definition show_signed :: "int \<Rightarrow> string" where
  "show_signed i = (if i < 0 then show_int i else CHR ''+'' # show_int i)"

text \<open>A formula written out is read as its numbers.\<close>

lemma digits_end:
  "takeWhile is_digit (dec k @ CHR ''n'' # t) = dec k" "dropWhile is_digit (dec k @ CHR ''n'' # t) = CHR ''n'' # t"
  "takeWhile is_digit (dec k) = dec k"
  using dec_digits[of k] not_digit(1) by (simp_all add: takeWhile_append dropWhile_append list_all_iff)

lemma signed_roundtrip: "\<exists>sg ds. show_signed b = sg # ds \<and> sg \<in> {CHR ''+'', CHR ''-''} \<and> takeWhile is_digit ds = ds \<and> signed_int (sg # ds) = Some b"
proof (cases "b < 0")
  case True
  then show ?thesis using dec_digits[of "nat (- b)"] digits_end(3) by (simp add: show_signed_def show_int_def signed_int_def)
next
  case False
  then show ?thesis using dec_digits[of "nat b"] digits_end(3) by (simp add: show_signed_def show_int_def signed_int_def)
qed

theorem nth_formula_roundtrip: "nth_formula (show_int a @ CHR ''n'' # show_signed b) = (Some a, Some b)"
proof -
  obtain sg ds where b: "show_signed b = sg # ds" "sg \<in> {CHR ''+'', CHR ''-''}" "takeWhile is_digit ds = ds" "signed_int (sg # ds) = Some b"
    using signed_roundtrip by blast
  define k where "k = nat \<bar>a\<bar>"
  let ?t = "CHR ''n'' # sg # ds"
  have s: "show_int a @ CHR ''n'' # show_signed b = (if a < 0 then CHR ''-'' # dec k @ ?t else dec k @ ?t)"
    using b(1) by (simp add: show_int_def k_def)
  obtain x xs where x: "dec k = x # xs" "is_digit x" using dec_digits[of k] by (cases "dec k") auto
  have "list_all is_digit ds" using b(3) by (metis list_all_iff set_takeWhileD)
  then have ns: "filter (\<lambda>c. \<not> is_space c) ds = ds" "filter (\<lambda>c. \<not> is_space c) (dec k) = dec k"
    using digit_not_space dec_digits[of k] by (auto simp: filter_id_conv list_all_iff)
  have sp: "\<not> is_space CHR ''n'' \<and> \<not> is_space CHR ''-'' \<and> \<not> is_space CHR ''+''" by (simp add: is_space_def)
  have xne: "x \<noteq> CHR ''+'' \<and> x \<noteq> CHR ''e'' \<and> x \<noteq> CHR ''o'' \<and> x \<noteq> CHR ''-''" using x(2) by (auto simp: is_digit_def)
  have nd: "\<not> is_digit CHR ''-''" by (simp add: is_digit_def)
  have sgs: "\<not> is_space sg" using b(2) sp by auto
  have tl: "takeWhile is_digit (x # xs @ ?t) = x # xs" "dropWhile is_digit (x # xs @ ?t) = ?t"
    using digits_end(1,2)[of k "sg # ds"] x(1) by simp_all
  have k: "int_of_digits (x # xs) = int k" using int_of_dec[of k] x(1) by simp
  show ?thesis
  proof (cases "a < 0")
    case True
    then have e: "filter (\<lambda>c. \<not> is_space c) (CHR ''-'' # x # xs @ ?t) = CHR ''-'' # x # xs @ ?t"
      using ns x(1) sp sgs by (simp split: if_splits)
    show ?thesis unfolding nth_formula_def s x(1) using True e xne tl b k nd by (simp add: Let_def k_def not_digit del: takeWhile_eq_all_conv)
  next
    case False
    then have e: "filter (\<lambda>c. \<not> is_space c) (x # xs @ ?t) = x # xs @ ?t"
      using ns x(1) sp sgs by (simp split: if_splits)
    show ?thesis unfolding nth_formula_def s x(1) using False e xne tl b k by (simp add: Let_def k_def not_digit del: takeWhile_eq_all_conv)
  qed
qed

section \<open>Walks with marks find what walks without them find\<close>

text \<open>The walk without marks: the nearest node in a direction that a test accepts.\<close>

definition nearest :: "(nat \<Rightarrow> nat option) \<Rightarrow> (nat \<Rightarrow> bool) \<Rightarrow> (nat \<Rightarrow> slot) \<Rightarrow> nat option \<Rightarrow> slot" where
  "nearest dir ok res cur = (case seek dir ok cur of Some (Some n) \<Rightarrow> res n | _ \<Rightarrow> SFalse)"

lemma nearest_step: "nearest dir ok res (Some n) = (if ok n then res n else nearest dir ok res (dir n))"
  by (simp add: nearest_def seek.simps[of dir ok "Some n"])

lemma nearest_end: "nearest dir ok res None = SFalse"
  by (simp add: nearest_def seek.simps[of dir ok None])

text \<open>A state may lose marks of a walk, and must not gain or change any.\<close>

definition no_new_marks :: "nat \<Rightarrow> sstate \<Rightarrow> sstate \<Rightarrow> bool" where
  "no_new_marks dn st st' \<longleftrightarrow> (dn < done_count st \<longrightarrow> dn < done_count st') \<and>
     (\<forall>n. sizcache st' n = Some dn \<longrightarrow> sizcache st n = Some dn \<and> sizset st' n = sizset st n)"

text \<open>The part accepts the elements of a predicate, in every state.\<close>

definition part_accepts :: "sdoc \<Rightarrow> filter_call \<Rightarrow> nat \<Rightarrow> part \<Rightarrow> (nat \<Rightarrow> bool) \<Rightarrow> (nat \<Rightarrow> slot) \<Rightarrow> bool" where
  "part_accepts p sf dn x ok res \<longleftrightarrow> (\<forall>e. ok e \<longrightarrow> is_element (sdom p) e) \<and>
     (\<forall>e st. is_element (sdom p) e \<longrightarrow> dn < done_count st \<longrightarrow>
        (\<exists>st'. part_here sf x e st = Ok (if ok e then Some (res e) else None, st') \<and> no_new_marks dn st st'))"

definition marks_ok :: "nat \<Rightarrow> (nat option \<Rightarrow> slot) \<Rightarrow> slot list \<Rightarrow> nat \<Rightarrow> sstate \<Rightarrow> nat set \<Rightarrow> bool" where
  "marks_ok dn best cs i st A \<longleftrightarrow> (\<forall>n\<in>A. sizcache st n = Some dn \<longrightarrow> sizset st n < i \<and> cs ! sizset st n = best (Some n))"

text \<open>What a walk for the place \<open>i\<close> leaves: old marks, and its own on nodes from which the same is found.\<close>

definition walked :: "nat \<Rightarrow> (nat option \<Rightarrow> slot) \<Rightarrow> nat \<Rightarrow> nat option \<Rightarrow> sstate \<Rightarrow> sstate \<Rightarrow> bool" where
  "walked dn best i cur st st' \<longleftrightarrow> (dn < done_count st \<longrightarrow> dn < done_count st') \<and>
     (\<forall>n. sizcache st' n = Some dn \<longrightarrow>
        sizcache st n = Some dn \<and> sizset st' n = sizset st n \<or> sizset st' n = i \<and> best (Some n) = best cur)"

lemma walked_refl: "walked dn best i cur st st"
  by (simp add: walked_def)

lemma walked_marked:
  assumes "walked dn best i cur' st1 st'" and "best cur' = best (Some e)" and "no_new_marks dn (mark dn i e st) st1 \<or> no_new_marks dn st st1"
  shows "walked dn best i (Some e) st st'"
  unfolding walked_def
proof (intro conjI allI impI)
  assume "dn < done_count st"
  then have "dn < done_count st1" using assms(3) by (auto simp: no_new_marks_def mark_def)
  then show "dn < done_count st'" using assms(1) by (simp add: walked_def)
next
  fix n assume n: "sizcache st' n = Some dn"
  show "sizcache st n = Some dn \<and> sizset st' n = sizset st n \<or> sizset st' n = i \<and> best (Some n) = best (Some e)"
  proof (cases "sizset st' n = i \<and> best (Some n) = best cur'")
    case True
    with assms(2) show ?thesis by simp
  next
    case False
    with n assms(1) have "sizcache st1 n = Some dn" "sizset st' n = sizset st1 n" unfolding walked_def by auto
    with assms(3) show ?thesis unfolding no_new_marks_def mark_def by (cases "n = e") auto
  qed
qed

lemma no_new_marks_refl: "no_new_marks dn st st"
  by (simp add: no_new_marks_def)

lemma marks_ok_step:
  assumes "marks_ok dn best cs i st (insert e A)" and "e \<notin> A" and "no_new_marks dn (mark dn i e st) st1 \<or> no_new_marks dn st st1"
  shows "marks_ok dn best cs i st1 A"
  using assms unfolding marks_ok_def no_new_marks_def mark_def by (metis (no_types, lifting) fun_upd_apply insertCI sstate.ext_inject sstate.surjective sstate.update_convs(2,3))

lemma walk_name_finds:
  assumes best: "best = nearest dir (\<lambda>n. tag_of p n = name) Node"
  shows "chain dir cur xs \<Longrightarrow> distinct xs \<Longrightarrow> length xs < k \<Longrightarrow> marks_ok dn best cs i st (set xs) \<Longrightarrow>
    \<exists>st'. walk_name k p dir name dn cs i cur st = Ok (best cur, st') \<and> walked dn best i cur st st'"
proof (induction xs arbitrary: k cur st)
  case Nil
  then have "cur = None" by (cases cur) (auto simp: chain_simps)
  with Nil show ?case by (cases k) (simp_all add: best nearest_end walked_refl)
next
  case (Cons e xs)
  then obtain k' where k: "k = Suc k'" "length xs < k'" by (cases k) auto
  have cur: "cur = Some e" and ch: "chain dir (dir e) xs" using Cons.prems(1) by (simp_all add: chain_simps)
  show ?case
  proof (cases "sizcache st e = Some dn")
    case True
    with Cons.prems(4) have "cs ! sizset st e = best (Some e)" by (simp add: marks_ok_def)
    with True k cur show ?thesis using walked_refl by simp
  next
    case False
    define st1 where "st1 = (if is_element (sdom p) e \<and> \<not> xml p then mark dn i e st else st)"
    have nm: "no_new_marks dn (mark dn i e st) st1 \<or> no_new_marks dn st st1" by (simp add: st1_def no_new_marks_refl)
    show ?thesis
    proof (cases "tag_of p e = name")
      case True
      have "walked dn best i (Some e) st st1" using walked_marked[OF walked_refl refl nm] .
      then show ?thesis using True False k cur by (simp add: best nearest_step st1_def)
    next
      case nt: False
      have bd: "best (dir e) = best (Some e)" using nt by (simp add: best nearest_step)
      have "marks_ok dn best cs i st1 (set xs)" using marks_ok_step[OF _ _ nm] Cons.prems(2,4) by simp
      from Cons.IH[OF ch _ k(2) this] Cons.prems(2) obtain st' where
        st': "walk_name k' p dir name dn cs i (dir e) st1 = Ok (best (dir e), st')" "walked dn best i (dir e) st1 st'" by auto
      from walked_marked[OF st'(2) bd nm] st'(1) nt False k cur bd show ?thesis by (simp add: st1_def)
    qed
  qed
qed

lemma walk_part_finds:
  assumes best: "best = nearest dir ok res" and acc: "part_accepts p sf dn x ok res"
  shows "chain dir cur xs \<Longrightarrow> distinct xs \<Longrightarrow> length xs < k \<Longrightarrow> marks_ok dn best cs i st (set xs) \<Longrightarrow> dn < done_count st \<Longrightarrow>
    \<exists>st'. walk_part k p sf dir x dn cs i cur st = Ok (best cur, st') \<and> walked dn best i cur st st'"
proof (induction xs arbitrary: k cur st)
  case Nil
  then have "cur = None" by (cases cur) (auto simp: chain_simps)
  with Nil show ?case by (cases k) (simp_all add: best nearest_end walked_refl)
next
  case (Cons e xs)
  then obtain k' where k: "k = Suc k'" "length xs < k'" by (cases k) auto
  have cur: "cur = Some e" and ch: "chain dir (dir e) xs" using Cons.prems(1) by (simp_all add: chain_simps)
  show ?case
  proof (cases "sizcache st e = Some dn")
    case True
    with Cons.prems(4) have "cs ! sizset st e = best (Some e)" by (simp add: marks_ok_def)
    with True k cur show ?thesis using walked_refl by simp
  next
    case unmarked: False
    have rest: "\<exists>st'. walk_part k' p sf dir x dn cs i (dir e) st1 = Ok (best (dir e), st') \<and> walked dn best i (Some e) st st'"
      if nt: "\<not> ok e" and nm: "no_new_marks dn (mark dn i e st) st1 \<or> no_new_marks dn st st1" for st1
    proof -
      have bd: "best (dir e) = best (Some e)" using nt by (simp add: best nearest_step)
      have m: "marks_ok dn best cs i st1 (set xs)" using marks_ok_step[OF _ _ nm] Cons.prems(2,4) by simp
      have dc: "dn < done_count st1" using nm Cons.prems(5) by (auto simp: no_new_marks_def mark_def)
      from Cons.IH[OF ch _ k(2) m dc] Cons.prems(2) obtain st' where
        st': "walk_part k' p sf dir x dn cs i (dir e) st1 = Ok (best (dir e), st')" "walked dn best i (dir e) st1 st'" by auto
      from walked_marked[OF st'(2) bd nm] st'(1) show ?thesis by blast
    qed
    show ?thesis
    proof (cases "is_element (sdom p) e")
      case False
      then have "\<not> ok e" using acc by (auto simp: part_accepts_def)
      with rest[OF this, of st] no_new_marks_refl False unmarked k cur show ?thesis by (simp add: best nearest_step)
    next
      case True
      let ?st0 = "if xml p then st else mark dn i e st"
      have "dn < done_count ?st0" using Cons.prems(5) by (simp add: mark_def)
      with acc True obtain st1 where st1: "part_here sf x e ?st0 = Ok (if ok e then Some (res e) else None, st1)" "no_new_marks dn ?st0 st1"
        unfolding part_accepts_def by blast
      have nm: "no_new_marks dn (mark dn i e st) st1 \<or> no_new_marks dn st st1" using st1(2) by (cases "xml p") auto
      show ?thesis
      proof (cases "ok e")
        case ok: True
        have "walked dn best i (Some e) st st1" using walked_marked[OF walked_refl refl nm] .
        with ok True unmarked k cur st1(1) show ?thesis by (simp add: best nearest_step)
      next
        case nok: False
        from rest[OF nok nm] nok True unmarked k cur st1(1) show ?thesis by (simp add: best nearest_step)
      qed
    qed
  qed
qed

definition answer :: "(nat \<Rightarrow> nat option) \<Rightarrow> (nat option \<Rightarrow> slot) \<Rightarrow> slot \<Rightarrow> slot" where
  "answer dir best s = (case s of Node e \<Rightarrow> best (dir e) | STrue \<Rightarrow> SFalse | _ \<Rightarrow> s)"

lemma marks_next: "marks_ok dn best cs i st UNIV \<Longrightarrow> marks_ok dn best (cs[i := s]) (Suc i) st UNIV"
  unfolding marks_ok_def by (metis less_Suc_eq nth_list_update_neq UNIV_I less_irrefl)

lemma marks_walked:
  assumes "marks_ok dn best cs i st UNIV" and "walked dn best i cur st st'" and "i < length cs"
  shows "marks_ok dn best (cs[i := best cur]) (Suc i) st' UNIV"
  unfolding marks_ok_def
proof (intro ballI impI)
  fix n assume "sizcache st' n = Some dn"
  with assms(2) have "sizcache st n = Some dn \<and> sizset st' n = sizset st n \<or> sizset st' n = i \<and> best (Some n) = best cur"
    by (simp add: walked_def)
  then show "sizset st' n < Suc i \<and> cs[i := best cur] ! sizset st' n = best (Some n)"
    using assms(1,3) unfolding marks_ok_def by (cases "sizset st' n = i") auto
qed

lemma check_all_answers:
  assumes f: "\<And>cs i e st. i < length cs0 \<Longrightarrow> length cs = length cs0 \<Longrightarrow> cs0 ! i = Node e \<Longrightarrow> marks_ok dn best cs i st UNIV \<Longrightarrow> dn < done_count st \<Longrightarrow>
      \<exists>st'. f cs i e st = Ok (best (dir e), st') \<and> walked dn best i (dir e) st st'"
  shows "j \<le> length cs0 \<Longrightarrow> cs = map (answer dir best) (take j cs0) @ drop j cs0 \<Longrightarrow> marks_ok dn best cs j st UNIV \<Longrightarrow> dn < done_count st \<Longrightarrow>
    \<exists>st'. check_all f [j..<length cs0] cs st = Ok (map (answer dir best) cs0, st')"
proof (induction "length cs0 - j" arbitrary: j cs st)
  case 0
  then show ?case by simp
next
  case (Suc d)
  have j: "j < length cs0" using Suc.hyps(2) by simp
  then have up: "[j..<length cs0] = j # [Suc j..<length cs0]" by (rule upt_conv_Cons)
  have lc: "length cs = length cs0" and cj: "cs ! j = cs0 ! j" using Suc.prems(1,2) j by (simp_all add: nth_append)
  have nx: "cs[j := answer dir best (cs0 ! j)] = map (answer dir best) (take (Suc j) cs0) @ drop (Suc j) cs0"
    using Suc.prems(2) j by (simp add: list_update_append take_Suc_conv_app_nth Cons_nth_drop_Suc[symmetric])
  have d: "d = length cs0 - Suc j" using Suc.hyps(2) by simp
  have go: "\<exists>st'. check_all f [Suc j..<length cs0] (cs[j := answer dir best (cs0 ! j)]) st1 = Ok (map (answer dir best) cs0, st')"
    if "marks_ok dn best (cs[j := answer dir best (cs0 ! j)]) (Suc j) st1 UNIV" "dn < done_count st1" for st1
    using Suc.hyps(1)[OF d _ nx that] j by simp
  show ?case
  proof (cases "cs0 ! j")
    case (Node e)
    obtain st1 where st1: "f cs j e st = Ok (best (dir e), st1)" "walked dn best j (dir e) st st1"
      using f[OF j lc Node Suc.prems(3,4)] by blast
    have "dn < done_count st1" using st1(2) Suc.prems(4) by (simp add: walked_def)
    moreover have "marks_ok dn best (cs[j := answer dir best (cs0 ! j)]) (Suc j) st1 UNIV"
      using marks_walked[OF Suc.prems(3) st1(2)] j lc Node by (simp add: answer_def)
    ultimately show ?thesis using go[of st1] st1(1) Node cj by (simp add: up answer_def)
  next
    case STrue
    then show ?thesis using go[OF marks_next[OF Suc.prems(3)] Suc.prems(4)] cj by (simp add: up answer_def)
  next
    case SFalse
    have "answer dir best (cs0 ! j) = cs ! j" using SFalse cj by (simp add: answer_def)
    then have "cs[j := answer dir best (cs0 ! j)] = cs" by simp
    then show ?thesis using go[OF marks_next[OF Suc.prems(3)] Suc.prems(4)] cj SFalse by (simp add: up)
  next
    case SNull
    have "answer dir best (cs0 ! j) = cs ! j" using SNull cj by (simp add: answer_def)
    then have "cs[j := answer dir best (cs0 ! j)] = cs" by simp
    then show ?thesis using go[OF marks_next[OF Suc.prems(3)] Suc.prems(4)] cj SNull by (simp add: up)
  qed
qed

text \<open>The nodes a walk can pass are finitely many and none comes twice.\<close>

definition walkable :: "sdoc \<Rightarrow> (nat \<Rightarrow> nat option) \<Rightarrow> slot list \<Rightarrow> bool" where
  "walkable p dir cs \<longleftrightarrow> (\<forall>e. Node e \<in> set cs \<longrightarrow> (\<exists>xs. chain dir (dir e) xs \<and> distinct xs \<and> length xs < bound p))"

lemma marks_subset: "marks_ok dn best cs i st UNIV \<Longrightarrow> marks_ok dn best cs i st A"
  by (simp add: marks_ok_def)

lemma marks_fresh: "\<forall>n. sizcache st n \<noteq> Some dn \<Longrightarrow> marks_ok dn best cs i st A"
  by (simp add: marks_ok_def)

lemma dirNodeCheck_answers:
  assumes w: "walkable p dir cs" and fr: "\<forall>n. sizcache st n \<noteq> Some dn" and dn: "dn < done_count st"
  shows "\<exists>st'. dirNodeCheck p dir name dn cs st = Ok (map (answer dir (nearest dir (\<lambda>n. tag_of p n = name) Node)) cs, st')"
proof -
  let ?best = "nearest dir (\<lambda>n. tag_of p n = name) Node"
  have "\<exists>st'. walk_name (bound p) p dir name dn cs' i (dir e) st = Ok (?best (dir e), st') \<and> walked dn ?best i (dir e) st st'"
    if i: "i < length cs" "cs ! i = Node e" "marks_ok dn ?best cs' i st UNIV" for cs' i e st
  proof -
    have "Node e \<in> set cs" using i(1,2) by (metis nth_mem)
    then obtain xs where "chain dir (dir e) xs" "distinct xs" "length xs < bound p" using w unfolding walkable_def by blast
    from walk_name_finds[OF refl this marks_subset[OF i(3)]] show ?thesis by blast
  qed
  then show ?thesis
    unfolding dirNodeCheck_def
    using check_all_answers[of cs dn ?best _ dir 0 cs st] marks_fresh[OF fr] dn by simp
qed

lemma dirCheck_answers:
  assumes w: "walkable p dir cs" and fr: "\<forall>n. sizcache st n \<noteq> Some dn" and dn: "dn < done_count st" and acc: "part_accepts p sf dn x ok res"
  shows "\<exists>st'. dirCheck p sf dir x dn cs st = Ok (map (answer dir (nearest dir ok res)) cs, st')"
proof -
  let ?best = "nearest dir ok res"
  have "\<exists>st'. walk_part (bound p) p sf dir x dn cs' i (dir e) st = Ok (?best (dir e), st') \<and> walked dn ?best i (dir e) st st'"
    if i: "i < length cs" "cs ! i = Node e" "marks_ok dn ?best cs' i st UNIV" "dn < done_count st" for cs' i e st
  proof -
    have "Node e \<in> set cs" using i(1,2) by (metis nth_mem)
    then obtain xs where "chain dir (dir e) xs" "distinct xs" "length xs < bound p" using w unfolding walkable_def by blast
    from walk_part_finds[OF refl acc this marks_subset[OF i(3)] i(4)] show ?thesis by blast
  qed
  then show ?thesis
    unfolding dirCheck_def
    using check_all_answers[of cs dn ?best _ dir 0 cs st] marks_fresh[OF fr] dn by simp
qed

text \<open>What a part of a selector accepts: nodes of a name, elements its filters let pass, or the context.\<close>

definition accepts_as :: "sdoc \<Rightarrow> filter_call \<Rightarrow> part \<Rightarrow> (nat \<Rightarrow> bool) \<Rightarrow> bool" where
  "accepts_as p sf x ok \<longleftrightarrow> (case x of
      Here q \<Rightarrow> ok = (\<lambda>e. is_element (sdom p) e \<and> e = q)
    | Text t \<Rightarrow>
        if rNonWord t then
          (\<forall>e. ok e \<longrightarrow> is_element (sdom p) e) \<and>
          (\<forall>e st. is_element (sdom p) e \<longrightarrow> (\<exists>ret cs st'. sf t [Node e] False False st = Ok (ret, cs, st') \<and> (ret \<noteq> []) = ok e \<and>
             (\<forall>dn<done_count st. no_new_marks dn st st')))
        else ok = (\<lambda>e. tag_of p e = to_lower t))"

text \<open>
  C14: the relations of ancestors and of earlier siblings find for every element of the set the nearest node that
  the part accepts, though each walk stops at the first node that an earlier one has marked, and though the filters called on the way may
  take marks away.
\<close>

theorem marked_walks_find_the_nearest:
  assumes w: "walkable p dir cs" and fr: "\<forall>n. sizcache st n \<noteq> Some (done_count st)" and acc: "accepts_as p sf x ok"
  shows "\<exists>st'. rel_walk p sf dir cs x st =
    Ok (map (\<lambda>s. case s of
          Node e \<Rightarrow> (case seek dir ok (dir e) of Some (Some n) \<Rightarrow> (case x of Here q \<Rightarrow> STrue | Text t \<Rightarrow> Node n) | _ \<Rightarrow> SFalse)
        | STrue \<Rightarrow> SFalse
        | _ \<Rightarrow> s) cs, st')"
proof -
  let ?st = "st\<lparr>done_count := done_count st + 1\<rparr>" and ?dn = "done_count st"
  let ?res = "\<lambda>n. case x of Here q \<Rightarrow> STrue | Text t \<Rightarrow> Node n"
  have fr1: "\<forall>n. sizcache ?st n \<noteq> Some ?dn" and dn: "?dn < done_count ?st" using fr by simp_all
  have an: "(\<lambda>s. case s of Node e \<Rightarrow> (case seek dir ok (dir e) of Some (Some n) \<Rightarrow> ?res n | _ \<Rightarrow> SFalse) | STrue \<Rightarrow> SFalse | _ \<Rightarrow> s)
      = answer dir (nearest dir ok ?res)"
    by (auto simp: answer_def nearest_def fun_eq_iff split: slot.split)
  show ?thesis
  proof (cases x)
    case (Here q)
    have "part_accepts p sf ?dn x ok ?res"
      using acc Here by (auto simp: part_accepts_def accepts_as_def part_here_def no_new_marks_refl)
    from dirCheck_answers[OF w fr1 dn this] show ?thesis unfolding an using Here by (simp add: rel_walk_def Let_def)
  next
    case (Text t)
    show ?thesis
    proof (cases "rNonWord t")
      case True
      have "part_accepts p sf ?dn x ok ?res"
        unfolding part_accepts_def
      proof (intro conjI allI impI)
        show "is_element (sdom p) e" if "ok e" for e using acc that Text True by (simp add: accepts_as_def)
        fix e and st :: sstate assume e: "is_element (sdom p) e" and dc: "?dn < done_count st"
        have "\<exists>ret cs st'. sf t [Node e] False False st = Ok (ret, cs, st') \<and> (ret \<noteq> []) = ok e \<and> (\<forall>dn<done_count st. no_new_marks dn st st')"
          using acc e Text True unfolding accepts_as_def by simp
        with dc Text show "\<exists>st'. part_here sf x e st = Ok (if ok e then Some (?res e) else None, st') \<and> no_new_marks ?dn st st'"
          by (auto simp: part_here_def)
      qed
      from dirCheck_answers[OF w fr1 dn this] show ?thesis unfolding an using Text True by (simp add: rel_walk_def Let_def)
    next
      case False
      then have "ok = (\<lambda>n. tag_of p n = to_lower t)" using acc Text by (simp add: accepts_as_def)
      with dirNodeCheck_answers[OF w fr1 dn, of "to_lower t"] show ?thesis unfolding an using Text False by (simp add: rel_walk_def Let_def)
    qed
  qed
qed

section \<open>The engine's own loops end\<close>

text \<open>A match reads on: what is left after it is a rest of what was left before.\<close>

definition reads_on :: "mstate \<Rightarrow> mstate \<Rightarrow> bool" where
  "reads_on s s' \<longleftrightarrow> at_pos s \<le> at_pos s' \<and> at_pos s' - at_pos s \<le> length (left s) \<and> left s' = drop (at_pos s' - at_pos s) (left s)"

lemma reads_on_refl: "reads_on s s"
  by (simp add: reads_on_def)

lemma reads_on_trans: "reads_on a b \<Longrightarrow> reads_on b c \<Longrightarrow> reads_on a c"
  by (auto simp: reads_on_def)

lemma reads_on_length: "reads_on s s' \<Longrightarrow> length (left s') = length (left s) - (at_pos s' - at_pos s)"
  by (simp add: reads_on_def)

lemma all_turns_read:
  assumes f: "\<And>s s'. s' \<in> set (f s) \<Longrightarrow> reads_on s s'"
  shows "s' \<in> set (all_turns g n f s) \<Longrightarrow> reads_on s s'"
proof (induction n arbitrary: s)
  case 0
  then show ?case by (simp add: reads_on_refl)
next
  case (Suc n)
  then have "s' = s \<or> (\<exists>t\<in>set (f s). s' \<in> set (all_turns g n f t))" by (auto simp: Let_def split: if_splits)
  with Suc.IH f reads_on_trans reads_on_refl show ?case by blast
qed

lemma all_matches_read: "s' \<in> set (all_matches r s) \<Longrightarrow> reads_on s s'"
proof (induction r arbitrary: s s')
  case (Cls neg cs)
  then show ?case by (cases "left s") (auto simp: reads_on_def advance_def split: if_splits)
next
  case (Seq a b)
  then obtain t where "t \<in> set (all_matches a s)" "s' \<in> set (all_matches b t)" by auto
  with Seq.IH reads_on_trans show ?case by blast
next
  case (Rep g a)
  then show ?case using all_turns_read[of "all_matches a"] by auto
next
  case (Grp i a)
  then show ?case by (auto simp: reads_on_def capture_def)
next
  case (Back i)
  then show ?case
    by (auto simp: reads_on_refl split: option.splits if_splits)
      (metis advance_def append_take_drop_id diff_add_inverse le_add1 length_append mstate.select_convs(1,2) mstate.simps(5,6) mstate.surjective mstate.update_convs(1,2) reads_on_def)
next
  case (Look b a)
  then show ?case by (auto simp: reads_on_def split: list.splits if_splits)
qed (auto simp: reads_on_refl split: if_splits)

text \<open>Expressions that read at least a character.\<close>

primrec needs_char :: "re \<Rightarrow> bool" where
  "needs_char Eps = False"
| "needs_char (Cls neg cs) = True"
| "needs_char (Seq a b) = (needs_char a \<or> needs_char b)"
| "needs_char (Alt a b) = (needs_char a \<and> needs_char b)"
| "needs_char (Rep g a) = False"
| "needs_char (Grp i a) = needs_char a"
| "needs_char (Back i) = False"
| "needs_char (Look b a) = False"
| "needs_char Bol = False"
| "needs_char Eol = False"

lemma needs_char_reads: "needs_char r \<Longrightarrow> s' \<in> set (all_matches r s) \<Longrightarrow> at_pos s < at_pos s'"
proof (induction r arbitrary: s s')
  case (Cls neg cs)
  then show ?case by (auto simp: advance_def split: list.splits if_splits)
next
  case (Seq a b)
  then obtain t where t: "t \<in> set (all_matches a s)" "s' \<in> set (all_matches b t)" by auto
  have "at_pos s \<le> at_pos t" "at_pos t \<le> at_pos s'" using all_matches_read[OF t(1)] all_matches_read[OF t(2)] by (simp_all add: reads_on_def)
  with Seq t show ?case by fastforce
next
  case (Grp i a)
  then show ?case by (auto simp: capture_def)
qed auto

lemma first_some_in: "first_some Some xs = Some x \<Longrightarrow> x \<in> set xs"
  by (simp add: first_some_Some split: list.splits)

lemma exec_from_match:
  "exec_from r i s = Some m \<Longrightarrow> \<exists>n m'. n \<le> length s \<and> index m = i + n \<and>
     m' \<in> set (all_matches r \<lparr>at_pos = i + n, left = drop n s, caps = []\<rparr>) \<and> whole m = take (at_pos m' - (i + n)) (drop n s) \<and> group m = caps m'"
proof (induction s arbitrary: i)
  case Nil
  then show ?case
    by (auto simp: exec_from.simps[of r i "[]"] attempt_is_first_match dest!: first_some_in split: option.splits intro!: exI[of _ 0])
next
  case (Cons c cs)
  show ?case
  proof (cases "attempt r \<lparr>at_pos = i, left = c # cs, caps = []\<rparr> Some")
    case (Some m')
    with Cons.prems have "m = \<lparr>index = i, whole = take (at_pos m' - i) (c # cs), group = caps m'\<rparr>"
      by (simp add: exec_from.simps[of r i "c # cs"])
    moreover have "m' \<in> set (all_matches r \<lparr>at_pos = i, left = c # cs, caps = []\<rparr>)"
      using Some first_some_in by (simp add: attempt_is_first_match)
    ultimately show ?thesis by (intro exI[of _ 0] exI[of _ m']) simp
  next
    case None
    with Cons.prems have "exec_from r (Suc i) cs = Some m" by (simp add: exec_from.simps[of r i "c # cs"])
    from Cons.IH[OF this] obtain n m' where "n \<le> length cs" "index m = Suc i + n"
      "m' \<in> set (all_matches r \<lparr>at_pos = Suc i + n, left = drop n cs, caps = []\<rparr>)" "whole m = take (at_pos m' - (Suc i + n)) (drop n cs)"
      "group m = caps m'" by blast
    then show ?thesis by (intro exI[of _ "Suc n"] exI[of _ m']) simp
  qed
qed

lemma erase_shorter: "erase r s = s \<or> length (erase r s) < length s"
proof (cases "exec r s")
  case None
  then show ?thesis by (simp add: erase_def)
next
  case (Some m)
  from exec_from_match[OF Some[unfolded exec_def]] obtain n j where n: "n \<le> length s" "index m = n" "whole m = take j (drop n s)" by auto
  have e: "erase r s = take n s @ drop (n + length (whole m)) s" using Some n(2) by (simp add: erase_def)
  show ?thesis
  proof (cases "whole m = []")
    case True
    then show ?thesis using e by simp
  next
    case False
    then have "length (whole m) > 0" "n + length (whole m) \<le> length s" using n by auto
    moreover from this have "length (erase r s) = length s - length (whole m)" using e n(1) by simp
    ultimately have "length (erase r s) < length s" by linarith
    then show ?thesis by blast
  qed
qed

lemma chunk_shorter:
  assumes "exec_global chunker 0 s = (Some m, li)"
  shows "length (gtext m 3) < length s"
proof -
  have x: "exec_from chunker 0 s = Some m" using assms by (auto simp: exec_global_def split: if_splits option.splits)
  from exec_from_match[OF this] obtain n m' where n: "n \<le> length s"
    "m' \<in> set (all_matches chunker \<lparr>at_pos = n, left = drop n s, caps = []\<rparr>)" "group m = caps m'" by auto
  let ?s0 = "\<lparr>at_pos = n, left = drop n s, caps = []\<rparr>"
  obtain a b c where ch: "chunker = Seq (Grp 1 a) (Seq (opt b) (Grp 3 c))" "needs_char a"
    by (simp add: chunker_def ch_def)
  obtain s1 s2 s3 where t: "s1 \<in> set (all_matches (Grp 1 a) ?s0)" "s2 \<in> set (all_matches (opt b) s1)" "s3 \<in> set (all_matches c s2)" "m' = capture 3 s2 s3"
    using n(2) unfolding ch(1) by auto
  have "at_pos ?s0 < at_pos s1" using needs_char_reads[OF _ t(1)] ch(2) by simp
  moreover have r: "reads_on ?s0 s1" "reads_on s1 s2" using all_matches_read t(1,2) by blast+
  ultimately have "length (left s2) < length s"
    using reads_on_length[OF r(1)] reads_on_length[OF r(2)] n(1) by (auto simp: reads_on_def)
  moreover have "length (gtext m 3) \<le> length (left s2)"
    using n(3) t(4) by (simp add: gtext_def grp_def capture_def update_conv')
  ultimately show ?thesis by linarith
qed

lemma andthen_out: "andthen r f \<noteq> Out \<longleftrightarrow> r \<noteq> Out \<and> (\<forall>x. r = Ok x \<longrightarrow> f x \<noteq> Out)"
  by (cases r) auto

text \<open>The split of a selector ends.\<close>

lemma chunks_end: "length s < k \<Longrightarrow> chunks k s \<noteq> Out"
proof (induction k arbitrary: s)
  case (Suc k)
  show ?case
  proof (cases "exec_global chunker 0 s")
    case (Pair r li)
    show ?thesis
    proof (cases r)
      case None
      with Pair show ?thesis by simp
    next
      case (Some m)
      have "length (gtext m 3) < k" using chunk_shorter[of s m li] Pair Some Suc.prems by simp
      from Suc.IH[OF this] Pair Some show ?thesis by (auto simp: andthen_out)
    qed
  qed
qed simp

text \<open>Filters end when the calls they make do.\<close>

definition ending :: "sdoc \<Rightarrow> sizzle_call \<Rightarrow> filter_call \<Rightarrow> bool" where
  "ending p siz sf \<longleftrightarrow> dom_inv (sdom p) \<and> (\<forall>a b c d e. siz a b c d e \<noteq> Out) \<and> (\<forall>a b c d e. sf a b c d e \<noteq> Out)"

lemma seek_ends:
  assumes "dom_inv (sdom p)"
  shows "seek (previousSibling (sdom p)) P (previousSibling (sdom p) e) \<noteq> None" "seek (nextSibling (sdom p)) P (nextSibling (sdom p) e) \<noteq> None"
  using seek_chain[OF chain_prev[OF assms]] seek_chain[OF chain_next[OF assms]] by simp_all

lemma child_filter_ends: "dom_inv (sdom p) \<Longrightarrow> child_filter p type a b dn e st \<noteq> Out"
  using seek_ends[of p "is_element (sdom p)" e]
  by (auto simp: child_filter_def elem_before_def elem_after_def andthen_out split: option.splits)

lemma apply_token_ends: "ending p siz sf \<Longrightarrow> apply_token p siz t e i len st \<noteq> Out"
  using child_filter_ends[of p]
  by (auto simp: ending_def apply_token_def pseudo_filter_def andthen_out split: token.splits option.splits)

lemma run_token_ends: "ending p siz sf \<Longrightarrow> run_token p siz t inplace neg i len ss st \<noteq> Out"
proof (induction ss arbitrary: i st)
  case (Cons s ss)
  then show ?case using apply_token_ends[OF Cons.prems]
    by (cases s) (auto simp: andthen_out Let_def)
qed simp

lemma prefilter_ends: "ending p siz sf \<Longrightarrow> prefilter p siz sf t m isxml cur inplace neg st \<noteq> Out"
  by (cases t) (auto simp: ending_def prefilter_def not_prefilter_def child_prefilter_def andthen_out Let_def split: prod.splits)

lemma try_types_ends: "ending p siz sf \<Longrightarrow> try_types p siz sf isxml inplace neg ts expr cur any_found found st \<noteq> Out"
proof (induction ts arbitrary: cur any_found found st)
  case (Cons t ts)
  show ?case
  proof (cases "exec (left_re t) expr")
    case None
    with Cons show ?thesis by simp
  next
    case (Some m)
    have "(case pr of
              Skip \<Rightarrow> try_types p siz sf isxml inplace neg ts expr cur (Some False) found st1
            | Handled cs rs \<Rightarrow> Ok (Applied (erase (match_re t) expr) True, if inplace then cs else rs, Some True, True, st1)
            | Try tok \<Rightarrow> andthen (run_token p siz tok inplace neg 0 (length cur) cur st1) (\<lambda>(cs, rs, any, tried, st2).
                if found \<or> tried then Ok (Applied (erase (match_re t) expr) any, if inplace then cs else rs, Some any, True, st2)
                else try_types p siz sf isxml inplace neg ts expr cur (Some False) found st2)) \<noteq> Out" for pr st1
      using Cons run_token_ends[OF Cons.prems] by (cases pr) (auto simp: andthen_out)
    then show ?thesis using Some Cons prefilter_ends[OF Cons.prems] by (auto simp: andthen_out)
  qed
qed simp

lemma try_types_erase:
  "try_types p siz sf isxml inplace neg ts expr cur any_found found st = Ok (Applied e1 any, c1, a1, f1, st1) \<Longrightarrow> \<exists>t. e1 = erase (match_re t) expr"
proof (induction ts arbitrary: cur any_found found st)
  case (Cons t ts)
  show ?case
  proof (cases "exec (left_re t) expr")
    case None
    with Cons show ?thesis by simp
  next
    case (Some m)
    show ?thesis
    proof (cases "gtext m 2 = [] \<or> ends_escaped (gtext m 1)")
      case True
      with Cons Some show ?thesis by (auto split: if_splits)
    next
      case False
      with Some Cons.prems obtain pr st2 where pr: "prefilter p siz sf t m isxml cur inplace neg st = Ok (pr, st2)"
        by (cases "prefilter p siz sf t m isxml cur inplace neg st") auto
      show ?thesis
      proof (cases pr)
        case (Try tok)
        with False Some Cons.prems pr obtain cs rs any' tried st3 where
          "run_token p siz tok inplace neg 0 (length cur) cur st2 = Ok (cs, rs, any', tried, st3)"
          by (cases "run_token p siz tok inplace neg 0 (length cur) cur st2") auto
        with False Some Cons pr Try show ?thesis by (auto split: if_splits)
      qed (use False Some Cons pr in auto)
    qed
  qed
qed simp

lemma filter_rounds_end:
  "ending p siz sf \<Longrightarrow> length expr < k \<Longrightarrow> filter_rounds k p siz sf isxml inplace neg expr cur any_found found st \<noteq> Out"
proof (induction k arbitrary: expr cur any_found found st)
  case (Suc k)
  show ?case
  proof (cases "try_types p siz sf isxml inplace neg filter_order expr cur any_found found st")
    case (Ok x)
    obtain r c1 a1 f1 st1 where x: "x = (r, c1, a1, f1, st1)" by (cases x)
    show ?thesis
    proof (cases r)
      case (Applied e1 any)
      obtain t where "e1 = erase (match_re t) expr" using try_types_erase Ok x Applied by blast
      then have "e1 = expr \<or> length e1 < k" using erase_shorter[of "match_re t" expr] Suc.prems(2) by auto
      then show ?thesis using Suc.IH[OF Suc.prems(1)] Ok x Applied by auto
    qed (use Ok x in auto)
  qed (use try_types_ends[OF Suc.prems(1)] in auto)
qed simp

lemma filter_body_ends: "ending p siz sf \<Longrightarrow> filter_body p siz sf expr set1 inplace neg st \<noteq> Out"
  using filter_rounds_end[of p siz sf expr "Suc (length expr)"] by (auto simp: filter_body_def andthen_out Let_def)

text \<open>Walks end when the bound is above every chain.\<close>

definition bounded :: "sdoc \<Rightarrow> bool" where
  "bounded p \<longleftrightarrow> (\<forall>e. (\<exists>xs. chain (parentNode (sdom p)) (parentNode (sdom p) e) xs \<and> length xs < bound p) \<and>
     (\<exists>xs. chain (previousSibling (sdom p)) (previousSibling (sdom p) e) xs \<and> length xs < bound p))"

lemma walk_name_ends: "chain dir cur xs \<Longrightarrow> length xs < k \<Longrightarrow> walk_name k p dir name dn cs i cur st \<noteq> Out"
proof (induction k arbitrary: cur xs st)
  case (Suc k)
  show ?case
  proof (cases cur)
    case (Some e)
    then obtain ys where "xs = e # ys" "chain dir (dir e) ys" using Suc.prems(1) by (auto simp: chain_simps)
    with Suc show ?thesis by (simp add: Some Let_def)
  qed simp
qed simp

lemma walk_part_ends:
  assumes "\<And>a b c d e. sf a b c d e \<noteq> Out"
  shows "chain dir cur xs \<Longrightarrow> length xs < k \<Longrightarrow> walk_part k p sf dir x dn cs i cur st \<noteq> Out"
proof (induction k arbitrary: cur xs st)
  case (Suc k)
  show ?case
  proof (cases cur)
    case (Some e)
    then obtain ys where ys: "xs = e # ys" "chain dir (dir e) ys" using Suc.prems(1) by (auto simp: chain_simps)
    have "part_here sf x e st' \<noteq> Out" for st' using assms by (cases x) (auto simp: part_here_def andthen_out)
    then show ?thesis using Suc.IH[OF ys(2)] Suc.prems(2) ys(1) by (auto simp: Some andthen_out Let_def split: option.split)
  qed simp
qed simp

lemma check_all_ends:
  assumes "\<And>cs i e st. f cs i e st \<noteq> Out"
  shows "check_all f ns cs st \<noteq> Out"
proof (induction ns arbitrary: cs st)
  case (Cons i ns)
  show ?case
  proof (cases "cs ! i")
    case (Node e)
    with Cons assms show ?thesis by (auto simp: andthen_out)
  qed (use Cons in simp_all)
qed simp

lemma rel_walk_ends:
  assumes sf: "\<And>a b c d e. sf a b c d e \<noteq> Out" and dir: "\<And>e. \<exists>xs. chain dir (dir e) xs \<and> length xs < bound p"
  shows "rel_walk p sf dir cs x st \<noteq> Out"
proof -
  have n: "dirNodeCheck p dir name dn cs st \<noteq> Out" for name dn st
    unfolding dirNodeCheck_def by (rule check_all_ends) (use dir walk_name_ends in blast)
  have d: "dirCheck p sf dir x dn cs st \<noteq> Out" for dn st
    unfolding dirCheck_def
  proof (rule check_all_ends)
    fix cs i e st
    obtain xs where "chain dir (dir e) xs" "length xs < bound p" using dir by blast
    then show "walk_part (bound p) p sf dir x dn cs i (dir e) st \<noteq> Out" by (rule walk_part_ends[OF sf])
  qed
  show ?thesis using n d by (cases x) (simp_all add: rel_walk_def Let_def)
qed

lemma each_slot_ends: "(\<And>s. f s \<noteq> Out) \<Longrightarrow> each_slot f ss \<noteq> Out"
  by (induction ss) (auto simp: andthen_out)

lemma filter_part_ends: "(\<And>a b c d e. sf a b c d e \<noteq> Out) \<Longrightarrow> filter_part sf x cs st \<noteq> Out"
  by (cases x) (auto simp: filter_part_def andthen_out)

lemma slot_steps_end:
  assumes d: "dom_inv (sdom p)"
  shows "plus_slot p x s \<noteq> Out" "child_slot p x s \<noteq> Out"
  using seek_ends(1)[OF d]
  by (cases s; auto simp: plus_slot_def prev_element_def andthen_out split: option.splits)
    (cases s; auto simp: child_slot_def Let_def split: option.splits part.splits)

lemma apply_rel_ends: "ending p siz sf \<Longrightarrow> bounded p \<Longrightarrow> apply_rel p sf rel cs x st \<noteq> Out"
  using rel_walk_ends[of sf _ p cs x st] slot_steps_end[of p x] each_slot_ends[of "plus_slot p x"] each_slot_ends[of "child_slot p x"] filter_part_ends[of sf x]
  by (auto simp: apply_rel_def rel_plus_def rel_child_def andthen_out ending_def bounded_def)

lemma relate_ends: "ending p siz sf \<Longrightarrow> bounded p \<Longrightarrow> relate p sf ctx parts cs st \<noteq> Out"
  by (induction p sf ctx parts cs st rule: relate.induct) (auto simp: andthen_out apply_rel_ends)

lemma root_context_ends: "ending p siz sf \<Longrightarrow> root_context p sf seeded parts ctx st \<noteq> Out"
  by (cases "sizzle_find p (hd parts) ctx") (auto simp: root_context_def andthen_out ending_def)

lemma start_set_ends: "ending p siz sf \<Longrightarrow> start_set p sf seed parts ctx st \<noteq> Out"
  unfolding start_set_def Let_def by (auto simp: andthen_out ending_def split: prod.split)

lemma from_right_ends:
  assumes e: "ending p siz sf" and b: "bounded p"
  shows "from_right p sf seed parts ctx st \<noteq> Out"
proof -
  have step: "(if ps = [] then (case seed of None \<Rightarrow> Throws | Some ss \<Rightarrow> Ok (nodes ss, st1))
      else andthen (start_set p sf seed ps c st1) (\<lambda>(set1, st2).
             if butlast ps = [] then Ok (nodes set1, st2)
             else andthen (relate p sf c (rev (butlast ps)) set1 st2) (\<lambda>(cs, st3). Ok (pruned p (Some c) cs set1, st3)))) \<noteq> Out" for ps c st1
    using start_set_ends[OF e] relate_ends[OF e b] by (auto simp: andthen_out split: option.split)
  show ?thesis unfolding from_right_def using root_context_ends[OF e] step by (auto simp: andthen_out split: option.split)
qed

lemma strip_pseudos_ends: "length s < k \<Longrightarrow> strip_pseudos k s \<noteq> Out"
proof (induction k arbitrary: s)
  case (Suc k)
  show ?case
  proof (cases "exec (match_re PSEUDO) s")
    case (Some m)
    from exec_from_match[OF Some[unfolded exec_def]] obtain n m' where n: "n \<le> length s" "index m = n"
      "m' \<in> set (all_matches (match_re PSEUDO) \<lparr>at_pos = n, left = drop n s, caps = []\<rparr>)" "whole m = take (at_pos m' - n) (drop n s)" by auto
    have "needs_char (match_re PSEUDO)" by (simp add: match_re_def ch_def)
    from needs_char_reads[OF this n(3)] all_matches_read[OF n(3)] have "whole m \<noteq> []" using n(1,4) by (auto simp: reads_on_def)
    then have "erase (match_re PSEUDO) s \<noteq> s" using Some n by (auto simp: erase_def dest!: arg_cong[where f = length])
    then have "length (erase (match_re PSEUDO) s) < k" using erase_shorter[of "match_re PSEUDO" s] Suc.prems by auto
    from Suc.IH[OF this] Some show ?thesis by (auto simp: andthen_out)
  qed simp
qed simp

lemma from_roots_ends: "(\<And>a b c d e. siz a b c d e \<noteq> Out) \<Longrightarrow> from_roots p siz sel rs tmp st \<noteq> Out"
  by (induction rs arbitrary: tmp st) (auto simp: andthen_out)

lemma posProcess_ends: "ending p siz sf \<Longrightarrow> posProcess p siz sf sel roots st \<noteq> Out"
  using strip_pseudos_ends[of sel "Suc (length sel)"] from_roots_ends[of siz]
  by (auto simp: posProcess_def andthen_out ending_def)

lemma pos_parts_ends: "ending p siz sf \<Longrightarrow> pos_parts p siz sf parts ns st \<noteq> Out"
  by (induction p siz sf parts ns st rule: pos_parts.induct) (auto simp: andthen_out posProcess_ends)

lemma by_position_ends: "ending p siz sf \<Longrightarrow> by_position p siz sf parts ctx st \<noteq> Out"
  using posProcess_ends[of p siz sf] pos_parts_ends[of p siz sf]
  by (auto simp: by_position_def andthen_out ending_def split: list.splits)

text \<open>A call of \<open>Sizzle\<close> ends, whatever the selector, when the calls it makes of itself and of \<open>Sizzle.filter\<close> do; and so does a call of \<open>Sizzle.filter\<close>.\<close>

theorem sizzle_ends_with_its_calls:
  assumes "dom_inv (sdom p)" and "bounded p"
    and "\<And>sel ctx results seed st. siz sel ctx results seed st \<noteq> Out" and "\<And>expr set1 inplace neg st. sf expr set1 inplace neg st \<noteq> Out"
  shows "sizzle_body p siz sf selector ctx results seed st \<noteq> Out \<and> filter_body p siz sf expr set1 inplace neg st \<noteq> Out"
proof
  have e: "ending p siz sf" using assms by (simp add: ending_def)
  show "sizzle_body p siz sf selector ctx results seed st \<noteq> Out"
    using chunks_end[of selector "Suc (length selector)"] by_position_ends[OF e] from_right_ends[OF e assms(2)] assms(3)
    by (auto simp: sizzle_body_def andthen_out Let_def)
  show "filter_body p siz sf expr set1 inplace neg st \<noteq> Out" by (rule filter_body_ends[OF e])
qed

section \<open>A selector for which there is no end\<close>

definition child_with_quote :: string where
  "child_with_quote = ''>p[a='' @ [CHR 0x27] @ '':first'' @ [CHR 0x27] @ '']''"

lemma child_with_quote_parts:
  "chunks (Suc (length child_with_quote)) child_with_quote = Ok ([''>'', tl child_with_quote], [], 0)"
  "test (source_re POS) child_with_quote"
  "strip_pseudos (Suc (length child_with_quote)) child_with_quote = Ok ([], child_with_quote)"
  "relative child_with_quote = False" "''>'' @ tl child_with_quote = child_with_quote" "child_with_quote \<noteq> []"
  by (code_simp, code_simp, code_simp, code_simp, code_simp, code_simp)

text \<open>A selector of a child relation whose attribute value looks like a position calls itself without end, on every page.\<close>

theorem position_in_quotes_never_ends:
  assumes "ntype (sdom p) ctx = 1 \<or> ntype (sdom p) ctx = 9"
  shows "fst (engine n p) child_with_quote ctx results seed st = Out"
proof (induction n arbitrary: results seed st)
  case (Suc n)
  obtain siz sf where e: "engine n p = (siz, sf)" by fastforce
  have "siz child_with_quote ctx [] None st1 = Out" for st1 using Suc.IH e by simp
  then have pp: "posProcess p siz sf child_with_quote [ctx] st1 = Out" for st1
    unfolding posProcess_def child_with_quote_parts(3) using assms by (auto simp: child_with_quote_parts(4))
  have r: "relative ''>''" by (simp add: relative_def)
  have bp: "by_position p siz sf [''>'', tl child_with_quote] ctx st1 = Out" for st1
    unfolding by_position_def list.case if_P[OF r] child_with_quote_parts(5) by (rule pp)
  have "fst (engine (Suc n) p) child_with_quote ctx results seed st = sizzle_body p siz sf child_with_quote ctx results seed st"
    by (simp add: e)
  also have "\<dots> = Out"
    unfolding sizzle_body_def child_with_quote_parts(1) using assms child_with_quote_parts(2,6) bp
    by (auto simp: Let_def simp del: source_re.simps)
  finally show ?case .
qed simp

section \<open>Filtering in place\<close>

text \<open>
  Filtering in place and collecting agree: in place no element changes its position, those that fail become \<open>false\<close>, and
  the ones left up to the first \<open>null\<close> are those that the other way collects, with the same marks on the nodes.
\<close>

theorem in_place_is_collecting:
  assumes "run_token p siz t True neg i len ss st = Ok (cs, rs, any, tried, st')"
  shows "length cs = length ss \<and> (\<forall>j<length ss. cs ! j = ss ! j \<or> cs ! j = SFalse) \<and> any = (nodes (to_null cs) \<noteq> []) \<and>
    run_token p siz t False neg i len ss st = Ok (ss, map Node (nodes (to_null cs)), any, tried, st')"
  using assms
proof (induction ss arbitrary: i st cs rs any tried)
  case Nil
  then show ?case by (simp add: to_null_def nodes_def)
next
  case (Cons s ss)
  have nth: "(\<forall>j<length (s # ss). (c # cs1) ! j = (s # ss) ! j \<or> (c # cs1) ! j = SFalse) \<longleftrightarrow>
      (c = s \<or> c = SFalse) \<and> (\<forall>j<length ss. cs1 ! j = ss ! j \<or> cs1 ! j = SFalse)" for c cs1
    by (auto simp: less_Suc_eq_0_disj)
  show ?case
  proof (cases s)
    case SNull
    with Cons.prems show ?thesis by (auto simp: to_null_def nodes_def)
  next
    case STrue
    with Cons.prems show ?thesis by simp
  next
    case SFalse
    with Cons.prems obtain cs1 where c: "run_token p siz t True neg (Suc i) len ss st = Ok (cs1, rs, any, tried, st')" "cs = SFalse # cs1"
      by (cases "run_token p siz t True neg (Suc i) len ss st") auto
    from Cons.IH[OF c(1)] show ?thesis unfolding c(2) SFalse nth[unfolded SFalse] by (simp add: to_null_def nodes_def)
  next
    case (Node e)
    with Cons.prems obtain b st1 where b: "apply_token p siz t e i len st = Ok (b, st1)"
      by (cases "apply_token p siz t e i len st") auto
    with Node Cons.prems obtain cs1 rs1 any1 tried1 where c: "run_token p siz t True neg (Suc i) len ss st1 = Ok (cs1, rs1, any1, tried1, st')"
      by (cases "run_token p siz t True neg (Suc i) len ss st1") auto
    have r: "cs = (if neg \<noteq> b then Node e else SFalse) # cs1" "any = (any1 \<or> neg \<noteq> b)" "tried"
      using Node Cons.prems b c by (auto simp: Let_def)
    from Cons.IH[OF c] show ?thesis unfolding r(1) Node nth[unfolded Node] using b r(2,3) by (auto simp: to_null_def nodes_def Let_def)
  qed
qed

section \<open>Witnesses\<close>

text \<open>A document with \<open>html\<close>, in it a \<open>div\<close> of class x and a \<open>q\<close>, and in the \<open>div\<close> three \<open>p\<close>, the first of class y.\<close>

definition leaf_page :: sdoc where
  "leaf_page = \<lparr>
     sdom = \<lparr>childNodes = (\<lambda>n. if n = 0 then [1] else if n = 1 then [2, 3] else if n = 2 then [4, 5, 6] else []),
       parentNode = (\<lambda>n. if n = 1 then Some 0 else if n = 2 \<or> n = 3 then Some 1 else if n = 4 \<or> n = 5 \<or> n = 6 then Some 2 else None),
       ntype = (\<lambda>n. if n = 0 then 9 else 1), nodeValue = (\<lambda>n. [])\<rparr>,
     nodeName = (\<lambda>n. if n = 0 then ''#document'' else if n = 1 then ''HTML'' else if n = 2 then ''DIV'' else if n = 3 then ''Q'' else ''P''),
     attribute = (\<lambda>n a. if n = 4 \<and> a = ''class'' then Some ''y'' else if n = 2 \<and> a = ''class'' then Some ''x'' else None),
     property = (\<lambda>n a. if n = 4 \<and> a = ''className'' then Str ''y'' else if n = 2 \<and> a = ''className'' then Str ''x'' else Undefined),
     object_text = (\<lambda>n. []), docnode = 0, bound = 7, active = None, xml = False, by_class = True, more_filters = (\<lambda>s. None)\<rparr>"

definition clean_state :: sstate where
  "clean_state = \<lparr>done_count = 0, sizcache = (\<lambda>n. None), sizset = (\<lambda>n. 0), nodeIndex = (\<lambda>n. 0), lastIndex = 0\<rparr>"

lemma leaf_dom: "dom_inv (sdom leaf_page)"
  unfolding dom_inv_def
proof (intro conjI allI)
  show "\<exists>depth :: nat \<Rightarrow> nat. \<forall>c p. parentNode (sdom leaf_page) c = Some p \<longrightarrow> depth p < depth c"
    by (rule exI[of _ "\<lambda>n. n"]) (auto simp: leaf_page_def split: if_splits)
  show "(parentNode (sdom leaf_page) c = Some p) = (c \<in> set (childNodes (sdom leaf_page) p))" for c p
    by (auto simp: leaf_page_def)
  show "distinct (childNodes (sdom leaf_page) p)" for p by (simp add: leaf_page_def)
qed

lemma leaf_up: "chain (parentNode (sdom leaf_page)) (parentNode (sdom leaf_page) e)
    (if e = 1 then [0] else if e = 2 \<or> e = 3 then [1, 0] else if e = 4 \<or> e = 5 \<or> e = 6 then [2, 1, 0] else [])"
  by (simp add: leaf_page_def chain_simps)

theorem nth_child_counts_witness:
  "fst (nth_child leaf_page (Some 2) (Some 1) 0 6 clean_state) \<and> \<not> fst (nth_child leaf_page (Some 2) (Some 1) 0 5 clean_state)"
proof -
  have n: "numbered leaf_page 0 clean_state" by (simp add: numbered_def clean_state_def)
  have q: "parentNode (sdom leaf_page) 6 = Some 2" "is_element (sdom leaf_page) 6" "parentNode (sdom leaf_page) 5 = Some 2"
    "is_element (sdom leaf_page) 5" "child_number leaf_page 6 = 3" "child_number leaf_page 5 = 2"
    by (simp_all add: leaf_page_def child_number_def)
  have "\<exists>k :: nat. int 3 = 2 * int k + 1" by (rule exI[of _ 1]) simp
  moreover have "\<not> (\<exists>k :: nat. int 2 = 2 * int k + 1)" by presburger
  ultimately show ?thesis
    using nth_child_counts[OF leaf_dom n q(1,2), of 2 1] nth_child_counts[OF leaf_dom n q(3,4), of 2 1] unfolding q(5,6) by blast
qed

text \<open>The filter of a class leaves the state as it is.\<close>

lemma class_x_tokens:
  "exec (left_re PSEUDO) ''.x'' = None" "exec (left_re CHILD) ''.x'' = None" "exec (left_re ID) ''.x'' = None" "exec (left_re TAG) ''.x'' = None"
  "map_option (\<lambda>m. (gtext m 1, gtext m 2)) (exec (left_re CLASS) ''.x'') = Some ([], ''x'')" "erase (match_re CLASS) ''.x'' = []" "rNonWord ''.x'' = True"
  by (code_simp, code_simp, code_simp, code_simp, code_simp, code_simp, code_simp)

lemma class_x_filter:
  "filter_body leaf_page siz sf ''.x'' [Node e] False False st = Ok (if class_passes leaf_page '' x '' e then [Node e] else [], [Node e], st)"
proof -
  obtain m where m: "exec (left_re CLASS) ''.x'' = Some m" "gtext m 1 = []" "gtext m 2 = ''x''" using class_x_tokens(5) by auto
  have "\<not> xml leaf_page" by (simp add: leaf_page_def)
  with m class_x_tokens show ?thesis
    by (simp add: filter_body_def filter_order_def prefilter_def ends_escaped_def unescape_def Let_def)
qed

theorem marked_walks_find_the_nearest_witness:
  "\<exists>st'. rel_walk leaf_page (filter_body leaf_page (\<lambda>a b c d e. Out) (\<lambda>a b c d e. Out)) (parentNode (sdom leaf_page)) [Node 4, SFalse, Node 6] (Text ''.x'') clean_state =
    Ok ([Node 2, SFalse, Node 2], st')"
proof -
  let ?sf = "filter_body leaf_page (\<lambda>a b c d e. Out) (\<lambda>a b c d e. Out)" and ?up = "parentNode (sdom leaf_page)"
  have cp: "class_passes leaf_page '' x '' e \<longleftrightarrow> e = 2" for e
  proof -
    have "contains_word '' x '' '' x ''" "\<not> contains_word '' x '' '' y ''" by code_simp+
    then show ?thesis by (auto simp: class_passes_def leaf_page_def show_value_def)
  qed
  have acc: "accepts_as leaf_page ?sf (Text ''.x'') (\<lambda>e. e = 2)"
  proof -
    have "is_element (sdom leaf_page) 2" by (simp add: leaf_page_def)
    then show ?thesis using class_x_tokens(7) by (auto simp: accepts_as_def class_x_filter cp no_new_marks_refl)
  qed
  have w: "walkable leaf_page ?up [Node 4, SFalse, Node 6]"
    unfolding walkable_def
  proof (intro allI impI)
    fix e assume "Node e \<in> set [Node 4, SFalse, Node 6]"
    then have "e = 4 \<or> e = 6" by auto
    then have "chain ?up (?up e) [2, 1, 0]" using leaf_up[of e] by auto
    then show "\<exists>xs. chain ?up (?up e) xs \<and> distinct xs \<and> length xs < bound leaf_page" by (intro exI[of _ "[2, 1, 0]"]) (simp add: leaf_page_def)
  qed
  have s: "seek ?up (\<lambda>e. e = 2) (?up 4) = Some (Some 2)" "seek ?up (\<lambda>e. e = 2) (?up 6) = Some (Some 2)"
    by (simp_all add: leaf_page_def seek.simps)
  show ?thesis using marked_walks_find_the_nearest[OF w _ acc, of clean_state] s by (simp add: clean_state_def)
qed

lemma leaf_bounded: "bounded leaf_page"
proof -
  have b: "\<exists>xs. chain (previousSibling (sdom leaf_page)) (previousSibling (sdom leaf_page) e) xs \<and> length xs < bound leaf_page" for e
  proof -
    have "length (rev (before e (siblings_of (sdom leaf_page) e))) < bound leaf_page"
      by (simp add: before_def siblings_of_def leaf_page_def)
    with chain_prev[OF leaf_dom, of e] show ?thesis by blast
  qed
  have u: "\<exists>xs. chain (parentNode (sdom leaf_page)) (parentNode (sdom leaf_page) e) xs \<and> length xs < bound leaf_page" for e
    by (intro exI conjI, rule leaf_up[of e]) (simp add: leaf_page_def)
  show ?thesis unfolding bounded_def using b u by blast
qed

theorem sizzle_ends_with_its_calls_witness:
  "sizzle_body leaf_page (\<lambda>sel ctx results seed st. Ok (results, st)) (\<lambda>expr set1 inplace neg st. Ok (set1, set1, st)) ''div > p:first, q'' 0 [] None clean_state \<noteq> Out"
  using sizzle_ends_with_its_calls[OF leaf_dom leaf_bounded, of "\<lambda>sel ctx results seed st. Ok (results, st)" "\<lambda>expr set1 inplace neg st. Ok (set1, set1, st)"]
  by simp

theorem position_in_quotes_never_ends_witness: "\<forall>n. fst (engine n leaf_page) child_with_quote 0 [] None clean_state = Out"
  using position_in_quotes_never_ends[of leaf_page 0] by (simp add: leaf_page_def)

theorem in_place_is_collecting_witness:
  "run_token leaf_page (\<lambda>a b c d e. Out) (TTag ''p'') False False 0 3 [Node 4, Node 3, Node 5] clean_state =
    Ok ([Node 4, Node 3, Node 5], [Node 4, Node 5], True, True, clean_state)"
proof -
  have t: "to_lower ''P'' = ''p''" "to_lower ''Q'' = ''q''" by code_simp+
  have "run_token leaf_page (\<lambda>a b c d e. Out) (TTag ''p'') True False 0 3 [Node 4, Node 3, Node 5] clean_state =
    Ok ([Node 4, SFalse, Node 5], [], True, True, clean_state)"
    using t by (simp add: apply_token_def leaf_page_def Let_def)
  from in_place_is_collecting[OF this] show ?thesis by (simp add: to_null_def nodes_def)
qed

text \<open>
  The same \<open>:not\<close> is read in two ways: as a selector when \<open>chunker\<close> goes on from the start, as a chain of filters when the split of a selector
  before a comma has left it behind the end of the text.
\<close>

lemma not_is_read_in_two_ways:
  "not_prefilter p siz sf (Some ''.y .x'') cur inplace neg (st\<lparr>lastIndex := 0\<rparr>) =
     andthen (siz ''.y .x'' (docnode p) [] (Some cur) (st\<lparr>lastIndex := length ''.y .x''\<rparr>)) (\<lambda>(ns, st2). Ok (Try (TNot ns), st2))"
  "length ''.y .x'' < li \<Longrightarrow> not_prefilter p siz sf (Some ''.y .x'') cur inplace neg (st\<lparr>lastIndex := li\<rparr>) =
     andthen (sf ''.y .x'' cur inplace (\<not> neg) (st\<lparr>lastIndex := 0\<rparr>)) (\<lambda>(ret, cur1, st2). Ok (Handled cur1 ret, st2))"
proof -
  have c: "map_option (\<lambda>m. (index m, whole m)) (exec_from chunker 0 ''.y .x'') = Some (0, ''.y .x'')" by code_simp
  then obtain m where m: "exec_from chunker 0 ''.y .x'' = Some m" "index m = 0" "whole m = ''.y .x''" by auto
  then show "not_prefilter p siz sf (Some ''.y .x'') cur inplace neg (st\<lparr>lastIndex := 0\<rparr>) =
     andthen (siz ''.y .x'' (docnode p) [] (Some cur) (st\<lparr>lastIndex := length ''.y .x''\<rparr>)) (\<lambda>(ns, st2). Ok (Try (TNot ns), st2))"
    by (simp add: not_prefilter_def exec_global_def Let_def)
  have w: "\<not> is_word CHR ''.''" by code_simp
  show "not_prefilter p siz sf (Some ''.y .x'') cur inplace neg (st\<lparr>lastIndex := li\<rparr>) =
     andthen (sf ''.y .x'' cur inplace (\<not> neg) (st\<lparr>lastIndex := 0\<rparr>)) (\<lambda>(ret, cur1, st2). Ok (Handled cur1 ret, st2))" if "length ''.y .x'' < li"
    using that w by (simp add: not_prefilter_def exec_global_def Let_def)
qed

end
