(* ===== verification/JQ_Event.thy ===== *)
theory JQ_Event
  imports JQ_Prelude "HOL-Library.Sublist" "HOL-Library.Multiset" "HOL-Library.Monad_Syntax" "HOL-Library.List_Lexorder" "HOL-Library.Char_ord"
begin

text \<open>
  The registry of event handlers in jquery-1.6.4.js: \<open>jQuery.event.add\<close> and \<open>jQuery.event.remove\<close>,
  with the private data they keep per element (the lists of handlers by type and the function
  that is given to the browser), the namespaces of types, and the methods \<open>bind\<close>, \<open>one\<close> and
  \<open>unbind\<close>.

  Elements and functions are numbers. A guid is a positive number; 0 stands for a missing one.
  The special events of \<open>jQuery.event.special\<close> are a table of hooks on the state, an argument
  of every operation; a hook may call the operations again and is taken to leave the list of the type
  it is called for as it is. A result \<open>None\<close> means that the calls do not come to an end.
\<close>

section \<open>Types and namespaces\<close>

fun split_on :: "char \<Rightarrow> string \<Rightarrow> string list" where
  "split_on d [] = [[]]"
| "split_on d (c # cs) =
     (if c = d then [] # split_on d cs
      else (case split_on d cs of w # ws \<Rightarrow> (c # w) # ws | [] \<Rightarrow> [[c]]))"

text \<open>The loop \<open>while ( (type = types[ i++ ]) )\<close> stops at an empty piece.\<close>

definition type_names :: "string \<Rightarrow> string list" where
  "type_names types = takeWhile (\<lambda>t. t \<noteq> []) (split_on CHR '' '' types)"

text \<open>The name before the first dot, and the namespaces after it when there is a dot.\<close>

definition type_of :: "string \<Rightarrow> string" where
  "type_of t = hd (split_on CHR ''.'' t)"

definition spaces_of :: "string \<Rightarrow> string list" where
  "spaces_of t = tl (split_on CHR ''.'' t)"

text \<open>
  The expression \<open>(^|\.)a\.(?:.*\.)?b(\.|$)\<close> on a list of names joined by dots: the names of the
  pattern are there, whole and in this order. With no names the pattern asks for an empty name, which
  is what the joined string of a handler without namespaces has. Names are words, without the
  operators of regular expressions.
\<close>

definition ns_test :: "string list \<Rightarrow> string list \<Rightarrow> bool" where
  "ns_test pat names = subseq (if pat = [] then [[]] else pat) names"

section \<open>State\<close>

record live_part =
  lselector :: string
  lorigType :: string
  lorigHandler :: nat
  lpreType :: string

record hobj =
  hfun :: nat \<comment> \<open>\<open>handler\<close>\<close>
  hdata :: jsval
  hns :: "string list" \<comment> \<open>the names in \<open>namespace\<close>, sorted; one empty name for the empty string\<close>
  htype :: string
  hguid :: nat
  hlive :: "live_part option" \<comment> \<open>the fields that \<open>live\<close> adds\<close>

record pdatum =
  pevents :: "(string \<times> hobj list) list option"
  phandle :: "nat option" \<comment> \<open>the function given to the browser\<close>
  prest :: bool \<comment> \<open>whether there are other private data\<close>

record estate =
  pdata :: "nat \<Rightarrow> pdatum option"
  native :: "nat \<Rightarrow> (string \<times> nat) list" \<comment> \<open>listeners that the browser calls\<close>
  handles :: nat \<comment> \<open>how many handle functions were made\<close>
  fguid :: "nat \<Rightarrow> nat"
  gnext :: nat \<comment> \<open>\<open>jQuery.guid\<close>\<close>
  used :: "string list" \<comment> \<open>\<open>jQuery.event.global\<close>\<close>
  fnew :: nat \<comment> \<open>the next function made by \<open>one\<close>\<close>
  wraps :: "nat \<Rightarrow> nat option" \<comment> \<open>the function inside one made by \<open>one\<close>\<close>

record special =
  s_setup :: "(nat \<Rightarrow> jsval \<Rightarrow> string list \<Rightarrow> estate \<Rightarrow> (bool \<times> estate) option) option"
  s_teardown :: "(nat \<Rightarrow> string list \<Rightarrow> estate \<Rightarrow> (bool \<times> estate) option) option"
  s_add :: "(nat \<Rightarrow> hobj \<Rightarrow> estate \<Rightarrow> estate option) option"
  s_remove :: "(nat \<Rightarrow> hobj \<Rightarrow> estate \<Rightarrow> estate option) option"

definition no_special :: special where
  "no_special = \<lparr>s_setup = None, s_teardown = None, s_add = None, s_remove = None\<rparr>"

text \<open>The special event \<open>ready\<close>, for which the browser is not asked to listen.\<close>

definition ready_special :: special where
  "ready_special = no_special\<lparr>s_setup := Some (\<lambda>e data ns s. Some (True, s)), s_teardown := Some (\<lambda>e ns s. Some (True, s))\<rparr>"

record page =
  nodeType :: "nat \<Rightarrow> nat"
  accepts :: "nat \<Rightarrow> bool" \<comment> \<open>\<open>acceptData\<close>\<close>
  special_of :: "string \<Rightarrow> special"

datatype harg = HFalse | HNone | HFun nat | HObj hobj

text \<open>The function \<open>returnFalse\<close>.\<close>

definition returnFalse :: nat where
  "returnFalse = 0"

definition ev_list :: "estate \<Rightarrow> nat \<Rightarrow> (string \<times> hobj list) list" where
  "ev_list s e = (case pdata s e of Some p \<Rightarrow> (case pevents p of Some l \<Rightarrow> l | None \<Rightarrow> []) | None \<Rightarrow> [])"

definition ev_of :: "estate \<Rightarrow> nat \<Rightarrow> string \<Rightarrow> hobj list option" where
  "ev_of s e t = map_of (ev_list s e) t"

definition set_ev :: "nat \<Rightarrow> (string \<times> hobj list) list \<Rightarrow> estate \<Rightarrow> estate" where
  "set_ev e l s = (case pdata s e of
      Some p \<Rightarrow> s\<lparr>pdata := (pdata s)(e := Some (p\<lparr>pevents := Some l\<rparr>))\<rparr>
    | None \<Rightarrow> s)"

definition is_text :: "page \<Rightarrow> nat \<Rightarrow> bool" where
  "is_text pg e \<longleftrightarrow> nodeType pg e = 3 \<or> nodeType pg e = 8"

section \<open>Adding\<close>

definition give_guid :: "nat \<Rightarrow> estate \<Rightarrow> estate" where
  "give_guid f s = (if fguid s f = 0 then s\<lparr>fguid := (fguid s)(f := gnext s), gnext := gnext s + 1\<rparr> else s)"

text \<open>The element's private data, its map of events and its handle function are made when missing.\<close>

definition init_data :: "nat \<Rightarrow> estate \<Rightarrow> estate" where
  "init_data e s =
     (let p = (case pdata s e of Some p \<Rightarrow> p | None \<Rightarrow> \<lparr>pevents = None, phandle = None, prest = False\<rparr>);
          p1 = (if pevents p = None then p\<lparr>pevents := Some []\<rparr> else p);
          p2 = (if phandle p1 = None then p1\<lparr>phandle := Some (handles s)\<rparr> else p1)
      in s\<lparr>pdata := (pdata s)(e := Some p2), handles := (if phandle p1 = None then handles s + 1 else handles s)\<rparr>)"

definition handle_of :: "estate \<Rightarrow> nat \<Rightarrow> nat option" where
  "handle_of s e = (case pdata s e of Some p \<Rightarrow> phandle p | None \<Rightarrow> None)"

definition add_listener :: "nat \<Rightarrow> string \<Rightarrow> estate \<Rightarrow> estate" where
  "add_listener e t s = (case handle_of s e of
      Some h \<Rightarrow> s\<lparr>native := (native s)(e := List.insert (t, h) (native s e))\<rparr>
    | None \<Rightarrow> s)"

definition remove_listener :: "nat \<Rightarrow> string \<Rightarrow> estate \<Rightarrow> estate" where
  "remove_listener e t s = (case handle_of s e of
      Some h \<Rightarrow> s\<lparr>native := (native s)(e := filter (\<lambda>x. x \<noteq> (t, h)) (native s e))\<rparr>
    | None \<Rightarrow> s)"

definition new_hobj :: "hobj option \<Rightarrow> nat \<Rightarrow> jsval \<Rightarrow> string \<Rightarrow> estate \<Rightarrow> hobj" where
  "new_hobj hin f data t s =
     (let ho = (case hin of Some o' \<Rightarrow> o'
                | None \<Rightarrow> \<lparr>hfun = f, hdata = data, hns = [], htype = [], hguid = 0, hlive = None\<rparr>);
          ns = spaces_of t
      in ho\<lparr>hns := (if ns = [] then [[]] else sort ns), htype := type_of t,
           hguid := (if hguid ho = 0 then fguid s f else hguid ho)\<rparr>)"

definition init_queue :: "page \<Rightarrow> nat \<Rightarrow> jsval \<Rightarrow> string \<Rightarrow> estate \<Rightarrow> estate option" where
  "init_queue pg e data t s =
     (let ty = type_of t
      in if ev_of s e ty \<noteq> None then Some s
         else let s1 = set_ev e (AList.update ty [] (ev_list s e)) s
              in case s_setup (special_of pg ty) of
                   None \<Rightarrow> Some (add_listener e ty s1)
                 | Some f \<Rightarrow> do {
                     (kept, s2) \<leftarrow> f e data (spaces_of t) s1;
                     Some (if kept then s2 else add_listener e ty s2)
                   })"

definition run_add :: "page \<Rightarrow> nat \<Rightarrow> nat \<Rightarrow> hobj \<Rightarrow> estate \<Rightarrow> estate option" where
  "run_add pg e f ho s =
     (case s_add (special_of pg (htype ho)) of
        None \<Rightarrow> Some s
      | Some g \<Rightarrow> do {
          s1 \<leftarrow> g e ho s;
          Some (if fguid s1 (hfun ho) = 0 then s1\<lparr>fguid := (fguid s1)(hfun ho := fguid s1 f)\<rparr> else s1)
        })"

definition push_handler :: "nat \<Rightarrow> hobj \<Rightarrow> estate \<Rightarrow> estate" where
  "push_handler e ho s =
     (let hs = (case ev_of s e (htype ho) of Some hs \<Rightarrow> hs | None \<Rightarrow> [])
      in set_ev e (AList.update (htype ho) (hs @ [ho]) (ev_list s e)) s)"

definition add_one :: "page \<Rightarrow> nat \<Rightarrow> hobj option \<Rightarrow> nat \<Rightarrow> jsval \<Rightarrow> string \<Rightarrow> estate \<Rightarrow> estate option" where
  "add_one pg e hin f data t s = do {
     let ho = new_hobj hin f data t s;
     s1 \<leftarrow> init_queue pg e data t s;
     s2 \<leftarrow> run_add pg e f ho s1;
     let s3 = push_handler e ho s2;
     Some (s3\<lparr>used := List.insert (htype ho) (used s3)\<rparr>)
   }"

fun add_all_types :: "page \<Rightarrow> nat \<Rightarrow> hobj option \<Rightarrow> nat \<Rightarrow> jsval \<Rightarrow> string list \<Rightarrow> estate \<Rightarrow> estate option" where
  "add_all_types pg e hin f data [] s = Some s"
| "add_all_types pg e hin f data (t # ts) s = do {
     s1 \<leftarrow> add_one pg e hin f data t s;
     add_all_types pg e hin f data ts s1
   }"

definition handler_parts :: "harg \<Rightarrow> (hobj option \<times> nat) option" where
  "handler_parts h = (case h of
      HFalse \<Rightarrow> Some (None, returnFalse)
    | HNone \<Rightarrow> None
    | HFun f \<Rightarrow> Some (None, f)
    | HObj ho \<Rightarrow> Some (Some ho, hfun ho))"

definition event_add :: "page \<Rightarrow> nat \<Rightarrow> string \<Rightarrow> harg \<Rightarrow> jsval \<Rightarrow> estate \<Rightarrow> estate option" where
  "event_add pg e types h data s =
     (if is_text pg e then Some s
      else case handler_parts h of
        None \<Rightarrow> Some s
      | Some (hin, f) \<Rightarrow>
          (let s1 = give_guid f s
           in if \<not> accepts pg e then Some s1
              else add_all_types pg e hin f data (type_names types) (init_data e s1)))"

section \<open>Removing\<close>

datatype rtypes = RTypes string | REvent string nat \<comment> \<open>an event object has a type and a handler\<close>

definition run_remove :: "page \<Rightarrow> nat \<Rightarrow> string \<Rightarrow> hobj \<Rightarrow> estate \<Rightarrow> estate option" where
  "run_remove pg e ty ho s =
     (case s_remove (special_of pg ty) of None \<Rightarrow> Some s | Some g \<Rightarrow> g e ho s)"

text \<open>The list of a type is written back when the map of events still has it.\<close>

definition set_list :: "nat \<Rightarrow> string \<Rightarrow> hobj list \<Rightarrow> estate \<Rightarrow> estate" where
  "set_list e ty hs s =
     (if ev_of s e ty = None then s else set_ev e (AList.update ty hs (ev_list s e)) s)"

text \<open>The loop for a handler without a position: every match is taken out, and its hook runs.\<close>

fun strip :: "page \<Rightarrow> nat \<Rightarrow> string \<Rightarrow> (hobj \<Rightarrow> bool) \<Rightarrow> hobj list \<Rightarrow> hobj list \<Rightarrow> estate \<Rightarrow> estate option" where
  "strip pg e ty P kept [] s = Some s"
| "strip pg e ty P kept (h # hs) s =
     (if P h then do {
        s1 \<leftarrow> run_remove pg e ty h (set_list e ty (kept @ hs) s);
        strip pg e ty P kept hs s1
      } else strip pg e ty P (kept @ [h]) hs s)"

text \<open>
  With a position the first handler of that guid from there on is looked at; it is left in the list
  and its hook runs when the namespaces match.
\<close>

definition remove_pos :: "page \<Rightarrow> nat \<Rightarrow> string \<Rightarrow> nat \<Rightarrow> (hobj \<Rightarrow> bool) \<Rightarrow> hobj list \<Rightarrow> estate \<Rightarrow> estate option" where
  "remove_pos pg e ty g inns hs s =
     (case find (\<lambda>h. hguid h = g) hs of
        None \<Rightarrow> Some s
      | Some h \<Rightarrow> if inns h then run_remove pg e ty h s else Some s)"

definition harg_guid :: "estate \<Rightarrow> harg \<Rightarrow> nat option" where
  "harg_guid s h = (case h of
      HFalse \<Rightarrow> Some (fguid s returnFalse)
    | HNone \<Rightarrow> None
    | HFun f \<Rightarrow> Some (fguid s f)
    | HObj ho \<Rightarrow> Some (hguid ho))"

definition drop_type :: "page \<Rightarrow> nat \<Rightarrow> string \<Rightarrow> string list \<Rightarrow> estate \<Rightarrow> estate option" where
  "drop_type pg e ty ns s = do {
     s1 \<leftarrow> (case s_teardown (special_of pg ty) of
        None \<Rightarrow> Some (remove_listener e ty s)
      | Some f \<Rightarrow> do {
          (kept, s1) \<leftarrow> f e ns s;
          Some (if kept then s1 else remove_listener e ty s1)
        });
     Some (set_ev e (AList.delete ty (ev_list s1 e)) s1)
   }"

definition in_space :: "string \<Rightarrow> hobj \<Rightarrow> bool" where
  "in_space t h \<longleftrightarrow> spaces_of t = [] \<or> ns_test (sort (spaces_of t)) (hns h)"

definition remove_named :: "page \<Rightarrow> nat \<Rightarrow> string \<Rightarrow> nat \<Rightarrow> nat option \<Rightarrow> hobj list \<Rightarrow> estate \<Rightarrow> estate option" where
  "remove_named pg e t g pos hs s = do {
     let ty = type_of t;
     s1 \<leftarrow> (case pos of
        None \<Rightarrow> strip pg e ty (\<lambda>h. hguid h = g \<and> in_space t h) [] hs s
      | Some j \<Rightarrow> remove_pos pg e ty g (in_space t) (drop j hs) s);
     let left = (case ev_of s1 e ty of Some l \<Rightarrow> l | None \<Rightarrow> []);
     if left = [] \<or> (pos \<noteq> None \<and> length left = 1) then drop_type pg e ty (spaces_of t) s1 else Some s1
   }"

text \<open>
  The loop without a handler: for each match the function calls itself with the match's own handler
  and position, and then takes the match out of the list.
\<close>

fun strip_all :: "(string \<Rightarrow> harg \<Rightarrow> nat option \<Rightarrow> estate \<Rightarrow> estate option) \<Rightarrow> nat \<Rightarrow> string
    \<Rightarrow> hobj list \<Rightarrow> hobj list \<Rightarrow> estate \<Rightarrow> estate option" where
  "strip_all rec e t kept [] s = Some s"
| "strip_all rec e t kept (h # hs) s =
     (if in_space t h then do {
        s1 \<leftarrow> rec t (HFun (hfun h)) (Some (length kept)) s;
        strip_all rec e t kept hs (set_list e (type_of t) (kept @ hs) s1)
      } else strip_all rec e t (kept @ [h]) hs s)"

definition remove_one :: "page \<Rightarrow> (string \<Rightarrow> harg \<Rightarrow> nat option \<Rightarrow> estate \<Rightarrow> estate option) \<Rightarrow> nat \<Rightarrow> harg
    \<Rightarrow> nat option \<Rightarrow> string \<Rightarrow> estate \<Rightarrow> estate option" where
  "remove_one pg rec e h pos t s =
     (case ev_of s e (type_of t) of
        None \<Rightarrow> Some s
      | Some hs \<Rightarrow>
          (case harg_guid s h of
             None \<Rightarrow> strip_all rec e t [] hs s
           | Some g \<Rightarrow> remove_named pg e t g pos hs s))"

fun fold_types :: "(string \<Rightarrow> estate \<Rightarrow> estate option) \<Rightarrow> string list \<Rightarrow> estate \<Rightarrow> estate option" where
  "fold_types f [] s = Some s"
| "fold_types f (t # ts) s = do { s1 \<leftarrow> f t s; fold_types f ts s1 }"

text \<open>A for-in loop: a key that is gone when its turn comes is not visited.\<close>

fun for_in :: "nat \<Rightarrow> (string \<Rightarrow> estate \<Rightarrow> estate option) \<Rightarrow> string list \<Rightarrow> estate \<Rightarrow> estate option" where
  "for_in e f [] s = Some s"
| "for_in e f (t # ts) s =
     (if ev_of s e t = None then for_in e f ts s else do { s1 \<leftarrow> f t s; for_in e f ts s1 })"

definition cleanup :: "nat \<Rightarrow> estate \<Rightarrow> estate" where
  "cleanup e s = (case pdata s e of
      Some p \<Rightarrow> if ev_list s e = []
        then s\<lparr>pdata := (pdata s)(e := (if prest p then Some (p\<lparr>pevents := None, phandle := None\<rparr>) else None))\<rparr>
        else s
    | None \<Rightarrow> s)"

definition has_events :: "estate \<Rightarrow> nat \<Rightarrow> bool" where
  "has_events s e \<longleftrightarrow> (case pdata s e of Some p \<Rightarrow> pevents p \<noteq> None | None \<Rightarrow> False)"

primrec event_remove :: "page \<Rightarrow> nat \<Rightarrow> nat \<Rightarrow> rtypes \<Rightarrow> harg \<Rightarrow> nat option \<Rightarrow> estate \<Rightarrow> estate option" where
  "event_remove pg 0 e rt h pos s = None"
| "event_remove pg (Suc n) e rt h pos s =
     (if is_text pg e \<or> \<not> has_events s e then Some s
      else let types = (case rt of RTypes t \<Rightarrow> t | REvent t f \<Rightarrow> t);
               h1 = (case rt of RTypes t \<Rightarrow> h | REvent t f \<Rightarrow> HFun f)
           in if types = [] \<or> hd types = CHR ''.''
              then for_in e (\<lambda>t. event_remove pg n e (RTypes (t @ types)) HNone None) (map fst (ev_list s e)) s
              else do {
                s1 \<leftarrow> fold_types (remove_one pg (\<lambda>t. event_remove pg n e (RTypes t)) e h1 pos) (type_names types) s;
                Some (cleanup e s1)
              })"

section \<open>Methods of an element set\<close>

fun on_each :: "(nat \<Rightarrow> estate \<Rightarrow> estate option) \<Rightarrow> nat list \<Rightarrow> estate \<Rightarrow> estate option" where
  "on_each f [] s = Some s"
| "on_each f (e # es) s = do { s1 \<leftarrow> f e s; on_each f es s1 }"

text \<open>The function that \<open>one\<close> binds: it has the guid of the function it wraps, or a new one.\<close>

definition make_once :: "nat \<Rightarrow> estate \<Rightarrow> nat \<times> estate" where
  "make_once f s =
     (let w = fnew s;
          s1 = (if fguid s f \<noteq> 0 then s\<lparr>fguid := (fguid s)(w := fguid s f)\<rparr>
                else s\<lparr>fguid := (fguid s)(w := gnext s), gnext := gnext s + 1\<rparr>)
      in (w, s1\<lparr>fnew := w + 1, wraps := (wraps s)(w := Some f)\<rparr>))"

definition bind_one :: "page \<Rightarrow> string \<Rightarrow> jsval \<Rightarrow> nat \<Rightarrow> nat list \<Rightarrow> estate \<Rightarrow> estate option" where
  "bind_one pg types data f this s =
     (let (w, s1) = make_once f s in on_each (\<lambda>e. event_add pg e types (HFun w) data) this s1)"

definition bind :: "page \<Rightarrow> string \<Rightarrow> jsval \<Rightarrow> harg \<Rightarrow> nat list \<Rightarrow> estate \<Rightarrow> estate option" where
  "bind pg types data h this s =
     (case h of
        HFun f \<Rightarrow> if types = ''unload'' then bind_one pg types data f this s
                  else on_each (\<lambda>e. event_add pg e types h data) this s
      | _ \<Rightarrow> on_each (\<lambda>e. event_add pg e types h data) this s)"

definition unbind :: "page \<Rightarrow> nat \<Rightarrow> rtypes \<Rightarrow> harg \<Rightarrow> nat list \<Rightarrow> estate \<Rightarrow> estate option" where
  "unbind pg n rt h this s = on_each (\<lambda>e. event_remove pg n e rt h None) this s"

section \<open>Removing, as a filter\<close>

text \<open>The types of a call have no hooks: they are not in the table of special events.\<close>

definition unhooked :: "page \<Rightarrow> string \<Rightarrow> bool" where
  "unhooked pg types \<longleftrightarrow> (\<forall>t\<in>set (type_names types). special_of pg (type_of t) = no_special)"

text \<open>
  The reference: the handlers of the type that the predicate picks are taken out at once; when none
  is left the listener goes and the type's key with it.
\<close>

definition take_state :: "nat \<Rightarrow> string \<Rightarrow> (hobj \<Rightarrow> bool) \<Rightarrow> estate \<Rightarrow> estate" where
  "take_state e ty P s =
     (case ev_of s e ty of
        None \<Rightarrow> s
      | Some hs \<Rightarrow>
          (if filter (\<lambda>h. \<not> P h) hs = []
           then set_ev e (AList.delete ty (ev_list s e)) (remove_listener e ty s)
           else set_list e ty (filter (\<lambda>h. \<not> P h) hs) s))"

lemma ev_list_set_ev [simp]:
  "ev_list (set_ev e l s) e' = (if e' = e \<and> pdata s e \<noteq> None then l else ev_list s e')"
  by (auto simp: ev_list_def set_ev_def split: option.splits)

lemma set_ev_set_ev [simp]: "set_ev e l (set_ev e l' s) = set_ev e l s"
  by (auto simp: set_ev_def split: option.splits)

lemma pdata_of_ev: "ev_of s e ty = Some hs \<Longrightarrow> pdata s e \<noteq> None"
  by (auto simp: ev_of_def ev_list_def split: option.splits)

lemma pdata_set_ev: "pdata (set_ev e l s) e \<noteq> None \<longleftrightarrow> pdata s e \<noteq> None"
  by (auto simp: set_ev_def split: option.splits)

lemma pdata_remove_listener [simp]: "pdata (remove_listener e t s) = pdata s"
  by (auto simp: remove_listener_def split: option.splits)

lemma fguid_frame [simp]: "fguid (set_ev e l s) = fguid s" "fguid (remove_listener e t s) = fguid s"
  "fguid (set_list e t hs s) = fguid s" "fguid (take_state e t P s) = fguid s" "fguid (cleanup e s) = fguid s"
  by (auto simp: set_ev_def remove_listener_def set_list_def take_state_def cleanup_def split: option.splits)

lemma ev_list_remove_listener [simp]: "ev_list (remove_listener e t s) = ev_list s"
  by (auto simp: ev_list_def)

lemma ev_of_set_ev [simp]:
  "ev_of (set_ev e l s) e' t = (if e' = e \<and> pdata s e \<noteq> None then map_of l t else ev_of s e' t)"
  by (auto simp: ev_of_def)

lemma ev_of_set_list [simp]:
  "ev_of (set_list e ty hs s) e' t =
    (if e' = e \<and> t = ty \<and> ev_of s e ty \<noteq> None then Some hs else ev_of s e' t)"
  using pdata_of_ev[of s e ty] by (auto simp: set_list_def update_conv' ev_of_def)

lemma set_list_set_list [simp]: "set_list e ty hs (set_list e ty hs' s) = set_list e ty hs s"
proof (cases "ev_of s e ty")
  case (Some l)
  then show ?thesis using pdata_of_ev[OF Some] by (simp add: set_list_def update_conv' update_last)
qed (simp add: set_list_def)

lemma set_ev_triv: "pdata s e = Some p \<Longrightarrow> pevents p = Some l \<Longrightarrow> set_ev e l s = s"
  by (simp add: set_ev_def fun_upd_idem)

lemma set_list_triv: "ev_of s e ty = Some hs \<Longrightarrow> set_list e ty hs s = s"
proof -
  assume a: "ev_of s e ty = Some hs"
  then obtain p l where p: "pdata s e = Some p" "pevents p = Some l"
    by (auto simp: ev_of_def ev_list_def split: option.splits)
  with a have "AList.update ty hs (ev_list s e) = l"
    by (simp add: ev_of_def ev_list_def update_triv)
  with a p show ?thesis by (simp add: set_list_def set_ev_triv)
qed

lemma handle_of_set_ev [simp]: "handle_of (set_ev e l s) = handle_of s"
  by (rule ext) (auto simp: handle_of_def set_ev_def split: option.splits)

lemma handle_of_set_list [simp]: "handle_of (set_list e ty hs s) = handle_of s"
  by (auto simp: set_list_def)

lemma remove_listener_set_ev: "remove_listener e t (set_ev e l s) = set_ev e l (remove_listener e t s)"
  by (auto simp: remove_listener_def handle_of_def set_ev_def split: option.splits)

lemma quiet_run_remove [simp]: "special_of pg ty = no_special \<Longrightarrow> run_remove pg e ty h s = Some s"
  by (simp add: run_remove_def no_special_def)

lemma quiet_drop_type:
  "special_of pg ty = no_special \<Longrightarrow>
    drop_type pg e ty ns s = Some (set_ev e (AList.delete ty (ev_list s e)) (remove_listener e ty s))"
  by (simp add: drop_type_def no_special_def)

lemma strip_quiet:
  assumes "special_of pg ty = no_special" and "ev_of s e ty = Some (kept @ hs)"
  shows "strip pg e ty P kept hs s = Some (set_list e ty (kept @ filter (\<lambda>h. \<not> P h) hs) s)"
  using assms(2)
proof (induction hs arbitrary: kept s)
  case Nil
  then show ?case by (simp add: set_list_triv)
next
  case (Cons h hs)
  then show ?case using Cons.IH[of "set_list e ty (kept @ hs) s" kept] Cons.IH[of s "kept @ [h]"] assms(1) by simp
qed

lemma drop_set_list:
  assumes "ev_of s e ty \<noteq> None"
  shows "set_ev e (AList.delete ty (ev_list (set_list e ty hs s) e)) (remove_listener e ty (set_list e ty hs s))
       = set_ev e (AList.delete ty (ev_list s e)) (remove_listener e ty s)"
proof -
  have "pdata s e \<noteq> None" using assms pdata_of_ev by blast
  with assms show ?thesis by (simp add: set_list_def remove_listener_set_ev delete_update_same)
qed

lemma remove_named_quiet:
  assumes "special_of pg (type_of t) = no_special" and "ev_of s e (type_of t) = Some hs"
  shows "remove_named pg e t g None hs s = Some (take_state e (type_of t) (\<lambda>h. hguid h = g \<and> in_space t h) s)"
proof -
  let ?P = "\<lambda>h. hguid h = g \<and> in_space t h"
  have st: "strip pg e (type_of t) ?P [] hs s = Some (set_list e (type_of t) (filter (\<lambda>h. \<not> ?P h) hs) s)"
    using strip_quiet[OF assms(1), of s e "[]" hs ?P] assms(2) by simp
  then show ?thesis
    using assms by (simp add: remove_named_def take_state_def quiet_drop_type drop_set_list Let_def)
qed

lemma remove_pos_plain [simp]: "special_of pg ty = no_special \<Longrightarrow> remove_pos pg e ty g P hs s = Some s"
  by (simp add: remove_pos_def split: option.splits)

lemma remove_named_pos:
  assumes "special_of pg (type_of t) = no_special" and "ev_of s e (type_of t) = Some hs" and "hs \<noteq> []"
  shows "remove_named pg e t g (Some j) hs s =
    Some (if length hs = 1 then set_ev e (AList.delete (type_of t) (ev_list s e)) (remove_listener e (type_of t) s) else s)"
  using assms by (simp add: remove_named_def quiet_drop_type Let_def)

section \<open>The registry's invariant\<close>

text \<open>
  A handler in the list of a type has that type, a guid, which is that of its function unless \<open>live\<close> made it, and
  sorted namespaces.
\<close>

definition hobj_ok :: "estate \<Rightarrow> string \<Rightarrow> hobj \<Rightarrow> bool" where
  "hobj_ok s t h \<longleftrightarrow> htype h = t \<and> hguid h \<noteq> 0 \<and> hguid h < gnext s \<and> (hlive h = None \<longrightarrow> hguid h = fguid s (hfun h)) \<and>
     hns h \<noteq> [] \<and> sorted (hns h)"

definition list_ok :: "estate \<Rightarrow> (string \<times> hobj list) list \<Rightarrow> bool" where
  "list_ok s l \<longleftrightarrow> distinct (map fst l) \<and> (\<forall>(t, hs)\<in>set l. hs \<noteq> [] \<and> (\<forall>h\<in>set hs. hobj_ok s t h))"

text \<open>
  Guids come from the counter. The browser holds the element's handle function for exactly the types that have handlers, once
  each, but for the types whose hook listens in its own way, and nothing for an element without a map of events.
\<close>

definition heard :: "page \<Rightarrow> string \<Rightarrow> bool" where
  "heard pg t \<longleftrightarrow> s_setup (special_of pg t) = None"

definition elem_ok :: "page \<Rightarrow> estate \<Rightarrow> nat \<Rightarrow> bool" where
  "elem_ok pg s e \<longleftrightarrow>
     (case pdata s e of
        None \<Rightarrow> native s e = []
      | Some p \<Rightarrow>
          (case pevents p of
             None \<Rightarrow> native s e = [] \<and> phandle p = None
           | Some l \<Rightarrow> list_ok s l \<and> distinct (native s e) \<and>
               (\<exists>h. phandle p = Some h \<and> set (native s e) = (\<lambda>t. (t, h)) ` {t \<in> fst ` set l. heard pg t})))"

definition ev_inv :: "page \<Rightarrow> estate \<Rightarrow> bool" where
  "ev_inv pg s \<longleftrightarrow> (\<forall>f. fguid s f < gnext s) \<and> (\<forall>e. elem_ok pg s e)"

lemma heard_quiet [simp]: "special_of pg t = no_special \<Longrightarrow> heard pg t"
  by (simp add: heard_def no_special_def)

lemma ev_of_ok:
  assumes "ev_inv pg s" and "ev_of s e t = Some hs"
  shows "hs \<noteq> [] \<and> (\<forall>h\<in>set hs. hobj_ok s t h)"
proof -
  have el: "elem_ok pg s e" using assms(1) by (simp add: ev_inv_def)
  obtain p l where p: "pdata s e = Some p" "pevents p = Some l" and m: "map_of l t = Some hs"
    using assms(2) by (auto simp: ev_of_def ev_list_def split: option.splits)
  have "list_ok s l" using el p by (simp add: elem_ok_def)
  then show ?thesis using map_of_SomeD[OF m] unfolding list_ok_def by blast
qed

text \<open>What the loop for no handler relies on: no list is empty.\<close>

definition lists_ok :: "estate \<Rightarrow> nat \<Rightarrow> bool" where
  "lists_ok s e \<longleftrightarrow> (\<forall>t. ev_of s e t \<noteq> Some [])"

lemma ev_inv_lists: "ev_inv pg s \<Longrightarrow> lists_ok s e"
  using ev_of_ok unfolding lists_ok_def by blast

lemma ev_of_take_state:
  assumes "ev_of s e ty = Some hs"
  shows "ev_of (take_state e ty P s) e t =
    (if t = ty then (if filter (\<lambda>h. \<not> P h) hs = [] then None else Some (filter (\<lambda>h. \<not> P h) hs)) else ev_of s e t)"
proof -
  have pd: "pdata s e \<noteq> None" using assms pdata_of_ev by blast
  show ?thesis
  proof (cases "filter (\<lambda>h. \<not> P h) hs = []")
    case True
    then have "take_state e ty P s = set_ev e (AList.delete ty (ev_list s e)) (remove_listener e ty s)"
      using assms by (simp add: take_state_def)
    with True pd show ?thesis by (simp add: delete_conv' ev_of_def)
  next
    case False
    then have "take_state e ty P s = set_list e ty (filter (\<lambda>h. \<not> P h) hs) s"
      using assms by (simp add: take_state_def)
    with False assms show ?thesis by simp
  qed
qed

lemma take_state_none: "ev_of s e ty = None \<Longrightarrow> take_state e ty P s = s"
  by (simp add: take_state_def)

lemma lists_take: "lists_ok s e \<Longrightarrow> lists_ok (take_state e ty P s) e"
  by (cases "ev_of s e ty") (auto simp: lists_ok_def take_state_none ev_of_take_state)

lemma ev_of_cleanup [simp]: "ev_of (cleanup e s) e t = ev_of s e t"
  by (auto simp: ev_of_def ev_list_def cleanup_def split: option.splits)

lemma ev_list_cleanup [simp]: "ev_list (cleanup e s) e = ev_list s e"
  by (auto simp: ev_list_def cleanup_def split: option.splits)

lemma cleanup_idem [simp]: "cleanup e (cleanup e s) = cleanup e s"
  by (auto simp: cleanup_def ev_list_def split: option.splits)

lemma cleanup_nonempty: "ev_list s e \<noteq> [] \<Longrightarrow> cleanup e s = s"
  by (simp add: cleanup_def split: option.splits)

lemma cleanup_take: "cleanup e (take_state e ty P (cleanup e s)) = cleanup e (take_state e ty P s)"
proof (cases "ev_list s e = []")
  case True
  then have "ev_of s e ty = None" "ev_of (cleanup e s) e ty = None" by (simp_all add: ev_of_def)
  then show ?thesis by (simp add: take_state_none)
qed (simp add: cleanup_nonempty)

section \<open>The loops as filters\<close>

lemma take_state_eqI: "\<forall>h\<in>set hs. P h = Q h \<Longrightarrow> ev_of s e ty = Some hs \<Longrightarrow> take_state e ty P s = take_state e ty Q s"
  unfolding take_state_def by (simp cong: filter_cong)

text \<open>
  The call that the loop makes for one match drops the type when the match is the last handler, and
  otherwise leaves the state as it is.
\<close>

lemma strip_all_filter:
  assumes rec: "\<And>s kept h hs. ev_of s e (type_of t) = Some (kept @ h # hs) \<Longrightarrow>
      rec t (HFun (hfun h)) (Some (length kept)) s =
        Some (cleanup e (if kept @ hs = [] then set_ev e (AList.delete (type_of t) (ev_list s e)) (remove_listener e (type_of t) s) else s))"
    and "ev_of s e (type_of t) = Some (kept @ hs)" and "kept @ hs \<noteq> []" and "\<forall>h\<in>set kept. \<not> in_space t h"
  shows "\<exists>s'. strip_all rec e t kept hs s = Some s' \<and> cleanup e s' = cleanup e (take_state e (type_of t) (in_space t) s) \<and>
    (ev_list s' e \<noteq> [] \<longrightarrow> s' = take_state e (type_of t) (in_space t) s)"
  using assms(2-)
proof (induction hs arbitrary: kept s)
  case Nil
  then have "filter (\<lambda>h. \<not> in_space t h) kept = kept" by (simp add: filter_id_conv)
  with Nil show ?case by (simp add: take_state_def set_list_triv)
next
  case (Cons h hs)
  note ev = Cons.prems(1)
  show ?case
  proof (cases "in_space t h")
    case False
    then show ?thesis using Cons.IH[of s "kept @ [h]"] Cons.prems by simp
  next
    case True
    let ?drop = "set_ev e (AList.delete (type_of t) (ev_list s e)) (remove_listener e (type_of t) s)"
    have r: "rec t (HFun (hfun h)) (Some (length kept)) s = Some (cleanup e (if kept @ hs = [] then ?drop else s))"
      by (rule rec[OF ev])
    show ?thesis
    proof (cases "kept @ hs = []")
      case True
      have pd: "pdata s e \<noteq> None" using ev pdata_of_ev by blast
      have "ev_of (cleanup e ?drop) e (type_of t) = None" using pd by (simp add: delete_conv')
      then have "set_list e (type_of t) [] (cleanup e ?drop) = cleanup e ?drop" by (simp add: set_list_def)
      moreover have "take_state e (type_of t) (in_space t) s = ?drop"
        using ev True \<open>in_space t h\<close> by (simp add: take_state_def)
      ultimately show ?thesis
        using r True \<open>in_space t h\<close> cleanup_nonempty[of ?drop e] by auto
    next
      case False
      have ne: "ev_list s e \<noteq> []" using ev by (auto simp: ev_of_def)
      let ?s = "set_list e (type_of t) (kept @ hs) s"
      have r2: "strip_all rec e t kept (h # hs) s = strip_all rec e t kept hs ?s"
        by (simp add: r if_not_P[OF False] \<open>in_space t h\<close> cleanup_nonempty[OF ne] del: append_is_Nil_conv)
      have ev2: "ev_of ?s e (type_of t) = Some (kept @ hs)" using ev by simp
      have "take_state e (type_of t) (in_space t) ?s = take_state e (type_of t) (in_space t) s"
        using ev ev2 \<open>in_space t h\<close> drop_set_list[of s e "type_of t" "kept @ hs"] by (simp add: take_state_def)
      then show ?thesis
        unfolding r2 using Cons.IH[of ?s kept] ev2 False Cons.prems(3) by simp
    qed
  qed
qed

declare event_remove.simps(2) [simp del]
lemmas event_remove_Suc = event_remove.simps(2)

lemma split_on_ne [simp]: "split_on d s \<noteq> []"
  by (induction s) (auto split: list.split)

lemma split_on_none: "d \<notin> set s \<Longrightarrow> split_on d s = [s]"
  by (induction s) auto

lemma split_on_pieces: "w \<in> set (split_on d s) \<Longrightarrow> d \<notin> set w"
proof (induction s arbitrary: w)
  case (Cons c cs)
  obtain u us where u: "split_on d cs = u # us" by (cases "split_on d cs") auto
  show ?case using Cons.prems Cons.IH[of u] Cons.IH[of w] u by (cases "c = d"; cases "w \<in> set us") auto
qed simp

lemma split_on_append: "d \<notin> set s \<Longrightarrow> split_on d (s @ d # r) = s # split_on d r"
  by (induction s) auto

lemma type_names_piece: "t \<in> set (type_names types) \<Longrightarrow> t \<noteq> [] \<and> CHR '' '' \<notin> set t"
  using split_on_pieces set_takeWhileD unfolding type_names_def by fastforce

lemma type_names_single: "t \<noteq> [] \<Longrightarrow> CHR '' '' \<notin> set t \<Longrightarrow> type_names t = [t]"
  by (simp add: type_names_def split_on_none)

definition proper :: "string \<Rightarrow> bool" where
  "proper t \<longleftrightarrow> t \<noteq> [] \<and> hd t \<noteq> CHR ''.'' \<and> CHR '' '' \<notin> set t"

definition event_elem :: "page \<Rightarrow> nat \<Rightarrow> bool" where
  "event_elem pg e \<longleftrightarrow> \<not> is_text pg e \<and> accepts pg e"

lemma has_events_ev: "ev_of s e t = Some hs \<Longrightarrow> has_events s e"
  by (auto simp: ev_of_def ev_list_def has_events_def split: option.splits)

lemma remove_at:
  assumes pg: "special_of pg (type_of t) = no_special" "\<not> is_text pg e" and t: "proper t"
    and ev: "ev_of s e (type_of t) = Some (kept @ h # hs)"
  shows "event_remove pg (Suc n) e (RTypes t) (HFun (hfun h)) (Some (length kept)) s =
    Some (cleanup e (if kept @ hs = [] then set_ev e (AList.delete (type_of t) (ev_list s e)) (remove_listener e (type_of t) s) else s))"
proof -
  have "remove_named pg e t (fguid s (hfun h)) (Some (length kept)) (kept @ h # hs) s =
     Some (if kept @ hs = [] then set_ev e (AList.delete (type_of t) (ev_list s e)) (remove_listener e (type_of t) s) else s)"
    using remove_named_pos[OF pg(1) ev] by simp
  then show ?thesis
    using pg t ev type_names_single[of t] has_events_ev[OF ev]
    by (simp add: event_remove_Suc proper_def remove_one_def harg_guid_def)
qed

text \<open>Which handlers a call picks: those of the handler's guid, or all, in the namespaces of the type.\<close>

definition picks :: "nat option \<Rightarrow> string \<Rightarrow> hobj \<Rightarrow> bool" where
  "picks g t h \<longleftrightarrow> (case g of None \<Rightarrow> True | Some g \<Rightarrow> hguid h = g) \<and> in_space t h"

lemma remove_one_take:
  assumes pg: "special_of pg (type_of t) = no_special" "\<not> is_text pg e" and t: "proper t" and ok: "lists_ok s e"
  shows "\<exists>s'. remove_one pg (\<lambda>t. event_remove pg (Suc n) e (RTypes t)) e h None t s = Some s' \<and>
    cleanup e s' = cleanup e (take_state e (type_of t) (picks (harg_guid s h) t) s) \<and>
    (ev_list s' e \<noteq> [] \<longrightarrow> s' = take_state e (type_of t) (picks (harg_guid s h) t) s) \<and>
    fguid s' = fguid s"
proof (cases "ev_of s e (type_of t)")
  case None
  then show ?thesis by (simp add: remove_one_def take_state_none)
next
  case (Some hs)
  show ?thesis
  proof (cases "harg_guid s h")
    case None
    have p: "picks None t = in_space t" by (simp add: picks_def fun_eq_iff)
    have "\<exists>s'. strip_all (\<lambda>t. event_remove pg (Suc n) e (RTypes t)) e t [] hs s = Some s' \<and>
        cleanup e s' = cleanup e (take_state e (type_of t) (in_space t) s) \<and>
        (ev_list s' e \<noteq> [] \<longrightarrow> s' = take_state e (type_of t) (in_space t) s)"
    proof (rule strip_all_filter)
      fix s' kept h hs assume "ev_of s' e (type_of t) = Some (kept @ h # hs)"
      then show "event_remove pg (Suc n) e (RTypes t) (HFun (hfun h)) (Some (length kept)) s' =
        Some (cleanup e (if kept @ hs = [] then set_ev e (AList.delete (type_of t) (ev_list s' e)) (remove_listener e (type_of t) s') else s'))"
        by (intro remove_at pg t) simp_all
    qed (use ok Some in \<open>auto simp: lists_ok_def\<close>)
    then obtain s' where s': "strip_all (\<lambda>t. event_remove pg (Suc n) e (RTypes t)) e t [] hs s = Some s'"
      "cleanup e s' = cleanup e (take_state e (type_of t) (in_space t) s)"
      "ev_list s' e \<noteq> [] \<longrightarrow> s' = take_state e (type_of t) (in_space t) s" by blast
    then have "fguid s' = fguid s" using fguid_frame(4,5) by metis
    with s' show ?thesis by (simp add: remove_one_def Some None p)
  next
    case (Some g)
    have "picks (Some g) t = (\<lambda>h. hguid h = g \<and> in_space t h)" by (simp add: picks_def fun_eq_iff)
    then show ?thesis using remove_named_quiet[OF pg(1) \<open>ev_of s e (type_of t) = Some hs\<close>, of g]
      by (simp add: remove_one_def \<open>ev_of s e (type_of t) = Some hs\<close> Some)
  qed
qed

definition take_all :: "nat \<Rightarrow> nat option \<Rightarrow> string list \<Rightarrow> estate \<Rightarrow> estate" where
  "take_all e g ts s = fold (\<lambda>t. take_state e (type_of t) (picks g t)) ts s"

lemma harg_guid_cong: "fguid s = fguid s' \<Longrightarrow> harg_guid s h = harg_guid s' h"
  by (simp add: harg_guid_def split: harg.split)

lemma fguid_take_all [simp]: "fguid (take_all e g ts s) = fguid s"
  unfolding take_all_def by (induction ts arbitrary: s) simp_all

lemma take_all_none: "ev_list s e = [] \<Longrightarrow> take_all e g ts s = s"
  unfolding take_all_def by (induction ts) (simp_all add: take_state_none ev_of_def)

lemma fold_types_take:
  assumes pg: "\<not> is_text pg e" and "\<forall>t\<in>set ts. proper t \<and> special_of pg (type_of t) = no_special" and "lists_ok s e"
  shows "\<exists>s'. fold_types (remove_one pg (\<lambda>t. event_remove pg (Suc n) e (RTypes t)) e h None) ts s = Some s' \<and>
    cleanup e s' = cleanup e (take_all e (harg_guid s h) ts s)"
  using assms(2,3)
proof (induction ts arbitrary: s)
  case Nil
  then show ?case by (simp add: take_all_def)
next
  case (Cons t ts)
  let ?u = "take_state e (type_of t) (picks (harg_guid s h) t) s"
  have pt: "proper t" "special_of pg (type_of t) = no_special" using Cons.prems(1) by simp_all
  obtain s1 where s1: "remove_one pg (\<lambda>t. event_remove pg (Suc n) e (RTypes t)) e h None t s = Some s1"
    and c: "cleanup e s1 = cleanup e ?u" and eq: "ev_list s1 e \<noteq> [] \<longrightarrow> s1 = ?u" and g: "fguid s1 = fguid s"
    using remove_one_take[OF pt(2) pg pt(1) Cons.prems(2), of n h] by blast
  have tl: "take_all e (harg_guid s h) (t # ts) s = take_all e (harg_guid s h) ts ?u" by (simp add: take_all_def)
  have gu: "lists_ok ?u e" by (rule lists_take[OF Cons.prems(2)])
  have ok: "lists_ok s1 e"
  proof -
    have "ev_of s1 e = ev_of ?u e" by (rule ext) (metis c ev_of_cleanup)
    with gu show ?thesis by (simp add: lists_ok_def)
  qed
  have hg: "harg_guid s1 h = harg_guid s h" by (rule harg_guid_cong[OF g])
  obtain s' where s': "fold_types (remove_one pg (\<lambda>t. event_remove pg (Suc n) e (RTypes t)) e h None) ts s1 = Some s'"
    "cleanup e s' = cleanup e (take_all e (harg_guid s h) ts s1)"
    using Cons.IH[OF _ ok] Cons.prems(1) unfolding hg by auto
  have "cleanup e (take_all e (harg_guid s h) ts s1) = cleanup e (take_all e (harg_guid s h) ts ?u)"
  proof (cases "ev_list s1 e = []")
    case True
    then have "ev_list ?u e = []" by (metis c ev_list_cleanup)
    with True c show ?thesis by (simp add: take_all_none)
  qed (use eq in simp)
  with s1 s' tl show ?case by simp
qed

lemma event_remove_take:
  assumes pg: "unhooked pg types" and inv: "ev_inv pg s" and ts: "types \<noteq> []" "\<forall>t\<in>set (type_names types). hd t \<noteq> CHR ''.''"
    and hd: "hd types \<noteq> CHR ''.''"
  shows "event_remove pg (Suc (Suc n)) e (RTypes types) h None s =
    Some (if is_text pg e \<or> \<not> has_events s e then s
          else cleanup e (take_all e (harg_guid s h) (type_names types) s))"
proof (cases "is_text pg e \<or> \<not> has_events s e")
  case False
  have "\<forall>t\<in>set (type_names types). proper t \<and> special_of pg (type_of t) = no_special"
    using type_names_piece[of _ types] ts(2) pg unfolding proper_def unhooked_def by blast
  then obtain s' where "fold_types (remove_one pg (\<lambda>t. event_remove pg (Suc n) e (RTypes t)) e h None) (type_names types) s = Some s'"
    "cleanup e s' = cleanup e (take_all e (harg_guid s h) (type_names types) s)"
    using fold_types_take[OF _ _ ev_inv_lists[OF inv], of pg e "type_names types" n h] False by blast
  with False ts(1) hd show ?thesis by (simp add: event_remove_Suc)
qed (simp add: event_remove_Suc)

text \<open>
  C19: for types that are not special, with a name before their namespaces, and a registry that keeps its invariant,
  \<open>event.remove\<close>, which calls itself by handler and position when
  it is given no handler, is a filter: of each type it takes out the handlers of the guid (or all)
  within the namespaces of the type, drops a type left empty with its listener, and clears the
  element's structure when no type is left.
\<close>

theorem event_remove_filters:
  assumes pg: "unhooked pg types" and inv: "ev_inv pg s" and ts: "types \<noteq> []" "\<forall>t\<in>set (type_names types). hd t \<noteq> CHR ''.''"
    and hd: "hd types \<noteq> CHR ''.''"
  shows "event_remove pg (Suc (Suc n)) e (RTypes types) h None s =
    Some (if is_text pg e \<or> \<not> has_events s e then s
          else cleanup e (take_all e (harg_guid s h) (type_names types) s))"
  using event_remove_take[OF assms] .

section \<open>What adding does\<close>

definition add_entry :: "hobj \<Rightarrow> (string \<times> hobj list) list \<Rightarrow> (string \<times> hobj list) list" where
  "add_entry ho l = AList.update (htype ho) ((case map_of l (htype ho) of Some hs \<Rightarrow> hs | None \<Rightarrow> []) @ [ho]) l"

definition plain_hobj :: "nat \<Rightarrow> nat \<Rightarrow> jsval \<Rightarrow> string \<Rightarrow> hobj" where
  "plain_hobj f g data t =
     \<lparr>hfun = f, hdata = data, hns = (if spaces_of t = [] then [[]] else sort (spaces_of t)), htype = type_of t,
      hguid = g, hlive = None\<rparr>"

text \<open>An element whose private data were made, and a function with a guid.\<close>

definition set_up :: "estate \<Rightarrow> nat \<Rightarrow> nat \<Rightarrow> bool" where
  "set_up s e f \<longleftrightarrow> fguid s f \<noteq> 0 \<and> (\<exists>p l hn. pdata s e = Some p \<and> pevents p = Some l \<and> phandle p = Some hn)"

lemma add_one_plain:
  assumes pg: "special_of pg (type_of t) = no_special" and p: "pdata s e = Some p" "pevents p = Some l" "phandle p = Some hn"
  shows "add_one pg e None f data t s = Some (s\<lparr>
      pdata := (pdata s)(e := Some (p\<lparr>pevents := Some (add_entry (plain_hobj f (fguid s f) data t) l)\<rparr>)),
      native := (if map_of l (type_of t) = None then (native s)(e := List.insert (type_of t, hn) (native s e)) else native s),
      used := List.insert (type_of t) (used s)\<rparr>)"
proof -
  have ho: "new_hobj None f data t s = plain_hobj f (fguid s f) data t"
    by (simp add: new_hobj_def plain_hobj_def Let_def)
  have ty: "htype (plain_hobj f (fguid s f) data t) = type_of t" by (simp add: plain_hobj_def)
  have el: "ev_list s e = l" using p by (simp add: ev_list_def)
  have r: "run_add pg e f (plain_hobj f (fguid s f) data t) s' = Some s'" for s' by (simp add: run_add_def ty pg no_special_def)
  show ?thesis
  proof (cases "map_of l (type_of t)")
    case None
    let ?s1 = "add_listener e (type_of t) (set_ev e (AList.update (type_of t) [] l) s)"
    have q: "init_queue pg e data t s = Some ?s1"
      using None el by (simp add: init_queue_def ev_of_def pg no_special_def Let_def)
    have s1: "?s1 = s\<lparr>pdata := (pdata s)(e := Some (p\<lparr>pevents := Some (AList.update (type_of t) [] l)\<rparr>)),
        native := (native s)(e := List.insert (type_of t, hn) (native s e))\<rparr>"
      using p by (simp add: add_listener_def handle_of_def set_ev_def)
    show ?thesis
      using p None unfolding add_one_def ho q s1
      by (simp add: r ty push_handler_def ev_of_def ev_list_def set_ev_def update_conv' add_entry_def)
  next
    case (Some hs)
    have q: "init_queue pg e data t s = Some s" using Some el by (simp add: init_queue_def ev_of_def Let_def)
    show ?thesis
      using p Some unfolding add_one_def ho q
      by (simp add: r ty push_handler_def ev_of_def ev_list_def set_ev_def add_entry_def)
  qed
qed

lemma sort_nonempty: "xs \<noteq> [] \<Longrightarrow> sort xs \<noteq> []"
  by (metis length_0_conv length_sort)

lemma list_ok_add:
  assumes "list_ok s l" and "fguid s f \<noteq> 0" "fguid s f < gnext s" and fg: "fguid s' = fguid s" "gnext s' = gnext s"
  shows "list_ok s' (add_entry (plain_hobj f (fguid s f) data t) l)"
proof -
  let ?ho = "plain_hobj f (fguid s f) data t"
  have ok: "hobj_ok s' (type_of t) ?ho" using assms(2,3) fg sort_nonempty[of "spaces_of t"] by (simp add: hobj_ok_def plain_hobj_def)
  have old: "hs \<noteq> [] \<and> (\<forall>h\<in>set hs. hobj_ok s' u h)" if "map_of l u = Some hs" for u hs
    using assms(1) map_of_SomeD[OF that] fg unfolding list_ok_def hobj_ok_def by auto
  have d: "distinct (map fst (add_entry ?ho l))"
    using assms(1) by (simp add: add_entry_def list_ok_def distinct_update)
  have "hs \<noteq> [] \<and> (\<forall>h\<in>set hs. hobj_ok s' u h)" if "(u, hs) \<in> set (add_entry ?ho l)" for u hs
  proof -
    have m: "map_of (add_entry ?ho l) u = Some hs" using that d by simp
    show ?thesis
    proof (cases "u = type_of t")
      case True
      then have "hs = (case map_of l (type_of t) of Some hs \<Rightarrow> hs | None \<Rightarrow> []) @ [?ho]"
        using m by (simp add: add_entry_def update_conv' plain_hobj_def)
      with True ok old[of "type_of t"] show ?thesis by (auto split: option.splits)
    next
      case False
      with m have "map_of l u = Some hs" by (simp add: add_entry_def update_conv' plain_hobj_def)
      then show ?thesis by (rule old)
    qed
  qed
  with d show ?thesis unfolding list_ok_def by blast
qed

lemma elem_ok_cong:
  "pdata s' e = pdata s e \<Longrightarrow> native s' e = native s e \<Longrightarrow> fguid s' = fguid s \<Longrightarrow> gnext s' = gnext s \<Longrightarrow> elem_ok pg s' e = elem_ok pg s e"
  by (simp add: elem_ok_def list_ok_def hobj_ok_def cong: option.case_cong)

lemma keys_add_entry: "fst ` set (add_entry ho l) = insert (htype ho) (fst ` set l)"
proof -
  have "dom (map_of (add_entry ho l)) = insert (htype ho) (dom (map_of l))"
    unfolding add_entry_def update_conv dom_fun_upd by simp
  then show ?thesis by (simp add: dom_map_of_conv_image_fst)
qed

lemma add_one_keeps:
  assumes pg: "special_of pg (type_of t) = no_special" and inv: "ev_inv pg s" and su: "set_up s e f"
  shows "\<exists>s'. add_one pg e None f data t s = Some s' \<and> ev_inv pg s' \<and> set_up s' e f \<and> fguid s' = fguid s \<and>
    ev_list s' e = add_entry (plain_hobj f (fguid s f) data t) (ev_list s e) \<and>
    (\<forall>e'. e' \<noteq> e \<longrightarrow> pdata s' e' = pdata s e' \<and> native s' e' = native s e')"
proof -
  obtain p l hn where p: "pdata s e = Some p" "pevents p = Some l" "phandle p = Some hn" and g: "fguid s f \<noteq> 0"
    using su unfolding set_up_def by blast
  let ?ho = "plain_hobj f (fguid s f) data t"
  let ?s = "s\<lparr>
      pdata := (pdata s)(e := Some (p\<lparr>pevents := Some (add_entry (plain_hobj f (fguid s f) data t) l)\<rparr>)),
      native := (if map_of l (type_of t) = None then (native s)(e := List.insert (type_of t, hn) (native s e)) else native s),
      used := List.insert (type_of t) (used s)\<rparr>"
  have el: "elem_ok pg s e" "\<And>f. fguid s f < gnext s" using inv by (simp_all add: ev_inv_def)
  have lo: "list_ok s l" and dn: "distinct (native s e)" and nat: "set (native s e) = (\<lambda>t. (t, hn)) ` {t \<in> fst ` set l. heard pg t}"
    using el(1) p by (simp_all add: elem_ok_def)
  have "set (native ?s e) = (\<lambda>t. (t, hn)) ` {t \<in> fst ` set (add_entry ?ho l). heard pg t}"
  proof -
    have k: "{t \<in> fst ` set (add_entry ?ho l). heard pg t} = insert (type_of t) {t \<in> fst ` set l. heard pg t}"
      using pg unfolding keys_add_entry by (auto simp: plain_hobj_def)
    have "map_of l (type_of t) \<noteq> None \<Longrightarrow> (type_of t, hn) \<in> set (native s e)"
      using nat map_of_eq_None_iff[of l "type_of t"] pg by auto
    then show ?thesis unfolding k using nat by auto
  qed
  moreover have "list_ok ?s (add_entry ?ho l)" by (rule list_ok_add[OF lo g el(2)]) simp_all
  moreover have "distinct (native ?s e)" using dn by simp
  ultimately have e: "elem_ok pg ?s e" using p by (simp add: elem_ok_def)
  have "elem_ok pg ?s e'" for e'
  proof (cases "e' = e")
    case False
    then have "elem_ok pg ?s e' = elem_ok pg s e'" by (intro elem_ok_cong) simp_all
    with inv show ?thesis by (simp add: ev_inv_def)
  qed (use e in simp)
  then have "ev_inv pg ?s" using el(2) by (simp add: ev_inv_def)
  moreover have "set_up ?s e f" using p g by (simp add: set_up_def)
  moreover have "ev_list ?s e = add_entry ?ho (ev_list s e)" using p by (simp add: ev_list_def)
  ultimately show ?thesis using add_one_plain[OF pg p, of f data] by auto
qed

lemma hobj_ok_give [simp]: "hobj_ok s t h \<Longrightarrow> hobj_ok (give_guid f s) t h"
  by (auto simp: hobj_ok_def give_guid_def)

lemma list_ok_give: "list_ok s l \<Longrightarrow> list_ok (give_guid f s) l"
  unfolding list_ok_def by fastforce

lemma give_guid_frame [simp]: "pdata (give_guid f s) = pdata s" "native (give_guid f s) = native s"
  "gnext s \<le> gnext (give_guid f s)"
  by (simp_all add: give_guid_def)

lemma ev_inv_give: "ev_inv pg s \<Longrightarrow> ev_inv pg (give_guid f s) \<and> fguid (give_guid f s) f \<noteq> 0"
proof -
  assume a: "ev_inv pg s"
  have "elem_ok pg (give_guid f s) e" for e
  proof -
    have "elem_ok pg s e" using a by (simp add: ev_inv_def)
    then show ?thesis using list_ok_give[of s _ f] by (auto simp: elem_ok_def split: option.splits)
  qed
  moreover have "fguid (give_guid f s) k < gnext (give_guid f s)" for k
    using a by (auto simp: ev_inv_def give_guid_def intro: less_SucI)
  ultimately show ?thesis using a by (auto simp: ev_inv_def give_guid_def)
qed

lemma init_data_keeps:
  assumes inv: "ev_inv pg s" and g: "fguid s f \<noteq> 0"
  shows "ev_inv pg (init_data e s) \<and> set_up (init_data e s) e f \<and> fguid (init_data e s) = fguid s \<and>
    ev_list (init_data e s) e = ev_list s e \<and>
    (\<forall>e'. e' \<noteq> e \<longrightarrow> pdata (init_data e s) e' = pdata s e' \<and> native (init_data e s) e' = native s e')"
proof -
  have el: "elem_ok pg s e" using inv by (simp add: ev_inv_def)
  have fg: "fguid (init_data e s) = fguid s" "native (init_data e s) = native s" "gnext (init_data e s) = gnext s"
    by (simp_all add: init_data_def Let_def)
  have e: "elem_ok pg (init_data e s) e" and su: "set_up (init_data e s) e f" and l: "ev_list (init_data e s) e = ev_list s e"
    using el g by (auto simp: elem_ok_def init_data_def set_up_def list_ok_def hobj_ok_def ev_list_def Let_def split: option.splits)
  have o': "e' \<noteq> e \<Longrightarrow> pdata (init_data e s) e' = pdata s e'" for e'
    by (simp add: init_data_def Let_def)
  have "elem_ok pg (init_data e s) e'" for e'
  proof (cases "e' = e")
    case False
    then have "elem_ok pg (init_data e s) e' = elem_ok pg s e'" using fg o' by (intro elem_ok_cong) simp_all
    with inv show ?thesis by (simp add: ev_inv_def)
  qed (use e in simp)
  with inv fg su l o' show ?thesis by (simp add: ev_inv_def)
qed

lemma add_all_types_keeps:
  assumes "\<forall>t\<in>set ts. special_of pg (type_of t) = no_special" and "ev_inv pg s" and "set_up s e f"
  shows "\<exists>s'. add_all_types pg e None f data ts s = Some s' \<and> ev_inv pg s' \<and> set_up s' e f \<and> fguid s' = fguid s \<and>
    ev_list s' e = fold (\<lambda>t. add_entry (plain_hobj f (fguid s f) data t)) ts (ev_list s e) \<and>
    (\<forall>e'. e' \<noteq> e \<longrightarrow> pdata s' e' = pdata s e' \<and> native s' e' = native s e')"
  using assms
proof (induction ts arbitrary: s)
  case (Cons t ts)
  obtain s1 where s1: "add_one pg e None f data t s = Some s1" "ev_inv pg s1" "set_up s1 e f" "fguid s1 = fguid s"
    "ev_list s1 e = add_entry (plain_hobj f (fguid s f) data t) (ev_list s e)"
    "\<forall>e'. e' \<noteq> e \<longrightarrow> pdata s1 e' = pdata s e' \<and> native s1 e' = native s e'"
    using add_one_keeps[OF _ Cons.prems(2,3), where t = t] Cons.prems(1) by (metis list.set_intros(1))
  obtain s2 where "add_all_types pg e None f data ts s1 = Some s2" "ev_inv pg s2" "set_up s2 e f" "fguid s2 = fguid s1"
    "ev_list s2 e = fold (\<lambda>t. add_entry (plain_hobj f (fguid s1 f) data t)) ts (ev_list s1 e)"
    "\<forall>e'. e' \<noteq> e \<longrightarrow> pdata s2 e' = pdata s1 e' \<and> native s2 e' = native s1 e'"
    using Cons.IH[OF _ s1(2,3)] Cons.prems(1) by auto
  with s1 show ?case by auto
qed simp

text \<open>A handler given as a function or as \<open>false\<close>.\<close>

definition fun_of :: "harg \<Rightarrow> nat option" where
  "fun_of h = (case h of HFalse \<Rightarrow> Some returnFalse | HFun f \<Rightarrow> Some f | _ \<Rightarrow> None)"

lemma event_add_adds:
  assumes "unhooked pg types" and "ev_inv pg s" and "fun_of h = Some f" and "\<not> is_text pg e" and "accepts pg e"
  shows "\<exists>s'. event_add pg e types h data s = Some s' \<and> ev_inv pg s' \<and> fguid s' = fguid (give_guid f s) \<and>
    has_events s' e \<and>
    ev_list s' e = fold (\<lambda>t. add_entry (plain_hobj f (fguid s' f) data t)) (type_names types) (ev_list s e) \<and>
    (\<forall>e'. e' \<noteq> e \<longrightarrow> pdata s' e' = pdata s e' \<and> native s' e' = native s e')"
proof -
  let ?g = "give_guid f s"
  have p: "handler_parts h = Some (None, f)" using assms(3) by (auto simp: fun_of_def handler_parts_def split: harg.splits)
  have g: "ev_inv pg ?g" "fguid ?g f \<noteq> 0" using ev_inv_give[OF assms(2)] by simp_all
  note i = init_data_keeps[OF g, of e]
  obtain s' where s': "add_all_types pg e None f data (type_names types) (init_data e ?g) = Some s'" "ev_inv pg s'" "set_up s' e f"
    "fguid s' = fguid (init_data e ?g)"
    "ev_list s' e = fold (\<lambda>t. add_entry (plain_hobj f (fguid (init_data e ?g) f) data t)) (type_names types) (ev_list (init_data e ?g) e)"
    "\<forall>e'. e' \<noteq> e \<longrightarrow> pdata s' e' = pdata (init_data e ?g) e' \<and> native s' e' = native (init_data e ?g) e'"
    using add_all_types_keeps[OF assms(1)[unfolded unhooked_def], of "init_data e ?g" e f data] i by blast
  have "has_events s' e" using s'(3) by (auto simp: set_up_def has_events_def)
  moreover have "ev_list ?g e = ev_list s e" by (simp add: ev_list_def)
  ultimately show ?thesis using s' i p assms(4,5) by (simp add: event_add_def)
qed

section \<open>What removing keeps\<close>

lemma hobj_list_filter: "list_ok s l \<Longrightarrow> map_of l ty = Some hs \<Longrightarrow> filter P hs \<noteq> [] \<Longrightarrow>
    list_ok s (AList.update ty (filter P hs) l)"
proof -
  assume a: "list_ok s l" "map_of l ty = Some hs" "filter P hs \<noteq> []"
  have d: "distinct (map fst (AList.update ty (filter P hs) l))" using a(1) by (simp add: list_ok_def distinct_update)
  have "ks \<noteq> [] \<and> (\<forall>h\<in>set ks. hobj_ok s u h)" if "(u, ks) \<in> set (AList.update ty (filter P hs) l)" for u ks
  proof -
    have "map_of (AList.update ty (filter P hs) l) u = Some ks" using that d by simp
    then have m: "u = ty \<and> ks = filter P hs \<or> map_of l u = Some ks" by (auto simp: update_conv' split: if_splits)
    have old: "vs \<noteq> [] \<and> (\<forall>h\<in>set vs. hobj_ok s v h)" if "map_of l v = Some vs" for v vs
      using a(1) map_of_SomeD[OF that] unfolding list_ok_def by blast
    show ?thesis using m old[of u ks] old[OF a(2)] a(3) by auto
  qed
  with d show ?thesis unfolding list_ok_def by blast
qed

lemma list_ok_delete: "list_ok s l \<Longrightarrow> list_ok s (AList.delete ty l)"
  unfolding list_ok_def AList.delete_eq by (auto intro: distinct_filter simp: distinct_map inj_on_def)

lemma list_ok_frame: "fguid s' = fguid s \<Longrightarrow> gnext s' = gnext s \<Longrightarrow> list_ok s' l = list_ok s l"
  by (simp add: list_ok_def hobj_ok_def)

lemma gnext_frame [simp]: "gnext (set_ev e l s) = gnext s" "gnext (remove_listener e t s) = gnext s"
  by (auto simp: set_ev_def remove_listener_def split: option.splits)

lemma elem_ok_take:
  assumes el: "elem_ok pg s e"
  shows "elem_ok pg (take_state e ty P s) e"
proof (cases "ev_of s e ty")
  case None
  with el show ?thesis by (simp add: take_state_none)
next
  case (Some hs)
  obtain p l where p: "pdata s e = Some p" "pevents p = Some l" and m: "map_of l ty = Some hs"
    using Some by (auto simp: ev_of_def ev_list_def split: option.splits)
  obtain hn where hn: "phandle p = Some hn" and lo: "list_ok s l" and dn: "distinct (native s e)"
    and nat: "set (native s e) = (\<lambda>t. (t, hn)) ` {t \<in> fst ` set l. heard pg t}"
    using el p by (auto simp: elem_ok_def)
  have evl: "ev_list s e = l" using p by (simp add: ev_list_def)
  show ?thesis
  proof (cases "filter (\<lambda>h. \<not> P h) hs = []")
    case True
    let ?s = "set_ev e (AList.delete ty l) (remove_listener e ty s)"
    have ts: "take_state e ty P s = ?s" using Some True evl by (simp add: take_state_def)
    have pd: "pdata ?s e = Some (p\<lparr>pevents := Some (AList.delete ty l)\<rparr>)"
      using p by (simp add: set_ev_def)
    have nt: "native ?s e = filter (\<lambda>x. x \<noteq> (ty, hn)) (native s e)"
      using p hn by (simp add: set_ev_def remove_listener_def handle_of_def)
    have "fst ` set (AList.delete ty l) = fst ` set l - {ty}" by (force simp: AList.delete_eq)
    then have "set (native ?s e) = (\<lambda>t. (t, hn)) ` {t \<in> fst ` set (AList.delete ty l). heard pg t}"
      unfolding nt using nat by auto
    moreover have "list_ok ?s (AList.delete ty l)"
      using list_ok_delete[OF lo] list_ok_frame[of ?s s] by simp
    ultimately show ?thesis unfolding ts using pd nt hn dn by (simp add: elem_ok_def)
  next
    case False
    let ?l = "AList.update ty (filter (\<lambda>h. \<not> P h) hs) l"
    have ts: "take_state e ty P s = set_ev e ?l s" using Some False evl by (simp add: take_state_def set_list_def)
    have k: "fst ` set ?l = fst ` set l"
    proof -
      have "dom (map_of ?l) = dom (map_of l)" using m unfolding update_conv by (auto split: if_splits)
      then show ?thesis by (simp add: dom_map_of_conv_image_fst)
    qed
    have "list_ok (set_ev e ?l s) ?l" using hobj_list_filter[OF lo m False] list_ok_frame[of "set_ev e ?l s" s] by simp
    moreover have "set (native s e) = (\<lambda>t. (t, hn)) ` {t \<in> fst ` set ?l. heard pg t}"
      unfolding nat k ..
    ultimately show ?thesis unfolding ts using p hn dn by (simp add: elem_ok_def set_ev_def)
  qed
qed

lemma take_other: "e' \<noteq> e \<Longrightarrow> pdata (take_state e ty P s) e' = pdata s e' \<and> native (take_state e ty P s) e' = native s e'"
  by (auto simp: take_state_def set_ev_def set_list_def remove_listener_def split: option.splits)

lemma gnext_take [simp]: "gnext (take_state e ty P s) = gnext s"
  by (auto simp: take_state_def set_ev_def set_list_def remove_listener_def split: option.splits)

lemma ev_inv_local:
  assumes "ev_inv pg s" and "elem_ok pg s' e" and "fguid s' = fguid s" and "gnext s' = gnext s"
    and "\<And>e'. e' \<noteq> e \<Longrightarrow> pdata s' e' = pdata s e' \<and> native s' e' = native s e'"
  shows "ev_inv pg s'"
proof -
  have "elem_ok pg s' e'" for e'
  proof (cases "e' = e")
    case False
    then have "elem_ok pg s' e' = elem_ok pg s e'" using assms(3,4,5) by (intro elem_ok_cong) simp_all
    with assms(1) show ?thesis by (simp add: ev_inv_def)
  qed (use assms(2) in simp)
  with assms(1,3,4) show ?thesis by (simp add: ev_inv_def)
qed

lemma ev_inv_take: "ev_inv pg s \<Longrightarrow> ev_inv pg (take_state e ty P s)"
  using elem_ok_take take_other ev_inv_local[of pg s "take_state e ty P s" e] by (simp add: ev_inv_def)

lemma ev_inv_cleanup: "ev_inv pg s \<Longrightarrow> ev_inv pg (cleanup e s)"
proof (rule ev_inv_local[of pg s _ e])
  assume a: "ev_inv pg s"
  then have "elem_ok pg s e" by (simp add: ev_inv_def)
  then show "elem_ok pg (cleanup e s) e"
  proof (cases "ev_list s e = []")
    case True
    with \<open>elem_ok pg s e\<close> have "native s e = []"
      by (auto simp: elem_ok_def ev_list_def split: option.splits)
    with True \<open>elem_ok pg s e\<close> show ?thesis
      by (auto simp: elem_ok_def cleanup_def ev_list_def split: option.splits)
  qed (simp add: cleanup_nonempty)
qed (auto simp: cleanup_def split: option.splits)

lemma take_all_keeps: "ev_inv pg s \<Longrightarrow> ev_inv pg (take_all e g ts s)"
  unfolding take_all_def by (induction ts arbitrary: s) (simp_all add: ev_inv_take)

section \<open>Properties of the registry\<close>

text \<open>
  C21: adding a function (or false) and removing one, or all, under types that are not special, with a name before their
  namespaces, keep the registry well formed: every handler in the list of a type has that
  type, a guid, which is its function's unless \<open>live\<close> made it, and sorted namespaces, no list is empty, and the browser holds
  the element's handle function for exactly the types with handlers, but for those whose special event listens in its own way.
\<close>

theorem registry_well_typed:
  assumes pg: "unhooked pg types" and inv: "ev_inv pg s" and h: "\<And>ho. h \<noteq> HObj ho"
    and types: "types \<noteq> []" "hd types \<noteq> CHR ''.''" "\<forall>t\<in>set (type_names types). hd t \<noteq> CHR ''.''"
  shows "\<exists>s1 s2. event_add pg e types h data s = Some s1 \<and> ev_inv pg s1 \<and>
    event_remove pg (Suc (Suc n)) e (RTypes types) h None s = Some s2 \<and> ev_inv pg s2"
proof -
  have "\<exists>s1. event_add pg e types h data s = Some s1 \<and> ev_inv pg s1"
  proof (cases "fun_of h")
    case None
    then have "h = HNone" using h by (auto simp: fun_of_def split: harg.splits)
    then show ?thesis using inv by (simp add: event_add_def handler_parts_def)
  next
    case (Some f)
    then have p: "handler_parts h = Some (None, f)" by (auto simp: fun_of_def handler_parts_def split: harg.splits)
    show ?thesis
    proof (cases "\<not> is_text pg e \<and> accepts pg e")
      case True
      then show ?thesis using event_add_adds[OF pg inv Some, of e data] by blast
    next
      case False
      then show ?thesis using p inv ev_inv_give[OF inv, of f] by (auto simp: event_add_def)
    qed
  qed
  moreover have "\<exists>s2. event_remove pg (Suc (Suc n)) e (RTypes types) h None s = Some s2 \<and> ev_inv pg s2"
    unfolding event_remove_take[OF pg inv types(1,3,2)] using inv ev_inv_cleanup take_all_keeps by simp
  ultimately show ?thesis by blast
qed

section \<open>Removing what was added\<close>

definition strip_g :: "nat \<Rightarrow> (string \<times> hobj list) list \<Rightarrow> (string \<times> hobj list) list" where
  "strip_g g l = filter (\<lambda>(t, hs). hs \<noteq> []) (map (\<lambda>(t, hs). (t, filter (\<lambda>h. hguid h \<noteq> g) hs)) l)"

lemma strip_g_add: "hguid ho = g \<Longrightarrow> strip_g g (add_entry ho l) = strip_g g l"
proof -
  assume g: "hguid ho = g"
  have "map_of l k = Some hs \<Longrightarrow> strip_g g (AList.update k (hs @ [ho]) l) = strip_g g l" for k hs
    by (induction l) (auto simp: strip_g_def g)
  moreover have "map_of l k = None \<Longrightarrow> strip_g g (AList.update k [ho] l) = strip_g g l" for k
    by (induction l) (auto simp: strip_g_def g)
  ultimately show ?thesis by (simp add: add_entry_def split: option.split)
qed

definition take_list :: "string \<Rightarrow> (hobj \<Rightarrow> bool) \<Rightarrow> (string \<times> hobj list) list \<Rightarrow> (string \<times> hobj list) list" where
  "take_list ty P l = (case map_of l ty of None \<Rightarrow> l
     | Some hs \<Rightarrow> if filter (\<lambda>h. \<not> P h) hs = [] then AList.delete ty l
                  else AList.update ty (filter (\<lambda>h. \<not> P h) hs) l)"

lemma ev_list_take: "ev_list (take_state e ty P s) e = take_list ty P (ev_list s e)"
proof (cases "ev_of s e ty")
  case None
  then show ?thesis by (simp add: take_state_none take_list_def ev_of_def)
next
  case (Some hs)
  then show ?thesis using pdata_of_ev[OF Some]
    by (auto simp: take_state_def take_list_def set_list_def ev_of_def)
qed

lemma ev_list_take_all: "ev_list (take_all e g ts s) e = fold (\<lambda>t. take_list (type_of t) (picks g t)) ts (ev_list s e)"
  unfolding take_all_def by (induction ts arbitrary: s) (simp_all add: ev_list_take)

lemma strip_g_take:
  assumes P: "\<And>h. P h \<Longrightarrow> hguid h = g" and "distinct (map fst l)"
  shows "strip_g g (take_list ty P l) = strip_g g l"
proof -
  have f: "filter (\<lambda>h. hguid h \<noteq> g) (filter (\<lambda>h. \<not> P h) hs) = filter (\<lambda>h. hguid h \<noteq> g) hs" for hs
    unfolding filter_filter using P by (intro filter_cong) auto
  have "map_of l ty = Some hs \<Longrightarrow> filter (\<lambda>h. \<not> P h) hs = [] \<Longrightarrow> strip_g g (AList.delete ty l) = strip_g g l" for hs
    using assms(2)
  proof (induction l)
    case (Cons x l)
    obtain u ks where x: "x = (u, ks)" by (cases x)
    show ?case
    proof (cases "u = ty")
      case True
      then have "ty \<notin> fst ` set l" using Cons.prems(3) x by auto
      then have "AList.delete ty l = l" by (simp add: delete_idem)
      moreover have "filter (\<lambda>h. hguid h \<noteq> g) ks = []"
        using f[of ks, unfolded Cons.prems(2)] Cons.prems True x by (metis (no_types, lifting) f filter.simps(1) map_of_Cons_code(2) option.inject)
      ultimately show ?thesis using True x by (simp add: strip_g_def)
    next
      case False
      with Cons x show ?thesis by (simp add: strip_g_def)
    qed
  qed simp
  moreover have "map_of l ty = Some hs \<Longrightarrow> strip_g g (AList.update ty (filter (\<lambda>h. \<not> P h) hs) l) = strip_g g l" for hs
    using f[of hs] by (induction l) (auto simp: strip_g_def)
  ultimately show ?thesis by (simp add: take_list_def split: option.split)
qed

lemma distinct_take: "distinct (map fst l) \<Longrightarrow> distinct (map fst (take_list ty P l))"
  by (auto simp: take_list_def distinct_update distinct_delete split: option.split)

text \<open>The handlers with the guid are each picked by one of the types of the list.\<close>

definition covered :: "nat \<Rightarrow> string list \<Rightarrow> (string \<times> hobj list) list \<Rightarrow> bool" where
  "covered g ts l \<longleftrightarrow> (\<forall>u hs h. map_of l u = Some hs \<longrightarrow> h \<in> set hs \<longrightarrow> hguid h = g \<longrightarrow>
     (\<exists>t\<in>set ts. type_of t = u \<and> in_space t h))"

lemma covered_add:
  assumes "covered g ts l" and "t \<in> set ts"
  shows "covered g ts (add_entry (plain_hobj f g data t) l)"
  unfolding covered_def
proof (intro allI impI)
  fix u hs h
  assume m: "map_of (add_entry (plain_hobj f g data t) l) u = Some hs" and h: "h \<in> set hs" "hguid h = g"
  show "\<exists>t\<in>set ts. type_of t = u \<and> in_space t h"
  proof (cases "u = type_of t \<and> h = plain_hobj f g data t")
    case True
    have "in_space t h" using True sort_nonempty[of "spaces_of t"] by (auto simp: in_space_def plain_hobj_def ns_test_def)
    with True assms(2) show ?thesis by blast
  next
    case False
    then obtain hs' where "map_of l u = Some hs'" "h \<in> set hs'"
      using m h by (auto simp: add_entry_def update_conv' plain_hobj_def split: if_splits option.splits)
    with assms(1) h(2) show ?thesis unfolding covered_def by blast
  qed
qed

lemma covered_take:
  assumes "covered g (t # ts) l"
  shows "covered g ts (take_list (type_of t) (picks (Some g) t) l)"
  unfolding covered_def
proof (intro allI impI)
  fix u hs h
  assume m: "map_of (take_list (type_of t) (picks (Some g) t) l) u = Some hs" and h: "h \<in> set hs" "hguid h = g"
  have "\<exists>ks. map_of l u = Some ks \<and> h \<in> set ks \<and> (u = type_of t \<longrightarrow> \<not> picks (Some g) t h)"
    using m h(1) by (auto simp: take_list_def update_conv' delete_conv' split: option.splits if_splits)
  then obtain t' where "t' \<in> set (t # ts)" "type_of t' = u" "in_space t' h" "u = type_of t \<longrightarrow> \<not> picks (Some g) t h"
    using assms h(2) unfolding covered_def by blast
  moreover from this h(2) have "t' \<noteq> t" by (auto simp: picks_def)
  ultimately show "\<exists>t\<in>set ts. type_of t = u \<and> in_space t h" by auto
qed

lemma take_all_covered:
  assumes "covered g ts l" and "distinct (map fst l)"
  shows "covered g [] (fold (\<lambda>t. take_list (type_of t) (picks (Some g) t)) ts l) \<and>
    strip_g g (fold (\<lambda>t. take_list (type_of t) (picks (Some g) t)) ts l) = strip_g g l"
  using assms
proof (induction ts arbitrary: l)
  case (Cons t ts)
  have "picks (Some g) t h \<Longrightarrow> hguid h = g" for h by (simp add: picks_def)
  then have "strip_g g (take_list (type_of t) (picks (Some g) t) l) = strip_g g l"
    using strip_g_take Cons.prems(2) by blast
  with Cons.IH[OF covered_take[OF Cons.prems(1)] distinct_take[OF Cons.prems(2)]] show ?case by simp
qed simp

lemma strip_g_same:
  assumes "list_ok s l" and "covered g [] l"
  shows "strip_g g l = l"
proof -
  have "hs \<noteq> [] \<and> filter (\<lambda>h. hguid h \<noteq> g) hs = hs" if "(t, hs) \<in> set l" for t hs
  proof -
    have "map_of l t = Some hs" using that assms(1) unfolding list_ok_def by simp
    with assms(2) have "\<forall>h\<in>set hs. hguid h \<noteq> g" unfolding covered_def by auto
    moreover have "hs \<noteq> []" using that assms(1) unfolding list_ok_def by auto
    ultimately show ?thesis by (simp add: filter_id_conv)
  qed
  then have "\<And>x. x \<in> set l \<Longrightarrow> (\<lambda>(t, hs). (t, filter (\<lambda>h. hguid h \<noteq> g) hs)) x = x"
    and ne: "\<And>x. x \<in> set l \<Longrightarrow> (\<lambda>(t, hs). hs \<noteq> []) x" by fastforce+
  then have "map (\<lambda>(t, hs). (t, filter (\<lambda>h. hguid h \<noteq> g) hs)) l = l" by (intro map_idI)
  with ne show ?thesis by (simp add: strip_g_def filter_id_conv)
qed

lemma fold_add_strip:
  "strip_g g (fold (\<lambda>t. add_entry (plain_hobj f g data t)) ts l) = strip_g g l"
proof (induction ts arbitrary: l)
  case (Cons t ts)
  have "hguid (plain_hobj f g data t) = g" by (simp add: plain_hobj_def)
  with Cons show ?case by (simp add: strip_g_add)
qed simp

lemma fold_add_covered:
  "covered g T l \<Longrightarrow> set ts \<subseteq> set T \<Longrightarrow> covered g T (fold (\<lambda>t. add_entry (plain_hobj f g data t)) ts l)"
  by (induction ts arbitrary: l) (simp_all add: covered_add)

lemma ev_list_ok: "ev_inv pg s \<Longrightarrow> list_ok s (ev_list s e)"
proof -
  assume "ev_inv pg s"
  then have "elem_ok pg s e" by (simp add: ev_inv_def)
  then show ?thesis by (auto simp: elem_ok_def ev_list_def list_ok_def split: option.splits)
qed

text \<open>
  C20: on an element that has no handler with the function's guid, unbinding a function from the types it has just been bound to
  (types that are not special, with a name before their namespaces) gives back the handlers of the
  element as they were; the invariant of the registry, and with it the listeners of the browser for these handlers, holds again, and
  other elements are not touched.
\<close>

theorem unbind_undoes_bind:
  assumes pg: "unhooked pg types" "\<not> is_text pg e" "accepts pg e" and inv: "ev_inv pg s"
    and types: "types \<noteq> []" "hd types \<noteq> CHR ''.''" "\<forall>t\<in>set (type_names types). hd t \<noteq> CHR ''.''"
    and fresh: "\<forall>u hs h. ev_of s e u = Some hs \<longrightarrow> h \<in> set hs \<longrightarrow> hguid h \<noteq> fguid s f"
  shows "\<exists>s1 s2. event_add pg e types (HFun f) data s = Some s1 \<and>
    event_remove pg (Suc (Suc n)) e (RTypes types) (HFun f) None s1 = Some s2 \<and>
    ev_list s2 e = ev_list s e \<and> ev_inv pg s2 \<and>
    (\<forall>e'. e' \<noteq> e \<longrightarrow> pdata s2 e' = pdata s e' \<and> native s2 e' = native s e')"
proof -
  have "fun_of (HFun f) = Some f" by (simp add: fun_of_def)
  then obtain s1 where s1: "event_add pg e types (HFun f) data s = Some s1" "ev_inv pg s1"
    "fguid s1 = fguid (give_guid f s)" "has_events s1 e"
    "ev_list s1 e = fold (\<lambda>t. add_entry (plain_hobj f (fguid s1 f) data t)) (type_names types) (ev_list s e)"
    "\<forall>e'. e' \<noteq> e \<longrightarrow> pdata s1 e' = pdata s e' \<and> native s1 e' = native s e'"
    using event_add_adds[OF pg(1) inv _ pg(2,3)] by blast
  let ?g = "fguid s1 f" and ?ts = "type_names types"
  have cov0: "covered ?g ts (ev_list s e)" for ts
  proof -
    have "hguid h \<noteq> ?g" if "map_of (ev_list s e) u = Some hs" "h \<in> set hs" for u hs h
    proof -
      have ev: "ev_of s e u = Some hs" using that(1) by (simp add: ev_of_def)
      have "hobj_ok s u h" using ev_of_ok[OF inv ev] that(2) by blast
      then have "hguid h < gnext s" using inv by (simp add: hobj_ok_def ev_inv_def)
      moreover have "hguid h \<noteq> fguid s f" using fresh ev that(2) by blast
      ultimately show ?thesis using s1(3) by (simp add: give_guid_def split: if_splits)
    qed
    then show ?thesis unfolding covered_def by blast
  qed
  have cov: "covered ?g ?ts (ev_list s1 e)"
    unfolding s1(5) by (rule fold_add_covered[OF cov0]) simp
  have d: "distinct (map fst (ev_list s1 e))" using ev_list_ok[OF s1(2)] unfolding list_ok_def by blast
  let ?s2 = "cleanup e (take_all e (Some ?g) ?ts s1)"
  have rm: "event_remove pg (Suc (Suc n)) e (RTypes types) (HFun f) None s1 = Some ?s2"
    using event_remove_take[OF pg(1) s1(2) types(1,3,2), of n e "HFun f"] pg(2) s1(4) by (simp add: harg_guid_def)
  have inv2: "ev_inv pg ?s2" by (intro ev_inv_cleanup take_all_keeps s1)
  have l2: "ev_list ?s2 e = fold (\<lambda>t. take_list (type_of t) (picks (Some ?g) t)) ?ts (ev_list s1 e)"
    by (simp add: ev_list_take_all)
  have c2: "covered ?g [] (ev_list ?s2 e)" "strip_g ?g (ev_list ?s2 e) = strip_g ?g (ev_list s1 e)"
    unfolding l2 using take_all_covered[OF cov d] by simp_all
  have "ev_list ?s2 e = strip_g ?g (ev_list ?s2 e)"
    using strip_g_same[OF ev_list_ok[OF inv2] c2(1)] by simp
  also have "\<dots> = strip_g ?g (ev_list s e)" unfolding c2(2) s1(5) by (rule fold_add_strip)
  also have "\<dots> = ev_list s e" by (rule strip_g_same[OF ev_list_ok[OF inv] cov0])
  finally have "ev_list ?s2 e = ev_list s e" .
  moreover have "pdata ?s2 e' = pdata s e' \<and> native ?s2 e' = native s e'" if "e' \<noteq> e" for e'
  proof -
    have "pdata (take_all e g ts s') e' = pdata s' e' \<and> native (take_all e g ts s') e' = native s' e'" for g ts s'
      unfolding take_all_def using take_other[OF that] by (induction ts arbitrary: s') simp_all
    moreover have "pdata (cleanup e s') e' = pdata s' e' \<and> native (cleanup e s') e' = native s' e'" for s'
      using that by (auto simp: cleanup_def split: option.splits)
    ultimately show ?thesis using s1(6) that by simp
  qed
  ultimately show ?thesis using s1(1) rm inv2 by blast
qed

section \<open>Two shortcomings\<close>

lemma take_nothing:
  assumes "ev_inv pg s"
  shows "take_all e (Some 0) ts s = s"
proof -
  have "take_state e ty (picks (Some 0) t) s = s" for ty t
  proof (cases "ev_of s e ty")
    case (Some hs)
    have "hs \<noteq> [] \<and> (\<forall>h\<in>set hs. hguid h \<noteq> 0)" using ev_of_ok[OF assms Some] by (auto simp: hobj_ok_def)
    then have "filter (\<lambda>h. \<not> picks (Some 0) t h) hs = hs" "hs \<noteq> []"
      by (auto simp: filter_id_conv picks_def)
    with Some show ?thesis by (simp add: take_state_def set_list_triv)
  qed (simp add: take_state_none)
  then show ?thesis unfolding take_all_def by (induction ts) simp_all
qed

lemma make_once_keeps:
  assumes "ev_inv pg s" and "fguid s (fnew s) = 0"
  shows "ev_inv pg (snd (make_once f s))"
proof -
  let ?s = "snd (make_once f s)"
  have p: "pdata ?s = pdata s" "native ?s = native s" by (simp_all add: make_once_def Let_def)
  have g: "fguid ?s k = fguid s k" if "fguid s k \<noteq> 0" for k
    using that assms(2) by (auto simp: make_once_def Let_def)
  have gn: "gnext s \<le> gnext ?s" by (simp add: make_once_def Let_def)
  have "hobj_ok s t h \<Longrightarrow> hobj_ok ?s t h" for t h using g gn by (auto simp: hobj_ok_def)
  then have "list_ok s l \<Longrightarrow> list_ok ?s l" for l unfolding list_ok_def by fastforce
  then have "elem_ok pg ?s e" if "elem_ok pg s e" for e using that p by (auto simp: elem_ok_def split: option.splits)
  moreover have "fguid ?s k < gnext ?s" for k
    using assms(1) by (auto simp: ev_inv_def make_once_def Let_def intro: less_SucI)
  ultimately show ?thesis using assms(1) by (simp add: ev_inv_def)
qed

lemma add_entry_ne: "add_entry ho l \<noteq> []"
  by (cases l) (auto simp: add_entry_def)

lemma fold_add_ne: "ts \<noteq> [] \<Longrightarrow> fold (\<lambda>t. add_entry (ho t)) ts l \<noteq> []"
  by (induction ts rule: rev_induct) (simp_all add: add_entry_ne)

text \<open>
  C?: a function that had no guid when \<open>one\<close> bound it cannot be unbound by itself: \<open>one\<close> draws a guid
  for its wrapper only, and \<open>unbind\<close> with the function changes nothing.
\<close>

theorem one_cannot_be_unbound:
  assumes pg: "unhooked pg types" "\<not> is_text pg e" "accepts pg e" and inv: "ev_inv pg s"
    and new: "fguid s f = 0" "fguid s (fnew s) = 0" "f \<noteq> fnew s"
    and types: "type_names types \<noteq> []" "hd types \<noteq> CHR ''.''" "\<forall>t\<in>set (type_names types). hd t \<noteq> CHR ''.''"
  shows "\<exists>s1. bind_one pg types data f [e] s = Some s1 \<and> ev_list s1 e \<noteq> [] \<and>
    unbind pg (Suc (Suc n)) (RTypes types) (HFun f) [e] s1 = Some s1"
proof -
  let ?s = "snd (make_once f s)" and ?w = "fnew s"
  have w: "fst (make_once f s) = ?w" by (simp add: make_once_def Let_def)
  have gw: "fguid ?s ?w = gnext s" "fguid ?s f = 0" using new by (simp_all add: make_once_def Let_def)
  have pos: "0 < gnext s" using inv unfolding ev_inv_def by (metis gr_zeroI not_less0)
  have "give_guid ?w ?s = ?s" using gw pos by (simp add: give_guid_def)
  moreover have "fun_of (HFun ?w) = Some ?w" by (simp add: fun_of_def)
  ultimately obtain s1 where s1: "event_add pg e types (HFun ?w) data ?s = Some s1" "ev_inv pg s1"
    "fguid s1 = fguid ?s" "has_events s1 e"
    "ev_list s1 e = fold (\<lambda>t. add_entry (plain_hobj ?w (fguid s1 ?w) data t)) (type_names types) (ev_list ?s e)"
    using event_add_adds[OF pg(1) make_once_keeps[OF inv new(2), of f] _ pg(2,3), of "HFun ?w" ?w data] by auto
  have ne: "ev_list s1 e \<noteq> []" unfolding s1(5) by (rule fold_add_ne[OF types(1)])
  have "types \<noteq> []" using types(1) by (auto simp: type_names_def)
  then have "event_remove pg (Suc (Suc n)) e (RTypes types) (HFun f) None s1 = Some (cleanup e s1)"
    using event_remove_take[OF pg(1) s1(2) _ types(3,2), of n e "HFun f"] pg(2) s1(4) take_nothing[OF s1(2)] s1(3) gw(2)
    by (simp add: harg_guid_def)
  then have "unbind pg (Suc (Suc n)) (RTypes types) (HFun f) [e] s1 = Some s1"
    by (simp add: unbind_def cleanup_nonempty[OF ne])
  moreover have "bind_one pg types data f [e] s = Some s1"
    using s1(1) w by (simp add: bind_one_def case_prod_beta)
  ultimately show ?thesis using ne by blast
qed

lemma remove_empty_type:
  assumes "\<not> is_text pg e" and "ev_list s e = ([], hs) # rest" and "hd ns = CHR ''.''"
  shows "event_remove pg n e (RTypes ns) HNone None s = None"
proof (induction n)
  case (Suc n)
  have "ev_of s e [] = Some hs" using assms(2) by (simp add: ev_of_def)
  moreover from this have "has_events s e" by (rule has_events_ev)
  ultimately show ?case using assms Suc by (simp add: event_remove_Suc)
qed simp

text \<open>
  Binding to a type that is only a namespace, on an element without handlers, files the handler
  under the empty type; unbinding that namespace then calls itself without end.
\<close>

theorem namespace_only_unbind_never_ends:
  assumes pg: "special_of pg [] = no_special" "\<not> is_text pg e" "accepts pg e" and inv: "ev_inv pg s"
    and none: "ev_list s e = []" and ns: "CHR '' '' \<notin> set ns"
  shows "\<exists>s1. event_add pg e (CHR ''.'' # ns) (HFun f) data s = Some s1 \<and>
    (\<forall>n. event_remove pg n e (RTypes (CHR ''.'' # ns)) HNone None s1 = None)"
proof -
  let ?t = "CHR ''.'' # ns"
  have nt: "type_names ?t = [?t]" "type_of ?t = []" using ns type_names_single[of ?t] by (simp_all add: type_of_def)
  then have un: "unhooked pg ?t" using pg(1) by (simp add: unhooked_def)
  have "fun_of (HFun f) = Some f" by (simp add: fun_of_def)
  then obtain s1 where s1: "event_add pg e ?t (HFun f) data s = Some s1"
    "ev_list s1 e = fold (\<lambda>t. add_entry (plain_hobj f (fguid s1 f) data t)) (type_names ?t) (ev_list s e)"
    using event_add_adds[OF un inv _ pg(2,3)] by blast
  have "ev_list s1 e = [([], [plain_hobj f (fguid s1 f) data ?t])]"
    using s1(2) none nt by (simp add: add_entry_def plain_hobj_def)
  then have "event_remove pg n e (RTypes ?t) HNone None s1 = None" for n
    using remove_empty_type[OF pg(2), of s1 _ "[]" ?t n] by simp
  with s1(1) show ?thesis by blast
qed

section \<open>The namespace expression\<close>

lemma sorted_mset_subseq: "sorted xs \<Longrightarrow> sorted ys \<Longrightarrow> mset xs \<subseteq># mset ys \<Longrightarrow> subseq xs (ys :: 'a :: linorder list)"
proof (induction ys arbitrary: xs)
  case (Cons y ys)
  show ?case
  proof (cases xs)
    case xs: (Cons x xs')
    show ?thesis
    proof (cases "x = y")
      case True
      then show ?thesis using Cons.IH[of xs'] Cons.prems xs by simp
    next
      case False
      have "x \<in> set (y # ys)" using Cons.prems(3) xs set_mset_mono[OF Cons.prems(3)] by auto
      then have "y < x" using False Cons.prems(2) by auto
      then have "y \<notin> set xs" using Cons.prems(1) xs by auto
      then have "count (mset xs) a \<le> count (mset ys) a" for a
        using mset_subset_eq_count[OF Cons.prems(3), of a]
        by (cases "a = y") (simp_all add: \<open>y \<notin> set xs\<close> count_eq_zero_iff[THEN iffD2])
      then have "mset xs \<subseteq># mset ys" by (rule mset_subset_eqI)
      then have "subseq xs ys" using Cons.IH Cons.prems by simp
      then show ?thesis by (rule list_emb_Cons)
    qed
  qed simp
qed simp

lemma subseq_mset: "subseq xs ys \<Longrightarrow> mset xs \<subseteq># mset ys"
proof (induction rule: list_emb.induct)
  case (list_emb_Cons xs ys y)
  have "mset ys \<subseteq># add_mset y (mset ys)" by simp
  then have "mset xs \<subseteq># add_mset y (mset ys)" by (rule subset_mset.order_trans[OF list_emb_Cons.IH])
  then show ?case by simp
qed simp_all

text \<open>
  A registered handler passes the namespace expression of a type exactly when every namespace of
  the type, counted with repetition, is one of the handler's: the sorting on both sides makes the
  order in the expression harmless.
\<close>

theorem namespace_test_is_inclusion:
  assumes "ev_inv pg s" and "ev_of s e u = Some hs" and "h \<in> set hs"
  shows "in_space t h = (mset (spaces_of t) \<subseteq># mset (hns h))"
proof (cases "spaces_of t = []")
  case False
  have "sorted (hns h)" using ev_of_ok[OF assms(1,2)] assms(3) by (auto simp: hobj_ok_def)
  then have "subseq (sort (spaces_of t)) (hns h) = (mset (spaces_of t) \<subseteq># mset (hns h))"
    using sorted_mset_subseq[of "sort (spaces_of t)" "hns h"] subseq_mset[of "sort (spaces_of t)" "hns h"] by auto
  then show ?thesis using False sort_nonempty[OF False] by (simp add: in_space_def ns_test_def)
qed (simp add: in_space_def)

section \<open>Witnesses\<close>

definition some_page :: page where
  "some_page = \<lparr>nodeType = (\<lambda>e. 1), accepts = (\<lambda>e. True), special_of = (\<lambda>t. if t = ''ready'' then ready_special else no_special)\<rparr>"

definition some_handler :: hobj where
  "some_handler = \<lparr>hfun = 7, hdata = Null, hns = [''a'', ''b''], htype = ''click'', hguid = 1, hlive = None\<rparr>"

definition some_registry :: estate where
  "some_registry = \<lparr>
     pdata = (\<lambda>e. if e = 5 then Some \<lparr>pevents = Some [(''click'', [some_handler])], phandle = Some 0, prest = False\<rparr> else None),
     native = (\<lambda>e. if e = 5 then [(''click'', 0)] else []), handles = 1, fguid = (\<lambda>f. if f = 7 then 1 else 0), gnext = 2,
     used = [''click''], fnew = 100, wraps = (\<lambda>f. None)\<rparr>"

lemma some_page_elem: "\<not> is_text some_page e" "accepts some_page e"
  by (simp_all add: some_page_def is_text_def)

lemma some_page_special: "t \<noteq> ''ready'' \<Longrightarrow> special_of some_page t = no_special"
  by (simp add: some_page_def)

lemma ab_sorted: "sorted [''a'', ''b'']"
  by code_simp

lemma some_registry_inv: "ev_inv some_page some_registry"
  using ab_sorted by (auto simp: ev_inv_def elem_ok_def some_registry_def list_ok_def hobj_ok_def some_handler_def some_page_special)

lemma some_types: "type_names ''click.b key'' = [''click.b'', ''key'']" "type_names ''click'' = [''click'']"
  by code_simp+

lemma some_unhooked: "unhooked some_page ''click.b key''" "unhooked some_page ''click''"
  by (simp_all add: unhooked_def some_types type_of_def some_page_special)

theorem registry_well_typed_witness:
  "\<exists>s1 s2. event_add some_page 5 ''click.b key'' (HFun 9) Null some_registry = Some s1 \<and> ev_inv some_page s1 \<and>
    event_remove some_page 2 5 (RTypes ''click.b key'') (HFun 9) None some_registry = Some s2 \<and> ev_inv some_page s2"
  using registry_well_typed[OF some_unhooked(1) some_registry_inv, of "HFun 9" 5 Null 0]
  by (simp add: some_types numeral_2_eq_2)

theorem event_remove_filters_witness:
  "event_remove some_page 2 5 (RTypes ''click.b key'') HNone None some_registry =
    Some (cleanup 5 (take_all 5 None [''click.b'', ''key''] some_registry)) \<and>
   ev_list (take_all 5 None [''click.b'', ''key''] some_registry) 5 = []"
proof -
  have "has_events some_registry 5" by (simp add: has_events_def some_registry_def)
  then have "event_remove some_page 2 5 (RTypes ''click.b key'') HNone None some_registry =
    Some (cleanup 5 (take_all 5 None [''click.b'', ''key''] some_registry))"
    using event_remove_filters[OF some_unhooked(1) some_registry_inv, of 0 5 HNone]
    by (simp add: some_types numeral_2_eq_2 some_page_elem(1) harg_guid_def)
  moreover have "ev_list some_registry 5 = [(''click'', [some_handler])]" by (simp add: ev_list_def some_registry_def)
  then have "ev_list (take_all 5 None [''click.b'', ''key''] some_registry) 5 = []"
    unfolding ev_list_take_all some_handler_def by (simp only:) code_simp
  ultimately show ?thesis by blast
qed

theorem unbind_undoes_bind_witness:
  "\<exists>s1 s2. event_add some_page 5 ''click.b key'' (HFun 9) Null some_registry = Some s1 \<and>
    event_remove some_page 2 5 (RTypes ''click.b key'') (HFun 9) None s1 = Some s2 \<and>
    ev_list s2 5 = [(''click'', [some_handler])]"
proof -
  have l: "ev_list some_registry 5 = [(''click'', [some_handler])]" by (simp add: ev_list_def some_registry_def)
  have "\<forall>u hs h. ev_of some_registry 5 u = Some hs \<longrightarrow> h \<in> set hs \<longrightarrow> hguid h \<noteq> fguid some_registry 9"
    unfolding ev_of_def l by (auto simp: some_handler_def some_registry_def split: if_splits)
  then show ?thesis
    using unbind_undoes_bind[OF some_unhooked(1) some_page_elem some_registry_inv, of 5 9 Null 0]
    by (auto simp: some_types numeral_2_eq_2 l)
qed

theorem one_cannot_be_unbound_witness:
  "\<exists>s1. bind_one some_page ''click'' Null 9 [5] some_registry = Some s1 \<and> ev_list s1 5 \<noteq> [] \<and>
    unbind some_page 2 (RTypes ''click'') (HFun 9) [5] s1 = Some s1"
proof -
  have "type_names ''click'' = [''click'']" by code_simp
  then show ?thesis
    using one_cannot_be_unbound[OF some_unhooked(2) some_page_elem some_registry_inv, of 9 Null 5 0]
    by (simp add: numeral_2_eq_2 some_registry_def)
qed

theorem namespace_only_unbind_never_ends_witness:
  "\<exists>s1. event_add some_page 4 ''.ui'' (HFun 9) Null some_registry = Some s1 \<and>
    (\<forall>n. event_remove some_page n 4 (RTypes ''.ui'') HNone None s1 = None)"
  using namespace_only_unbind_never_ends[OF _ some_page_elem some_registry_inv, of 4 "''ui''" 9 Null]
  by (simp add: ev_list_def some_registry_def some_page_special)

theorem namespace_test_is_inclusion_witness:
  "in_space ''click.b'' some_handler = (mset (spaces_of ''click.b'') \<subseteq># mset (hns some_handler))"
  by (rule namespace_test_is_inclusion[OF some_registry_inv, of 5 "''click''" "[some_handler]"])
    (simp_all add: ev_of_def ev_list_def some_registry_def)

end
