(* ===== verification/JQ_Trigger.thy ===== *)
theory JQ_Trigger
  imports JQ_Event
begin

text \<open>
  The dispatch of events in jquery-1.6.4.js: the event object, \<open>jQuery.event.handle\<close> with its snapshot
  of the handlers, \<open>jQuery.event.trigger\<close> with bubbling, inline handlers and the default action, and
  \<open>jQuery.event.fix\<close>.

  What a bound function does is an argument \<open>calls\<close>: from the element, the further arguments, the event
  and the world it gives the returned value (or a thrown one), the event and the world. The methods
  of elements are another. Endless recursion inside a call is a thrown value, as in the language.
\<close>

section \<open>Event objects\<close>

record native_event =
  canPrevent :: bool \<comment> \<open>it has a function \<open>preventDefault\<close>\<close>
  canStop :: bool
  nPrevented :: bool
  nStopped :: bool
  returnValue :: bool
  cancelBubble :: bool

record event =
  etype :: string
  enamespace :: "string list"
  exclusive :: bool
  isDefaultPrevented :: bool
  isPropagationStopped :: bool
  isImmediatePropagationStopped :: bool
  result :: jsval
  target :: nat
  currentTarget :: nat
  edata :: jsval
  ehandler :: nat
  originalEvent :: "native_event option"
  liveFired :: "nat option"
  button :: int
  relatedTarget :: "nat option"

definition new_event :: "string \<Rightarrow> event" where
  "new_event t = \<lparr>etype = t, enamespace = [], exclusive = False, isDefaultPrevented = False,
     isPropagationStopped = False, isImmediatePropagationStopped = False, result = Undefined, target = 0,
     currentTarget = 0, edata = Undefined, ehandler = 0, originalEvent = None, liveFired = None,
     button = 0, relatedTarget = None\<rparr>"

text \<open>An event made from one of the browser takes over whether its default was prevented.\<close>

definition event_from :: "string \<Rightarrow> native_event \<Rightarrow> event" where
  "event_from t ne = (new_event t)\<lparr>originalEvent := Some ne,
     isDefaultPrevented := (nPrevented ne \<or> \<not> returnValue ne)\<rparr>"

definition preventDefault :: "event \<Rightarrow> event" where
  "preventDefault ev = ev\<lparr>isDefaultPrevented := True,
     originalEvent := map_option (\<lambda>n. if canPrevent n then n\<lparr>nPrevented := True\<rparr> else n\<lparr>returnValue := False\<rparr>)
       (originalEvent ev)\<rparr>"

definition stopPropagation :: "event \<Rightarrow> event" where
  "stopPropagation ev = ev\<lparr>isPropagationStopped := True,
     originalEvent := map_option (\<lambda>n. (if canStop n then n\<lparr>nStopped := True\<rparr> else n)\<lparr>cancelBubble := True\<rparr>)
       (originalEvent ev)\<rparr>"

definition stopImmediatePropagation :: "event \<Rightarrow> event" where
  "stopImmediatePropagation ev = stopPropagation (ev\<lparr>isImmediatePropagationStopped := True\<rparr>)"

section \<open>The world of a dispatch\<close>

record world =
  reg :: estate
  up :: "nat \<Rightarrow> nat option" \<comment> \<open>\<open>parentNode\<close>\<close>
  owner :: "nat \<Rightarrow> nat option" \<comment> \<open>\<open>ownerDocument\<close>\<close>
  inline :: "nat \<Rightarrow> string \<Rightarrow> nat option" \<comment> \<open>the function in a property such as \<open>onclick\<close>\<close>
  triggered :: "string option"

record site =
  dpage :: page
  window :: nat
  calls :: "nat \<Rightarrow> nat \<Rightarrow> jsval list \<Rightarrow> event \<Rightarrow> world \<Rightarrow> (jsval \<times> event \<times> world) outcome"
  methods :: "nat \<Rightarrow> string \<Rightarrow> (world \<Rightarrow> world outcome) option"
  is_link :: "nat \<Rightarrow> bool"
  default_of :: "string \<Rightarrow> (nat \<Rightarrow> event \<Rightarrow> world \<Rightarrow> (jsval \<times> event \<times> world) outcome) option"
  depth :: nat \<comment> \<open>how deep calls may nest\<close>

text \<open>
  Calling a bound function. One made by \<open>one\<close> first unbinds itself: the event's type and handler are
  what \<open>unbind\<close> gets.
\<close>

definition call_fun :: "site \<Rightarrow> nat \<Rightarrow> nat \<Rightarrow> jsval list \<Rightarrow> event \<Rightarrow> world \<Rightarrow> (jsval \<times> event \<times> world) outcome" where
  "call_fun st f this args ev w =
     (case wraps (reg w) f of
        None \<Rightarrow> calls st f this args ev w
      | Some g \<Rightarrow>
          (case unbind (dpage st) (depth st) (REvent (etype ev) (ehandler ev)) (HFun f) [this] (reg w) of
             None \<Rightarrow> Threw (Str ''RangeError'', ev, w)
           | Some r \<Rightarrow> calls st g this args ev (w\<lparr>reg := r\<rparr>)))"

section \<open>Handling\<close>

definition no_names :: "string list \<Rightarrow> bool" where
  "no_names ns \<longleftrightarrow> ns = [] \<or> ns = [[]]"

definition run_all :: "event \<Rightarrow> bool" where
  "run_all ev \<longleftrightarrow> \<not> exclusive ev \<and> no_names (enamespace ev)"

definition after_call :: "jsval \<Rightarrow> event \<Rightarrow> event" where
  "after_call ret ev =
     (if ret = Undefined then ev
      else let ev1 = ev\<lparr>result := ret\<rparr>
           in if ret = Bool False then stopPropagation (preventDefault ev1) else ev1)"

fun run_handlers :: "site \<Rightarrow> bool \<Rightarrow> nat \<Rightarrow> jsval list \<Rightarrow> hobj list \<Rightarrow> event \<times> world \<Rightarrow> (jsval \<times> event \<times> world) outcome" where
  "run_handlers st all this args [] (ev, w) = Returned (result ev, ev, w)"
| "run_handlers st all this args (h # hs) (ev, w) =
     (if all \<or> ns_test (enamespace ev) (hns h)
      then case call_fun st (hfun h) this args (ev\<lparr>ehandler := hfun h, edata := hdata h\<rparr>) w of
             Threw x \<Rightarrow> Threw x
           | Returned (ret, ev1, w1) \<Rightarrow>
               (let ev2 = after_call ret ev1
                in if isImmediatePropagationStopped ev2 then Returned (result ev2, ev2, w1)
                   else run_handlers st all this args hs (ev2, w1))
      else run_handlers st all this args hs (ev, w))"

definition event_handle :: "site \<Rightarrow> nat \<Rightarrow> jsval list \<Rightarrow> event \<Rightarrow> world \<Rightarrow> (jsval \<times> event \<times> world) outcome" where
  "event_handle st this args ev w =
     (let handlers = (case ev_of (reg w) this (etype ev) of Some hs \<Rightarrow> hs | None \<Rightarrow> [])
      in run_handlers st (run_all ev) this args handlers (ev\<lparr>currentTarget := this\<rparr>, w))"

text \<open>The function given to the browser: it discards the second event of a trigger.\<close>

definition elem_handle :: "site \<Rightarrow> nat \<Rightarrow> jsval list \<Rightarrow> event \<Rightarrow> world \<Rightarrow> (jsval \<times> event \<times> world) outcome" where
  "elem_handle st this args ev w =
     (if triggered w = Some (etype ev) then Returned (Undefined, ev, w) else event_handle st this args ev w)"

section \<open>Triggering\<close>

definition on_type :: "string \<Rightarrow> string" where
  "on_type t = (if CHR '':'' \<in> set t then [] else ''on'' @ t)"

text \<open>One stop of the walk up: the handlers bound there, then the inline handler.\<close>

definition visit_node :: "site \<Rightarrow> string \<Rightarrow> jsval list \<Rightarrow> nat \<Rightarrow> event \<times> world \<Rightarrow> (event \<times> world) outcome" where
  "visit_node st ontype args cur ew = (case ew of (ev, w) \<Rightarrow>
     (case (if handle_of (reg w) cur = None then Returned (Undefined, ev\<lparr>currentTarget := cur\<rparr>, w)
            else elem_handle st cur args (ev\<lparr>currentTarget := cur\<rparr>) w) of
        Threw (x, ev1, w1) \<Rightarrow> Threw (ev1, w1)
      | Returned (x, ev1, w1) \<Rightarrow>
          (case (if ontype = [] \<or> \<not> accepts (dpage st) cur then None else inline w1 cur ontype) of
             None \<Rightarrow> Returned (ev1, w1)
           | Some f \<Rightarrow>
               (case call_fun st f cur args ev1 w1 of
                  Threw (x, ev2, w2) \<Rightarrow> Threw (ev2, w2)
                | Returned (ret, ev2, w2) \<Rightarrow>
                    Returned (if ret = Bool False then preventDefault (ev2\<lparr>result := Bool False\<rparr>) else ev2, w2)))))"

text \<open>\<open>cur.parentNode || cur.ownerDocument || cur === event.target.ownerDocument && window\<close>\<close>

definition hop :: "nat \<Rightarrow> (nat \<Rightarrow> nat option) \<Rightarrow> (nat \<Rightarrow> nat option) \<Rightarrow> nat \<Rightarrow> nat \<Rightarrow> nat option" where
  "hop win u ow tgt cur =
     (case u cur of
        Some p \<Rightarrow> Some p
      | None \<Rightarrow> (case ow cur of Some d \<Rightarrow> Some d | None \<Rightarrow> if ow tgt = Some cur then Some win else None))"

definition next_node :: "site \<Rightarrow> nat \<Rightarrow> event \<times> world \<Rightarrow> nat option" where
  "next_node st cur ew = (case ew of (ev, w) \<Rightarrow> hop (window st) (up w) (owner w) (target ev) cur)"

partial_function (option) bubble :: "site \<Rightarrow> string \<Rightarrow> jsval list \<Rightarrow> nat \<Rightarrow> event \<times> world \<Rightarrow> (event \<times> world) outcome option" where
  "bubble st ontype args cur ew =
     (case visit_node st ontype args cur ew of
        Threw x \<Rightarrow> Some (Threw x)
      | Returned ew1 \<Rightarrow>
          (case next_node st cur ew1 of
             None \<Rightarrow> Some (Returned ew1)
           | Some d \<Rightarrow> if isPropagationStopped (fst ew1) then Some (Returned ew1) else bubble st ontype args d ew1))"

text \<open>
  The default action: a method of the element with the event's name. While it runs the inline handler
  is taken away and \<open>triggered\<close> holds the type; an error in it is swallowed.
\<close>

definition set_inline :: "nat \<Rightarrow> string \<Rightarrow> nat option \<Rightarrow> world \<Rightarrow> world" where
  "set_inline e t f w = w\<lparr>inline := (inline w)(e := (inline w e)(t := f))\<rparr>"

definition native_call :: "site \<Rightarrow> nat \<Rightarrow> string \<Rightarrow> world \<Rightarrow> world" where
  "native_call st e t w =
     (let ontype = on_type t
      in case (if ontype = [] then None else methods st e t) of
           None \<Rightarrow> w\<lparr>triggered := None\<rparr>
         | Some m \<Rightarrow>
             (let old = inline w e ontype;
                  w1 = (if old = None then w else set_inline e ontype None w);
                  w2 = (case m (w1\<lparr>triggered := Some t\<rparr>) of Returned w2 \<Rightarrow> w2 | Threw w2 \<Rightarrow> w2);
                  w3 = (if old = None then w2 else set_inline e ontype old w2)
              in w3\<lparr>triggered := None\<rparr>))"

definition default_action :: "site \<Rightarrow> nat \<Rightarrow> string \<Rightarrow> event \<times> world \<Rightarrow> (event \<times> world) outcome" where
  "default_action st e t ew = (case ew of (ev, w) \<Rightarrow>
     (if isDefaultPrevented ev then Returned (ev, w)
      else
        (let run = (\<lambda>ev w. if t = ''click'' \<and> is_link st e \<or> \<not> accepts (dpage st) e then Returned (ev, w)
                           else Returned (ev, native_call st e t w))
         in case default_of st t of
              None \<Rightarrow> run ev w
            | Some f \<Rightarrow>
                (case f e ev w of
                   Threw (x, ev1, w1) \<Rightarrow> Threw (ev1, w1)
                 | Returned (ret, ev1, w1) \<Rightarrow> if ret = Bool False then run ev1 w1 else Returned (ev1, w1)))))"

datatype targ = TType string | TEvent event

definition type_text :: "targ \<Rightarrow> string" where
  "type_text a = (case a of TType t \<Rightarrow> t | TEvent ev \<Rightarrow> etype ev)"

text \<open>An exclusive type ends in an exclamation mark; the names after the first dot are namespaces.\<close>

definition parse_type :: "string \<Rightarrow> string \<times> string list \<times> bool" where
  "parse_type s =
     (let excl = CHR ''!'' \<in> set s;
          t = (if excl then butlast s else s)
      in (type_of t, sort (spaces_of t), excl))"

definition customEvent :: "string list" where
  "customEvent = [''getData'', ''setData'', ''changeData'']"

definition make_event :: "targ \<Rightarrow> bool \<Rightarrow> event" where
  "make_event a quiet =
     (let (t, ns, excl) = parse_type (type_text a);
          ev = (case a of TType s \<Rightarrow> new_event t | TEvent ev \<Rightarrow> ev);
          ev1 = ev\<lparr>etype := t, exclusive := excl, enamespace := ns\<rparr>
      in if quiet then stopPropagation (preventDefault ev1) else ev1)"

definition trigger_at :: "site \<Rightarrow> targ \<Rightarrow> jsval list \<Rightarrow> nat \<Rightarrow> bool \<Rightarrow> world \<Rightarrow> (jsval \<times> event option \<times> world) outcome option" where
  "trigger_at st a args e onlyHandlers w =
     (let t = fst (parse_type (type_text a))
      in if t \<in> set customEvent \<and> t \<notin> set (used (reg w)) \<or> is_text (dpage st) e then Some (Returned (Undefined, None, w))
         else
           (let ev = (make_event a onlyHandlers)\<lparr>result := Undefined, target := e\<rparr>
            in case bubble st (on_type t) args e (ev, w) of
                 None \<Rightarrow> None
               | Some (Threw (ev1, w1)) \<Rightarrow> Some (Threw (Undefined, Some ev1, w1))
               | Some (Returned ew) \<Rightarrow>
                   (case default_action st e t ew of
                      Threw (ev1, w1) \<Rightarrow> Some (Threw (Undefined, Some ev1, w1))
                    | Returned (ev1, w1) \<Rightarrow> Some (Returned (result ev1, Some ev1, w1)))))"

text \<open>
  Without an element the event goes to every element of the cache with handlers of the type, as one
  event object, which does not bubble.
\<close>

fun trigger_cached :: "site \<Rightarrow> string \<Rightarrow> jsval list \<Rightarrow> nat list \<Rightarrow> event \<Rightarrow> world \<Rightarrow> (event \<times> world) outcome option" where
  "trigger_cached st t args [] ev w = Some (Returned (ev, w))"
| "trigger_cached st t args (e # es) ev w =
     (if ev_of (reg w) e t = None then trigger_cached st t args es ev w
      else case trigger_at st (TEvent ev) args e False w of
             None \<Rightarrow> None
           | Some (Threw (x, ev1, w1)) \<Rightarrow> Some (Threw (case ev1 of Some ev1 \<Rightarrow> ev1 | None \<Rightarrow> ev, w1))
           | Some (Returned (x, ev1, w1)) \<Rightarrow>
               trigger_cached st t args es (case ev1 of Some ev1 \<Rightarrow> ev1 | None \<Rightarrow> ev) w1)"

definition trigger_global :: "site \<Rightarrow> targ \<Rightarrow> jsval list \<Rightarrow> nat list \<Rightarrow> world \<Rightarrow> (event \<times> world) outcome option" where
  "trigger_global st a args cached w =
     (let t = fst (parse_type (type_text a)); ev = make_event a True
      in if t \<notin> set (used (reg w)) then Some (Returned (ev, w))
         else trigger_cached st t args cached ev w)"

text \<open>\<open>trigger\<close> and \<open>triggerHandler\<close> of an element set.\<close>

fun trigger_each :: "site \<Rightarrow> string \<Rightarrow> jsval list \<Rightarrow> nat list \<Rightarrow> world \<Rightarrow> world outcome option" where
  "trigger_each st t args [] w = Some (Returned w)"
| "trigger_each st t args (e # es) w =
     (case trigger_at st (TType t) args e False w of
        None \<Rightarrow> None
      | Some (Threw (x, ev, w1)) \<Rightarrow> Some (Threw w1)
      | Some (Returned (x, ev, w1)) \<Rightarrow> trigger_each st t args es w1)"

definition triggerHandler :: "site \<Rightarrow> string \<Rightarrow> jsval list \<Rightarrow> nat list \<Rightarrow> world \<Rightarrow> (jsval \<times> event option \<times> world) outcome option" where
  "triggerHandler st t args this w =
     (case this of [] \<Rightarrow> Some (Returned (Undefined, None, w)) | e # es \<Rightarrow> trigger_at st (TType t) args e True w)"

section \<open>Normalising a browser's event\<close>

text \<open>The scroll and client offsets of a document's element and of its body, left and top.\<close>

record box =
  scrollLeft :: int
  scrollTop :: int
  clientLeft :: int
  clientTop :: int

record fixer =
  fnodeType :: "nat \<Rightarrow> nat"
  fparent :: "nat \<Rightarrow> jsval"
  fdocElem :: "nat \<Rightarrow> box option" \<comment> \<open>\<open>documentElement\<close> of the document of a target\<close>
  fbody :: "nat \<Rightarrow> box option"
  fdocument :: nat

definition event_props :: "string list" where
  "event_props = split_on CHR '' '' ''altKey attrChange attrName bubbles button cancelable charCode clientX clientY ctrlKey currentTarget data detail eventPhase fromElement handler keyCode layerX layerY metaKey newValue offsetX offsetY pageX pageY prevValue relatedNode relatedTarget screenX screenY shiftKey srcElement target toElement view wheelDelta which''"

definition fix_target :: "fixer \<Rightarrow> jsval props \<Rightarrow> jsval props" where
  "fix_target fx ev =
     (let ev1 = (if truthy (pget ev ''target'') then ev
                 else AList.update ''target'' (if truthy (pget ev ''srcElement'') then pget ev ''srcElement'' else Ref (fdocument fx)) ev)
      in case pget ev1 ''target'' of
           Ref t \<Rightarrow> if fnodeType fx t = 3 then AList.update ''target'' (fparent fx t) ev1 else ev1
         | _ \<Rightarrow> ev1)"

definition fix_related :: "jsval props \<Rightarrow> jsval props" where
  "fix_related ev =
     (if \<not> truthy (pget ev ''relatedTarget'') \<and> truthy (pget ev ''fromElement'')
      then AList.update ''relatedTarget''
        (if pget ev ''fromElement'' = pget ev ''target'' then pget ev ''toElement'' else pget ev ''fromElement'') ev
      else ev)"

definition num_of :: "jsval \<Rightarrow> int" where
  "num_of v = (case v of Num n \<Rightarrow> n | Bool b \<Rightarrow> (if b then 1 else 0) | _ \<Rightarrow> 0)"

text \<open>\<open>doc && doc.scrollLeft || body && body.scrollLeft || 0\<close>\<close>

definition first_of :: "(box \<Rightarrow> int) \<Rightarrow> box option \<Rightarrow> box option \<Rightarrow> int" where
  "first_of f doc body =
     (case doc of
        Some d \<Rightarrow> if f d \<noteq> 0 then f d else (case body of Some b \<Rightarrow> f b | None \<Rightarrow> 0)
      | None \<Rightarrow> (case body of Some b \<Rightarrow> f b | None \<Rightarrow> 0))"

definition fix_page :: "fixer \<Rightarrow> jsval props \<Rightarrow> jsval props" where
  "fix_page fx ev =
     (if nullish (pget ev ''pageX'') \<and> \<not> nullish (pget ev ''clientX'')
      then let t = (case pget ev ''target'' of Ref t \<Rightarrow> t | _ \<Rightarrow> fdocument fx);
               doc = fdocElem fx t; body = fbody fx t;
               ev1 = AList.update ''pageX'' (Num (num_of (pget ev ''clientX'') + first_of scrollLeft doc body - first_of clientLeft doc body)) ev
           in AList.update ''pageY'' (Num (num_of (pget ev ''clientY'') + first_of scrollTop doc body - first_of clientTop doc body)) ev1
      else ev)"

definition fix_key :: "jsval props \<Rightarrow> jsval props" where
  "fix_key ev =
     (if nullish (pget ev ''which'') \<and> (\<not> nullish (pget ev ''charCode'') \<or> \<not> nullish (pget ev ''keyCode''))
      then AList.update ''which'' (if \<not> nullish (pget ev ''charCode'') then pget ev ''charCode'' else pget ev ''keyCode'') ev
      else ev)"

definition fix_meta :: "jsval props \<Rightarrow> jsval props" where
  "fix_meta ev =
     (if \<not> truthy (pget ev ''metaKey'') \<and> truthy (pget ev ''ctrlKey'')
      then AList.update ''metaKey'' (pget ev ''ctrlKey'') ev else ev)"

definition which_button :: "int \<Rightarrow> int" where
  "which_button b = (if odd b then 1 else if odd (b div 2) then 3 else if odd (b div 4) then 2 else 0)"

definition fix_button :: "jsval props \<Rightarrow> jsval props" where
  "fix_button ev =
     (if \<not> truthy (pget ev ''which'') \<and> pget ev ''button'' \<noteq> Undefined
      then AList.update ''which'' (Num (which_button (num_of (pget ev ''button'')))) ev else ev)"

text \<open>The copy of the listed properties is made from the last to the first.\<close>

definition event_fix :: "fixer \<Rightarrow> string \<Rightarrow> jsval props \<Rightarrow> jsval props" where
  "event_fix fx expando orig =
     (if truthy (pget orig expando) then orig
      else let ev = [(''type'', pget orig ''type''), (expando, Bool True)];
               copied = fold (\<lambda>k. AList.update k (pget orig k)) (rev event_props) ev
           in fix_button (fix_meta (fix_key (fix_page fx (fix_related (fix_target fx copied))))))"

section \<open>The walk\<close>

text \<open>The stops of an event, from an element on: read off the tree before anything is called.\<close>

inductive path :: "nat \<Rightarrow> (nat \<Rightarrow> nat option) \<Rightarrow> (nat \<Rightarrow> nat option) \<Rightarrow> nat \<Rightarrow> nat \<Rightarrow> nat list \<Rightarrow> bool"
  for win u ow tgt where
  stop: "hop win u ow tgt c = None \<Longrightarrow> path win u ow tgt c [c]"
| go: "hop win u ow tgt c = Some d \<Longrightarrow> path win u ow tgt d p \<Longrightarrow> path win u ow tgt c (c # p)"

inductive_cases path_cons: "path win u ow tgt c (x # p)"

lemma path_ne: "path win u ow tgt c p \<Longrightarrow> p \<noteq> [] \<and> hd p = c"
  by (induction rule: path.induct) auto

fun walk :: "site \<Rightarrow> string \<Rightarrow> jsval list \<Rightarrow> nat list \<Rightarrow> event \<times> world \<Rightarrow> (event \<times> world) outcome" where
  "walk st ontype args [] ew = Returned ew"
| "walk st ontype args (c # cs) ew =
     (case visit_node st ontype args c ew of
        Threw x \<Rightarrow> Threw x
      | Returned ew1 \<Rightarrow> if cs = [] \<or> isPropagationStopped (fst ew1) then Returned ew1 else walk st ontype args cs ew1)"

text \<open>Functions that leave the tree and the event's target alone.\<close>

definition same_tree :: "event \<times> world \<Rightarrow> event \<times> world \<Rightarrow> bool" where
  "same_tree a b \<longleftrightarrow> up (snd a) = up (snd b) \<and> owner (snd a) = owner (snd b) \<and> target (fst a) = target (fst b)"

lemma same_tree_refl [simp]: "same_tree a a"
  by (simp add: same_tree_def)

lemma same_tree_trans: "same_tree a b \<Longrightarrow> same_tree b c \<Longrightarrow> same_tree a c"
  by (simp add: same_tree_def)

definition steady :: "site \<Rightarrow> bool" where
  "steady st \<longleftrightarrow> (\<forall>f this args ev w r ev1 w1.
     calls st f this args ev w = Returned (r, ev1, w1) \<longrightarrow> same_tree (ev1, w1) (ev, w))"

lemma call_fun_tree:
  assumes "steady st" and "call_fun st f this args ev w = Returned (r, ev1, w1)"
  shows "same_tree (ev1, w1) (ev, w)"
proof (cases "wraps (reg w) f")
  case None
  with assms show ?thesis by (simp add: call_fun_def steady_def)
next
  case (Some g)
  then obtain rg where "calls st g this args ev (w\<lparr>reg := rg\<rparr>) = Returned (r, ev1, w1)"
    using assms(2) by (auto simp: call_fun_def split: option.splits)
  then have "same_tree (ev1, w1) (ev, w\<lparr>reg := rg\<rparr>)" using assms(1) by (simp add: steady_def)
  then show ?thesis by (simp add: same_tree_def)
qed

lemma target_after_call [simp]: "target (after_call r ev) = target ev"
  by (simp add: after_call_def stopPropagation_def preventDefault_def Let_def)

lemma run_handlers_tree:
  assumes "steady st"
  shows "run_handlers st all this args hs (ev, w) = Returned (r, ev1, w1) \<Longrightarrow> same_tree (ev1, w1) (ev, w)"
proof (induction hs arbitrary: ev w)
  case (Cons h hs)
  show ?case
  proof (cases "all \<or> ns_test (enamespace ev) (hns h)")
    case True
    then obtain ret ev2 w2 where c: "call_fun st (hfun h) this args (ev\<lparr>ehandler := hfun h, edata := hdata h\<rparr>) w = Returned (ret, ev2, w2)"
      using Cons.prems by (auto split: outcome.splits)
    have t: "same_tree (after_call ret ev2, w2) (ev, w)"
      using call_fun_tree[OF assms c] by (simp add: same_tree_def)
    show ?thesis
    proof (cases "isImmediatePropagationStopped (after_call ret ev2)")
      case True
      with \<open>all \<or> ns_test (enamespace ev) (hns h)\<close> Cons.prems c t show ?thesis by (simp add: Let_def)
    next
      case False
      with \<open>all \<or> ns_test (enamespace ev) (hns h)\<close> Cons.prems c
      have "run_handlers st all this args hs (after_call ret ev2, w2) = Returned (r, ev1, w1)" by simp
      from Cons.IH[OF this] t show ?thesis by (rule same_tree_trans)
    qed
  qed (use Cons in simp)
qed simp

lemma visit_node_tree:
  assumes "steady st" and v: "visit_node st ontype args cur ew = Returned ew1"
  shows "same_tree ew1 ew"
proof -
  obtain ev w where ew: "ew = (ev, w)" by (cases ew)
  obtain x ev1 w1 where h: "(if handle_of (reg w) cur = None then Returned (Undefined, ev\<lparr>currentTarget := cur\<rparr>, w)
      else elem_handle st cur args (ev\<lparr>currentTarget := cur\<rparr>) w) = Returned (x, ev1, w1)"
    using v unfolding ew visit_node_def by (auto split: outcome.splits)
  have t1: "same_tree (ev1, w1) (ev, w)"
  proof (cases "handle_of (reg w) cur = None \<or> triggered w = Some (etype ev)")
    case True
    with h show ?thesis by (auto simp: elem_handle_def same_tree_def split: if_splits)
  next
    case False
    then have "run_handlers st (run_all (ev\<lparr>currentTarget := cur\<rparr>)) cur args (case ev_of (reg w) cur (etype ev) of Some hs \<Rightarrow> hs | None \<Rightarrow> [])
        (ev\<lparr>currentTarget := cur\<rparr>, w) = Returned (x, ev1, w1)"
      using h by (auto simp: elem_handle_def event_handle_def run_all_def Let_def)
    from run_handlers_tree[OF assms(1) this] show ?thesis by (simp add: same_tree_def)
  qed
  let ?in = "if ontype = [] \<or> \<not> accepts (dpage st) cur then None else inline w1 cur ontype"
  show ?thesis
  proof (cases ?in)
    case None
    with h v show ?thesis unfolding ew visit_node_def prod.case h outcome.case None option.case using t1 by simp
  next
    case (Some f)
    obtain ret ev2 w2 where c: "call_fun st f cur args ev1 w1 = Returned (ret, ev2, w2)"
      "ew1 = (if ret = Bool False then preventDefault (ev2\<lparr>result := Bool False\<rparr>) else ev2, w2)"
      using v unfolding ew visit_node_def prod.case h outcome.case Some option.case by (auto split: outcome.splits)
    have "same_tree (ev2, w2) (ev1, w1)" by (rule call_fun_tree[OF assms(1) c(1)])
    with c(2) have "same_tree ew1 (ev1, w1)" by (simp add: same_tree_def preventDefault_def)
    then show ?thesis unfolding ew using t1 by (rule same_tree_trans)
  qed
qed

lemma next_node_hop: "same_tree ew1 (ev, w) \<Longrightarrow> next_node st cur ew1 = hop (window st) (up w) (owner w) (target ev) cur"
  by (cases ew1) (simp add: next_node_def same_tree_def)

lemma bubble_walk:
  assumes st: "steady st" and p: "path (window st) (up w) (owner w) (target ev) c p" and t: "same_tree ew (ev, w)"
  shows "bubble st ontype args c ew = Some (walk st ontype args p ew)"
  using p t
proof (induction arbitrary: ew rule: path.induct)
  case (stop c)
  show ?case
  proof (cases "visit_node st ontype args c ew")
    case (Returned ew1)
    have "same_tree ew1 (ev, w)" using visit_node_tree[OF st Returned] stop.prems by (rule same_tree_trans)
    then have "next_node st c ew1 = None" using stop.hyps by (simp add: next_node_hop)
    with Returned show ?thesis by (subst bubble.simps) simp
  qed (subst bubble.simps, simp)
next
  case (go c d p)
  have ne: "p \<noteq> []" using path_ne[OF go.hyps(2)] by simp
  show ?case
  proof (cases "visit_node st ontype args c ew")
    case (Returned ew1)
    have tr: "same_tree ew1 (ev, w)" using visit_node_tree[OF st Returned] go.prems by (rule same_tree_trans)
    then have "next_node st c ew1 = Some d" using go.hyps(1) by (simp add: next_node_hop)
    with Returned ne go.IH[OF tr] show ?thesis by (subst bubble.simps) simp
  qed (subst bubble.simps, simp)
qed

text \<open>A document: parents lead up, a document has neither parent nor owner, nor has the window.\<close>

definition doc_tree :: "nat \<Rightarrow> (nat \<Rightarrow> nat) \<Rightarrow> (nat \<Rightarrow> nat option) \<Rightarrow> (nat \<Rightarrow> nat option) \<Rightarrow> bool" where
  "doc_tree win rank u ow \<longleftrightarrow>
     (\<forall>c p. u c = Some p \<longrightarrow> rank p < rank c) \<and> (\<forall>c d. ow c = Some d \<longrightarrow> u d = None \<and> ow d = None \<and> d \<noteq> win) \<and>
     u win = None \<and> ow win = None"

lemma path_exists:
  assumes "doc_tree win rank u ow"
  shows "\<exists>p. path win u ow tgt c p"
proof (induction "rank c" arbitrary: c rule: less_induct)
  case less
  have win: "path win u ow tgt win [win]"
    using assms by (intro path.stop) (auto simp: hop_def doc_tree_def)
  have top: "\<exists>p. path win u ow tgt d p" if "u d = None" "ow d = None" for d
  proof (cases "ow tgt = Some d")
    case True
    then have "hop win u ow tgt d = Some win" using that by (simp add: hop_def)
    then show ?thesis using win path.go by blast
  next
    case False
    then have "hop win u ow tgt d = None" using that by (simp add: hop_def)
    then show ?thesis using path.stop by blast
  qed
  show ?case
  proof (cases "u c")
    case (Some q)
    then have "rank q < rank c" using assms by (simp add: doc_tree_def)
    from less[OF this] obtain p where "path win u ow tgt q p" by blast
    moreover have "hop win u ow tgt c = Some q" using Some by (simp add: hop_def)
    ultimately show ?thesis using path.go by blast
  next
    case None
    show ?thesis
    proof (cases "ow c")
      case (Some d)
      then obtain p where "path win u ow tgt d p" using top[of d] assms by (auto simp: doc_tree_def)
      moreover have "hop win u ow tgt c = Some d" using None Some by (simp add: hop_def)
      ultimately show ?thesis using path.go by blast
    qed (use None top in blast)
  qed
qed

text \<open>
  C24: on every document, with functions that leave the tree alone, \<open>trigger\<close> returns or throws: it
  visits the stops of the path that leads from the element up, in order, until one stops the
  propagation.
\<close>

theorem trigger_returns:
  assumes st: "steady st" and doc: "doc_tree (window st) rank (up w) (owner w)"
  shows "trigger_at st a args e quiet w \<noteq> None \<and>
    (\<forall>ev. target ev = e \<longrightarrow> (\<exists>p. path (window st) (up w) (owner w) e e p \<and>
       bubble st ontype args e (ev, w) = Some (walk st ontype args p (ev, w))))"
proof -
  obtain p where p: "path (window st) (up w) (owner w) e e p" using path_exists[OF doc] by blast
  have b: "bubble st ontype args e (ev, w) = Some (walk st ontype args p (ev, w))" if "target ev = e" for ontype ev
    using bubble_walk[OF st, of w ev e p "(ev, w)" ontype args] p that by simp
  have "trigger_at st a args e quiet w \<noteq> None"
    using b[of "(make_event a quiet)\<lparr>result := Undefined, target := e\<rparr>" "on_type (fst (parse_type (type_text a)))"]
    by (auto simp: trigger_at_def Let_def split: outcome.splits)
  with p b show ?thesis by blast
qed

text \<open>A page with one document, which every other node but the window belongs to.\<close>

definition one_document :: "nat \<Rightarrow> nat \<Rightarrow> (nat \<Rightarrow> nat option) \<Rightarrow> (nat \<Rightarrow> nat option) \<Rightarrow> bool" where
  "one_document win d u ow \<longleftrightarrow>
     d \<noteq> win \<and> u d = None \<and> ow d = None \<and> u win = None \<and> ow win = None \<and> (\<forall>c. u c \<noteq> Some win) \<and>
     (\<forall>c. c \<noteq> d \<longrightarrow> c \<noteq> win \<longrightarrow> ow c = Some d)"

lemma hop_element:
  assumes "one_document win d u ow" and "tgt \<noteq> d" and "tgt \<noteq> win"
  shows "hop win u ow tgt c = None \<longleftrightarrow> c = win" and "c \<noteq> win \<Longrightarrow> hop win u ow tgt c = Some win \<Longrightarrow> c = d"
proof -
  have tg: "ow tgt = Some d" using assms by (simp add: one_document_def)
  have o': "c \<noteq> d \<Longrightarrow> c \<noteq> win \<Longrightarrow> ow c = Some d" using assms(1) by (simp add: one_document_def)
  show "hop win u ow tgt c = None \<longleftrightarrow> c = win"
    using assms(1) tg o' by (cases "c = win"; cases "c = d"; auto simp: one_document_def hop_def split: option.split)
  show "c \<noteq> win \<Longrightarrow> hop win u ow tgt c = Some win \<Longrightarrow> c = d"
    using assms(1) tg o' by (auto simp: one_document_def hop_def split: option.splits if_splits)
qed

lemma path_element:
  assumes "one_document win d u ow" and "tgt \<noteq> d" and "tgt \<noteq> win"
  shows "path win u ow tgt c p \<Longrightarrow> last p = win \<and> (c \<noteq> win \<longrightarrow> d \<in> set p)"
proof (induction rule: path.induct)
  case (stop c)
  then show ?case using hop_element(1)[OF assms] by simp
next
  case (go c e p)
  have "p \<noteq> []" using path_ne[OF go.hyps(2)] by simp
  then show ?case using go hop_element(2)[OF assms, of c] by auto
qed

text \<open>
  An event triggered on an element passes the document and reaches the window when nothing stops
  it, but one triggered on the document itself ends there: the test for the window is made against
  the owner of the target, and a document has none.
\<close>

theorem document_event_misses_window:
  assumes doc: "one_document win d u ow" and p: "path win u ow e e p" and e: "e \<noteq> win"
  shows "if e = d then p = [d] else d \<in> set p \<and> last p = win"
proof (cases "e = d")
  case True
  have "hop win u ow d d = None" using doc by (simp add: one_document_def hop_def)
  with p True show ?thesis by (auto elim: path.cases)
qed (use path_element[OF doc _ e p] e in auto)

section \<open>The default action\<close>

text \<open>
  C?: whatever the element's method does, and even when it throws, the default action leaves the
  inline handler that it took away in its place and no type marked as triggered.
\<close>

theorem native_call_restores:
  shows "triggered (native_call st e t w) = None \<and>
    (inline w e (on_type t) \<noteq> None \<longrightarrow> on_type t \<noteq> [] \<longrightarrow> inline (native_call st e t w) e (on_type t) = inline w e (on_type t))"
  by (auto simp: native_call_def set_inline_def Let_def split: option.splits)

section \<open>Global triggers\<close>

text \<open>
  The nested calls of a global trigger parse the type again, without its namespaces: at every element all
  the handlers of the type run.
\<close>

lemma parse_plain: "CHR ''!'' \<notin> set t \<Longrightarrow> CHR ''.'' \<notin> set t \<Longrightarrow> parse_type t = (t, [], False)"
  by (simp add: parse_type_def type_of_def spaces_of_def split_on_none)

lemma global_event_runs_all:
  assumes "CHR ''!'' \<notin> set s"
  shows "run_all (make_event (TEvent (make_event (TType s) True)) False)"
proof -
  have "type_of s \<in> set (split_on CHR ''.'' s)" unfolding type_of_def by (rule hd_in_set) simp
  then have d: "CHR ''.'' \<notin> set (type_of s)" by (rule split_on_pieces)
  have "set w \<subseteq> set s" if "w \<in> set (split_on c s)" for w c
    using that
  proof (induction s arbitrary: w)
    case (Cons x xs)
    obtain u us where u: "split_on c xs = u # us" by (cases "split_on c xs") auto
    show ?case using Cons.prems Cons.IH[of u] Cons.IH[of w] u by (cases "x = c"; cases "w \<in> set us") auto
  qed simp
  then have e: "CHR ''!'' \<notin> set (type_of s)" using \<open>type_of s \<in> _\<close> assms by blast
  have t: "etype (make_event (TType s) True) = type_of s"
    using assms by (simp add: make_event_def parse_type_def preventDefault_def stopPropagation_def type_text_def Let_def)
  show ?thesis
    using parse_plain[OF e d] t by (simp add: make_event_def[of "TEvent _"] type_text_def run_all_def no_names_def)
qed

section \<open>What handle runs\<close>

text \<open>
  \<open>handle\<close> runs the handlers that match, of the list as it was when it was called: with functions that
  leave the event's namespaces alone the others might as well not be there.
\<close>

definition keeps_names :: "site \<Rightarrow> bool" where
  "keeps_names st \<longleftrightarrow> (\<forall>f this args ev w r ev1 w1.
     calls st f this args ev w = Returned (r, ev1, w1) \<longrightarrow> enamespace ev1 = enamespace ev)"

lemma keeps_namesD:
  "keeps_names st \<Longrightarrow> calls st f this args ev w = Returned (r, ev1, w1) \<Longrightarrow> enamespace ev1 = enamespace ev"
  unfolding keeps_names_def by blast

lemma call_fun_names:
  "keeps_names st \<Longrightarrow> call_fun st f this args ev w = Returned (r, ev1, w1) \<Longrightarrow> enamespace ev1 = enamespace ev"
  by (auto simp: call_fun_def dest: keeps_namesD split: option.splits)

lemma enamespace_after_call [simp]: "enamespace (after_call r ev) = enamespace ev"
  by (simp add: after_call_def stopPropagation_def preventDefault_def Let_def)

theorem handle_runs_matching:
  assumes "keeps_names st"
  shows "run_handlers st all this args hs (ev, w) =
    run_handlers st True this args (filter (\<lambda>h. all \<or> ns_test (enamespace ev) (hns h)) hs) (ev, w)"
proof (induction hs arbitrary: ev w)
  case (Cons h hs)
  show ?case
  proof (cases "all \<or> ns_test (enamespace ev) (hns h)")
    case True
    show ?thesis
    proof (cases "call_fun st (hfun h) this args (ev\<lparr>ehandler := hfun h, edata := hdata h\<rparr>) w")
      case (Returned x)
      obtain ret ev1 w1 where x: "x = (ret, ev1, w1)" by (cases x)
      have "enamespace (after_call ret ev1) = enamespace ev"
        using call_fun_names[OF assms Returned[unfolded x]] by simp
      with True Returned x Cons[of "after_call ret ev1" w1] show ?thesis by (simp add: Let_def)
    qed (use True in simp)
  qed (use Cons in simp)
qed simp

section \<open>The normalised event\<close>

lemma which_button_cases: "which_button b \<in> {0, 1, 2, 3}"
  by (simp add: which_button_def)

text \<open>An event that was fixed before comes back as it is.\<close>

lemma event_fix_fixed: "truthy (pget ev x) \<Longrightarrow> event_fix fx x ev = ev"
  by (simp add: event_fix_def)

section \<open>Witnesses\<close>

definition quiet_site :: site where
  "quiet_site = \<lparr>dpage = some_page, window = 0, calls = (\<lambda>f this args ev w. Returned (Bool (f = 7), ev, w)),
     methods = (\<lambda>e t. None), is_link = (\<lambda>e. False), default_of = (\<lambda>t. None), depth = 2\<rparr>"

definition small_world :: world where
  "small_world = \<lparr>reg = some_registry, up = (\<lambda>c. if c = 5 then Some 2 else if c = 2 then Some 1 else None),
     owner = (\<lambda>c. if c < 2 then None else Some 1), inline = (\<lambda>e t. None), triggered = None\<rparr>"

lemma quiet_steady: "steady quiet_site"
  by (simp add: steady_def quiet_site_def)

lemma small_tree: "doc_tree (window quiet_site) id (up small_world) (owner small_world)"
  by (auto simp: doc_tree_def quiet_site_def small_world_def split: if_splits)

theorem trigger_returns_witness:
  "trigger_at quiet_site (TType ''click'') [] 5 False small_world \<noteq> None \<and>
   (\<exists>p. path 0 (up small_world) (owner small_world) 5 5 p \<and>
     bubble quiet_site ''onclick'' [] 5 ((new_event ''click'')\<lparr>target := 5\<rparr>, small_world) =
       Some (walk quiet_site ''onclick'' [] p ((new_event ''click'')\<lparr>target := 5\<rparr>, small_world)))"
proof -
  have "target ((new_event ''click'')\<lparr>target := 5\<rparr>) = 5" "window quiet_site = 0" by (simp_all add: quiet_site_def)
  then show ?thesis
    using trigger_returns[OF quiet_steady small_tree, of "TType ''click''" "[]" 5 False "''onclick''"] by metis
qed

theorem document_event_misses_window_witness:
  "path 0 (up small_world) (owner small_world) 5 5 [5, 2, 1, 0] \<and> last [5, 2, 1, 0 :: nat] = 0"
proof -
  have p: "path 0 (up small_world) (owner small_world) 5 5 [5, 2, 1, 0]"
    by (rule path.go[where d = 2], simp add: hop_def small_world_def,
        rule path.go[where d = 1], simp add: hop_def small_world_def,
        rule path.go[where d = 0], simp add: hop_def small_world_def,
        rule path.stop, simp add: hop_def small_world_def)
  have "one_document 0 1 (up small_world) (owner small_world)"
    by (auto simp: one_document_def small_world_def)
  from document_event_misses_window[OF this p] p show ?thesis by simp
qed

end
