(* ===== verification/JQ_Live.thy ===== *)
theory JQ_Live
  imports JQ_Trigger JQ_Traverse
begin

text \<open>
  Live events in jquery-1.6.4.js: \<open>live\<close>, \<open>die\<close>, \<open>delegate\<close> and \<open>undelegate\<close>, the special event \<open>live\<close> of the
  registry, the function \<open>liveHandler\<close> that finds the handlers of an event between its target and
  the element they were bound on, and the events that are made of others: \<open>mouseenter\<close> and \<open>mouseleave\<close>,
  \<open>toggle\<close> and \<open>hover\<close>.

  A handler bound with \<open>live\<close> is kept under the type \<open>live\<close> with its selector; the hook of that type binds
  \<open>liveHandler\<close> to the event it waits for, with the guid of the handler. Names of types are not those of
  properties that every object inherits.
\<close>

section \<open>Binding\<close>

definition liveHandler :: nat where
  "liveHandler = 1"

definition liveMap :: "string \<Rightarrow> string option" where
  "liveMap = map_of [(''focus'', ''focusin''), (''blur'', ''focusout''),
     (''mouseenter'', ''mouseover''), (''mouseleave'', ''mouseout'')]"

definition convert_char :: "char \<Rightarrow> char" where
  "convert_char c = (if c = CHR ''.'' then CHR 0x60 else if c = CHR '' '' then CHR ''&'' else c)"

definition liveConvert :: "string \<Rightarrow> string \<Rightarrow> string" where
  "liveConvert type selector =
     (if type \<noteq> [] \<and> type \<noteq> ''*'' then type @ ''.'' else []) @ map convert_char selector"

text \<open>
  The hooks of the type \<open>live\<close> bind and unbind on the same element, with the same special events. They
  are given for a depth of nested calls. A handler bound to the type by other means has no selector,
  and its hook throws: its result is \<open>None\<close> like that of a hook that does not end.
\<close>

definition live_add :: "page \<Rightarrow> nat \<Rightarrow> hobj \<Rightarrow> estate \<Rightarrow> estate option" where
  "live_add pg e ho s = (case hlive ho of
      None \<Rightarrow> None
    | Some l \<Rightarrow> event_add pg e (liveConvert (lorigType l) (lselector l))
        (HObj (ho\<lparr>hfun := liveHandler, hguid := fguid s (hfun ho)\<rparr>)) Undefined s)"

definition live_remove :: "page \<Rightarrow> nat \<Rightarrow> nat \<Rightarrow> hobj \<Rightarrow> estate \<Rightarrow> estate option" where
  "live_remove pg n e ho s = (case hlive ho of
      None \<Rightarrow> None
    | Some l \<Rightarrow> event_remove pg n e (RTypes (liveConvert (lorigType l) (lselector l))) (HObj ho) None s)"

primrec live_page :: "nat \<Rightarrow> page \<Rightarrow> page" where
  "live_page 0 pg = pg\<lparr>special_of := (special_of pg)(''live'' :=
     no_special\<lparr>s_add := Some (\<lambda>e ho s. None), s_remove := Some (\<lambda>e ho s. None)\<rparr>)\<rparr>"
| "live_page (Suc k) pg = pg\<lparr>special_of := (special_of pg)(''live'' :=
     no_special\<lparr>s_add := Some (live_add (live_page k pg)), s_remove := Some (live_remove (live_page k pg) k)\<rparr>)\<rparr>"

text \<open>
  The loop over the types, which grows as it runs: \<open>hover\<close> stands for two types, and a type of \<open>liveMap\<close>
  brings its substitute with it. The body is given the type without and with its namespaces.
\<close>

definition name_spaces :: "string \<Rightarrow> string" where
  "name_spaces t = drop (length (type_of t)) t"

definition hover_types :: "string \<Rightarrow> string list" where
  "hover_types ns = [''mouseenter'' @ ns, ''mouseleave'' @ ns]"

definition mapped_types :: "string \<Rightarrow> string list" where
  "mapped_types t = (case liveMap (type_of t) of Some u \<Rightarrow> [u @ name_spaces t] | None \<Rightarrow> [])"

definition type_weight :: "string \<Rightarrow> nat" where
  "type_weight t = (if type_of t = ''hover'' then 5 else if liveMap (type_of t) \<noteq> None then 2 else 1)"

lemma split_on_prefix: "split_on d s = p # ws \<Longrightarrow> d \<notin> set p \<and> (\<exists>r. s = p @ r \<and> (r = [] \<or> hd r = d))"
proof (induction s arbitrary: p ws)
  case (Cons c cs)
  show ?case
  proof (cases "c = d")
    case False
    obtain q qs where q: "split_on d cs = q # qs" by (cases "split_on d cs") auto
    with False Cons.prems have p: "p = c # q" by simp
    from Cons.IH[OF q] False p show ?thesis by auto
  qed (use Cons.prems in auto)
qed simp

lemma type_of_split: "t = type_of t @ name_spaces t \<and> (name_spaces t = [] \<or> hd (name_spaces t) = CHR ''.'')"
proof -
  obtain p ws where "split_on CHR ''.'' t = p # ws" by (cases "split_on CHR ''.'' t") auto
  from split_on_prefix[OF this] this show ?thesis by (auto simp: type_of_def name_spaces_def)
qed

lemma type_of_append: "CHR ''.'' \<notin> set u \<Longrightarrow> ns = [] \<or> hd ns = CHR ''.'' \<Longrightarrow> type_of (u @ ns) = u"
proof (cases ns)
  case (Cons c r)
  assume "CHR ''.'' \<notin> set u" "ns = [] \<or> hd ns = CHR ''.''"
  with Cons show ?thesis by (simp add: type_of_def split_on_append)
qed (simp add: type_of_def split_on_none)

lemma weight_mapped: "liveMap (type_of t) = Some u \<Longrightarrow> type_weight (u @ name_spaces t) = 1"
  using type_of_split[of t] type_of_append[of u "name_spaces t"]
  by (auto simp: type_weight_def liveMap_def split: if_splits)

lemma weight_hover: "type_weight (''mouseenter'' @ name_spaces t) = 2" "type_weight (''mouseleave'' @ name_spaces t) = 2"
  using type_of_split[of t] type_of_append[of "''mouseenter''" "name_spaces t"] type_of_append[of "''mouseleave''" "name_spaces t"]
  by (simp_all add: type_weight_def liveMap_def)

lemma weight_pos [simp]: "0 < type_weight t"
  by (simp add: type_weight_def)

function (sequential) live_types :: "(string \<Rightarrow> string \<Rightarrow> estate \<Rightarrow> estate option) \<Rightarrow> string list \<Rightarrow> estate \<Rightarrow> estate option" where
  "live_types f [] s = Some s"
| "live_types f (t # ts) s =
     (if type_of t = ''hover'' then live_types f (ts @ hover_types (name_spaces t)) s
      else case f (type_of t) (type_of t @ name_spaces t) s of
          None \<Rightarrow> None
        | Some s1 \<Rightarrow> live_types f (ts @ mapped_types t) s1)"
  by pat_completeness auto

termination
proof (relation "measure (\<lambda>(f, ts, s). sum_list (map type_weight ts))", goal_cases)
  case (2 f t ts s)
  then have "type_weight t = 5" by (simp add: type_weight_def)
  then show ?case using weight_hover[of t] by (simp only: hover_types_def) simp
next
  case (3 f t ts s s1)
  then show ?case
    by (cases "liveMap (type_of t)") (simp_all add: mapped_types_def weight_mapped, simp_all add: type_weight_def)
qed simp

text \<open>What is bound: the data argument may be the handler.\<close>

datatype larg = LFalse | LFun nat | LData jsval

definition live_data :: "larg \<Rightarrow> jsval" where
  "live_data a = (case a of LData d \<Rightarrow> d | _ \<Rightarrow> Undefined)"

definition live_fun :: "larg \<Rightarrow> 'a \<Rightarrow> (nat \<Rightarrow> 'a) \<Rightarrow> 'a" where
  "live_fun a fn some = (case a of LFalse \<Rightarrow> some returnFalse | LFun f \<Rightarrow> some f | LData d \<Rightarrow> fn)"

definition live_object :: "jsval \<Rightarrow> string \<Rightarrow> nat \<Rightarrow> string \<Rightarrow> string \<Rightarrow> hobj" where
  "live_object data selector fn type preType =
     \<lparr>hfun = fn, hdata = data, hns = [], htype = [], hguid = 0,
      hlive = Some \<lparr>lselector = selector, lorigType = type, lorigHandler = fn, lpreType = preType\<rparr>\<rparr>"

text \<open>
  The set that handlers are bound on, and the selector: those of the call, or those that the set was
  made with.
\<close>

definition live_scope :: "string option \<Rightarrow> nat list \<Rightarrow> string \<Rightarrow> nat list \<Rightarrow> string \<times> nat list" where
  "live_scope orig this selector context =
     (case orig of Some (c # cs) \<Rightarrow> (c # cs, this) | _ \<Rightarrow> (selector, context))"

definition live_one :: "page \<Rightarrow> jsval \<Rightarrow> nat \<Rightarrow> string \<Rightarrow> nat list \<Rightarrow> string \<Rightarrow> string \<Rightarrow> estate \<Rightarrow> estate option" where
  "live_one pg data fn selector context preType type s =
     on_each (\<lambda>e. event_add pg e (''live.'' @ liveConvert type selector)
       (HObj (live_object data selector fn type preType)) Undefined) context s"

definition live :: "page \<Rightarrow> string \<Rightarrow> larg \<Rightarrow> nat \<Rightarrow> string \<Rightarrow> nat list \<Rightarrow> estate \<Rightarrow> estate option" where
  "live pg types a fn selector context s =
     live_types (live_one pg (live_data a) (live_fun a fn id) selector context) (split_on CHR '' '' types) s"

definition die_one :: "page \<Rightarrow> nat \<Rightarrow> harg \<Rightarrow> string \<Rightarrow> nat list \<Rightarrow> string \<Rightarrow> string \<Rightarrow> estate \<Rightarrow> estate option" where
  "die_one pg n fn selector context preType type s =
     unbind pg n (RTypes (''live.'' @ liveConvert type selector)) fn context s"

definition die :: "page \<Rightarrow> nat \<Rightarrow> string \<Rightarrow> larg \<Rightarrow> harg \<Rightarrow> string option \<Rightarrow> string \<Rightarrow> nat list \<Rightarrow> estate \<Rightarrow> estate option" where
  "die pg n types a fn orig selector context s =
     (if types = [] \<and> (case orig of Some (c # cs) \<Rightarrow> c = CHR ''.'' | _ \<Rightarrow> False)
      then unbind pg n (RTypes (the orig)) HNone context s
      else live_types (die_one pg n (live_fun a fn HFun) selector context) (split_on CHR '' '' types) s)"

definition fn_delegate :: "page \<Rightarrow> string \<Rightarrow> string \<Rightarrow> larg \<Rightarrow> nat \<Rightarrow> string \<times> nat list \<Rightarrow> nat list \<Rightarrow> estate \<Rightarrow> estate option" where
  "fn_delegate pg selector types a fn own this s =
     (let (sel, ctx) = live_scope (Some selector) this (fst own) (snd own) in live pg types a fn sel ctx s)"

definition undelegate :: "page \<Rightarrow> nat \<Rightarrow> (string \<times> string \<times> harg) option \<Rightarrow> string \<times> nat list \<Rightarrow> nat list \<Rightarrow> estate \<Rightarrow> estate option" where
  "undelegate pg n args own this s = (case args of
      None \<Rightarrow> unbind pg n (RTypes ''live'') HNone this s
    | Some (selector, types, fn) \<Rightarrow>
        (let (sel, ctx) = live_scope (Some selector) this (fst own) (snd own)
         in die pg n types (LData Null) fn (Some selector) sel ctx s))"

section \<open>The live handler\<close>

text \<open>
  The document, the selectors and two things asked of elements: whether they are disabled, and whether one
  contains the other (\<open>jQuery.contains\<close>, the host's comparison of positions).
\<close>

record lenv =
  ldoc :: dom
  lengine :: engine
  disabled :: "nat \<Rightarrow> bool"
  contains :: "nat \<Rightarrow> nat \<Rightarrow> bool"

type_synonym lmatch = "nat \<times> hobj \<times> nat" \<comment> \<open>element, handler and level\<close>

definition live_skip :: "lenv \<Rightarrow> nat \<Rightarrow> event \<Rightarrow> world \<Rightarrow> bool" where
  "live_skip env this ev w \<longleftrightarrow> liveFired ev = Some this \<or> ev_of (reg w) this ''live'' = None \<or>
     disabled env (target ev) \<or> (button ev \<noteq> 0 \<and> etype ev = ''click'')"

definition selector_of :: "hobj \<Rightarrow> string" where
  "selector_of h = (case hlive h of Some l \<Rightarrow> lselector l | None \<Rightarrow> [])"

definition awaits :: "string \<Rightarrow> hobj \<Rightarrow> bool" where
  "awaits t h = (case hlive h of Some l \<Rightarrow> type_of (lorigType l) = t | None \<Rightarrow> False)"

definition pre_type :: "hobj \<Rightarrow> string" where
  "pre_type h = (case hlive h of Some l \<Rightarrow> lpreType l | None \<Rightarrow> [])"

definition in_names :: "event \<Rightarrow> hobj \<Rightarrow> bool" where
  "in_names ev h \<longleftrightarrow> no_names (enamespace ev) \<or> ns_test (enamespace ev) (hns h)"

text \<open>
  For the two types made of \<open>mouseover\<close> and \<open>mouseout\<close>: the match of the related element, or the element
  itself when it contains that match.
\<close>

definition related_match :: "lenv \<Rightarrow> string \<Rightarrow> event \<Rightarrow> nat \<Rightarrow> nat option option" where
  "related_match env sel ev elem = do {
     rs \<leftarrow> fn_closest (ldoc env) (lengine env) (QSel sel) None (case relatedTarget ev of Some r \<Rightarrow> [r] | None \<Rightarrow> []);
     Some (case rs of [] \<Rightarrow> None | r # _ \<Rightarrow> Some (if contains env elem r then elem else r))
   }"

definition mouse_type :: "hobj \<Rightarrow> bool" where
  "mouse_type h \<longleftrightarrow> pre_type h = ''mouseenter'' \<or> pre_type h = ''mouseleave''"

fun match_one :: "lenv \<Rightarrow> string \<times> nat \<times> nat \<Rightarrow> hobj list \<Rightarrow> event \<Rightarrow> (event \<times> lmatch list) option" where
  "match_one env cl [] ev = Some (ev, [])"
| "match_one env (sel, elem, level) (h # hs) ev =
     (if sel = selector_of h \<and> in_names ev h \<and> \<not> disabled env elem then
        if mouse_type h then do {
          let ev1 = ev\<lparr>etype := pre_type h\<rparr>;
          r \<leftarrow> related_match env (selector_of h) ev1 elem;
          (ev2, es) \<leftarrow> match_one env (sel, elem, level) hs ev1;
          Some (ev2, if r = Some elem then es else (elem, h, level) # es)
        } else do {
          (ev2, es) \<leftarrow> match_one env (sel, elem, level) hs ev;
          Some (ev2, (elem, h, level) # es)
        }
      else match_one env (sel, elem, level) hs ev)"

fun match_all :: "lenv \<Rightarrow> (string \<times> nat \<times> nat) list \<Rightarrow> hobj list \<Rightarrow> event \<Rightarrow> (event \<times> lmatch list) option" where
  "match_all env [] hs ev = Some (ev, [])"
| "match_all env (cl # cls) hs ev = do {
     (ev1, es) \<leftarrow> match_one env cl hs ev;
     (ev2, fs) \<leftarrow> match_all env cls hs ev1;
     Some (ev2, es @ fs)
   }"

text \<open>
  The calls, with the level at which the propagation was stopped; 0 stands for a missing one.
\<close>

definition live_call :: "site \<Rightarrow> jsval list \<Rightarrow> lmatch \<Rightarrow> event \<times> world \<Rightarrow> (jsval \<times> event \<times> world) outcome" where
  "live_call st args m x = (case (m, x) of ((elem, h, level), (ev, w)) \<Rightarrow>
     call_fun st (case hlive h of Some l \<Rightarrow> lorigHandler l | None \<Rightarrow> 0) elem args
       (ev\<lparr>currentTarget := elem, edata := hdata h, ehandler := hfun h\<rparr>) w)"

fun live_run :: "site \<Rightarrow> jsval list \<Rightarrow> lmatch list \<Rightarrow> nat \<Rightarrow> jsval \<Rightarrow> event \<times> world \<Rightarrow> (jsval \<times> event \<times> world) outcome" where
  "live_run st args [] maxLevel stop x = Returned (stop, x)"
| "live_run st args (m # ms) maxLevel stop x =
     (if maxLevel \<noteq> 0 \<and> snd (snd m) > maxLevel then Returned (stop, x)
      else case live_call st args m x of
        Threw y \<Rightarrow> Threw y
      | Returned (ret, ev, w) \<Rightarrow>
          if ret = Bool False \<or> isPropagationStopped ev then
            let stop1 = (if ret = Bool False then Bool False else stop)
            in if isImmediatePropagationStopped ev then Returned (stop1, ev, w)
               else live_run st args ms (snd (snd m)) stop1 (ev, w)
          else live_run st args ms maxLevel stop (ev, w))"

definition live_handler :: "site \<Rightarrow> lenv \<Rightarrow> nat \<Rightarrow> jsval list \<Rightarrow> event \<Rightarrow> world \<Rightarrow> (jsval \<times> event \<times> world) outcome option" where
  "live_handler st env this args ev w =
     (if live_skip env this ev w then Some (Returned (Undefined, ev, w))
      else let ev1 = ev\<lparr>liveFired := Some this\<rparr>;
               hs = the (ev_of (reg w) this ''live'')
           in if \<exists>h\<in>set hs. hlive h = None then Some (Threw (Str ''TypeError'', ev1, w))
              else let bound = filter (awaits (etype ev)) hs
                   in do {
                     cls \<leftarrow> fn_closest_array (ldoc env) (lengine env) (map selector_of bound) (Some (currentTarget ev)) [target ev];
                     (ev2, ms) \<leftarrow> match_all env cls bound ev1;
                     Some (live_run st args ms 0 Undefined (ev2, w))
                   })"

section \<open>Events made of others\<close>

text \<open>
  \<open>mouseenter\<close> is \<open>mouseover\<close> and \<open>mouseleave\<close> is \<open>mouseout\<close>, seen by one of two functions: \<open>withinElement\<close> asks whether the mouse
  stays inside the element, \<open>delegate\<close> leaves that to the live handler. The data of the handler decide when it is set
  up; at the teardown there are none.
\<close>

definition withinElement :: nat where
  "withinElement = 2"

definition delegate_fn :: nat where
  "delegate_fn = 3"

definition text_of :: "jsval \<Rightarrow> string" where
  "text_of v = (case v of Str s \<Rightarrow> s | _ \<Rightarrow> [])"

definition within_element :: "site \<Rightarrow> lenv \<Rightarrow> nat \<Rightarrow> jsval list \<Rightarrow> event \<Rightarrow> world \<Rightarrow> (jsval \<times> event \<times> world) outcome" where
  "within_element st env this args ev w =
     (let orig = etype ev; ev1 = ev\<lparr>etype := text_of (edata ev)\<rparr>
      in if relatedTarget ev = Some this \<or> (case relatedTarget ev of Some r \<Rightarrow> contains env this r | None \<Rightarrow> False)
         then Returned (Undefined, ev1, w)
         else case event_handle st this args ev1 w of
             Threw x \<Rightarrow> Threw x
           | Returned (v, ev2, w2) \<Rightarrow> Returned (Undefined, ev2\<lparr>etype := orig\<rparr>, w2))"

definition delegate_event :: "site \<Rightarrow> nat \<Rightarrow> jsval list \<Rightarrow> event \<Rightarrow> world \<Rightarrow> (jsval \<times> event \<times> world) outcome" where
  "delegate_event st this args ev w =
     (case event_handle st this args (ev\<lparr>etype := text_of (edata ev)\<rparr>) w of
        Threw x \<Rightarrow> Threw x
      | Returned (v, x) \<Rightarrow> Returned (Undefined, x))"

definition mouse_special :: "page \<Rightarrow> nat \<Rightarrow> (jsval \<Rightarrow> bool) \<Rightarrow> string \<Rightarrow> string \<Rightarrow> special" where
  "mouse_special pg n has_selector orig fix' = no_special\<lparr>
     s_setup := Some (\<lambda>e data ns s. map_option (Pair True)
       (event_add pg e fix' (HFun (if has_selector data then delegate_fn else withinElement)) (Str orig) s)),
     s_teardown := Some (\<lambda>e ns s. map_option (Pair True)
       (event_remove pg n e (RTypes fix') (HFun withinElement) None s))\<rparr>"

text \<open>
  The table of special events, on a page \<open>pg\<close> without one: \<open>ready\<close> and \<open>beforeunload\<close> listen in their own way, the two mouse
  events stand for \<open>mouseover\<close> and \<open>mouseout\<close>, which have no hooks, and \<open>live\<close> has the hooks above. The fuel is for the
  nested calls.
\<close>

definition script_page :: "nat \<Rightarrow> (jsval \<Rightarrow> bool) \<Rightarrow> page \<Rightarrow> page" where
  "script_page n has_selector pg = live_page n (pg\<lparr>special_of := (\<lambda>t.
     if t = ''ready'' \<or> t = ''beforeunload'' then ready_special
     else if t = ''mouseenter'' then mouse_special (pg\<lparr>special_of := (\<lambda>_. no_special)\<rparr>) n has_selector ''mouseenter'' ''mouseover''
     else if t = ''mouseleave'' then mouse_special (pg\<lparr>special_of := (\<lambda>_. no_special)\<rparr>) n has_selector ''mouseleave'' ''mouseout''
     else no_special)\<rparr>)"

lemma script_page_unhooked:
  "t \<notin> {''ready'', ''beforeunload'', ''mouseenter'', ''mouseleave'', ''live''} \<Longrightarrow> special_of (script_page n sel pg) t = no_special"
  by (cases n) (auto simp: script_page_def)

text \<open>\<open>toggle\<close>: one function that calls its arguments in turn, kept apart for each element and guid.\<close>

type_synonym toggles = "nat \<Rightarrow> nat \<Rightarrow> nat option"

definition toggler :: "nat \<Rightarrow> nat list \<Rightarrow> nat \<Rightarrow> toggles \<Rightarrow> nat \<times> toggles" where
  "toggler guid args this tog =
     (let k = (case tog this guid of Some k \<Rightarrow> k | None \<Rightarrow> 0) mod length args
      in (args ! k, tog(this := (tog this)(guid := Some (k + 1)))))"

definition toggler_call :: "site \<Rightarrow> nat \<Rightarrow> nat list \<Rightarrow> nat \<Rightarrow> jsval list \<Rightarrow> event \<Rightarrow> world \<Rightarrow> toggles
    \<Rightarrow> (jsval \<times> event \<times> world) outcome \<times> toggles" where
  "toggler_call st guid fns this args ev w tog =
     (let (f, tog1) = toggler guid fns this tog
      in (case call_fun st f this args (preventDefault ev) w of
            Threw x \<Rightarrow> Threw x
          | Returned (ret, x) \<Rightarrow> Returned (if truthy ret then ret else Bool False, x), tog1))"

definition link_guids :: "nat list \<Rightarrow> nat \<Rightarrow> estate \<Rightarrow> estate" where
  "link_guids args guid s = s\<lparr>fguid := fold (\<lambda>f g. g(f := guid)) args (fguid s)\<rparr>"

definition fn_event_toggle :: "page \<Rightarrow> nat list \<Rightarrow> nat list \<Rightarrow> estate \<Rightarrow> (nat \<times> estate) option" where
  "fn_event_toggle pg args this s =
     (let fn = hd args;
          guid = (if fguid s fn \<noteq> 0 then fguid s fn else gnext s);
          s1 = (if fguid s fn \<noteq> 0 then s else s\<lparr>gnext := gnext s + 1\<rparr>);
          w = fnew s1;
          s2 = link_guids (w # args) guid (s1\<lparr>fnew := w + 1\<rparr>)
      in map_option (Pair w) (bind pg ''click'' Null (HFun w) this s2))"

definition hover :: "page \<Rightarrow> harg \<Rightarrow> harg \<Rightarrow> nat list \<Rightarrow> estate \<Rightarrow> estate option" where
  "hover pg over out this s = do {
     s1 \<leftarrow> bind pg ''mouseenter'' Null over this s;
     bind pg ''mouseleave'' Null (if out = HNone \<or> out = HFalse then over else out) this s1
   }"

section \<open>Level by level\<close>

text \<open>
  The reference: the matches of one level are all called, unless one ends the event at once, and the next
  level has its turn when none of them asked to stop.
\<close>

fun run_level :: "site \<Rightarrow> jsval list \<Rightarrow> lmatch list \<Rightarrow> bool \<Rightarrow> jsval \<Rightarrow> event \<times> world \<Rightarrow> (bool \<times> jsval \<times> event \<times> world) outcome" where
  "run_level st args [] asked stop x = Returned (asked, stop, x)"
| "run_level st args (m # ms) asked stop x =
     (case live_call st args m x of
        Threw y \<Rightarrow> Threw (False, y)
      | Returned (ret, ev, w) \<Rightarrow>
          let stop1 = (if ret = Bool False then Bool False else stop);
              asks = (ret = Bool False \<or> isPropagationStopped ev)
          in if asks \<and> isImmediatePropagationStopped ev then Returned (True, stop1, ev, w)
             else run_level st args ms (asked \<or> asks) stop1 (ev, w))"

fun by_level :: "site \<Rightarrow> jsval list \<Rightarrow> lmatch list list \<Rightarrow> jsval \<Rightarrow> event \<times> world \<Rightarrow> (jsval \<times> event \<times> world) outcome" where
  "by_level st args [] stop x = Returned (stop, x)"
| "by_level st args (g # gs) stop x =
     (case run_level st args g False stop x of
        Threw (_, y) \<Rightarrow> Threw y
      | Returned (asked, stop1, x1) \<Rightarrow> if asked then Returned (stop1, x1) else by_level st args gs stop1 x1)"

lemma live_run_above:
  assumes "\<forall>m\<in>set ms. lv < snd (snd m)" and "lv \<noteq> 0"
  shows "live_run st args ms lv stop x = Returned (stop, x)"
  using assms by (cases ms) simp_all

lemma live_run_level:
  assumes "\<forall>m\<in>set g. snd (snd m) = lv" and "lv \<noteq> 0" and "\<forall>m\<in>set ms. lv < snd (snd m)"
  shows "live_run st args (g @ ms) (if asked then lv else 0) stop x =
    (case run_level st args g asked stop x of
       Threw (_, y) \<Rightarrow> Threw y
     | Returned (asked1, stop1, x1) \<Rightarrow> if asked1 then Returned (stop1, x1) else live_run st args ms 0 stop1 x1)"
  using assms(1)
proof (induction g arbitrary: asked stop x)
  case Nil
  then show ?case using live_run_above[OF assms(3,2)] by simp
next
  case (Cons m g)
  have l: "snd (snd m) = lv" using Cons.prems by simp
  note IH = Cons.IH[OF ballI, of True] Cons.IH[OF ballI, of asked]
  show ?case
  proof (cases "live_call st args m x")
    case (Threw y)
    then show ?thesis using l by simp
  next
    case (Returned r)
    obtain ret ev w where r: "r = (ret, ev, w)" by (cases r)
    show ?thesis
      using Returned r l assms(2) IH Cons.prems by (cases asked) (simp_all add: Let_def)
  qed
qed

lemma live_run_by_level:
  assumes "\<forall>i<length gs. \<forall>m\<in>set (gs ! i). snd (snd m) = k + i" and "0 < k"
  shows "live_run st args (concat gs) 0 stop x = by_level st args gs stop x"
  using assms
proof (induction gs arbitrary: k stop x)
  case (Cons g gs)
  have g: "\<forall>m\<in>set g. snd (snd m) = k" using Cons.prems(1) by fastforce
  have gs: "\<forall>i<length gs. \<forall>m\<in>set (gs ! i). snd (snd m) = Suc k + i" using Cons.prems(1) by fastforce
  have above: "\<forall>m\<in>set (concat gs). k < snd (snd m)"
  proof
    fix m assume "m \<in> set (concat gs)"
    then obtain g' where "g' \<in> set gs" "m \<in> set g'" by auto
    then obtain i where "i < length gs" "m \<in> set (gs ! i)" by (metis in_set_conv_nth)
    with gs show "k < snd (snd m)" by simp
  qed
  have IH: "live_run st args (concat gs) 0 stop x = by_level st args gs stop x" for stop x
    by (rule Cons.IH[OF gs]) simp
  show ?case
    using live_run_level[OF g _ above, of st args False stop x] Cons.prems(2)
    by (simp add: IH split: outcome.split)
qed simp

text \<open>The way up from the target, and what each node on it contributes.\<close>

definition node_matches :: "lenv \<Rightarrow> event \<Rightarrow> hobj list \<Rightarrow> nat \<times> nat \<Rightarrow> lmatch list" where
  "node_matches env ev bound n = (case n of (level, c) \<Rightarrow>
     concat (map (\<lambda>s. map (\<lambda>h. (c, h, level)) (filter (\<lambda>h. selector_of h = s \<and> in_names ev h \<and> \<not> disabled env c) bound))
       (filter (\<lambda>s. closest_test (lengine env) (Some (currentTarget ev)) (QSel s) c)
         (rev (remdups (rev (map selector_of bound)))))))"

lemma closest_levels_chain:
  assumes "chain (parentNode d) cur (p @ anc # rest)" and "\<forall>c\<in>set p. ntype d c \<noteq> 9 \<and> c \<noteq> anc"
  shows "closest_levels d en sels (Some anc) cur k =
    Some (concat (map (\<lambda>(l, c). map (\<lambda>s. (s, c, l)) (filter (\<lambda>s. closest_test en (Some anc) (QSel s) c) sels)) (enumerate k p)))"
  using assms
proof (induction p arbitrary: cur k)
  case Nil
  then have "cur = Some anc" by (auto simp: chain_simps)
  then show ?case by (simp add: closest_levels.simps)
next
  case (Cons c p)
  then have cur: "cur = Some c" and ch: "chain (parentNode d) (parentNode d c) (p @ anc # rest)"
    by (auto simp: chain_simps)
  from Cons.IH[OF ch, of "Suc k"] Cons.prems(2) cur show ?case
    by (subst closest_levels.simps) simp
qed

lemma match_one_plain:
  assumes "\<forall>h\<in>set hs. \<not> mouse_type h"
  shows "match_one env (s, c, l) hs ev =
    Some (ev, map (\<lambda>h. (c, h, l)) (filter (\<lambda>h. selector_of h = s \<and> in_names ev h \<and> \<not> disabled env c) hs))"
  using assms by (induction hs) auto

lemma match_all_plain:
  assumes "\<forall>h\<in>set hs. \<not> mouse_type h"
  shows "match_all env cls hs ev = Some (ev, concat (map (\<lambda>(s, c, l).
     map (\<lambda>h. (c, h, l)) (filter (\<lambda>h. selector_of h = s \<and> in_names ev h \<and> \<not> disabled env c) hs)) cls))"
  by (induction cls) (auto simp: match_one_plain[OF assms])

lemma node_matches_levels:
  "concat (map (\<lambda>(s, c, l). map (\<lambda>h. (c, h, l)) (filter (\<lambda>h. selector_of h = s \<and> in_names ev h \<and> \<not> disabled env c) bound))
     (concat (map (\<lambda>(l, c). map (\<lambda>s. (s, c, l)) (filter (\<lambda>s. closest_test (lengine env) (Some (currentTarget ev)) (QSel s) c)
       (rev (remdups (rev (map selector_of bound)))))) ns)))
   = concat (map (node_matches env ev bound) ns)"
  by (induction ns) (auto simp: node_matches_def comp_def)

lemma enumerate_level: "i < length p \<Longrightarrow> m \<in> set (node_matches env ev bound (enumerate k p ! i)) \<Longrightarrow> snd (snd m) = k + i"
  by (auto simp: nth_enumerate_eq node_matches_def)

lemma in_names_fired [simp]: "in_names (ev\<lparr>liveFired := a\<rparr>) h = in_names ev h"
  by (simp add: in_names_def)

text \<open>
  C22: an event that reaches an element with live handlers runs, for each node from the target up to
  that element, the handlers whose selector the node matches, nearest node first. When one of them
  asks to stop, the others of the same node still run and those further up do not.
\<close>

theorem delegated_event_level_by_level:
  assumes path: "chain (parentNode (ldoc env)) (Some (target ev)) (p @ this # rest)"
      "\<forall>c\<in>set p. ntype (ldoc env) c \<noteq> 9 \<and> c \<noteq> this"
    and here: "currentTarget ev = this" "\<not> live_skip env this ev w"
    and hs: "ev_of (reg w) this ''live'' = Some hs" "\<forall>h\<in>set hs. hlive h \<noteq> None"
    and over: "\<forall>h\<in>set hs. awaits (etype ev) h \<longrightarrow> \<not> mouse_type h"
  shows "live_handler st env this args ev w =
    Some (by_level st args (map (node_matches env ev (filter (awaits (etype ev)) hs)) (enumerate 1 p)) Undefined
      (ev\<lparr>liveFired := Some this\<rparr>, w))"
proof -
  let ?b = "filter (awaits (etype ev)) hs" and ?ev = "ev\<lparr>liveFired := Some this\<rparr>"
  let ?sels = "rev (remdups (rev (map selector_of ?b)))"
  let ?cls = "concat (map (\<lambda>(l, c). map (\<lambda>s. (s, c, l))
    (filter (\<lambda>s. closest_test (lengine env) (Some this) (QSel s) c) ?sels)) (enumerate 1 p))"
  let ?gs = "map (node_matches env ev ?b) (enumerate 1 p)"
  have cl: "fn_closest_array (ldoc env) (lengine env) (map selector_of ?b) (Some this) [target ev] = Some ?cls"
  proof (cases "map selector_of ?b = []")
    case True
    then show ?thesis by (simp add: fn_closest_array_def)
  next
    case False
    then show ?thesis using closest_levels_chain[OF path(1) path(2), of "lengine env" ?sels 1]
      by (simp only: fn_closest_array_def list.case if_False)
  qed
  have "match_all env ?cls ?b ?ev = Some (?ev, concat (map (\<lambda>(s, c, l).
     map (\<lambda>h. (c, h, l)) (filter (\<lambda>h. selector_of h = s \<and> in_names ev h \<and> \<not> disabled env c) ?b)) ?cls))"
    using match_all_plain[of ?b env ?cls ?ev] over by simp
  also have "\<dots> = Some (?ev, concat ?gs)"
    using node_matches_levels[of ev env ?b "enumerate 1 p"] here(1) by simp
  finally have m: "match_all env ?cls ?b ?ev = Some (?ev, concat ?gs)" .
  have lv: "\<forall>i<length ?gs. \<forall>m\<in>set (?gs ! i). snd (snd m) = 1 + i"
    using enumerate_level[of _ p _ env ev ?b 1] by simp
  have "live_run st args (concat ?gs) 0 Undefined (?ev, w) = by_level st args ?gs Undefined (?ev, w)"
    by (rule live_run_by_level[OF lv]) simp
  with cl m here hs show ?thesis by (auto simp: live_handler_def Let_def)
qed

section \<open>Binding and unbinding\<close>

definition list_at :: "estate \<Rightarrow> nat \<Rightarrow> string \<Rightarrow> hobj list" where
  "list_at s e t = (case ev_of s e t of Some hs \<Rightarrow> hs | None \<Rightarrow> [])"

lemma ev_of_add_listener [simp]: "ev_of (add_listener e' t s) e u = ev_of s e u"
  by (auto simp: add_listener_def ev_of_def ev_list_def split: option.splits)

lemma pdata_add_listener [simp]: "pdata (add_listener e t s) = pdata s"
  by (auto simp: add_listener_def split: option.splits)

lemma fguid_add_listener [simp]: "fguid (add_listener e t s) = fguid s"
  by (auto simp: add_listener_def split: option.splits)

lemma init_queue_quiet:
  assumes "s_setup (special_of pg (type_of t)) = None" and "pdata s e \<noteq> None"
  shows "\<exists>s'. init_queue pg e data t s = Some s' \<and> pdata s' e \<noteq> None \<and> fguid s' = fguid s \<and>
    (\<forall>u. ev_of s' e u = (if u = type_of t then Some (list_at s e u) else ev_of s e u))"
proof (cases "ev_of s e (type_of t)")
  case None
  then show ?thesis using assms
    by (simp add: init_queue_def Let_def list_at_def pdata_set_ev update_conv' del: not_None_eq) (simp add: ev_of_def)
next
  case (Some hs)
  then show ?thesis using assms by (auto simp: init_queue_def Let_def list_at_def)
qed

lemma push_handler_ev:
  assumes "pdata s e \<noteq> None"
  shows "ev_of (push_handler e ho s) e u = (if u = htype ho then Some (list_at s e u @ [ho]) else ev_of s e u)"
    "fguid (push_handler e ho s) = fguid s" "pdata (push_handler e ho s) e \<noteq> None"
  using assms by (simp_all add: push_handler_def Let_def list_at_def update_conv' pdata_set_ev del: not_None_eq) (simp add: ev_of_def)

lemma ev_of_used [simp]: "ev_of (s\<lparr>used := l\<rparr>) e u = ev_of s e u"
  by (simp add: ev_of_def ev_list_def)

lemma new_hobj_type [simp]: "htype (new_hobj hin f data t s) = type_of t"
  by (simp add: new_hobj_def Let_def)

lemma new_hobj_cong: "fguid s = fguid s' \<Longrightarrow> new_hobj hin f data t s = new_hobj hin f data t s'"
  unfolding new_hobj_def by (simp only: Let_def)

text \<open>The data of an element are there once a handler was added.\<close>

lemma init_data_ev [simp]: "ev_of (init_data e s) e u = ev_of s e u"
  by (auto simp: ev_of_def ev_list_def init_data_def Let_def split: option.splits)

lemma init_data_frame [simp]: "pdata (init_data e s) e \<noteq> None" "fguid (init_data e s) = fguid s"
  by (auto simp: init_data_def Let_def)

lemma ev_of_give [simp]: "ev_of (give_guid f s) e u = ev_of s e u"
  by (simp add: ev_of_def ev_list_def)

text \<open>Adding to one type, with what its hook for added handlers does.\<close>

lemma event_add_single:
  assumes el: "event_elem pg e" and t: "t \<noteq> []" "CHR '' '' \<notin> set t" and h: "handler_parts h = Some (hin, f)"
    and set: "s_setup (special_of pg (type_of t)) = None"
    and hook: "\<And>s'. pdata s' e \<noteq> None \<Longrightarrow> fguid s' = fguid (give_guid f s) \<Longrightarrow>
        (\<forall>u. ev_of s' e u = (if u = type_of t then Some (list_at s e u) else ev_of s e u)) \<Longrightarrow>
        \<exists>s''. run_add pg e f (new_hobj hin f data t (give_guid f s)) s' = Some s'' \<and> pdata s'' e \<noteq> None \<and> Q s' s''"
  shows "\<exists>s1 s2 s3. event_add pg e t h data s = Some s3 \<and> pdata s3 e \<noteq> None \<and>
    fguid s1 = fguid (give_guid f s) \<and>
    (\<forall>u. ev_of s1 e u = (if u = type_of t then Some (list_at s e u) else ev_of s e u)) \<and>
    Q s1 s2 \<and> fguid s3 = fguid s2 \<and>
    (\<forall>u. ev_of s3 e u = (if u = type_of t then Some (list_at s2 e u @ [new_hobj hin f data t (give_guid f s)]) else ev_of s2 e u))"
proof -
  let ?s0 = "init_data e (give_guid f s)" and ?ho = "new_hobj hin f data t (give_guid f s)"
  have ho: "new_hobj hin f data t ?s0 = ?ho" by (rule new_hobj_cong) simp
  obtain s1 where s1: "init_queue pg e data t ?s0 = Some s1" "pdata s1 e \<noteq> None" "fguid s1 = fguid ?s0"
    "\<forall>u. ev_of s1 e u = (if u = type_of t then Some (list_at ?s0 e u) else ev_of ?s0 e u)"
    using init_queue_quiet[OF set, of ?s0 e data] by auto
  have l: "list_at ?s0 e u = list_at s e u" for u by (simp add: list_at_def)
  have e1: "\<forall>u. ev_of s1 e u = (if u = type_of t then Some (list_at s e u) else ev_of s e u)"
    using s1(4) by (simp add: l)
  have g1: "fguid s1 = fguid (give_guid f s)" using s1(3) by simp
  obtain s2 where s2: "run_add pg e f ?ho s1 = Some s2" "pdata s2 e \<noteq> None" "Q s1 s2"
    using hook[OF s1(2) g1 e1] by blast
  let ?s3 = "(push_handler e ?ho s2)\<lparr>used := List.insert (htype ?ho) (used (push_handler e ?ho s2))\<rparr>"
  have "add_one pg e hin f data t ?s0 = Some ?s3"
    by (simp add: add_one_def ho s1(1) s2(1) Let_def)
  then have "event_add pg e t h data s = Some ?s3"
    using el h type_names_single[OF t] by (simp add: event_add_def event_elem_def)
  moreover have "\<forall>u. ev_of ?s3 e u = (if u = type_of t then Some (list_at s2 e u @ [?ho]) else ev_of s2 e u)"
    using push_handler_ev(1)[OF s2(2), of ?ho] by simp
  moreover have "fguid ?s3 = fguid s2" "pdata ?s3 e \<noteq> None" using push_handler_ev(2,3)[OF s2(2), of ?ho] by simp_all
  ultimately show ?thesis using g1 e1 s2(3) by blast
qed

lemma event_add_quiet:
  assumes el: "event_elem pg e" and t: "t \<noteq> []" "CHR '' '' \<notin> set t" and h: "handler_parts h = Some (hin, f)"
    and quiet: "special_of pg (type_of t) = no_special"
  shows "\<exists>s'. event_add pg e t h data s = Some s' \<and> pdata s' e \<noteq> None \<and> fguid s' = fguid (give_guid f s) \<and>
    (\<forall>u. ev_of s' e u = (if u = type_of t then Some (list_at s e u @ [new_hobj hin f data t (give_guid f s)]) else ev_of s e u))"
proof -
  have set: "s_setup (special_of pg (type_of t)) = None" by (simp add: quiet no_special_def)
  have "\<exists>s''. run_add pg e f (new_hobj hin f data t (give_guid f s)) s' = Some s'' \<and> pdata s'' e \<noteq> None \<and> s'' = s'"
    if "pdata s' e \<noteq> None" for s'
    using that by (simp add: run_add_def quiet no_special_def)
  from event_add_single[where Q = "\<lambda>s' s''. s'' = s'", OF el t h set this]
  obtain s1 s3 where "event_add pg e t h data s = Some s3" "pdata s3 e \<noteq> None" "fguid s1 = fguid (give_guid f s)"
    "\<forall>u. ev_of s1 e u = (if u = type_of t then Some (list_at s e u) else ev_of s e u)" "fguid s3 = fguid s1"
    "\<forall>u. ev_of s3 e u = (if u = type_of t then Some (list_at s1 e u @ [new_hobj hin f data t (give_guid f s)]) else ev_of s1 e u)"
    by blast
  then show ?thesis by (auto simp: list_at_def)
qed

lemma strip_keep:
  "\<forall>h\<in>set hs. \<not> P h \<Longrightarrow> strip pg e ty P kept (hs @ ks) s = strip pg e ty P (kept @ hs) ks s"
  by (induction hs arbitrary: kept) simp_all

text \<open>Removing the last handler of a type, the only one the call picks.\<close>

lemma event_remove_last:
  assumes el: "event_elem pg e" and t: "proper t" and ev: "ev_of s e (type_of t) = Some (hs @ [h])"
    and g: "harg_guid s ha = Some (hguid h)" and hin: "in_space t h"
    and old: "\<forall>k\<in>set hs. hguid k \<noteq> hguid h" and td: "s_teardown (special_of pg (type_of t)) = None"
    and hook: "\<And>s'. s' = set_list e (type_of t) hs s \<Longrightarrow>
        \<exists>s''. run_remove pg e (type_of t) h s' = Some s'' \<and> ev_of s'' e (type_of t) = Some hs \<and> Q s''"
  shows "\<exists>s2 s3. event_remove pg (Suc n) e (RTypes t) ha None s = Some s3 \<and> Q s2 \<and>
    (\<forall>u. ev_of s3 e u = (if u = type_of t \<and> hs = [] then None else ev_of s2 e u)) \<and> fguid s3 = fguid s2"
proof -
  let ?ty = "type_of t"
  let ?P = "\<lambda>k. hguid k = hguid h \<and> in_space t k"
  obtain s2 where s2: "run_remove pg e ?ty h (set_list e ?ty hs s) = Some s2" "ev_of s2 e ?ty = Some hs" "Q s2"
    using hook by blast
  have "strip pg e ?ty ?P [] (hs @ [h]) s = strip pg e ?ty ?P hs [h] s"
    using strip_keep[of hs ?P pg e ?ty "[]" "[h]" s] old by simp
  also have "\<dots> = Some s2" using s2(1) hin by simp
  finally have st: "strip pg e ?ty ?P [] (hs @ [h]) s = Some s2" .
  let ?s3 = "if hs = [] then set_ev e (AList.delete ?ty (ev_list s2 e)) (remove_listener e ?ty s2) else s2"
  have "remove_named pg e t (hguid h) None (hs @ [h]) s = Some ?s3"
    using st s2(2) by (simp add: remove_named_def Let_def drop_type_def td)
  then have "event_remove pg (Suc n) e (RTypes t) ha None s = Some (cleanup e ?s3)"
    using el t g ev has_events_ev[OF ev] type_names_single[of t]
    by (simp add: event_remove_Suc event_elem_def proper_def remove_one_def)
  moreover have "\<forall>u. ev_of (cleanup e ?s3) e u = (if u = ?ty \<and> hs = [] then None else ev_of s2 e u)"
    using s2(2) pdata_of_ev[OF s2(2)] by (auto simp: delete_conv' ev_of_def)
  ultimately show ?thesis using s2(3) by (intro exI[of _ s2] exI[of _ "cleanup e ?s3"]) simp
qed

lemma live_page_page [simp]:
  "is_text (live_page k pg) e = is_text pg e" "event_elem (live_page k pg) e = event_elem pg e"
  "t \<noteq> ''live'' \<Longrightarrow> special_of (live_page k pg) t = special_of pg t"
  by (cases k; simp add: is_text_def event_elem_def)+

lemma live_page_hooks:
  "s_setup (special_of (live_page k pg) ''live'') = None" "s_teardown (special_of (live_page k pg) ''live'') = None"
  "s_add (special_of (live_page (Suc k) pg) ''live'') = Some (live_add (live_page k pg))"
  "s_remove (special_of (live_page (Suc k) pg) ''live'') = Some (live_remove (live_page k pg) k)"
  by (cases k; simp add: no_special_def)+

declare live_page.simps [simp del]

lemma split_on_dot: "\<exists>p. split_on d (s @ d # r) = p @ split_on d r \<and> p \<noteq> [] \<and> hd p = hd (split_on d s)"
proof (induction s)
  case (Cons c s)
  then obtain p where p: "split_on d (s @ d # r) = p @ split_on d r" "p \<noteq> []" "hd p = hd (split_on d s)" by blast
  obtain q qs where q: "p = q # qs" using p(2) by (cases p) auto
  obtain w ws where w: "split_on d s = w # ws" by (cases "split_on d s") auto
  show ?case
  proof (cases "c = d")
    case True
    then show ?thesis using p by (intro exI[of _ "[] # p"]) simp
  next
    case False
    then show ?thesis using p q w by (intro exI[of _ "(c # q) # qs"]) simp
  qed
qed (auto intro: exI[of _ "[[]]"])

lemma liveConvert_facts:
  assumes "proper t" and "t \<noteq> ''*''"
  shows "proper (liveConvert t sel)" "type_of (liveConvert t sel) = type_of t" "spaces_of (liveConvert t sel) \<noteq> []"
proof -
  have U: "liveConvert t sel = t @ CHR ''.'' # map convert_char sel"
    using assms by (simp add: liveConvert_def proper_def)
  have "CHR '' '' \<notin> set (map convert_char sel)" by (auto simp: convert_char_def)
  with assms show "proper (liveConvert t sel)" unfolding U proper_def by (cases t) auto
  obtain p where p: "split_on CHR ''.'' (liveConvert t sel) = p @ split_on CHR ''.'' (map convert_char sel)"
    "p \<noteq> []" "hd p = hd (split_on CHR ''.'' t)"
    using split_on_dot[of "CHR ''.''" t "map convert_char sel"] unfolding U by blast
  then show "type_of (liveConvert t sel) = type_of t" "spaces_of (liveConvert t sel) \<noteq> []"
    unfolding type_of_def spaces_of_def p(1) by (cases p; simp)+
qed

lemma live_type_facts:
  assumes "proper u"
  shows "proper (''live.'' @ u)" "type_of (''live.'' @ u) = ''live''" "spaces_of (''live.'' @ u) \<noteq> []"
proof -
  have "split_on CHR ''.'' (''live.'' @ u) = ''live'' # split_on CHR ''.'' u"
    using split_on_append[of "CHR ''.''" "''live''" u] by simp
  then show "type_of (''live.'' @ u) = ''live''" "spaces_of (''live.'' @ u) \<noteq> []"
    by (simp_all add: type_of_def spaces_of_def)
  show "proper (''live.'' @ u)" using assms by (simp add: proper_def)
qed

lemma in_space_new: "spaces_of t \<noteq> [] \<Longrightarrow> in_space t (new_hobj hin f data t s)"
  using sort_nonempty[of "spaces_of t"] by (simp add: in_space_def ns_test_def new_hobj_def Let_def)

lemma live_types_single:
  assumes "type_of t \<noteq> ''hover''" and "liveMap (type_of t) = None"
  shows "live_types f [t] s = f (type_of t) t s"
  using assms type_of_split[of t] by (simp add: mapped_types_def split: option.split)

declare live_types.simps [simp del]

definition bound_live :: "estate \<Rightarrow> nat \<Rightarrow> string \<Rightarrow> hobj \<Rightarrow> string \<Rightarrow> hobj \<Rightarrow> estate \<Rightarrow> bool" where
  "bound_live s e ty h lt l s1 \<longleftrightarrow>
     (\<forall>u. ev_of s1 e u = (if u = lt then Some (list_at s e u @ [l]) else if u = ty then Some (list_at s e u @ [h]) else ev_of s e u))"

text \<open>The hook of the special event \<open>live\<close> binds the live handler under the type itself.\<close>

definition live_hooked :: "nat \<Rightarrow> nat \<Rightarrow> nat \<Rightarrow> string \<Rightarrow> string \<Rightarrow> estate \<Rightarrow> estate \<Rightarrow> bool" where
  "live_hooked e f g u ty s' s'' \<longleftrightarrow> fguid s'' f = g \<and>
    (\<exists>h. hfun h = liveHandler \<and> hguid h = g \<and> in_space u h \<and>
      (\<forall>v. ev_of s'' e v = (if v = ty then Some (list_at s' e v @ [h]) else ev_of s' e v)))"

lemma live_hook_binds:
  assumes pg: "special_of pg (type_of t) = no_special" "event_elem pg e" and u: "proper u" "type_of u = type_of t" "spaces_of u \<noteq> []"
    and t: "type_of t \<noteq> ''live''" and f: "f \<noteq> liveHandler" and g: "g \<noteq> 0" "fguid s' f = g"
    and l: "hfun l = f" "hguid l = g" "htype l = ''live''"
      "hlive l = Some \<lparr>lselector = sel, lorigType = t, lorigHandler = f, lpreType = pre\<rparr>"
    and uc: "u = liveConvert t sel" and s': "pdata s' e \<noteq> None"
  shows "\<exists>s''. run_add (live_page (Suc k) pg) e f l s' = Some s'' \<and> pdata s'' e \<noteq> None \<and>
    live_hooked e f g u (type_of t) s' s''"
proof -
  let ?in = "live_page k pg" and ?l' = "l\<lparr>hfun := liveHandler, hguid := g\<rparr>"
  let ?h = "new_hobj (Some ?l') liveHandler Undefined u (give_guid liveHandler s')"
  have u0: "u \<noteq> []" "CHR '' '' \<notin> set u" using u(1) by (simp_all add: proper_def)
  have hp: "handler_parts (HObj ?l') = Some (Some ?l', liveHandler)" by (simp add: handler_parts_def)
  have "special_of ?in (type_of u) = no_special" using t pg(1) by (simp add: u(2))
  from event_add_quiet[OF _ u0 hp this, of e Undefined s'] pg(2)
  obtain s'' where s'': "event_add ?in e u (HObj ?l') Undefined s' = Some s''" "pdata s'' e \<noteq> None"
    "fguid s'' = fguid (give_guid liveHandler s')"
    "\<forall>v. ev_of s'' e v = (if v = type_of u then Some (list_at s' e v @ [?h]) else ev_of s' e v)"
    by auto
  have fg: "fguid s'' f = g" using s''(3) g(2) f by (simp add: give_guid_def)
  have "live_add ?in e l s' = Some s''"
    using s''(1) by (simp add: live_add_def l g(2) uc)
  then have "run_add (live_page (Suc k) pg) e f l s' = Some s''"
    using fg g(1) by (simp add: run_add_def l(3) live_page_hooks(3) l(1,2))
  moreover have "live_hooked e f g u (type_of t) s' s''"
    unfolding live_hooked_def using fg s''(4) g in_space_new[OF u(3), of "Some ?l'" liveHandler Undefined "give_guid liveHandler s'"]
    by (intro conjI exI[of _ ?h]) (simp_all add: u(2) new_hobj_def Let_def)
  ultimately show ?thesis using s''(2) by blast
qed

text \<open>What one call of \<open>live\<close> leaves in the registry.\<close>

lemma live_binds:
  fixes t sel pre :: string and data :: jsval
  defines "u \<equiv> liveConvert t sel"
  assumes pg: "special_of pg (type_of t) = no_special" "event_elem pg e" and t: "proper t" "t \<noteq> ''*''" "type_of t \<noteq> ''live''"
    and f: "f \<noteq> liveHandler" "fguid (give_guid f s) f \<noteq> 0"
  defines "g \<equiv> fguid (give_guid f s) f"
  defines "l \<equiv> new_hobj (Some (live_object data sel f t pre)) f Undefined (''live.'' @ u) (give_guid f s)"
  shows "\<exists>s1 h. event_add (live_page (Suc k) pg) e (''live.'' @ u) (HObj (live_object data sel f t pre)) Undefined s = Some s1 \<and>
    bound_live s e (type_of t) h ''live'' l s1 \<and> hguid l = g \<and> hfun h = liveHandler \<and> hguid h = g \<and> in_space u h \<and>
    hlive l = Some \<lparr>lselector = sel, lorigType = t, lorigHandler = f, lpreType = pre\<rparr> \<and> fguid s1 f = g"
proof -
  let ?lp = "live_page (Suc k) pg" and ?ho = "HObj (live_object data sel f t pre)" and ?T = "''live.'' @ u"
  have u: "proper u" "type_of u = type_of t" "spaces_of u \<noteq> []" unfolding u_def by (rule liveConvert_facts[OF t(1,2)])+
  note T = live_type_facts[OF u(1)]
  have T3: "?T \<noteq> []" "CHR '' '' \<notin> set ?T" using T(1) by (simp_all add: proper_def)
  have hp: "handler_parts ?ho = Some (Some (live_object data sel f t pre), f)"
    by (simp add: handler_parts_def live_object_def)
  have l: "hfun l = f" "hguid l = g" "htype l = ''live''"
    "hlive l = Some \<lparr>lselector = sel, lorigType = t, lorigHandler = f, lpreType = pre\<rparr>"
    using T(2) by (simp_all add: l_def new_hobj_def live_object_def Let_def g_def)
  have g: "g \<noteq> 0" using f(2) by (simp add: g_def)
  have su: "s_setup (special_of ?lp (type_of ?T)) = None" by (simp only: T(2) live_page_hooks)
  have el: "event_elem ?lp e" using pg(2) by simp
  have hook: "\<exists>s''. run_add ?lp e f (new_hobj (Some (live_object data sel f t pre)) f Undefined ?T (give_guid f s)) s' = Some s'' \<and>
      pdata s'' e \<noteq> None \<and> live_hooked e f g u (type_of t) s' s''"
    if "pdata s' e \<noteq> None" "fguid s' = fguid (give_guid f s)"
      "\<forall>v. ev_of s' e v = (if v = type_of ?T then Some (list_at s e v) else ev_of s e v)" for s'
  proof -
    have fg: "fguid s' f = g" and uc: "u = liveConvert t sel" using that(2) by (simp_all add: g_def u_def)
    show ?thesis using live_hook_binds[OF pg u t(3) f(1) g fg l uc that(1)] unfolding l_def .
  qed
  obtain s1 s2 s3 where s: "event_add ?lp e ?T ?ho Undefined s = Some s3"
    "\<forall>v. ev_of s1 e v = (if v = type_of ?T then Some (list_at s e v) else ev_of s e v)"
    "live_hooked e f g u (type_of t) s1 s2" "fguid s3 = fguid s2"
    "\<forall>v. ev_of s3 e v = (if v = type_of ?T then Some (list_at s2 e v @ [l]) else ev_of s2 e v)"
    using event_add_single[where Q = "live_hooked e f g u (type_of t)", OF el T3 hp su hook] unfolding l_def by blast
  obtain h where h: "hfun h = liveHandler" "hguid h = g" "in_space u h"
    "\<forall>v. ev_of s2 e v = (if v = type_of t then Some (list_at s1 e v @ [h]) else ev_of s1 e v)" and fg: "fguid s2 f = g"
    using s(3) unfolding live_hooked_def by blast
  have "bound_live s e (type_of t) h ''live'' l s3"
    unfolding bound_live_def using s(2,5) h(4) t(3) unfolding T(2) by (auto simp: list_at_def)
  with s(1,4) h fg l show ?thesis by auto
qed

lemma on_each_single [simp]: "on_each f [e] s = f e s"
  by (simp split: Option.bind_split)

lemma single_type: "proper t \<Longrightarrow> split_on CHR '' '' t = [t]"
  by (simp add: proper_def split_on_none)

lemma list_kept:
  assumes "ev_of s e u \<noteq> Some []"
  shows "(if list_at s e u = [] then None else Some (list_at s e u)) = ev_of s e u"
  using assms by (auto simp: list_at_def split: option.splits)

text \<open>The hook that runs when the handler under \<open>live\<close> goes takes the live handler of the type away.\<close>

lemma live_hook_unbinds:
  assumes pg: "special_of pg (type_of t) = no_special" "event_elem pg e" and t: "proper t" "t \<noteq> ''*''" "type_of t \<noteq> ''live''"
    and b: "bound_live s e (type_of t) h ''live'' l s1" and hl: "hguid l = hguid h" "in_space (liveConvert t sel) h"
      "hlive l = Some \<lparr>lselector = sel, lorigType = t, lorigHandler = f, lpreType = pre\<rparr>"
    and fresh: "\<forall>k\<in>set (list_at s e (type_of t)). hguid k \<noteq> hguid h" and old: "ev_of s e (type_of t) \<noteq> Some []"
  shows "\<exists>s4. run_remove (live_page (Suc (Suc k)) pg) e ''live'' l (set_list e ''live'' (list_at s e ''live'') s1) = Some s4 \<and>
    (\<forall>v. ev_of s4 e v = (if v = ''live'' then Some (list_at s e v) else ev_of s e v))"
proof -
  let ?in = "live_page (Suc k) pg" and ?ty = "type_of t" and ?u = "liveConvert t sel"
  define s' where "s' = set_list e ''live'' (list_at s e ''live'') s1"
  note u = liveConvert_facts[OF t(1,2), of sel]
  have ev': "ev_of s' e v = (if v = ''live'' then Some (list_at s e v) else
      if v = ?ty then Some (list_at s e v @ [h]) else ev_of s e v)" for v
    using b by (simp add: bound_live_def s'_def)
  have q: "special_of ?in (type_of ?u) = no_special" using t(3) pg(1) by (simp add: u(2))
  have el: "event_elem ?in e" using pg(2) by simp
  have e': "ev_of s' e (type_of ?u) = Some (list_at s e ?ty @ [h])" unfolding u(2) ev' using t(3) by simp
  have g: "harg_guid s' (HObj l) = Some (hguid h)" by (simp add: harg_guid_def hl(1))
  have td: "s_teardown (special_of ?in (type_of ?u)) = None" by (simp add: q no_special_def)
  have rr: "\<exists>s''. run_remove ?in e (type_of ?u) h s3 = Some s'' \<and> ev_of s'' e (type_of ?u) = Some (list_at s e ?ty) \<and> s'' = s3"
    if "s3 = set_list e (type_of ?u) (list_at s e ?ty) s'" for s3
    using that e' by (simp add: quiet_run_remove[OF q])
  obtain s3 s4 where r: "event_remove ?in (Suc k) e (RTypes ?u) (HObj l) None s' = Some s4"
    "s3 = set_list e (type_of ?u) (list_at s e ?ty) s'"
    "\<forall>v. ev_of s4 e v = (if v = type_of ?u \<and> list_at s e ?ty = [] then None else ev_of s3 e v)"
    using event_remove_last[where Q = "\<lambda>s''. s'' = set_list e (type_of ?u) (list_at s e ?ty) s'",
        OF el u(1) e' g hl(2) fresh td, of k] rr by blast
  have "run_remove (live_page (Suc (Suc k)) pg) e ''live'' l s' = Some s4"
    using r(1) by (simp add: run_remove_def live_page_hooks(4) live_remove_def hl(3))
  moreover have "ev_of s3 e v = (if v = ?ty then Some (list_at s e ?ty) else ev_of s' e v)" for v
    using e' by (simp add: r(2) u(2))
  then have "ev_of s4 e v = (if v = ''live'' then Some (list_at s e v) else ev_of s e v)" for v
    using r(3) ev' t(3) list_kept[OF old, symmetric] by (simp add: u(2))
  ultimately show ?thesis unfolding s'_def by blast
qed

lemma live_unbinds:
  assumes pg: "special_of pg (type_of t) = no_special" "event_elem pg e" and t: "proper t" "t \<noteq> ''*''" "type_of t \<noteq> ''live''"
    and b: "bound_live s e (type_of t) h ''live'' l s1" and hl: "hguid l = hguid h" "in_space (liveConvert t sel) h"
      "hlive l = Some \<lparr>lselector = sel, lorigType = t, lorigHandler = f, lpreType = pre\<rparr>"
    and ins: "in_space (''live.'' @ liveConvert t sel) l" and fg: "fguid s1 f = hguid l"
    and fresh: "\<forall>v. \<forall>k \<in> set (list_at s e v). hguid k \<noteq> hguid h" and old: "\<And>u. ev_of s e u \<noteq> Some []"
  shows "\<exists>s2. event_remove (live_page (Suc (Suc k)) pg) (Suc n) e (RTypes (''live.'' @ liveConvert t sel)) (HFun f) None s1 = Some s2 \<and>
    (\<forall>u. ev_of s2 e u = ev_of s e u)"
proof -
  let ?lp = "live_page (Suc (Suc k)) pg" and ?T = "''live.'' @ liveConvert t sel"
  let ?Q = "\<lambda>s2. \<forall>v. ev_of s2 e v = (if v = ''live'' then Some (list_at s e v) else ev_of s e v)"
  note T = live_type_facts[OF liveConvert_facts(1)[OF t(1,2), of sel]]
  have hook: "\<exists>s''. run_remove ?lp e ''live'' l s' = Some s'' \<and> ev_of s'' e ''live'' = Some (list_at s e ''live'') \<and> ?Q s''"
    if "s' = set_list e ''live'' (list_at s e ''live'') s1" for s'
    using live_hook_unbinds[OF pg t b hl _ old, of k] fresh unfolding that by auto
  have el: "event_elem ?lp e" using pg(2) by simp
  have e1: "ev_of s1 e (type_of ?T) = Some (list_at s e ''live'' @ [l])"
    using b unfolding T(2) by (simp add: bound_live_def)
  have g1: "harg_guid s1 (HFun f) = Some (hguid l)" by (simp add: harg_guid_def fg)
  have fr: "\<forall>k\<in>set (list_at s e ''live''). hguid k \<noteq> hguid l" using fresh hl(1) by simp
  have td: "s_teardown (special_of ?lp (type_of ?T)) = None" by (simp only: T(2) live_page_hooks)
  obtain s2 s3 where rm: "event_remove ?lp (Suc n) e (RTypes ?T) (HFun f) None s1 = Some s3" "?Q s2"
    "\<forall>v. ev_of s3 e v = (if v = type_of ?T \<and> list_at s e ''live'' = [] then None else ev_of s2 e v)"
    using event_remove_last[where Q = ?Q, OF el T(1) e1 g1 ins fr td, of n] hook unfolding T(2) by blast
  have "ev_of s3 e v = ev_of s e v" for v
    using rm(2,3) list_kept[OF old[of "''live''"]] unfolding T(2) by (auto split: if_splits)
  with rm(1) show ?thesis by blast
qed

text \<open>
  C23: on an element none of whose handlers has the guid of a function, one call of \<open>live\<close> with the function, for a single type that
  is neither special nor \<open>hover\<close> nor one of \<open>liveMap\<close>, binds the live handler to that type with the guid of the function, behind
  the handlers that were there; \<open>die\<close> with the same type, selector and function gives the element back the
  handlers it had, under all types.
\<close>

theorem die_undoes_live:
  assumes pg: "special_of pg (type_of t) = no_special" "event_elem pg e"
    and t: "proper t" "t \<noteq> ''*''" "type_of t \<notin> {''live'', ''hover''}" "liveMap (type_of t) = None"
    and f: "f \<noteq> liveHandler" "0 < gnext s"
    and old: "\<And>u. ev_of s e u \<noteq> Some []"
      "\<And>u hs h. ev_of s e u = Some hs \<Longrightarrow> h \<in> set hs \<Longrightarrow> hguid h \<noteq> fguid (give_guid f s) f"
  shows "\<exists>s1 h s2. live (live_page (Suc (Suc k)) pg) t (LData data) f sel [e] s = Some s1 \<and>
    ev_of s1 e (type_of t) = Some (list_at s e (type_of t) @ [h]) \<and> hfun h = liveHandler \<and>
    hguid h = fguid (give_guid f s) f \<and>
    die (live_page (Suc (Suc k)) pg) (Suc n) t (LData Null) (HFun f) orig sel [e] s1 = Some s2 \<and>
    (\<forall>u. ev_of s2 e u = ev_of s e u)"
proof -
  let ?lp = "live_page (Suc (Suc k)) pg" and ?g = "fguid (give_guid f s) f" and ?ty = "type_of t"
  let ?T = "''live.'' @ liveConvert t sel"
  define l where "l = new_hobj (Some (live_object data sel f t ?ty)) f Undefined ?T (give_guid f s)"
  have ty: "?ty \<noteq> ''live''" "?ty \<noteq> ''hover''" using t(3) by simp_all
  have gf: "?g \<noteq> 0" using f(2) by (simp add: give_guid_def)
  note T = live_type_facts[OF liveConvert_facts(1)[OF t(1,2), of sel]]
  obtain s1 h where add: "event_add ?lp e ?T (HObj (live_object data sel f t ?ty)) Undefined s = Some s1"
    and b: "bound_live s e ?ty h ''live'' l s1" and l: "hguid l = ?g"
      "hlive l = Some \<lparr>lselector = sel, lorigType = t, lorigHandler = f, lpreType = ?ty\<rparr>"
    and h: "hfun h = liveHandler" "hguid h = ?g" "in_space (liveConvert t sel) h" and fg: "fguid s1 f = ?g"
    using live_binds[OF pg t(1,2) ty(1) f(1) gf, where data = data and sel = sel and pre = "?ty" and k = "Suc k"] unfolding l_def by blast
  have "hguid k \<noteq> hguid h" if "k \<in> set (list_at s e v)" for v k
    using that old(2)[of v] h(2) by (cases "ev_of s e v") (auto simp: list_at_def)
  then have fresh: "\<forall>v. \<forall>k \<in> set (list_at s e v). hguid k \<noteq> hguid h" by blast
  have "in_space ?T l" unfolding l_def by (rule in_space_new[OF T(3)])
  moreover have "hguid l = hguid h" "fguid s1 f = hguid l" using l(1) h(2) fg by simp_all
  ultimately obtain s3 where rm: "event_remove ?lp (Suc n) e (RTypes ?T) (HFun f) None s1 = Some s3" "\<forall>u. ev_of s3 e u = ev_of s e u"
    using live_unbinds[OF pg t(1,2) ty(1) b _ h(3) l(2) _ _ fresh old(1), where k = k and n = n] by blast
  have "live ?lp t (LData data) f sel [e] s = Some s1"
    using add by (simp add: live_def single_type[OF t(1)] live_types_single[OF ty(2) t(4)] live_one_def live_data_def live_fun_def)
  moreover have "die ?lp (Suc n) t (LData Null) (HFun f) orig sel [e] s1 = Some s3"
    using rm(1) t(1) by (simp add: die_def single_type[OF t(1)] live_types_single[OF ty(2) t(4)] die_one_def live_fun_def unbind_def proper_def)
  moreover have "ev_of s1 e ?ty = Some (list_at s e ?ty @ [h])" using b ty(1) by (simp add: bound_live_def)
  ultimately show ?thesis using rm(2) h by auto
qed

section \<open>Taking turns\<close>

lemma toggles_count:
  assumes "fns \<noteq> []" and "tog this guid = None"
  shows "(case ((\<lambda>t. snd (toggler guid fns this t)) ^^ n) tog this guid of Some k \<Rightarrow> k | None \<Rightarrow> 0) mod length fns = n mod length fns"
proof (induction n)
  case (Suc n)
  then show ?case by (simp add: toggler_def Let_def mod_Suc_eq)
qed (simp add: assms(2))

text \<open>
  The function made by \<open>toggle\<close> calls its functions in turn: after \<open>n\<close> clicks on an element the next
  click runs the one at position \<open>n\<close>, modulo how many there are, and the turns of other elements and
  other functions do not change.
\<close>

theorem toggle_takes_turns:
  assumes "fns \<noteq> []" and "tog this guid = None"
  defines "clicks n \<equiv> ((\<lambda>t. snd (toggler guid fns this t)) ^^ n) tog"
  shows "fst (toggler guid fns this (clicks n)) = fns ! (n mod length fns) \<and>
    (\<forall>e g. (e, g) \<noteq> (this, guid) \<longrightarrow> clicks n e g = tog e g)"
proof -
  have "(e, g) \<noteq> (this, guid) \<Longrightarrow> clicks n e g = tog e g" for e g
    unfolding clicks_def by (induction n) (auto simp: toggler_def Let_def)
  then show ?thesis using toggles_count[where tog = tog, OF assms(1,2), of n] unfolding clicks_def[symmetric] by (simp add: toggler_def Let_def)
qed

section \<open>Witnesses\<close>

definition demo_live_env :: lenv where
  "demo_live_env = \<lparr>ldoc = demo_tree,
     lengine = demo_engine\<lparr>matchesSelector := (\<lambda>n s. (n = 3 \<and> s = ''a'') \<or> (n = 1 \<and> s = ''b''))\<rparr>,
     disabled = (\<lambda>n. False), contains = (\<lambda>a b. False)\<rparr>"

definition demo_bound :: "string \<Rightarrow> nat \<Rightarrow> hobj" where
  "demo_bound sel f = \<lparr>hfun = f, hdata = Str sel, hns = [sel, ''click''], htype = ''live'', hguid = f,
     hlive = Some \<lparr>lselector = sel, lorigType = ''click'', lorigHandler = f, lpreType = ''click''\<rparr>\<rparr>"

definition demo_live_world :: world where
  "demo_live_world = small_world\<lparr>reg := some_registry\<lparr>pdata := [0 \<mapsto>
     \<lparr>pevents = Some [(''live'', [demo_bound ''b'' 7, demo_bound ''a'' 9])], phandle = Some 0, prest = False\<rparr>],
     wraps := (\<lambda>f. None)\<rparr>\<rparr>"

definition demo_click :: event where
  "demo_click = (new_event ''click'')\<lparr>target := 3, currentTarget := 0\<rparr>"

lemma demo_path: "chain (parentNode demo_tree) (Some 3) ([3, 1] @ 0 # [])"
  by (simp add: demo_tree_def chain_simps)

lemma demo_live_facts:
  "ldoc demo_live_env = demo_tree" "target demo_click = 3" "currentTarget demo_click = 0" "etype demo_click = ''click''"
  "\<not> live_skip demo_live_env 0 demo_click demo_live_world"
  "ev_of (reg demo_live_world) 0 ''live'' = Some [demo_bound ''b'' 7, demo_bound ''a'' 9]"
  by (simp_all add: demo_live_env_def demo_click_def new_event_def live_skip_def demo_live_world_def ev_of_def ev_list_def)

text \<open>The handler of the target returns false, and the one of its parent, bound before it, is not called.\<close>

lemma demo_groups:
  "map (node_matches demo_live_env demo_click (filter (awaits ''click'') [demo_bound ''b'' 7, demo_bound ''a'' 9])) (enumerate 1 [3, 1])
   = [[(3, demo_bound ''a'' 9, 1)], [(1, demo_bound ''b'' 7, 2)]]"
  by (simp add: node_matches_def demo_bound_def awaits_def type_of_def selector_of_def closest_test_def demo_live_env_def
      demo_engine_def in_names_def no_names_def demo_click_def new_event_def numeral_2_eq_2)

theorem delegated_event_level_by_level_witness:
  "\<exists>ev w. live_handler quiet_site demo_live_env 0 [] demo_click demo_live_world = Some (Returned (Bool False, ev, w)) \<and>
     currentTarget ev = 3 \<and> edata ev = Str ''a''"
proof -
  let ?hs = "[demo_bound ''b'' 7, demo_bound ''a'' 9]"
  have "live_handler quiet_site demo_live_env 0 [] demo_click demo_live_world =
    Some (by_level quiet_site [] (map (node_matches demo_live_env demo_click (filter (awaits (etype demo_click)) ?hs))
      (enumerate 1 [3, 1])) Undefined (demo_click\<lparr>liveFired := Some 0\<rparr>, demo_live_world))"
  proof (rule delegated_event_level_by_level)
    show "chain (parentNode (ldoc demo_live_env)) (Some (target demo_click)) ([3, 1] @ 0 # [])"
      unfolding demo_live_facts by (rule demo_path)
    show "ev_of (reg demo_live_world) 0 ''live'' = Some ?hs" by (rule demo_live_facts(6))
    show "\<forall>c\<in>set [3, 1]. ntype (ldoc demo_live_env) c \<noteq> 9 \<and> c \<noteq> 0" by (simp add: demo_live_facts demo_tree_def)
    show "currentTarget demo_click = 0" "\<not> live_skip demo_live_env 0 demo_click demo_live_world" by (rule demo_live_facts)+
    show "\<forall>h\<in>set ?hs. hlive h \<noteq> None" "\<forall>h\<in>set ?hs. awaits (etype demo_click) h \<longrightarrow> \<not> mouse_type h"
      by (simp_all add: demo_bound_def mouse_type_def pre_type_def)
  qed
  then show ?thesis
    unfolding demo_live_facts demo_groups
    by (simp add: live_call_def call_fun_def quiet_site_def demo_live_world_def demo_bound_def demo_click_def new_event_def Let_def)
qed

theorem die_undoes_live_witness:
  "\<exists>s1 h s2. live (script_page 2 (\<lambda>_. False) some_page) ''click.n'' (LData Null) 9 ''a b'' [5] some_registry = Some s1 \<and>
    ev_of s1 5 ''click'' = Some (list_at some_registry 5 ''click'' @ [h]) \<and> hfun h = liveHandler \<and>
    die (script_page 2 (\<lambda>_. False) some_page) 1 ''click.n'' (LData Null) (HFun 9) None ''a b'' [5] s1 = Some s2 \<and>
    (\<forall>u. ev_of s2 5 u = ev_of some_registry 5 u)"
proof -
  obtain pg where sp: "script_page 2 (\<lambda>_. False) some_page = live_page (Suc (Suc 0)) pg" "special_of pg (type_of ''click.n'') = no_special"
      "event_elem pg 5"
    by (simp add: script_page_def numeral_2_eq_2 type_of_def event_elem_def some_page_def is_text_def)
  have "\<exists>s1 h s2. live (live_page (Suc (Suc 0)) pg) ''click.n'' (LData Null) 9 ''a b'' [5] some_registry = Some s1 \<and>
    ev_of s1 5 (type_of ''click.n'') = Some (list_at some_registry 5 (type_of ''click.n'') @ [h]) \<and> hfun h = liveHandler \<and>
    hguid h = fguid (give_guid 9 some_registry) 9 \<and>
    die (live_page (Suc (Suc 0)) pg) (Suc 0) ''click.n'' (LData Null) (HFun 9) None ''a b'' [5] s1 = Some s2 \<and>
    (\<forall>u. ev_of s2 5 u = ev_of some_registry 5 u)"
  proof (rule die_undoes_live[OF sp(2,3)])
    show "proper ''click.n''" "''click.n'' \<noteq> ''*''" "type_of ''click.n'' \<notin> {''live'', ''hover''}" "liveMap (type_of ''click.n'') = None"
      by (simp_all add: proper_def type_of_def liveMap_def)
    show "9 \<noteq> liveHandler" "0 < gnext some_registry" by (simp_all add: liveHandler_def some_registry_def)
    show "ev_of some_registry 5 u \<noteq> Some []" for u using ev_of_ok[OF some_registry_inv, of 5 u] by auto
    show "hguid h \<noteq> fguid (give_guid 9 some_registry) 9" if "ev_of some_registry 5 u = Some hs" "h \<in> set hs" for u hs h
      using that by (auto simp: some_registry_def ev_of_def ev_list_def give_guid_def some_handler_def split: if_splits)
  qed
  then show ?thesis unfolding sp(1) by (auto simp: type_of_def)
qed

theorem toggle_takes_turns_witness:
  "fst (toggler 4 [7, 9] 5 (((\<lambda>t. snd (toggler 4 [7, 9] 5 t)) ^^ 3) (\<lambda>e g. None))) = 9"
  using toggle_takes_turns[of "[7, 9]" "\<lambda>e g. None" 5 4 3] by (simp add: numeral_3_eq_3 mod_Suc)

end
