(* ===== verification/JQ_Attr.thy ===== *)
theory JQ_Attr
  imports JQ_Prelude "HOL-Library.Monad_Syntax"
begin

text \<open>
  Attributes, properties and form values in jquery-1.6.4.js: \<open>attr\<close>, \<open>removeAttr\<close>, \<open>prop\<close>, \<open>removeProp\<close>, \<open>val\<close> and their
  tables of fixes and hooks.

  A node has attributes and properties. The browser carries some of them over to one another; what it
  does after a write is an argument, and so are the spelling it gives to attribute names and the results
  of the feature tests. Left out are the hooks for the style attribute and for the selected property
  of old browsers, and names that every object inherits.
\<close>

section \<open>Nodes and browsers\<close>

record node =
  nkind :: nat \<comment> \<open>\<open>nodeType\<close>\<close>
  ntag :: string \<comment> \<open>\<open>nodeName\<close>\<close>
  nprops :: "jsval props"
  nattrs :: "string props"
  nxml :: bool \<comment> \<open>\<open>isXMLDoc\<close>\<close>
  nhasattr :: bool \<comment> \<open>\<open>"getAttribute" in elem\<close>\<close>
  nparent :: bool \<comment> \<open>whether there is a \<open>parentNode\<close>\<close>

record browser =
  getSetAttribute :: bool
  hrefNormalized :: bool
  radioValue :: bool
  checkOn :: bool
  optDisabled :: bool
  canon :: "string \<Rightarrow> string" \<comment> \<open>spelling of attribute names\<close>
  specified :: "node \<Rightarrow> string \<Rightarrow> bool" \<comment> \<open>of an attribute that is there\<close>
  attr_written :: "string \<Rightarrow> node \<Rightarrow> node"
  prop_written :: "string \<Rightarrow> node \<Rightarrow> node"
  ref_text :: "nat \<Rightarrow> string" \<comment> \<open>an object as a text\<close>
  nan :: jsval \<comment> \<open>\<open>NaN\<close>, which the values do not have\<close>

definition text_form :: "browser \<Rightarrow> jsval \<Rightarrow> string" where
  "text_form b v = (case v of
      Undefined \<Rightarrow> ''undefined'' | Null \<Rightarrow> ''null'' | Bool x \<Rightarrow> (if x then ''true'' else ''false'')
    | Num i \<Rightarrow> show_int i | Str s \<Rightarrow> s | Ref a \<Rightarrow> ref_text b a)"

definition getAttribute :: "browser \<Rightarrow> string \<Rightarrow> node \<Rightarrow> string option" where
  "getAttribute b name n = map_of (nattrs n) (canon b name)"

definition setAttribute :: "browser \<Rightarrow> string \<Rightarrow> string \<Rightarrow> node \<Rightarrow> node" where
  "setAttribute b name v n = attr_written b name (n\<lparr>nattrs := AList.update (canon b name) v (nattrs n)\<rparr>)"

definition removeAttribute :: "browser \<Rightarrow> string \<Rightarrow> node \<Rightarrow> node" where
  "removeAttribute b name n = attr_written b name (n\<lparr>nattrs := AList.delete (canon b name) (nattrs n)\<rparr>)"

definition has_prop :: "string \<Rightarrow> node \<Rightarrow> bool" where
  "has_prop name n \<longleftrightarrow> map_of (nprops n) name \<noteq> None"

definition set_prop :: "browser \<Rightarrow> string \<Rightarrow> jsval \<Rightarrow> node \<Rightarrow> node" where
  "set_prop b name v n = prop_written b name (n\<lparr>nprops := AList.update name v (nprops n)\<rparr>)"

section \<open>Tables\<close>

definition rtype :: "string \<Rightarrow> bool" where
  "rtype s \<longleftrightarrow> to_lower s \<in> {''button'', ''input''}"

definition rfocusable :: "string \<Rightarrow> bool" where
  "rfocusable s \<longleftrightarrow> to_lower s \<in> {''button'', ''input'', ''object'', ''select'', ''textarea''}"

definition rclickable :: "string \<Rightarrow> bool" where
  "rclickable s \<longleftrightarrow> to_lower s \<in> {''a'', ''area''}"

definition rboolean :: "string \<Rightarrow> bool" where
  "rboolean s \<longleftrightarrow> to_lower s \<in> {''autofocus'', ''autoplay'', ''async'', ''checked'', ''controls'', ''defer'', ''disabled'',
     ''hidden'', ''loop'', ''multiple'', ''open'', ''readonly'', ''required'', ''scoped'', ''selected''}"

definition nodeName :: "node \<Rightarrow> string \<Rightarrow> bool" where
  "nodeName n s \<longleftrightarrow> to_upper (ntag n) = to_upper s"

definition attrFix :: "string \<Rightarrow> string" where
  "attrFix name = (if name = ''tabindex'' then ''tabIndex'' else name)"

definition propFix_table :: "(string \<times> string) list" where
  "propFix_table = [(''tabindex'', ''tabIndex''), (''readonly'', ''readOnly''), (''for'', ''htmlFor''), (''class'', ''className''),
     (''maxlength'', ''maxLength''), (''cellspacing'', ''cellSpacing''), (''cellpadding'', ''cellPadding''), (''rowspan'', ''rowSpan''),
     (''colspan'', ''colSpan''), (''usemap'', ''useMap''), (''frameborder'', ''frameBorder''), (''contenteditable'', ''contentEditable'')]"

definition propFix :: "string \<Rightarrow> string" where
  "propFix name = get_or name propFix_table name"

section \<open>Properties\<close>

text \<open>\<open>parseInt(text, 10)\<close>: leading space, a sign, digits.\<close>

fun digits_value :: "int \<Rightarrow> string \<Rightarrow> int" where
  "digits_value acc [] = acc"
| "digits_value acc (c # cs) = (if is_digit c then digits_value (10 * acc + int (of_char c - 48)) cs else acc)"

definition parse_int :: "string \<Rightarrow> int option" where
  "parse_int s =
     (let t = dropWhile is_space s;
          neg = (t \<noteq> [] \<and> hd t = CHR ''-'');
          u = (if t \<noteq> [] \<and> (hd t = CHR ''-'' \<or> hd t = CHR ''+'') then tl t else t)
      in if u = [] \<or> \<not> is_digit (hd u) then None
         else Some (if neg then - digits_value 0 u else digits_value 0 u))"

definition tabIndex_get :: "browser \<Rightarrow> node \<Rightarrow> jsval" where
  "tabIndex_get b n =
     (case getAttribute b ''tabindex'' n of
        Some v \<Rightarrow> if specified b n ''tabindex'' then (case parse_int v of Some i \<Rightarrow> Num i | None \<Rightarrow> nan b)
                  else if rfocusable (ntag n) \<or> rclickable (ntag n) \<and> truthy (pget (nprops n) ''href'') then Num 0 else Undefined
      | None \<Rightarrow> if rfocusable (ntag n) \<or> rclickable (ntag n) \<and> truthy (pget (nprops n) ''href'') then Num 0 else Undefined)"

definition untouchable :: "node \<Rightarrow> bool" where
  "untouchable n \<longleftrightarrow> nkind n = 3 \<or> nkind n = 8 \<or> nkind n = 2"

definition notxml :: "node \<Rightarrow> bool" where
  "notxml n \<longleftrightarrow> nkind n \<noteq> 1 \<or> \<not> nxml n"

definition jq_prop :: "browser \<Rightarrow> string \<Rightarrow> jsval \<Rightarrow> node \<Rightarrow> jsval \<times> node" where
  "jq_prop b name value n =
     (if untouchable n then (Undefined, n)
      else let name1 = (if notxml n then propFix name else name)
           in if value \<noteq> Undefined then (value, set_prop b name1 value n)
              else if notxml n \<and> name1 = ''tabIndex'' \<and> tabIndex_get b n \<noteq> Null then (tabIndex_get b n, n)
              else (pget (nprops n) name1, n))"

definition removeProp :: "browser \<Rightarrow> string \<Rightarrow> node \<Rightarrow> node" where
  "removeProp b name n =
     (let name1 = propFix name; n1 = set_prop b name1 Undefined n
      in n1\<lparr>nprops := AList.delete name1 (nprops n1)\<rparr>)"

section \<open>Attributes\<close>

datatype ahook = TypeHook | ValueHook | TabIndexHook | HrefHook | SizeHook | BoolHook | NodeHook

definition attr_hook :: "browser \<Rightarrow> string \<Rightarrow> ahook option" where
  "attr_hook b name =
     (if name = ''type'' then Some TypeHook
      else if name = ''value'' then Some ValueHook
      else if name = ''tabIndex'' then Some TabIndexHook
      else if (name = ''width'' \<or> name = ''height'') \<and> \<not> (getSetAttribute b \<and> hrefNormalized b) then Some SizeHook
      else if (name = ''href'' \<or> name = ''src'') \<and> \<not> hrefNormalized b then Some HrefHook
      else if rboolean name then Some BoolHook
      else if \<not> getSetAttribute b then Some NodeHook
      else None)"

definition or_undefined :: "string option \<Rightarrow> jsval" where
  "or_undefined v = (case v of Some s \<Rightarrow> Str s | None \<Rightarrow> Undefined)"

definition node_get :: "browser \<Rightarrow> string \<Rightarrow> node \<Rightarrow> jsval" where
  "node_get b name n = (case getAttribute b name n of Some s \<Rightarrow> (if s \<noteq> [] then Str s else Undefined) | None \<Rightarrow> Undefined)"

definition node_set :: "browser \<Rightarrow> string \<Rightarrow> jsval \<Rightarrow> node \<Rightarrow> jsval \<times> node" where
  "node_set b name value n = (Str (text_form b value), setAttribute b name (text_form b value) n)"

definition value_get :: "browser \<Rightarrow> string \<Rightarrow> node \<Rightarrow> jsval" where
  "value_get b name n =
     (if \<not> getSetAttribute b \<and> nodeName n ''button'' then node_get b name n
      else if has_prop name n then pget (nprops n) ''value'' else Null)"

definition value_set :: "browser \<Rightarrow> string \<Rightarrow> jsval \<Rightarrow> node \<Rightarrow> jsval \<times> node" where
  "value_set b name value n =
     (if \<not> getSetAttribute b \<and> nodeName n ''button'' then node_set b name value n
      else (Undefined, set_prop b ''value'' value n))"

definition bool_get :: "browser \<Rightarrow> string \<Rightarrow> node \<Rightarrow> jsval" where
  "bool_get b name n =
     (if fst (jq_prop b name Undefined n) = Bool True \<or> getAttribute b name n \<noteq> None
      then Str (to_lower name) else Undefined)"

text \<open>The branch for a value other than \<open>false\<close>.\<close>

definition bool_set :: "browser \<Rightarrow> string \<Rightarrow> node \<Rightarrow> jsval \<times> node" where
  "bool_set b name n =
     (let p = propFix name; n1 = (if has_prop p n then set_prop b p (Bool True) n else n)
      in (Str name, setAttribute b name (to_lower name) n1))"

definition size_set :: "browser \<Rightarrow> string \<Rightarrow> jsval \<Rightarrow> node \<Rightarrow> jsval \<times> node" where
  "size_set b name value n = (if value = Str [] then (value, setAttribute b name ''auto'' n) else (Undefined, n))"

text \<open>What the hooks give for a read; \<open>None\<close> is a hook without a \<open>get\<close>.\<close>

definition hook_get :: "browser \<Rightarrow> ahook \<Rightarrow> string \<Rightarrow> node \<Rightarrow> jsval option" where
  "hook_get b hk name n = (case hk of
      TypeHook \<Rightarrow> None
    | ValueHook \<Rightarrow> Some (value_get b name n)
    | TabIndexHook \<Rightarrow> Some (tabIndex_get b n)
    | HrefHook \<Rightarrow> Some (or_undefined (getAttribute b name n))
    | SizeHook \<Rightarrow> if hrefNormalized b then None else Some (or_undefined (getAttribute b name n))
    | BoolHook \<Rightarrow> Some (bool_get b name n)
    | NodeHook \<Rightarrow> Some (node_get b name n))"

definition type_set :: "browser \<Rightarrow> jsval \<Rightarrow> node \<Rightarrow> (jsval \<times> node) outcome" where
  "type_set b value n =
     (if rtype (ntag n) \<and> nparent n then Threw (Str ''type property can't be changed'', n)
      else if \<not> radioValue b \<and> value = Str ''radio'' \<and> nodeName n ''input'' then
        let val = pget (nprops n) ''value''; n1 = setAttribute b ''type'' ''radio'' n
        in Returned (value, if truthy val then set_prop b ''value'' val n1 else n1)
      else Returned (Undefined, n))"

text \<open>The hooks for a write of a value other than \<open>false\<close>; a hook without a \<open>set\<close> is one that returns \<open>undefined\<close>.\<close>

definition hook_set :: "browser \<Rightarrow> ahook \<Rightarrow> string \<Rightarrow> jsval \<Rightarrow> node \<Rightarrow> (jsval \<times> node) outcome" where
  "hook_set b hk name value n = (case hk of
      TypeHook \<Rightarrow> type_set b value n
    | ValueHook \<Rightarrow> Returned (value_set b name value n)
    | TabIndexHook \<Rightarrow> Returned (Undefined, n)
    | HrefHook \<Rightarrow> Returned (Undefined, n)
    | SizeHook \<Rightarrow> Returned (if getSetAttribute b then (Undefined, n) else size_set b name value n)
    | BoolHook \<Rightarrow> Returned (bool_set b name n)
    | NodeHook \<Rightarrow> Returned (node_set b name value n))"

text \<open>
  \<open>jQuery.attr\<close>, given the removal that it calls for \<open>null\<close> and for a boolean attribute set to \<open>false\<close>. The
  removal itself calls it with an empty text, which leads to neither.
\<close>

definition attr_with :: "browser \<Rightarrow> (string \<Rightarrow> node \<Rightarrow> (jsval \<times> node) outcome) \<Rightarrow> string \<Rightarrow> jsval \<Rightarrow> node \<Rightarrow> (jsval \<times> node) outcome" where
  "attr_with b remove name value n =
     (if untouchable n then Returned (Undefined, n)
      else if \<not> nhasattr n then Returned (jq_prop b name value n)
      else
        let name1 = (if notxml n then attrFix name else name);
            hook = (if notxml n then attr_hook b name1 else None)
        in if value = Undefined then
             (case hook of
                Some hk \<Rightarrow> (case hook_get b hk name1 n of
                    Some v \<Rightarrow> if v \<noteq> Null then Returned (v, n) else Returned (or_undefined (getAttribute b name1 n), n)
                  | None \<Rightarrow> Returned (or_undefined (getAttribute b name1 n), n))
              | None \<Rightarrow> Returned (or_undefined (getAttribute b name1 n), n))
           else if value = Null then and_then (remove name1 n) (\<lambda>(_, n1). Returned (Undefined, n1))
           else if hook = Some BoolHook \<and> value = Bool False
             then and_then (remove name1 n) (\<lambda>(_, n1). Returned (Str name1, n1))
           else and_then (case hook of Some hk \<Rightarrow> hook_set b hk name1 value n | None \<Rightarrow> Returned (Undefined, n))
             (\<lambda>(ret, n1). if ret \<noteq> Undefined then Returned (ret, n1)
               else Returned (value, setAttribute b name1 (text_form b value) n1)))"

definition remove_with :: "browser \<Rightarrow> (string \<Rightarrow> jsval \<Rightarrow> node \<Rightarrow> (jsval \<times> node) outcome) \<Rightarrow> string \<Rightarrow> node \<Rightarrow> (jsval \<times> node) outcome" where
  "remove_with b attr name n =
     (if nkind n \<noteq> 1 then Returned (Undefined, n)
      else let name1 = attrFix name
           in and_then (attr name1 (Str []) n) (\<lambda>(_, n1).
                let n2 = removeAttribute b name1 n1; p = propFix name1
                in Returned (Undefined, if rboolean name1 \<and> has_prop p n2 then set_prop b p (Bool False) n2 else n2)))"

definition removeAttr :: "browser \<Rightarrow> string \<Rightarrow> node \<Rightarrow> (jsval \<times> node) outcome" where
  "removeAttr b = remove_with b (attr_with b (\<lambda>name n. Returned (Undefined, n)))"

definition jq_attr :: "browser \<Rightarrow> string \<Rightarrow> jsval \<Rightarrow> node \<Rightarrow> (jsval \<times> node) outcome" where
  "jq_attr b = attr_with b (removeAttr b)"

lemma removeAttr_code: "removeAttr b = remove_with b (jq_attr b)"
proof -
  have "attr_with b (\<lambda>name n. Returned (Undefined, n)) name (Str []) n = jq_attr b name (Str []) n" for name n
    unfolding jq_attr_def by (simp add: attr_with_def)
  then show ?thesis by (simp add: fun_eq_iff removeAttr_def remove_with_def)
qed

section \<open>Form values\<close>

text \<open>
  The nodes of a form with the options of its selects. Which option is the first selected one and what else a
  select changes when the selection of an option is assigned are the browser's: \<open>assign_selected\<close> assigns
  \<open>selected\<close>, \<open>unselect\<close> assigns -1 to \<open>selectedIndex\<close>.
\<close>

record form =
  nodes :: "nat \<Rightarrow> node"
  options_of :: "nat \<Rightarrow> nat list"
  found :: "nat \<Rightarrow> nat list" \<comment> \<open>\<open>jQuery(elem).find("option")\<close>\<close>
  parent_of :: "nat \<Rightarrow> nat option"

record chooser =
  selectedIndex :: "form \<Rightarrow> nat \<Rightarrow> int"
  assign_selected :: "nat \<Rightarrow> nat \<Rightarrow> bool \<Rightarrow> form \<Rightarrow> form"
  unselect :: "nat \<Rightarrow> form \<Rightarrow> form"

datatype vval = VOne jsval | VMany "jsval list"

definition set_node :: "nat \<Rightarrow> node \<Rightarrow> form \<Rightarrow> form" where
  "set_node e n w = w\<lparr>nodes := (nodes w)(e := n)\<rparr>"

definition rreturn :: "string \<Rightarrow> string" where
  "rreturn s = filter (\<lambda>c. c \<noteq> CHR 0x0D) s"

datatype vhook = OptionHook | SelectHook | RadioHook | ButtonHook

definition val_hook_named :: "browser \<Rightarrow> string \<Rightarrow> vhook option" where
  "val_hook_named b s =
     (if s = ''option'' then Some OptionHook else if s = ''select'' then Some SelectHook
      else if s = ''radio'' \<or> s = ''checkbox'' then Some RadioHook
      else if s = ''button'' \<and> \<not> getSetAttribute b then Some ButtonHook else None)"

definition val_hook :: "browser \<Rightarrow> node \<Rightarrow> vhook option" where
  "val_hook b n = (case val_hook_named b (to_lower (ntag n)) of
      Some hk \<Rightarrow> Some hk
    | None \<Rightarrow> val_hook_named b (text_form b (pget (nprops n) ''type'')))"

definition common_val :: "node \<Rightarrow> jsval" where
  "common_val n = (case pget (nprops n) ''value'' of
      Str s \<Rightarrow> Str (rreturn s) | Undefined \<Rightarrow> Str [] | Null \<Rightarrow> Str [] | v \<Rightarrow> v)"

definition option_get :: "browser \<Rightarrow> node \<Rightarrow> jsval" where
  "option_get b n = (if getAttribute b ''value'' n = None \<or> specified b n ''value''
     then pget (nprops n) ''value'' else pget (nprops n) ''text'')"

text \<open>\<open>val()\<close> of a node that is not a select, such as an option.\<close>

definition node_val :: "browser \<Rightarrow> node \<Rightarrow> jsval" where
  "node_val b n = (let ret = (case val_hook b n of
        Some OptionHook \<Rightarrow> option_get b n
      | Some RadioHook \<Rightarrow> if checkOn b then Undefined
          else if getAttribute b ''value'' n = None then Str ''on'' else pget (nprops n) ''value''
      | Some ButtonHook \<Rightarrow> node_get b ''value'' n
      | _ \<Rightarrow> Undefined)
   in if ret \<noteq> Undefined then ret else common_val n)"

definition selectable :: "browser \<Rightarrow> form \<Rightarrow> nat \<Rightarrow> bool" where
  "selectable b w i \<longleftrightarrow>
     truthy (pget (nprops (nodes w i)) ''selected'') \<and>
     (if optDisabled b then \<not> truthy (pget (nprops (nodes w i)) ''disabled'') else getAttribute b ''disabled'' (nodes w i) = None) \<and>
     (case parent_of w i of
        Some p \<Rightarrow> \<not> truthy (pget (nprops (nodes w p)) ''disabled'') \<or> \<not> nodeName (nodes w p) ''optgroup''
      | None \<Rightarrow> True)"

text \<open>The value of a select; \<open>None\<close> is an index that no option has, whose use throws.\<close>

definition select_get :: "browser \<Rightarrow> chooser \<Rightarrow> form \<Rightarrow> nat \<Rightarrow> vval option" where
  "select_get b ch w e =
     (let index = selectedIndex ch w e; options = options_of w e;
          one = (pget (nprops (nodes w e)) ''type'' = Str ''select-one'')
      in if index < 0 then Some (VOne Null)
         else if one then
           (if nat index < length options then
              let i = options ! nat index
              in if selectable b w i then Some (VOne (node_val b (nodes w i)))
                 else Some (VOne (node_val b (nodes w (options ! nat index))))
            else None)
         else Some (VMany (map (\<lambda>i. node_val b (nodes w i)) (filter (selectable b w) options))))"

definition fn_val_get :: "browser \<Rightarrow> chooser \<Rightarrow> form \<Rightarrow> nat \<Rightarrow> vval option" where
  "fn_val_get b ch w e =
     (if val_hook b (nodes w e) = Some SelectHook then select_get b ch w e
      else Some (VOne (node_val b (nodes w e))))"

text \<open>The value given to \<open>val\<close>, made a text or a list of texts.\<close>

definition val_text :: "browser \<Rightarrow> vval \<Rightarrow> vval" where
  "val_text b v = (case v of
      VOne Undefined \<Rightarrow> VOne (Str []) | VOne Null \<Rightarrow> VOne (Str [])
    | VOne (Num i) \<Rightarrow> VOne (Str (show_int i)) | VOne x \<Rightarrow> VOne x
    | VMany xs \<Rightarrow> VMany (map (\<lambda>x. if nullish x then Str [] else Str (text_form b x)) xs))"

definition make_values :: "vval \<Rightarrow> jsval list" where
  "make_values v = (case v of VOne x \<Rightarrow> [x] | VMany xs \<Rightarrow> xs)"

fun select_each :: "browser \<Rightarrow> chooser \<Rightarrow> nat \<Rightarrow> jsval list \<Rightarrow> nat list \<Rightarrow> form \<Rightarrow> form" where
  "select_each b ch e values [] w = w"
| "select_each b ch e values (i # js) w =
     select_each b ch e values js (assign_selected ch e i (node_val b (nodes w i) \<in> set values) w)"

definition select_set :: "browser \<Rightarrow> chooser \<Rightarrow> nat \<Rightarrow> vval \<Rightarrow> form \<Rightarrow> form" where
  "select_set b ch e v w =
     (let values = make_values v; w1 = select_each b ch e values (found w e) w
      in if values = [] then unselect ch e w1 else w1)"

fun comma_join :: "string list \<Rightarrow> string" where
  "comma_join [] = []"
| "comma_join [x] = x"
| "comma_join (x # xs) = x @ CHR '','' # comma_join xs"

definition value_text :: "browser \<Rightarrow> vval \<Rightarrow> jsval" where
  "value_text b v = (case v of VOne x \<Rightarrow> x | VMany xs \<Rightarrow> Str (comma_join (map (text_form b) xs)))"

definition val_set_one :: "browser \<Rightarrow> chooser \<Rightarrow> vval \<Rightarrow> nat \<Rightarrow> form \<Rightarrow> form" where
  "val_set_one b ch v0 e w =
     (let n = nodes w e; v = val_text b v0; plain_set = set_node e (set_prop b ''value'' (value_text b v) n) w
      in if nkind n \<noteq> 1 then w
         else case val_hook b n of
             Some SelectHook \<Rightarrow> select_set b ch e v w
           | Some RadioHook \<Rightarrow> (case v of
               VMany xs \<Rightarrow> set_node e (set_prop b ''checked'' (Bool (node_val b n \<in> set xs)) n) w
             | VOne x \<Rightarrow> plain_set)
           | Some ButtonHook \<Rightarrow> set_node e (setAttribute b ''value'' (text_form b (value_text b v)) n) w
           | _ \<Rightarrow> plain_set)"

text \<open>A value for all elements, or a function of the position and the old value.\<close>

datatype varg = VVal vval | VFun "nat \<Rightarrow> vval \<Rightarrow> vval"

fun val_each :: "browser \<Rightarrow> chooser \<Rightarrow> varg \<Rightarrow> nat \<Rightarrow> nat list \<Rightarrow> form \<Rightarrow> form option" where
  "val_each b ch a k [] w = Some w"
| "val_each b ch a k (e # es) w =
     (case a of
        VVal v \<Rightarrow> val_each b ch a (Suc k) es (val_set_one b ch v e w)
      | VFun f \<Rightarrow>
          (if nkind (nodes w e) \<noteq> 1 then val_each b ch a (Suc k) es w
           else case fn_val_get b ch w e of
               None \<Rightarrow> None
             | Some old \<Rightarrow> val_each b ch a (Suc k) es (val_set_one b ch (f k old) e w)))"

definition fn_val_set :: "browser \<Rightarrow> chooser \<Rightarrow> varg \<Rightarrow> nat list \<Rightarrow> form \<Rightarrow> form option" where
  "fn_val_set b ch a this w = val_each b ch a 0 this w"

section \<open>What the browser is relied on for\<close>

text \<open>
  Writing an attribute or a property leaves what the node is; the properties carried over by the browser
  leave the attributes, a written property keeps its value, and one that was made false gives the node no
  attribute.
\<close>

definition same_kind :: "node \<Rightarrow> node \<Rightarrow> bool" where
  "same_kind n m \<longleftrightarrow> nkind m = nkind n \<and> ntag m = ntag n \<and> nxml m = nxml n \<and> nhasattr m = nhasattr n \<and> nparent m = nparent n"

definition regular :: "browser \<Rightarrow> bool" where
  "regular b \<longleftrightarrow>
     (\<forall>name n. same_kind n (attr_written b name n) \<and> nattrs (attr_written b name n) = nattrs n) \<and>
     (\<forall>name n. same_kind n (prop_written b name n) \<and> map_of (nprops (prop_written b name n)) name = map_of (nprops n) name) \<and>
     (\<forall>name n k. pget (nprops n) name = Bool False \<longrightarrow> map_of (nattrs n) k = None \<longrightarrow>
        map_of (nattrs (prop_written b name n)) k = None)"

definition html_element :: "node \<Rightarrow> bool" where
  "html_element n \<longleftrightarrow> nkind n = 1 \<and> \<not> nxml n \<and> nhasattr n"

lemma html_frame: "same_kind n m \<Longrightarrow> html_element m = html_element n"
  by (simp add: same_kind_def html_element_def)

lemma html_facts [simp]:
  "html_element n \<Longrightarrow> \<not> untouchable n" "html_element n \<Longrightarrow> notxml n" "html_element n \<Longrightarrow> nhasattr n" "html_element n \<Longrightarrow> nkind n = 1"
  by (simp_all add: html_element_def untouchable_def notxml_def)

lemma text_form_Str [simp]: "text_form b (Str s) = s"
  by (simp add: text_form_def)

lemma same_kind_record [simp]: "same_kind n (n\<lparr>nattrs := a\<rparr>)" "same_kind n (n\<lparr>nprops := p\<rparr>)"
  by (simp_all add: same_kind_def)

lemma same_kind_trans: "same_kind a b \<Longrightarrow> same_kind b c \<Longrightarrow> same_kind a c"
  by (simp add: same_kind_def)

lemma setAttribute_facts:
  assumes "regular b"
  shows "same_kind n (setAttribute b k v n)" "getAttribute b k (setAttribute b k v n) = Some v"
    "same_kind n (removeAttribute b k n)" "getAttribute b k (removeAttribute b k n) = None"
proof -
  have k: "same_kind m (attr_written b k m)" "nattrs (attr_written b k m) = nattrs m" for m
    using assms by (simp_all add: regular_def)
  show "same_kind n (setAttribute b k v n)" "same_kind n (removeAttribute b k n)"
    unfolding setAttribute_def removeAttribute_def using k(1) same_kind_trans same_kind_record(1) by blast+
  show "getAttribute b k (setAttribute b k v n) = Some v" "getAttribute b k (removeAttribute b k n) = None"
    by (simp_all add: getAttribute_def setAttribute_def removeAttribute_def k(2) update_conv' delete_conv')
qed

lemma set_prop_facts:
  assumes "regular b"
  shows "same_kind n (set_prop b k v n)" "pget (nprops (set_prop b k v n)) k = v"
    "v = Bool False \<Longrightarrow> getAttribute b a n = None \<Longrightarrow> getAttribute b a (set_prop b k v n) = None"
proof -
  have k: "same_kind m (prop_written b k m)" "map_of (nprops (prop_written b k m)) k = map_of (nprops m) k" for m
    using assms by (simp_all add: regular_def)
  show "same_kind n (set_prop b k v n)"
    unfolding set_prop_def using k(1) same_kind_trans same_kind_record(2) by blast
  show "pget (nprops (set_prop b k v n)) k = v"
    by (simp add: set_prop_def get_or_def k(2) update_conv')
  show "getAttribute b a (set_prop b k v n) = None" if "v = Bool False" "getAttribute b a n = None"
  proof -
    have "pget (nprops (n\<lparr>nprops := AList.update k v (nprops n)\<rparr>)) k = Bool False" using that(1) by simp
    with assms that(2) show ?thesis unfolding regular_def getAttribute_def set_prop_def by simp
  qed
qed

lemma html_set_prop: "regular b \<Longrightarrow> html_element n \<Longrightarrow> html_element (if P then set_prop b k v n else n)"
  using html_frame[OF set_prop_facts(1)[of b n k v]] by simp

lemma html_set_attr: "regular b \<Longrightarrow> html_element n \<Longrightarrow> html_element (setAttribute b k v n) \<and> html_element (removeAttribute b k n)"
  using html_frame setAttribute_facts(1,3) by blast

text \<open>
  An attribute without a hook that was set to a value is read back as its text, and is undefined
  after it was removed; both calls return.
\<close>

theorem attr_roundtrip:
  assumes b: "regular b" and n: "html_element n" and k: "attr_hook b (attrFix name) = None" and v: "v \<noteq> Undefined" "v \<noteq> Null"
  shows "\<exists>n1 n2. jq_attr b name v n = Returned (v, n1) \<and> jq_attr b name Undefined n1 = Returned (Str (text_form b v), n1) \<and>
    removeAttr b name n1 = Returned (Undefined, n2) \<and> jq_attr b name Undefined n2 = Returned (Undefined, n2)"
proof -
  let ?k = "attrFix name"
  let ?n1 = "setAttribute b ?k (text_form b v) n"
  let ?n2 = "removeAttribute b ?k (setAttribute b ?k [] ?n1)"
  note a = setAttribute_facts[OF b]
  have idem: "attrFix ?k = ?k" by (simp add: attrFix_def)
  have nb: "\<not> rboolean ?k" using k by (auto simp: attr_hook_def split: if_splits)
  have h1: "html_element ?n1" using a(1) n html_frame by blast
  have h2: "html_element ?n2" using a(1,3) h1 html_frame by blast
  have "jq_attr b name v n = Returned (v, ?n1)"
    using n k v by (simp add: jq_attr_def attr_with_def Let_def)
  moreover have "jq_attr b name Undefined ?n1 = Returned (Str (text_form b v), ?n1)"
    using h1 k a(2) by (simp add: jq_attr_def attr_with_def or_undefined_def Let_def)
  moreover have "removeAttr b name ?n1 = Returned (Undefined, ?n2)"
    using h1 k nb idem by (simp add: removeAttr_def remove_with_def attr_with_def Let_def)
  moreover have "jq_attr b name Undefined ?n2 = Returned (Undefined, ?n2)"
    using h2 k a(4) by (simp add: jq_attr_def attr_with_def or_undefined_def Let_def)
  ultimately show ?thesis by blast
qed

lemma not_boolean:
  "\<not> rboolean ''type''" "\<not> rboolean ''value''" "\<not> rboolean ''tabindex''" "\<not> rboolean ''tabIndex''"
  "\<not> rboolean ''width''" "\<not> rboolean ''height''" "\<not> rboolean ''href''" "\<not> rboolean ''src''"
  by (simp_all add: rboolean_def lower_char_def)

lemma boolean_hook:
  assumes "rboolean name"
  shows "attrFix name = name" "attr_hook b name = Some BoolHook" "propFix name \<noteq> ''tabIndex''"
proof -
  have n: "name \<noteq> ''type''" "name \<noteq> ''value''" "name \<noteq> ''tabindex''" "name \<noteq> ''tabIndex''"
    "name \<noteq> ''width''" "name \<noteq> ''height''" "name \<noteq> ''href''" "name \<noteq> ''src''"
    using assms not_boolean by metis+
  show "attrFix name = name" using n(3) by (simp add: attrFix_def)
  show "attr_hook b name = Some BoolHook" unfolding attr_hook_def using n assms by (simp only: if_False if_True simp_thms)
  have "propFix name = ''tabIndex'' \<Longrightarrow> name = ''tabindex'' \<or> name = ''tabIndex''"
    by (simp add: propFix_def propFix_table_def get_or_def split: if_splits)
  with n(3,4) show "propFix name \<noteq> ''tabIndex''" by metis
qed

lemma boolean_removed:
  assumes b: "regular b" and n: "html_element n" and k: "rboolean name"
  shows "\<exists>n1. removeAttr b name n = Returned (Undefined, n1) \<and> html_element n1 \<and> getAttribute b name n1 = None \<and>
    pget (nprops n1) (propFix name) \<noteq> Bool True"
proof -
  note h = boolean_hook(1,2)[OF k]
  note a = setAttribute_facts[OF b] and p = set_prop_facts[OF b]
  let ?p = "propFix name"
  let ?m = "setAttribute b name (to_lower name) (if has_prop ?p n then set_prop b ?p (Bool True) n else n)"
  let ?n2 = "removeAttribute b name ?m"
  let ?n3 = "if has_prop ?p ?n2 then set_prop b ?p (Bool False) ?n2 else ?n2"
  have h2: "html_element ?n2" using html_set_attr[OF b] html_set_prop[OF b n] by blast
  have h3: "html_element ?n3" by (rule html_set_prop[OF b h2])
  have "removeAttr b name n = Returned (Undefined, ?n3)"
    using n h k by (simp add: removeAttr_def remove_with_def attr_with_def hook_set_def bool_set_def Let_def)
  moreover have "getAttribute b name ?n3 = None"
    using p(3)[of "Bool False" name ?n2 ?p] a(4)[of name ?m] by simp
  moreover have "pget (nprops ?n3) ?p \<noteq> Bool True"
    using p(2)[of ?p "Bool False" ?n2] by (auto simp: has_prop_def get_or_def)
  ultimately show ?thesis using h3 by blast
qed

text \<open>
  A boolean attribute set to any value but \<open>false\<close> and \<open>null\<close> reads as its name, also for an empty text or
  0; set to \<open>false\<close> or \<open>null\<close> it reads as undefined and its property is not true.
\<close>

theorem boolean_attribute:
  assumes b: "regular b" and n: "html_element n" and k: "rboolean name" and v: "v \<noteq> Undefined"
  shows "\<exists>r n1. jq_attr b name v n = Returned (r, n1) \<and>
    (if v = Null \<or> v = Bool False
     then jq_attr b name Undefined n1 = Returned (Undefined, n1) \<and> fst (jq_prop b name Undefined n1) \<noteq> Bool True
     else jq_attr b name Undefined n1 = Returned (Str (to_lower name), n1))"
proof -
  note h = boolean_hook(1,2)[OF k]
  note nt = boolean_hook(3)[OF k]
  show ?thesis
  proof (cases "v = Null \<or> v = Bool False")
    case True
    obtain n1 where n1: "removeAttr b name n = Returned (Undefined, n1)" "html_element n1" "getAttribute b name n1 = None"
      "pget (nprops n1) (propFix name) \<noteq> Bool True"
      using boolean_removed[OF b n k] by blast
    have pr: "fst (jq_prop b name Undefined n1) \<noteq> Bool True" using n1(2,4) nt by (simp add: jq_prop_def Let_def)
    have "\<exists>r. jq_attr b name v n = Returned (r, n1)"
      using True n h n1(1) by (auto simp: jq_attr_def attr_with_def Let_def)
    moreover have "jq_attr b name Undefined n1 = Returned (Undefined, n1)"
      using n1(2,3) h pr by (simp add: jq_attr_def attr_with_def hook_get_def bool_get_def Let_def)
    ultimately show ?thesis using True pr by auto
  next
    case False
    let ?n = "if has_prop (propFix name) n then set_prop b (propFix name) (Bool True) n else n"
    let ?n1 = "setAttribute b name (to_lower name) ?n"
    have h1: "html_element ?n1"
      using html_set_attr[OF b] html_set_prop[OF b n] by blast
    have "jq_attr b name v n = Returned (Str name, ?n1)"
      using n h v False by (simp add: jq_attr_def attr_with_def hook_set_def bool_set_def Let_def)
    moreover have "jq_attr b name Undefined ?n1 = Returned (Str (to_lower name), ?n1)"
      using h1 h setAttribute_facts(2)[OF b] by (simp add: jq_attr_def attr_with_def hook_get_def bool_get_def Let_def)
    ultimately show ?thesis using False by auto
  qed
qed

section \<open>Values of selects\<close>

text \<open>
  What a browser does in a select for several choices: assigning \<open>selected\<close> changes that option only, and
  \<open>selectedIndex\<close> is negative when no option is selected.
\<close>

definition with_selected :: "bool \<Rightarrow> node \<Rightarrow> node" where
  "with_selected x n = n\<lparr>nprops := AList.update ''selected'' (Bool x) (nprops n)\<rparr>"

definition is_selected :: "form \<Rightarrow> nat \<Rightarrow> bool" where
  "is_selected w i \<longleftrightarrow> truthy (pget (nprops (nodes w i)) ''selected'')"

definition many_choices :: "chooser \<Rightarrow> nat \<Rightarrow> bool" where
  "many_choices ch e \<longleftrightarrow>
     (\<forall>i x w. assign_selected ch e i x w = set_node i (with_selected x (nodes w i)) w) \<and>
     (\<forall>w. selectedIndex ch w e < 0 \<longleftrightarrow> (\<forall>i\<in>set (options_of w e). \<not> is_selected w i)) \<and>
     (\<forall>w. (\<forall>i\<in>set (options_of w e). \<not> is_selected w i) \<longrightarrow> unselect ch e w = w)"

lemma with_selected_facts [simp]:
  "ntag (with_selected x n) = ntag n" "nattrs (with_selected x n) = nattrs n"
  "k \<noteq> ''selected'' \<Longrightarrow> pget (nprops (with_selected x n)) k = pget (nprops n) k"
  "pget (nprops (with_selected x n)) ''selected'' = Bool x"
  by (simp_all add: with_selected_def)

text \<open>The browser's \<open>specified\<close> looks at the attributes.\<close>

definition specified_by_attr :: "browser \<Rightarrow> bool" where
  "specified_by_attr b \<longleftrightarrow> (\<forall>n m k. nattrs n = nattrs m \<longrightarrow> specified b n k = specified b m k)"

lemma node_val_selected:
  assumes "specified_by_attr b"
  shows "node_val b (with_selected x n) = node_val b n"
proof -
  let ?m = "with_selected x n"
  have sp: "specified b ?m k = specified b n k" for k
    using assms unfolding specified_by_attr_def by (metis with_selected_facts(2))
  have ga: "getAttribute b k ?m = getAttribute b k n" for k by (simp add: getAttribute_def)
  have "val_hook b ?m = val_hook b n" by (simp add: val_hook_def cong: option.case_cong)
  moreover have "option_get b ?m = option_get b n" by (simp add: option_get_def ga sp)
  moreover have "common_val ?m = common_val n" by (simp add: common_val_def)
  moreover have "node_get b k ?m = node_get b k n" for k by (simp add: node_get_def ga)
  moreover have "pget (nprops ?m) ''value'' = pget (nprops n) ''value''" by simp
  ultimately show ?thesis unfolding node_val_def by (simp only: ga)
qed

definition choose_all :: "browser \<Rightarrow> jsval list \<Rightarrow> nat list \<Rightarrow> form \<Rightarrow> form" where
  "choose_all b vs js w = w\<lparr>nodes := (\<lambda>i. if i \<in> set js then with_selected (node_val b (nodes w i) \<in> set vs) (nodes w i) else nodes w i)\<rparr>"

lemma select_each_all:
  assumes "many_choices ch e" and "specified_by_attr b" and "distinct js"
  shows "select_each b ch e vs js w = choose_all b vs js w"
  using assms(3)
proof (induction js arbitrary: w)
  case Nil
  then show ?case by (simp add: choose_all_def)
next
  case (Cons j js)
  let ?w = "set_node j (with_selected (node_val b (nodes w j) \<in> set vs) (nodes w j)) w"
  have "select_each b ch e vs (j # js) w = choose_all b vs js ?w"
    using Cons assms(1) by (simp add: many_choices_def)
  also have "\<dots> = choose_all b vs (j # js) w"
    using Cons.prems by (auto simp: choose_all_def set_node_def fun_eq_iff intro!: form.equality)
  finally show ?case .
qed

definition enabled_option :: "browser \<Rightarrow> form \<Rightarrow> nat \<Rightarrow> bool" where
  "enabled_option b w i \<longleftrightarrow>
     (if optDisabled b then \<not> truthy (pget (nprops (nodes w i)) ''disabled'') else getAttribute b ''disabled'' (nodes w i) = None) \<and>
     (case parent_of w i of
        Some p \<Rightarrow> \<not> truthy (pget (nprops (nodes w p)) ''disabled'') \<or> \<not> nodeName (nodes w p) ''optgroup''
      | None \<Rightarrow> True)"

text \<open>
  The values given to a select for several choices are those it then gives back, in the order
  of its options and without those of disabled ones; when no option has one of the values, the
  result is \<open>null\<close>.
\<close>

theorem val_of_multiple:
  assumes b: "specified_by_attr b" and ch: "many_choices ch e"
    and e: "nkind (nodes w e) = 1" "val_hook b (nodes w e) = Some SelectHook" "pget (nprops (nodes w e)) ''type'' \<noteq> Str ''select-one''"
    and os: "found w e = options_of w e" "distinct (options_of w e)" "e \<notin> set (options_of w e)"
      "\<forall>i p. parent_of w i = Some p \<longrightarrow> p \<notin> set (options_of w e)"
  shows "fn_val_get b ch (val_set_one b ch (VMany (map Str vs)) e w) e =
    (let picks = filter (\<lambda>i. node_val b (nodes w i) \<in> Str ` set vs) (options_of w e)
     in Some (if picks = [] then VOne Null else VMany (map (\<lambda>i. node_val b (nodes w i)) (filter (enabled_option b w) picks))))"
proof -
  let ?os = "options_of w e" and ?vs = "map Str vs"
  let ?w = "choose_all b ?vs ?os w" and ?in = "\<lambda>i. node_val b (nodes w i) \<in> Str ` set vs"
  have vt: "val_text b (VMany ?vs) = VMany ?vs" by (simp add: val_text_def)
  have opts: "options_of ?w e = ?os" "parent_of ?w = parent_of w" by (simp_all add: choose_all_def)
  have nd: "nodes ?w i = (if i \<in> set ?os then with_selected (?in i) (nodes w i) else nodes w i)" for i
    by (auto simp: choose_all_def)
  have sel: "i \<in> set ?os \<Longrightarrow> is_selected ?w i = ?in i" for i by (simp add: is_selected_def nd)
  have set: "val_set_one b ch (VMany ?vs) e w = ?w"
  proof -
    have "unselect ch e ?w = ?w" if "vs = []" using ch sel that opts unfolding many_choices_def by simp
    then have "select_set b ch e (VMany ?vs) w = ?w"
      using select_each_all[OF ch b os(2), of ?vs w] os(1) by (auto simp: select_set_def make_values_def Let_def)
    then show ?thesis using e vt by (simp add: val_set_one_def Let_def)
  qed
  have ne: "nodes ?w e = nodes w e" using os(3) by (simp add: nd)
  have val: "node_val b (nodes ?w i) = node_val b (nodes w i)" for i by (simp add: nd node_val_selected[OF b])
  have selectable: "selectable b ?w i = (?in i \<and> enabled_option b w i)" if "i \<in> set ?os" for i
  proof -
    have p: "parent_of w i = Some p \<Longrightarrow> nodes ?w p = nodes w p" for p using os(4) by (simp add: nd)
    show ?thesis using that p sel[OF that]
      by (simp add: selectable_def enabled_option_def opts is_selected_def nd getAttribute_def split: option.split)
  qed
  have neg: "selectedIndex ch ?w e < 0 \<longleftrightarrow> filter ?in ?os = []"
    using ch sel opts(1) unfolding many_choices_def by (auto simp: filter_empty_conv)
  have f: "filter (selectable b ?w) ?os = filter (enabled_option b w) (filter ?in ?os)"
    unfolding filter_filter by (rule filter_cong) (use selectable in auto)
  show ?thesis
    unfolding set using e(2,3) neg by (simp add: fn_val_get_def select_get_def ne opts f val Let_def cong: map_cong)
qed

text \<open>
  The value of a text field is the text that was set, without carriage returns; a number or nothing is
  made a text first.
\<close>

theorem val_of_text_field:
  assumes b: "regular b" and n: "nkind (nodes w e) = 1" "val_hook b (nodes w e) = None"
    and h: "\<And>v. val_hook b (set_prop b ''value'' v (nodes w e)) = None"
  shows "fn_val_get b ch (val_set_one b ch (VOne (Str s)) e w) e = Some (VOne (Str (rreturn s))) \<and>
    fn_val_get b ch (val_set_one b ch (VOne Null) e w) e = Some (VOne (Str [])) \<and>
    fn_val_get b ch (val_set_one b ch (VOne (Num i)) e w) e = Some (VOne (Str (rreturn (show_int i))))"
  using n h set_prop_facts(2)[OF b]
  by (simp add: val_set_one_def val_text_def value_text_def set_node_def fn_val_get_def node_val_def common_val_def rreturn_def Let_def)

section \<open>Witnesses\<close>

definition demo_browser :: browser where
  "demo_browser = \<lparr>getSetAttribute = True, hrefNormalized = True, radioValue = True, checkOn = True, optDisabled = True,
     canon = to_lower, specified = (\<lambda>n k. True),
     attr_written = (\<lambda>k n. if k = ''id'' then n\<lparr>nprops := AList.update ''id'' (or_undefined (map_of (nattrs n) ''id'')) (nprops n)\<rparr> else n),
     prop_written = (\<lambda>k n. n), ref_text = (\<lambda>a. ''[object Object]''), nan = Ref 0\<rparr>"

lemma demo_browser_regular: "regular demo_browser" "specified_by_attr demo_browser"
  by (simp_all add: regular_def demo_browser_def same_kind_def specified_by_attr_def)

definition demo_input :: node where
  "demo_input = \<lparr>nkind = 1, ntag = ''INPUT'', nprops = [(''value'', Str []), (''type'', Str ''text''), (''checked'', Bool False)],
     nattrs = [], nxml = False, nhasattr = True, nparent = True\<rparr>"

theorem attr_roundtrip_witness:
  "\<exists>n1 n2. jq_attr demo_browser ''id'' (Num 7) demo_input = Returned (Num 7, n1) \<and>
    jq_attr demo_browser ''id'' Undefined n1 = Returned (Str (text_form demo_browser (Num 7)), n1) \<and>
    removeAttr demo_browser ''id'' n1 = Returned (Undefined, n2) \<and>
    jq_attr demo_browser ''id'' Undefined n2 = Returned (Undefined, n2)"
proof (rule attr_roundtrip[OF demo_browser_regular(1)])
  show "html_element demo_input" by (simp add: html_element_def demo_input_def)
  show "attr_hook demo_browser (attrFix ''id'') = None"
    by (simp add: attr_hook_def attrFix_def demo_browser_def rboolean_def lower_char_def)
qed simp_all

theorem boolean_attribute_witness:
  "(\<exists>r n1. jq_attr demo_browser ''checked'' (Str []) demo_input = Returned (r, n1) \<and>
     jq_attr demo_browser ''checked'' Undefined n1 = Returned (Str ''checked'', n1)) \<and>
   (\<exists>r n1. jq_attr demo_browser ''checked'' (Bool False) demo_input = Returned (r, n1) \<and>
     jq_attr demo_browser ''checked'' Undefined n1 = Returned (Undefined, n1))"
proof -
  have n: "html_element demo_input" by (simp add: html_element_def demo_input_def)
  have l: "to_lower ''checked'' = ''checked''" by (simp add: lower_char_def)
  have c: "rboolean ''checked''" by (simp add: rboolean_def lower_char_def)
  show ?thesis
    using boolean_attribute[OF demo_browser_regular(1) n c, of "Str []"] boolean_attribute[OF demo_browser_regular(1) n c, of "Bool False"]
    unfolding l by auto
qed

definition demo_option :: "string \<Rightarrow> bool \<Rightarrow> node" where
  "demo_option v off = \<lparr>nkind = 1, ntag = ''OPTION'', nprops = [(''value'', Str v), (''selected'', Bool False), (''disabled'', Bool off)],
     nattrs = [(''value'', v)], nxml = False, nhasattr = True, nparent = True\<rparr>"

definition demo_form :: form where
  "demo_form = \<lparr>nodes = (\<lambda>i. if i = 1 then demo_input\<lparr>ntag := ''SELECT'', nprops := [(''type'', Str ''select-multiple'')]\<rparr>
       else if i = 2 then demo_option ''a'' False else if i = 3 then demo_option ''b'' False else if i = 4 then demo_option ''c'' True else demo_input),
     options_of = (\<lambda>i. if i = 1 then [2, 3, 4] else []), found = (\<lambda>i. if i = 1 then [2, 3, 4] else []),
     parent_of = (\<lambda>i. if i \<in> {2, 3, 4} then Some 1 else None)\<rparr>"

definition demo_chooser :: chooser where
  "demo_chooser = \<lparr>selectedIndex = (\<lambda>w e. case filter (\<lambda>k. is_selected w (options_of w e ! k)) [0..<length (options_of w e)] of
       [] \<Rightarrow> -1 | k # _ \<Rightarrow> int k),
     assign_selected = (\<lambda>e i x w. set_node i (with_selected x (nodes w i)) w), unselect = (\<lambda>e w. w)\<rparr>"

lemma demo_chooser_many: "many_choices demo_chooser e"
  unfolding many_choices_def
proof (intro conjI allI)
  fix w
  have "filter (\<lambda>k. is_selected w (options_of w e ! k)) [0..<length (options_of w e)] = [] \<longleftrightarrow>
      (\<forall>i\<in>set (options_of w e). \<not> is_selected w i)"
    by (auto simp: filter_empty_conv all_set_conv_all_nth)
  then show "(selectedIndex demo_chooser w e < 0) = (\<forall>i\<in>set (options_of w e). \<not> is_selected w i)"
    by (cases "filter (\<lambda>k. is_selected w (options_of w e ! k)) [0..<length (options_of w e)]") (simp_all add: demo_chooser_def)
qed (simp_all add: demo_chooser_def)

lemma demo_tags:
  "to_lower ''SELECT'' = ''select''" "to_lower ''OPTION'' = ''option''" "text_form demo_browser (Str s) = s"
  by code_simp (code_simp, simp)

lemma demo_form_facts:
  "nkind (nodes demo_form 1) = 1" "val_hook demo_browser (nodes demo_form 1) = Some SelectHook"
  "pget (nprops (nodes demo_form 1)) ''type'' \<noteq> Str ''select-one''"
  "found demo_form 1 = options_of demo_form 1" "options_of demo_form 1 = [2, 3, 4]"
  "\<forall>i p. parent_of demo_form i = Some p \<longrightarrow> p \<notin> set (options_of demo_form 1)"
  by (simp_all add: demo_form_def demo_input_def val_hook_def val_hook_named_def demo_tags(1) get_or_def del: list.map)

lemma demo_option_val: "node_val demo_browser (demo_option v off) = Str v"
proof -
  have "val_hook demo_browser (demo_option v off) = Some OptionHook"
    by (simp add: val_hook_def val_hook_named_def demo_option_def demo_tags(2) del: list.map)
  then show ?thesis by (simp add: node_val_def option_get_def demo_browser_def demo_option_def get_or_def)
qed

theorem val_of_multiple_witness:
  "fn_val_get demo_browser demo_chooser (val_set_one demo_browser demo_chooser (VMany (map Str [''a'', ''c''])) 1 demo_form) 1
   = Some (VMany [Str ''a''])"
proof -
  have "nodes demo_form 2 = demo_option ''a'' False" "nodes demo_form 3 = demo_option ''b'' False" "nodes demo_form 4 = demo_option ''c'' True"
    by (simp_all add: demo_form_def)
  moreover have "enabled_option demo_browser demo_form 2" "\<not> enabled_option demo_browser demo_form 4"
    by (simp_all add: enabled_option_def demo_form_def demo_browser_def demo_option_def demo_input_def nodeName_def get_or_def)
  ultimately show ?thesis
    using val_of_multiple[OF demo_browser_regular(2) demo_chooser_many demo_form_facts(1-4) _ _ demo_form_facts(6), of "[''a'', ''c'']"]
    by (simp add: demo_form_facts(5) demo_option_val Let_def del: One_nat_def)
qed

end
