(* ===== verification/JQ_Manip.thy ===== *)
theory JQ_Manip
  imports JQ_Traverse JQ_Event "HOL-Library.Monad_Syntax"
begin

text \<open>
  Changing the document in jquery-1.6.4.js: \<open>append\<close>, \<open>prepend\<close>, \<open>before\<close>, \<open>after\<close> and their reversed forms, \<open>remove\<close>, \<open>detach\<close>, \<open>empty\<close>,
  \<open>replaceWith\<close>, \<open>wrapAll\<close>, \<open>wrapInner\<close>, \<open>unwrap\<close>, \<open>text\<close>, \<open>clone\<close>, with \<open>domManip\<close>, \<open>buildFragment\<close>, \<open>clean\<close>, \<open>cleanData\<close> and
  \<open>cloneCopyEvent\<close>.

  The world has the document, the handlers and data of its elements and the cache of fragments. The methods of
  the host's nodes are modelled by what the standard says of them; a result \<open>None\<close> is an exception
  they throw (a node put into itself, a reference that is no child) or a walk that does not end. The
  parser of markup is an argument. Left out are the repairs for old browsers.
\<close>

section \<open>The world\<close>

record mworld =
  doc :: dom
  tags :: "nat \<Rightarrow> string" \<comment> \<open>\<open>nodeName\<close>\<close>
  stypes :: "nat \<Rightarrow> string" \<comment> \<open>\<open>type\<close> of script elements, empty when missing\<close>
  reg :: estate \<comment> \<open>the private data\<close>
  udata :: "nat \<Rightarrow> jsval props option" \<comment> \<open>the public data\<close>
  fresh :: nat \<comment> \<open>nodes are numbered from 0\<close>
  fragments :: "string \<Rightarrow> nat option option" \<comment> \<open>\<open>Some None\<close> for the mark 1\<close>

record mhost =
  epage :: page
  efuel :: nat \<comment> \<open>depth of calls of the event functions\<close>
  innerHTML :: "string \<Rightarrow> mworld \<Rightarrow> (nat \<times> mworld) option" \<comment> \<open>a new \<open>div\<close> with the parsed text\<close>
  set_html :: "nat \<Rightarrow> string \<Rightarrow> mworld \<Rightarrow> mworld option" \<comment> \<open>to set \<open>innerHTML\<close> of an element\<close>
  run_script :: "nat \<Rightarrow> mworld \<Rightarrow> mworld option"

definition is_tag :: "mworld \<Rightarrow> nat \<Rightarrow> string \<Rightarrow> bool" where
  "is_tag w e t \<longleftrightarrow> to_upper (tags w e) = to_upper t"

definition here :: "mhost \<Rightarrow> mworld \<Rightarrow> page" where
  "here h w = (epage h)\<lparr>nodeType := ntype (doc w)\<rparr>"

text \<open>The nodes from one up to its root, and a node with all below it in document order.\<close>

primrec ups :: "nat \<Rightarrow> dom \<Rightarrow> nat \<Rightarrow> nat list" where
  "ups 0 d c = [c]"
| "ups (Suc k) d c = c # (case parentNode d c of None \<Rightarrow> [] | Some p \<Rightarrow> ups k d p)"

primrec subtree :: "nat \<Rightarrow> dom \<Rightarrow> nat \<Rightarrow> nat list" where
  "subtree 0 d c = [c]"
| "subtree (Suc k) d c = c # concat (map (subtree k d) (childNodes d c))"

definition nodes_of :: "mworld \<Rightarrow> nat \<Rightarrow> nat list" where
  "nodes_of w e = subtree (fresh w) (doc w) e"

section \<open>The host's operations on nodes\<close>

definition cut :: "nat \<Rightarrow> dom \<Rightarrow> dom" where
  "cut c d = (case parentNode d c of
      None \<Rightarrow> d
    | Some p \<Rightarrow> d\<lparr>childNodes := (childNodes d)(p := remove1 c (childNodes d p)), parentNode := (parentNode d)(c := None)\<rparr>)"

definition removeChild :: "nat \<Rightarrow> nat \<Rightarrow> mworld \<Rightarrow> mworld option" where
  "removeChild p c w = (if parentNode (doc w) c = Some p then Some (w\<lparr>doc := cut c (doc w)\<rparr>) else None)"

fun put_before :: "nat \<Rightarrow> nat option \<Rightarrow> nat list \<Rightarrow> nat list" where
  "put_before x r [] = [x]"
| "put_before x r (y # ys) = (if r = Some y then x # y # ys else y # put_before x r ys)"

definition place :: "nat \<Rightarrow> nat \<Rightarrow> nat option \<Rightarrow> dom \<Rightarrow> dom" where
  "place p x r d = d\<lparr>childNodes := (childNodes d)(p := put_before x r (childNodes d p)), parentNode := (parentNode d)(x := Some p)\<rparr>"

definition insert_one :: "nat \<Rightarrow> nat option \<Rightarrow> nat \<Rightarrow> mworld \<Rightarrow> mworld option" where
  "insert_one p r x w =
     (if x \<in> set (ups (fresh w) (doc w) p) then None
      else if (case r of Some y \<Rightarrow> parentNode (doc w) y \<noteq> Some p | None \<Rightarrow> False) then None
      else let r1 = (if r = Some x then nextSibling (doc w) x else r)
           in Some (w\<lparr>doc := place p x r1 (cut x (doc w))\<rparr>))"

fun insert_all :: "nat \<Rightarrow> nat option \<Rightarrow> nat list \<Rightarrow> mworld \<Rightarrow> mworld option" where
  "insert_all p r [] w = Some w"
| "insert_all p r (x # xs) w = do { w1 \<leftarrow> insert_one p r x w; insert_all p r xs w1 }"

text \<open>A fragment hands its children over.\<close>

definition insertBefore :: "nat \<Rightarrow> nat \<Rightarrow> nat option \<Rightarrow> mworld \<Rightarrow> mworld option" where
  "insertBefore p x r w =
     (if ntype (doc w) x = 11 then
        if x \<in> set (ups (fresh w) (doc w) p) then None else insert_all p r (childNodes (doc w) x) w
      else insert_one p r x w)"

definition appendChild :: "nat \<Rightarrow> nat \<Rightarrow> mworld \<Rightarrow> mworld option" where
  "appendChild p x w = insertBefore p x None w"

definition new_node :: "nat \<Rightarrow> string \<Rightarrow> string \<Rightarrow> mworld \<Rightarrow> nat \<times> mworld" where
  "new_node ty t v w = (let n = fresh w; d = doc w in
     (n, w\<lparr>doc := d\<lparr>ntype := (ntype d)(n := ty), nodeValue := (nodeValue d)(n := v)\<rparr>, tags := (tags w)(n := t),
        fresh := n + 1\<rparr>))"

definition createTextNode :: "string \<Rightarrow> mworld \<Rightarrow> nat \<times> mworld" where
  "createTextNode s = new_node 3 ''#text'' s"

definition createFragment :: "mworld \<Rightarrow> nat \<times> mworld" where
  "createFragment = new_node 11 ''#document-fragment'' []"

text \<open>A deep copy: the nodes of the tree get new numbers in document order.\<close>

definition copy_of :: "nat list \<Rightarrow> nat \<Rightarrow> nat \<Rightarrow> nat" where
  "copy_of ns k n = k + length (takeWhile (\<lambda>x. x \<noteq> n) ns)"

definition source_of :: "nat list \<Rightarrow> nat \<Rightarrow> nat \<Rightarrow> nat" where
  "source_of ns k n = ns ! (n - k)"

definition cloneNode :: "nat \<Rightarrow> mworld \<Rightarrow> nat \<times> mworld" where
  "cloneNode e w =
     (let ns = nodes_of w e; k = fresh w; d = doc w; new = (\<lambda>n. k \<le> n \<and> n < k + length ns); src = source_of ns k
      in (k, w\<lparr>doc := \<lparr>
            childNodes = (\<lambda>n. if new n then map (copy_of ns k) (childNodes d (src n)) else childNodes d n),
            parentNode = (\<lambda>n. if new n then (if n = k then None else map_option (copy_of ns k) (parentNode d (src n))) else parentNode d n),
            ntype = (\<lambda>n. if new n then ntype d (src n) else ntype d n),
            nodeValue = (\<lambda>n. if new n then nodeValue d (src n) else nodeValue d n)\<rparr>,
          tags := (\<lambda>n. if new n then tags w (src n) else tags w n),
          stypes := (\<lambda>n. if new n then stypes w (src n) else stypes w n),
          fresh := k + length ns\<rparr>))"

section \<open>Cleaning and cloning\<close>

definition no_data :: "mworld \<Rightarrow> nat \<Rightarrow> bool" where
  "no_data w e \<longleftrightarrow> to_lower (tags w e) \<in> {''embed'', ''object'', ''applet''}"

definition has_id :: "mworld \<Rightarrow> nat \<Rightarrow> bool" where
  "has_id w e \<longleftrightarrow> pdata (reg w) e \<noteq> None \<or> udata w e \<noteq> None"

text \<open>\<open>hasData\<close>: an entry with nothing in it but \<open>toJSON\<close> does not count.\<close>

definition has_data :: "mworld \<Rightarrow> nat \<Rightarrow> bool" where
  "has_data w e \<longleftrightarrow> pdata (reg w) e \<noteq> None \<or>
     (case udata w e of Some ps \<Rightarrow> \<exists>k\<in>set (map fst ps). k \<noteq> ''toJSON'' | None \<Rightarrow> False)"

definition clean_type :: "mhost \<Rightarrow> mworld \<Rightarrow> nat \<Rightarrow> string \<Rightarrow> estate \<Rightarrow> estate option" where
  "clean_type h w e t s =
     (if special_of (epage h) t \<noteq> no_special then event_remove (here h w) (efuel h) e (RTypes t) HNone None s
      else Some (remove_listener e t s))"

definition clean_one :: "mhost \<Rightarrow> nat \<Rightarrow> mworld \<Rightarrow> mworld option" where
  "clean_one h e w =
     (if no_data w e \<or> \<not> has_id w e then Some w
      else do {
        s \<leftarrow> for_in e (clean_type h w e) (map fst (ev_list (reg w) e)) (reg w);
        Some (w\<lparr>reg := s\<lparr>pdata := (pdata s)(e := None)\<rparr>, udata := (udata w)(e := None)\<rparr>)
      })"

fun cleanData :: "mhost \<Rightarrow> nat list \<Rightarrow> mworld \<Rightarrow> mworld option" where
  "cleanData h [] w = Some w"
| "cleanData h (e # es) w = do { w1 \<leftarrow> clean_one h e w; cleanData h es w1 }"

text \<open>\<open>getElementsByTagName("*")\<close>.\<close>

definition getAll :: "mworld \<Rightarrow> nat \<Rightarrow> nat list" where
  "getAll w e = filter (is_element (doc w)) (tl (nodes_of w e))"

fun dot_join :: "string list \<Rightarrow> string" where
  "dot_join [] = []"
| "dot_join [x] = x"
| "dot_join (x # xs) = x @ CHR ''.'' # dot_join xs"

definition event_name :: "string \<Rightarrow> hobj \<Rightarrow> string" where
  "event_name t ho = t @ (if dot_join (hns ho) \<noteq> [] then ''.'' else []) @ dot_join (hns ho)"

fun copy_handlers :: "page \<Rightarrow> nat \<Rightarrow> (string \<times> hobj) list \<Rightarrow> estate \<Rightarrow> estate option" where
  "copy_handlers pg dest [] s = Some s"
| "copy_handlers pg dest ((t, ho) # hs) s = do {
     s1 \<leftarrow> event_add pg dest (event_name t ho) (HObj ho) (hdata ho) s;
     copy_handlers pg dest hs s1
   }"

definition all_handlers :: "(string \<times> hobj list) list \<Rightarrow> (string \<times> hobj) list" where
  "all_handlers l = concat (map (\<lambda>(t, hs). map (Pair t) hs) l)"

text \<open>The private data are copied; with handlers among them the copy starts without any and adds each.\<close>

definition cloneCopyEvent :: "mhost \<Rightarrow> nat \<Rightarrow> nat \<Rightarrow> mworld \<Rightarrow> mworld option" where
  "cloneCopyEvent h src dest w =
     (if ntype (doc w) dest \<noteq> 1 \<or> \<not> has_data w src then Some w
      else
        let old = (case udata w src of Some ps \<Rightarrow> ps | None \<Rightarrow> []);
            cur = (case udata w dest of Some ps \<Rightarrow> ps | None \<Rightarrow> []);
            w1 = w\<lparr>udata := (udata w)(dest := Some (fold (\<lambda>(k, v). AList.update k v) old cur))\<rparr>
        in case pdata (reg w) src of
             None \<Rightarrow> Some w1
           | Some p \<Rightarrow>
               (case pevents p of
                  None \<Rightarrow> Some (w1\<lparr>reg := (reg w1)\<lparr>pdata := (pdata (reg w1))(dest := Some p)\<rparr>\<rparr>)
                | Some l \<Rightarrow>
                    let s = (reg w1)\<lparr>pdata := (pdata (reg w1))(dest := Some (p\<lparr>pevents := Some [], phandle := None\<rparr>))\<rparr>
                    in map_option (\<lambda>s1. w1\<lparr>reg := s1\<rparr>) (copy_handlers (here h w1) dest (all_handlers l) s)))"

fun copy_events :: "mhost \<Rightarrow> (nat \<times> nat) list \<Rightarrow> mworld \<Rightarrow> mworld option" where
  "copy_events h [] w = Some w"
| "copy_events h ((src, dest) # ps) w = do { w1 \<leftarrow> cloneCopyEvent h src dest w; copy_events h ps w1 }"

definition jq_clone :: "mhost \<Rightarrow> bool \<Rightarrow> bool \<Rightarrow> nat \<Rightarrow> mworld \<Rightarrow> (nat \<times> mworld) option" where
  "jq_clone h dataAndEvents deep e w =
     (let (c, w1) = cloneNode e w
      in if \<not> dataAndEvents then Some (c, w1)
         else do {
           w2 \<leftarrow> cloneCopyEvent h e c w1;
           w3 \<leftarrow> (if deep then copy_events h (zip (getAll w2 e) (getAll w2 c)) w2 else Some w2);
           Some (c, w3)
         })"

fun clone_each :: "mhost \<Rightarrow> bool \<Rightarrow> bool \<Rightarrow> nat list \<Rightarrow> mworld \<Rightarrow> (nat list \<times> mworld) option" where
  "clone_each h b b' [] w = Some ([], w)"
| "clone_each h b b' (e # es) w = do {
     (c, w1) \<leftarrow> jq_clone h b b' e w;
     (cs, w2) \<leftarrow> clone_each h b b' es w1;
     Some (c # cs, w2)
   }"

definition fn_clone :: "mhost \<Rightarrow> bool option \<Rightarrow> bool option \<Rightarrow> nat list \<Rightarrow> mworld \<Rightarrow> (nat list \<times> mworld) option" where
  "fn_clone h dataAndEvents deep this w =
     (let b = (case dataAndEvents of Some b \<Rightarrow> b | None \<Rightarrow> False); b' = (case deep of Some b' \<Rightarrow> b' | None \<Rightarrow> b)
      in clone_each h b b' this w)"

section \<open>Removing\<close>

text \<open>The selector is what \<open>jQuery.filter\<close> says of the element.\<close>

fun fn_remove :: "mhost \<Rightarrow> (nat \<Rightarrow> bool) option \<Rightarrow> bool \<Rightarrow> nat list \<Rightarrow> mworld \<Rightarrow> mworld option" where
  "fn_remove h sel keepData [] w = Some w"
| "fn_remove h sel keepData (e # es) w = do {
     w1 \<leftarrow> (if (case sel of Some P \<Rightarrow> P e | None \<Rightarrow> True) then do {
         w1 \<leftarrow> (if \<not> keepData \<and> is_element (doc w) e then do {
             w1 \<leftarrow> cleanData h (getAll w e) w;
             cleanData h [e] w1
           } else Some w);
         (case parentNode (doc w1) e of Some p \<Rightarrow> removeChild p e w1 | None \<Rightarrow> Some w1)
       } else Some w);
     fn_remove h sel keepData es w1
   }"

definition fn_detach :: "mhost \<Rightarrow> (nat \<Rightarrow> bool) option \<Rightarrow> nat list \<Rightarrow> mworld \<Rightarrow> mworld option" where
  "fn_detach h sel this w = fn_remove h sel True this w"

partial_function (option) drain :: "nat \<Rightarrow> mworld \<Rightarrow> mworld option" where
  "drain e w = (case firstChild (doc w) e of
      None \<Rightarrow> Some w
    | Some c \<Rightarrow> do { w1 \<leftarrow> removeChild e c w; drain e w1 })"

fun fn_empty :: "mhost \<Rightarrow> nat list \<Rightarrow> mworld \<Rightarrow> mworld option" where
  "fn_empty h [] w = Some w"
| "fn_empty h (e # es) w = do {
     w1 \<leftarrow> (if is_element (doc w) e then cleanData h (getAll w e) w else Some w);
     w2 \<leftarrow> drain e w1;
     fn_empty h es w2
   }"

section \<open>Nodes from arguments\<close>

text \<open>An argument is a node, a set of nodes, a text or a number; \<open>MNull\<close> is \<open>null\<close> or \<open>undefined\<close>, which ends the loop.\<close>

datatype marg = MNode nat | MNodes "nat list" | MText string | MNumber int | MNull

definition word_char :: "char \<Rightarrow> bool" where
  "word_char c \<longleftrightarrow> is_digit c \<or> is_upper c \<or> is_lower c \<or> c = CHR ''_''"

definition entity_here :: "string \<Rightarrow> bool" where
  "entity_here s =
     (let cs = tl s; t = (if cs \<noteq> [] \<and> hd cs = CHR ''#'' then tl cs else cs);
          word = takeWhile word_char t; rest = drop (length word) t
      in s \<noteq> [] \<and> hd s = CHR ''&'' \<and> word \<noteq> [] \<and> rest \<noteq> [] \<and> hd rest = CHR '';'')"

fun rhtml :: "string \<Rightarrow> bool" where
  "rhtml [] = False"
| "rhtml (c # cs) = (c = CHR ''<'' \<or> entity_here (c # cs) \<or> rhtml cs)"

fun rtagName :: "string \<Rightarrow> string" where
  "rtagName [] = []"
| "rtagName (c # cs) =
     (let word = takeWhile (\<lambda>c. word_char c \<or> c = CHR '':'') cs
      in if c = CHR ''<'' \<and> word \<noteq> [] then word else rtagName cs)"

text \<open>\<open>XHTML\<close>-style tags are closed: \<open>rxhtmlTag\<close> replaced in a text.\<close>

definition void_tag :: "string \<Rightarrow> bool" where
  "void_tag s \<longleftrightarrow> (\<exists>t\<in>{''area'', ''br'', ''col'', ''embed'', ''hr'', ''img'', ''input'', ''link'', ''meta'', ''param''}.
     to_lower (take (length t) s) = t)"

function fix_tags :: "string \<Rightarrow> string" where
  "fix_tags [] = []"
| "fix_tags (c # cs) =
     (let body = takeWhile (\<lambda>c. c \<noteq> CHR ''>'') cs; word = takeWhile (\<lambda>c. word_char c \<or> c = CHR '':'') body;
          rest = drop (length body) cs
      in if c = CHR ''<'' \<and> \<not> void_tag cs \<and> word \<noteq> [] \<and> rest \<noteq> [] \<and> last body = CHR ''/'' then
           CHR ''<'' # butlast body @ ''></'' @ word @ ''>'' @ fix_tags (tl rest)
         else c # fix_tags cs)"
  by pat_completeness auto

termination by (relation "measure length") (auto simp: Let_def)

declare fix_tags.simps(2) [simp del]

text \<open>
  The map is an object: the names \<open>constructor\<close> and \<open>__proto__\<close> find what every object has,
  whose entries 0 to 2 are undefined.
\<close>

definition wrapMap :: "string \<Rightarrow> (nat \<times> string \<times> string) option" where
  "wrapMap t =
     (if t \<in> {''option'', ''optgroup''} then Some (1, ''<select multiple='' @ [CHR 0x27] @ ''multiple'' @ [CHR 0x27] @ ''>'', ''</select>'')
      else if t = ''legend'' then Some (1, ''<fieldset>'', ''</fieldset>'')
      else if t \<in> {''thead'', ''tbody'', ''tfoot'', ''colgroup'', ''caption''} then Some (1, ''<table>'', ''</table>'')
      else if t = ''tr'' then Some (2, ''<table><tbody>'', ''</tbody></table>'')
      else if t \<in> {''td'', ''th''} then Some (3, ''<table><tbody><tr>'', ''</tr></tbody></table>'')
      else if t = ''col'' then Some (2, ''<table><tbody></tbody><colgroup>'', ''</colgroup></table>'')
      else if t = ''area'' then Some (1, ''<map>'', ''</map>'')
      else if t = ''_default'' then Some (0, [], [])
      else if t \<in> {''constructor'', ''__proto__''} then Some (0, ''undefined'', ''undefined'')
      else None)"

primrec last_child :: "nat \<Rightarrow> dom \<Rightarrow> nat \<Rightarrow> nat option" where
  "last_child 0 d n = Some n"
| "last_child (Suc k) d n = (if childNodes d n = [] then None else last_child k d (last (childNodes d n)))"

definition parse_nodes :: "mhost \<Rightarrow> string \<Rightarrow> mworld \<Rightarrow> (nat list \<times> mworld) option" where
  "parse_nodes h s w =
     (let t = fix_tags s;
          (depth, before, behind) = (case wrapMap (to_lower (rtagName t)) of Some x \<Rightarrow> x | None \<Rightarrow> (0, [], []))
      in do {
        (box, w1) \<leftarrow> innerHTML h (before @ t @ behind) w;
        n \<leftarrow> last_child depth (doc w1) box;
        Some (childNodes (doc w1) n, w1)
      })"

definition text_nodes :: "mhost \<Rightarrow> string \<Rightarrow> mworld \<Rightarrow> (nat list \<times> mworld) option" where
  "text_nodes h s w =
     (if s = [] then Some ([], w)
      else if \<not> rhtml s then (let (n, w1) = createTextNode s w in Some ([n], w1))
      else parse_nodes h s w)"

fun clean_args :: "mhost \<Rightarrow> marg list \<Rightarrow> mworld \<Rightarrow> (nat list \<times> mworld) option" where
  "clean_args h [] w = Some ([], w)"
| "clean_args h (a # as) w = (if a = MNull then Some ([], w) else do {
     (ns, w1) \<leftarrow> (case a of
         MText s \<Rightarrow> text_nodes h s w
       | MNumber i \<Rightarrow> text_nodes h (show_int i) w
       | MNode n \<Rightarrow> Some ([n], w)
       | MNodes ns \<Rightarrow> Some (ns, w)
       | MNull \<Rightarrow> Some ([], w));
     (ms, w2) \<leftarrow> clean_args h as w1;
     Some (ns @ ms, w2)
   })"

text \<open>
  The nodes are put into the fragment. Scripts of the standard type are taken out to be run; those below
  an element are looked for and come next in the list.
\<close>

definition rscriptType :: "string \<Rightarrow> bool" where
  "rscriptType t \<longleftrightarrow> (\<exists>i\<in>set [0..<length t].
     let r = to_lower (drop i t) in take 11 r = ''/javascript'' \<or> take 11 r = ''/ecmascript'')"

definition js_type :: "mworld \<Rightarrow> nat \<Rightarrow> bool" where
  "js_type w n \<longleftrightarrow> stypes w n = [] \<or> to_lower (stypes w n) = ''text/javascript''"

definition inner_scripts :: "mworld \<Rightarrow> nat \<Rightarrow> nat list" where
  "inner_scripts w n = filter (\<lambda>s. is_tag w s ''script'' \<and> (stypes w s = [] \<or> rscriptType (stypes w s))) (getAll w n)"

partial_function (option) fill :: "nat \<Rightarrow> nat list \<Rightarrow> mworld \<Rightarrow> (nat list \<times> mworld) option" where
  "fill f ret w = (case ret of
      [] \<Rightarrow> Some ([], w)
    | n # ns \<Rightarrow>
        if is_tag w n ''script'' \<and> js_type w n then do {
          w1 \<leftarrow> (case parentNode (doc w) n of Some p \<Rightarrow> removeChild p n w | None \<Rightarrow> Some w);
          (scripts, w2) \<leftarrow> fill f ns w1;
          Some (n # scripts, w2)
        } else do {
          w1 \<leftarrow> appendChild f n w;
          fill f ((if is_element (doc w) n then inner_scripts w n else []) @ ns) w1
        })"

definition jq_clean :: "mhost \<Rightarrow> marg list \<Rightarrow> nat \<Rightarrow> mworld \<Rightarrow> (nat list \<times> mworld) option" where
  "jq_clean h args f w = do { (ns, w1) \<leftarrow> clean_args h args w; fill f ns w1 }"

text \<open>Small texts of markup are cached at their second use, and copied from the third.\<close>

fun has_word :: "string \<Rightarrow> string \<Rightarrow> bool" where
  "has_word p [] = (p = [])"
| "has_word p (c # cs) = (take (length p) (c # cs) = p \<or> has_word p cs)"

definition rnocache :: "string \<Rightarrow> bool" where
  "rnocache s \<longleftrightarrow> (\<exists>t\<in>{''<script'', ''<object'', ''<embed'', ''<option'', ''<style''}. has_word t (to_lower s))"

definition cacheable :: "marg list \<Rightarrow> string option" where
  "cacheable args = (case args of
      [MText s] \<Rightarrow> if length s < 512 \<and> s \<noteq> [] \<and> hd s = CHR ''<'' \<and> \<not> rnocache s then Some s else None
    | _ \<Rightarrow> None)"

definition buildFragment :: "mhost \<Rightarrow> marg list \<Rightarrow> mworld \<Rightarrow> (nat \<times> bool \<times> nat list \<times> mworld) option" where
  "buildFragment h args w =
     (let key = cacheable args; cached = (case key of Some s \<Rightarrow> fragments w s | None \<Rightarrow> None)
      in do {
        (f, scripts, w1) \<leftarrow> (case cached of
            Some (Some f) \<Rightarrow> Some (f, [], w)
          | _ \<Rightarrow> (let (f, w0) = createFragment w
                 in do { (scripts, w1) \<leftarrow> jq_clean h args f w0; Some (f, scripts, w1) }));
        let w2 = (case key of
            Some s \<Rightarrow> w1\<lparr>fragments := (fragments w1)(s := Some (if cached \<noteq> None then Some f else None))\<rparr>
          | None \<Rightarrow> w1);
        Some (f, key \<noteq> None, scripts, w2)
      })"

section \<open>domManip\<close>

text \<open>Where a node goes, for one element of the set.\<close>

datatype how = Append | Prepend | Before | After

definition put :: "how \<Rightarrow> nat \<Rightarrow> nat \<Rightarrow> mworld \<Rightarrow> mworld option" where
  "put hw this n w = (case hw of
      Append \<Rightarrow> if is_element (doc w) this then appendChild this n w else Some w
    | Prepend \<Rightarrow> if is_element (doc w) this then insertBefore this n (firstChild (doc w) this) w else Some w
    | Before \<Rightarrow> (case parentNode (doc w) this of None \<Rightarrow> None | Some p \<Rightarrow> insertBefore p n (Some this) w)
    | After \<Rightarrow> (case parentNode (doc w) this of None \<Rightarrow> None | Some p \<Rightarrow> insertBefore p n (nextSibling (doc w) this) w))"

definition table_root :: "nat \<Rightarrow> mworld \<Rightarrow> (nat \<times> mworld) option" where
  "table_root e w =
     (if is_tag w e ''table'' then
        (case filter (\<lambda>n. is_tag w n ''tbody'') (getAll w e) of
           b # _ \<Rightarrow> Some (b, w)
         | [] \<Rightarrow> (let (b, w1) = new_node 1 ''TBODY'' [] w in do { w2 \<leftarrow> appendChild e b w1; Some (b, w2) }))
      else Some (e, w))"

text \<open>All elements but the last get a copy, the last too when the fragment is to be kept.\<close>

fun put_each :: "mhost \<Rightarrow> how \<Rightarrow> bool \<Rightarrow> bool \<Rightarrow> nat \<Rightarrow> nat list \<Rightarrow> mworld \<Rightarrow> mworld option" where
  "put_each h hw table keep n [] w = Some w"
| "put_each h hw table keep n (e # es) w = do {
     (this, w1) \<leftarrow> (if table then table_root e w else Some (e, w));
     (m, w2) \<leftarrow> (if keep \<or> es \<noteq> [] then jq_clone h True True n w1 else Some (n, w1));
     w3 \<leftarrow> put hw this m w2;
     put_each h hw table keep n es w3
   }"

fun eval_scripts :: "mhost \<Rightarrow> nat list \<Rightarrow> mworld \<Rightarrow> mworld option" where
  "eval_scripts h [] w = Some w"
| "eval_scripts h (s # ss) w = do {
     w1 \<leftarrow> run_script h s w;
     w2 \<leftarrow> (case parentNode (doc w1) s of Some p \<Rightarrow> removeChild p s w1 | None \<Rightarrow> Some w1);
     eval_scripts h ss w2
   }"

definition parent_fragment :: "marg list \<Rightarrow> nat list \<Rightarrow> mworld \<Rightarrow> nat option" where
  "parent_fragment args this w = (case args of
      MNode n # _ \<Rightarrow> (case parentNode (doc w) n of
          Some p \<Rightarrow> if ntype (doc w) p = 11 \<and> length (childNodes (doc w) p) = length this then Some p else None
        | None \<Rightarrow> None)
    | _ \<Rightarrow> None)"

definition manip_fragment :: "mhost \<Rightarrow> marg list \<Rightarrow> nat list \<Rightarrow> mworld \<Rightarrow> (nat \<times> bool \<times> nat list \<times> mworld) option" where
  "manip_fragment h args this w = (case parent_fragment args this w of
      Some p \<Rightarrow> Some (p, False, [], w)
    | None \<Rightarrow> buildFragment h args w)"

definition domManip :: "mhost \<Rightarrow> how \<Rightarrow> bool \<Rightarrow> marg list \<Rightarrow> nat list \<Rightarrow> mworld \<Rightarrow> mworld option" where
  "domManip h hw table args this w =
     (if this = [] then Some w
      else do {
        (f, keep, scripts, w1) \<leftarrow> manip_fragment h args this w;
        w2 \<leftarrow> (case childNodes (doc w1) f of
            [] \<Rightarrow> Some w1
          | first # rest \<Rightarrow>
              put_each h hw (table \<and> is_tag w1 first ''tr'') keep (if rest = [] then first else f) this w1);
        eval_scripts h scripts w2
      })"

text \<open>With a function the argument is what it gives for each element, from its position and markup.\<close>

fun manip_function :: "mhost \<Rightarrow> how \<Rightarrow> bool \<Rightarrow> (nat \<Rightarrow> nat \<Rightarrow> mworld \<Rightarrow> marg \<times> mworld) \<Rightarrow> marg list \<Rightarrow> nat \<Rightarrow> nat list \<Rightarrow> mworld \<Rightarrow> mworld option" where
  "manip_function h hw table f rest i [] w = Some w"
| "manip_function h hw table f rest i (e # es) w = do {
     let (a, w1) = f i e w;
     w2 \<leftarrow> domManip h hw table (a # rest) [e] w1;
     manip_function h hw table f rest (Suc i) es w2
   }"

section \<open>The methods\<close>

definition fn_append :: "mhost \<Rightarrow> marg list \<Rightarrow> nat list \<Rightarrow> mworld \<Rightarrow> mworld option" where
  "fn_append h args this w = domManip h Append True args this w"

definition fn_prepend :: "mhost \<Rightarrow> marg list \<Rightarrow> nat list \<Rightarrow> mworld \<Rightarrow> mworld option" where
  "fn_prepend h args this w = domManip h Prepend True args this w"

text \<open>
  A set that is in no document is not changed; the new set is then made of both. \<open>None\<close> for the set is
  the value \<open>undefined\<close>.
\<close>

definition in_tree :: "nat list \<Rightarrow> mworld \<Rightarrow> bool" where
  "in_tree this w \<longleftrightarrow> this \<noteq> [] \<and> parentNode (doc w) (hd this) \<noteq> None"

definition fn_before :: "mhost \<Rightarrow> marg list \<Rightarrow> nat list \<Rightarrow> nat list \<Rightarrow> mworld \<Rightarrow> (nat list option \<times> mworld) option" where
  "fn_before h args nodes this w =
     (if in_tree this w then map_option (Pair (Some this)) (domManip h Before False args this w)
      else Some (if args \<noteq> [] then Some (nodes @ this) else None, w))"

definition fn_after :: "mhost \<Rightarrow> marg list \<Rightarrow> nat list \<Rightarrow> nat list \<Rightarrow> mworld \<Rightarrow> (nat list option \<times> mworld) option" where
  "fn_after h args nodes this w =
     (if in_tree this w then map_option (Pair (Some this)) (domManip h After False args this w)
      else Some (if args \<noteq> [] then Some (this @ nodes) else None, w))"

text \<open>\<open>appendTo\<close> and its like: the set goes to the first target, copies of it to the others.\<close>

definition insert_at :: "mhost \<Rightarrow> how \<Rightarrow> marg list \<Rightarrow> nat list \<Rightarrow> nat list \<Rightarrow> mworld \<Rightarrow> mworld option" where
  "insert_at h hw args nodes this w = (case hw of
      Append \<Rightarrow> fn_append h args this w
    | Prepend \<Rightarrow> fn_prepend h args this w
    | Before \<Rightarrow> map_option snd (fn_before h args nodes this w)
    | After \<Rightarrow> map_option snd (fn_after h args nodes this w))"

fun insert_each :: "mhost \<Rightarrow> how \<Rightarrow> bool \<Rightarrow> nat list \<Rightarrow> nat list \<Rightarrow> mworld \<Rightarrow> (nat list \<times> mworld) option" where
  "insert_each h hw again this [] w = Some ([], w)"
| "insert_each h hw again this (t # ts) w = do {
     (es, w1) \<leftarrow> (if again then fn_clone h (Some True) None this w else Some (this, w));
     w2 \<leftarrow> insert_at h hw [MNodes es] es [t] w1;
     (rest, w3) \<leftarrow> insert_each h hw True this ts w2;
     Some (es @ rest, w3)
   }"

definition insert_to :: "mhost \<Rightarrow> how \<Rightarrow> nat list \<Rightarrow> nat list \<Rightarrow> mworld \<Rightarrow> (nat list \<times> mworld) option" where
  "insert_to h hw targets this w = (case (this, targets) of
      ([e], [t]) \<Rightarrow>
        (case parentNode (doc w) e of
           Some p \<Rightarrow> if ntype (doc w) p = 11 \<and> length (childNodes (doc w) p) = 1
             then map_option (Pair this) (insert_at h hw [MNode e] [e] targets w)
             else insert_each h hw False this targets w
         | None \<Rightarrow> insert_each h hw False this targets w)
    | _ \<Rightarrow> insert_each h hw False this targets w)"

definition fn_text :: "mhost \<Rightarrow> string \<Rightarrow> nat list \<Rightarrow> mworld \<Rightarrow> mworld option" where
  "fn_text h s this w = do {
     w1 \<leftarrow> fn_empty h this w;
     let (t, w2) = createTextNode s w1;
     fn_append h [MNode t] this w2
   }"

text \<open>
  \<open>html\<close> with a value: a text without scripts and without a wrapping goes to \<open>innerHTML\<close>, where an
  exception sends the whole to the other way, \<open>empty\<close> and \<open>append\<close>.
\<close>

fun html_each :: "mhost \<Rightarrow> string \<Rightarrow> nat list \<Rightarrow> mworld \<Rightarrow> (bool \<times> mworld) option" where
  "html_each h s [] w = Some (True, w)"
| "html_each h s (e # es) w =
     (if is_element (doc w) e then do {
        w1 \<leftarrow> cleanData h (getAll w e) w;
        (case set_html h e s w1 of
           None \<Rightarrow> Some (False, w1)
         | Some w2 \<Rightarrow> html_each h s es w2)
      } else html_each h s es w)"

definition empty_append :: "mhost \<Rightarrow> marg \<Rightarrow> nat list \<Rightarrow> mworld \<Rightarrow> mworld option" where
  "empty_append h v this w = do { w1 \<leftarrow> fn_empty h this w; fn_append h [v] this w1 }"

definition fn_html :: "mhost \<Rightarrow> marg \<Rightarrow> nat list \<Rightarrow> mworld \<Rightarrow> mworld option" where
  "fn_html h v this w = (case v of
      MText s \<Rightarrow>
        if \<not> rnocache s \<and> wrapMap (to_lower (rtagName s)) = None then do {
          (ok, w1) \<leftarrow> html_each h (fix_tags s) this w;
          if ok then Some w1 else empty_append h (MText (fix_tags s)) this w1
        } else empty_append h v this w
    | _ \<Rightarrow> empty_append h v this w)"

text \<open>The value is a text, or nodes that are detached first.\<close>

datatype rvalue = RText string | RNodes "nat list"

definition rvalue_arg :: "rvalue \<Rightarrow> marg" where
  "rvalue_arg v = (case v of RText s \<Rightarrow> MText s | RNodes ns \<Rightarrow> MNodes ns)"

fun replace_each :: "mhost \<Rightarrow> rvalue \<Rightarrow> nat list \<Rightarrow> mworld \<Rightarrow> mworld option" where
  "replace_each h v [] w = Some w"
| "replace_each h v (e # es) w = do {
     let nxt = nextSibling (doc w) e;
     let parent = parentNode (doc w) e;
     w1 \<leftarrow> fn_remove h None False [e] w;
     w2 \<leftarrow> (case nxt of
         Some n \<Rightarrow> map_option snd (fn_before h [rvalue_arg v] (case v of RNodes ns \<Rightarrow> ns | RText s \<Rightarrow> []) [n] w1)
       | None \<Rightarrow> fn_append h [rvalue_arg v] (case parent of Some p \<Rightarrow> [p] | None \<Rightarrow> []) w1);
     replace_each h v es w2
   }"

definition replaceWith :: "mhost \<Rightarrow> rvalue \<Rightarrow> nat list \<Rightarrow> mworld \<Rightarrow> mworld option" where
  "replaceWith h v this w =
     (if in_tree this w then do {
        w1 \<leftarrow> (case v of RNodes ns \<Rightarrow> fn_detach h None ns w | RText s \<Rightarrow> Some w);
        replace_each h v this w1
      } else Some w)"

text \<open>The innermost first element of the wrapping node.\<close>

partial_function (option) innermost :: "dom \<Rightarrow> nat \<Rightarrow> nat option" where
  "innermost d e = (case firstChild d e of
      None \<Rightarrow> Some e
    | Some c \<Rightarrow> if is_element d c then innermost d c else Some e)"

text \<open>The wrapping is given as its first node, made from markup or found by a selector.\<close>

definition wrapAll :: "mhost \<Rightarrow> nat option \<Rightarrow> nat list \<Rightarrow> mworld \<Rightarrow> mworld option" where
  "wrapAll h wrapper this w = (case (this, wrapper) of
      (e # es, Some n) \<Rightarrow> do {
        (c, w1) \<leftarrow> jq_clone h True True n w;
        w2 \<leftarrow> (if parentNode (doc w1) e \<noteq> None then map_option snd (insert_to h Before [e] [c] w1) else Some w1);
        i \<leftarrow> innermost (doc w2) c;
        fn_append h [MNodes this] [i] w2
      }
    | _ \<Rightarrow> Some w)"

fun wrap :: "mhost \<Rightarrow> nat option \<Rightarrow> nat list \<Rightarrow> mworld \<Rightarrow> mworld option" where
  "wrap h wrapper [] w = Some w"
| "wrap h wrapper (e # es) w = do { w1 \<leftarrow> wrapAll h wrapper [e] w; wrap h wrapper es w1 }"

fun wrapInner :: "mhost \<Rightarrow> nat option \<Rightarrow> marg \<Rightarrow> nat list \<Rightarrow> mworld \<Rightarrow> mworld option" where
  "wrapInner h wrapper html [] w = Some w"
| "wrapInner h wrapper html (e # es) w = do {
     w1 \<leftarrow> (if childNodes (doc w) e \<noteq> [] then wrapAll h wrapper (childNodes (doc w) e) w else fn_append h [html] [e] w);
     wrapInner h wrapper html es w1
   }"

text \<open>The parents of the set are given, each once.\<close>

fun unwrap :: "mhost \<Rightarrow> nat list \<Rightarrow> mworld \<Rightarrow> mworld option" where
  "unwrap h [] w = Some w"
| "unwrap h (p # ps) w = do {
     w1 \<leftarrow> (if is_tag w p ''body'' then Some w else replaceWith h (RNodes (childNodes (doc w) p)) [p] w);
     unwrap h ps w1
   }"

section \<open>The tree is kept\<close>

definition mw_inv :: "mworld \<Rightarrow> bool" where
  "mw_inv w \<longleftrightarrow> dom_inv (doc w) \<and> (\<forall>n. childNodes (doc w) n \<noteq> [] \<or> parentNode (doc w) n \<noteq> None \<longrightarrow> n < fresh w) \<and>
     (\<forall>s f. fragments w s = Some (Some f) \<longrightarrow> f < fresh w)"

lemma mw_invI:
  assumes "mw_inv w" and "dom_inv (doc w')" and "\<And>n. childNodes (doc w') n \<noteq> [] \<or> parentNode (doc w') n \<noteq> None \<Longrightarrow> n < fresh w'"
    and "fragments w' = fragments w" and "fresh w \<le> fresh w'"
  shows "mw_inv w'"
proof -
  have "f < fresh w'" if "fragments w' s = Some (Some f)" for s f
  proof -
    from that assms(4) have "fragments w s = Some (Some f)" by simp
    with assms(1) have "f < fresh w" unfolding mw_inv_def by blast
    with assms(5) show ?thesis by simp
  qed
  with assms(2,3) show ?thesis unfolding mw_inv_def by blast
qed

abbreviation below :: "dom \<Rightarrow> nat \<Rightarrow> nat \<Rightarrow> bool" where
  "below d n a \<equiv> (\<lambda>c p. parentNode d c = Some p)\<^sup>*\<^sup>* n a"

lemma mw_invD:
  assumes "mw_inv w"
  shows "dom_inv (doc w)" "parentNode (doc w) c = Some p \<Longrightarrow> c < fresh w \<and> p < fresh w"
    "c \<in> set (childNodes (doc w) p) \<Longrightarrow> c < fresh w \<and> p < fresh w"
proof -
  show d: "dom_inv (doc w)" using assms by (simp add: mw_inv_def)
  show "c < fresh w \<and> p < fresh w" if "c \<in> set (childNodes (doc w) p)"
    using assms that dom_invD(1)[OF d, of c p] unfolding mw_inv_def by (metis empty_iff empty_set option.discI)
  then show "c < fresh w \<and> p < fresh w" if "parentNode (doc w) c = Some p"
    using that dom_invD(1)[OF d, of c p] by blast
qed

text \<open>Ancestors as a chain of parents.\<close>

lemma below_chain: "chain (parentNode d) cur xs \<Longrightarrow> cur = Some n \<Longrightarrow> below d n a \<longleftrightarrow> a \<in> set xs"
proof (induction arbitrary: n rule: chain.induct)
  case (go c xs)
  have n: "n = c" using go.prems by simp
  show ?case
  proof (cases "parentNode d c")
    case None
    then have "xs = []" using go.hyps by (simp add: chain_simps)
    moreover have "below d n a \<longleftrightarrow> a = n"
      using None n by (auto elim: converse_rtranclpE)
    ultimately show ?thesis using n by auto
  next
    case (Some p)
    have "below d n a \<longleftrightarrow> a = n \<or> below d p a"
      using Some n by (auto elim: converse_rtranclpE intro: converse_rtranclp_into_rtranclp)
    with go.IH[OF Some] n show ?thesis by auto
  qed
qed simp

lemma chain_depth:
  assumes "chain (parentNode d) cur xs" and "\<And>c p. parentNode d c = Some p \<Longrightarrow> (depth :: nat \<Rightarrow> nat) p < depth c"
    and "cur = Some n"
  shows "distinct xs \<and> (\<forall>x\<in>set xs. depth x \<le> depth n) \<and> (\<forall>x\<in>set (tl xs). \<exists>c. parentNode d c = Some x)"
  using assms(1,3)
proof (induction arbitrary: n rule: chain.induct)
  case (go c xs)
  show ?case
  proof (cases "parentNode d c")
    case None
    with go show ?thesis by (auto simp: chain_simps)
  next
    case (Some p)
    then obtain ys where ys: "xs = p # ys" using go.hyps by (auto simp: chain_simps)
    have "depth p < depth n" using Some assms(2) go.prems by simp
    with go.IH[OF Some] go.prems ys Some show ?thesis by fastforce
  qed
qed simp

lemma parents_chain:
  assumes "mw_inv w"
  shows "\<exists>xs. chain (parentNode (doc w)) (Some n) xs \<and> distinct xs \<and> length xs \<le> Suc (fresh w)"
proof -
  note d = mw_invD[OF assms]
  obtain xs where xs: "chain (parentNode (doc w)) (Some n) (n # xs)"
    using chain_parents_ex[OF d(1), of n] chain.go by blast
  obtain depth :: "nat \<Rightarrow> nat" where dp: "\<And>c p. parentNode (doc w) c = Some p \<Longrightarrow> depth p < depth c"
    using d(1) unfolding dom_inv_def by blast
  have c: "distinct (n # xs)" "\<forall>x\<in>set xs. \<exists>c. parentNode (doc w) c = Some x"
    using chain_depth[OF xs, of depth n] dp by auto
  have "set xs \<subseteq> {..<fresh w}" using c(2) d(2) by auto
  then have "card (set xs) \<le> fresh w" by (metis card_lessThan card_mono finite_lessThan)
  with c(1) have "length xs \<le> fresh w" by (simp add: distinct_card)
  with xs c(1) show ?thesis by (intro exI[of _ "n # xs"]) simp
qed

lemma ups_chain: "chain (parentNode d) (Some n) xs \<Longrightarrow> ups k d n = take (Suc k) xs"
proof (induction k arbitrary: n xs)
  case 0
  then show ?case by (auto simp: chain_simps)
next
  case (Suc k)
  then obtain ys where xs: "xs = n # ys" and ys: "chain (parentNode d) (parentNode d n) ys" by (auto simp: chain_simps)
  show ?case
  proof (cases "parentNode d n")
    case None
    with ys xs show ?thesis by (simp add: chain_simps)
  next
    case (Some p)
    with ys have "ups k d p = take (Suc k) ys" by (intro Suc.IH) simp
    with Some xs show ?thesis by simp
  qed
qed

lemma ups_below: "mw_inv w \<Longrightarrow> a \<in> set (ups (fresh w) (doc w) n) \<longleftrightarrow> below (doc w) n a"
proof -
  assume "mw_inv w"
  then obtain xs where xs: "chain (parentNode (doc w)) (Some n) xs" "length xs \<le> Suc (fresh w)"
    using parents_chain by blast
  then show ?thesis using ups_chain[OF xs(1), of "fresh w"] below_chain[OF xs(1) refl, of a] by simp
qed

text \<open>Cutting a node out, and putting a cut node under another.\<close>

lemma cut_parent: "parentNode (cut c d) = (parentNode d)(c := None)"
  by (auto simp: cut_def fun_eq_iff split: option.split)

lemma cut_children: "dom_inv d \<Longrightarrow> childNodes (cut c d) p = filter (\<lambda>x. x \<noteq> c) (childNodes d p)"
proof -
  assume d: "dom_inv d"
  show ?thesis
  proof (cases "parentNode d c")
    case None
    then have "\<forall>x\<in>set (childNodes d p). x \<noteq> c" using dom_invD(1)[OF d, of c p] by auto
    then show ?thesis using None by (simp add: cut_def filter_id_conv)
  next
    case (Some q)
    then have "p \<noteq> q \<Longrightarrow> \<forall>x\<in>set (childNodes d p). x \<noteq> c" using dom_invD(1)[OF d, of c p] by auto
    then show ?thesis using Some dom_invD(2)[OF d]
      by (cases "p = q") (simp_all add: cut_def distinct_remove1_removeAll removeAll_filter_not_eq filter_id_conv, metis)
  qed
qed

lemma cut_inv: "dom_inv d \<Longrightarrow> dom_inv (cut c d)"
proof -
  assume d: "dom_inv d"
  obtain depth :: "nat \<Rightarrow> nat" where "\<And>c p. parentNode d c = Some p \<Longrightarrow> depth p < depth c"
    using d unfolding dom_inv_def by blast
  then show ?thesis unfolding dom_inv_def cut_parent cut_children[OF d]
    using dom_invD[OF d] by (intro conjI exI[of _ depth]) auto
qed

lemma cut_frame [simp]: "ntype (cut c d) = ntype d" "nodeValue (cut c d) = nodeValue d"
  by (simp_all add: cut_def split: option.split)

lemma below_cut: "below (cut c d) n a \<Longrightarrow> below d n a"
proof (induction rule: rtranclp.induct)
  case (rtrancl_into_rtrancl a b c')
  then show ?case by (auto simp: cut_parent split: if_splits intro: rtranclp.rtrancl_into_rtrancl)
qed simp

lemma set_put_before: "set (put_before x r xs) = insert x (set xs)"
  by (induction xs) auto

lemma distinct_put_before: "distinct xs \<Longrightarrow> x \<notin> set xs \<Longrightarrow> distinct (put_before x r xs)"
  by (induction xs) (auto simp: set_put_before)

lemma dom_invI:
  assumes "\<And>c p. parentNode d c = Some p \<longleftrightarrow> c \<in> set (childNodes d p)" and "\<And>p. distinct (childNodes d p)"
    and "\<And>c p. parentNode d c = Some p \<Longrightarrow> (depth :: nat \<Rightarrow> nat) p < depth c"
  shows "dom_inv d"
  unfolding dom_inv_def using assms by blast

lemma dom_inv_cong: "childNodes d = childNodes d' \<Longrightarrow> parentNode d = parentNode d' \<Longrightarrow> dom_inv d = dom_inv d'"
  by (simp add: dom_inv_def)

lemma place_inv:
  assumes d: "dom_inv d" and x: "parentNode d x = None" and p: "\<not> below d p x"
  shows "dom_inv (place p x r d)"
proof -
  obtain depth :: "nat \<Rightarrow> nat" where dp: "\<And>c p. parentNode d c = Some p \<Longrightarrow> depth p < depth c"
    using d unfolding dom_inv_def by blast
  let ?depth = "\<lambda>n. if below d n x then depth n + depth p + 1 else depth n"
  have nx: "x \<notin> set (childNodes d q)" for q using dom_invD(1)[OF d, of x q] x by simp
  have up: "below d c x \<longleftrightarrow> c = x \<or> below d q x" if "parentNode d c = Some q" for c q
    using that by (auto elim: converse_rtranclpE intro: converse_rtranclp_into_rtranclp)
  have dd: "?depth q < ?depth c" if "(if c = x then Some p else parentNode d c) = Some q" for c q
  proof (cases "c = x")
    case True
    with that p show ?thesis by auto
  next
    case False
    with that have "parentNode d c = Some q" by simp
    with False up[OF this] dp[OF this] show ?thesis by auto
  qed
  have ch: "(if c = x then Some p else parentNode d c) = Some q \<longleftrightarrow>
      c \<in> set (if q = p then put_before x r (childNodes d q) else childNodes d q)" for c q
    using nx[of q] dom_invD(1)[OF d, of c q] by (auto simp: set_put_before)
  have di: "distinct (if q = p then put_before x r (childNodes d q) else childNodes d q)" for q
    using dom_invD(2)[OF d, of q] nx[of q] by (cases "q = p") (simp_all add: distinct_put_before)
  have fl: "parentNode (place p x r d) = (\<lambda>c. if c = x then Some p else parentNode d c)"
    "childNodes (place p x r d) = (\<lambda>q. if q = p then put_before x r (childNodes d q) else childNodes d q)"
    by (auto simp: place_def)
  show ?thesis by (rule dom_invI[where depth = ?depth]) (unfold fl, (rule ch di dd; assumption?)+)
qed

lemma insert_one_inv:
  assumes inv: "mw_inv w" and b: "p < fresh w" "x < fresh w" and s: "insert_one p r x w = Some w'"
  shows "mw_inv w' \<and> fresh w' = fresh w \<and> ntype (doc w') = ntype (doc w)"
proof -
  have nb: "\<not> below (doc w) p x" using s ups_below[OF inv, of x p] by (auto simp: insert_one_def split: if_splits)
  obtain r1 where w': "w' = w\<lparr>doc := place p x r1 (cut x (doc w))\<rparr>"
    using s by (auto simp: insert_one_def Let_def split: if_splits)
  note d = mw_invD[OF inv]
  have "\<not> below (cut x (doc w)) p x" using nb below_cut by blast
  then have di: "dom_inv (doc w')" unfolding w' using place_inv[OF cut_inv[OF d(1)], of x x p r1]
    by (simp add: cut_parent)
  have "n < fresh w" if "childNodes (doc w') n \<noteq> [] \<or> parentNode (doc w') n \<noteq> None" for n
  proof -
    have "n = p \<or> n = x \<or> childNodes (doc w) n \<noteq> [] \<or> parentNode (doc w) n \<noteq> None"
      using that unfolding w' by (auto simp: place_def cut_parent cut_children[OF d(1)] split: if_splits)
    with b inv show ?thesis unfolding mw_inv_def by blast
  qed
  then have "mw_inv w'" using mw_invI[OF inv di] by (simp add: w')
  then show ?thesis by (simp add: w' place_def)
qed

lemma insert_all_inv:
  assumes "mw_inv w" and "p < fresh w" and "\<forall>x\<in>set xs. x < fresh w" and "insert_all p r xs w = Some w'"
  shows "mw_inv w' \<and> fresh w' = fresh w \<and> ntype (doc w') = ntype (doc w)"
  using assms
proof (induction xs arbitrary: w)
  case (Cons x xs)
  then obtain w1 where w1: "insert_one p r x w = Some w1" "insert_all p r xs w1 = Some w'"
    by (auto split: Option.bind_splits)
  from insert_one_inv[OF Cons.prems(1,2) _ w1(1)] Cons.prems(3) have "mw_inv w1" "fresh w1 = fresh w" "ntype (doc w1) = ntype (doc w)"
    by auto
  with Cons.IH[OF this(1) _ _ w1(2)] Cons.prems(2,3) show ?case by auto
qed simp

definition grows :: "mworld \<Rightarrow> mworld \<Rightarrow> bool" where
  "grows w w' \<longleftrightarrow> mw_inv w' \<and> fresh w \<le> fresh w' \<and> (\<forall>n<fresh w. ntype (doc w') n = ntype (doc w) n)"

lemma grows_refl: "mw_inv w \<Longrightarrow> grows w w"
  by (simp add: grows_def)

lemma grows_trans: "grows a b \<Longrightarrow> grows b c \<Longrightarrow> grows a c"
  by (auto simp: grows_def)

lemma insertBefore_grows:
  assumes "mw_inv w" and "p < fresh w" and "x < fresh w" and "insertBefore p x r w = Some w'"
  shows "grows w w' \<and> fresh w' = fresh w"
proof (cases "ntype (doc w) x = 11")
  case True
  have "\<forall>c\<in>set (childNodes (doc w) x). c < fresh w" using mw_invD(3)[OF assms(1)] by blast
  with True insert_all_inv[OF assms(1,2) this] assms(4) show ?thesis by (simp add: insertBefore_def grows_def split: if_splits)
next
  case False
  with insert_one_inv[OF assms(1-3)] assms(4) show ?thesis by (simp add: insertBefore_def grows_def)
qed

lemma removeChild_grows:
  assumes "mw_inv w" and "removeChild p c w = Some w'"
  shows "grows w w' \<and> fresh w' = fresh w"
proof -
  have w': "w' = w\<lparr>doc := cut c (doc w)\<rparr>" using assms(2) by (simp add: removeChild_def split: if_splits)
  note d = mw_invD[OF assms(1)]
  have "n < fresh w" if "childNodes (cut c (doc w)) n \<noteq> [] \<or> parentNode (cut c (doc w)) n \<noteq> None" for n
  proof -
    have "childNodes (doc w) n \<noteq> [] \<or> parentNode (doc w) n \<noteq> None"
      using that by (auto simp: cut_parent cut_children[OF d(1)] split: if_splits)
    with assms(1) show ?thesis unfolding mw_inv_def by blast
  qed
  then have "mw_inv w'" using mw_invI[OF assms(1), of w'] cut_inv[OF d(1)] by (simp add: w')
  then show ?thesis by (simp add: grows_def w')
qed

lemma new_node_grows:
  assumes "mw_inv w" and "new_node ty t v w = (n, w')"
  shows "grows w w' \<and> n = fresh w \<and> fresh w' = Suc n \<and> childNodes (doc w') = childNodes (doc w) \<and> parentNode (doc w') = parentNode (doc w)
    \<and> ntype (doc w') n = ty"
proof -
  have w': "n = fresh w" "w' = w\<lparr>doc := (doc w)\<lparr>ntype := (ntype (doc w))(n := ty), nodeValue := (nodeValue (doc w))(n := v)\<rparr>,
      tags := (tags w)(n := t), fresh := n + 1\<rparr>"
    using assms(2) by (auto simp: new_node_def Let_def)
  have di: "dom_inv (doc w')" using mw_invD(1)[OF assms(1)] dom_inv_cong[of "doc w'" "doc w"] by (simp add: w')
  have "k < fresh w'" if "childNodes (doc w') k \<noteq> [] \<or> parentNode (doc w') k \<noteq> None" for k
  proof -
    have "childNodes (doc w) k \<noteq> [] \<or> parentNode (doc w) k \<noteq> None" using that by (simp add: w')
    then have "k < fresh w" using assms(1) unfolding mw_inv_def by blast
    then show ?thesis by (simp add: w')
  qed
  then have "mw_inv w'" using mw_invI[OF assms(1) di] by (simp add: w')
  then show ?thesis unfolding grows_def by (simp add: w')
qed

text \<open>A tree in document order holds each node at or below its root once.\<close>

lemma below_step: "parentNode d c = Some p \<Longrightarrow> below d p a \<Longrightarrow> below d c a"
  by (rule converse_rtranclp_into_rtranclp)

lemma subtree_steps:
  assumes d: "dom_inv d"
  shows "a \<in> set (subtree k d c) \<longleftrightarrow> (\<exists>j\<le>k. ((\<lambda>c p. parentNode d c = Some p) ^^ j) a c)"
proof (induction k arbitrary: c)
  case (Suc k)
  have "a \<in> set (subtree (Suc k) d c) \<longleftrightarrow> a = c \<or> (\<exists>b. parentNode d b = Some c \<and> a \<in> set (subtree k d b))"
    using dom_invD(1)[OF d] by auto
  also have "\<dots> \<longleftrightarrow> a = c \<or> (\<exists>j\<le>k. ((\<lambda>c p. parentNode d c = Some p) ^^ Suc j) a c)"
    unfolding Suc.IH relpowp.simps relcompp_apply by blast
  also have "\<dots> \<longleftrightarrow> (\<exists>j\<le>Suc k. ((\<lambda>c p. parentNode d c = Some p) ^^ j) a c)"
  proof (intro iffI; elim disjE exE conjE)
    assume "a = c"
    then show "\<exists>j\<le>Suc k. ((\<lambda>c p. parentNode d c = Some p) ^^ j) a c" by (intro exI[of _ 0]) simp
  next
    fix j assume "j \<le> k" "((\<lambda>c p. parentNode d c = Some p) ^^ Suc j) a c"
    then show "\<exists>j\<le>Suc k. ((\<lambda>c p. parentNode d c = Some p) ^^ j) a c" by (intro exI[of _ "Suc j"]) simp
  next
    fix j assume "j \<le> Suc k" "((\<lambda>c p. parentNode d c = Some p) ^^ j) a c"
    then show "a = c \<or> (\<exists>j\<le>k. ((\<lambda>c p. parentNode d c = Some p) ^^ Suc j) a c)"
      by (cases j) auto
  qed
  finally show ?case .
qed auto

lemma chain_steps:
  "((\<lambda>c p. parentNode d c = Some p) ^^ j) a c \<Longrightarrow> chain (parentNode d) (Some a) xs \<Longrightarrow> j < length xs"
proof (induction j arbitrary: a xs)
  case 0
  then show ?case by (auto simp: chain_simps)
next
  case (Suc j)
  then obtain b where b: "parentNode d a = Some b" "((\<lambda>c p. parentNode d c = Some p) ^^ j) b c"
    using relpowp_Suc_E2[OF Suc.prems(1)] by blast
  with Suc.prems(2) obtain ys where "xs = a # ys" "chain (parentNode d) (Some b) ys" by (auto simp: chain_simps)
  with Suc.IH[OF b(2)] show ?case by simp
qed

lemma nodes_of_below: "mw_inv w \<Longrightarrow> a \<in> set (nodes_of w e) \<longleftrightarrow> below (doc w) a e"
proof -
  assume inv: "mw_inv w"
  obtain xs where xs: "chain (parentNode (doc w)) (Some a) xs" "length xs \<le> Suc (fresh w)"
    using parents_chain[OF inv] by blast
  have "j \<le> fresh w" if "((\<lambda>c p. parentNode (doc w) c = Some p) ^^ j) a e" for j
    using chain_steps[OF that xs(1)] xs(2) by simp
  then show ?thesis
    unfolding nodes_of_def subtree_steps[OF mw_invD(1)[OF inv]] rtranclp_power by blast
qed

lemma below_up: "below d n a \<Longrightarrow> parentNode d n = Some q \<Longrightarrow> n = a \<or> below d q a"
  by (auto elim: converse_rtranclpE)

lemma below_depth:
  assumes "\<And>c p. parentNode d c = Some p \<Longrightarrow> (depth :: nat \<Rightarrow> nat) p < depth c"
  shows "below d n a \<Longrightarrow> n = a \<or> depth a < depth n"
proof (induction rule: converse_rtranclp_induct)
  case (step y z)
  with assms[of y z] show ?case by auto
qed simp

lemma below_linear: "below d n a \<Longrightarrow> below d n b \<Longrightarrow> below d a b \<or> below d b a"
proof (induction rule: converse_rtranclp_induct)
  case (step y z)
  from below_up[OF step.prems step.hyps(1)] show ?case
  proof
    assume "y = b"
    with step.hyps show ?thesis by (blast intro: converse_rtranclp_into_rtranclp)
  next
    assume "below d z b"
    with step.IH show ?thesis .
  qed
qed simp

lemma below_antisym:
  assumes "dom_inv d" and "below d a b" and "below d b a"
  shows "a = b"
proof -
  obtain depth :: "nat \<Rightarrow> nat" where "\<And>c p. parentNode d c = Some p \<Longrightarrow> depth p < depth c"
    using assms(1) unfolding dom_inv_def by blast
  from below_depth[of d depth, OF this assms(2)] below_depth[of d depth, OF this assms(3)] show ?thesis by auto
qed

lemma siblings_apart:
  assumes d: "dom_inv d" and p: "parentNode d b = Some p" "parentNode d c = Some p" and a: "below d a b" "below d a c"
  shows "b = c"
proof -
  have "x = y" if l: "below d x y" and x: "parentNode d x = Some p" and y: "parentNode d y = Some p" for x y
  proof (rule ccontr)
    assume "x \<noteq> y"
    with below_up[OF l x] have py: "below d p y" by simp
    from y have "below d y p" by blast
    with below_antisym[OF d py] have "y = p" by simp
    with y d show False unfolding dom_inv_def by (metis less_irrefl)
  qed
  with below_linear[OF a] p show ?thesis by metis
qed

lemma subtree_distinct: "dom_inv d \<Longrightarrow> distinct (subtree k d c)"
proof (induction k arbitrary: c)
  case (Suc k)
  note d = Suc.prems
  have bl: "below d a c'" if "a \<in> set (subtree k d c')" for a c'
    using that subtree_steps[OF d] by (auto simp: rtranclp_power)
  have "distinct (concat (map (subtree k d) xs))" if "distinct xs" "set xs \<subseteq> set (childNodes d c)" for xs
    using that
  proof (induction xs)
    case (Cons x xs)
    have dj: "a \<notin> set (subtree k d y)" if a: "a \<in> set (subtree k d x)" and y: "y \<in> set xs" for a y
    proof
      assume "a \<in> set (subtree k d y)"
      moreover have "parentNode d x = Some c" "parentNode d y = Some c"
        using Cons.prems(2) y dom_invD(1)[OF d] by auto
      ultimately have "x = y" using siblings_apart[OF d, of x c y a] bl a by blast
      with Cons.prems(1) y show False by simp
    qed
    have "distinct (concat (map (subtree k d) xs))" using Cons by simp
    moreover have "set (subtree k d x) \<inter> (\<Union>y\<in>set xs. set (subtree k d y)) = {}" using dj by blast
    ultimately show ?case using Suc.IH[OF d] by simp
  qed simp
  moreover have "c \<notin> set (subtree k d x)" if "x \<in> set (childNodes d c)" for x
  proof
    assume "c \<in> set (subtree k d x)"
    from bl[OF this] have cx: "below d c x" .
    from that have x: "parentNode d x = Some c" using dom_invD(1)[OF d] by blast
    then have "below d x c" by blast
    with below_antisym[OF d cx] have "c = x" by simp
    with x d show False unfolding dom_inv_def by (metis less_irrefl)
  qed
  ultimately show ?case using dom_invD(2)[OF d, of c] by auto
qed simp

lemma nodes_of_distinct: "mw_inv w \<Longrightarrow> distinct (nodes_of w e)"
  using mw_invD(1) subtree_distinct unfolding nodes_of_def by blast

lemma nodes_of_hd: "nodes_of w e \<noteq> [] \<and> hd (nodes_of w e) = e"
  by (cases "fresh w") (simp_all add: nodes_of_def)

text \<open>A copy is a tree of new nodes.\<close>

lemma copy_of_nth: "distinct ns \<Longrightarrow> i < length ns \<Longrightarrow> copy_of ns k (ns ! i) = k + i"
proof -
  assume "distinct ns" "i < length ns"
  then have "takeWhile (\<lambda>x. x \<noteq> ns ! i) ns = take i ns"
    by (intro takeWhile_eq_take_P_nth) (auto simp: nth_eq_iff_index_eq)
  with \<open>i < length ns\<close> show ?thesis by (simp add: copy_of_def)
qed

lemma copy_of_source:
  assumes "distinct ns"
  shows "k \<le> n \<Longrightarrow> n < k + length ns \<Longrightarrow> copy_of ns k (source_of ns k n) = n \<and> source_of ns k n \<in> set ns"
    "x \<in> set ns \<Longrightarrow> source_of ns k (copy_of ns k x) = x \<and> k \<le> copy_of ns k x \<and> copy_of ns k x < k + length ns"
proof -
  assume "k \<le> n" "n < k + length ns"
  then show "copy_of ns k (source_of ns k n) = n \<and> source_of ns k n \<in> set ns"
    using copy_of_nth[OF assms, of "n - k" k] by (simp add: source_of_def)
next
  assume "x \<in> set ns"
  then obtain i where "i < length ns" "x = ns ! i" by (metis in_set_conv_nth)
  with copy_of_nth[OF assms, of i k] show "source_of ns k (copy_of ns k x) = x \<and> k \<le> copy_of ns k x \<and> copy_of ns k x < k + length ns"
    by (simp add: source_of_def)
qed

text \<open>
  A document with a copy of a subtree: \<open>new\<close> are the ids of the copy, \<open>src\<close> and \<open>cp\<close> lead from it and to it, and
  \<open>k\<close> is the copy of the root \<open>e\<close>.
\<close>

definition subtree_copy :: "dom \<Rightarrow> nat \<Rightarrow> nat \<Rightarrow> (nat \<Rightarrow> bool) \<Rightarrow> (nat \<Rightarrow> nat) \<Rightarrow> (nat \<Rightarrow> nat) \<Rightarrow> dom \<Rightarrow> bool" where
  "subtree_copy d e k new src cp d' \<longleftrightarrow>
     dom_inv d \<and> new k \<and> src k = e \<and>
     (\<forall>n. new n \<longrightarrow> cp (src n) = n \<and> below d (src n) e) \<and>
     (\<forall>x. below d x e \<longrightarrow> src (cp x) = x \<and> new (cp x)) \<and>
     (\<forall>c p. parentNode d c = Some p \<longrightarrow> \<not> new c \<and> \<not> new p) \<and>
     childNodes d' = (\<lambda>n. if new n then map cp (childNodes d (src n)) else childNodes d n) \<and>
     parentNode d' = (\<lambda>n. if new n then (if n = k then None else map_option cp (parentNode d (src n))) else parentNode d n)"

lemma subtree_copyD:
  assumes "subtree_copy d e k new src cp d'"
  shows "dom_inv d" "new k" "src k = e"
    "new n \<Longrightarrow> cp (src n) = n" "new n \<Longrightarrow> below d (src n) e"
    "below d x e \<Longrightarrow> src (cp x) = x" "below d x e \<Longrightarrow> new (cp x)"
    "parentNode d c = Some p \<Longrightarrow> \<not> new c" "parentNode d c = Some p \<Longrightarrow> \<not> new p"
    "childNodes d' = (\<lambda>n. if new n then map cp (childNodes d (src n)) else childNodes d n)"
    "parentNode d' = (\<lambda>n. if new n then (if n = k then None else map_option cp (parentNode d (src n))) else parentNode d n)"
  using assms unfolding subtree_copy_def by blast+

lemma copied_kid:
  assumes sc: "subtree_copy d e k new src cp d'" and "new p" "x \<in> set (childNodes d (src p))"
  shows "below d x e"
  using below_step[of d x "src p" e] dom_invD(1)[OF subtree_copyD(1)[OF sc]] subtree_copyD(5)[OF sc assms(2)] assms(3)
  by blast

lemma copied_parent:
  assumes sc: "subtree_copy d e k new src cp d'" and n: "new n" "n \<noteq> k" and q: "parentNode d (src n) = Some q"
  shows "below d q e"
proof -
  have "src n \<noteq> e"
  proof
    assume "src n = e"
    then have "cp (src n) = cp (src k)" using subtree_copyD(3)[OF sc] by simp
    then show False using subtree_copyD(4)[OF sc] n subtree_copyD(2)[OF sc] by metis
  qed
  with below_up[OF subtree_copyD(5)[OF sc n(1)] q] show ?thesis by simp
qed

lemma copy_above:
  assumes sc: "subtree_copy d e k new src cp d'" and "new p"
  shows "parentNode d e \<noteq> Some (src p)"
proof
  assume q: "parentNode d e = Some (src p)"
  then have "below d e (src p)" by blast
  then have "src p = e"
    using below_antisym[OF subtree_copyD(1)[OF sc]] subtree_copyD(5)[OF sc assms(2)] by blast
  with q subtree_copyD(1)[OF sc] show False unfolding dom_inv_def by (metis less_irrefl)
qed

lemma copied_link:
  assumes sc: "subtree_copy d e k new src cp d'" and c: "new c" and p: "new p"
  shows "parentNode d (src c) = Some (src p) \<longleftrightarrow> c \<in> cp ` set (childNodes d (src p))"
    and "c \<noteq> k \<Longrightarrow> map_option cp (parentNode d (src c)) = Some p \<longleftrightarrow> parentNode d (src c) = Some (src p)"
proof -
  note D = subtree_copyD[OF sc] and kid = copied_kid[OF sc p]
  show "parentNode d (src c) = Some (src p) \<longleftrightarrow> c \<in> cp ` set (childNodes d (src p))"
  proof
    assume "parentNode d (src c) = Some (src p)"
    then have "src c \<in> set (childNodes d (src p))" using dom_invD(1)[OF D(1)] by blast
    then show "c \<in> cp ` set (childNodes d (src p))" using D(4)[OF c] by (metis imageI)
  next
    assume "c \<in> cp ` set (childNodes d (src p))"
    then obtain x where x: "x \<in> set (childNodes d (src p))" "c = cp x" by blast
    then have "src c = x" using D(6)[OF kid] by blast
    with x(1) show "parentNode d (src c) = Some (src p)" using dom_invD(1)[OF D(1)] by blast
  qed
  assume "c \<noteq> k"
  have "cp q = p \<longleftrightarrow> q = src p" if q: "parentNode d (src c) = Some q" for q
    using D(6)[OF copied_parent[OF sc c \<open>c \<noteq> k\<close> q]] D(4)[OF p] by metis
  then show "map_option cp (parentNode d (src c)) = Some p \<longleftrightarrow> parentNode d (src c) = Some (src p)" by auto
qed

lemma copy_parent_child:
  assumes sc: "subtree_copy d e k new src cp d'"
  shows "parentNode d' c = Some p \<longleftrightarrow> c \<in> set (childNodes d' p)"
proof -
  note D = subtree_copyD[OF sc]
  show ?thesis
  proof (cases "new c")
    case cn: True
    have cN: "c \<notin> set (childNodes d p)" using D(8)[of c p] cn dom_invD(1)[OF D(1)] by blast
    show ?thesis
    proof (cases "new p")
      case False
      have "cp q \<noteq> p" if "c \<noteq> k" "parentNode d (src c) = Some q" for q
        using copied_parent[OF sc cn that] D(7) False by blast
      then show ?thesis using cn False cN by (auto simp: D(10,11))
    next
      case pn: True
      then show ?thesis
        using cn D(3) copied_link[OF sc cn pn] copy_above[OF sc pn] by (cases "c = k") (simp_all add: D(10,11))
    qed
  next
    case cn: False
    have "parentNode d c \<noteq> Some p" if "new p" using D(9)[of c p] that by blast
    moreover have "c \<notin> cp ` set (childNodes d (src p))" if "new p"
      using cn D(7) copied_kid[OF sc that] by blast
    ultimately show ?thesis using cn dom_invD(1)[OF D(1), of c p] by (simp add: D(10,11))
  qed
qed

lemma copy_distinct:
  assumes sc: "subtree_copy d e k new src cp d'"
  shows "distinct (childNodes d' p)"
proof (cases "new p")
  case True
  have "inj_on cp (set (childNodes d (src p)))"
    by (rule inj_on_inverseI[where g = src]) (rule subtree_copyD(6)[OF sc copied_kid[OF sc True]])
  then show ?thesis
    using True dom_invD(2)[OF subtree_copyD(1)[OF sc]] by (simp add: subtree_copyD(10)[OF sc] distinct_map)
next
  case False
  then show ?thesis using dom_invD(2)[OF subtree_copyD(1)[OF sc]] by (simp add: subtree_copyD(10)[OF sc])
qed

lemma copy_dom_inv:
  assumes sc: "subtree_copy d e k new src cp d'"
  shows "dom_inv d'"
proof -
  note D = subtree_copyD[OF sc]
  obtain depth :: "nat \<Rightarrow> nat" where dp: "\<And>c p. parentNode d c = Some p \<Longrightarrow> depth p < depth c"
    using D(1) unfolding dom_inv_def by blast
  have "(if new p then depth (src p) else depth p) < (if new c then depth (src c) else depth c)"
    if a: "parentNode d' c = Some p" for c p
  proof (cases "new c")
    case True
    with a obtain q where q: "c \<noteq> k" "parentNode d (src c) = Some q" "cp q = p" by (auto simp: D(11) split: if_splits)
    have "src p = q" "new p" using D(6,7)[OF copied_parent[OF sc True q(1,2)]] q(3) by auto
    with dp[OF q(2)] True show ?thesis by simp
  next
    case False
    with a have q: "parentNode d c = Some p" by (simp add: D(11))
    with dp[OF q] D(9)[OF q] False show ?thesis by simp
  qed
  with copy_parent_child[OF sc] copy_distinct[OF sc] show ?thesis by (rule dom_invI)
qed

lemma cloneNode_copies:
  assumes inv: "mw_inv w" and c: "cloneNode e w = (c, w')"
  shows "\<exists>src cp. subtree_copy (doc w) e (fresh w) (\<lambda>n. fresh w \<le> n \<and> n < fresh w') src cp (doc w')"
    and "c = fresh w" "fresh w < fresh w'" "fragments w' = fragments w"
    and "n < fresh w \<Longrightarrow> ntype (doc w') n = ntype (doc w) n"
proof -
  define ns k d where "ns = nodes_of w e" and "k = fresh w" and "d = doc w"
  define new src cp where "new = (\<lambda>n. k \<le> n \<and> n < k + length ns)" and "src = source_of ns k" and "cp = copy_of ns k"
  note dd = mw_invD[OF inv, folded d_def k_def]
  have w': "c = k" "fresh w' = k + length ns" "fragments w' = fragments w"
    "childNodes (doc w') = (\<lambda>n. if new n then map cp (childNodes d (src n)) else childNodes d n)"
    "parentNode (doc w') = (\<lambda>n. if new n then (if n = k then None else map_option cp (parentNode d (src n))) else parentNode d n)"
    "ntype (doc w') = (\<lambda>n. if new n then ntype d (src n) else ntype d n)"
    using c unfolding cloneNode_def Let_def ns_def k_def d_def new_def src_def cp_def by auto
  have dist: "distinct ns" using nodes_of_distinct[OF inv] by (simp add: ns_def)
  have bl: "x \<in> set ns \<longleftrightarrow> below d x e" for x
    using nodes_of_below[OF inv, of x e] by (simp add: ns_def d_def)
  have ne: "ns \<noteq> []" "src k = e" using nodes_of_hd[of w e] by (auto simp: src_def ns_def source_of_def hd_conv_nth)
  have "subtree_copy d e k new src cp (doc w')"
    unfolding subtree_copy_def w'(4,5)
  proof (intro conjI allI impI refl)
    show "cp (src n) = n" "below d (src n) e" if "new n" for n
      using copy_of_source(1)[OF dist, of k n] that by (simp_all add: new_def src_def cp_def bl[symmetric])
    show "src (cp x) = x" "new (cp x)" if "below d x e" for x
      using copy_of_source(2)[OF dist, of x k] that by (auto simp: new_def src_def cp_def bl[symmetric])
    show "\<not> new c" "\<not> new p" if "parentNode d c = Some p" for c p
      using dd(2)[OF that] by (auto simp: new_def)
  qed (use dd(1) ne in \<open>simp_all add: new_def\<close>)
  then show "\<exists>src cp. subtree_copy (doc w) e (fresh w) (\<lambda>n. fresh w \<le> n \<and> n < fresh w') src cp (doc w')"
    unfolding w'(2) new_def k_def d_def by blast
  show "n < fresh w \<Longrightarrow> ntype (doc w') n = ntype (doc w) n" by (simp add: w'(6) new_def k_def d_def)
qed (use c nodes_of_hd[of w e] in \<open>auto simp: cloneNode_def Let_def\<close>)

lemma cloneNode_grows:
  assumes inv: "mw_inv w" and e: "e < fresh w" and c: "cloneNode e w = (c, w')"
  shows "grows w w' \<and> c = fresh w \<and> c < fresh w'"
proof -
  note C = cloneNode_copies[OF inv c]
  obtain src cp where sc: "subtree_copy (doc w) e (fresh w) (\<lambda>n. fresh w \<le> n \<and> n < fresh w') src cp (doc w')"
    using C(1) by blast
  have fr: "n < fresh w'" if n: "childNodes (doc w') n \<noteq> [] \<or> parentNode (doc w') n \<noteq> None" for n
  proof (cases "n < fresh w")
    case True
    with C(3) show ?thesis by simp
  next
    case False
    then have "\<not> (childNodes (doc w) n \<noteq> [] \<or> parentNode (doc w) n \<noteq> None)" using inv unfolding mw_inv_def by blast
    with n False show ?thesis unfolding subtree_copyD(10,11)[OF sc] by (metis not_less)
  qed
  have "mw_inv w'"
    by (rule mw_invI[OF inv copy_dom_inv[OF sc] fr C(4)]) (use C(3) in simp_all)
  then show ?thesis using C(2,3,5) unfolding grows_def by simp
qed

text \<open>Cleaning and copying of data do not touch the tree.\<close>

definition tree_kept :: "mworld \<Rightarrow> mworld \<Rightarrow> bool" where
  "tree_kept w w' \<longleftrightarrow> doc w' = doc w \<and> tags w' = tags w \<and> stypes w' = stypes w \<and> fresh w' = fresh w \<and> fragments w' = fragments w"

lemma tree_kept_refl [simp]: "tree_kept w w"
  by (simp add: tree_kept_def)

lemma tree_kept_trans: "tree_kept a b \<Longrightarrow> tree_kept b c \<Longrightarrow> tree_kept a c"
  by (simp add: tree_kept_def)

lemma tree_kept_grows: "tree_kept w w' \<Longrightarrow> mw_inv w \<Longrightarrow> grows w w'"
  by (simp add: tree_kept_def grows_def mw_inv_def)

lemma clean_one_tree: "clean_one h e w = Some w' \<Longrightarrow> tree_kept w w'"
  by (auto simp: clean_one_def tree_kept_def split: if_splits Option.bind_splits)

lemma cleanData_tree: "cleanData h es w = Some w' \<Longrightarrow> tree_kept w w'"
proof (induction es arbitrary: w)
  case (Cons e es)
  then obtain w1 where "clean_one h e w = Some w1" "cleanData h es w1 = Some w'" by (auto split: Option.bind_splits)
  with Cons.IH clean_one_tree show ?case by (blast intro: tree_kept_trans)
qed simp

lemma cloneCopyEvent_tree: "cloneCopyEvent h a b w = Some w' \<Longrightarrow> tree_kept w w'"
  by (auto simp: cloneCopyEvent_def tree_kept_def Let_def split: if_splits option.splits)

lemma copy_events_tree: "copy_events h ps w = Some w' \<Longrightarrow> tree_kept w w'"
proof (induction ps arbitrary: w)
  case (Cons p ps)
  obtain a b where p: "p = (a, b)" by fastforce
  with Cons.prems obtain w1 where "cloneCopyEvent h a b w = Some w1" "copy_events h ps w1 = Some w'"
    by (auto split: Option.bind_splits)
  with Cons.IH cloneCopyEvent_tree show ?case by (blast intro: tree_kept_trans)
qed simp

lemma grows_inv: "grows w w' \<Longrightarrow> mw_inv w'"
  by (simp add: grows_def)

lemma grows_less: "grows w w' \<Longrightarrow> n < fresh w \<Longrightarrow> n < fresh w'"
  by (simp add: grows_def)

lemma grows_all: "grows w w' \<Longrightarrow> \<forall>n\<in>set ns. n < fresh w \<Longrightarrow> \<forall>n\<in>set ns. n < fresh w'"
  using grows_less by blast

lemma jq_clone_grows:
  assumes inv: "mw_inv w" and e: "e < fresh w" and c: "jq_clone h b b' e w = Some (n, w')"
  shows "grows w w' \<and> n = fresh w \<and> n < fresh w'"
proof -
  obtain w1 where w1: "cloneNode e w = (n, w1)" using c by (cases "cloneNode e w") (auto simp: jq_clone_def split: if_splits Option.bind_splits)
  have "tree_kept w1 w'"
  proof (cases b)
    case False
    with c w1 show ?thesis by (simp add: jq_clone_def)
  next
    case True
    with c w1 obtain w2 where "cloneCopyEvent h e n w1 = Some w2"
      "(if b' then copy_events h (zip (getAll w2 e) (getAll w2 n)) w2 else Some w2) = Some w'"
      by (auto simp: jq_clone_def split: Option.bind_splits)
    then show ?thesis by (auto simp: tree_kept_def split: if_splits dest!: cloneCopyEvent_tree copy_events_tree)
  qed
  moreover have g: "grows w w1 \<and> n = fresh w \<and> n < fresh w1" using cloneNode_grows[OF inv e w1] .
  ultimately show ?thesis using tree_kept_grows[of w1 w'] grows_trans[of w w1 w'] by (simp add: grows_def tree_kept_def)
qed

lemma clone_each_grows:
  "mw_inv w \<Longrightarrow> \<forall>n\<in>set es. n < fresh w \<Longrightarrow> clone_each h b b' es w = Some (ns, w') \<Longrightarrow> grows w w' \<and> (\<forall>n\<in>set ns. n < fresh w')"
proof (induction es arbitrary: w ns)
  case (Cons e es)
  then obtain c w1 cs where s: "jq_clone h b b' e w = Some (c, w1)" "clone_each h b b' es w1 = Some (cs, w')" "ns = c # cs"
    by (auto split: Option.bind_splits)
  from jq_clone_grows[OF Cons.prems(1) _ s(1)] Cons.prems(2) have g: "grows w w1" "c < fresh w1" by auto
  have "\<forall>n\<in>set es. n < fresh w" using Cons.prems(2) by simp
  from Cons.IH[OF grows_inv[OF g(1)] grows_all[OF g(1) this] s(2)] have k: "grows w1 w'" "\<forall>n\<in>set cs. n < fresh w'" by auto
  with grows_trans[OF g(1)] grows_less[OF k(1) g(2)] s(3) show ?case by simp
qed (simp add: grows_refl)

lemma fn_remove_grows: "mw_inv w \<Longrightarrow> fn_remove h sel keep es w = Some w' \<Longrightarrow> grows w w' \<and> fresh w' = fresh w"
proof (induction es arbitrary: w)
  case (Cons e es)
  obtain w1 where w1: "fn_remove h sel keep [e] w = Some w1" "fn_remove h sel keep es w1 = Some w'"
    using Cons.prems(2) by (auto split: Option.bind_splits)
  have "grows w w1 \<and> fresh w1 = fresh w"
  proof (cases "case sel of Some P \<Rightarrow> P e | None \<Rightarrow> True")
    case False
    with w1(1) Cons.prems(1) show ?thesis by (simp add: grows_refl)
  next
    case True
    with w1(1) obtain w0 where w0: "(if \<not> keep \<and> is_element (doc w) e then
        Option.bind (cleanData h (getAll w e) w) (cleanData h [e]) else Some w) = Some w0"
      and r: "(case parentNode (doc w0) e of Some p \<Rightarrow> removeChild p e w0 | None \<Rightarrow> Some w0) = Some w1"
      by (auto split: Option.bind_splits)
    have st: "tree_kept w w0" using w0 by (auto simp: tree_kept_def split: if_splits Option.bind_splits dest!: clean_one_tree cleanData_tree)
    then have g: "grows w w0" "fresh w0 = fresh w" using tree_kept_grows[OF _ Cons.prems(1)] by (simp_all add: tree_kept_def)
    from r have "grows w0 w1 \<and> fresh w1 = fresh w0"
      using removeChild_grows[OF grows_inv[OF g(1)]] grows_refl[OF grows_inv[OF g(1)]] by (auto split: option.splits)
    with g grows_trans[OF g(1)] show ?thesis by simp
  qed
  with Cons.IH[OF grows_inv _] w1(2) grows_trans show ?case by metis
qed (simp add: grows_refl)

lemma drain_grows: "drain e w = Some w' \<Longrightarrow> mw_inv w \<Longrightarrow> grows w w' \<and> fresh w' = fresh w \<and> childNodes (doc w') e = []"
proof (induction "length (childNodes (doc w) e)" arbitrary: w rule: less_induct)
  case less
  show ?case
  proof (cases "firstChild (doc w) e")
    case None
    with less.prems show ?thesis by (auto simp: drain.simps grows_refl firstChild_def head_def split: list.splits)
  next
    case (Some c)
    with less.prems(1) obtain w1 where w1: "removeChild e c w = Some w1" "drain e w1 = Some w'"
      by (auto simp: drain.simps[of e w] split: Option.bind_splits)
    from removeChild_grows[OF less.prems(2) w1(1)] have g: "grows w w1" "fresh w1 = fresh w" by auto
    have "childNodes (doc w1) e = filter (\<lambda>x. x \<noteq> c) (childNodes (doc w) e)" "c \<in> set (childNodes (doc w) e)"
      using w1(1) cut_children[OF mw_invD(1)[OF less.prems(2)]] Some
      by (auto simp: removeChild_def firstChild_def head_def split: if_splits list.splits)
    then have "length (childNodes (doc w1) e) < length (childNodes (doc w) e)" by (simp add: length_filter_less)
    from less.hyps[OF this w1(2) grows_inv[OF g(1)]] g grows_trans[OF g(1)] show ?thesis by simp
  qed
qed

lemma drain_ends: "mw_inv w \<Longrightarrow> \<exists>w'. drain e w = Some w'"
proof (induction "length (childNodes (doc w) e)" arbitrary: w rule: less_induct)
  case less
  show ?case
  proof (cases "firstChild (doc w) e")
    case None
    then show ?thesis by (simp add: drain.simps)
  next
    case (Some c)
    then have c: "c \<in> set (childNodes (doc w) e)" by (auto simp: firstChild_def head_def split: list.splits)
    then obtain w1 where w1: "removeChild e c w = Some w1" using dom_invD(1)[OF mw_invD(1)[OF less.prems]] by (auto simp: removeChild_def)
    then have "childNodes (doc w1) e = filter (\<lambda>x. x \<noteq> c) (childNodes (doc w) e)"
      using cut_children[OF mw_invD(1)[OF less.prems]] by (auto simp: removeChild_def split: if_splits)
    with c have "length (childNodes (doc w1) e) < length (childNodes (doc w) e)" by (simp add: length_filter_less)
    moreover have "mw_inv w1" using removeChild_grows[OF less.prems w1] grows_inv by blast
    ultimately show ?thesis using less.hyps Some w1 by (simp add: drain.simps[of e w])
  qed
qed

lemma drain_data: "drain e w = Some w' \<Longrightarrow> reg w' = reg w \<and> udata w' = udata w"
proof (rule drain.raw_induct[of "\<lambda>e w w'. reg w' = reg w \<and> udata w' = udata w"])
  fix rec e w w'
  assume IH: "\<And>e w w'. rec e w = Some w' \<Longrightarrow> reg w' = reg w \<and> udata w' = udata w"
    and body: "(case firstChild (doc w) e of None \<Rightarrow> Some w | Some c \<Rightarrow> do { w1 \<leftarrow> removeChild e c w; rec e w1 }) = Some w'"
  show "reg w' = reg w \<and> udata w' = udata w"
  proof (cases "firstChild (doc w) e")
    case None
    with body show ?thesis by simp
  next
    case (Some c)
    with body obtain w1 where "removeChild e c w = Some w1" "rec e w1 = Some w'" by (auto split: Option.bind_splits)
    with IH[of e w1 w'] show ?thesis by (simp add: removeChild_def split: if_splits) force
  qed
qed

lemma fn_empty_grows: "mw_inv w \<Longrightarrow> fn_empty h es w = Some w' \<Longrightarrow> grows w w' \<and> fresh w' = fresh w"
proof (induction es arbitrary: w)
  case (Cons e es)
  then obtain w1 w2 where s: "(if is_element (doc w) e then cleanData h (getAll w e) w else Some w) = Some w1"
    "drain e w1 = Some w2" "fn_empty h es w2 = Some w'" by (auto split: Option.bind_splits)
  have "tree_kept w w1" using s(1) cleanData_tree by (auto split: if_splits)
  then have g: "grows w w1" "fresh w1 = fresh w" using tree_kept_grows[OF _ Cons.prems(1)] by (simp_all add: tree_kept_def)
  from drain_grows[OF s(2) grows_inv[OF g(1)]] have g2: "grows w1 w2" "fresh w2 = fresh w1" by auto
  from Cons.IH[OF grows_inv[OF g2(1)] s(3)] g g2 grows_trans show ?case by metis
qed (simp add: grows_refl)

text \<open>What the host's parser and the scripts must not do is to spoil the tree.\<close>

definition tree_host :: "mhost \<Rightarrow> bool" where
  "tree_host h \<longleftrightarrow>
     (\<forall>s w n w'. innerHTML h s w = Some (n, w') \<longrightarrow> mw_inv w \<longrightarrow> grows w w' \<and> n < fresh w') \<and>
     (\<forall>e s w w'. set_html h e s w = Some w' \<longrightarrow> mw_inv w \<longrightarrow> grows w w') \<and>
     (\<forall>s w w'. run_script h s w = Some w' \<longrightarrow> mw_inv w \<longrightarrow> grows w w')"

lemma tree_hostD:
  assumes "tree_host h" and "mw_inv w"
  shows "innerHTML h s w = Some (n, w') \<Longrightarrow> grows w w' \<and> n < fresh w'" "run_script h k w = Some w' \<Longrightarrow> grows w w'"
    "set_html h k s w = Some w' \<Longrightarrow> grows w w'"
  using assms unfolding tree_host_def by blast+

fun marg_below :: "nat \<Rightarrow> marg \<Rightarrow> bool" where
  "marg_below k (MNode n) = (n < k)"
| "marg_below k (MNodes ns) = (\<forall>n\<in>set ns. n < k)"
| "marg_below k _ = True"

abbreviation all_below :: "nat \<Rightarrow> nat list \<Rightarrow> bool" where
  "all_below k ns \<equiv> \<forall>n\<in>set ns. n < k"

lemma marg_below_mono: "marg_below k a \<Longrightarrow> k \<le> k' \<Longrightarrow> marg_below k' a"
  by (cases a) auto

lemma kids_below: "mw_inv w \<Longrightarrow> all_below (fresh w) (childNodes (doc w) n)"
  using mw_invD(3) by blast

lemma parent_below: "mw_inv w \<Longrightarrow> parentNode (doc w) n = Some p \<Longrightarrow> p < fresh w"
  using mw_invD(2) by blast

lemma new_node_grows': "mw_inv w \<Longrightarrow> new_node ty t v w = (n, w') \<Longrightarrow> grows w w' \<and> n < fresh w'"
  using new_node_grows by auto

lemma text_nodes_grows:
  assumes h: "tree_host h" and inv: "mw_inv w" and s: "text_nodes h s w = Some (ns, w')"
  shows "grows w w' \<and> all_below (fresh w') ns"
proof (cases "s = [] \<or> \<not> rhtml s")
  case True
  with s inv show ?thesis
    by (auto simp: text_nodes_def createTextNode_def grows_refl dest: new_node_grows' split: if_splits prod.splits)
next
  case False
  with s obtain box n t where b: "innerHTML h t w = Some (box, w')" "ns = childNodes (doc w') n"
    by (auto simp: text_nodes_def parse_nodes_def Let_def split: prod.splits option.splits Option.bind_splits)
  with tree_hostD(1)[OF h inv b(1)] kids_below[OF grows_inv] show ?thesis by blast
qed

lemma clean_args_grows:
  assumes h: "tree_host h"
  shows "mw_inv w \<Longrightarrow> \<forall>a\<in>set args. marg_below (fresh w) a \<Longrightarrow> clean_args h args w = Some (ns, w') \<Longrightarrow> grows w w' \<and> all_below (fresh w') ns"
proof (induction args arbitrary: w ns)
  case (Cons a as)
  show ?case
  proof (cases "a = MNull")
    case True
    with Cons.prems show ?thesis by (simp add: grows_refl)
  next
    case False
    with Cons.prems(3) obtain n1 w1 n2 where s: "(case a of MText s \<Rightarrow> text_nodes h s w | MNumber i \<Rightarrow> text_nodes h (show_int i) w
        | MNode n \<Rightarrow> Some ([n], w) | MNodes ns \<Rightarrow> Some (ns, w) | MNull \<Rightarrow> Some ([], w)) = Some (n1, w1)"
      "clean_args h as w1 = Some (n2, w')" "ns = n1 @ n2"
      by (auto split: Option.bind_splits)
    have g: "grows w w1 \<and> all_below (fresh w1) n1"
      using s(1) text_nodes_grows[OF h Cons.prems(1)] grows_refl[OF Cons.prems(1)] Cons.prems(2) by (cases a) auto
    have "\<forall>a\<in>set as. marg_below (fresh w1) a" using Cons.prems(2) g marg_below_mono unfolding grows_def by auto
    from Cons.IH[OF grows_inv this s(2)] g have k: "grows w1 w'" "all_below (fresh w') n2" by auto
    from g have g1: "grows w w1" "all_below (fresh w1) n1" by auto
    show ?thesis using grows_trans[OF g1(1) k(1)] grows_all[OF k(1) g1(2)] k(2) s(3) by auto
  qed
qed (simp add: grows_refl)

lemma unlink_grows: "mw_inv w \<Longrightarrow> (case parentNode (doc w) n of Some p \<Rightarrow> removeChild p n w | None \<Rightarrow> Some w) = Some w' \<Longrightarrow> grows w w'"
  using removeChild_grows grows_refl by (auto split: option.splits)

lemma getAll_below: "mw_inv w \<Longrightarrow> n < fresh w \<Longrightarrow> all_below (fresh w) (getAll w n)"
proof
  fix c assume inv: "mw_inv w" and n: "n < fresh w" and c: "c \<in> set (getAll w n)"
  have "c \<in> set (nodes_of w n)" using c nodes_of_hd[of w n] list.set_sel(2)[of "nodes_of w n" c] by (auto simp: getAll_def)
  then have "below (doc w) c n" using nodes_of_below[OF inv] by blast
  then show "c < fresh w" using n mw_invD(2)[OF inv] by (auto elim: converse_rtranclpE)
qed

definition filled :: "nat \<Rightarrow> nat list \<Rightarrow> mworld \<Rightarrow> nat list \<times> mworld \<Rightarrow> bool" where
  "filled f ret w r \<longleftrightarrow> (mw_inv w \<longrightarrow> f < fresh w \<longrightarrow> all_below (fresh w) ret \<longrightarrow> grows w (snd r) \<and> all_below (fresh (snd r)) (fst r))"

lemma filled_step:
  assumes IH: "\<And>ns w r. rec f ns w = Some r \<Longrightarrow> filled f ns w r"
    and body: "(if is_tag w n ''script'' \<and> js_type w n then do {
          w1 \<leftarrow> (case parentNode (doc w) n of Some p \<Rightarrow> removeChild p n w | None \<Rightarrow> Some w);
          (scripts, w2) \<leftarrow> rec f ns w1;
          Some (n # scripts, w2)
        } else do {
          w1 \<leftarrow> appendChild f n w;
          rec f ((if is_element (doc w) n then inner_scripts w n else []) @ ns) w1
        }) = Some r"
  shows "filled f (n # ns) w r"
  unfolding filled_def
proof (intro impI)
  assume inv: "mw_inv w" and f: "f < fresh w" and b: "all_below (fresh w) (n # ns)"
  show "grows w (snd r) \<and> all_below (fresh (snd r)) (fst r)"
  proof (cases "is_tag w n ''script'' \<and> js_type w n")
    case True
    with body obtain w1 ss w2 where s: "(case parentNode (doc w) n of Some p \<Rightarrow> removeChild p n w | None \<Rightarrow> Some w) = Some w1"
      "rec f ns w1 = Some (ss, w2)" "r = (n # ss, w2)" by (auto split: Option.bind_splits)
    have g: "grows w w1" using unlink_grows[OF inv s(1)] .
    with IH[OF s(2)] f b have k: "grows w1 w2" "all_below (fresh w2) ss"
      using grows_inv[OF g] grows_less[OF g] by (auto simp: filled_def)
    with g grows_trans[OF g k(1)] b show ?thesis by (auto simp: s(3) dest: grows_less)
  next
    case False
    with body obtain w1 where s: "appendChild f n w = Some w1"
      "rec f ((if is_element (doc w) n then inner_scripts w n else []) @ ns) w1 = Some r" by (auto split: Option.bind_splits)
    have g: "grows w w1" using insertBefore_grows[OF inv f _ s(1)[unfolded appendChild_def]] b by simp
    have "all_below (fresh w) (inner_scripts w n)" using getAll_below[OF inv, of n] b by (auto simp: inner_scripts_def)
    with IH[OF s(2)] f b have "grows w1 (snd r) \<and> all_below (fresh (snd r)) (fst r)"
      using grows_inv[OF g] grows_less[OF g] by (auto simp: filled_def)
    with grows_trans[OF g] show ?thesis by blast
  qed
qed

lemma fill_filled: "fill f ret w = Some r \<Longrightarrow> filled f ret w r"
proof (rule fill.raw_induct[of filled])
  fix rec f ret w r
  assume IH: "\<And>f ns w r. rec f ns w = Some r \<Longrightarrow> filled f ns w r"
    and body: "(case ret of [] \<Rightarrow> Some ([], w)
      | n # ns \<Rightarrow> if is_tag w n ''script'' \<and> js_type w n then do {
          w1 \<leftarrow> (case parentNode (doc w) n of Some p \<Rightarrow> removeChild p n w | None \<Rightarrow> Some w);
          (scripts, w2) \<leftarrow> rec f ns w1;
          Some (n # scripts, w2)
        } else do {
          w1 \<leftarrow> appendChild f n w;
          rec f ((if is_element (doc w) n then inner_scripts w n else []) @ ns) w1
        }) = Some r"
  show "filled f ret w r"
  proof (cases ret)
    case Nil
    with body show ?thesis by (auto simp: filled_def grows_refl)
  next
    case (Cons n ns)
    with filled_step[OF IH, where w = w and n = n and ns = ns] body show ?thesis by simp
  qed
qed

lemma fill_grows:
  assumes "fill f ret w = Some (ss, w')" and "mw_inv w" and "f < fresh w" and "all_below (fresh w) ret"
  shows "grows w w' \<and> all_below (fresh w') ss"
  using fill_filled[OF assms(1)] assms(2-) by (simp add: filled_def)

lemma buildFragment_grows:
  assumes h: "tree_host h" and inv: "mw_inv w" and a: "\<forall>a\<in>set args. marg_below (fresh w) a"
    and b: "buildFragment h args w = Some (f, keep, ss, w')"
  shows "grows w w' \<and> f < fresh w' \<and> all_below (fresh w') ss"
proof -
  define key cached where "key = cacheable args" and "cached = (case key of Some s \<Rightarrow> fragments w s | None \<Rightarrow> None)"
  obtain w1 where s: "(case cached of Some (Some f) \<Rightarrow> Some (f, [], w)
          | _ \<Rightarrow> (let (f, w0) = createFragment w in do { (scripts, w1) \<leftarrow> jq_clean h args f w0; Some (f, scripts, w1) })) = Some (f, ss, w1)"
    and w': "w' = (case key of Some s \<Rightarrow> w1\<lparr>fragments := (fragments w1)(s := Some (if cached \<noteq> None then Some f else None))\<rparr> | None \<Rightarrow> w1)"
    using b unfolding buildFragment_def Let_def key_def[symmetric] cached_def[symmetric]
    by (auto split: Option.bind_splits)
  have g: "grows w w1 \<and> f < fresh w1 \<and> all_below (fresh w1) ss"
  proof (cases "\<exists>f'. cached = Some (Some f')")
    case True
    then obtain f' where f': "cached = Some (Some f')" by blast
    then have "f' < fresh w" using inv unfolding mw_inv_def cached_def by (auto split: option.splits)
    with f' s inv show ?thesis by (simp add: grows_refl)
  next
    case False
    then have "(let (f, w0) = createFragment w in do { (scripts, w1) \<leftarrow> jq_clean h args f w0; Some (f, scripts, w1) }) = Some (f, ss, w1)"
      using s by (auto split: option.splits)
    then obtain w0 ns w2 where c: "createFragment w = (f, w0)" "clean_args h args w0 = Some (ns, w2)" "fill f ns w2 = Some (ss, w1)"
      by (auto simp: jq_clean_def split: Option.bind_splits prod.splits)
    from new_node_grows'[OF inv c(1)[unfolded createFragment_def]] have g0: "grows w w0" "f < fresh w0" by auto
    have "\<forall>a\<in>set args. marg_below (fresh w0) a" using a g0(1) marg_below_mono unfolding grows_def by blast
    from clean_args_grows[OF h grows_inv[OF g0(1)] this c(2)] have g2: "grows w0 w2" "all_below (fresh w2) ns" by auto
    from fill_grows[OF c(3) grows_inv[OF g2(1)] grows_less[OF g2(1) g0(2)] g2(2)] have g3: "grows w2 w1" "all_below (fresh w1) ss" by auto
    from grows_trans[OF grows_trans[OF g0(1) g2(1)] g3(1)] grows_less[OF g3(1) grows_less[OF g2(1) g0(2)]] g3(2) show ?thesis by blast
  qed
  have "mw_inv w'"
  proof (cases key)
    case None
    with g w' show ?thesis using grows_inv[of w w1] by simp
  next
    case (Some k)
    have fr: "fragments w' s = Some (Some f') \<Longrightarrow> f' < fresh w1" for s f'
      using g grows_inv[of w w1] unfolding w' Some mw_inv_def by (auto split: if_splits)
    show ?thesis using g grows_inv[of w w1] fr unfolding mw_inv_def by (simp add: w' Some)
  qed
  then show ?thesis using g unfolding w' grows_def by (auto split: option.splits)
qed

lemma put_grows:
  assumes inv: "mw_inv w" and e: "e < fresh w" and p: "put hw e n w = Some w'" and n: "n < fresh w"
  shows "grows w w'"
proof -
  have ib: "grows w w'" if "insertBefore q n r w = Some w'" "q < fresh w" for q r
    using insertBefore_grows[OF inv that(2) n that(1)] by blast
  show ?thesis
  proof (cases hw)
    case Append
    with p ib e grows_refl[OF inv] show ?thesis by (cases "is_element (doc w) e") (simp_all add: put_def appendChild_def)
  next
    case Prepend
    with p ib e grows_refl[OF inv] show ?thesis by (cases "is_element (doc w) e") (simp_all add: put_def)
  next
    case Before
    with p obtain q where "parentNode (doc w) e = Some q" "insertBefore q n (Some e) w = Some w'"
      by (cases "parentNode (doc w) e") (simp_all add: put_def)
    with ib parent_below[OF inv] show ?thesis by blast
  next
    case After
    with p obtain q where "parentNode (doc w) e = Some q" "insertBefore q n (nextSibling (doc w) e) w = Some w'"
      by (cases "parentNode (doc w) e") (simp_all add: put_def)
    with ib parent_below[OF inv] show ?thesis by blast
  qed
qed

lemma table_root_grows:
  assumes "mw_inv w" and "e < fresh w" and "table_root e w = Some (e', w')"
  shows "grows w w' \<and> e' < fresh w'"
proof (cases "is_tag w e ''table'' \<and> filter (\<lambda>n. is_tag w n ''tbody'') (getAll w e) = []")
  case True
  then obtain w1 where s: "new_node 1 ''TBODY'' [] w = (e', w1)" "appendChild e e' w1 = Some w'"
    using assms(3) by (auto simp: table_root_def split: Option.bind_splits prod.splits)
  from new_node_grows'[OF assms(1) s(1)] have g: "grows w w1" "e' < fresh w1" by auto
  from insertBefore_grows[OF grows_inv[OF g(1)] grows_less[OF g(1) assms(2)] g(2) s(2)[unfolded appendChild_def]]
  have "grows w1 w'" by simp
  with g grows_trans grows_less show ?thesis by blast
next
  case False
  then have "w' = w \<and> (e' = e \<or> e' \<in> set (getAll w e))"
    using assms(3) by (fastforce simp: table_root_def filter_eq_Cons_iff split: if_splits list.splits)
  with assms(1,2) getAll_below[OF assms(1,2)] show ?thesis by (auto simp: grows_refl)
qed

lemma put_each_grows:
  "mw_inv w \<Longrightarrow> n < fresh w \<Longrightarrow> all_below (fresh w) es \<Longrightarrow> put_each h hw table keep n es w = Some w' \<Longrightarrow> grows w w'"
proof (induction es arbitrary: w)
  case (Cons e es)
  from Cons.prems(4) obtain t w1 m w2 w3 where s: "(if table then table_root e w else Some (e, w)) = Some (t, w1)"
    "(if keep \<or> es \<noteq> [] then jq_clone h True True n w1 else Some (n, w1)) = Some (m, w2)"
    "put hw t m w2 = Some w3" "put_each h hw table keep n es w3 = Some w'"
    by (auto split: Option.bind_splits)
  have g1: "grows w w1" "t < fresh w1"
    using s(1) table_root_grows[OF Cons.prems(1)] Cons.prems(1,3) by (auto simp: grows_refl split: if_splits)
  have n1: "n < fresh w1" using grows_less[OF g1(1) Cons.prems(2)] .
  have g2: "grows w1 w2" "m < fresh w2"
    using s(2) jq_clone_grows[OF grows_inv[OF g1(1)] n1] n1 grows_refl[OF grows_inv[OF g1(1)]] by (auto split: if_splits)
  have g3: "grows w2 w3" using put_grows[OF grows_inv[OF g2(1)] grows_less[OF g2(1) g1(2)] s(3) g2(2)] .
  have g: "grows w w3" using g1(1) g2(1) g3 grows_trans by blast
  from Cons.IH[OF grows_inv[OF g] grows_less[OF g Cons.prems(2)] _ s(4)] Cons.prems(3) grows_all[OF g, of es] grows_trans[OF g]
  show ?case by simp
qed (simp add: grows_refl)

lemma eval_scripts_grows: "tree_host h \<Longrightarrow> mw_inv w \<Longrightarrow> eval_scripts h ss w = Some w' \<Longrightarrow> grows w w'"
proof (induction ss arbitrary: w)
  case (Cons s ss)
  then obtain w1 w2 where s: "run_script h s w = Some w1"
    "(case parentNode (doc w1) s of Some p \<Rightarrow> removeChild p s w1 | None \<Rightarrow> Some w1) = Some w2" "eval_scripts h ss w2 = Some w'"
    by (auto split: Option.bind_splits)
  from tree_hostD(2)[OF Cons.prems(1,2) s(1)] have g: "grows w w1" .
  from unlink_grows[OF grows_inv[OF g] s(2)] have g2: "grows w1 w2" .
  from Cons.IH[OF Cons.prems(1) grows_inv[OF g2] s(3)] g g2 grows_trans show ?case by blast
qed (simp add: grows_refl)

lemma domManip_grows:
  assumes h: "tree_host h" and inv: "mw_inv w" and a: "\<forall>a\<in>set args. marg_below (fresh w) a" and t: "all_below (fresh w) this"
    and s: "domManip h hw table args this w = Some w'"
  shows "grows w w'"
proof (cases "this = []")
  case True
  with s inv show ?thesis by (simp add: domManip_def grows_refl)
next
  case False
  with s obtain f keep ss w1 w2 where c: "manip_fragment h args this w = Some (f, keep, ss, w1)"
    "(case childNodes (doc w1) f of [] \<Rightarrow> Some w1 | first # rest \<Rightarrow>
        put_each h hw (table \<and> is_tag w1 first ''tr'') keep (if rest = [] then first else f) this w1) = Some w2"
    "eval_scripts h ss w2 = Some w'"
    by (auto simp: domManip_def split: Option.bind_splits)
  have g1: "grows w w1 \<and> f < fresh w1"
  proof (cases "parent_fragment args this w")
    case None
    with c(1) buildFragment_grows[OF h inv a, of f keep ss w1] show ?thesis by (simp add: manip_fragment_def)
  next
    case (Some p)
    then have "p < fresh w" using parent_below[OF inv] by (auto simp: parent_fragment_def split: list.splits marg.splits option.splits if_splits)
    with Some c(1) inv show ?thesis by (simp add: manip_fragment_def grows_refl)
  qed
  then have g1': "grows w w1" "f < fresh w1" by auto
  have kb: "all_below (fresh w1) (childNodes (doc w1) f)" using kids_below[OF grows_inv[OF g1'(1)]] .
  have g2: "grows w1 w2"
  proof (cases "childNodes (doc w1) f")
    case Nil
    with c(2) grows_refl[OF grows_inv[OF g1'(1)]] show ?thesis by simp
  next
    case (Cons x xs)
    with c(2) have p: "put_each h hw (table \<and> is_tag w1 x ''tr'') keep (if xs = [] then x else f) this w1 = Some w2" by simp
    have "(if xs = [] then x else f) < fresh w1" using g1'(2) kb Cons by simp
    from put_each_grows[OF grows_inv[OF g1'(1)] this grows_all[OF g1'(1) t] p] show ?thesis .
  qed
  from eval_scripts_grows[OF h grows_inv[OF g2] c(3)] g1'(1) g2 grows_trans show ?thesis by blast
qed

lemma insert_at_grows:
  assumes "tree_host h" "mw_inv w" "\<forall>a\<in>set args. marg_below (fresh w) a" "all_below (fresh w) this"
    "insert_at h hw args nodes this w = Some w'"
  shows "grows w w'"
  using assms(5) domManip_grows[OF assms(1-4)] grows_refl[OF assms(2)]
  by (cases hw) (auto simp: insert_at_def fn_append_def fn_prepend_def fn_before_def fn_after_def split: if_splits)

lemma fn_clone_grows:
  "mw_inv w \<Longrightarrow> all_below (fresh w) es \<Longrightarrow> fn_clone h b b' es w = Some (ns, w') \<Longrightarrow> grows w w' \<and> all_below (fresh w') ns"
  using clone_each_grows unfolding fn_clone_def Let_def by blast

lemma insert_each_grows:
  assumes h: "tree_host h"
  shows "mw_inv w \<Longrightarrow> all_below (fresh w) this \<Longrightarrow> all_below (fresh w) ts \<Longrightarrow> insert_each h hw again this ts w = Some (ns, w') \<Longrightarrow>
    grows w w' \<and> all_below (fresh w') ns"
proof (induction ts arbitrary: w again ns)
  case (Cons t ts)
  then obtain es w1 w2 rest where s: "(if again then fn_clone h (Some True) None this w else Some (this, w)) = Some (es, w1)"
    "insert_at h hw [MNodes es] es [t] w1 = Some w2" "insert_each h hw True this ts w2 = Some (rest, w')" "ns = es @ rest"
    by (auto split: Option.bind_splits)
  have g1: "grows w w1" "all_below (fresh w1) es"
    using s(1) fn_clone_grows[OF Cons.prems(1,2)] Cons.prems(2) grows_refl[OF Cons.prems(1)] by (auto split: if_splits)
  have "\<forall>a\<in>set [MNodes es]. marg_below (fresh w1) a" using g1(2) by simp
  moreover have "all_below (fresh w1) [t]" using grows_less[OF g1(1)] Cons.prems(3) by simp
  ultimately have g2: "grows w1 w2" using insert_at_grows[OF h grows_inv[OF g1(1)] _ _ s(2)] by blast
  have g: "grows w w2" using grows_trans[OF g1(1) g2] .
  have "all_below (fresh w2) ts" using grows_all[OF g, of ts] Cons.prems(3) by simp
  from Cons.IH[OF grows_inv[OF g] grows_all[OF g Cons.prems(2)] this s(3)] have k: "grows w2 w'" "all_below (fresh w') rest" by auto
  have "all_below (fresh w') es" using grows_all[OF grows_trans[OF g2 k(1)] g1(2)] .
  with grows_trans[OF g k(1)] k(2) s(4) show ?case by auto
qed (simp add: grows_refl)

lemma insert_to_grows:
  assumes h: "tree_host h" and w: "mw_inv w" "all_below (fresh w) this" "all_below (fresh w) ts"
    and s: "insert_to h hw ts this w = Some (ns, w')"
  shows "grows w w' \<and> all_below (fresh w') ns"
proof (cases "\<exists>e t p. this = [e] \<and> ts = [t] \<and> parentNode (doc w) e = Some p \<and> ntype (doc w) p = 11 \<and> length (childNodes (doc w) p) = 1")
  case True
  then obtain e t where "this = [e]" "ts = [t]" by blast
  with True s have c: "insert_at h hw [MNode e] [e] ts w = Some w'" "ns = this" "this = [e]" by (auto simp: insert_to_def)
  have "grows w w'" using insert_at_grows[OF h w(1) _ w(3) c(1)] w(2) c(3) by simp
  with c w(2) show ?thesis using grows_all by blast
next
  case False
  then have "insert_each h hw False this ts w = Some (ns, w')"
    using s by (auto simp: insert_to_def split: list.splits option.splits if_splits)
  from insert_each_grows[OF h w this] show ?thesis .
qed

lemma fn_text_grows:
  assumes h: "tree_host h" and inv: "mw_inv w" and t: "all_below (fresh w) this" and s: "fn_text h s this w = Some w'"
  shows "grows w w'"
proof -
  from s obtain w1 n w2 where c: "fn_empty h this w = Some w1" "createTextNode s w1 = (n, w2)" "fn_append h [MNode n] this w2 = Some w'"
    by (auto simp: fn_text_def split: Option.bind_splits prod.splits)
  from fn_empty_grows[OF inv c(1)] have g1: "grows w w1" by simp
  from new_node_grows'[OF grows_inv[OF g1] c(2)[unfolded createTextNode_def]] have g2: "grows w1 w2" "n < fresh w2" by auto
  have g: "grows w w2" using grows_trans[OF g1 g2(1)] .
  have "grows w2 w'" using domManip_grows[OF h grows_inv[OF g] _ grows_all[OF g t] c(3)[unfolded fn_append_def]] g2(2) by simp
  with grows_trans[OF g] show ?thesis .
qed

definition rvalue_below :: "nat \<Rightarrow> rvalue \<Rightarrow> bool" where
  "rvalue_below k v = (case v of RText s \<Rightarrow> True | RNodes ns \<Rightarrow> all_below k ns)"

lemma nextSibling_below: "mw_inv w \<Longrightarrow> nextSibling (doc w) e = Some n \<Longrightarrow> n < fresh w"
proof -
  assume inv: "mw_inv w" and n: "nextSibling (doc w) e = Some n"
  then have m: "n \<in> set (after e (siblings_of (doc w) e))" by (auto simp: nextSibling_def head_def split: list.splits)
  show "n < fresh w"
  proof (cases "parentNode (doc w) e")
    case None
    with m show ?thesis by (simp add: siblings_of_def after_def)
  next
    case (Some p)
    from m have "n \<in> set (siblings_of (doc w) e)" by (auto simp: after_def dest!: in_set_dropD set_dropWhileD)
    with Some mw_invD(3)[OF inv, of n p] show ?thesis by (simp add: siblings_of_def)
  qed
qed

lemma html_each_grows: "tree_host h \<Longrightarrow> mw_inv w \<Longrightarrow> html_each h s es w = Some (ok, w') \<Longrightarrow> grows w w'"
proof (induction es arbitrary: w)
  case (Cons e es)
  show ?case
  proof (cases "is_element (doc w) e")
    case False
    with Cons show ?thesis by simp
  next
    case True
    with Cons.prems(3) obtain w1 where w1: "cleanData h (getAll w e) w = Some w1"
      and r: "(case set_html h e s w1 of None \<Rightarrow> Some (False, w1) | Some w2 \<Rightarrow> html_each h s es w2) = Some (ok, w')"
      by (auto split: Option.bind_splits)
    have g: "grows w w1" using tree_kept_grows[OF cleanData_tree[OF w1] Cons.prems(2)] .
    show ?thesis
    proof (cases "set_html h e s w1")
      case None
      with r g show ?thesis by simp
    next
      case (Some w2)
      with tree_hostD(3)[OF Cons.prems(1) grows_inv[OF g]] have g2: "grows w1 w2" by blast
      from Some r have "html_each h s es w2 = Some (ok, w')" by simp
      from Cons.IH[OF Cons.prems(1) grows_inv[OF g2] this] g g2 grows_trans show ?thesis by blast
    qed
  qed
qed (simp add: grows_refl)

lemma empty_append_grows:
  assumes h: "tree_host h" and inv: "mw_inv w" and t: "all_below (fresh w) this" and v: "marg_below (fresh w) v"
    and s: "empty_append h v this w = Some w'"
  shows "grows w w'"
proof -
  from s obtain w1 where c: "fn_empty h this w = Some w1" "domManip h Append True [v] this w1 = Some w'"
    by (auto simp: empty_append_def fn_append_def split: Option.bind_splits)
  from fn_empty_grows[OF inv c(1)] have g: "grows w w1" "fresh w1 = fresh w" by auto
  with domManip_grows[OF h grows_inv[OF g(1)] _ _ c(2)] t v grows_trans[OF g(1)] show ?thesis by simp
qed

lemma fn_html_grows:
  assumes h: "tree_host h" and inv: "mw_inv w" and t: "all_below (fresh w) this" and v: "marg_below (fresh w) v"
    and s: "fn_html h v this w = Some w'"
  shows "grows w w'"
proof (cases "\<exists>s. v = MText s \<and> \<not> rnocache s \<and> wrapMap (to_lower (rtagName s)) = None")
  case True
  then obtain x where x: "v = MText x" "\<not> rnocache x" "wrapMap (to_lower (rtagName x)) = None" by blast
  with s obtain ok w1 where c: "html_each h (fix_tags x) this w = Some (ok, w1)"
    "(if ok then Some w1 else empty_append h (MText (fix_tags x)) this w1) = Some w'"
    by (auto simp: fn_html_def simp del: not_None_eq split: Option.bind_splits)
  from html_each_grows[OF h inv c(1)] have g: "grows w w1" .
  have "ok = False \<Longrightarrow> grows w1 w'"
    using empty_append_grows[OF h grows_inv[OF g] grows_all[OF g t], of "MText (fix_tags x)"] c(2) by simp
  with c(2) g grows_trans[OF g] show ?thesis by (cases ok) auto
next
  case False
  with s have "empty_append h v this w = Some w'" by (auto simp: fn_html_def split: marg.splits if_splits)
  from empty_append_grows[OF h inv t v this] show ?thesis .
qed

lemma replace_each_grows:
  assumes h: "tree_host h"
  shows "mw_inv w \<Longrightarrow> rvalue_below (fresh w) v \<Longrightarrow> replace_each h v es w = Some w' \<Longrightarrow> grows w w'"
proof (induction es arbitrary: w)
  case (Cons e es)
  then obtain w1 w2 where s: "fn_remove h None False [e] w = Some w1"
    "(case nextSibling (doc w) e of
         Some n \<Rightarrow> map_option snd (fn_before h [rvalue_arg v] (case v of RNodes ns \<Rightarrow> ns | RText s \<Rightarrow> []) [n] w1)
       | None \<Rightarrow> fn_append h [rvalue_arg v] (case parentNode (doc w) e of Some p \<Rightarrow> [p] | None \<Rightarrow> []) w1) = Some w2"
    "replace_each h v es w2 = Some w'"
    by (auto simp del: fn_remove.simps split: Option.bind_splits)
  from fn_remove_grows[OF Cons.prems(1) s(1)] have g1: "grows w w1" by simp
  have a: "\<forall>a\<in>set [rvalue_arg v]. marg_below (fresh w1) a"
    using Cons.prems(2) g1 by (cases v) (auto simp: rvalue_arg_def rvalue_below_def dest: grows_less)
  note dm = domManip_grows[OF h grows_inv[OF g1] a]
  have g2: "grows w1 w2"
  proof (cases "nextSibling (doc w) e")
    case None
    have "all_below (fresh w1) (case parentNode (doc w) e of Some p \<Rightarrow> [p] | None \<Rightarrow> [])"
      using parent_below[OF Cons.prems(1)] grows_less[OF g1] by (auto split: option.splits)
    from dm[OF this] s(2) None show ?thesis by (simp add: fn_append_def)
  next
    case (Some n)
    have "all_below (fresh w1) [n]" using nextSibling_below[OF Cons.prems(1) Some] grows_less[OF g1] by simp
    from dm[OF this] s(2) Some grows_refl[OF grows_inv[OF g1]] show ?thesis by (auto simp: fn_before_def split: if_splits)
  qed
  have g: "grows w w2" using grows_trans[OF g1 g2] .
  have "rvalue_below (fresh w2) v" using Cons.prems(2) g by (cases v) (auto simp: rvalue_below_def dest: grows_less)
  from Cons.IH[OF grows_inv[OF g] this s(3)] grows_trans[OF g] show ?case by blast
qed (simp add: grows_refl)

lemma replaceWith_grows:
  assumes h: "tree_host h" and inv: "mw_inv w" and v: "rvalue_below (fresh w) v" and s: "replaceWith h v es w = Some w'"
  shows "grows w w'"
proof (cases "in_tree es w")
  case False
  with s inv show ?thesis by (simp add: replaceWith_def grows_refl)
next
  case True
  with s obtain w1 where c: "(case v of RNodes ns \<Rightarrow> fn_detach h None ns w | RText s \<Rightarrow> Some w) = Some w1" "replace_each h v es w1 = Some w'"
    by (auto simp: replaceWith_def split: Option.bind_splits)
  have g: "grows w w1" using c(1) grows_refl[OF inv] fn_remove_grows[OF inv] by (auto simp: fn_detach_def split: rvalue.splits)
  have "rvalue_below (fresh w1) v" using v g by (cases v) (auto simp: rvalue_below_def dest: grows_less)
  from replace_each_grows[OF h grows_inv[OF g] this c(2)] grows_trans[OF g] show ?thesis by blast
qed

lemma unwrap_grows: "tree_host h \<Longrightarrow> mw_inv w \<Longrightarrow> unwrap h ps w = Some w' \<Longrightarrow> grows w w'"
proof (induction ps arbitrary: w)
  case (Cons p ps)
  then obtain w1 where s: "(if is_tag w p ''body'' then Some w else replaceWith h (RNodes (childNodes (doc w) p)) [p] w) = Some w1"
    "unwrap h ps w1 = Some w'" by (auto split: Option.bind_splits)
  have "rvalue_below (fresh w) (RNodes (childNodes (doc w) p))" using kids_below[OF Cons.prems(2)] by (simp add: rvalue_below_def)
  then have g: "grows w w1" using s(1) replaceWith_grows[OF Cons.prems(1,2)] grows_refl[OF Cons.prems(2)] by (auto split: if_splits)
  from Cons.IH[OF Cons.prems(1) grows_inv[OF g] s(2)] grows_trans[OF g] show ?case by blast
qed (simp add: grows_refl)

lemma innermost_below: "innermost d e = Some i \<Longrightarrow> dom_inv d \<Longrightarrow> below d i e"
proof -
  assume d: "dom_inv d" and s: "innermost d e = Some i"
  have "dom_inv d \<longrightarrow> below d i e"
  proof (rule innermost.raw_induct[of "\<lambda>d e i. dom_inv d \<longrightarrow> below d i e", OF _ s])
    fix rec d e i
    assume IH: "\<And>d e i. rec d e = Some i \<Longrightarrow> dom_inv d \<longrightarrow> below d i e"
      and body: "(case firstChild d e of None \<Rightarrow> Some e | Some c \<Rightarrow> if is_element d c then rec d c else Some e) = Some i"
    show "dom_inv d \<longrightarrow> below d i e"
    proof
      assume d: "dom_inv d"
      show "below d i e"
      proof (cases "\<exists>c. firstChild d e = Some c \<and> is_element d c")
        case True
        then obtain c where c: "firstChild d e = Some c" "is_element d c" by blast
        with body IH d have "below d i c" by simp
        moreover have "parentNode d c = Some e"
          using c(1) dom_invD(1)[OF d] by (auto simp: firstChild_def head_def split: list.splits)
        ultimately show ?thesis by (rule rtranclp.rtrancl_into_rtrancl)
      next
        case False
        with body show ?thesis by (auto split: option.splits if_splits)
      qed
    qed
  qed
  with d show ?thesis by blast
qed

lemma below_less: "mw_inv w \<Longrightarrow> e < fresh w \<Longrightarrow> below (doc w) i e \<Longrightarrow> i < fresh w"
  using mw_invD(2) by (auto elim: converse_rtranclpE)

lemma wrapAll_grows:
  assumes h: "tree_host h" and inv: "mw_inv w" and t: "all_below (fresh w) this" and n: "\<forall>n. wrapper = Some n \<longrightarrow> n < fresh w"
    and s: "wrapAll h wrapper this w = Some w'"
  shows "grows w w'"
proof (cases "this = [] \<or> wrapper = None")
  case True
  with s inv show ?thesis by (auto simp: wrapAll_def grows_refl split: list.splits)
next
  case False
  then obtain e es m where th: "this = e # es" and m: "wrapper = Some m" by (cases this) auto
  with s obtain c w1 w2 i where c: "jq_clone h True True m w = Some (c, w1)"
    "(if parentNode (doc w1) e \<noteq> None then map_option snd (insert_to h Before [e] [c] w1) else Some w1) = Some w2"
    "innermost (doc w2) c = Some i" "fn_append h [MNodes this] [i] w2 = Some w'"
    by (auto simp: wrapAll_def simp del: not_None_eq split: Option.bind_splits)
  have g1: "grows w w1" "c < fresh w1" using jq_clone_grows[OF inv _ c(1)] n m by auto
  have cb: "all_below (fresh w1) [c]" "all_below (fresh w1) [e]" using g1 t th grows_less by auto
  have g2: "grows w1 w2"
  proof (cases "parentNode (doc w1) e = None")
    case True
    with c(2) grows_refl[OF grows_inv[OF g1(1)]] show ?thesis by simp
  next
    case False
    with c(2) have "map_option snd (insert_to h Before [e] [c] w1) = Some w2" by simp
    then obtain ns where "insert_to h Before [e] [c] w1 = Some (ns, w2)" by auto
    from insert_to_grows[OF h grows_inv[OF g1(1)] cb this] show ?thesis by simp
  qed
  have g: "grows w w2" using grows_trans[OF g1(1) g2] .
  have "i < fresh w2" using below_less[OF grows_inv[OF g] grows_less[OF g2 g1(2)]] innermost_below[OF c(3) mw_invD(1)[OF grows_inv[OF g]]] by blast
  then have "grows w2 w'" using domManip_grows[OF h grows_inv[OF g] _ _ c(4)[unfolded fn_append_def]] grows_all[OF g t] by simp
  with grows_trans[OF g] show ?thesis .
qed

lemma wrap_grows: "tree_host h \<Longrightarrow> mw_inv w \<Longrightarrow> all_below (fresh w) es \<Longrightarrow> \<forall>n. wrapper = Some n \<longrightarrow> n < fresh w \<Longrightarrow>
    wrap h wrapper es w = Some w' \<Longrightarrow> grows w w'"
proof (induction es arbitrary: w)
  case (Cons e es)
  then obtain w1 where s: "wrapAll h wrapper [e] w = Some w1" "wrap h wrapper es w1 = Some w'" by (auto split: Option.bind_splits)
  have g: "grows w w1" using wrapAll_grows[OF Cons.prems(1,2) _ Cons.prems(4) s(1)] Cons.prems(3) by simp
  have "\<forall>n. wrapper = Some n \<longrightarrow> n < fresh w1" using Cons.prems(4) grows_less[OF g] by blast
  moreover have "all_below (fresh w1) es" using grows_all[OF g, of es] Cons.prems(3) by simp
  ultimately have "grows w1 w'" using Cons.IH[OF Cons.prems(1) grows_inv[OF g]] s(2) by blast
  with grows_trans[OF g] show ?case .
qed (simp add: grows_refl)

lemma wrapInner_grows: "tree_host h \<Longrightarrow> mw_inv w \<Longrightarrow> all_below (fresh w) es \<Longrightarrow> \<forall>n. wrapper = Some n \<longrightarrow> n < fresh w \<Longrightarrow>
    marg_below (fresh w) html \<Longrightarrow> wrapInner h wrapper html es w = Some w' \<Longrightarrow> grows w w'"
proof (induction es arbitrary: w)
  case (Cons e es)
  then obtain w1 where s: "(if childNodes (doc w) e \<noteq> [] then wrapAll h wrapper (childNodes (doc w) e) w else fn_append h [html] [e] w) = Some w1"
    "wrapInner h wrapper html es w1 = Some w'" by (auto split: Option.bind_splits)
  have g: "grows w w1"
    using s(1) wrapAll_grows[OF Cons.prems(1,2) kids_below[OF Cons.prems(2)] Cons.prems(4)]
      domManip_grows[OF Cons.prems(1,2), of "[html]" "[e]"] Cons.prems(3,5) by (auto simp: fn_append_def split: if_splits)
  have "\<forall>n. wrapper = Some n \<longrightarrow> n < fresh w1" using Cons.prems(4) grows_less[OF g] by blast
  moreover have "all_below (fresh w1) es" using grows_all[OF g, of es] Cons.prems(3) by simp
  moreover have "marg_below (fresh w1) html" using Cons.prems(5) g by (cases html) (auto dest: grows_less)
  ultimately have "grows w1 w'" using Cons.IH[OF Cons.prems(1) grows_inv[OF g]] s(2) by blast
  with grows_trans[OF g] show ?case .
qed (simp add: grows_refl)

end
