(* ===== verification/JQ_Moves.thy ===== *)
theory JQ_Moves
  imports JQ_Manip
begin

text \<open>
  What the manipulation methods do: \<open>remove\<close> forgets data and listeners, inserted nodes come to be where the name of the
  method says, any sequence of calls keeps the document a forest, and text reads back.
\<close>

section \<open>Cleaning\<close>

text \<open>An element that has no handlers of special types loses its listeners and its data.\<close>

definition no_special_handlers :: "mhost \<Rightarrow> mworld \<Rightarrow> nat \<Rightarrow> bool" where
  "no_special_handlers h w e \<longleftrightarrow> (\<forall>t\<in>fst ` set (ev_list (reg w) e). special_of (epage h) t = no_special)"

definition cleaned :: "mworld \<Rightarrow> nat \<Rightarrow> bool" where
  "cleaned w e \<longleftrightarrow> pdata (reg w) e = None \<and> udata w e = None \<and> native (reg w) e = []"

definition untouched :: "nat set \<Rightarrow> mworld \<Rightarrow> mworld \<Rightarrow> bool" where
  "untouched A w w' \<longleftrightarrow>
     (\<forall>n. n \<notin> A \<longrightarrow> pdata (reg w') n = pdata (reg w) n \<and> udata w' n = udata w n \<and> native (reg w') n = native (reg w) n)"

lemma for_in_listeners:
  "\<exists>s'. for_in e (\<lambda>t s. Some (remove_listener e t s)) ts s = Some s' \<and> pdata s' = pdata s \<and> fguid s' = fguid s \<and> gnext s' = gnext s \<and>
     (\<forall>n. n \<noteq> e \<longrightarrow> native s' n = native s n) \<and>
     (\<forall>hn. handle_of s e = Some hn \<longrightarrow> native s' e = filter (\<lambda>x. \<not> (snd x = hn \<and> fst x \<in> set ts \<and> ev_of s e (fst x) \<noteq> None)) (native s e))"
proof (induction ts arbitrary: s)
  case (Cons t ts)
  show ?case
  proof (cases "ev_of s e t")
    case None
    with Cons[of s] show ?thesis by (auto intro!: filter_cong)
  next
    case (Some hs)
    let ?s = "remove_listener e t s"
    have fr: "ev_of ?s e = ev_of s e" "handle_of ?s e = handle_of s e" "gnext ?s = gnext s" "n \<noteq> e \<Longrightarrow> native ?s n = native s n" for n
      by (auto simp: ev_of_def ev_list_def handle_of_def remove_listener_def split: option.splits)
    obtain s' where s': "for_in e (\<lambda>t s. Some (remove_listener e t s)) ts ?s = Some s'" "pdata s' = pdata ?s" "fguid s' = fguid ?s"
      "gnext s' = gnext ?s" "\<forall>n. n \<noteq> e \<longrightarrow> native s' n = native ?s n"
      "\<And>hn. handle_of ?s e = Some hn \<Longrightarrow> native s' e = filter (\<lambda>x. \<not> (snd x = hn \<and> fst x \<in> set ts \<and> ev_of ?s e (fst x) \<noteq> None)) (native ?s e)"
      using Cons.IH[of ?s] by blast
    have "native s' e = filter (\<lambda>x. \<not> (snd x = hn \<and> fst x \<in> set (t # ts) \<and> ev_of s e (fst x) \<noteq> None)) (native s e)"
      if "handle_of s e = Some hn" for hn
      using s'(6)[of hn] that Some fr by (auto simp: remove_listener_def intro!: filter_cong)
    with s' fr Some show ?thesis by (intro exI[of _ s']) simp
  qed
qed simp

definition fewer_data :: "mworld \<Rightarrow> mworld \<Rightarrow> bool" where
  "fewer_data w w' \<longleftrightarrow> (\<forall>n. pdata (reg w') n = pdata (reg w) n \<or> pdata (reg w') n = None)"

lemma fewer_trans: "fewer_data a b \<Longrightarrow> fewer_data b c \<Longrightarrow> fewer_data a c"
  unfolding fewer_data_def by metis

lemma fewer_special:
  assumes "fewer_data w w'" and "no_special_handlers h w e"
  shows "no_special_handlers h w' e"
proof -
  have "ev_list (reg w') e = ev_list (reg w) e \<or> ev_list (reg w') e = []"
    using assms(1) unfolding fewer_data_def ev_list_def by (metis option.simps(4))
  then show ?thesis using assms(2) by (auto simp: no_special_handlers_def)
qed

lemma for_in_cong: "\<forall>t\<in>set ts. f t = g t \<Longrightarrow> for_in e f ts s = for_in e g ts s"
  by (induction ts arbitrary: s) (auto split: Option.bind_split)

lemma clean_one_plain:
  assumes pg: "no_special_handlers h w e" and inv: "ev_inv (epage h) (reg w)"
  shows "\<exists>w'. clean_one h e w = Some w' \<and> ev_inv (epage h) (reg w') \<and> untouched {e} w w' \<and> fewer_data w w' \<and> (\<not> no_data w e \<longrightarrow> cleaned w' e)"
proof (cases "no_data w e \<or> \<not> has_id w e")
  case True
  have "\<not> no_data w e \<Longrightarrow> cleaned w e"
    using True inv by (auto simp: has_id_def cleaned_def ev_inv_def elem_ok_def dest: spec[of _ e])
  with True inv show ?thesis by (intro exI[of _ w]) (auto simp: clean_one_def untouched_def fewer_data_def)
next
  case False
  let ?ts = "map fst (ev_list (reg w) e)"
  have ct: "for_in e (clean_type h w e) ?ts (reg w) = for_in e (\<lambda>t s. Some (remove_listener e t s)) ?ts (reg w)"
    using pg by (intro for_in_cong) (auto simp: no_special_handlers_def clean_type_def fun_eq_iff)
  obtain s' where s': "for_in e (clean_type h w e) ?ts (reg w) = Some s'" "pdata s' = pdata (reg w)" "fguid s' = fguid (reg w)" "gnext s' = gnext (reg w)"
    "\<And>n. n \<noteq> e \<Longrightarrow> native s' n = native (reg w) n"
    "\<And>hn. handle_of (reg w) e = Some hn \<Longrightarrow>
      native s' e = filter (\<lambda>x. \<not> (snd x = hn \<and> fst x \<in> set ?ts \<and> ev_of (reg w) e (fst x) \<noteq> None)) (native (reg w) e)"
    using for_in_listeners[of e ?ts "reg w"] unfolding ct by blast
  have nat: "native s' e = []"
  proof (cases "handle_of (reg w) e")
    case (Some hn)
    then obtain p where p: "pdata (reg w) e = Some p" "phandle p = Some hn" by (auto simp: handle_of_def split: option.splits)
    have el: "elem_ok (epage h) (reg w) e" using inv by (simp add: ev_inv_def)
    with p obtain l where l: "pevents p = Some l" "set (native (reg w) e) = (\<lambda>t. (t, hn)) ` {t \<in> fst ` set l. heard (epage h) t}"
      by (auto simp: elem_ok_def split: option.splits)
    have "ev_list (reg w) e = l" using p l by (simp add: ev_list_def)
    then have "x \<in> set (native (reg w) e) \<Longrightarrow> snd x = hn \<and> fst x \<in> set ?ts \<and> ev_of (reg w) e (fst x) \<noteq> None" for x
      using l(2) by (force simp: ev_of_def map_of_eq_None_iff)
    then show ?thesis using s'(6)[OF Some] by (auto simp: filter_empty_conv)
  next
    case None
    have el: "elem_ok (epage h) (reg w) e" using inv by (simp add: ev_inv_def)
    with None have n: "native (reg w) e = []" "ev_list (reg w) e = []"
      by (auto simp: elem_ok_def handle_of_def ev_list_def split: option.splits)
    with s'(1) show ?thesis by simp
  qed
  let ?w = "w\<lparr>reg := s'\<lparr>pdata := (pdata s')(e := None)\<rparr>, udata := (udata w)(e := None)\<rparr>"
  have "clean_one h e w = Some ?w" using False s'(1) by (simp add: clean_one_def)
  moreover have "ev_inv (epage h) (reg ?w)"
    using s' nat by (intro ev_inv_local[OF inv, of _ e]) (auto simp: elem_ok_def)
  moreover have "untouched {e} w ?w" "fewer_data w ?w" using s'(2,5) by (simp_all add: untouched_def fewer_data_def)
  ultimately show ?thesis using nat by (intro exI[of _ ?w]) (simp add: cleaned_def)
qed

lemma cleanData_plain:
  shows "\<forall>e\<in>set es. no_special_handlers h w e \<Longrightarrow> ev_inv (epage h) (reg w) \<Longrightarrow> \<exists>w'. cleanData h es w = Some w' \<and> ev_inv (epage h) (reg w') \<and> untouched (set es) w w' \<and> fewer_data w w' \<and>
    (\<forall>e\<in>set es. \<not> no_data w e \<longrightarrow> cleaned w' e)"
proof (induction es arbitrary: w)
  case (Cons e es)
  obtain w1 where w1: "clean_one h e w = Some w1" "ev_inv (epage h) (reg w1)" "untouched {e} w w1" "\<not> no_data w e \<longrightarrow> cleaned w1 e" "fewer_data w w1"
    using clean_one_plain[OF _ Cons.prems(2)] Cons.prems(1) by (meson list.set_intros(1))
  obtain w2 where w2: "cleanData h es w1 = Some w2" "ev_inv (epage h) (reg w2)" "untouched (set es) w1 w2" "\<forall>e\<in>set es. \<not> no_data w1 e \<longrightarrow> cleaned w2 e" "fewer_data w1 w2"
    using Cons.IH[OF _ w1(2)] Cons.prems(1) fewer_special[OF w1(5)] by (metis list.set_intros(2))
  have nd: "no_data w1 = no_data w" using clean_one_tree[OF w1(1)] by (simp add: tree_kept_def no_data_def fun_eq_iff)
  have "untouched (set (e # es)) w w2" using w1(3) w2(3) by (simp add: untouched_def)
  moreover have "\<forall>x\<in>set (e # es). \<not> no_data w x \<longrightarrow> cleaned w2 x"
  proof (intro ballI impI)
    fix x assume x: "x \<in> set (e # es)" "\<not> no_data w x"
    show "cleaned w2 x"
    proof (cases "x \<in> set es")
      case True
      with w2(4) x(2) nd show ?thesis by simp
    next
      case False
      with x w1(4) w2(3) show ?thesis by (auto simp: cleaned_def untouched_def)
    qed
  qed
  ultimately show ?case using w1(1) w2(1,2) fewer_trans[OF w1(5) w2(5)] by (intro exI[of _ w2]) simp
qed (simp add: untouched_def fewer_data_def)

lemma untouched_trans: "untouched A a b \<Longrightarrow> untouched B b c \<Longrightarrow> untouched (A \<union> B) a c"
  by (simp add: untouched_def)

lemma getAll_set: "mw_inv w \<Longrightarrow> set (getAll w e) = {n. below (doc w) n e \<and> n \<noteq> e \<and> is_element (doc w) n}"
proof -
  assume inv: "mw_inv w"
  obtain xs where xs: "nodes_of w e = e # xs" using nodes_of_hd[of w e] by (cases "nodes_of w e") auto
  with nodes_of_distinct[OF inv, of e] have "e \<notin> set xs" by simp
  moreover have "n \<in> insert e (set xs) \<longleftrightarrow> below (doc w) n e" for n using nodes_of_below[OF inv, of n e] xs by simp
  ultimately have "set xs = {n. below (doc w) n e \<and> n \<noteq> e}" by blast
  then show ?thesis using xs by (auto simp: getAll_def)
qed

text \<open>
  C17: when neither the element nor an element below it has handlers of special types, \<open>remove\<close> takes the element out of the tree and
  forgets the data and the listeners of it and of all elements below it (but for \<open>embed\<close>, \<open>object\<close> and \<open>applet\<close>, which take
  no data), and of no others.
\<close>

theorem remove_forgets:
  assumes pg: "\<forall>n. below (doc w) n e \<and> is_element (doc w) n \<longrightarrow> no_special_handlers h w n" and inv: "mw_inv w" "ev_inv (epage h) (reg w)"
    and e: "is_element (doc w) e"
  shows "\<exists>w'. fn_remove h None False [e] w = Some w' \<and> mw_inv w' \<and> ev_inv (epage h) (reg w') \<and> parentNode (doc w') e = None \<and>
    (\<forall>n. below (doc w) n e \<and> is_element (doc w) n \<and> \<not> no_data w n \<longrightarrow> cleaned w' n) \<and>
    untouched {n. below (doc w) n e} w w'"
proof -
  have sp: "\<forall>n\<in>set (getAll w e). no_special_handlers h w n" "no_special_handlers h w e"
    using pg e getAll_set[OF inv(1), of e] by auto
  obtain w1 where w1: "cleanData h (getAll w e) w = Some w1" "ev_inv (epage h) (reg w1)" "untouched (set (getAll w e)) w w1"
    "\<forall>x\<in>set (getAll w e). \<not> no_data w x \<longrightarrow> cleaned w1 x" "fewer_data w w1"
    using cleanData_plain[OF sp(1) inv(2)] by blast
  obtain w2 where w2: "cleanData h [e] w1 = Some w2" "ev_inv (epage h) (reg w2)" "untouched (set [e]) w1 w2"
    "\<forall>x\<in>set [e]. \<not> no_data w1 x \<longrightarrow> cleaned w2 x"
    using cleanData_plain[OF _ w1(2), of "[e]"] fewer_special[OF w1(5) sp(2)] by auto
  have st: "tree_kept w w2" using cleanData_tree[OF w1(1)] cleanData_tree[OF w2(1)] by (rule tree_kept_trans)
  have nd: "no_data w1 = no_data w" using cleanData_tree[OF w1(1)] by (simp add: tree_kept_def no_data_def fun_eq_iff)
  obtain w3 where w3: "(case parentNode (doc w2) e of Some p \<Rightarrow> removeChild p e w2 | None \<Rightarrow> Some w2) = Some w3"
    "reg w3 = reg w2" "udata w3 = udata w2" "parentNode (doc w3) e = None"
    by (cases "parentNode (doc w2) e") (auto simp: removeChild_def cut_parent)
  have r: "fn_remove h None False [e] w = Some w3"
    using e w1(1) w2(1) w3(1) by simp
  have "n \<in> set (getAll w e) \<or> n = e" if "below (doc w) n e" "is_element (doc w) n" for n
    using getAll_set[OF inv(1), of e] that by blast
  moreover have "cleaned w2 n" if "n \<in> set (getAll w e) \<or> n = e" "\<not> no_data w n" for n
    using that w1(4) w2(3,4) nd by (cases "n = e") (auto simp: cleaned_def untouched_def)
  ultimately have "\<forall>n. below (doc w) n e \<and> is_element (doc w) n \<and> \<not> no_data w n \<longrightarrow> cleaned w3 n"
    using w3(2,3) by (simp add: cleaned_def)
  moreover have "untouched {n. below (doc w) n e} w w3"
    using untouched_trans[OF w1(3) w2(3)] getAll_set[OF inv(1), of e] w3(2,3) by (auto simp: untouched_def)
  moreover have "mw_inv w3" using fn_remove_grows[OF inv(1) r] grows_inv by blast
  ultimately show ?thesis using r w2(2) w3(2,4) by (intro exI[of _ w3]) simp
qed

section \<open>Insertion\<close>

definition splice :: "nat option \<Rightarrow> nat list \<Rightarrow> nat list \<Rightarrow> nat list" where
  "splice r xs ys = (case r of None \<Rightarrow> ys @ xs | Some y \<Rightarrow> takeWhile (\<lambda>z. z \<noteq> y) ys @ xs @ dropWhile (\<lambda>z. z \<noteq> y) ys)"

lemma put_before_split: "put_before x r ys = (case r of None \<Rightarrow> ys @ [x] | Some y \<Rightarrow> takeWhile (\<lambda>z. z \<noteq> y) ys @ x # dropWhile (\<lambda>z. z \<noteq> y) ys)"
  by (cases r; induction ys) auto

lemma put_before_splice: "put_before x r ys = splice r [x] ys"
  by (simp add: put_before_split splice_def split: option.split)

lemma splice_splice:
  assumes "r \<noteq> Some x" and "\<forall>y. r = Some y \<longrightarrow> y \<in> set ys"
  shows "splice r xs (splice r [x] ys) = splice r (x # xs) ys"
proof (cases r)
  case (Some y)
  then have y: "y \<noteq> x" "y \<in> set ys" using assms by auto
  let ?a = "takeWhile (\<lambda>z. z \<noteq> y) ys" and ?b = "dropWhile (\<lambda>z. z \<noteq> y) ys"
  from y(2) obtain bs where b: "?b = y # bs" by (metis (mono_tags, lifting) dropWhile_eq_Cons_conv dropWhile_eq_Nil_conv list.exhaust)
  have a: "\<forall>z\<in>set ?a. z \<noteq> y" by (metis (mono_tags, lifting) set_takeWhileD)
  have "takeWhile (\<lambda>z. z \<noteq> y) (?a @ x # ?b) = ?a @ [x]" "dropWhile (\<lambda>z. z \<noteq> y) (?a @ x # ?b) = ?b"
    using a y(1) b by (simp_all add: takeWhile_append dropWhile_append)
  then show ?thesis using Some by (simp add: splice_def)
qed (simp add: splice_def)

lemma set_splice: "set (splice r xs ys) = set ys \<union> set xs"
proof (cases r)
  case (Some y)
  have "set (takeWhile (\<lambda>z. z \<noteq> y) ys) \<union> set (dropWhile (\<lambda>z. z \<noteq> y) ys) = set ys"
    by (metis set_append takeWhile_dropWhile_id)
  then show ?thesis using Some by (auto simp: splice_def)
qed (auto simp: splice_def)

lemma splice_filter:
  assumes "\<forall>y. r = Some y \<longrightarrow> y \<notin> A"
  shows "filter (\<lambda>z. z \<notin> A) (splice r xs ys) = splice r (filter (\<lambda>z. z \<notin> A) xs) (filter (\<lambda>z. z \<notin> A) ys)"
proof (cases r)
  case (Some y)
  then have y: "y \<notin> A" using assms by simp
  have t: "takeWhile (\<lambda>z. z \<noteq> y) (filter (\<lambda>z. z \<notin> A) ys) = filter (\<lambda>z. z \<notin> A) (takeWhile (\<lambda>z. z \<noteq> y) ys)"
    and d: "dropWhile (\<lambda>z. z \<noteq> y) (filter (\<lambda>z. z \<notin> A) ys) = filter (\<lambda>z. z \<notin> A) (dropWhile (\<lambda>z. z \<noteq> y) ys)"
    using y by (induction ys) auto
  show ?thesis using Some by (simp add: splice_def t d)
qed (simp add: splice_def)

lemma below_place:
  assumes "below (place p x r d) n a"
  shows "below d n a \<or> below d p a"
  using assms
proof (induction rule: converse_rtranclp_induct)
  case (step y z)
  show ?case
  proof (cases "y = x")
    case True
    with step.hyps(1) have "z = p" by (simp add: place_def)
    with step.IH show ?thesis by blast
  next
    case False
    with step.hyps(1) have "parentNode d y = Some z" by (simp add: place_def)
    with step.IH show ?thesis by (blast intro: converse_rtranclp_into_rtranclp)
  qed
qed simp

lemma below_move: "below (place p x r (cut x d)) n a \<Longrightarrow> \<not> below d p a \<Longrightarrow> below d n a"
  using below_place below_cut by blast

text \<open>One node after the other, all before the same reference.\<close>

definition moved :: "nat \<Rightarrow> nat option \<Rightarrow> nat list \<Rightarrow> mworld \<Rightarrow> mworld \<Rightarrow> bool" where
  "moved p r xs w w' \<longleftrightarrow> mw_inv w' \<and> ntype (doc w') = ntype (doc w) \<and> nodeValue (doc w') = nodeValue (doc w) \<and>
     w' = w\<lparr>doc := doc w'\<rparr> \<and>
     (\<forall>q. childNodes (doc w') q =
       (let rest = filter (\<lambda>z. z \<notin> set xs) (childNodes (doc w) q) in if q = p then splice r xs rest else rest)) \<and>
     (\<forall>n a. below (doc w') n a \<longrightarrow> \<not> below (doc w) p a \<longrightarrow> below (doc w) n a)"

lemma moved_child: "moved p r xs w w' \<Longrightarrow> childNodes (doc w') q =
    (if q = p then splice r xs (filter (\<lambda>z. z \<notin> set xs) (childNodes (doc w) q)) else filter (\<lambda>z. z \<notin> set xs) (childNodes (doc w) q))"
  by (simp add: moved_def Let_def)

definition may_take :: "mworld \<Rightarrow> nat \<Rightarrow> nat option \<Rightarrow> nat list \<Rightarrow> bool" where
  "may_take w p r xs \<longleftrightarrow> p < fresh w \<and> distinct xs \<and> (\<forall>x\<in>set xs. x < fresh w \<and> \<not> below (doc w) p x \<and> r \<noteq> Some x) \<and>
     (\<forall>y. r = Some y \<longrightarrow> y \<in> set (childNodes (doc w) p))"

lemma insert_one_moved:
  assumes inv: "mw_inv w" and m: "may_take w p r [x]"
  shows "\<exists>w'. insert_one p r x w = Some w' \<and> moved p r [x] w w'"
proof -
  note d = mw_invD(1)[OF inv]
  have c: "x \<notin> set (ups (fresh w) (doc w) p)" using m ups_below[OF inv, of x p] by (simp add: may_take_def)
  have r: "\<not> (case r of Some y \<Rightarrow> parentNode (doc w) y \<noteq> Some p | None \<Rightarrow> False)"
    using m dom_invD(1)[OF d] by (auto simp: may_take_def split: option.split)
  let ?w = "w\<lparr>doc := place p x r (cut x (doc w))\<rparr>"
  have s: "insert_one p r x w = Some ?w" using c r m by (simp add: insert_one_def may_take_def)
  have "mw_inv ?w" using insert_one_inv[OF inv _ _ s] m by (simp add: may_take_def)
  moreover have "ntype (doc ?w) = ntype (doc w) \<and> nodeValue (doc ?w) = nodeValue (doc w)" by (simp add: place_def)
  moreover have "below (doc ?w) n a \<Longrightarrow> \<not> below (doc w) p a \<Longrightarrow> below (doc w) n a" for n a
    using below_move[of p x r "doc w" n a] by simp
  moreover have "childNodes (doc ?w) q = (let rest = filter (\<lambda>z. z \<notin> set [x]) (childNodes (doc w) q) in if q = p then splice r [x] rest else rest)" for q
    by (simp add: place_def cut_children[OF d] put_before_splice Let_def)
  ultimately have "moved p r [x] w ?w" unfolding moved_def by simp
  with s show ?thesis by blast
qed

lemma moved_trans:
  assumes a: "moved p r [x] w w1" and b: "moved p r xs w1 w'" and m: "may_take w p r (x # xs)"
  shows "moved p r (x # xs) w w'"
proof -
  have ch: "childNodes (doc w') q = (let rest = filter (\<lambda>z. z \<notin> set (x # xs)) (childNodes (doc w) q) in if q = p then splice r (x # xs) rest else rest)" for q
  proof (cases "q = p")
    case False
    then show ?thesis unfolding moved_child[OF b] moved_child[OF a] by (auto simp: Let_def intro!: filter_cong)
  next
    case True
    have x: "x \<notin> set xs" "r \<noteq> Some x" "\<forall>y. r = Some y \<longrightarrow> y \<notin> set xs" using m by (auto simp: may_take_def)
    have f: "filter (\<lambda>z. z \<notin> set xs) (filter (\<lambda>z. z \<notin> set [x]) (childNodes (doc w) p)) = filter (\<lambda>z. z \<notin> set (x # xs)) (childNodes (doc w) p)"
      by (auto intro!: filter_cong)
    have r: "\<forall>y. r = Some y \<longrightarrow> y \<in> set (filter (\<lambda>z. z \<notin> set (x # xs)) (childNodes (doc w) p))"
      using m by (auto simp: may_take_def)
    have "childNodes (doc w') p = splice r xs (filter (\<lambda>z. z \<notin> set xs) (splice r [x] (filter (\<lambda>z. z \<notin> set [x]) (childNodes (doc w) p))))"
      unfolding moved_child[OF b] moved_child[OF a] by simp
    also have "\<dots> = splice r xs (splice r [x] (filter (\<lambda>z. z \<notin> set (x # xs)) (childNodes (doc w) p)))"
      unfolding splice_filter[OF x(3)] f using x(1) by simp
    also have "\<dots> = splice r (x # xs) (filter (\<lambda>z. z \<notin> set (x # xs)) (childNodes (doc w) p))"
      by (rule splice_splice[OF x(2) r])
    finally show ?thesis using True by (simp add: Let_def)
  qed
  have "below (doc w') n a \<Longrightarrow> \<not> below (doc w) p a \<Longrightarrow> below (doc w) n a" for n a
    using assms(1,2) unfolding moved_def by (meson rtranclp.rtrancl_refl)
  moreover have "w' = w\<lparr>doc := doc w'\<rparr>" "ntype (doc w') = ntype (doc w)" "nodeValue (doc w') = nodeValue (doc w)" "mw_inv w'"
    using a b unfolding moved_def by (metis mworld.surjective mworld.update_convs(1))+
  ultimately show ?thesis unfolding moved_def using ch by blast
qed

lemma may_take_step:
  assumes m: "may_take w p r (x # xs)" and a: "moved p r [x] w w1"
  shows "may_take w1 p r xs"
proof -
  have f: "fresh w1 = fresh w" using a unfolding moved_def by (metis mworld.select_convs(6) mworld.surjective mworld.update_convs(1))
  have "y \<in> set (childNodes (doc w1) p)" if "r = Some y" for y
    using m that moved_child[OF a, of p] by (auto simp: may_take_def set_splice)
  moreover have "\<not> below (doc w1) p z" if "z \<in> set xs" for z
    using a m that unfolding moved_def may_take_def by auto
  ultimately show ?thesis using m f by (auto simp: may_take_def)
qed

lemma insert_all_moved:
  "mw_inv w \<Longrightarrow> may_take w p r xs \<Longrightarrow> \<exists>w'. insert_all p r xs w = Some w' \<and> moved p r xs w w'"
proof (induction xs arbitrary: w)
  case Nil
  have "splice r [] ys = ys" for ys by (simp add: splice_def split: option.split)
  with Nil show ?case by (simp add: moved_def Let_def)
next
  case (Cons x xs)
  have "may_take w p r [x]" using Cons.prems(2) by (simp add: may_take_def)
  then obtain w1 where w1: "insert_one p r x w = Some w1" "moved p r [x] w w1" using insert_one_moved[OF Cons.prems(1)] by blast
  have "mw_inv w1" using w1(2) by (simp add: moved_def)
  from Cons.IH[OF this may_take_step[OF Cons.prems(2) w1(2)]] obtain w' where
    "insert_all p r xs w1 = Some w'" "moved p r xs w1 w'" by blast
  with w1 moved_trans[OF w1(2) _ Cons.prems(2)] show ?case by simp
qed

text \<open>Nodes without scripts go into the fragment as they are.\<close>

definition no_scripts :: "mworld \<Rightarrow> nat list \<Rightarrow> bool" where
  "no_scripts w xs \<longleftrightarrow> (\<forall>x\<in>set xs. ntype (doc w) x \<noteq> 11 \<and> (\<forall>n. below (doc w) n x \<longrightarrow> \<not> is_tag w n ''script''))"

lemma fill_moved:
  "mw_inv w \<Longrightarrow> may_take w f None xs \<Longrightarrow> no_scripts w xs \<Longrightarrow> \<exists>w'. fill f xs w = Some ([], w') \<and> moved f None xs w w'"
proof (induction xs arbitrary: w)
  case Nil
  then show ?case by (simp add: fill.simps moved_def splice_def Let_def)
next
  case (Cons x xs)
  have "may_take w f None [x]" using Cons.prems(2) by (simp add: may_take_def)
  then obtain w1 where w1: "insert_one f None x w = Some w1" "moved f None [x] w w1" using insert_one_moved[OF Cons.prems(1)] by blast
  have t: "tags w1 = tags w" using w1(2) unfolding moved_def by (metis mworld.select_convs(2) mworld.surjective mworld.update_convs(1))
  have ap: "appendChild f x w = Some w1" using w1(1) Cons.prems(3) by (simp add: appendChild_def insertBefore_def no_scripts_def)
  have xs: "\<not> is_tag w n ''script''" if "below (doc w) n x" for n using Cons.prems(3) that by (simp add: no_scripts_def)
  have "n \<in> set (getAll w x) \<Longrightarrow> \<not> is_tag w n ''script''" for n using getAll_set[OF Cons.prems(1), of x] xs by blast
  then have inn: "inner_scripts w x = []" by (auto simp: inner_scripts_def filter_empty_conv)
  have "below (doc w) n z" if "below (doc w1) n z" "z \<in> set xs" for n z
    using w1(2) that Cons.prems(2) unfolding moved_def may_take_def by auto
  then have ns: "no_scripts w1 xs" using Cons.prems(3) w1(2) t unfolding no_scripts_def moved_def is_tag_def by auto
  have "mw_inv w1" using w1(2) by (simp add: moved_def)
  from Cons.IH[OF this may_take_step[OF Cons.prems(2) w1(2)] ns] obtain w' where
    w': "fill f xs w1 = Some ([], w')" "moved f None xs w1 w'" by blast
  have "fill f (x # xs) w = fill f xs w1" using xs[of x] inn ap by (simp add: fill.simps[of f "x # xs"])
  with w' moved_trans[OF w1(2) w'(2) Cons.prems(2)] show ?case by simp
qed

text \<open>Where the nodes come to be, said of the lists of children.\<close>

definition holder :: "how \<Rightarrow> nat \<Rightarrow> dom \<Rightarrow> nat option" where
  "holder hw e d = (case hw of Append \<Rightarrow> Some e | Prepend \<Rightarrow> Some e | Before \<Rightarrow> parentNode d e | After \<Rightarrow> parentNode d e)"

definition inserted :: "how \<Rightarrow> nat \<Rightarrow> nat list \<Rightarrow> nat list \<Rightarrow> nat list" where
  "inserted hw e xs ys = (case hw of
      Append \<Rightarrow> ys @ xs
    | Prepend \<Rightarrow> xs @ ys
    | Before \<Rightarrow> before e ys @ xs @ e # after e ys
    | After \<Rightarrow> before e ys @ e # xs @ after e ys)"

definition spot :: "how \<Rightarrow> nat \<Rightarrow> dom \<Rightarrow> nat option" where
  "spot hw e d = (case hw of Append \<Rightarrow> None | Prepend \<Rightarrow> firstChild d e | Before \<Rightarrow> Some e | After \<Rightarrow> nextSibling d e)"

lemma splice_at: "y \<notin> set us \<Longrightarrow> splice (Some y) xs (us @ y # vs) = us @ xs @ y # vs"
  by (simp add: splice_def takeWhile_append dropWhile_append)

lemma around: "e \<in> set ys \<Longrightarrow> ys = before e ys @ e # after e ys"
proof -
  assume "e \<in> set ys"
  then obtain z zs where z: "dropWhile (\<lambda>x. x \<noteq> e) ys = z # zs" by (metis (mono_tags, lifting) dropWhile_eq_Nil_conv list.exhaust)
  then have "z = e" by (simp add: dropWhile_eq_Cons_conv)
  with z show ?thesis using takeWhile_dropWhile_id[of "\<lambda>x. x \<noteq> e" ys] by (simp add: before_def after_def)
qed

lemma splice_inserted:
  assumes d: "dom_inv d" and h: "holder hw e d = Some p"
  shows "splice (spot hw e d) xs (childNodes d p) = inserted hw e xs (childNodes d p)"
proof -
  have sib: "e \<in> set (childNodes d p)" "siblings_of d e = childNodes d p" if "parentNode d e = Some p"
    using that dom_invD(1)[OF d, of e p] by (simp_all add: siblings_of_def)
  show ?thesis
  proof (cases hw)
    case Append
    then show ?thesis by (simp add: splice_def spot_def inserted_def)
  next
    case Prepend
    with h show ?thesis by (cases "childNodes d p") (simp_all add: splice_def spot_def inserted_def firstChild_def head_def holder_def)
  next
    case Before
    with h sib around have "childNodes d p = before e (childNodes d p) @ e # after e (childNodes d p)" by (simp add: holder_def)
    moreover have "e \<notin> set (before e (childNodes d p))" by (auto simp: before_def dest: set_takeWhileD)
    ultimately show ?thesis using Before splice_at by (metis how.simps(15) inserted_def spot_def)
  next
    case After
    let ?ys = "childNodes d p"
    have pe: "parentNode d e = Some p" using After h by (simp add: holder_def)
    then have ys: "?ys = before e ?ys @ e # after e ?ys" using sib around by simp
    have n: "spot hw e d = head (after e ?ys)" using After sib[OF pe] by (simp add: spot_def nextSibling_def)
    show ?thesis
    proof (cases "after e ?ys")
      case Nil
      with ys have "?ys = before e ?ys @ [e]" by simp
      then show ?thesis using n Nil After by (simp add: splice_def inserted_def head_def)
    next
      case (Cons y vs)
      have dis: "distinct ?ys" using dom_invD(2)[OF d] .
      have e1: "?ys = (before e ?ys @ [e]) @ y # vs" using ys Cons by simp
      with dis have "y \<notin> set (before e ?ys @ [e])" by (metis distinct_append disjoint_iff list.set_intros(1))
      from splice_at[OF this, of xs vs] e1 have "splice (Some y) xs ?ys = (before e ?ys @ [e]) @ xs @ y # vs" by simp
      then show ?thesis using n Cons After by (simp add: inserted_def head_def)
    qed
  qed
qed

lemma clean_args_nodes: "clean_args h (map MNode xs) w = Some (xs, w)"
  by (induction xs) simp_all

lemma cacheable_nodes: "cacheable (map MNode xs) = None"
  by (cases xs) (simp_all add: cacheable_def split: list.split)

lemma moved_world: "moved p r xs w w' \<Longrightarrow> fresh w' = fresh w \<and> tags w' = tags w \<and> reg w' = reg w \<and> udata w' = udata w"
  unfolding moved_def by (metis mworld.select_convs(2,4-6) mworld.surjective mworld.update_convs(1))

lemma fragment_of_nodes:
  assumes inv: "mw_inv w" and xs: "distinct xs" "all_below (fresh w) xs" and ns: "no_scripts w xs"
  shows "\<exists>w0 w1. buildFragment h (map MNode xs) w = Some (fresh w, False, [], w1) \<and> createFragment w = (fresh w, w0) \<and>
    moved (fresh w) None xs w0 w1 \<and> childNodes (doc w1) (fresh w) = xs \<and> may_take w0 (fresh w) None xs"
proof -
  let ?f = "fresh w"
  obtain w0 where w0: "createFragment w = (?f, w0)" by (simp add: createFragment_def new_node_def Let_def)
  note g = new_node_grows[OF inv w0[unfolded createFragment_def]]
  have inv0: "mw_inv w0" using g grows_inv by blast
  have up: "\<not> below (doc w0) ?f x" if "x \<in> set xs" for x
  proof
    assume b: "below (doc w0) ?f x"
    have "parentNode (doc w0) ?f = None" using g mw_invD(2)[OF inv, of ?f] by (cases "parentNode (doc w) ?f") auto
    with b have "x = ?f" by (auto elim: converse_rtranclpE)
    with xs(2) that show False by blast
  qed
  have mt: "may_take w0 ?f None xs" using xs up g by (auto simp: may_take_def less_Suc_eq)
  have t: "tags w0 = (tags w)(?f := ''#document-fragment'')" "ntype (doc w0) = (ntype (doc w))(?f := 11)"
    using w0 by (auto simp: createFragment_def new_node_def Let_def)
  have bl: "below (doc w0) n x = below (doc w) n x" for n x using g by simp
  have "no_scripts w0 xs"
    unfolding no_scripts_def bl
  proof (intro ballI conjI allI impI)
    fix x assume x: "x \<in> set xs"
    then show "ntype (doc w0) x \<noteq> 11" using xs(2) ns t(2) by (auto simp: no_scripts_def)
    fix n assume n: "below (doc w) n x"
    then have "n < fresh w" using below_less[OF inv _ n] x xs(2) by blast
    then show "\<not> is_tag w0 n ''script''" using ns x n t(1) by (auto simp: no_scripts_def is_tag_def)
  qed
  from fill_moved[OF inv0 mt this] obtain w1 where w1: "fill ?f xs w0 = Some ([], w1)" "moved ?f None xs w0 w1" by blast
  have "childNodes (doc w0) ?f = []" using g mw_invD(3)[OF inv, of _ ?f] by (cases "childNodes (doc w) ?f") auto
  then have "childNodes (doc w1) ?f = xs" unfolding moved_child[OF w1(2)] by (simp add: splice_def)
  moreover have "buildFragment h (map MNode xs) w = Some (?f, False, [], w1)"
    using w0 w1(1) by (simp add: buildFragment_def cacheable_nodes jq_clean_def clean_args_nodes)
  ultimately show ?thesis using w0 w1(2) mt by blast
qed

lemma put_inserts:
  assumes inv: "mw_inv w" and h: "holder hw e (doc w) = Some p" and n: "\<And>r. insertBefore p n r w = insert_all p r xs w"
    and el: "hw \<in> {Append, Prepend} \<Longrightarrow> is_element (doc w) e"
  shows "put hw e n w = insert_all p (spot hw e (doc w)) xs w"
  using h el n by (cases hw) (auto simp: put_def holder_def spot_def appendChild_def)

lemma holder_kept:
  assumes d: "dom_inv d" "dom_inv d'" and h: "holder hw e d = Some p" and e: "hw \<in> {Before, After} \<longrightarrow> e \<notin> set xs"
    and ch: "childNodes d' p = filter (\<lambda>z. z \<notin> set xs) (childNodes d p)"
  shows "holder hw e d' = Some p"
proof (cases "hw \<in> {Append, Prepend}")
  case True
  with h show ?thesis by (auto simp: holder_def)
next
  case False
  then have "parentNode d e = Some p" "e \<notin> set xs" using h e by (cases hw; simp add: holder_def)+
  then have "e \<in> set (childNodes d' p)" using ch dom_invD(1)[OF d(1)] by auto
  then show ?thesis using False dom_invD(1)[OF d(2)] by (cases hw) (simp_all add: holder_def)
qed

lemma spot_child:
  assumes d: "dom_inv d" and h: "holder hw e d = Some p" and y: "spot hw e d = Some y"
  shows "y \<in> set (childNodes d p)"
proof (cases hw)
  case After
  with h have "siblings_of d e = childNodes d p" by (simp add: holder_def siblings_of_def)
  with y After show ?thesis by (auto simp: spot_def nextSibling_def head_def after_def split: list.splits dest!: in_set_dropD set_dropWhileD)
      (metis in_set_dropD list.set_intros(1) set_dropWhileD)
next
  case Prepend
  with h y show ?thesis by (auto simp: spot_def firstChild_def head_def holder_def split: list.splits)
next
  case Before
  with h y show ?thesis using dom_invD(1)[OF d] by (auto simp: spot_def holder_def)
qed (use y in \<open>simp add: spot_def\<close>)

lemma not_below_fragment:
  assumes "mw_inv w" "p \<noteq> f" "\<forall>x\<in>set (childNodes (doc w) f). \<not> below (doc w) p x"
  shows "\<not> below (doc w) p f"
proof
  assume "below (doc w) p f"
  with assms(2) obtain c where "below (doc w) p c" "parentNode (doc w) c = Some f" by (auto elim: rtranclp.cases)
  then show False using assms(3) dom_invD(1)[OF mw_invD(1)[OF assms(1)]] by auto
qed

text \<open>One node goes in by itself, several go in with the fragment that holds them.\<close>

lemma insert_fragment:
  assumes inv: "mw_inv w" and f: "childNodes (doc w) f = x # ys" "ntype (doc w) f = 11" "p \<noteq> f"
    and x: "ntype (doc w) x \<noteq> 11" and up: "\<forall>z\<in>set (x # ys). \<not> below (doc w) p z"
  shows "insertBefore p (if ys = [] then x else f) r w = insert_all p r (x # ys) w"
proof (cases "ys = []")
  case True
  with x show ?thesis by (cases "insert_one p r x w") (simp_all add: insertBefore_def)
next
  case False
  then show ?thesis
    using f ups_below[OF inv, of f p] not_below_fragment[OF inv f(3)] up by (simp add: insertBefore_def)
qed

lemma domManip_nodes:
  assumes inv: "mw_inv w" and xs: "xs \<noteq> []" "distinct xs" "all_below (fresh w) xs" and ns: "no_scripts w xs"
    and e: "e < fresh w" "hw \<in> {Append, Prepend} \<longrightarrow> is_element (doc w) e" "hw \<in> {Before, After} \<longrightarrow> e \<notin> set xs" "\<not> (table \<and> is_tag w e ''table'' \<and> is_tag w (hd xs) ''tr'')"
    and h: "holder hw e (doc w) = Some p" and up: "\<forall>x\<in>set xs. \<not> below (doc w) p x"
    and pf: "parent_fragment (map MNode xs) [e] w = None"
  shows "\<exists>w'. domManip hh hw table (map MNode xs) [e] w = Some w' \<and> mw_inv w' \<and> reg w' = reg w \<and> udata w' = udata w \<and>
    (\<forall>q<fresh w. ntype (doc w') q = ntype (doc w) q \<and> nodeValue (doc w') q = nodeValue (doc w) q) \<and>
    (\<forall>q<fresh w. childNodes (doc w') q =
      (let rest = filter (\<lambda>z. z \<notin> set xs) (childNodes (doc w) q) in if q = p then inserted hw e xs rest else rest))"
proof -
  let ?f = "fresh w"
  obtain w0 w1 where b: "buildFragment hh (map MNode xs) w = Some (?f, False, [], w1)" "createFragment w = (?f, w0)"
    "moved ?f None xs w0 w1" "childNodes (doc w1) ?f = xs" "may_take w0 ?f None xs"
    using fragment_of_nodes[OF inv xs(2,3) ns, of hh] by blast
  note g = new_node_grows[OF inv b(2)[unfolded createFragment_def]]
  have w0: "reg w0 = reg w" "udata w0 = udata w" "ntype (doc w0) = (ntype (doc w))(?f := 11)" "nodeValue (doc w0) = (nodeValue (doc w))(?f := [])" "fresh w0 = Suc ?f"
      "tags w0 = (tags w)(?f := ''#document-fragment'')" "doc w0 = (doc w)\<lparr>ntype := ntype (doc w0), nodeValue := nodeValue (doc w0)\<rparr>"
    using b(2) by (auto simp: createFragment_def new_node_def Let_def)
  note mw = moved_world[OF b(3)]
  have inv1: "mw_inv w1" and ty: "ntype (doc w1) = ntype (doc w0)" using b(3) by (simp_all add: moved_def)
  note d1 = mw_invD(1)[OF inv1]
  have pb: "p < ?f" using h e(1) parent_below[OF inv] by (cases hw) (auto simp: holder_def)
  have ch1: "childNodes (doc w1) q = filter (\<lambda>z. z \<notin> set xs) (childNodes (doc w) q)" if "q < ?f" for q
    using moved_child[OF b(3), of q] that g by simp
  have bw: "\<forall>x\<in>set xs. \<not> below (doc w1) p x"
    using b(3,5) up g unfolding moved_def may_take_def by auto
  have h1: "holder hw e (doc w1) = Some p"
    by (rule holder_kept[OF mw_invD(1)[OF inv] d1 h e(3) ch1[OF pb]])
  have "spot hw e (doc w1) \<noteq> Some x" if "x \<in> set xs" for x using spot_child[OF d1 h1, of x] ch1[OF pb] that by auto
  then have mt: "may_take w1 p (spot hw e (doc w1)) xs"
    using bw spot_child[OF d1 h1] xs pb mw w0(5) by (auto simp: may_take_def less_Suc_eq)
  obtain x ys where xy: "xs = x # ys" using xs(1) by (cases xs) auto
  let ?n = "if ys = [] then x else ?f"
  have "ntype (doc w1) x \<noteq> 11" using ns xs(3) xy ty w0(3) by (auto simp: no_scripts_def)
  then have ins: "insertBefore p ?n r w1 = insert_all p r xs w1" for r
    using insert_fragment[OF inv1, of ?f x ys p r] b(4) bw xy ty w0(3) pb by simp
  have el: "hw \<in> {Append, Prepend} \<Longrightarrow> is_element (doc w1) e" using e(1,2) ty w0(3) by auto
  obtain w' where w': "insert_all p (spot hw e (doc w1)) xs w1 = Some w'" "moved p (spot hw e (doc w1)) xs w1 w'"
    using insert_all_moved[OF inv1 mt] by blast
  have tr: "table_root e w1 = Some (e, w1)" if "table \<and> is_tag w1 x ''tr''"
    using e(1,4) that mw w0(6) xs(3) xy by (simp add: table_root_def is_tag_def)
  have "put_each hh hw (table \<and> is_tag w1 x ''tr'') False ?n [e] w1 = Some w'"
    using tr put_inserts[OF inv1 h1 ins el] w'(1) by simp
  then have "domManip hh hw table (map MNode xs) [e] w = Some w'"
    using pf b(1,4) xy by (simp add: domManip_def manip_fragment_def)
  moreover have "childNodes (doc w') q =
      (let rest = filter (\<lambda>z. z \<notin> set xs) (childNodes (doc w) q) in if q = p then inserted hw e xs rest else rest)" if "q < ?f" for q
  proof -
    have f: "filter (\<lambda>z. z \<notin> set xs) (childNodes (doc w1) q) = childNodes (doc w1) q" unfolding ch1[OF that] by simp
    show ?thesis unfolding moved_child[OF w'(2), of q] f Let_def ch1[OF that, symmetric]
      using splice_inserted[OF d1 h1, of xs] by simp
  qed
  moreover have "mw_inv w'" "reg w' = reg w" "udata w' = udata w"
    using w'(2) moved_world[OF w'(2)] mw w0 by (simp_all add: moved_def)
  moreover have "\<forall>q<?f. ntype (doc w') q = ntype (doc w) q \<and> nodeValue (doc w') q = nodeValue (doc w) q"
    using w'(2) b(3) w0(3,4) by (simp add: moved_def)
  ultimately show ?thesis by blast
qed

section \<open>Properties\<close>

text \<open>
  C16: let a set of one element be called with different nodes that hold no scripts; neither the place nor what it is in is one of
  the nodes or below one (of them), it is not in a fragment, and it is not a table that gets a row. Then \<open>append\<close>, \<open>prepend\<close>,
  \<open>before\<close> or \<open>after\<close> throws nothing and moves the nodes, in their order, to the place the name says; all other children stay in
  their order, and no data change.
\<close>

theorem insertion_moves_nodes:
  assumes "mw_inv w" and "xs \<noteq> []" "distinct xs" "all_below (fresh w) xs" and "no_scripts w xs"
    and "e < fresh w" "hw \<in> {Append, Prepend} \<longrightarrow> is_element (doc w) e" "hw \<in> {Before, After} \<longrightarrow> e \<notin> set xs"
    and "\<not> (table \<and> is_tag w e ''table'' \<and> is_tag w (hd xs) ''tr'')"
    and "holder hw e (doc w) = Some p" and "\<forall>x\<in>set xs. \<not> below (doc w) p x"
    and "parent_fragment (map MNode xs) [e] w = None"
  shows "\<exists>w'. domManip hh hw table (map MNode xs) [e] w = Some w' \<and> reg w' = reg w \<and> udata w' = udata w \<and>
    (\<forall>q<fresh w. childNodes (doc w') q =
      (let rest = filter (\<lambda>z. z \<notin> set xs) (childNodes (doc w) q) in if q = p then inserted hw e xs rest else rest))"
  using domManip_nodes[OF assms, of hh] by blast

text \<open>One call of a method, with nodes of the world as its set and arguments.\<close>

inductive manip_call :: "mhost \<Rightarrow> mworld \<Rightarrow> mworld \<Rightarrow> bool" for h where
  call_manip: "all_below (fresh w) this \<Longrightarrow> \<forall>a\<in>set args. marg_below (fresh w) a \<Longrightarrow> domManip h hw table args this w = Some w' \<Longrightarrow> manip_call h w w'"
| call_insert_to: "all_below (fresh w) this \<Longrightarrow> all_below (fresh w) ts \<Longrightarrow> insert_to h hw ts this w = Some (ns, w') \<Longrightarrow> manip_call h w w'"
| call_clone: "all_below (fresh w) this \<Longrightarrow> fn_clone h b b' this w = Some (ns, w') \<Longrightarrow> manip_call h w w'"
| call_remove: "fn_remove h sel keep this w = Some w' \<Longrightarrow> manip_call h w w'"
| call_empty: "fn_empty h this w = Some w' \<Longrightarrow> manip_call h w w'"
| call_text: "all_below (fresh w) this \<Longrightarrow> fn_text h s this w = Some w' \<Longrightarrow> manip_call h w w'"
| call_html: "all_below (fresh w) this \<Longrightarrow> marg_below (fresh w) v \<Longrightarrow> fn_html h v this w = Some w' \<Longrightarrow> manip_call h w w'"
| call_replace: "rvalue_below (fresh w) rv \<Longrightarrow> replaceWith h rv this w = Some w' \<Longrightarrow> manip_call h w w'"
| call_wrapAll: "all_below (fresh w) this \<Longrightarrow> \<forall>n. wrapper = Some n \<longrightarrow> n < fresh w \<Longrightarrow> wrapAll h wrapper this w = Some w' \<Longrightarrow> manip_call h w w'"
| call_wrap: "all_below (fresh w) this \<Longrightarrow> \<forall>n. wrapper = Some n \<longrightarrow> n < fresh w \<Longrightarrow> wrap h wrapper this w = Some w' \<Longrightarrow> manip_call h w w'"
| call_wrapInner: "all_below (fresh w) this \<Longrightarrow> \<forall>n. wrapper = Some n \<longrightarrow> n < fresh w \<Longrightarrow> marg_below (fresh w) v \<Longrightarrow>
    wrapInner h wrapper v this w = Some w' \<Longrightarrow> manip_call h w w'"
| call_unwrap: "unwrap h ps w = Some w' \<Longrightarrow> manip_call h w w'"

lemma manip_call_grows: "manip_call h w w' \<Longrightarrow> tree_host h \<Longrightarrow> mw_inv w \<Longrightarrow> grows w w'"
proof (induction rule: manip_call.induct)
  case call_manip
  then show ?case using domManip_grows by blast
next
  case call_insert_to
  then show ?case using insert_to_grows by blast
next
  case call_clone
  then show ?case using fn_clone_grows by blast
next
  case call_remove
  then show ?case using fn_remove_grows by blast
next
  case call_empty
  then show ?case using fn_empty_grows by blast
next
  case call_text
  then show ?case using fn_text_grows by blast
next
  case call_html
  then show ?case using fn_html_grows by blast
next
  case call_replace
  then show ?case using replaceWith_grows by blast
next
  case call_wrapAll
  then show ?case using wrapAll_grows by blast
next
  case call_wrap
  then show ?case using wrap_grows by blast
next
  case call_wrapInner
  then show ?case using wrapInner_grows by blast
next
  case call_unwrap
  then show ?case using unwrap_grows by blast
qed

text \<open>
  No sequence of calls breaks the document: parents and children agree, no node is a child twice, none is below itself, and
  every node that was there keeps its type.
\<close>

theorem manipulation_keeps_tree:
  assumes "(manip_call h)\<^sup>*\<^sup>* w w'" and "tree_host h" and "mw_inv w"
  shows "dom_inv (doc w') \<and> fresh w \<le> fresh w' \<and> (\<forall>n<fresh w. ntype (doc w') n = ntype (doc w) n)"
proof -
  have "grows w w'" using assms(1)
  proof (induction rule: rtranclp_induct)
    case base
    show ?case using grows_refl[OF assms(3)] .
  next
    case (step w1 w2)
    from manip_call_grows[OF step.hyps(2) assms(2) grows_inv[OF step.IH]] grows_trans[OF step.IH] show ?case by blast
  qed
  then show ?thesis using mw_invD(1)[OF grows_inv] by (simp add: grows_def)
qed

text \<open>
  C18: when no element below the element has handlers of special types, text put into it by \<open>text\<close> is what is read from it, whatever
  characters it has; what was in it is gone with its data (but for \<open>embed\<close>, \<open>object\<close> and \<open>applet\<close>, which take no data).
\<close>

theorem text_roundtrip:
  assumes pg: "\<forall>n\<in>set (getAll w e). no_special_handlers h w n" and inv: "mw_inv w" "ev_inv (epage h) (reg w)"
    and e: "e < fresh w" "is_element (doc w) e"
  shows "\<exists>w' t. fn_text h s [e] w = Some w' \<and> childNodes (doc w') e = [t] \<and> ntype (doc w') t = 3 \<and> getText 2 (doc w') [e] = Some s \<and>
    ev_inv (epage h) (reg w') \<and> (\<forall>n\<in>set (getAll w e). \<not> no_data w n \<longrightarrow> cleaned w' n)"
proof -
  obtain w1 where w1: "cleanData h (getAll w e) w = Some w1" "ev_inv (epage h) (reg w1)" "\<forall>x\<in>set (getAll w e). \<not> no_data w x \<longrightarrow> cleaned w1 x"
    using cleanData_plain[OF pg inv(2)] by blast
  have g1: "grows w w1" using tree_kept_grows[OF cleanData_tree[OF w1(1)] inv(1)] .
  obtain w2 where w2: "drain e w1 = Some w2" using drain_ends[OF grows_inv[OF g1]] by blast
  note g2 = drain_grows[OF w2 grows_inv[OF g1]]
  have r2: "reg w2 = reg w1" "udata w2 = udata w1" using drain_data[OF w2] by auto
  have fe: "fn_empty h [e] w = Some w2" using e(2) w1(1) w2 by simp
  obtain t w3 where w3: "createTextNode s w2 = (t, w3)" by fastforce
  have inv2: "mw_inv w2" "grows w w2" using g2 grows_inv grows_trans[OF g1] by auto
  note g3 = new_node_grows[OF inv2(1) w3[unfolded createTextNode_def]]
  have w3': "reg w3 = reg w2" "udata w3 = udata w2" "tags w3 t = ''#text''" "nodeValue (doc w3) t = s" "ntype (doc w3) t = 3"
    using w3 by (auto simp: createTextNode_def new_node_def Let_def)
  have inv3: "mw_inv w3" using g3 grows_inv by blast
  have eb: "e < fresh w2" using grows_less[OF inv2(2) e(1)] .
  have lone: "parentNode (doc w3) t = None" "childNodes (doc w3) t = []"
    using g3 mw_invD(2)[OF inv2(1), of t] mw_invD(3)[OF inv2(1), of _ t]
    by (cases "parentNode (doc w2) t"; cases "childNodes (doc w2) t"; auto)+
  have bt: "below (doc w3) n t \<Longrightarrow> n = t" for n
    using lone(2) dom_invD(1)[OF mw_invD(1)[OF inv3]] by (auto elim: rtranclp.cases)
  have el: "is_element (doc w3) e"
    using e(2) grows_trans[OF inv2(2) conjunct1[OF g3]] e(1) by (simp add: grows_def)
  have "\<not> is_tag w3 t ''script'' \<and> \<not> is_tag w3 t ''tr''" unfolding is_tag_def w3'(3) by code_simp
  then have "no_scripts w3 [t]" "\<not> (True \<and> is_tag w3 e ''table'' \<and> is_tag w3 (hd [t]) ''tr'')"
    using w3'(5) bt by (auto simp: no_scripts_def)
  moreover have "\<forall>x\<in>set [t]. \<not> below (doc w3) e x" using bt[of e] g3 eb by auto
  ultimately obtain w4 where w4: "domManip h Append True (map MNode [t]) [e] w3 = Some w4" "reg w4 = reg w3" "udata w4 = udata w3"
    "\<forall>q<fresh w3. ntype (doc w4) q = ntype (doc w3) q \<and> nodeValue (doc w4) q = nodeValue (doc w3) q"
    "\<forall>q<fresh w3. childNodes (doc w4) q = (let rest = filter (\<lambda>z. z \<notin> set [t]) (childNodes (doc w3) q) in if q = e then inserted Append e [t] rest else rest)"
    using domManip_nodes[OF inv3, of "[t]" e Append True e h] g3 eb el lone
    by (auto simp: holder_def parent_fragment_def)
  have ch: "childNodes (doc w4) e = [t]" using w4(5) g2 g3 eb by (simp add: inserted_def)
  have ty: "ntype (doc w4) e = 1" "ntype (doc w4) t = 3" "nodeValue (doc w4) t = s" using w4(4) g3 eb el w3' by auto
  have "getText 2 (doc w4) [e] = Some s" using ch ty by (simp add: numeral_2_eq_2)
  moreover have "fn_text h s [e] w = Some w4" using fe w3 w4(1) by (simp add: fn_text_def fn_append_def)
  moreover have "ev_inv (epage h) (reg w4)" using w1(2) r2 w3' w4 by simp
  moreover have "\<forall>n\<in>set (getAll w e). \<not> no_data w n \<longrightarrow> cleaned w4 n" using w1(3) r2 w3' w4 by (simp add: cleaned_def)
  ultimately show ?thesis using ch ty by blast
qed

text \<open>
  The same small markup is parsed twice at most: the third call finds the fragment that the second made, and changes nothing.
  Between the calls anything may happen but to the cache.
\<close>

theorem markup_is_cached:
  assumes "cacheable args = Some s" and "fragments w s = None"
    and "buildFragment h args w = Some (f1, k1, ss1, w1)"
    and "fragments v s = fragments w1 s" and "buildFragment h args v = Some (f2, k2, ss2, v1)"
    and "fragments u s = fragments v1 s"
  shows "fragments w1 s = Some None \<and> fragments v1 s = Some (Some f2) \<and> buildFragment h args u = Some (f2, True, [], u)"
proof -
  have 1: "fragments w1 s = Some None"
    using assms(1-3) by (auto simp: buildFragment_def Let_def split: Option.bind_splits prod.splits)
  have 2: "fragments v1 s = Some (Some f2)"
    using assms(1,4,5) 1 by (auto simp: buildFragment_def Let_def split: Option.bind_splits prod.splits)
  have "u\<lparr>fragments := (fragments u)(s := Some (Some f2))\<rparr> = u" using 2 assms(6) by (simp add: fun_upd_idem)
  then have "buildFragment h args u = Some (f2, True, [], u)" using assms(1,6) 2 by (simp add: buildFragment_def Let_def)
  with 1 2 show ?thesis by blast
qed

section \<open>Witnesses\<close>

text \<open>A \<open>div\<close> with a \<open>p\<close>, in which is a \<open>span\<close>, and a text.\<close>

definition some_doc :: dom where
  "some_doc = \<lparr>childNodes = (\<lambda>n. if n = 0 then [1, 2] else if n = 1 then [5] else []),
     parentNode = (\<lambda>n. if n = 1 \<or> n = 2 then Some 0 else if n = 5 then Some 1 else None),
     ntype = (\<lambda>n. if n = 2 then 3 else 1), nodeValue = (\<lambda>n. [])\<rparr>"

definition some_world :: mworld where
  "some_world = \<lparr>doc = some_doc,
     tags = (\<lambda>n. if n = 0 then ''DIV'' else if n = 1 then ''P'' else if n = 2 then ''#text'' else ''SPAN''), stypes = (\<lambda>n. []),
     reg = some_registry, udata = (\<lambda>n. None), fresh = 6, fragments = (\<lambda>s. None)\<rparr>"

definition some_host :: mhost where
  "some_host = \<lparr>epage = some_page, efuel = 3, innerHTML = (\<lambda>s w. Some (new_node 1 ''DIV'' [] w)),
     set_html = (\<lambda>e s w. drain e w), run_script = (\<lambda>s w. Some w)\<rparr>"

lemma some_doc_inv: "dom_inv some_doc"
proof (rule dom_invI[where depth = "\<lambda>n. if n = 5 then 2 else if n = 0 then 0 else 1"])
  show "parentNode some_doc c = Some p \<longleftrightarrow> c \<in> set (childNodes some_doc p)" for c p
    by (auto simp: some_doc_def)
qed (auto simp: some_doc_def split: if_splits)

lemma some_world_inv: "mw_inv some_world"
  using some_doc_inv by (auto simp: mw_inv_def some_world_def some_doc_def)

lemma some_host_ok: "tree_host some_host"
  unfolding tree_host_def some_host_def using new_node_grows' drain_grows grows_refl by (auto simp del: One_nat_def)

lemma some_up: "below some_doc 0 x \<longleftrightarrow> x = 0"
  by (auto simp: some_doc_def elim: converse_rtranclpE)

lemma some_no_scripts: "no_scripts some_world [5, 2]"
proof -
  have "to_upper ''DIV'' \<noteq> to_upper ''script'' \<and> to_upper ''P'' \<noteq> to_upper ''script'' \<and> to_upper ''#text'' \<noteq> to_upper ''script'' \<and>
    to_upper ''SPAN'' \<noteq> to_upper ''script''" by code_simp
  then have "\<not> is_tag some_world n ''script''" for n by (simp add: is_tag_def some_world_def)
  then show ?thesis by (simp add: no_scripts_def some_world_def some_doc_def)
qed

theorem insertion_moves_nodes_witness:
  "\<exists>w'. domManip some_host Append True [MNode 5, MNode 2] [0] some_world = Some w' \<and> childNodes (doc w') 0 = [1, 5, 2] \<and>
    childNodes (doc w') 1 = []"
proof -
  have n: "\<not> is_tag some_world 5 ''tr''" unfolding is_tag_def some_world_def by code_simp
  have "\<exists>w'. domManip some_host Append True (map MNode [5, 2]) [0] some_world = Some w' \<and> reg w' = reg some_world \<and> udata w' = udata some_world \<and>
    (\<forall>q<fresh some_world. childNodes (doc w') q =
      (let rest = filter (\<lambda>z. z \<notin> set [5, 2]) (childNodes (doc some_world) q) in if q = 0 then inserted Append 0 [5, 2] rest else rest))"
    by (rule insertion_moves_nodes[OF some_world_inv _ _ _ some_no_scripts])
      (use n some_up in \<open>auto simp: some_world_def some_doc_def holder_def parent_fragment_def\<close>)
  then show ?thesis by (auto simp: some_world_def some_doc_def inserted_def)
qed

theorem manipulation_keeps_tree_witness:
  "\<exists>w'. (manip_call some_host)\<^sup>*\<^sup>* some_world w' \<and> dom_inv (doc w') \<and> childNodes (doc w') 0 = [2]"
proof -
  let ?w = "some_world\<lparr>doc := cut 1 some_doc\<rparr>"
  have "fn_remove some_host None True [1] some_world = Some ?w"
    by (simp add: some_world_def some_doc_def removeChild_def)
  then have "(manip_call some_host)\<^sup>*\<^sup>* some_world ?w" by (blast intro: call_remove)
  moreover from manipulation_keeps_tree[OF this some_host_ok some_world_inv] have "dom_inv (doc ?w)" by blast
  moreover have "childNodes (doc ?w) 0 = [2]" using cut_children[OF some_doc_inv, of 1 0] by (simp add: some_doc_def)
  ultimately show ?thesis by blast
qed

lemma some_specials: "no_special_handlers some_host some_world n"
  by (auto simp: no_special_handlers_def ev_list_def some_world_def some_registry_def some_host_def some_page_special split: if_splits)

theorem remove_forgets_witness:
  "\<exists>w'. fn_remove some_host None False [1] some_world = Some w' \<and> parentNode (doc w') 1 = None \<and>
    pdata (reg some_world) 5 \<noteq> None \<and> cleaned w' 5"
proof -
  have p: "\<forall>n. no_special_handlers some_host some_world n" "ev_inv (epage some_host) (reg some_world)" "is_element (doc some_world) 1"
    using some_specials some_registry_inv by (simp_all add: some_host_def some_world_def some_doc_def)
  have "\<not> no_data some_world 5" unfolding no_data_def some_world_def by code_simp
  moreover have "below (doc some_world) 5 1" "is_element (doc some_world) 5" by (auto simp: some_world_def some_doc_def)
  moreover have "pdata (reg some_world) 5 \<noteq> None" by (simp add: some_world_def some_registry_def)
  ultimately show ?thesis using remove_forgets[OF _ some_world_inv p(2,3)] p(1) by blast
qed

theorem text_roundtrip_witness:
  "\<exists>w'. fn_text some_host ''a<b>&c'' [0] some_world = Some w' \<and> getText 2 (doc w') [0] = Some ''a<b>&c''"
proof -
  have p: "\<forall>n. no_special_handlers some_host some_world n" "ev_inv (epage some_host) (reg some_world)" "0 < fresh some_world" "is_element (doc some_world) 0"
    using some_specials some_registry_inv by (simp_all add: some_host_def some_world_def some_doc_def)
  show ?thesis using text_roundtrip[OF _ some_world_inv p(2,3,4), of "''a<b>&c''"] p(1) by blast
qed

lemma some_markup: "cacheable [MText ''<p>''] = Some ''<p>''" "rhtml ''<p>''" "fix_tags ''<p>'' = ''<p>''" "wrapMap (to_lower (rtagName ''<p>'')) = None"
  by (code_simp, code_simp, code_simp, code_simp)

lemma some_build:
  assumes "\<forall>n\<ge>fresh w. childNodes (doc w) n = []" and "fragments w ''<p>'' = None \<or> fragments w ''<p>'' = Some None"
  shows "\<exists>f ss w'. buildFragment some_host [MText ''<p>''] w = Some (f, True, ss, w') \<and> (\<forall>n\<ge>fresh w'. childNodes (doc w') n = [])"
  using assms some_markup
  by (auto simp: buildFragment_def some_host_def Let_def jq_clean_def text_nodes_def parse_nodes_def createFragment_def new_node_def fill.simps
      split: option.splits)

theorem markup_is_cached_witness:
  "\<exists>f u. buildFragment some_host [MText ''<p>''] u = Some (f, True, [], u) \<and> fragments u ''<p>'' = Some (Some f)"
proof -
  have w: "fragments some_world ''<p>'' = None" "\<forall>n\<ge>fresh some_world. childNodes (doc some_world) n = []"
    by (simp_all add: some_world_def some_doc_def)
  obtain f1 ss1 w1 where 1: "buildFragment some_host [MText ''<p>''] some_world = Some (f1, True, ss1, w1)" "\<forall>n\<ge>fresh w1. childNodes (doc w1) n = []"
    using some_build[of some_world] w by blast
  have f: "fragments w1 ''<p>'' = Some None"
    using 1(1) w(1) some_markup(1) by (auto simp: buildFragment_def Let_def split: Option.bind_splits prod.splits)
  obtain f2 ss2 v1 where 2: "buildFragment some_host [MText ''<p>''] w1 = Some (f2, True, ss2, v1)" using some_build[of w1] 1(2) f by blast
  from markup_is_cached[OF some_markup(1) w(1) 1(1) refl 2 refl] show ?thesis by blast
qed

end
