(* ===== verification/JQ_Fx.thy ===== *)
theory JQ_Fx
  imports Complex_Main JQ_Data
begin

text \<open>
  Animations in jquery-1.6.4.js: the animation objects of \<open>jQuery.fx\<close> with their steps and easings, the
  list of timers and its \<open>tick\<close>, \<open>stop\<close>, \<open>animate\<close>, \<open>speed\<close>, and \<open>show\<close> and \<open>hide\<close>.

  Numbers are reals: rounding is left out, and a text that does not stand for a number makes a sum
  \<open>NaN\<close>. The world keeps the animation objects and their option objects under numbers, the properties
  of elements, and in \<open>others\<close> whatever the functions of the user and the queues work on. The queues
  of \<open>JQ_Queue\<close>, the computed styles of the browser and the functions of the user are arguments.
\<close>

section \<open>State\<close>

datatype fval = FNum real | FTxt string

text \<open>A style value: a number with its unit, or a text.\<close>

type_synonym sval = "fval \<times> string"

datatype easing_mark = Easing string | Finished

record fopts =
  duration :: "real option" \<comment> \<open>\<open>None\<close> is Infinity\<close>
  easing :: string \<comment> \<open>empty for none\<close>
  specialEasing :: "string \<Rightarrow> string"
  queued :: bool \<comment> \<open>whether \<open>queue\<close> is not \<open>false\<close>\<close>
  old :: "nat option" \<comment> \<open>the user's \<open>complete\<close>\<close>
  ostep :: "nat option" \<comment> \<open>the user's \<open>step\<close>\<close>
  animatedProperties :: "(string \<times> easing_mark) list"
  orig :: "(string \<times> sval option) list"
  oshow :: bool
  ohide :: bool
  overflow :: "(sval option \<times> sval option \<times> sval option) option"

record fx =
  felem :: nat
  fprop :: string
  fopt :: nat
  fstart :: fval
  fend :: fval
  fnow :: fval
  fpos :: real
  fstate :: real
  funit :: string
  fstartTime :: real

text \<open>The value of an animated property, split as \<open>rfxnum\<close> does: sign of a relative one, number, unit.\<close>

datatype aval = Toggle | Show | Hide | Amount "bool option" real string | Other string

text \<open>A property's value, alone or in an array with its own easing.\<close>

datatype pval = Plain aval | WithEasing aval string

record 'q fxw =
  fxs :: "nat \<Rightarrow> fx"
  fxNext :: nat
  opts :: "nat \<Rightarrow> fopts"
  optNext :: nat
  pobjs :: "nat \<Rightarrow> (string \<times> pval) list" \<comment> \<open>the objects of properties of running calls of \<open>animate\<close>\<close>
  pobjNext :: nat
  timers :: "nat list"
  timerId :: bool \<comment> \<open>whether the interval runs\<close>
  clock :: real
  fxNow :: "real option"
  styles :: "nat \<Rightarrow> string \<Rightarrow> sval option" \<comment> \<open>\<open>elem.style\<close>; nothing for a property it does not have\<close>
  eprops :: "nat \<Rightarrow> string \<Rightarrow> fval option" \<comment> \<open>properties of the element itself\<close>
  olddisplay :: "nat \<Rightarrow> string" \<comment> \<open>a private datum, empty for none\<close>
  others :: 'q

record 'q fxenv =
  css :: "nat \<Rightarrow> string \<Rightarrow> 'q fxw \<Rightarrow> sval"
  easings :: "string \<Rightarrow> real \<Rightarrow> real \<Rightarrow> real \<Rightarrow> real \<Rightarrow> real option \<Rightarrow> real"
  userStep :: "nat \<Rightarrow> nat \<Rightarrow> fval \<Rightarrow> nat \<Rightarrow> 'q fxw \<Rightarrow> 'q fxw"
  userDone :: "nat \<Rightarrow> nat \<Rightarrow> 'q fxw \<Rightarrow> 'q fxw"
  dequeue :: "nat \<Rightarrow> 'q fxw \<Rightarrow> 'q fxw"
  enqueue :: "nat \<Rightarrow> ('q fxw \<Rightarrow> 'q fxw) \<Rightarrow> 'q fxw \<Rightarrow> 'q fxw"
  mark :: "nat \<Rightarrow> 'q fxw \<Rightarrow> 'q fxw"
  unmark :: "bool \<Rightarrow> nat \<Rightarrow> 'q fxw \<Rightarrow> 'q fxw"
  emptyQueue :: "nat \<Rightarrow> 'q fxw \<Rightarrow> 'q fxw"
  isElement :: "nat \<Rightarrow> bool"
  hasStyle :: "nat \<Rightarrow> bool"
  hidden :: "nat \<Rightarrow> 'q fxw \<Rightarrow> bool" \<comment> \<open>\<open>is(":hidden")\<close>\<close>
  cssNumber :: "string \<Rightarrow> bool"
  defaultDisplay :: "nat \<Rightarrow> string"
  inlineBlockNeedsLayout :: bool
  shrinkWrapBlocks :: bool
  fxOff :: bool

section \<open>Time and easing\<close>

definition createFxNow :: "'q fxw \<Rightarrow> real \<times> 'q fxw" where
  "createFxNow w = (clock w, w\<lparr>fxNow := Some (clock w)\<rparr>)"

definition clearFxNow :: "'q fxw \<Rightarrow> 'q fxw" where
  "clearFxNow w = w\<lparr>fxNow := None\<rparr>"

definition fx_time :: "'q fxw \<Rightarrow> real \<times> 'q fxw" where
  "fx_time w = (case fxNow w of Some t \<Rightarrow> (t, w) | None \<Rightarrow> createFxNow w)"

definition linear :: "real \<Rightarrow> real \<Rightarrow> real \<Rightarrow> real \<Rightarrow> real" where
  "linear p n firstNum diff = firstNum + diff * p"

definition swing :: "real \<Rightarrow> real \<Rightarrow> real \<Rightarrow> real \<Rightarrow> real" where
  "swing p n firstNum diff = ((- cos (p * pi) / 2) + 1 / 2) * diff + firstNum"

text \<open>The two easings of the library; other names are looked up in the table of the page.\<close>

definition ease :: "'q fxenv \<Rightarrow> string \<Rightarrow> real \<Rightarrow> real \<Rightarrow> real option \<Rightarrow> real" where
  "ease env name p n d =
     (if name = ''linear'' then linear p n 0 1 else if name = ''swing'' then swing p n 0 1
      else easings env name p n 0 1 d)"

text \<open>\<open>start + (end - start) * pos\<close>: a text is not a number.\<close>

definition lerp :: "fval \<Rightarrow> fval \<Rightarrow> real \<Rightarrow> fval" where
  "lerp a b p = (case a of FTxt s \<Rightarrow> FTxt (s @ ''NaN'')
     | FNum x \<Rightarrow> (case b of FNum y \<Rightarrow> FNum (x + (y - x) * p) | FTxt s \<Rightarrow> FTxt ''NaN''))"

section \<open>Writing values\<close>

definition set_style :: "nat \<Rightarrow> string \<Rightarrow> sval option \<Rightarrow> 'q fxw \<Rightarrow> 'q fxw" where
  "set_style e p v w = w\<lparr>styles := (styles w)(e := (styles w e)(p := v))\<rparr>"

text \<open>\<open>jQuery.style\<close> with a value: nothing is done for a missing one.\<close>

definition jq_style :: "'q fxenv \<Rightarrow> nat \<Rightarrow> string \<Rightarrow> sval option \<Rightarrow> 'q fxw \<Rightarrow> 'q fxw" where
  "jq_style env e p v w =
     (case v of
        None \<Rightarrow> w
      | Some (FNum r, u) \<Rightarrow> set_style e p (Some (FNum r, if u = [] \<and> \<not> cssNumber env p then ''px'' else u)) w
      | Some (FTxt s, u) \<Rightarrow> set_style e p (Some (FTxt s, u)) w)"

definition not_negative :: "fval \<Rightarrow> fval" where
  "not_negative v = (case v of FNum r \<Rightarrow> FNum (max 0 r) | FTxt s \<Rightarrow> FTxt ''NaN'')"

definition fx_put :: "'q fxenv \<Rightarrow> fx \<Rightarrow> 'q fxw \<Rightarrow> 'q fxw" where
  "fx_put env f w =
     (if fprop f = ''opacity'' then jq_style env (felem f) ''opacity'' (Some (fnow f, [])) w
      else if hasStyle env (felem f) \<and> styles w (felem f) (fprop f) \<noteq> None
      then set_style (felem f) (fprop f)
             (Some (if fprop f = ''width'' \<or> fprop f = ''height'' then not_negative (fnow f) else fnow f, funit f)) w
      else w\<lparr>eprops := (eprops w)(felem f := (eprops w (felem f))(fprop f := Some (fnow f)))\<rparr>)"

definition fx_update :: "'q fxenv \<Rightarrow> nat \<Rightarrow> 'q fxw \<Rightarrow> 'q fxw" where
  "fx_update env i w =
     (let w1 = (case ostep (opts w (fopt (fxs w i))) of
                  Some s \<Rightarrow> userStep env s (felem (fxs w i)) (fnow (fxs w i)) i w | None \<Rightarrow> w)
      in fx_put env (fxs w1 i) w1)"

text \<open>The current size: empty and \<open>auto\<close> count as 0, a text that is no number is returned as it is.\<close>

definition fx_cur :: "'q fxenv \<Rightarrow> nat \<Rightarrow> 'q fxw \<Rightarrow> fval" where
  "fx_cur env i w =
     (let e = felem (fxs w i); p = fprop (fxs w i)
      in case eprops w e p of
           Some v \<Rightarrow> if \<not> hasStyle env e \<or> styles w e p = None then v
                     else (case fst (css env e p w) of FNum r \<Rightarrow> FNum r | FTxt s \<Rightarrow> if s = [] \<or> s = ''auto'' then FNum 0 else FTxt s)
         | None \<Rightarrow> (case fst (css env e p w) of FNum r \<Rightarrow> FNum r | FTxt s \<Rightarrow> if s = [] \<or> s = ''auto'' then FNum 0 else FTxt s))"

definition set_fx :: "nat \<Rightarrow> (fx \<Rightarrow> fx) \<Rightarrow> 'q fxw \<Rightarrow> 'q fxw" where
  "set_fx i f w = w\<lparr>fxs := (fxs w)(i := f (fxs w i))\<rparr>"

definition set_opt :: "nat \<Rightarrow> (fopts \<Rightarrow> fopts) \<Rightarrow> 'q fxw \<Rightarrow> 'q fxw" where
  "set_opt i f w = w\<lparr>opts := (opts w)(i := f (opts w i))\<rparr>"

section \<open>show and hide\<close>

definition display_of :: "nat \<Rightarrow> 'q fxw \<Rightarrow> sval" where
  "display_of e w = (case styles w e ''display'' of Some v \<Rightarrow> v | None \<Rightarrow> (FTxt [], []))"

definition show_learn :: "'q fxenv \<Rightarrow> nat \<Rightarrow> 'q fxw \<Rightarrow> 'q fxw" where
  "show_learn env e w =
     (if \<not> hasStyle env e then w
      else let d = fst (display_of e w);
               reset = (olddisplay w e = [] \<and> d = FTxt ''none'');
               w1 = (if reset then set_style e ''display'' (Some (FTxt [], [])) w else w);
               d1 = (if reset then FTxt [] else d)
           in if d1 = FTxt [] \<and> fst (css env e ''display'' w1) = FTxt ''none''
              then w1\<lparr>olddisplay := (olddisplay w1)(e := defaultDisplay env e)\<rparr> else w1)"

definition show_set :: "'q fxenv \<Rightarrow> nat \<Rightarrow> 'q fxw \<Rightarrow> 'q fxw" where
  "show_set env e w =
     (if hasStyle env e \<and> fst (display_of e w) \<in> {FTxt [], FTxt ''none''}
      then set_style e ''display'' (Some (FTxt (olddisplay w e), [])) w else w)"

text \<open>Two loops over the elements, so that the second sees what the first wrote.\<close>

definition fx_show_now :: "'q fxenv \<Rightarrow> nat list \<Rightarrow> 'q fxw \<Rightarrow> 'q fxw" where
  "fx_show_now env this w = fold (show_set env) this (fold (show_learn env) this w)"

definition hide_learn :: "'q fxenv \<Rightarrow> nat \<Rightarrow> 'q fxw \<Rightarrow> 'q fxw" where
  "hide_learn env e w =
     (if \<not> hasStyle env e then w
      else case fst (css env e ''display'' w) of
        FTxt d \<Rightarrow> if d \<noteq> ''none'' \<and> olddisplay w e = [] then w\<lparr>olddisplay := (olddisplay w)(e := d)\<rparr> else w
      | FNum r \<Rightarrow> w)"

definition fx_hide_now :: "'q fxenv \<Rightarrow> nat list \<Rightarrow> 'q fxw \<Rightarrow> 'q fxw" where
  "fx_hide_now env this w =
     fold (\<lambda>e w. if hasStyle env e then set_style e ''display'' (Some (FTxt ''none'', [])) w else w) this
       (fold (hide_learn env) this w)"

section \<open>Steps\<close>

text \<open>The \<open>complete\<close> that \<open>speed\<close> makes; its argument is \<open>true\<close> unless \<open>false\<close> is given.\<close>

definition complete :: "'q fxenv \<Rightarrow> fopts \<Rightarrow> bool \<Rightarrow> nat \<Rightarrow> 'q fxw \<Rightarrow> 'q fxw" where
  "complete env ob noUnmark e w =
     (let w1 = (case old ob of Some f \<Rightarrow> userDone env f e w | None \<Rightarrow> w)
      in if queued ob then dequeue env e w1 else if noUnmark then unmark env False e w1 else w1)"

definition restore_overflow :: "'q fxenv \<Rightarrow> nat \<Rightarrow> fopts \<Rightarrow> 'q fxw \<Rightarrow> 'q fxw" where
  "restore_overflow env e ob w =
     (case overflow ob of
        Some (a, x, y) \<Rightarrow> if shrinkWrapBlocks env then w
          else set_style e ''overflowY'' y (set_style e ''overflowX'' x (set_style e ''overflow'' a w))
      | None \<Rightarrow> w)"

definition restore_props :: "'q fxenv \<Rightarrow> nat \<Rightarrow> fopts \<Rightarrow> 'q fxw \<Rightarrow> 'q fxw" where
  "restore_props env e ob w =
     (if ohide ob \<or> oshow ob
      then fold (\<lambda>p. jq_style env e p (case map_of (orig ob) p of Some v \<Rightarrow> v | None \<Rightarrow> None)) (map fst (animatedProperties ob)) w
      else w)"

definition finish_all :: "'q fxenv \<Rightarrow> nat \<Rightarrow> fopts \<Rightarrow> 'q fxw \<Rightarrow> 'q fxw" where
  "finish_all env e ob w =
     (let w1 = restore_overflow env e ob w;
          w2 = (if ohide ob then fx_hide_now env [e] w1 else w1);
          w3 = restore_props env e ob w2
      in complete env ob True e w3)"

definition step_last :: "'q fxenv \<Rightarrow> nat \<Rightarrow> 'q fxw \<Rightarrow> 'q fxw" where
  "step_last env i w =
     (let w1 = fx_update env i (set_fx i (\<lambda>f. f\<lparr>fnow := fend f, fpos := 1, fstate := 1\<rparr>) w);
          f = fxs w1 i;
          w2 = set_opt (fopt f) (\<lambda>ob. ob\<lparr>animatedProperties := AList.update (fprop f) Finished (animatedProperties ob)\<rparr>) w1;
          ob = opts w2 (fopt f)
      in if list_all (\<lambda>(p, m). m = Finished) (animatedProperties ob) then finish_all env (felem f) ob w2 else w2)"

definition easing_of :: "fopts \<Rightarrow> string \<Rightarrow> string" where
  "easing_of ob p = (case map_of (animatedProperties ob) p of Some (Easing s) \<Rightarrow> s | _ \<Rightarrow> [])"

definition step_between :: "'q fxenv \<Rightarrow> nat \<Rightarrow> real \<Rightarrow> 'q fxw \<Rightarrow> 'q fxw" where
  "step_between env i t w =
     (let f = fxs w i; ob = opts w (fopt f)
      in case duration ob of
           None \<Rightarrow> fx_update env i (set_fx i (\<lambda>f. f\<lparr>fnow := FNum t\<rparr>) w)
         | Some d \<Rightarrow>
             (let n = t - fstartTime f; st = n / d; ps = ease env (easing_of ob (fprop f)) st n (Some d)
              in fx_update env i (set_fx i (\<lambda>f. f\<lparr>fstate := st, fpos := ps, fnow := lerp (fstart f) (fend f) ps\<rparr>) w)))"

definition is_over :: "real \<Rightarrow> fx \<Rightarrow> fopts \<Rightarrow> bool" where
  "is_over t f ob \<longleftrightarrow> (case duration ob of None \<Rightarrow> False | Some d \<Rightarrow> t \<ge> d + fstartTime f)"

definition fx_step :: "'q fxenv \<Rightarrow> nat \<Rightarrow> bool \<Rightarrow> 'q fxw \<Rightarrow> bool \<times> 'q fxw" where
  "fx_step env i gotoEnd w =
     (let (t, w1) = fx_time w
      in if gotoEnd \<or> is_over t (fxs w1 i) (opts w1 (fopt (fxs w1 i))) then (False, step_last env i w1)
         else (True, step_between env i t w1))"

section \<open>Timers\<close>

definition new_fx :: "nat \<Rightarrow> nat \<Rightarrow> string \<Rightarrow> 'q fxw \<Rightarrow> nat \<times> 'q fxw" where
  "new_fx e ob p w =
     (fxNext w, w\<lparr>fxNext := fxNext w + 1, fxs := (fxs w)(fxNext w :=
        \<lparr>felem = e, fprop = p, fopt = ob, fstart = FNum 0, fend = FNum 0, fnow = FNum 0, fpos = 0, fstate = 0,
         funit = [], fstartTime = 0\<rparr>)\<rparr>)"

definition fx_custom :: "'q fxenv \<Rightarrow> nat \<Rightarrow> fval \<Rightarrow> fval \<Rightarrow> string \<Rightarrow> 'q fxw \<Rightarrow> 'q fxw" where
  "fx_custom env i a b u w =
     (let (t, w1) = fx_time w;
          w2 = set_fx i (\<lambda>f. f\<lparr>fstartTime := t, fstart := a, fend := b, fnow := a, fpos := 0, fstate := 0,
            funit := (if u \<noteq> [] then u else if funit f \<noteq> [] then funit f else if cssNumber env (fprop f) then [] else ''px'')\<rparr>) w1;
          (go, w3) = fx_step env i False w2
      in if go then w3\<lparr>timers := timers w3 @ [i], timerId := True\<rparr> else w3)"

definition remember :: "nat \<Rightarrow> 'q fxw \<Rightarrow> 'q fxw" where
  "remember i w =
     (let f = fxs w i
      in set_opt (fopt f) (\<lambda>ob. ob\<lparr>orig := AList.update (fprop f) (styles w (felem f) (fprop f)) (orig ob)\<rparr>) w)"

definition fx_show :: "'q fxenv \<Rightarrow> nat \<Rightarrow> 'q fxw \<Rightarrow> 'q fxw" where
  "fx_show env i w =
     (let f = fxs w i;
          w1 = set_opt (fopt f) (\<lambda>ob. ob\<lparr>oshow := True\<rparr>) (remember i w);
          w2 = fx_custom env i (FNum (if fprop f = ''width'' \<or> fprop f = ''height'' then 1 else 0)) (fx_cur env i w1) [] w1
      in fx_show_now env [felem f] w2)"

definition fx_hide :: "'q fxenv \<Rightarrow> nat \<Rightarrow> 'q fxw \<Rightarrow> 'q fxw" where
  "fx_hide env i w =
     (let f = fxs w i;
          w1 = set_opt (fopt f) (\<lambda>ob. ob\<lparr>ohide := True\<rparr>) (remember i w)
      in fx_custom env i (fx_cur env i w1) (FNum 0) [] w1)"

text \<open>\<open>splice(i, 1)\<close>\<close>

definition splice1 :: "nat \<Rightarrow> 'a list \<Rightarrow> 'a list" where
  "splice1 i xs = take i xs @ drop (Suc i) xs"

text \<open>
  The loop of \<open>tick\<close> works on the list of timers itself, by index; a step may change that list. It may
  also go on for ever, when steps keep adding timers.
\<close>

partial_function (option) tick_from :: "'q fxenv \<Rightarrow> nat \<Rightarrow> 'q fxw \<Rightarrow> 'q fxw option" where
  "tick_from env i w =
     (if i \<ge> length (timers w) then Some w
      else (case fx_step env (timers w ! i) False w of
              (go, w1) \<Rightarrow> if go then tick_from env (Suc i) w1 else tick_from env i (w1\<lparr>timers := splice1 i (timers w1)\<rparr>)))"

definition fx_halt :: "'q fxw \<Rightarrow> 'q fxw" where
  "fx_halt w = w\<lparr>timerId := False\<rparr>"

definition tick :: "'q fxenv \<Rightarrow> 'q fxw \<Rightarrow> 'q fxw option" where
  "tick env w = map_option (\<lambda>w1. if timers w1 = [] then fx_halt w1 else w1) (tick_from env 0 w)"

section \<open>animate\<close>

text \<open>The duration as it is given: a number, a name, or something else.\<close>

datatype speed_arg = SNumber real | SName string | SInfinity | SNone

definition fx_speeds :: "speed_arg \<Rightarrow> real" where
  "fx_speeds s = (case s of SName n \<Rightarrow> if n = ''slow'' then 600 else if n = ''fast'' then 200 else 400 | _ \<Rightarrow> 400)"

definition speed_duration :: "'q fxenv \<Rightarrow> speed_arg \<Rightarrow> real option" where
  "speed_duration env s =
     (if fxOff env then Some 0
      else case s of SNumber r \<Rightarrow> Some r | SInfinity \<Rightarrow> None | _ \<Rightarrow> Some (fx_speeds s))"

text \<open>Arguments of \<open>animate\<close> after \<open>prop\<close>: a duration, then an easing or a function, then a function.\<close>

datatype ease_arg = ENothing | EName string | EFun nat

definition jq_speed :: "'q fxenv \<Rightarrow> speed_arg \<Rightarrow> ease_arg \<Rightarrow> nat option \<Rightarrow> fopts" where
  "jq_speed env s ea fn =
     \<lparr>duration = speed_duration env s,
      easing = (case ea of EName n \<Rightarrow> n | _ \<Rightarrow> []),
      specialEasing = (\<lambda>p. []),
      queued = True,
      old = (case fn of Some f \<Rightarrow> Some f | None \<Rightarrow> (case ea of EFun f \<Rightarrow> Some f | _ \<Rightarrow> None)),
      ostep = None, animatedProperties = [], orig = [], oshow = False, ohide = False, overflow = None\<rparr>"

definition pval_val :: "pval \<Rightarrow> aval" where
  "pval_val v = (case v of Plain a \<Rightarrow> a | WithEasing a s \<Rightarrow> a)"

text \<open>
  The copy of \<open>prop\<close> that \<open>animate\<close> makes is one object for all elements; the function run for an
  element renames its keys and takes the easings out of it.
\<close>

type_synonym pobj = "(string \<times> pval) list"

definition normalize_name :: "string \<Rightarrow> pobj \<Rightarrow> pobj" where
  "normalize_name p ps =
     (let name = camelCase p
      in if name = p then ps
         else AList.delete p (case map_of ps p of Some v \<Rightarrow> AList.update name v ps | None \<Rightarrow> ps))"

definition resolve_easing :: "string \<Rightarrow> pobj \<times> fopts \<Rightarrow> pobj \<times> fopts" where
  "resolve_easing name po = (case po of (ps, ob) \<Rightarrow>
     (case map_of ps name of
        Some (WithEasing a s) \<Rightarrow>
          (AList.update name (Plain a) ps, ob\<lparr>animatedProperties := AList.update name (Easing s) (animatedProperties ob)\<rparr>)
      | _ \<Rightarrow>
          (let s = (if specialEasing ob name \<noteq> [] then specialEasing ob name
                    else if easing ob \<noteq> [] then easing ob else ''swing'')
           in (ps, ob\<lparr>animatedProperties := AList.update name (Easing s) (animatedProperties ob)\<rparr>))))"

text \<open>An element is made a block, inline or not, when its size is animated.\<close>

definition prepare_size :: "'q fxenv \<Rightarrow> nat \<Rightarrow> fopts \<Rightarrow> 'q fxw \<Rightarrow> fopts \<times> 'q fxw" where
  "prepare_size env e ob w =
     (let ob1 = ob\<lparr>overflow := Some (styles w e ''overflow'', styles w e ''overflowX'', styles w e ''overflowY'')\<rparr>
      in if fst (css env e ''display'' w) = FTxt ''inline'' \<and> fst (css env e ''float'' w) = FTxt ''none''
         then (ob1,
           if \<not> inlineBlockNeedsLayout env \<or> defaultDisplay env e = ''inline''
           then set_style e ''display'' (Some (FTxt ''inline-block'', [])) w
           else set_style e ''zoom'' (Some (FNum 1, [])) (set_style e ''display'' (Some (FTxt ''inline'', [])) w))
         else (ob1, w))"

text \<open>
  The first loop; \<open>Inl\<close> is the early return for an element that is hidden or shown already. The keys are
  those the object has at the start of the loop.
\<close>

fun first_loop :: "'q fxenv \<Rightarrow> nat \<Rightarrow> bool \<Rightarrow> string list \<Rightarrow> pobj \<times> fopts \<times> 'q fxw
    \<Rightarrow> (pobj \<times> fopts \<times> 'q fxw) + (pobj \<times> fopts \<times> 'q fxw)" where
  "first_loop env e hid [] (ps, ob, w) = Inr (ps, ob, w)"
| "first_loop env e hid (p # rest) (ps, ob, w) =
     (let name = camelCase p;
          (ps1, ob1) = resolve_easing name (normalize_name p ps, ob);
          val = (case map_of ps1 name of Some v \<Rightarrow> Some (pval_val v) | None \<Rightarrow> None)
      in if (val = Some Hide \<and> hid) \<or> (val = Some Show \<and> \<not> hid) then Inl (ps1, ob1, w)
         else let (ob2, w1) = (if isElement env e \<and> (name = ''height'' \<or> name = ''width'') then prepare_size env e ob1 w else (ob1, w))
              in first_loop env e hid rest (ps1, ob2, w1))"

definition div_val :: "real \<Rightarrow> fval \<Rightarrow> fval \<Rightarrow> fval" where
  "div_val k c s =
     (case c of FTxt t \<Rightarrow> FTxt ''NaN''
      | FNum y \<Rightarrow> (case s of FTxt t \<Rightarrow> FTxt ''NaN''
         | FNum x \<Rightarrow> if y = 0 then FTxt (if x = 0 then ''NaN'' else ''Infinity'') else FNum (k / y * x)))"

definition relative :: "bool option \<Rightarrow> real \<Rightarrow> fval \<Rightarrow> fval" where
  "relative sign v s =
     (case sign of None \<Rightarrow> FNum v
      | Some add \<Rightarrow> (case s of FNum x \<Rightarrow> FNum ((if add then v else - v) + x) | FTxt t \<Rightarrow> FTxt ''NaN''))"

text \<open>One property of the second loop: an animation object is made and started.\<close>

definition start_prop :: "'q fxenv \<Rightarrow> nat \<Rightarrow> nat \<Rightarrow> bool \<Rightarrow> string \<Rightarrow> aval \<Rightarrow> 'q fxw \<Rightarrow> 'q fxw" where
  "start_prop env e ob hid p val w =
     (let (i, w0) = new_fx e ob p w
      in case val of
           Toggle \<Rightarrow> if hid then fx_show env i w0 else fx_hide env i w0
         | Show \<Rightarrow> fx_show env i w0
         | Hide \<Rightarrow> fx_hide env i w0
         | Other s \<Rightarrow> fx_custom env i (fx_cur env i w0) (FTxt s) [] w0
         | Amount sign v u \<Rightarrow>
             (let start = fx_cur env i w0;
                  unit = (if u \<noteq> [] then u else if cssNumber env p then [] else ''px'');
                  k = (if v = 0 then 1 else v);
                  w1 = (if unit = ''px'' then w0 else jq_style env e p (Some (FNum k, unit)) w0);
                  start1 = (if unit = ''px'' then start else div_val k (fx_cur env i w1) start);
                  w2 = (if unit = ''px'' then w1 else jq_style env e p (Some (start1, unit)) w1)
              in fx_custom env i start1 (relative sign v start1) unit w2))"

fun second_loop :: "'q fxenv \<Rightarrow> nat \<Rightarrow> nat \<Rightarrow> bool \<Rightarrow> (string \<times> pval) list \<Rightarrow> 'q fxw \<Rightarrow> 'q fxw" where
  "second_loop env e ob hid [] w = w"
| "second_loop env e ob hid ((p, v) # rest) w = second_loop env e ob hid rest (start_prop env e ob hid p (pval_val v) w)"

definition set_pobj :: "nat \<Rightarrow> pobj \<Rightarrow> 'q fxw \<Rightarrow> 'q fxw" where
  "set_pobj k ps w = w\<lparr>pobjs := (pobjs w)(k := ps)\<rparr>"

definition animate_elem :: "'q fxenv \<Rightarrow> fopts \<Rightarrow> nat \<Rightarrow> nat \<Rightarrow> 'q fxw \<Rightarrow> 'q fxw" where
  "animate_elem env optall k e w =
     (let w0 = (if queued optall then w else mark env e w);
          hid = (isElement env e \<and> hidden env e w0);
          ps = pobjs w0 k
      in case first_loop env e hid (map fst ps) (ps, optall\<lparr>animatedProperties := []\<rparr>, w0) of
           Inl (ps1, ob, w1) \<Rightarrow> complete env ob True e (set_pobj k ps1 w1)
         | Inr (ps1, ob, w1) \<Rightarrow>
             (let w2 = (if overflow ob = None then w1 else set_style e ''overflow'' (Some (FTxt ''hidden'', [])) w1);
                  i = optNext w2;
                  w3 = set_pobj k ps1 (w2\<lparr>optNext := i + 1, opts := (opts w2)(i := ob)\<rparr>)
              in second_loop env e i hid ps1 w3))"

text \<open>
  Without the queue the function runs for each element in turn, with it when its turn comes; either
  way all elements share the one object.
\<close>

definition animate :: "'q fxenv \<Rightarrow> pobj \<Rightarrow> fopts \<Rightarrow> nat list \<Rightarrow> 'q fxw \<Rightarrow> 'q fxw" where
  "animate env ps optall this w =
     (if ps = [] then fold (complete env optall False) this w
      else let k = pobjNext w; w1 = set_pobj k ps (w\<lparr>pobjNext := k + 1\<rparr>)
           in if queued optall then fold (\<lambda>e. enqueue env e (animate_elem env optall k e)) this w1
              else fold (animate_elem env optall k) this w1)"

section \<open>stop\<close>

text \<open>
  The loop over the timers from the end; with \<open>gotoEnd\<close> a timer is run before it is taken out. Reading
  an index that is no longer there throws.
\<close>

fun stop_from :: "'q fxenv \<Rightarrow> bool \<Rightarrow> nat \<Rightarrow> nat \<Rightarrow> 'q fxw \<Rightarrow> 'q fxw outcome" where
  "stop_from env gotoEnd e 0 w = Returned w"
| "stop_from env gotoEnd e (Suc i) w =
     (if i \<ge> length (timers w) then Threw w
      else if felem (fxs w (timers w ! i)) = e
      then let w1 = (if gotoEnd then snd (fx_step env (timers w ! i) True w) else w)
           in stop_from env gotoEnd e i (w1\<lparr>timers := splice1 i (timers w1)\<rparr>)
      else stop_from env gotoEnd e i w)"

definition stop_elem :: "'q fxenv \<Rightarrow> bool \<Rightarrow> nat \<Rightarrow> 'q fxw \<Rightarrow> 'q fxw outcome" where
  "stop_elem env gotoEnd e w =
     (let n = length (timers w); w1 = (if gotoEnd then w else unmark env True e w)
      in stop_from env gotoEnd e n w1)"

definition fx_stop :: "'q fxenv \<Rightarrow> bool \<Rightarrow> bool \<Rightarrow> nat list \<Rightarrow> 'q fxw \<Rightarrow> 'q fxw outcome" where
  "fx_stop env clear gotoEnd this w =
     and_then (each_of (stop_elem env gotoEnd) this (if clear then fold (emptyQueue env) this w else w))
       (\<lambda>w2. Returned (if gotoEnd then w2 else fold (dequeue env) this w2))"

section \<open>Shortcuts\<close>

definition fxAttrs :: "string list list" where
  "fxAttrs = [[''height'', ''marginTop'', ''marginBottom'', ''paddingTop'', ''paddingBottom''],
     [''width'', ''marginLeft'', ''marginRight'', ''paddingLeft'', ''paddingRight''], [''opacity'']]"

definition genFx :: "aval \<Rightarrow> nat \<Rightarrow> pobj" where
  "genFx t n = map (\<lambda>p. (p, Plain t)) (concat (take n fxAttrs))"

definition shortcut :: "string \<Rightarrow> pobj" where
  "shortcut name =
     (if name = ''slideDown'' then genFx Show 1 else if name = ''slideUp'' then genFx Hide 1
      else if name = ''slideToggle'' then genFx Toggle 1 else if name = ''fadeIn'' then [(''opacity'', Plain Show)]
      else if name = ''fadeOut'' then [(''opacity'', Plain Hide)] else [(''opacity'', Plain Toggle)])"

text \<open>\<open>show\<close> and \<open>hide\<close>: animated when a speed is given.\<close>

definition fn_show :: "'q fxenv \<Rightarrow> fopts option \<Rightarrow> nat list \<Rightarrow> 'q fxw \<Rightarrow> 'q fxw" where
  "fn_show env sp this w = (case sp of Some ob \<Rightarrow> animate env (genFx Show 3) ob this w | None \<Rightarrow> fx_show_now env this w)"

definition fn_hide :: "'q fxenv \<Rightarrow> fopts option \<Rightarrow> nat list \<Rightarrow> 'q fxw \<Rightarrow> 'q fxw" where
  "fn_hide env sp this w = (case sp of Some ob \<Rightarrow> animate env (genFx Hide 3) ob this w | None \<Rightarrow> fx_hide_now env this w)"

datatype toggle_arg = ToggleAll | ToggleTo bool | ToggleSpeed fopts

definition fn_toggle :: "'q fxenv \<Rightarrow> toggle_arg \<Rightarrow> nat list \<Rightarrow> 'q fxw \<Rightarrow> 'q fxw" where
  "fn_toggle env a this w =
     (case a of
        ToggleSpeed ob \<Rightarrow> animate env (genFx Toggle 3) ob this w
      | _ \<Rightarrow> fold (\<lambda>e w. let on = (case a of ToggleTo b \<Rightarrow> b | _ \<Rightarrow> hidden env e w)
                        in if on then fx_show_now env [e] w else fx_hide_now env [e] w) this w)"

definition fadeTo :: "'q fxenv \<Rightarrow> fopts \<Rightarrow> real \<Rightarrow> nat list \<Rightarrow> 'q fxw \<Rightarrow> 'q fxw" where
  "fadeTo env ob to this w =
     (let hid = filter (\<lambda>e. hidden env e w) this;
          w1 = fold (\<lambda>e. jq_style env e ''opacity'' (Some (FNum 0, []))) hid w
      in animate env [(''opacity'', Plain (Amount None to []))] ob this (fx_show_now env hid w1))"

definition is_animated :: "nat \<Rightarrow> 'q fxw \<Rightarrow> bool" where
  "is_animated e w \<longleftrightarrow> filter (\<lambda>i. felem (fxs w i) = e) (timers w) \<noteq> []"

section \<open>The path of a value\<close>

definition builtin :: "string \<Rightarrow> bool" where
  "builtin s \<longleftrightarrow> s = ''linear'' \<or> s = ''swing''"

lemma ease_ends: "builtin s \<Longrightarrow> ease env s 0 n d = 0 \<and> ease env s 1 n d = 1"
  by (auto simp: builtin_def ease_def linear_def swing_def)

lemma ease_bounds:
  assumes "builtin s"
  shows "0 \<le> p \<Longrightarrow> p \<le> 1 \<Longrightarrow> 0 \<le> ease env s p n d \<and> ease env s p n d \<le> 1"
proof -
  assume p: "0 \<le> p" "p \<le> 1"
  have "0 \<le> - cos (p * pi) / 2 + 1 / 2" "- cos (p * pi) / 2 + 1 / 2 \<le> 1"
    using cos_le_one[of "p * pi"] cos_ge_minus_one[of "p * pi"] by linarith+
  with p assms show ?thesis by (auto simp: builtin_def ease_def linear_def swing_def simp del: cos_ge_minus_one cos_le_one)
qed

lemma ease_mono:
  assumes "builtin s" and "0 \<le> p" and "p \<le> q" and "q \<le> 1"
  shows "ease env s p n d \<le> ease env s q m d"
proof -
  have "cos (q * pi) \<le> cos (p * pi)"
    using assms(2-4) by (intro cos_monotone_0_pi_le mult_right_mono) (auto intro: mult_nonneg_nonneg mult_left_le_one_le)
  with assms show ?thesis by (auto simp: builtin_def ease_def linear_def swing_def)
qed

lemma lerp_between:
  fixes x y p :: real
  assumes "0 \<le> p" and "p \<le> 1"
  shows "min x y \<le> x + (y - x) * p \<and> x + (y - x) * p \<le> max x y"
proof -
  have e: "x + (y - x) * p = (1 - p) * x + p * y" by (simp add: algebra_simps)
  have "(1 - p) * min x y + p * min x y \<le> (1 - p) * x + p * y"
    using assms by (intro add_mono mult_left_mono) auto
  moreover have "(1 - p) * x + p * y \<le> (1 - p) * max x y + p * max x y"
    using assms by (intro add_mono mult_left_mono) auto
  ultimately show ?thesis unfolding e by (simp add: algebra_simps)
qed

lemma fx_put_frame [simp]: "fxs (fx_put env f w) = fxs w" "opts (fx_put env f w) = opts w" "timers (fx_put env f w) = timers w"
  by (auto simp: fx_put_def jq_style_def set_style_def split: option.split fval.split prod.split)

text \<open>An animation between two numbers, with a duration, an easing of the library and no \<open>step\<close>.\<close>

definition numeric :: "'q fxw \<Rightarrow> nat \<Rightarrow> real \<Rightarrow> real \<Rightarrow> real \<Rightarrow> bool" where
  "numeric w i a b d \<longleftrightarrow>
     (let f = fxs w i; ob = opts w (fopt f)
      in fstart f = FNum a \<and> fend f = FNum b \<and> duration ob = Some d \<and> 0 < d \<and> ostep ob = None \<and>
         builtin (easing_of ob (fprop f)))"

text \<open>How far an animation is at a time: the value that its last step wrote is at that place.\<close>

definition shown_at :: "real \<Rightarrow> real \<Rightarrow> real \<Rightarrow> fval \<Rightarrow> bool" where
  "shown_at a b p v \<longleftrightarrow> v = FNum (a + (b - a) * p)"

lemma fx_time_frame: "fxs (snd (fx_time w)) = fxs w" "opts (snd (fx_time w)) = opts w" "timers (snd (fx_time w)) = timers w"
  by (simp_all add: fx_time_def createFxNow_def split: option.split)

lemma step_between_value:
  assumes num: "numeric w i a b d" and t: "fstartTime (fxs w i) \<le> t" "t < d + fstartTime (fxs w i)"
  shows "\<exists>p. 0 \<le> p \<and> p \<le> 1 \<and> fpos (fxs (step_between env i t w) i) = p \<and>
    fnow (fxs (step_between env i t w) i) = FNum (a + (b - a) * p)"
proof -
  let ?f = "fxs w i" and ?ob = "opts w (fopt (fxs w i))"
  let ?st = "(t - fstartTime ?f) / d"
  have n: "fstart ?f = FNum a" "fend ?f = FNum b" "duration ?ob = Some d" "0 < d" "ostep ?ob = None" "builtin (easing_of ?ob (fprop ?f))"
    using num by (simp_all add: numeric_def Let_def)
  have st: "0 \<le> ?st" "?st \<le> 1" using t n(4) by (simp_all add: field_simps)
  let ?p = "ease env (easing_of ?ob (fprop ?f)) ?st (t - fstartTime ?f) (Some d)"
  have "0 \<le> ?p \<and> ?p \<le> 1" by (rule ease_bounds[OF n(6) st])
  then show ?thesis
    using n by (simp add: step_between_def fx_update_def set_fx_def lerp_def Let_def)
qed

text \<open>
  C31: at every step of an animation between two numbers, with an easing of the library, the position is
  between 0 and 1 and the value between the two numbers; the animation goes on exactly until its
  duration is over.
\<close>

theorem animated_value_within_bounds:
  assumes num: "numeric w i a b d" and now: "fxNow w = Some t" and start: "fstartTime (fxs w i) \<le> t"
  shows "case fx_step env i False w of (go, w') \<Rightarrow>
    go = (t < d + fstartTime (fxs w i)) \<and>
    (if go then \<exists>v. fnow (fxs w' i) = FNum v \<and> min a b \<le> v \<and> v \<le> max a b \<and> 0 \<le> fpos (fxs w' i) \<and> fpos (fxs w' i) \<le> 1
     else w' = step_last env i w)"
proof (cases "t < d + fstartTime (fxs w i)")
  case True
  then obtain p where p: "0 \<le> p" "p \<le> 1" "fpos (fxs (step_between env i t w) i) = p"
    "fnow (fxs (step_between env i t w) i) = FNum (a + (b - a) * p)"
    using step_between_value[OF num start] by blast
  have "fx_step env i False w = (True, step_between env i t w)"
    using True num now by (simp add: fx_step_def fx_time_def is_over_def numeric_def Let_def)
  with True p lerp_between[OF p(1,2), of a b] show ?thesis by simp
next
  case False
  then have "fx_step env i False w = (False, step_last env i w)"
    using num now by (simp add: fx_step_def fx_time_def is_over_def numeric_def Let_def)
  with False show ?thesis by simp
qed

text \<open>The value moves towards the end: a later step is not farther from it.\<close>

lemma animated_value_approaches:
  assumes num: "numeric w i a b d" and t: "fstartTime (fxs w i) \<le> t" "t \<le> u" "u < d + fstartTime (fxs w i)"
  shows "\<exists>x y. fnow (fxs (step_between env i t w) i) = FNum x \<and> fnow (fxs (step_between env i u w) i) = FNum y \<and>
    \<bar>b - y\<bar> \<le> \<bar>b - x\<bar>"
proof -
  let ?f = "fxs w i" and ?ob = "opts w (fopt (fxs w i))"
  let ?s = "\<lambda>t. (t - fstartTime ?f) / d" and ?e = "easing_of ?ob (fprop ?f)"
  let ?p = "\<lambda>t. ease env ?e (?s t) (t - fstartTime ?f) (Some d)"
  have n: "fstart ?f = FNum a" "fend ?f = FNum b" "duration ?ob = Some d" "0 < d" "ostep ?ob = None" "builtin ?e"
    using num by (simp_all add: numeric_def Let_def)
  have v: "fnow (fxs (step_between env i t w) i) = FNum (a + (b - a) * ?p t)" for t
    using n by (simp add: step_between_def fx_update_def set_fx_def lerp_def Let_def)
  have s: "0 \<le> ?s t" "?s t \<le> ?s u" "?s u \<le> 1" using t n(4) by (simp_all add: field_simps)
  have m: "?p t \<le> ?p u" by (rule ease_mono[OF n(6) s])
  have b: "?p u \<le> 1" using ease_bounds[OF n(6), of "?s u" env "u - fstartTime ?f" "Some d"] s by linarith
  have eq: "\<bar>b - (a + (b - a) * q)\<bar> = \<bar>b - a\<bar> * (1 - q)" if "q \<le> 1" for q
  proof -
    have "b - (a + (b - a) * q) = (b - a) * (1 - q)" by (simp add: algebra_simps)
    with that show ?thesis by (simp add: abs_mult)
  qed
  have "\<bar>b - a\<bar> * (1 - ?p u) \<le> \<bar>b - a\<bar> * (1 - ?p t)" using m by (intro mult_left_mono) auto
  then have "\<bar>b - (a + (b - a) * ?p u)\<bar> \<le> \<bar>b - (a + (b - a) * ?p t)\<bar>" by (simp only: eq[OF b] eq[OF order_trans[OF m b]])
  with v show ?thesis by blast
qed

section \<open>The tick\<close>

text \<open>The reference: each timer of the list is stepped once, in order, and those that end are dropped.\<close>

fun sweep :: "'q fxenv \<Rightarrow> nat list \<Rightarrow> nat list \<Rightarrow> 'q fxw \<Rightarrow> 'q fxw" where
  "sweep env kept [] w = w"
| "sweep env kept (i # rest) w =
     (case fx_step env i False w of
        (go, w1) \<Rightarrow> if go then sweep env (kept @ [i]) rest w1 else sweep env kept rest (w1\<lparr>timers := kept @ rest\<rparr>))"

lemma splice1_app: "splice1 (length kept) (kept @ i # rest) = kept @ rest"
  by (simp add: splice1_def)

lemma tick_from_sweep:
  assumes quiet: "\<And>i w. timers (snd (fx_step env i False w)) = timers w"
  shows "timers w = kept @ rest \<Longrightarrow> tick_from env (length kept) w = Some (sweep env kept rest w)"
proof (induction rest arbitrary: kept w)
  case Nil
  then show ?case by (subst tick_from.simps) simp
next
  case (Cons i rest)
  obtain go w1 where s: "fx_step env i False w = (go, w1)" by (cases "fx_step env i False w")
  have t1: "timers w1 = kept @ i # rest" using quiet[of i w] s Cons.prems by simp
  have nth: "timers w ! length kept = i" using Cons.prems by simp
  show ?case
  proof (cases go)
    case True
    have "tick_from env (length kept) w = tick_from env (Suc (length kept)) w1"
      using Cons.prems s True nth by (subst tick_from.simps) simp
    also have "\<dots> = Some (sweep env (kept @ [i]) rest w1)"
      using Cons.IH[of w1 "kept @ [i]"] t1 by simp
    finally show ?thesis using s True by simp
  next
    case False
    have "tick_from env (length kept) w = tick_from env (length kept) (w1\<lparr>timers := kept @ rest\<rparr>)"
      using Cons.prems s False nth t1 by (subst tick_from.simps) (simp add: splice1_app)
    also have "\<dots> = Some (sweep env kept rest (w1\<lparr>timers := kept @ rest\<rparr>))" by (rule Cons.IH) simp
    finally show ?thesis using s False by simp
  qed
qed

text \<open>
  When the functions that run during steps leave the list of timers alone, a tick comes to an end:
  it steps each timer once, in the order of the list, drops those that end, and halts the interval
  when none is left.
\<close>

theorem tick_steps_every_timer:
  assumes "\<And>i w. timers (snd (fx_step env i False w)) = timers w"
  shows "tick env w = Some (let w1 = sweep env [] (timers w) w in if timers w1 = [] then fx_halt w1 else w1)"
  using tick_from_sweep[of env w "[]" "timers w"] assms by (simp add: tick_def Let_def)

text \<open>
  A \<open>complete\<close> that stops an earlier animation moves the list under the loop: the timer that ended is
  kept and the next one, still running, is dropped without a step.
\<close>

theorem tick_drops_running_timer:
  assumes ts: "timers w = [a, b, c]" and s1: "fx_step env a False w = (True, w1)" "timers w1 = [a, b, c]"
    and s2: "fx_step env b False w1 = (False, w2)" "timers w2 = [b, c]"
  shows "tick env w = Some (w2\<lparr>timers := [b]\<rparr>)"
proof -
  have "tick_from env 0 w = tick_from env 1 w1" using ts s1 by (subst tick_from.simps) simp
  also have "\<dots> = tick_from env 1 (w2\<lparr>timers := [b]\<rparr>)"
    using s1(2) s2 by (subst tick_from.simps) (simp add: splice1_def)
  also have "\<dots> = Some (w2\<lparr>timers := [b]\<rparr>)" by (subst tick_from.simps) simp
  finally show ?thesis by (simp add: tick_def)
qed

section \<open>Easings of the shared object\<close>

text \<open>
  After one element's run that was not cut short, the object of properties has no easings of its own
  left: a further element gets the common one.
\<close>

definition all_plain :: "string list \<Rightarrow> pobj \<Rightarrow> bool" where
  "all_plain names ps \<longleftrightarrow> (\<forall>p\<in>set names. \<forall>a s. map_of ps p \<noteq> Some (WithEasing a s))"

lemma resolve_plain:
  "map_of (fst (resolve_easing name (ps, ob))) p =
    (if p = name then map_option (\<lambda>v. Plain (pval_val v)) (map_of ps name) else map_of ps p)"
  by (auto simp: resolve_easing_def update_conv' pval_val_def Let_def split: option.split pval.split)

lemma normalize_same: "camelCase p = p \<Longrightarrow> normalize_name p ps = ps"
  by (simp add: normalize_name_def Let_def)

lemma first_loop_plain:
  assumes "\<forall>p\<in>set ks. camelCase p = p" and "all_plain done ps"
    and "first_loop env e hid ks (ps, ob, w) = Inr (ps1, ob1, w1)"
  shows "all_plain (done @ ks) ps1"
  using assms
proof (induction ks arbitrary: ps ob w "done")
  case (Cons p ks)
  obtain ps2 ob2 where r: "resolve_easing p (ps, ob) = (ps2, ob2)" by (cases "resolve_easing p (ps, ob)")
  have cp: "camelCase p = p" using Cons.prems(1) by simp
  have ps2: "ps2 = fst (resolve_easing p (ps, ob))" by (simp add: r)
  have pl: "all_plain (done @ [p]) ps2"
    using Cons.prems(2) unfolding ps2 all_plain_def by (auto simp: resolve_plain)
  obtain ob3 w3 where pr: "(if isElement env e \<and> (p = ''height'' \<or> p = ''width'') then prepare_size env e ob2 w else (ob2, w)) = (ob3, w3)"
    by (meson surj_pair)
  have "first_loop env e hid ks (ps2, ob3, w3) = Inr (ps1, ob1, w1)"
    using Cons.prems(3) unfolding first_loop.simps cp normalize_same[OF cp] Let_def r prod.case pr by (simp split: if_splits)
  from Cons.IH[OF _ pl this] Cons.prems(1) show ?case by simp
qed simp

lemma fx_update_timers:
  assumes "\<And>s e v i w. timers (userStep env s e v i w) = timers w"
  shows "timers (fx_update env i w) = timers w"
  using assms by (simp add: fx_update_def Let_def split: option.split)

lemma jq_style_timers [simp]: "timers (jq_style env e p v w) = timers w"
  by (auto simp: jq_style_def set_style_def split: option.split fval.split prod.split)

lemma set_style_timers [simp]: "timers (set_style e p v w) = timers w"
  by (simp add: set_style_def)

lemma fold_timers: "(\<And>x w. timers (f x w) = timers w) \<Longrightarrow> timers (fold f xs w) = timers w"
  by (induction xs arbitrary: w) simp_all

lemma hide_now_timers: "timers (fx_hide_now env this w) = timers w"
  unfolding fx_hide_now_def
  by (subst fold_timers, simp, subst fold_timers) (auto simp: hide_learn_def split: fval.split)

text \<open>Steps leave the list of timers alone when the functions of the page and the queues do.\<close>

lemma fx_step_timers:
  assumes us: "\<And>s e v i w. timers (userStep env s e v i w) = timers w"
    and ud: "\<And>f e w. timers (userDone env f e w) = timers w"
    and dq: "\<And>e w. timers (dequeue env e w) = timers w"
    and um: "\<And>b e w. timers (unmark env b e w) = timers w"
  shows "timers (snd (fx_step env i g w)) = timers w"
proof -
  have upd: "timers (fx_update env i w) = timers w" for i w by (rule fx_update_timers[OF us])
  have com: "timers (complete env ob b e w) = timers w" for ob b e w
    using ud dq um by (simp add: complete_def Let_def split: option.split)
  have ov: "timers (restore_overflow env e ob w) = timers w" for e ob w
    by (simp add: restore_overflow_def split: option.split prod.split)
  have rp: "timers (restore_props env e ob w) = timers w" for e ob w
    by (simp add: restore_props_def fold_timers)
  have fin: "timers (finish_all env e ob w) = timers w" for e ob w
    using com ov rp hide_now_timers[of env "[e]"] by (simp add: finish_all_def Let_def)
  have last: "timers (step_last env i w) = timers w" for w
    using fin upd by (simp add: step_last_def set_fx_def set_opt_def Let_def)
  have btw: "timers (step_between env i t w) = timers w" for t w
    using upd by (simp add: step_between_def set_fx_def Let_def split: option.split)
  show ?thesis
    using last btw fx_time_frame(3)[of w] by (simp add: fx_step_def case_prod_beta)
qed

section \<open>Witnesses\<close>

definition calm_env :: "unit fxenv" where
  "calm_env = \<lparr>css = (\<lambda>e p w. (FTxt [], [])), easings = (\<lambda>s p n a b d. p), userStep = (\<lambda>s e v i w. w), userDone = (\<lambda>f e w. w),
     dequeue = (\<lambda>e w. w), enqueue = (\<lambda>e f w. f w), mark = (\<lambda>e w. w), unmark = (\<lambda>b e w. w), emptyQueue = (\<lambda>e w. w),
     isElement = (\<lambda>e. True), hasStyle = (\<lambda>e. False), hidden = (\<lambda>e w. False), cssNumber = (\<lambda>p. False),
     defaultDisplay = (\<lambda>e. ''block''), inlineBlockNeedsLayout = False, shrinkWrapBlocks = False, fxOff = False\<rparr>"

text \<open>An environment whose \<open>complete\<close> stops the animations of element 0.\<close>

definition stopping_env :: "unit fxenv" where
  "stopping_env = calm_env\<lparr>userDone := (\<lambda>f e w. case stop_elem calm_env False 0 w of Returned w1 \<Rightarrow> w1 | Threw w1 \<Rightarrow> w1)\<rparr>"

definition some_opts :: fopts where
  "some_opts = \<lparr>duration = Some 100, easing = [], specialEasing = (\<lambda>p. []), queued = True, old = Some 1, ostep = None,
     animatedProperties = [(''left'', Easing ''linear'')], orig = [], oshow = False, ohide = False, overflow = None\<rparr>"

definition some_fx :: "nat \<Rightarrow> real \<Rightarrow> fx" where
  "some_fx e t = \<lparr>felem = e, fprop = ''left'', fopt = e, fstart = FNum 0, fend = FNum 10, fnow = FNum 0, fpos = 0,
     fstate = 0, funit = ''px'', fstartTime = t\<rparr>"

text \<open>Three animations; the second began first.\<close>

definition some_fxw :: "unit fxw" where
  "some_fxw = \<lparr>fxs = (\<lambda>i. some_fx i (if i = 1 then 0 else 60)), fxNext = 3, opts = (\<lambda>i. some_opts), optNext = 3,
     pobjs = (\<lambda>k. []), pobjNext = 0, timers = [0, 1, 2], timerId = True, clock = 110, fxNow = Some 110,
     styles = (\<lambda>e p. None), eprops = (\<lambda>e p. None), olddisplay = (\<lambda>e. []), others = ()\<rparr>"

theorem animated_value_within_bounds_witness:
  "case fx_step calm_env 0 False some_fxw of (go, w') \<Rightarrow> go \<and> (\<exists>v. fnow (fxs w' 0) = FNum v \<and> 0 \<le> v \<and> v \<le> 10)"
proof -
  have "numeric some_fxw 0 0 10 100"
    by (simp add: numeric_def some_fxw_def some_fx_def some_opts_def builtin_def easing_of_def)
  moreover have "fxNow some_fxw = Some 110" by (simp add: some_fxw_def)
  moreover have "fstartTime (fxs some_fxw 0) = 60" by (simp add: some_fxw_def some_fx_def)
  ultimately show ?thesis using animated_value_within_bounds[of some_fxw 0 0 10 100 110 calm_env] by (auto split: prod.splits)
qed

theorem tick_steps_every_timer_witness:
  "tick calm_env some_fxw = Some (let w1 = sweep calm_env [] (timers some_fxw) some_fxw in if timers w1 = [] then fx_halt w1 else w1)"
proof (rule tick_steps_every_timer)
  fix i :: nat and w :: "unit fxw"
  show "timers (snd (fx_step calm_env i False w)) = timers w"
    by (rule fx_step_timers) (simp_all add: calm_env_def)
qed

theorem tick_drops_running_timer_witness:
  "\<exists>w2. tick stopping_env some_fxw = Some (w2\<lparr>timers := [1]\<rparr>) \<and> timers some_fxw = [0, 1, 2]"
proof -
  have t: "timers some_fxw = [0, 1, 2]" by (simp add: some_fxw_def)
  have n: "fxNow some_fxw = Some 110" by (simp add: some_fxw_def)
  define w1 where "w1 = snd (fx_step stopping_env 0 False some_fxw)"
  have s1: "fx_step stopping_env 0 False some_fxw = (True, w1)" and w1: "timers w1 = [0, 1, 2]" "fxNow w1 = Some 110"
    "fxs w1 1 = some_fx 1 0" "opts w1 1 = some_opts" "\<And>i. felem (fxs w1 i) = i"
    by (simp_all add: w1_def fx_step_def fx_time_def some_fxw_def some_fx_def some_opts_def is_over_def step_between_def
        fx_update_def set_fx_def Let_def fx_put_def stopping_env_def calm_env_def)
  define w2 where "w2 = snd (fx_step stopping_env 1 False w1)"
  have s2: "fx_step stopping_env 1 False w1 = (False, w2)" and w2: "timers w2 = [1, 2]"
    using w1 by (simp_all add: w2_def fx_step_def fx_time_def some_fx_def some_opts_def is_over_def step_last_def
        fx_update_def set_fx_def set_opt_def Let_def fx_put_def finish_all_def restore_overflow_def restore_props_def
        complete_def stopping_env_def calm_env_def stop_elem_def splice1_def numeral_3_eq_3)
  show ?thesis using tick_drops_running_timer[OF t s1 w1(1) s2 w2] t by blast
qed

end
