(* ===== verification/JQ_Class.thy ===== *)
theory JQ_Class
  imports JQ_Util
begin

text \<open>
  The class names of elements in jquery-1.6.4.js: \<open>addClass\<close>, \<open>removeClass\<close>, \<open>toggleClass\<close> and
  \<open>hasClass\<close>, string by string as the code works on \<open>className\<close>, and what they do to the list of
  names that the string stands for.
\<close>

section \<open>Strings\<close>

abbreviation sp :: char where
  "sp \<equiv> CHR '' ''"

text \<open>\<open>indexOf\<close> and \<open>replace\<close> with a string: the first occurrence.\<close>

fun starts_with :: "string \<Rightarrow> string \<Rightarrow> bool" where
  "starts_with [] s = True"
| "starts_with (p # ps) [] = False"
| "starts_with (p # ps) (c # cs) = (p = c \<and> starts_with ps cs)"

fun index_of :: "string \<Rightarrow> string \<Rightarrow> nat option" where
  "index_of p [] = (if p = [] then Some 0 else None)"
| "index_of p (c # cs) = (if starts_with p (c # cs) then Some 0 else map_option Suc (index_of p cs))"

fun replace_first :: "string \<Rightarrow> string \<Rightarrow> string \<Rightarrow> string" where
  "replace_first p r [] = (if p = [] then r else [])"
| "replace_first p r (c # cs) = (if starts_with p (c # cs) then r @ drop (length p) (c # cs) else c # replace_first p r cs)"

text \<open>\<open>replace(/[\n\t\r]/g, " ")\<close>\<close>

definition rclass :: "string \<Rightarrow> string" where
  "rclass s = map (\<lambda>c. if c \<in> set [CHR 0x0A, CHR 0x09, CHR 0x0D] then sp else c) s"

text \<open>\<open>split(/\s+/)\<close>: the pieces between runs of spaces, with the empty ones at the ends.\<close>

fun split_go :: "bool \<Rightarrow> string \<Rightarrow> string \<Rightarrow> string list" where
  "split_go inrun acc [] = [rev acc]"
| "split_go inrun acc (c # cs) =
     (if is_space c then (if inrun then split_go True acc cs else rev acc # split_go True [] cs)
      else split_go False (c # acc) cs)"

definition split_space :: "string \<Rightarrow> string list" where
  "split_space s = split_go False [] s"

section \<open>Operations on a class string\<close>

fun add_names :: "string list \<Rightarrow> string \<Rightarrow> string" where
  "add_names [] s = s"
| "add_names (c # cs) s =
     add_names cs (if index_of ([sp] @ c @ [sp]) s = None then s @ c @ [sp] else s)"

definition add_class :: "string \<Rightarrow> string \<Rightarrow> string" where
  "add_class value cn =
     (let names = split_space value
      in if cn = [] \<and> length names = 1 then value
         else jq_trim (Some (add_names names ([sp] @ cn @ [sp]))))"

fun remove_names :: "string list \<Rightarrow> string \<Rightarrow> string" where
  "remove_names [] s = s"
| "remove_names (c # cs) s = remove_names cs (replace_first ([sp] @ c @ [sp]) [sp] s)"

text \<open>An undefined argument removes all names; so does an empty string's branch.\<close>

definition remove_class :: "string option \<Rightarrow> string \<Rightarrow> string" where
  "remove_class value cn =
     (if cn = [] then cn
      else case value of
        None \<Rightarrow> []
      | Some v \<Rightarrow> jq_trim (Some (remove_names (split_space v) (rclass ([sp] @ cn @ [sp])))))"

definition has_class :: "string \<Rightarrow> string \<Rightarrow> bool" where
  "has_class sel cn \<longleftrightarrow> index_of ([sp] @ sel @ [sp]) (rclass ([sp] @ cn @ [sp])) \<noteq> None"

section \<open>The methods\<close>

record celem =
  cType :: nat \<comment> \<open>\<open>nodeType\<close>\<close>
  className :: string
  saved :: "string option" \<comment> \<open>the private datum \<open>__className__\<close>\<close>

text \<open>The argument of the methods: a string, a function of the index and the class string, or neither.\<close>

datatype carg = CStr string | CFun "nat \<Rightarrow> string \<Rightarrow> carg" | CUndefined | COther bool

definition on_elem :: "(string \<Rightarrow> string) \<Rightarrow> celem \<Rightarrow> celem" where
  "on_elem f e = (if cType e = 1 then e\<lparr>className := f (className e)\<rparr> else e)"

text \<open>A function may return a function again: the methods call themselves on its result.\<close>

primrec addClass1 :: "carg \<Rightarrow> celem \<Rightarrow> celem" where
  "addClass1 (CStr v) e = (if v = [] then e else on_elem (add_class v) e)"
| "addClass1 (CFun f) e = addClass1 (f 0 (className e)) e"
| "addClass1 CUndefined e = e"
| "addClass1 (COther b) e = e"

definition at_elem :: "nat \<Rightarrow> carg \<Rightarrow> celem \<Rightarrow> carg" where
  "at_elem j v e = (case v of CFun f \<Rightarrow> f j (className e) | _ \<Rightarrow> v)"

definition addClass :: "carg \<Rightarrow> celem list \<Rightarrow> celem list" where
  "addClass v this = map (\<lambda>(j, e). addClass1 (at_elem j v e) e) (zip [0..<length this] this)"

primrec removeClass1 :: "carg \<Rightarrow> celem \<Rightarrow> celem" where
  "removeClass1 (CStr v) e = (if v = [] then e else on_elem (remove_class (Some v)) e)"
| "removeClass1 (CFun f) e = removeClass1 (f 0 (className e)) e"
| "removeClass1 CUndefined e = on_elem (remove_class None) e"
| "removeClass1 (COther b) e = e"

definition removeClass :: "carg \<Rightarrow> celem list \<Rightarrow> celem list" where
  "removeClass v this = map (\<lambda>(j, e). removeClass1 (at_elem j v e) e) (zip [0..<length this] this)"

definition hasClass :: "string \<Rightarrow> celem list \<Rightarrow> bool" where
  "hasClass sel this \<longleftrightarrow> list_ex (\<lambda>e. cType e = 1 \<and> has_class sel (className e)) this"

text \<open>
  The loop of \<open>toggleClass\<close> over the names; it stops at an empty one. With a boolean second argument
  every name gets that state, otherwise each is turned over.
\<close>

fun toggle_names :: "bool option \<Rightarrow> string list \<Rightarrow> celem \<Rightarrow> celem" where
  "toggle_names st [] e = e"
| "toggle_names st (c # cs) e =
     (if c = [] then e
      else (let on = (case st of Some b \<Rightarrow> b | None \<Rightarrow> \<not> hasClass c [e])
            in toggle_names st cs (if on then addClass1 (CStr c) e else removeClass1 (CStr c) e)))"

definition toggle_whole :: "bool \<Rightarrow> celem \<Rightarrow> celem" where
  "toggle_whole off e =
     (let e1 = (if className e \<noteq> [] then e\<lparr>saved := Some (className e)\<rparr> else e)
      in e1\<lparr>className := (if className e \<noteq> [] \<or> off then [] else (case saved e1 of Some s \<Rightarrow> s | None \<Rightarrow> []))\<rparr>)"

primrec toggleClass1 :: "carg \<Rightarrow> bool option \<Rightarrow> celem \<Rightarrow> celem" where
  "toggleClass1 (CStr v) st e = toggle_names st (split_space v) e"
| "toggleClass1 (CFun f) st e = toggleClass1 (f 0 (className e)) st e"
| "toggleClass1 CUndefined st e = toggle_whole False e"
| "toggleClass1 (COther b) st e = toggle_whole (\<not> b) e"

definition toggleClass :: "carg \<Rightarrow> bool option \<Rightarrow> celem list \<Rightarrow> celem list" where
  "toggleClass v st this = map (\<lambda>(j, e). toggleClass1 (at_elem j v e) st e) (zip [0..<length this] this)"

section \<open>The names in a class string\<close>

fun split1 :: "string \<Rightarrow> string list" where
  "split1 [] = [[]]"
| "split1 (c # cs) = (if c = sp then [] # split1 cs else (case split1 cs of w # ws \<Rightarrow> (c # w) # ws | [] \<Rightarrow> [[c]]))"

definition class_words :: "string \<Rightarrow> string list" where
  "class_words s = filter (\<lambda>w. w \<noteq> []) (split1 s)"

definition padded :: "string list \<Rightarrow> string" where
  "padded ws = sp # concat (map (\<lambda>w. w @ [sp]) ws)"

definition clean :: "string \<Rightarrow> bool" where
  "clean w \<longleftrightarrow> list_all (\<lambda>c. \<not> is_space c) w"

text \<open>The space is the only white space of the string.\<close>

definition spaced :: "string \<Rightarrow> bool" where
  "spaced s \<longleftrightarrow> (\<forall>c\<in>set s. is_space c \<longrightarrow> c = sp)"

lemma is_space_sp [simp]: "is_space sp"
  by (simp add: is_space_def)

lemma clean_no_sp: "clean w \<Longrightarrow> sp \<notin> set w"
  by (auto simp: clean_def list_all_iff)

lemma split1_not_Nil [simp]: "split1 s \<noteq> []"
  by (cases s) (auto split: list.split)

lemma split1_no_sp: "w \<in> set (split1 s) \<Longrightarrow> sp \<notin> set w"
  by (induction s arbitrary: w) (auto split: if_splits list.splits)

lemma padded_split1: "[sp] @ s @ [sp] = padded (split1 s)"
proof -
  have "s @ [sp] = concat (map (\<lambda>w. w @ [sp]) (split1 s))"
  proof (induction s)
    case (Cons c cs)
    then show ?case by (cases "split1 cs") auto
  qed simp
  then show ?thesis by (simp add: padded_def)
qed

lemma padded_Cons: "padded (w # ws) = sp # w @ padded ws"
  by (simp add: padded_def)

lemma padded_snoc: "padded ws @ c @ [sp] = padded (ws @ [c])"
  by (simp add: padded_def)

lemma split1_append: "sp \<notin> set w \<Longrightarrow> split1 (w @ sp # s) = w # split1 s"
  by (induction w) auto

lemma split1_concat: "\<forall>w\<in>set ws. sp \<notin> set w \<Longrightarrow> split1 (concat (map (\<lambda>w. w @ [sp]) ws)) = ws @ [[]]"
  by (induction ws) (simp_all add: split1_append)

lemma words_padded: "\<forall>w\<in>set ws. sp \<notin> set w \<Longrightarrow> class_words (padded ws) = filter (\<lambda>w. w \<noteq> []) ws"
  by (simp add: class_words_def padded_def split1_concat)

lemma starts_with_word:
  "sp \<notin> set c \<Longrightarrow> sp \<notin> set w \<Longrightarrow> starts_with (c @ [sp]) (w @ sp # r) \<longleftrightarrow> c = w"
proof (induction c arbitrary: w)
  case Nil
  then show ?case by (cases w) auto
next
  case (Cons x c)
  then show ?case by (cases w) auto
qed

lemma index_of_skip: "sp \<notin> set w \<Longrightarrow> (index_of (sp # p) (w @ r) = None) = (index_of (sp # p) r = None)"
  by (induction w) auto

lemma replace_skip: "sp \<notin> set w \<Longrightarrow> replace_first (sp # p) q (w @ r) = w @ replace_first (sp # p) q r"
  by (induction w) auto

lemma padded_head: "\<exists>r. padded ws = sp # r"
  by (simp add: padded_def)

lemma padded_starts:
  assumes "sp \<notin> set c" "sp \<notin> set w"
  shows "starts_with (sp # c @ [sp]) (sp # w @ padded ws) = (c = w)"
proof -
  obtain r where r: "padded ws = sp # r" using padded_head by blast
  show ?thesis using starts_with_word[OF assms, of r] by (simp add: r)
qed

lemma index_of_padded:
  assumes "sp \<notin> set c" and "\<forall>w\<in>set ws. sp \<notin> set w"
  shows "(index_of (sp # c @ [sp]) (padded ws) = None) = (c \<notin> set ws)"
  using assms(2)
proof (induction ws)
  case Nil
  then show ?case by (cases c) (simp_all add: padded_def)
next
  case (Cons w ws)
  then have "sp \<notin> set w" by simp
  then show ?case
    using Cons padded_starts[OF assms(1), of w ws] index_of_skip[of w "c @ [sp]" "padded ws"]
    by (auto simp: padded_Cons)
qed

lemma replace_padded:
  assumes "sp \<notin> set c" and "\<forall>w\<in>set ws. sp \<notin> set w"
  shows "replace_first (sp # c @ [sp]) [sp] (padded ws) = padded (remove1 c ws)"
  using assms(2)
proof (induction ws)
  case Nil
  then show ?case by (cases c) (simp_all add: padded_def)
next
  case (Cons w ws)
  then have w: "sp \<notin> set w" by simp
  obtain r where r: "padded ws = sp # r" using padded_head by blast
  show ?case
  proof (cases "c = w")
    case True
    then have "starts_with (sp # c @ [sp]) (sp # w @ padded ws)" using padded_starts[OF assms(1) w] by simp
    then show ?thesis using True by (simp add: padded_Cons r)
  next
    case False
    then have "\<not> starts_with (sp # c @ [sp]) (sp # w @ padded ws)" using padded_starts[OF assms(1) w] by simp
    then show ?thesis using False Cons replace_skip[OF w] by (simp add: padded_Cons)
  qed
qed

fun add_all :: "string list \<Rightarrow> string list \<Rightarrow> string list" where
  "add_all [] ws = ws"
| "add_all (c # cs) ws = add_all cs (if c \<in> set ws then ws else ws @ [c])"

lemma add_all_set: "set (add_all cs ws) = set cs \<union> set ws"
  by (induction cs arbitrary: ws) auto

lemma add_all_distinct: "distinct ws \<Longrightarrow> distinct (add_all cs ws)"
  by (induction cs arbitrary: ws) auto

lemma add_names_padded:
  "\<forall>c\<in>set cs. sp \<notin> set c \<Longrightarrow> \<forall>w\<in>set ws. sp \<notin> set w \<Longrightarrow> add_names cs (padded ws) = padded (add_all cs ws)"
proof (induction cs arbitrary: ws)
  case (Cons c cs)
  have "add_names (c # cs) (padded ws) = add_names cs (if c \<notin> set ws then padded (ws @ [c]) else padded ws)"
    using index_of_padded[of c ws] Cons.prems by (simp add: padded_snoc)
  then show ?case using Cons by simp
qed simp

lemma remove_names_padded:
  "\<forall>c\<in>set cs. sp \<notin> set c \<Longrightarrow> \<forall>w\<in>set ws. sp \<notin> set w \<Longrightarrow> remove_names cs (padded ws) = padded (fold remove1 cs ws)"
proof (induction cs arbitrary: ws)
  case (Cons c cs)
  have "\<forall>w\<in>set (remove1 c ws). sp \<notin> set w" using Cons.prems(2) set_remove1_subset by fastforce
  with Cons show ?case by (simp add: replace_padded)
qed simp

lemma add_all_words:
  "filter (\<lambda>w. w \<noteq> []) (add_all cs ws) = add_all (filter (\<lambda>w. w \<noteq> []) cs) (filter (\<lambda>w. w \<noteq> []) ws)"
  by (induction cs arbitrary: ws) auto

lemma remove_all_words:
  "filter (\<lambda>w. w \<noteq> []) (fold remove1 cs ws) = fold remove1 (filter (\<lambda>w. w \<noteq> []) cs) (filter (\<lambda>w. w \<noteq> []) ws)"
proof (induction cs arbitrary: ws)
  case (Cons c cs)
  have "filter (\<lambda>w. w \<noteq> []) (remove1 c ws) =
      (if c = [] then filter (\<lambda>w. w \<noteq> []) ws else remove1 c (filter (\<lambda>w. w \<noteq> []) ws))"
    by (induction ws) auto
  with Cons show ?case by simp
qed simp

lemma words_sp: "class_words (sp # s) = class_words s" "class_words (s @ [sp]) = class_words s"
proof -
  show "class_words (sp # s) = class_words s" by (simp add: class_words_def)
  have "split1 (s @ [sp]) = split1 s @ [[]]"
    by (induction s) (auto split: list.split)
  then show "class_words (s @ [sp]) = class_words s" by (simp add: class_words_def)
qed

lemma words_sps: "\<forall>c\<in>set l. c = sp \<Longrightarrow> class_words (l @ s) = class_words s"
  "\<forall>c\<in>set l. c = sp \<Longrightarrow> class_words (s @ l) = class_words s"
proof -
  show "\<forall>c\<in>set l. c = sp \<Longrightarrow> class_words (l @ s) = class_words s"
    by (induction l) (simp_all add: words_sp)
  show "\<forall>c\<in>set l. c = sp \<Longrightarrow> class_words (s @ l) = class_words s"
  proof (induction l rule: rev_induct)
    case (snoc c l)
    then show ?case using words_sp(2)[of "s @ l"] by simp
  qed simp
qed

lemma words_trim: "spaced s \<Longrightarrow> class_words (jq_trim (Some s)) = class_words s"
proof -
  assume s: "spaced s"
  obtain l r where lr: "s = l @ jq_trim (Some s) @ r" "list_all is_space l" "list_all is_space r"
    using trim_parts by blast
  then have "set l \<subseteq> set s" "set r \<subseteq> set s" by (metis Un_iff set_append subsetI)+
  with s lr(2,3) have "\<forall>c\<in>set l. c = sp" "\<forall>c\<in>set r. c = sp" by (auto simp: spaced_def list_all_iff)
  then have "class_words (l @ jq_trim (Some s) @ r) = class_words (jq_trim (Some s))"
    using words_sps by metis
  with lr(1) show ?thesis by simp
qed

lemma split_space_clean: "w \<in> set (split_space s) \<Longrightarrow> clean w"
proof -
  have "clean acc \<Longrightarrow> w \<in> set (split_go b acc s) \<Longrightarrow> clean w" for b acc
    by (induction b acc s rule: split_go.induct) (auto simp: clean_def split: if_splits)
  from this[of "[]" False] show "w \<in> set (split_space s) \<Longrightarrow> clean w"
    by (simp add: split_space_def clean_def)
qed

lemma spaced_padded: "\<forall>w\<in>set ws. spaced w \<Longrightarrow> spaced (padded ws)"
  by (auto simp: spaced_def padded_def)

lemma split1_sub: "w \<in> set (split1 s) \<Longrightarrow> set w \<subseteq> set s"
proof (induction s arbitrary: w)
  case (Cons c cs)
  obtain u us where u: "split1 cs = u # us" by (cases "split1 cs") auto
  show ?case using Cons.prems Cons.IH[of u] Cons.IH[of w] u by (cases "c = sp"; cases "w \<in> set us") auto
qed simp

lemma split1_spaced: "spaced s \<Longrightarrow> w \<in> set (split1 s) \<Longrightarrow> spaced w"
  using split1_sub[of w s] unfolding spaced_def by blast

lemma clean_spaced: "clean w \<Longrightarrow> spaced w"
  by (auto simp: clean_def spaced_def list_all_iff)

lemma split_go_Nil: "split_go b acc s \<noteq> []"
  by (induction b acc s rule: split_go.induct) auto

lemma split_go_single: "length (split_go b acc s) = 1 \<Longrightarrow> \<not> b \<Longrightarrow> list_all (\<lambda>c. \<not> is_space c) s"
proof (induction s arbitrary: b acc)
  case (Cons c cs)
  have ns: "\<not> is_space c"
    using Cons.prems split_go_Nil[of True "[]" cs] by auto
  then show ?case using Cons.IH[of False "c # acc"] Cons.prems by simp
qed simp

lemma split_go_clean: "list_all (\<lambda>c. \<not> is_space c) s \<Longrightarrow> split_go b acc s = [rev acc @ s]"
  by (induction s arbitrary: b acc) auto

text \<open>The names a string argument gives.\<close>

definition names :: "string \<Rightarrow> string list" where
  "names v = filter (\<lambda>w. w \<noteq> []) (split_space v)"

lemma names_no_sp: "\<forall>c\<in>set (split_space v). sp \<notin> set c"
  using split_space_clean clean_no_sp by blast

lemma add_class_words:
  assumes "spaced cn"
  shows "class_words (add_class v cn) = add_all (names v) (class_words cn)"
proof (cases "cn = [] \<and> length (split_space v) = 1")
  case True
  then have v: "list_all (\<lambda>c. \<not> is_space c) v" using split_go_single[of False "[]" v] by (simp add: split_space_def)
  then have "split_space v = [v]" by (simp add: split_space_def split_go_clean)
  moreover have "class_words v = (if v = [] then [] else [v])"
  proof -
    have "sp \<notin> set v" using v clean_no_sp by (simp add: clean_def)
    then have "split1 (v @ sp # []) = v # split1 []" by (rule split1_append)
    then have "class_words (v @ [sp]) = (if v = [] then [] else [v])" by (simp add: class_words_def)
    then show ?thesis by (simp add: words_sp)
  qed
  ultimately show ?thesis using True by (simp add: add_class_def names_def class_words_def)
next
  case False
  let ?ws = "add_all (split_space v) (split1 cn)"
  have eq: "add_names (split_space v) ([sp] @ cn @ [sp]) = padded ?ws"
    unfolding padded_split1 using names_no_sp split1_no_sp by (intro add_names_padded) blast+
  have "\<forall>w\<in>set ?ws. spaced w"
    using split1_spaced[OF assms] split_space_clean clean_spaced unfolding add_all_set by blast
  moreover have ns: "\<forall>w\<in>set ?ws. sp \<notin> set w"
    using names_no_sp[of v] split1_no_sp[of _ cn] unfolding add_all_set by blast
  ultimately have "class_words (jq_trim (Some (padded ?ws))) = filter (\<lambda>w. w \<noteq> []) ?ws"
    by (simp add: words_trim spaced_padded words_padded)
  with False eq show ?thesis
    by (auto simp: add_class_def Let_def names_def class_words_def add_all_words)
qed

lemma rclass_spaced: "spaced s \<Longrightarrow> rclass s = s"
proof -
  assume "spaced s"
  moreover have "is_space CHR 0x0A" "is_space CHR 0x09" "is_space CHR 0x0D" by (simp_all add: is_space_def)
  ultimately show ?thesis unfolding rclass_def by (intro map_idI) (auto simp: spaced_def)
qed

lemma rclass_padded: "rclass ([sp] @ s @ [sp]) = [sp] @ rclass s @ [sp]"
  by (simp add: rclass_def)

lemma remove_class_words:
  assumes "spaced (rclass cn)"
  shows "class_words (remove_class (Some v) cn) = fold remove1 (names v) (class_words (rclass cn))"
proof (cases "cn = []")
  case True
  have "fold remove1 cs [] = ([] :: string list)" for cs by (induction cs) simp_all
  with True show ?thesis by (simp add: remove_class_def rclass_def class_words_def)
next
  case False
  let ?ws = "fold remove1 (split_space v) (split1 (rclass cn))"
  have eq: "remove_names (split_space v) (rclass ([sp] @ cn @ [sp])) = padded ?ws"
    unfolding rclass_padded padded_split1[of "rclass cn"]
    using names_no_sp split1_no_sp by (intro remove_names_padded) blast+
  have sub: "set (fold remove1 cs ws) \<subseteq> set ws" for cs and ws :: "string list"
  proof (induction cs arbitrary: ws)
    case (Cons c cs)
    show ?case using Cons[of "remove1 c ws"] set_remove1_subset[of c ws] by auto
  qed simp
  have "\<forall>w\<in>set ?ws. spaced w" using sub split1_spaced[OF assms] by blast
  moreover have "\<forall>w\<in>set ?ws. sp \<notin> set w" using sub split1_no_sp by blast
  ultimately have "class_words (jq_trim (Some (padded ?ws))) = filter (\<lambda>w. w \<noteq> []) ?ws"
    by (simp add: words_trim spaced_padded words_padded)
  with False eq show ?thesis
    by (simp add: remove_class_def names_def class_words_def remove_all_words)
qed

lemma has_class_words:
  assumes "clean c" and "c \<noteq> []"
  shows "has_class c cn = (c \<in> set (class_words (rclass cn)))"
proof -
  have "has_class c cn = (c \<in> set (split1 (rclass cn)))"
    unfolding has_class_def rclass_padded padded_split1[of "rclass cn"]
    using index_of_padded[OF clean_no_sp[OF assms(1)], of "split1 (rclass cn)"] split1_no_sp[of _ "rclass cn"] by auto
  with assms(2) show ?thesis by (simp add: class_words_def)
qed

section \<open>The methods on elements\<close>

text \<open>
  \<open>addClass\<close> on an element whose class string has no white space but the space leaves the names
  it had, in order, followed by those of the argument that it did not have, each once; and
  \<open>hasClass\<close> tells which names there are.
\<close>

theorem addClass_adds_names:
  assumes el: "cType e = 1" and cn: "spaced (className e)" and v: "v \<noteq> []"
  shows "\<exists>e'. addClass (CStr v) [e] = [e'] \<and>
    class_words (className e') = add_all (names v) (class_words (className e)) \<and>
    (clean c \<longrightarrow> c \<noteq> [] \<longrightarrow> hasClass c [e'] = (c \<in> set (names v) \<or> hasClass c [e]))"
proof -
  let ?cn = "add_class v (className e)"
  have w: "class_words ?cn = add_all (names v) (class_words (className e))" by (rule add_class_words[OF cn])
  have "has_class c ?cn = (c \<in> set (names v) \<or> has_class c (className e))" if "clean c" "c \<noteq> []"
  proof -
    have sub: "spaced ?cn"
    proof (cases "className e = [] \<and> length (split_space v) = 1")
      case True
      then have "list_all (\<lambda>c. \<not> is_space c) v" using split_go_single[of False "[]" v] by (simp add: split_space_def)
      with True show ?thesis by (simp add: add_class_def clean_spaced clean_def)
    next
      case False
      let ?ws = "add_all (split_space v) (split1 (className e))"
      have eq: "add_names (split_space v) ([sp] @ className e @ [sp]) = padded ?ws"
        unfolding padded_split1 using names_no_sp split1_no_sp by (intro add_names_padded) blast+
      have "\<forall>w\<in>set ?ws. spaced w"
        using split1_spaced[OF cn] split_space_clean clean_spaced unfolding add_all_set by blast
      then have s: "spaced (padded ?ws)" by (rule spaced_padded)
      obtain l r where "padded ?ws = l @ jq_trim (Some (padded ?ws)) @ r" using trim_parts by blast
      then have "set (jq_trim (Some (padded ?ws))) \<subseteq> set (padded ?ws)" by (metis Un_iff set_append subsetI)
      with s have "spaced (jq_trim (Some (padded ?ws)))" unfolding spaced_def by blast
      with False eq show ?thesis by (auto simp: add_class_def Let_def)
    qed
    then show ?thesis
      using that w cn by (simp add: has_class_words rclass_spaced add_all_set)
  qed
  with w el v show ?thesis
    by (auto simp: addClass_def at_elem_def on_elem_def hasClass_def)
qed

text \<open>
  \<open>removeClass\<close> takes away, for each name of its argument, the first occurrence of that name in
  the class string and leaves the other names in order.
\<close>

theorem removeClass_removes_first:
  assumes el: "cType e = 1" and cn: "spaced (className e)" and v: "v \<noteq> []"
  shows "\<exists>e'. removeClass (CStr v) [e] = [e'] \<and>
    class_words (className e') = fold remove1 (names v) (class_words (className e))"
  using assms remove_class_words[of "className e" v] rclass_spaced[OF cn]
  by (simp add: removeClass_def at_elem_def on_elem_def)

text \<open>
  A name that the class string lists twice is still there after \<open>removeClass\<close>: the replacement
  is made once.
\<close>

theorem removeClass_leaves_a_repeated_name:
  assumes el: "cType e = 1" and c: "clean c" "c \<noteq> []" and cn: "className e = c @ [sp] @ c"
  shows "hasClass c (removeClass (CStr c) [e])"
proof -
  have sp: "spaced (className e)" using clean_spaced[OF c(1)] cn by (auto simp: spaced_def)
  have "split1 (c @ sp # c @ [sp]) = [c, c, []]" using split1_append clean_no_sp[OF c(1)] by simp
  then have "class_words ((c @ [sp] @ c) @ [sp]) = [c, c]" using c(2) by (simp add: class_words_def)
  then have w: "class_words (className e) = [c, c]" unfolding words_sp(2) cn .
  have n: "names c = [c]"
    using c split_go_clean[of c False "[]"] by (simp add: names_def split_space_def clean_def)
  have r: "remove_class (Some c) (className e) = jq_trim (Some (padded [c]))"
  proof -
    have "[sp] @ (c @ [sp] @ c) @ [sp] = padded [c, c]" by (simp add: padded_def)
    moreover have "remove_names (split_space c) (padded [c, c]) = padded (fold remove1 (split_space c) [c, c])"
      using names_no_sp clean_no_sp[OF c(1)] by (intro remove_names_padded) auto
    moreover have "split_space c = [c]" using c split_go_clean[of c False "[]"] by (simp add: split_space_def clean_def)
    moreover have "rclass ([sp] @ className e @ [sp]) = [sp] @ className e @ [sp]"
      using rclass_spaced[OF sp] by (simp only: rclass_padded)
    ultimately show ?thesis using c(2) cn by (simp add: remove_class_def)
  qed
  have "spaced (padded [c])" using clean_spaced[OF c(1)] by (simp add: spaced_padded)
  moreover obtain l r' where "padded [c] = l @ jq_trim (Some (padded [c])) @ r'" using trim_parts by blast
  ultimately have "spaced (jq_trim (Some (padded [c])))" unfolding spaced_def by (metis Un_iff set_append)
  then have "rclass (jq_trim (Some (padded [c]))) = jq_trim (Some (padded [c]))" by (rule rclass_spaced)
  moreover have "class_words (jq_trim (Some (padded [c]))) = [c]"
    using words_trim[OF \<open>spaced (padded [c])\<close>] words_padded[of "[c]"] clean_no_sp[OF c(1)] c(2) by simp
  ultimately have "has_class c (remove_class (Some c) (className e))"
    unfolding r has_class_words[OF c] by simp
  with el c(2) show ?thesis by (simp add: removeClass_def at_elem_def on_elem_def hasClass_def)
qed

section \<open>Witnesses\<close>

theorem addClass_adds_names_witness:
  "\<exists>e'. addClass (CStr ''b c'') [\<lparr>cType = 1, className = ''a b'', saved = None\<rparr>] = [e'] \<and>
    class_words (className e') = [''a'', ''b'', ''c'']"
proof -
  let ?e = "\<lparr>cType = 1, className = ''a b'', saved = None\<rparr>"
  have "spaced (className ?e)" by (simp add: spaced_def is_space_def)
  moreover have "add_all (names ''b c'') (class_words ''a b'') = [''a'', ''b'', ''c'']" by code_simp
  ultimately show ?thesis using addClass_adds_names[of ?e "''b c''" "''c''"] by auto
qed

theorem removeClass_removes_first_witness:
  "\<exists>e'. removeClass (CStr ''b'') [\<lparr>cType = 1, className = ''a b'', saved = None\<rparr>] = [e'] \<and>
    class_words (className e') = [''a'']"
proof -
  let ?e = "\<lparr>cType = 1, className = ''a b'', saved = None\<rparr>"
  have "spaced (className ?e)" by (simp add: spaced_def is_space_def)
  moreover have "fold remove1 (names ''b'') (class_words ''a b'') = [''a'']" by code_simp
  ultimately show ?thesis using removeClass_removes_first[of ?e "''b''"] by auto
qed

theorem removeClass_leaves_a_repeated_name_witness:
  "hasClass ''a'' (removeClass (CStr ''a'') [\<lparr>cType = 1, className = ''a a'', saved = None\<rparr>])"
  by (rule removeClass_leaves_a_repeated_name) (simp_all add: clean_def is_space_def)

end
