(* ===== verification/JQ_Ajax.thy ===== *)
theory JQ_Ajax
  imports JQ_Class
begin

text \<open>
  Requests in jquery-1.6.4.js: the tables of prefilters and transports, the choice and conversion of
  responses, the serialisation of parameters, and the life of a request from its settings to the last
  global event, with several requests at once.
\<close>

section \<open>Prefilters and transports\<close>

text \<open>A table from data types to lists of functions, given by number.\<close>

type_synonym ftable = "(string \<times> nat list) list"

definition add_one_type :: "nat \<Rightarrow> string \<Rightarrow> ftable \<Rightarrow> ftable" where
  "add_one_type f dt st =
     (let before = (case dt of c # cs \<Rightarrow> c = CHR ''+'' | [] \<Rightarrow> False);
          key = (if before then (if tl dt = [] then ''*'' else tl dt) else dt);
          l = (case map_of st key of Some l \<Rightarrow> l | None \<Rightarrow> [])
      in AList.update key (if before then f # l else l @ [f]) st)"

definition addToPrefiltersOrTransports :: "string option \<Rightarrow> nat option \<Rightarrow> ftable \<Rightarrow> ftable" where
  "addToPrefiltersOrTransports expr f st =
     (case f of
        None \<Rightarrow> st
      | Some f \<Rightarrow> fold (add_one_type f) (split_space (to_lower (case expr of Some e \<Rightarrow> e | None \<Rightarrow> ''*''))) st)"

text \<open>What a prefilter or a transport factory returns: nothing, a data type, or a transport.\<close>

datatype selection = Nothing | Redirect string | Transport nat

text \<open>
  The inspection of a table. A function is called on the list of data types and the rest of the
  world; it is given to the model as \<open>call\<close>. The result is the selection, the data types, the world,
  and the types inspected. Prefilters are only executed, transports are selected.
\<close>

record 'w insp =
  itypes :: "string list" \<comment> \<open>\<open>options.dataTypes\<close>\<close>
  inspected :: "string list"
  iworld :: 'w

fun inspect_list :: "(string \<Rightarrow> 'w insp \<Rightarrow> (selection \<times> 'w insp) option) \<Rightarrow> (nat \<Rightarrow> 'w insp \<Rightarrow> selection \<times> 'w insp)
    \<Rightarrow> bool \<Rightarrow> nat list \<Rightarrow> selection \<Rightarrow> 'w insp \<Rightarrow> (selection \<times> 'w insp) option" where
  "inspect_list rec call ex [] sel s = Some (sel, s)"
| "inspect_list rec call ex (f # fs) sel s =
     (if \<not> ex \<and> sel \<noteq> Nothing then Some (sel, s)
      else case call f s of
        (Redirect t, s1) \<Rightarrow>
          if \<not> ex \<or> t \<in> set (inspected s1) then inspect_list rec call ex fs Nothing s1
          else (case rec t (s1\<lparr>itypes := t # itypes s1\<rparr>) of
                  None \<Rightarrow> None
                | Some (sel1, s2) \<Rightarrow> inspect_list rec call ex fs sel1 s2)
      | (sel1, s1) \<Rightarrow> inspect_list rec call ex fs sel1 s1)"

primrec inspect :: "nat \<Rightarrow> ftable \<Rightarrow> (nat \<Rightarrow> 'w insp \<Rightarrow> selection \<times> 'w insp) \<Rightarrow> bool \<Rightarrow> string \<Rightarrow> 'w insp
    \<Rightarrow> (selection \<times> 'w insp) option" where
  "inspect 0 st call ex dt s = None"
| "inspect (Suc n) st call ex dt s =
     (case inspect_list (inspect n st call ex) call ex (case map_of st dt of Some l \<Rightarrow> l | None \<Rightarrow> []) Nothing
             (s\<lparr>inspected := dt # inspected s\<rparr>) of
        None \<Rightarrow> None
      | Some (sel, s1) \<Rightarrow>
          if (ex \<or> sel = Nothing) \<and> ''*'' \<notin> set (inspected s1) then inspect n st call ex ''*'' s1 else Some (sel, s1))"

definition inspectPrefiltersOrTransports :: "nat \<Rightarrow> ftable \<Rightarrow> (nat \<Rightarrow> 'w insp \<Rightarrow> selection \<times> 'w insp) \<Rightarrow> bool \<Rightarrow> string list
    \<Rightarrow> 'w \<Rightarrow> (selection \<times> 'w insp) option" where
  "inspectPrefiltersOrTransports n st call ex dts w = inspect n st call ex (hd dts) \<lparr>itypes = dts, inspected = [], iworld = w\<rparr>"

section \<open>Settings\<close>

datatype conv = Same | Conv "jsval \<Rightarrow> jsval + jsval" \<comment> \<open>\<open>Inl\<close>: it throws\<close>

record settings =
  url :: string
  atype :: string
  dataTypes :: "string list"
  sdata :: "string option"
  global :: bool
  cache :: "bool option"
  ifModified :: bool
  contentType :: "string option" \<comment> \<open>nothing for \<open>false\<close>\<close>
  mimeType :: "string option"
  crossDomain :: "bool option"
  headers :: "(string \<times> string) list"
  accepts :: "(string \<times> string) list"
  contents :: "(string \<times> (string \<Rightarrow> bool)) list"
  responseFields :: "(string \<times> string) list"
  converters :: "(string \<times> conv) list"
  dataFilter :: "(jsval \<Rightarrow> jsval) option"
  async :: bool
  timeout :: nat

section \<open>Choosing the response\<close>

text \<open>The types without the leading automatic ones; whether there were any.\<close>

fun drop_auto :: "string list \<Rightarrow> bool \<times> string list" where
  "drop_auto [] = (False, [])"
| "drop_auto (t # ts) = (if t = ''*'' then (True, snd (drop_auto ts)) else (False, t # ts))"

definition known_type :: "(string \<times> (string \<Rightarrow> bool)) list \<Rightarrow> string \<Rightarrow> string option" where
  "known_type cs ct = map_option fst (find (\<lambda>(t, test). test ct) cs)"

definition convertible :: "(string \<times> conv) list \<Rightarrow> string list \<Rightarrow> string \<Rightarrow> bool" where
  "convertible cvs dts t = (case dts of [] \<Rightarrow> True | d # ds \<Rightarrow> d = [] \<or> map_of cvs (t @ '' '' @ d) \<noteq> None)"

text \<open>
  The data types left for the conversion and the response; the content type is looked up with
  \<open>header\<close>. The fields of the request object are the responses under the names of
  \<open>responseFields\<close>.
\<close>

definition response_fields :: "settings \<Rightarrow> (string \<times> jsval) list \<Rightarrow> (string \<times> jsval) list" where
  "response_fields s rs = concat (map (\<lambda>(t, f). case map_of rs t of Some v \<Rightarrow> [(f, v)] | None \<Rightarrow> []) (responseFields s))"

definition ajaxHandleResponses :: "settings \<Rightarrow> string option \<Rightarrow> (string \<times> jsval) list \<Rightarrow> string list \<times> jsval option" where
  "ajaxHandleResponses s header rs =
     (let (auto, dts) = drop_auto (dataTypes s);
          ct = (if auto then (if mimeType s \<noteq> None \<and> mimeType s \<noteq> Some [] then mimeType s else header) else None);
          dts1 = (case ct of
                    None \<Rightarrow> dts
                  | Some c \<Rightarrow> if c = [] then dts else (case known_type (contents s) c of Some t \<Rightarrow> t # dts | None \<Rightarrow> dts));
          final = (if dts1 \<noteq> [] \<and> map_of rs (hd dts1) \<noteq> None then Some (hd dts1)
                   else case find (convertible (converters s) dts1) (map fst rs) of
                          Some t \<Rightarrow> Some t
                        | None \<Rightarrow> (case rs of [] \<Rightarrow> None | (t, v) # _ \<Rightarrow> Some t))
      in case final of
           None \<Rightarrow> (dts1, None)
         | Some t \<Rightarrow> (if dts1 \<noteq> [] \<and> t = hd dts1 then dts1 else t # dts1, map_of rs t))"

section \<open>Converting it\<close>

datatype cerror = NoConversion string | Thrown jsval

text \<open>
  The converters found for one step: one that does nothing, one, or a chain of two. A two-step search
  takes the first converter from the type, or from any, whose result can be converted further.
\<close>

fun via :: "(string \<times> conv) list \<Rightarrow> string \<Rightarrow> string \<Rightarrow> (string \<times> conv) list \<Rightarrow> conv list option" where
  "via cvs prev cur [] = None"
| "via cvs prev cur ((k, c) # rest) =
     (let a = takeWhile (\<lambda>x. x \<noteq> sp) k;
          b = (if sp \<in> set k then takeWhile (\<lambda>x. x \<noteq> sp) (drop (Suc (length a)) k) else ''undefined'')
      in if a = prev \<or> a = ''*''
         then (case map_of cvs (b @ '' '' @ cur) of Some c2 \<Rightarrow> Some [c, c2] | None \<Rightarrow> via cvs prev cur rest)
         else via cvs prev cur rest)"

definition converter_for :: "(string \<times> conv) list \<Rightarrow> string \<Rightarrow> string \<Rightarrow> conv list option" where
  "converter_for cvs prev cur =
     (case map_of cvs (prev @ '' '' @ cur) of
        Some c \<Rightarrow> Some [c]
      | None \<Rightarrow> (case map_of cvs (''* '' @ cur) of Some c \<Rightarrow> Some [c] | None \<Rightarrow> via cvs prev cur cvs))"

definition run_conv :: "conv \<Rightarrow> jsval \<Rightarrow> cerror + jsval" where
  "run_conv c v = (case c of Same \<Rightarrow> Inr v | Conv f \<Rightarrow> (case f v of Inl e \<Rightarrow> Inl (Thrown e) | Inr r \<Rightarrow> Inr r))"

fun run_convs :: "conv list \<Rightarrow> jsval \<Rightarrow> cerror + jsval" where
  "run_convs [] v = Inr v"
| "run_convs (c # cs) v = (case run_conv c v of Inl e \<Rightarrow> Inl e | Inr r \<Rightarrow> run_convs cs r)"

fun convert_chain :: "(string \<times> conv) list \<Rightarrow> string \<Rightarrow> string list \<Rightarrow> jsval \<Rightarrow> cerror + jsval" where
  "convert_chain cvs current [] v = Inr v"
| "convert_chain cvs prev (t # ts) v =
     (if t = ''*'' then convert_chain cvs prev ts v
      else if prev = ''*'' \<or> prev = t then convert_chain cvs t ts v
      else case converter_for cvs prev t of
             None \<Rightarrow> Inl (NoConversion (prev @ '' to '' @ t))
           | Some cs \<Rightarrow> (case run_convs cs v of Inl e \<Rightarrow> Inl e | Inr r \<Rightarrow> convert_chain cvs t ts r))"

text \<open>The map of converters is made with keys in lower case; a later key wins.\<close>

definition lower_keys :: "(string \<times> conv) list \<Rightarrow> (string \<times> conv) list" where
  "lower_keys cvs = fold (\<lambda>(k, c). AList.update (to_lower k) c) cvs []"

definition ajaxConvert :: "settings \<Rightarrow> string list \<Rightarrow> jsval \<Rightarrow> cerror + jsval" where
  "ajaxConvert s dts v =
     (let v1 = (case dataFilter s of Some f \<Rightarrow> f v | None \<Rightarrow> v)
      in case dts of [] \<Rightarrow> Inr v1 | t # ts \<Rightarrow> convert_chain (lower_keys (converters s)) t ts v1)"

section \<open>Parameters\<close>

text \<open>A value; a function among them stands here as the value it returns.\<close>

datatype pval = PNull | PScalar string | PArr "pval list" | PObj "(string \<times> pval) list"

text \<open>\<open>/\[\]$/\<close>\<close>

definition rbracket :: "string \<Rightarrow> bool" where
  "rbracket s \<longleftrightarrow> starts_with (rev ''[]'') (rev s)"

fun join :: "string \<Rightarrow> string list \<Rightarrow> string" where
  "join d [] = []"
| "join d [s] = s"
| "join d (s # t # ss) = s @ d @ join d (t # ss)"

text \<open>A value as a text: the items of an array joined by commas, with nothing for null.\<close>

fun inner_text :: "pval \<Rightarrow> string" and inner_texts :: "pval list \<Rightarrow> string list" where
  "inner_text PNull = []"
| "inner_text (PScalar s) = s"
| "inner_text (PObj ps) = ''[object Object]''"
| "inner_text (PArr vs) = join '','' (inner_texts vs)"
| "inner_texts [] = []"
| "inner_texts (v # vs) = inner_text v # inner_texts vs"

definition scalar_text :: "pval \<Rightarrow> string" where
  "scalar_text v = (if v = PNull then ''null'' else inner_text v)"

definition item_key :: "string \<Rightarrow> nat \<Rightarrow> pval \<Rightarrow> string" where
  "item_key prefix i v = prefix @ ''['' @ (case v of PScalar s \<Rightarrow> [] | _ \<Rightarrow> dec i) @ '']''"

fun buildParams :: "string \<Rightarrow> pval \<Rightarrow> bool \<Rightarrow> (string \<times> string) list"
  and build_items :: "string \<Rightarrow> nat \<Rightarrow> pval list \<Rightarrow> bool \<Rightarrow> (string \<times> string) list"
  and build_fields :: "string \<Rightarrow> (string \<times> pval) list \<Rightarrow> bool \<Rightarrow> (string \<times> string) list" where
  "buildParams prefix (PArr vs) trad = build_items prefix 0 vs trad"
| "buildParams prefix (PObj ps) trad = (if trad then [(prefix, ''[object Object]'')] else build_fields prefix ps trad)"
| "buildParams prefix PNull trad = [(prefix, ''null'')]"
| "buildParams prefix (PScalar s) trad = [(prefix, s)]"
| "build_items prefix i [] trad = []"
| "build_items prefix i (v # vs) trad =
     (if trad \<or> rbracket prefix then [(prefix, scalar_text v)] else buildParams (item_key prefix i v) v trad)
     @ build_items prefix (Suc i) vs trad"
| "build_fields prefix [] trad = []"
| "build_fields prefix ((k, v) # ps) trad = buildParams (prefix @ ''['' @ k @ '']'') v trad @ build_fields prefix ps trad"

text \<open>\<open>encodeURIComponent\<close> on 8-bit characters: two bytes above 127.\<close>

definition hex_digit :: "nat \<Rightarrow> char" where
  "hex_digit n = (if n < 10 then char_of (48 + n) else char_of (55 + n))"

definition hex_byte :: "nat \<Rightarrow> string" where
  "hex_byte n = [CHR ''%'', hex_digit (n div 16), hex_digit (n mod 16)]"

definition unreserved :: "char \<Rightarrow> bool" where
  "unreserved c \<longleftrightarrow> is_upper c \<or> is_lower c \<or> is_digit c \<or> c \<in> set ''-_.!~*()'' \<or> c = CHR 0x27"

definition encode_char :: "char \<Rightarrow> string" where
  "encode_char c =
     (if unreserved c then [c]
      else let n = of_char c :: nat
           in if n < 128 then hex_byte n else hex_byte (192 + n div 64) @ hex_byte (128 + n mod 64))"

definition encodeURIComponent :: "string \<Rightarrow> string" where
  "encodeURIComponent s = concat (map encode_char s)"

text \<open>\<open>replace(/%20/g, "+")\<close>\<close>

fun r20 :: "string \<Rightarrow> string" where
  "r20 (a # b # c # cs) = (if a = CHR ''%'' \<and> b = CHR ''2'' \<and> c = CHR ''0'' then CHR ''+'' # r20 cs else a # r20 (b # c # cs))"
| "r20 cs = cs"

definition encode_pairs :: "(string \<times> string) list \<Rightarrow> string" where
  "encode_pairs kvs = r20 (join ''&'' (map (\<lambda>(k, v). encodeURIComponent k @ ''='' @ encodeURIComponent v) kvs))"

text \<open>An array is taken as the fields of a form, an object is walked.\<close>

datatype params = FormFields "(string \<times> string) list" | Fields "(string \<times> pval) list"

definition param :: "params \<Rightarrow> bool \<Rightarrow> string" where
  "param a trad =
     (case a of
        FormFields kvs \<Rightarrow> encode_pairs kvs
      | Fields ps \<Rightarrow> encode_pairs (concat (map (\<lambda>(k, v). buildParams k v trad) ps)))"

section \<open>Inspection ends\<close>

text \<open>The types that still have to be inspected: keys of the table, and the catch-all.\<close>

definition left_types :: "ftable \<Rightarrow> string list \<Rightarrow> string set" where
  "left_types st insp = insert ''*'' (fst ` set st) - set insp"

definition fuel_for :: "ftable \<Rightarrow> string \<Rightarrow> string list \<Rightarrow> nat" where
  "fuel_for st dt insp = 2 * card (left_types st insp) + (if dt \<in> left_types st insp then 0 else 1)"

definition keeps_insp :: "(nat \<Rightarrow> 'w insp \<Rightarrow> selection \<times> 'w insp) \<Rightarrow> bool" where
  "keeps_insp call \<longleftrightarrow> (\<forall>f s. inspected (snd (call f s)) = inspected s)"

lemma card_left_mono: "set a \<subseteq> set b \<Longrightarrow> card (left_types st b) \<le> card (left_types st a)"
  by (rule card_mono) (auto simp: left_types_def)

lemma card_left_less:
  assumes "dt \<in> left_types st a" and "insert dt (set a) \<subseteq> set b"
  shows "card (left_types st b) < card (left_types st a)"
proof -
  have fin: "finite (left_types st a)" by (simp add: left_types_def)
  have "left_types st b \<subseteq> left_types st a - {dt}" using assms(2) unfolding left_types_def by blast
  then have "card (left_types st b) \<le> card (left_types st a - {dt})" using fin by (intro card_mono) simp_all
  also have "\<dots> < card (left_types st a)" by (rule card_Diff1_less[OF fin assms(1)])
  finally show ?thesis .
qed

lemma inspect_list_ends:
  assumes k: "keeps_insp call"
    and rec: "\<And>t s. t \<notin> set (inspected s) \<Longrightarrow> set insp \<subseteq> set (inspected s) \<Longrightarrow>
      \<exists>sel s1. rec t s = Some (sel, s1) \<and> set (inspected s) \<subseteq> set (inspected s1)"
  shows "set insp \<subseteq> set (inspected s) \<Longrightarrow>
    \<exists>sel1 s1. inspect_list rec call ex fs sel s = Some (sel1, s1) \<and> set (inspected s) \<subseteq> set (inspected s1)"
proof (induction fs arbitrary: sel s)
  case (Cons f fs)
  show ?case
  proof (cases "\<not> ex \<and> sel \<noteq> Nothing")
    case False
    obtain sel2 s2 where c: "call f s = (sel2, s2)" by (cases "call f s")
    have i2: "inspected s2 = inspected s" using k c unfolding keeps_insp_def by (metis snd_conv)
    have go: "\<exists>sel1 s1. inspect_list rec call ex fs sel' s2 = Some (sel1, s1) \<and> set (inspected s) \<subseteq> set (inspected s1)" for sel'
      using Cons.IH[of s2 sel'] Cons.prems i2 by simp
    show ?thesis
    proof (cases sel2)
      case (Redirect t)
      show ?thesis
      proof (cases "\<not> ex \<or> t \<in> set (inspected s2)")
        case True
        with False c Redirect go[of Nothing] show ?thesis by auto
      next
        case new: False
        let ?s = "s2\<lparr>itypes := t # itypes s2\<rparr>"
        obtain sel3 s3 where r: "rec t ?s = Some (sel3, s3)" "set (inspected ?s) \<subseteq> set (inspected s3)"
          using rec[of t ?s] new Cons.prems i2 by auto
        have "set insp \<subseteq> set (inspected s3)" using r(2) i2 Cons.prems by simp
        from Cons.IH[OF this, of sel3] obtain sel1 s1 where
          "inspect_list rec call ex fs sel3 s3 = Some (sel1, s1)" "set (inspected s3) \<subseteq> set (inspected s1)" by blast
        with False c Redirect new r i2 show ?thesis by auto
      qed
    qed (use False c go in auto)
  qed (use Cons.prems in simp)
qed simp

lemma inspect_ends:
  assumes k: "keeps_insp call"
  shows "dt \<notin> set (inspected s) \<Longrightarrow> fuel_for st dt (inspected s) < n \<Longrightarrow>
    \<exists>sel s1. inspect n st call ex dt s = Some (sel, s1) \<and> set (inspected s) \<subseteq> set (inspected s1)"
proof (induction n arbitrary: dt s)
  case (Suc n)
  let ?s = "s\<lparr>inspected := dt # inspected s\<rparr>" and ?l = "case map_of st dt of Some l \<Rightarrow> l | None \<Rightarrow> []"
  have star: "\<exists>sel s1. inspect n st call ex ''*'' u = Some (sel, s1) \<and> set (inspected u) \<subseteq> set (inspected s1)"
    if u: "''*'' \<notin> set (inspected u)" "set (inspected ?s) \<subseteq> set (inspected u)" for u
  proof -
    have m: "''*'' \<in> left_types st (inspected u)" using u(1) by (simp add: left_types_def)
    have "fuel_for st ''*'' (inspected u) < fuel_for st dt (inspected s)"
    proof (cases "dt \<in> left_types st (inspected s)")
      case True
      have "card (left_types st (inspected u)) < card (left_types st (inspected s))"
        using u(2) by (intro card_left_less[OF True]) simp
      then show ?thesis using True m by (simp add: fuel_for_def)
    next
      case False
      have "card (left_types st (inspected u)) \<le> card (left_types st (inspected s))"
        using u(2) by (intro card_left_mono) auto
      with False m show ?thesis by (simp add: fuel_for_def)
    qed
    then have "fuel_for st ''*'' (inspected u) < n" using Suc.prems(2) by linarith
    from Suc.IH[OF u(1) this] show ?thesis .
  qed
  have li: "\<exists>sel1 s1. inspect_list (inspect n st call ex) call ex ?l Nothing ?s = Some (sel1, s1) \<and> set (inspected ?s) \<subseteq> set (inspected s1)"
  proof (cases "dt \<in> left_types st (inspected s)")
    case True
    show ?thesis
    proof (rule inspect_list_ends[OF k, where insp = "inspected ?s"])
      fix t and u :: "'a insp"
      assume t: "t \<notin> set (inspected u)" and i: "set (inspected ?s) \<subseteq> set (inspected u)"
      have "card (left_types st (inspected u)) < card (left_types st (inspected s))"
        using i by (intro card_left_less[OF True]) simp
      then have "fuel_for st t (inspected u) < fuel_for st dt (inspected s)" using True by (simp add: fuel_for_def)
      then show "\<exists>sel s1. inspect n st call ex t u = Some (sel, s1) \<and> set (inspected u) \<subseteq> set (inspected s1)"
        using Suc.IH[OF t] Suc.prems(2) by simp
    qed simp
  next
    case False
    then have "map_of st dt = None" using Suc.prems(1) by (auto simp: left_types_def map_of_eq_None_iff)
    then show ?thesis by auto
  qed
  then obtain sel1 s1 where l: "inspect_list (inspect n st call ex) call ex ?l Nothing ?s = Some (sel1, s1)"
    "set (inspected ?s) \<subseteq> set (inspected s1)" by blast
  show ?case
  proof (cases "(ex \<or> sel1 = Nothing) \<and> ''*'' \<notin> set (inspected s1)")
    case True
    then obtain sel2 s2 where "inspect n st call ex ''*'' s1 = Some (sel2, s2)" "set (inspected s1) \<subseteq> set (inspected s2)"
      using star[of s1] l(2) by auto
    with True l show ?thesis by auto
  next
    case False
    with l show ?thesis by auto
  qed
qed simp

text \<open>
  The inspection of a table comes to an end whatever types its functions redirect to, when these leave
  the record of inspected types alone: each key of the table is inspected at most once, so that twice
  the number of keys and the catch-all bounds the depth of the calls.
\<close>

theorem inspection_ends:
  assumes "keeps_insp call" and "2 * (length st + 1) + 1 < n"
  shows "inspectPrefiltersOrTransports n st call ex dts w \<noteq> None"
proof -
  let ?s = "\<lparr>itypes = dts, inspected = [], iworld = w\<rparr>"
  have "card (left_types st []) \<le> Suc (card (fst ` set st))"
    unfolding left_types_def by (simp add: card_insert_if)
  also have "\<dots> \<le> Suc (length st)" using card_length[of "map fst st"] by simp
  finally have "fuel_for st (hd dts) (inspected ?s) < n" using assms(2) by (simp add: fuel_for_def)
  with inspect_ends[OF assms(1), of "hd dts" ?s st n ex] show ?thesis
    by (auto simp: inspectPrefiltersOrTransports_def)
qed

section \<open>When a conversion fails\<close>

lemma via_none: "via cvs prev cur l = None \<longleftrightarrow>
  (\<forall>(k, c)\<in>set l. (let a = takeWhile (\<lambda>x. x \<noteq> sp) k; b = (if sp \<in> set k then takeWhile (\<lambda>x. x \<noteq> sp) (drop (Suc (length a)) k) else ''undefined'')
     in (a = prev \<or> a = ''*'') \<longrightarrow> map_of cvs (b @ '' '' @ cur) = None))"
  by (induction cvs prev cur l rule: via.induct) (auto simp: Let_def split: option.splits)

lemma key_parts:
  assumes "sp \<notin> set a" and "sp \<notin> set b"
  shows "takeWhile (\<lambda>x. x \<noteq> sp) (a @ '' '' @ b) = a" and
    "takeWhile (\<lambda>x. x \<noteq> sp) (drop (Suc (length a)) (a @ '' '' @ b)) = b"
proof -
  have "\<And>x. x \<in> set a \<Longrightarrow> x \<noteq> sp" "\<And>x. x \<in> set b \<Longrightarrow> x \<noteq> sp" using assms by auto
  then show "takeWhile (\<lambda>x. x \<noteq> sp) (a @ '' '' @ b) = a" "takeWhile (\<lambda>x. x \<noteq> sp) (drop (Suc (length a)) (a @ '' '' @ b)) = b"
    by (simp_all add: takeWhile_append2 takeWhile_eq_all_conv)
qed

text \<open>Tables of converters whose keys are two words with one space between.\<close>

definition well_keyed :: "(string \<times> conv) list \<Rightarrow> bool" where
  "well_keyed cvs \<longleftrightarrow> (\<forall>k\<in>fst ` set cvs. \<exists>a b. k = a @ '' '' @ b \<and> sp \<notin> set a \<and> sp \<notin> set b)"

definition has_conv :: "(string \<times> conv) list \<Rightarrow> string \<Rightarrow> string \<Rightarrow> bool" where
  "has_conv cvs a b \<longleftrightarrow> map_of cvs (a @ '' '' @ b) \<noteq> None"

lemma converter_none:
  assumes wk: "well_keyed cvs" and p: "sp \<notin> set prev"
  shows "converter_for cvs prev cur = None \<longleftrightarrow>
    (\<forall>a\<in>{prev, ''*''}. \<not> has_conv cvs a cur \<and> (\<forall>b. sp \<notin> set b \<longrightarrow> has_conv cvs a b \<longrightarrow> \<not> has_conv cvs b cur))"
proof -
  have v: "via cvs prev cur cvs = None \<longleftrightarrow> (\<forall>a\<in>{prev, ''*''}. \<forall>b. sp \<notin> set b \<longrightarrow> has_conv cvs a b \<longrightarrow> \<not> has_conv cvs b cur)"
    (is "?l = ?r")
  proof
    assume l: ?l
    show ?r
    proof (intro ballI allI impI)
      fix a b assume a: "a \<in> {prev, ''*''}" and b: "sp \<notin> set b" "has_conv cvs a b"
      have as: "sp \<notin> set a" using a p by auto
      obtain c where "(a @ '' '' @ b, c) \<in> set cvs" using b(2) by (auto simp: has_conv_def dest: map_of_SomeD)
      note m = bspec[OF l[unfolded via_none] this, unfolded prod.case Let_def key_parts[OF as b(1)]]
      have "sp \<in> set (a @ '' '' @ b)" by simp
      note m' = m[unfolded if_P[OF this] key_parts[OF as b(1)]]
      from a show "\<not> has_conv cvs b cur" using m' unfolding has_conv_def by auto
    qed
  next
    assume r: ?r
    show ?l unfolding via_none
    proof (intro ballI, clarify)
      fix k c assume kc: "(k, c) \<in> set cvs"
      obtain a b where k: "k = a @ '' '' @ b" "sp \<notin> set a" "sp \<notin> set b"
        using wk kc unfolding well_keyed_def by force
      have "k \<in> fst ` set cvs" using kc by force
      then have h: "has_conv cvs a b" using k(1) by (simp add: has_conv_def map_of_eq_None_iff)
      have "sp \<in> set k" using k(1) by simp
      then show "let a = takeWhile (\<lambda>x. x \<noteq> sp) k; b = (if sp \<in> set k then takeWhile (\<lambda>x. x \<noteq> sp) (drop (Suc (length a)) k) else ''undefined'')
        in (a = prev \<or> a = ''*'') \<longrightarrow> map_of cvs (b @ '' '' @ cur) = None"
        unfolding Let_def if_P[OF \<open>sp \<in> set k\<close>] unfolding k(1) key_parts[OF k(2,3)]
        using r k(3) h unfolding has_conv_def by blast
    qed
  qed
  have "converter_for cvs prev cur = None \<longleftrightarrow> \<not> has_conv cvs prev cur \<and> \<not> has_conv cvs ''*'' cur \<and> via cvs prev cur cvs = None"
    by (auto simp: converter_for_def has_conv_def split: option.splits)
  then show ?thesis unfolding v by auto
qed

text \<open>
  The conversion of a response from one type to another stops with the error that there is no conversion
  exactly when the table has neither a converter from the type, or from any type, to the other,
  nor two that lead there through a third.
\<close>

theorem conversion_fails_without_path:
  assumes "well_keyed (lower_keys (converters s))" and "sp \<notin> set a" and "a \<noteq> ''*''" and "b \<noteq> ''*''" and "a \<noteq> b"
  shows "ajaxConvert s [a, b] v = Inl (NoConversion (a @ '' to '' @ b)) \<longleftrightarrow>
    (\<forall>x\<in>{a, ''*''}. \<not> has_conv (lower_keys (converters s)) x b \<and>
       (\<forall>c. sp \<notin> set c \<longrightarrow> has_conv (lower_keys (converters s)) x c \<longrightarrow> \<not> has_conv (lower_keys (converters s)) c b))"
proof -
  have run: "run_convs cs x \<noteq> Inl (NoConversion y)" for cs x y
    by (induction cs arbitrary: x) (auto simp: run_conv_def split: conv.splits sum.splits)
  have "ajaxConvert s [a, b] v = Inl (NoConversion (a @ '' to '' @ b)) \<longleftrightarrow> converter_for (lower_keys (converters s)) a b = None"
    using assms(3-5) run by (auto simp: ajaxConvert_def Let_def split: option.splits sum.splits)
  then show ?thesis by (simp only: converter_none[OF assms(1,2)])
qed

section \<open>Addresses\<close>

text \<open>\<open>/^([\w\+\.\-]+:)(?:\/\/([^\/?#:]*)(?::(\d+))?)?/\<close>: scheme, host and port.\<close>

definition scheme_char :: "char \<Rightarrow> bool" where
  "scheme_char c \<longleftrightarrow> is_upper c \<or> is_lower c \<or> is_digit c \<or> c \<in> set ''_+.-''"

definition rurl :: "string \<Rightarrow> (string \<times> string option \<times> string option) option" where
  "rurl u =
     (let sch = takeWhile scheme_char u; rest = drop (length sch) u
      in if sch = [] \<or> rest = [] \<or> hd rest \<noteq> CHR '':'' then None
         else let r1 = tl rest
              in if starts_with ''//'' r1
                 then let r2 = drop 2 r1; host = takeWhile (\<lambda>c. c \<notin> set ''/?#:'') r2; r3 = drop (length host) r2;
                          port = (case r3 of c # cs \<Rightarrow> if c = CHR '':'' then takeWhile is_digit cs else [] | [] \<Rightarrow> [])
                      in Some (sch @ '':'', Some host, if port = [] then None else Some port)
                 else Some (sch @ '':'', None, None))"

definition port_of :: "string \<times> string option \<times> string option \<Rightarrow> string" where
  "port_of p = (case p of (sch, host, port) \<Rightarrow>
     (case port of Some q \<Rightarrow> q | None \<Rightarrow> if sch = ''http:'' then ''80'' else ''443''))"

text \<open>Another scheme, host or port than the page's; an address without a scheme is the page's own.\<close>

definition is_cross :: "string \<times> string option \<times> string option \<Rightarrow> string \<Rightarrow> bool" where
  "is_cross loc u =
     (case rurl (to_lower u) of
        None \<Rightarrow> False
      | Some p \<Rightarrow> fst p \<noteq> fst loc \<or> fst (snd p) \<noteq> fst (snd loc) \<or> port_of p \<noteq> port_of loc)"

definition strip_hash :: "string \<Rightarrow> string" where
  "strip_hash u = takeWhile (\<lambda>c. c \<noteq> CHR ''#'') u"

definition add_protocol :: "string \<Rightarrow> string \<Rightarrow> string" where
  "add_protocol sch u = (if starts_with ''//'' u then sch @ u else u)"

definition has_query :: "string \<Rightarrow> bool" where
  "has_query u \<longleftrightarrow> CHR ''?'' \<in> set u"

definition append_query :: "string \<Rightarrow> string \<Rightarrow> string" where
  "append_query u q = u @ (if has_query u then ''&'' else ''?'') @ q"

text \<open>\<open>replace(/([?&])_=[^&]*/, "$1_=" + ts)\<close>\<close>

fun replace_ts :: "string \<Rightarrow> string \<Rightarrow> string" where
  "replace_ts ts [] = []"
| "replace_ts ts (c # cs) =
     (if c \<in> set ''?&'' \<and> starts_with ''_='' cs
      then c # ''_='' @ ts @ dropWhile (\<lambda>x. x \<noteq> CHR ''&'') (drop 2 cs)
      else c # replace_ts ts cs)"

definition no_cache :: "string \<Rightarrow> string \<Rightarrow> string" where
  "no_cache ts u = (let r = replace_ts ts u in if r = u then append_query r (''_='' @ ts) else r)"

section \<open>Headers\<close>

record hstate =
  requestHeaders :: "(string \<times> string) list"
  requestHeadersNames :: "(string \<times> string) list"

text \<open>A header keeps the spelling it was first given.\<close>

definition set_header :: "string \<Rightarrow> string \<Rightarrow> hstate \<Rightarrow> hstate" where
  "set_header name v h =
     (let l = to_lower name;
          n = (case map_of (requestHeadersNames h) l of Some n \<Rightarrow> if n = [] then name else n | None \<Rightarrow> name)
      in h\<lparr>requestHeadersNames := AList.update l n (requestHeadersNames h),
           requestHeaders := AList.update n v (requestHeaders h)\<rparr>)"

text \<open>The lines of the response's headers, split at the first colon.\<close>

fun lines :: "string \<Rightarrow> string list" where
  "lines [] = [[]]"
| "lines (c # cs) = (if c = CHR 0x0A then [] # lines cs
     else (case lines cs of l # ls \<Rightarrow> (c # l) # ls | [] \<Rightarrow> [[c]]))"

definition header_line :: "string \<Rightarrow> (string \<times> string) list" where
  "header_line l =
     (let name = takeWhile (\<lambda>c. c \<noteq> CHR '':'') l; rest = drop (length name) l
      in if rest = [] then []
         else [(to_lower name, takeWhile (\<lambda>c. c \<noteq> CHR 0x0D) (dropWhile (\<lambda>c. c = sp \<or> c = CHR 0x09) (tl rest)))])"

definition parse_headers :: "string \<Rightarrow> (string \<times> string) list" where
  "parse_headers s = fold (\<lambda>(k, v). AList.update k v) (concat (map header_line (lines s))) []"

section \<open>The life of a request\<close>

text \<open>
  The states of a request object: 0 before it is sent, 1 sent, 2 done. What is left of the running calls
  of \<open>done\<close> is a list of pairs of a stage and whether the request succeeded: between two stages
  the functions of the page run, which may start, abort or complete other requests and this one.
\<close>

datatype settled = Resolved "jsval option" | Rejected "jsval option"

record req =
  rset :: settings
  pc :: nat \<comment> \<open>how far \<open>ajax\<close> has come: prefilters, headers, \<open>beforeSend\<close>, transport, sending, the end\<close>
  rstate :: nat
  fireGlobals :: bool
  hasTransport :: bool
  timerSet :: bool
  readyState :: nat
  rstatus :: int
  statusText :: string
  responseHeaders :: string
  rheaders :: hstate
  modifiedKey :: "string option"
  deferred :: "settled option" \<comment> \<open>a Deferred keeps the first of its settlements\<close>
  completed :: bool
  doneRuns :: "(nat \<times> bool) list"

record ajaxw =
  reqs :: "nat \<Rightarrow> req option"
  active :: int
  fired :: "(string \<times> nat option) list" \<comment> \<open>global events, the latest first; those of a request with its number\<close>
  lastModified :: "(string \<times> string) list"
  etags :: "(string \<times> string) list"

definition upd_req :: "nat \<Rightarrow> (req \<Rightarrow> req) \<Rightarrow> ajaxw \<Rightarrow> ajaxw" where
  "upd_req r f w = w\<lparr>reqs := (reqs w)(r := map_option f (reqs w r))\<rparr>"

definition fire :: "string \<Rightarrow> nat option \<Rightarrow> ajaxw \<Rightarrow> ajaxw" where
  "fire e r w = w\<lparr>fired := (e, r) # fired w\<rparr>"

definition setRequestHeader :: "string \<Rightarrow> string \<Rightarrow> req \<Rightarrow> req" where
  "setRequestHeader n v q = (if rstate q = 0 then q\<lparr>rheaders := set_header n v (rheaders q)\<rparr> else q)"

definition overrideMimeType :: "string \<Rightarrow> req \<Rightarrow> req" where
  "overrideMimeType t q = (if rstate q = 0 then q\<lparr>rset := (rset q)\<lparr>mimeType := Some t\<rparr>\<rparr> else q)"

definition getAllResponseHeaders :: "req \<Rightarrow> string option" where
  "getAllResponseHeaders q = (if rstate q = 2 then Some (responseHeaders q) else None)"

definition getResponseHeader :: "string \<Rightarrow> req \<Rightarrow> string option" where
  "getResponseHeader k q = (if rstate q = 2 then map_of (parse_headers (responseHeaders q)) (to_lower k) else None)"

text \<open>What the settings and the options of a call give: the new request, before its prefilters run.\<close>

definition make_req :: "string \<times> string option \<times> string option \<Rightarrow> string option \<Rightarrow> string option \<Rightarrow> settings \<Rightarrow> req" where
  "make_req loc u dt s =
     (let s1 = s\<lparr>url := add_protocol (fst loc) (strip_hash (case u of Some x \<Rightarrow> if x = [] then url s else x | None \<Rightarrow> url s)),
                dataTypes := split_space (to_lower (jq_trim (Some (case dt of Some x \<Rightarrow> if x = [] then ''*'' else x | None \<Rightarrow> ''*''))))\<rparr>;
          s2 = (if crossDomain s1 = None then s1\<lparr>crossDomain := Some (is_cross loc (url s1))\<rparr> else s1)
      in \<lparr>rset = s2, pc = 0, rstate = 0, fireGlobals = False, hasTransport = False, timerSet = False, readyState = 0, rstatus = 0,
          statusText = [], responseHeaders = [], rheaders = \<lparr>requestHeaders = [], requestHeadersNames = []\<rparr>,
          modifiedKey = None, deferred = None, completed = False, doneRuns = []\<rparr>)"

text \<open>After the prefilters: nothing more for an aborted request; otherwise the global counter goes up.\<close>

definition after_prefilters :: "nat \<Rightarrow> ajaxw \<Rightarrow> bool \<times> ajaxw" where
  "after_prefilters r w =
     (case reqs w r of
        None \<Rightarrow> (False, w)
      | Some q \<Rightarrow>
          if rstate q = 2 then (False, w)
          else let g = global (rset q);
                   w1 = upd_req r (\<lambda>q. q\<lparr>fireGlobals := g, rset := (rset q)\<lparr>atype := to_upper (atype (rset q))\<rparr>\<rparr>) w
               in if g then (True, let w2 = w1\<lparr>active := active w1 + 1\<rparr>
                                   in if active w1 = 0 then fire ''ajaxStart'' None w2 else w2)
                  else (True, w1))"

definition hasContent :: "settings \<Rightarrow> bool" where
  "hasContent s \<longleftrightarrow> atype s \<notin> {''GET'', ''HEAD''}"

text \<open>The address of a request without content takes the data and, unless cached, a time stamp.\<close>

definition final_url :: "string \<Rightarrow> settings \<Rightarrow> settings \<times> string option" where
  "final_url ts s =
     (if hasContent s then (s, None)
      else let s1 = (case sdata s of Some d \<Rightarrow> if d = [] then s else s\<lparr>url := append_query (url s) d, sdata := None\<rparr> | None \<Rightarrow> s)
           in (if cache s1 = Some False then s1\<lparr>url := no_cache ts (url s1)\<rparr> else s1, Some (url s1)))"

definition accept_value :: "settings \<Rightarrow> string" where
  "accept_value s =
     (let d = hd (dataTypes s); all = (case map_of (accepts s) ''*'' of Some a \<Rightarrow> a | None \<Rightarrow> [])
      in if d = [] then all
         else case map_of (accepts s) d of
                None \<Rightarrow> all
              | Some a \<Rightarrow> if a = [] then all else if d = ''*'' then a else a @ '', */*; q=0.01'')"

definition modified_headers :: "ajaxw \<Rightarrow> string \<Rightarrow> req \<Rightarrow> req" where
  "modified_headers w k q =
     (let q1 = (case map_of (lastModified w) k of Some v \<Rightarrow> if v = [] then q else setRequestHeader ''If-Modified-Since'' v q | None \<Rightarrow> q)
      in case map_of (etags w) k of Some v \<Rightarrow> if v = [] then q1 else setRequestHeader ''If-None-Match'' v q1 | None \<Rightarrow> q1)"

definition prepare :: "string \<Rightarrow> bool \<Rightarrow> ajaxw \<Rightarrow> req \<Rightarrow> req" where
  "prepare ts own_type w q =
     (let (s, key) = final_url ts (rset q);
          q1 = q\<lparr>rset := s, modifiedKey := key\<rparr>;
          sends = (sdata s \<noteq> None \<and> sdata s \<noteq> Some [] \<and> hasContent s \<and> contentType s \<noteq> None);
          q2 = (if sends \<or> own_type then setRequestHeader ''Content-Type'' (case contentType s of Some c \<Rightarrow> c | None \<Rightarrow> ''false'') q1 else q1);
          k = (case key of Some k \<Rightarrow> if k = [] then url s else k | None \<Rightarrow> url s);
          q3 = (if ifModified s then modified_headers w k (q2\<lparr>modifiedKey := Some k\<rparr>) else q2);
          q4 = setRequestHeader ''Accept'' (accept_value s) q3
      in fold (\<lambda>(n, v). setRequestHeader n v) (headers s) q4)"

section \<open>done\<close>

definition is_success :: "int \<Rightarrow> bool" where
  "is_success st \<longleftrightarrow> (200 \<le> st \<and> st < 300) \<or> st = 304"

text \<open>A changed resource leaves its stamps under the request's key.\<close>

definition note_modified :: "req \<Rightarrow> ajaxw \<Rightarrow> ajaxw" where
  "note_modified q w =
     (let k = (case modifiedKey q of Some k \<Rightarrow> k | None \<Rightarrow> ''undefined'');
          w1 = (case getResponseHeader ''Last-Modified'' q of
                  Some v \<Rightarrow> if v = [] then w else w\<lparr>lastModified := AList.update k v (lastModified w)\<rparr> | None \<Rightarrow> w)
      in case getResponseHeader ''Etag'' q of
           Some v \<Rightarrow> if v = [] then w1 else w1\<lparr>etags := AList.update k v (etags w1)\<rparr> | None \<Rightarrow> w1)"

text \<open>The outcome of a status and a response: success, text, data or error, and the status kept.\<close>

definition outcome_of :: "settings \<Rightarrow> int \<Rightarrow> string \<Rightarrow> string list \<times> jsval option \<Rightarrow> bool \<times> string \<times> jsval option \<times> int" where
  "outcome_of s st native resp =
     (if st = 304 then (True, ''notmodified'', None, st)
      else if is_success st then
        (case ajaxConvert s (fst resp) (case snd resp of Some v \<Rightarrow> v | None \<Rightarrow> Undefined) of
           Inr v \<Rightarrow> (True, ''success'', Some v, st)
         | Inl (Thrown e) \<Rightarrow> (False, ''parsererror'', Some e, st)
         | Inl (NoConversion m) \<Rightarrow> (False, ''parsererror'', Some (Str (''No conversion from '' @ m)), st))
      else if native = [] \<or> st \<noteq> 0 then (False, ''error'', Some (Str native), if st < 0 then 0 else st)
      else (False, native, Some (Str native), st))"

text \<open>The first part of \<open>done\<close>: the request is over, its response headers are there.\<close>

definition done_start :: "int \<Rightarrow> string \<Rightarrow> req \<Rightarrow> req" where
  "done_start st hdrs q = q\<lparr>rstate := 2, timerSet := False, hasTransport := False, responseHeaders := hdrs,
     readyState := (if st > 0 then 4 else 0)\<rparr>"

definition done_response :: "(string \<times> jsval) list option \<Rightarrow> req \<Rightarrow> string list \<times> jsval option" where
  "done_response rs q = (case rs of
      None \<Rightarrow> (dataTypes (rset q), None)
    | Some l \<Rightarrow> ajaxHandleResponses (rset q) (getResponseHeader ''content-type'' q) l)"

text \<open>The second part: status, response and settlement, with the rest of the call left to be run.\<close>

definition done_settle :: "int \<Rightarrow> string \<Rightarrow> (string \<times> jsval) list option \<Rightarrow> req \<Rightarrow> req" where
  "done_settle st native rs q =
     (let resp = done_response rs q; s1 = (rset q)\<lparr>dataTypes := fst resp\<rparr>; out = outcome_of s1 st native resp;
          ok = fst out; txt = fst (snd out); v = fst (snd (snd out)); st1 = snd (snd (snd out))
      in q\<lparr>rset := s1, rstatus := st1, statusText := (if native = [] then txt else native),
           deferred := (case deferred q of Some d \<Rightarrow> Some d | None \<Rightarrow> Some (if ok then Resolved v else Rejected v)),
           doneRuns := (0, ok) # doneRuns q\<rparr>)"

text \<open>\<open>done\<close> up to the settlement of the Deferred: once only, by the state.\<close>

definition done_begin :: "nat \<Rightarrow> int \<Rightarrow> string \<Rightarrow> (string \<times> jsval) list option \<Rightarrow> string \<Rightarrow> ajaxw \<Rightarrow> ajaxw" where
  "done_begin r st native rs hdrs w =
     (case reqs w r of
        None \<Rightarrow> w
      | Some q \<Rightarrow>
          if rstate q = 2 then w
          else let q1 = done_start st hdrs q;
                   w1 = (if is_success st \<and> ifModified (rset q1) then note_modified q1 w else w)
               in w1\<lparr>reqs := (reqs w1)(r := Some (done_settle st native rs q1))\<rparr>)"

text \<open>
  The stages after it: the status callbacks and the global event of the result, the complete list, and
  the counter with \<open>ajaxStop\<close>. The latest of the running calls goes on.
\<close>

definition done_next :: "nat \<Rightarrow> ajaxw \<Rightarrow> ajaxw" where
  "done_next r w =
     (case reqs w r of
        None \<Rightarrow> w
      | Some q \<Rightarrow>
          (case doneRuns q of
             [] \<Rightarrow> w
           | (n, ok) # runs \<Rightarrow>
               if n = 0 then
                 (let w1 = upd_req r (\<lambda>q. q\<lparr>doneRuns := (1, ok) # runs\<rparr>) w
                  in if fireGlobals q then fire (if ok then ''ajaxSuccess'' else ''ajaxError'') (Some r) w1 else w1)
               else if n = 1 then upd_req r (\<lambda>q. q\<lparr>completed := True, doneRuns := (2, ok) # runs\<rparr>) w
               else if n = 2 then
                 (let w1 = upd_req r (\<lambda>q. q\<lparr>doneRuns := (if fireGlobals q then (3, ok) # runs else runs)\<rparr>) w
                  in if fireGlobals q then fire ''ajaxComplete'' (Some r) w1 else w1)
               else
                 (let w1 = (upd_req r (\<lambda>q. q\<lparr>doneRuns := runs\<rparr>) w)\<lparr>active := active w - 1\<rparr>
                  in if active w1 = 0 then fire ''ajaxStop'' None w1 else w1)))"

text \<open>\<open>abort\<close> first tells the transport, whose own calls of \<open>done\<close> are separate events.\<close>

definition abort :: "nat \<Rightarrow> string \<Rightarrow> ajaxw \<Rightarrow> ajaxw" where
  "abort r txt w = done_begin r 0 (if txt = [] then ''abort'' else txt) None [] w"

text \<open>After \<open>beforeSend\<close>: the request is given up when that returned false or the request is done.\<close>

definition after_before_send :: "nat \<Rightarrow> bool \<Rightarrow> ajaxw \<Rightarrow> bool \<times> ajaxw" where
  "after_before_send r ret w =
     (case reqs w r of
        None \<Rightarrow> (False, w)
      | Some q \<Rightarrow> if \<not> ret \<or> rstate q = 2 then (False, abort r [] w) else (True, w))"

definition choose_transport :: "nat \<Rightarrow> bool \<Rightarrow> ajaxw \<Rightarrow> bool \<times> ajaxw" where
  "choose_transport r found w =
     (case reqs w r of
        None \<Rightarrow> (False, w)
      | Some q \<Rightarrow>
          if \<not> found then (False, done_begin r (-1) ''No Transport'' None [] w)
          else let w1 = upd_req r (\<lambda>q. q\<lparr>readyState := 1, hasTransport := True\<rparr>) w
               in (True, if fireGlobals q then fire ''ajaxSend'' (Some r) w1 else w1))"

text \<open>
  Sending: the state is set to 1 in any case; without a transport, which \<open>done\<close> takes away, the call
  of its \<open>send\<close> throws, and the exception is passed to \<open>done\<close>.
\<close>

definition send :: "nat \<Rightarrow> ajaxw \<Rightarrow> ajaxw" where
  "send r w =
     (case reqs w r of
        None \<Rightarrow> w
      | Some q \<Rightarrow>
          let w1 = upd_req r (\<lambda>q. q\<lparr>timerSet := (async (rset q) \<and> 0 < timeout (rset q)), rstate := 1\<rparr>) w
          in if hasTransport q then w1 else done_begin r (-1) ''TypeError'' None [] w1)"

text \<open>A transport that throws: an error of the request unless it is done, and otherwise thrown on.\<close>

definition send_threw :: "nat \<Rightarrow> string \<Rightarrow> ajaxw \<Rightarrow> ajaxw outcome" where
  "send_threw r e w =
     (case reqs w r of
        None \<Rightarrow> Returned w
      | Some q \<Rightarrow> if rstate q < 2 then Returned (done_begin r (-1) e None [] w) else Threw w)"

text \<open>\<open>statusCode\<close>: before the end the callbacks are noted, afterwards that of the status is called.\<close>

definition statusCode :: "(int \<times> nat list) list \<Rightarrow> (int \<times> nat) list \<Rightarrow> req \<Rightarrow> (int \<times> nat list) list \<times> nat list" where
  "statusCode noted m q =
     (if rstate q < 2
      then (fold (\<lambda>(c, f) l. AList.update c ((case map_of l c of Some fs \<Rightarrow> fs | None \<Rightarrow> []) @ [f]) l) m noted, [])
      else (noted, case map_of m (rstatus q) of Some f \<Rightarrow> [f] | None \<Rightarrow> []))"

section \<open>Several requests\<close>

text \<open>
  The events of a page with requests: a call of \<open>ajax\<close> goes from one point where functions of the
  page run to the next, and in between \<open>done\<close> may be called for any request, by its transport, by
  \<open>abort\<close> or by a timeout, and running calls of \<open>done\<close> go on. The number \<open>pc\<close> says how far the call
  of \<open>ajax\<close> for a request has come: 5 is its end.
\<close>

datatype aevent =
    New nat "string option" "string option" settings
  | Edit nat settings
  | Prefiltered nat
  | Prepared nat string bool
  | BeforeSent nat bool
  | Chosen nat bool
  | Sent nat
  | Done nat int string "(string \<times> jsval) list option" string
  | Continue nat

definition at_pc :: "nat \<Rightarrow> nat \<Rightarrow> ajaxw \<Rightarrow> bool" where
  "at_pc n r w \<longleftrightarrow> (case reqs w r of Some q \<Rightarrow> pc q = n | None \<Rightarrow> False)"

definition goto :: "nat \<Rightarrow> nat \<Rightarrow> ajaxw \<Rightarrow> ajaxw" where
  "goto n r w = upd_req r (\<lambda>q. q\<lparr>pc := n\<rparr>) w"

fun run_event :: "string \<times> string option \<times> string option \<Rightarrow> aevent \<Rightarrow> ajaxw \<Rightarrow> ajaxw" where
  "run_event loc (New r u dt s) w = (if reqs w r = None then w\<lparr>reqs := (reqs w)(r := Some (make_req loc u dt s))\<rparr> else w)"
| "run_event loc (Edit r s) w = upd_req r (\<lambda>q. q\<lparr>rset := s\<rparr>) w"
| "run_event loc (Prefiltered r) w =
     (if at_pc 0 r w then (case after_prefilters r w of (go, w1) \<Rightarrow> goto (if go then 1 else 5) r w1) else w)"
| "run_event loc (Prepared r ts own) w = (if at_pc 1 r w then goto 2 r (upd_req r (prepare ts own w) w) else w)"
| "run_event loc (BeforeSent r ret) w =
     (if at_pc 2 r w then (case after_before_send r ret w of (go, w1) \<Rightarrow> goto (if go then 3 else 5) r w1) else w)"
| "run_event loc (Chosen r found) w =
     (if at_pc 3 r w then (case choose_transport r found w of (go, w1) \<Rightarrow> goto (if go then 4 else 5) r w1) else w)"
| "run_event loc (Sent r) w = (if at_pc 4 r w then goto 5 r (send r w) else w)"
| "run_event loc (Done r st native rs hdrs) w = done_begin r st native rs hdrs w"
| "run_event loc (Continue r) w = done_next r w"

definition no_requests :: ajaxw where
  "no_requests = \<lparr>reqs = (\<lambda>r. None), active = 0, fired = [], lastModified = [], etags = []\<rparr>"

text \<open>No function that runs for \<open>ajaxSend\<close> completes the request that is about to be sent.\<close>

definition allowed :: "aevent \<Rightarrow> ajaxw \<Rightarrow> bool" where
  "allowed e w \<longleftrightarrow> (case e of Sent r \<Rightarrow> (case reqs w r of Some q \<Rightarrow> rstate q \<noteq> 2 | None \<Rightarrow> True) | _ \<Rightarrow> True)"

inductive ajax_reaches :: "string \<times> string option \<times> string option \<Rightarrow> ajaxw \<Rightarrow> bool" for loc where
  start: "ajax_reaches loc no_requests"
| event: "ajax_reaches loc w \<Longrightarrow> allowed e w \<Longrightarrow> ajax_reaches loc (run_event loc e w)"

section \<open>The global counter\<close>

text \<open>What a request adds to the counter: one from its start to the last stage of its \<open>done\<close>.\<close>

definition weight :: "req \<Rightarrow> int" where
  "weight q = (if fireGlobals q then (if rstate q = 2 then int (length (doneRuns q)) else 1) else 0)"

definition req_ok :: "req \<Rightarrow> bool" where
  "req_ok q \<longleftrightarrow> (rstate q \<noteq> 2 \<longrightarrow> doneRuns q = [] \<and> deferred q = None) \<and> (rstate q = 2 \<longrightarrow> deferred q \<noteq> None) \<and>
     (pc q = 0 \<longrightarrow> \<not> fireGlobals q) \<and> length (doneRuns q) \<le> 1 \<and> (\<not> fireGlobals q \<longrightarrow> (\<forall>x\<in>set (doneRuns q). fst x \<le> 2))"

definition total :: "ajaxw \<Rightarrow> int" where
  "total w = (\<Sum>r\<in>dom (reqs w). weight (the (reqs w r)))"

definition ajax_inv :: "ajaxw \<Rightarrow> bool" where
  "ajax_inv w \<longleftrightarrow> finite (dom (reqs w)) \<and> (\<forall>r q. reqs w r = Some q \<longrightarrow> req_ok q) \<and> active w = total w"

lemma total_upd:
  assumes "finite (dom (reqs w))" and "reqs w r = Some q" and "reqs w' = (reqs w)(r := Some q')"
  shows "total w' = total w - weight q + weight q'"
proof -
  have d: "dom (reqs w') = dom (reqs w)" using assms(2,3) by auto
  have r: "r \<in> dom (reqs w)" using assms(2) by auto
  have "total w' = weight q' + (\<Sum>x\<in>dom (reqs w) - {r}. weight (the (reqs w' x)))"
    unfolding total_def d using sum.remove[OF assms(1) r, of "\<lambda>x. weight (the (reqs w' x))"] assms(3) by simp
  also have "(\<Sum>x\<in>dom (reqs w) - {r}. weight (the (reqs w' x))) = (\<Sum>x\<in>dom (reqs w) - {r}. weight (the (reqs w x)))"
    by (rule sum.cong) (auto simp: assms(3))
  also have "\<dots> = total w - weight q"
    unfolding total_def using sum.remove[OF assms(1) r, of "\<lambda>x. weight (the (reqs w x))"] assms(2) by simp
  finally show ?thesis by simp
qed

lemma inv_step:
  assumes inv: "ajax_inv w" and q: "reqs w r = Some q" and w': "reqs w' = (reqs w)(r := Some q')"
    and ok: "req_ok q'" and act: "active w' = active w - weight q + weight q'"
  shows "ajax_inv w'"
proof -
  have fin: "finite (dom (reqs w))" using inv by (simp add: ajax_inv_def)
  have "total w' = total w - weight q + weight q'" by (rule total_upd[OF fin q w'])
  moreover have "finite (dom (reqs w'))" using fin unfolding w' by simp
  moreover have "req_ok x" if "reqs w' y = Some x" for x y
  proof (cases "y = r")
    case True
    with that ok w' show ?thesis by simp
  next
    case False
    with that w' have "reqs w y = Some x" by simp
    then show ?thesis using inv unfolding ajax_inv_def by blast
  qed
  ultimately show ?thesis using inv act unfolding ajax_inv_def by simp
qed

lemma inv_req: "ajax_inv w \<Longrightarrow> reqs w r = Some q \<Longrightarrow> req_ok q"
  unfolding ajax_inv_def by blast

lemma upd_req_reqs [simp]: "reqs w r = Some q \<Longrightarrow> reqs (upd_req r f w) = (reqs w)(r := Some (f q))"
  and upd_req_active [simp]: "active (upd_req r f w) = active w"
  by (simp_all add: upd_req_def)

lemma fire_frame [simp]: "reqs (fire e r w) = reqs w" "active (fire e r w) = active w"
  by (simp_all add: fire_def)

lemma inv_upd:
  assumes "ajax_inv w" and "\<And>q. req_ok q \<Longrightarrow> req_ok (f q) \<and> weight (f q) = weight q"
  shows "ajax_inv (upd_req r f w)"
proof (cases "reqs w r")
  case None
  then have "upd_req r f w = w" by (simp add: upd_req_def fun_upd_idem)
  with assms show ?thesis by simp
next
  case (Some q)
  have f: "req_ok (f q) \<and> weight (f q) = weight q" by (rule assms(2)[OF inv_req[OF assms(1) Some]])
  show ?thesis
    by (rule inv_step[OF assms(1) Some, of _ "f q"]) (use f Some in simp_all)
qed

lemma note_modified_frame [simp]: "reqs (note_modified q w) = reqs w" "active (note_modified q w) = active w"
  by (auto simp: note_modified_def Let_def split: option.splits)

lemma done_facts:
  assumes "req_ok q" and "rstate q \<noteq> 2"
  shows "req_ok (done_settle st native rs (done_start st hdrs q)) \<and>
    weight (done_settle st native rs (done_start st hdrs q)) = weight q \<and>
    deferred (done_settle st native rs (done_start st hdrs q)) \<noteq> None"
  using assms by (simp add: req_ok_def weight_def done_settle_def done_start_def Let_def)

lemma inv_done_begin:
  assumes inv: "ajax_inv w" shows "ajax_inv (done_begin r st native rs hdrs w)"
proof (cases "reqs w r")
  case (Some q)
  show ?thesis
  proof (cases "rstate q = 2")
    case False
    note d = done_facts[OF inv_req[OF inv Some] False, of st native rs hdrs]
    show ?thesis
      by (rule inv_step[OF inv Some, of _ "done_settle st native rs (done_start st hdrs q)"])
        (use d Some False in \<open>simp_all add: done_begin_def Let_def\<close>)
  qed (use Some inv in \<open>simp add: done_begin_def\<close>)
qed (use inv in \<open>simp add: done_begin_def\<close>)

lemma inv_done_next:
  assumes inv: "ajax_inv w" shows "ajax_inv (done_next r w)"
proof (cases "reqs w r")
  case (Some q)
  have ok: "req_ok q" by (rule inv_req[OF inv Some])
  show ?thesis
  proof (cases "doneRuns q")
    case (Cons x runs)
    obtain n ok' where x: "x = (n, ok')" by (cases x)
    have st: "rstate q = 2" "runs = []" using ok Cons by (auto simp: req_ok_def)
    let ?q = "\<lambda>l. q\<lparr>doneRuns := l\<rparr>"
    consider "n = 0" | "n = 1" | "n = 2" | "n > 2" by linarith
    then show ?thesis
    proof cases
      case 1
      show ?thesis
        by (rule inv_step[OF inv Some, of _ "?q [(1, ok')]"])
          (use 1 ok Cons x st Some in \<open>auto simp: done_next_def Let_def req_ok_def weight_def\<close>)
    next
      case 2
      show ?thesis
        by (rule inv_step[OF inv Some, of _ "q\<lparr>completed := True, doneRuns := [(2, ok')]\<rparr>"])
          (use 2 ok Cons x st Some in \<open>auto simp: done_next_def Let_def req_ok_def weight_def\<close>)
    next
      case 3
      show ?thesis
        by (rule inv_step[OF inv Some, of _ "?q (if fireGlobals q then [(3, ok')] else [])"])
          (use 3 ok Cons x st Some in \<open>auto simp: done_next_def Let_def req_ok_def weight_def\<close>)
    next
      case 4
      then have g: "fireGlobals q" using ok Cons x by (auto simp: req_ok_def)
      show ?thesis
        by (rule inv_step[OF inv Some, of _ "?q []"])
          (use 4 g ok Cons x st Some in \<open>auto simp: done_next_def Let_def req_ok_def weight_def\<close>)
    qed
  qed (use Some inv in \<open>simp add: done_next_def\<close>)
qed (use inv in \<open>simp add: done_next_def\<close>)

lemma inv_goto: "ajax_inv w \<Longrightarrow> 0 < n \<Longrightarrow> ajax_inv (goto n r w)"
  unfolding goto_def by (rule inv_upd) (auto simp: req_ok_def weight_def)

lemma set_header_frame [simp]:
  "rstate (setRequestHeader n v q) = rstate q" "fireGlobals (setRequestHeader n v q) = fireGlobals q"
  "doneRuns (setRequestHeader n v q) = doneRuns q" "deferred (setRequestHeader n v q) = deferred q"
  "pc (setRequestHeader n v q) = pc q"
  by (simp_all add: setRequestHeader_def)

lemma same_life:
  assumes "rstate q' = rstate q" "fireGlobals q' = fireGlobals q" "doneRuns q' = doneRuns q" "deferred q' = deferred q" "pc q' = pc q"
  shows "req_ok q' = req_ok q" "weight q' = weight q"
  using assms by (simp_all add: req_ok_def weight_def)

lemma fold_header_frame:
  "rstate (fold (\<lambda>(n, v). setRequestHeader n v) hs q) = rstate q"
  "fireGlobals (fold (\<lambda>(n, v). setRequestHeader n v) hs q) = fireGlobals q"
  "doneRuns (fold (\<lambda>(n, v). setRequestHeader n v) hs q) = doneRuns q"
  "deferred (fold (\<lambda>(n, v). setRequestHeader n v) hs q) = deferred q"
  "pc (fold (\<lambda>(n, v). setRequestHeader n v) hs q) = pc q"
  by (induction hs arbitrary: q) (simp_all add: case_prod_beta)

lemma modified_headers_frame:
  "rstate (modified_headers w k q) = rstate q" "fireGlobals (modified_headers w k q) = fireGlobals q"
  "doneRuns (modified_headers w k q) = doneRuns q" "deferred (modified_headers w k q) = deferred q"
  "pc (modified_headers w k q) = pc q"
  by (simp_all add: modified_headers_def Let_def split: option.split)

lemma prepare_frame:
  "rstate (prepare ts own w q) = rstate q" "fireGlobals (prepare ts own w q) = fireGlobals q"
  "doneRuns (prepare ts own w q) = doneRuns q" "deferred (prepare ts own w q) = deferred q" "pc (prepare ts own w q) = pc q"
  by (simp_all add: prepare_def Let_def case_prod_beta fold_header_frame modified_headers_frame)

lemma inv_prefiltered:
  assumes inv: "ajax_inv w" and at: "at_pc 0 r w"
  shows "ajax_inv (case after_prefilters r w of (go, w1) \<Rightarrow> goto (if go then 1 else 5) r w1)"
proof -
  obtain q where q: "reqs w r = Some q" "pc q = 0" using at by (auto simp: at_pc_def split: option.splits)
  have ok: "req_ok q" by (rule inv_req[OF inv q(1)])
  then have g: "\<not> fireGlobals q" using q(2) by (simp add: req_ok_def)
  show ?thesis
  proof (cases "rstate q = 2")
    case True
    then show ?thesis using q inv inv_goto[OF inv, of 5 r] by (simp add: after_prefilters_def)
  next
    case False
    let ?g = "global (rset q)"
    let ?q = "q\<lparr>fireGlobals := ?g, rset := (rset q)\<lparr>atype := to_upper (atype (rset q))\<rparr>, pc := 1\<rparr>"
    have "req_ok ?q" using ok False by (simp add: req_ok_def)
    moreover have "weight ?q = (if ?g then 1 else 0)" "weight q = 0" using g False by (simp_all add: weight_def)
    ultimately show ?thesis
      using q False
      by (intro inv_step[OF inv q(1), of _ ?q]) (auto simp: after_prefilters_def goto_def Let_def)
  qed
qed

lemma goto_none: "reqs w r = None \<Longrightarrow> goto n r w = w"
  by (simp add: goto_def upd_req_def fun_upd_idem)

lemma inv_before_sent:
  assumes inv: "ajax_inv w"
  shows "ajax_inv (case after_before_send r ret w of (go, w1) \<Rightarrow> goto (if go then 3 else 5) r w1)"
  using inv_goto[OF inv, of 3 r] inv_goto[OF inv, of 5 r] inv_goto[OF inv_done_begin[OF inv], of 5 r]
  by (auto simp: after_before_send_def abort_def split: option.splits)

lemma inv_chosen:
  assumes inv: "ajax_inv w"
  shows "ajax_inv (case choose_transport r found w of (go, w1) \<Rightarrow> goto (if go then 4 else 5) r w1)"
proof (cases "reqs w r")
  case None
  then show ?thesis using inv by (simp add: choose_transport_def goto_none)
next
  case (Some q)
  show ?thesis
  proof (cases found)
    case False
    then show ?thesis using Some inv_goto[OF inv_done_begin[OF inv], of 5 r] by (simp add: choose_transport_def)
  next
    case True
    let ?w = "upd_req r (\<lambda>q. q\<lparr>readyState := 1, hasTransport := True\<rparr>) w"
    have 1: "ajax_inv ?w" by (rule inv_upd[OF inv]) (simp add: req_ok_def weight_def)
    have "ajax_inv (fire ''ajaxSend'' (Some r) ?w)" using 1 by (simp add: ajax_inv_def total_def)
    with 1 have "ajax_inv (if fireGlobals q then fire ''ajaxSend'' (Some r) ?w else ?w)" by simp
    then have "ajax_inv (goto 4 r (if fireGlobals q then fire ''ajaxSend'' (Some r) ?w else ?w))" by (rule inv_goto) simp
    then show ?thesis using Some True by (simp add: choose_transport_def Let_def del: One_nat_def)
  qed
qed

lemma inv_sent:
  assumes inv: "ajax_inv w" and "allowed (Sent r) w"
  shows "ajax_inv (goto 5 r (send r w))"
proof (cases "reqs w r")
  case None
  then show ?thesis using inv by (simp add: send_def goto_none)
next
  case (Some q)
  then have st: "rstate q \<noteq> 2" using assms(2) by (simp add: allowed_def)
  let ?f = "\<lambda>q. q\<lparr>timerSet := (async (rset q) \<and> 0 < timeout (rset q)), rstate := 1\<rparr>"
  have ok: "req_ok q" by (rule inv_req[OF inv Some])
  have 1: "ajax_inv (upd_req r ?f w)"
    by (rule inv_step[OF inv Some, of _ "?f q"]) (use st ok Some in \<open>auto simp: req_ok_def weight_def\<close>)
  show ?thesis using Some inv_goto[OF 1, of 5 r] inv_goto[OF inv_done_begin[OF 1], of 5 r] by (simp add: send_def Let_def del: One_nat_def)
qed

lemma inv_new:
  assumes inv: "ajax_inv w" and none: "reqs w r = None"
  shows "ajax_inv (w\<lparr>reqs := (reqs w)(r := Some (make_req loc u dt s))\<rparr>)"
proof -
  let ?q = "make_req loc u dt s"
  let ?w = "w\<lparr>reqs := (reqs w)(r := Some ?q)\<rparr>"
  have fin: "finite (dom (reqs w))" using inv by (simp add: ajax_inv_def)
  have ok: "req_ok ?q" "weight ?q = 0" by (simp_all add: make_req_def req_ok_def weight_def Let_def)
  have "total ?w = total w"
  proof -
    have "dom (reqs ?w) = insert r (dom (reqs w))" by simp
    moreover have "r \<notin> dom (reqs w)" using none by auto
    ultimately have "total ?w = weight ?q + (\<Sum>x\<in>dom (reqs w). weight (the (reqs ?w x)))"
      using fin by (simp add: total_def)
    also have "(\<Sum>x\<in>dom (reqs w). weight (the (reqs ?w x))) = total w"
      unfolding total_def by (rule sum.cong) (use none in auto)
    finally show ?thesis using ok(2) by (simp add: fun_upd_def)
  qed
  moreover have "req_ok x" if "reqs ?w y = Some x" for x y
    using that ok(1) inv unfolding ajax_inv_def by (cases "y = r") auto
  ultimately show ?thesis using inv fin unfolding ajax_inv_def by simp
qed

lemma inv_event:
  assumes inv: "ajax_inv w" and al: "allowed e w"
  shows "ajax_inv (run_event loc e w)"
proof (cases e)
  case (New r u dt s)
  then show ?thesis using inv inv_new[OF inv, of r] by simp
next
  case (Edit r s)
  have "ajax_inv (upd_req r (\<lambda>q. q\<lparr>rset := s\<rparr>) w)" by (rule inv_upd[OF inv]) (simp add: req_ok_def weight_def)
  with Edit show ?thesis by simp
next
  case (Prefiltered r)
  then show ?thesis using inv inv_prefiltered[OF inv, of r] by simp
next
  case (Prepared r ts own)
  have "ajax_inv (upd_req r (prepare ts own w) w)"
    by (rule inv_upd[OF inv]) (simp add: same_life[OF prepare_frame])
  then show ?thesis using inv Prepared inv_goto[of _ 2 r] by simp
next
  case (BeforeSent r ret)
  then show ?thesis using inv inv_before_sent[OF inv, of r ret] by simp
next
  case (Chosen r found)
  then show ?thesis using inv inv_chosen[OF inv, of r found] by simp
next
  case (Sent r)
  then show ?thesis using inv inv_sent[OF inv, of r] al by simp
next
  case (Done r st native rs hdrs)
  then show ?thesis using inv_done_begin[OF inv] by simp
next
  case (Continue r)
  then show ?thesis using inv_done_next[OF inv] by simp
qed

lemma reaches_inv: "ajax_reaches loc w \<Longrightarrow> ajax_inv w"
proof (induction rule: ajax_reaches.induct)
  case start
  then show ?case by (simp add: no_requests_def ajax_inv_def total_def)
next
  case (event w e)
  then show ?case using inv_event by blast
qed

lemma weight_nonneg: "0 \<le> weight q"
  by (simp add: weight_def)

text \<open>A request that runs: it takes part in global events, and is not done or its \<open>done\<close> has stages left.\<close>

definition running :: "req \<Rightarrow> bool" where
  "running q \<longleftrightarrow> fireGlobals q \<and> (rstate q \<noteq> 2 \<or> doneRuns q \<noteq> [])"

lemma weight_running: "req_ok q \<Longrightarrow> weight q = (if running q then 1 else 0)"
  by (cases "doneRuns q") (auto simp: weight_def running_def req_ok_def)

text \<open>
  C32: whatever requests are started, sent, aborted and completed, in any order and however the running
  calls of \<open>done\<close> interleave, as long as no \<open>ajaxSend\<close> handler completes the request that is being
  sent: \<open>jQuery.active\<close> is the number of requests with global events that were started and whose last
  stage has not run (so it is never negative), and every request is settled exactly when it is done.
\<close>

theorem active_counts_running_requests:
  assumes "ajax_reaches loc w"
  shows "active w = int (card {r. \<exists>q. reqs w r = Some q \<and> running q}) \<and>
    (\<forall>r q. reqs w r = Some q \<longrightarrow> (deferred q \<noteq> None) = (rstate q = 2))"
proof -
  have inv: "ajax_inv w" by (rule reaches_inv[OF assms])
  have fin: "finite (dom (reqs w))" and act: "active w = total w" using inv by (simp_all add: ajax_inv_def)
  let ?R = "{r. \<exists>q. reqs w r = Some q \<and> running q}"
  have sub: "?R \<subseteq> dom (reqs w)" by auto
  have "total w = (\<Sum>r\<in>dom (reqs w). if r \<in> ?R then 1 else 0)"
    unfolding total_def by (rule sum.cong) (auto simp: weight_running inv_req[OF inv])
  also have "\<dots> = int (card ?R)" using fin sub by (simp add: sum.If_cases Int_absorb1)
  finally have "active w = int (card ?R)" using act by simp
  moreover have "(deferred q \<noteq> None) = (rstate q = 2)" if "reqs w r = Some q" for r q
    using inv_req[OF inv that] unfolding req_ok_def by (cases "rstate q = 2") simp_all
  ultimately show ?thesis by blast
qed

text \<open>
  C?: a handler of \<open>ajaxSend\<close> that aborts its request makes the counter wrong for good: \<open>ajax\<close> sets the state
  back to 1 and calls \<open>send\<close> on no transport, the exception reaches \<open>done\<close>, which runs a second
  time, and the counter, that was 0 before the request, is -1 after it.
\<close>

definition run_events :: "string \<times> string option \<times> string option \<Rightarrow> aevent list \<Rightarrow> ajaxw \<Rightarrow> ajaxw" where
  "run_events loc es w = fold (run_event loc) es w"

definition abort_in_send :: "nat \<Rightarrow> settings \<Rightarrow> aevent list" where
  "abort_in_send r s = [New r None None s, Prefiltered r, Prepared r ''0'' False, BeforeSent r True, Chosen r True,
     Done r 0 ''abort'' None [], Continue r, Continue r, Continue r, Continue r,
     Sent r, Continue r, Continue r, Continue r, Continue r]"


lemma done_begin_first:
  "reqs w r = Some q \<Longrightarrow> rstate q \<noteq> 2 \<Longrightarrow> \<not> is_success st \<Longrightarrow>
    done_begin r st native rs hdrs w = w\<lparr>reqs := (reqs w)(r := Some (done_settle st native rs (done_start st hdrs q)))\<rparr>"
  by (simp add: done_begin_def Let_def)

lemma settle_runs:
  "doneRuns (done_settle st native rs q) = (0, fst (outcome_of ((rset q)\<lparr>dataTypes := fst (done_response rs q)\<rparr>) st native (done_response rs q))) # doneRuns q"
  "fireGlobals (done_settle st native rs q) = fireGlobals q" "rstate (done_settle st native rs q) = rstate q"
  "hasTransport (done_settle st native rs q) = hasTransport q" "pc (done_settle st native rs q) = pc q"
  by (simp_all add: done_settle_def Let_def)

text \<open>The four stages of one running call.\<close>

lemma done_four:
  assumes "reqs w r = Some q" and "doneRuns q = [(0, ok)]" and "fireGlobals q"
  shows "\<exists>w' q'. fold (run_event loc) [Continue r, Continue r, Continue r, Continue r] w = w' \<and> reqs w' r = Some q' \<and>
    active w' = active w - 1 \<and> doneRuns q' = [] \<and> fireGlobals q' \<and> rstate q' = rstate q \<and> hasTransport q' = hasTransport q \<and> pc q' = pc q"
  using assms by (simp add: done_next_def Let_def)

text \<open>What matters of one request here, with the counter.\<close>

definition shows_req :: "nat \<Rightarrow> ajaxw \<Rightarrow> nat \<Rightarrow> nat \<Rightarrow> bool \<Rightarrow> bool \<Rightarrow> (nat \<times> bool) list \<Rightarrow> int \<Rightarrow> bool" where
  "shows_req r w p st fg tr runs act \<longleftrightarrow>
     active w = act \<and> (\<exists>q. reqs w r = Some q \<and> pc q = p \<and> rstate q = st \<and> fireGlobals q = fg \<and> hasTransport q = tr \<and> doneRuns q = runs)"

lemma sr_new:
  "shows_req r (run_event loc (New r None None s) no_requests) 0 0 False False [] 0 \<and>
   global (rset (the (reqs (run_event loc (New r None None s) no_requests) r))) = global s"
  by (simp add: shows_req_def no_requests_def make_req_def Let_def)

lemma sr_prefiltered:
  assumes "shows_req r w 0 0 False False [] 0" and "global (rset (the (reqs w r)))"
  shows "shows_req r (run_event loc (Prefiltered r) w) 1 0 True False [] 1"
  using assms by (auto simp: shows_req_def at_pc_def after_prefilters_def goto_def Let_def)

lemma sr_prepared:
  "shows_req r w 1 0 True False [] a \<Longrightarrow> shows_req r (run_event loc (Prepared r ts own) w) 2 0 True False [] a"
proof -
  have "hasTransport (fold (\<lambda>(n, v). setRequestHeader n v) hs q) = hasTransport q" for hs q
    by (induction hs arbitrary: q) (simp_all add: case_prod_beta setRequestHeader_def)
  moreover have "hasTransport (setRequestHeader n v q) = hasTransport q" for n v q by (simp add: setRequestHeader_def)
  ultimately have "hasTransport (prepare ts own w q) = hasTransport q" for q
    by (simp add: prepare_def Let_def case_prod_beta modified_headers_def split: option.split)
  then show "shows_req r w 1 0 True False [] a \<Longrightarrow> shows_req r (run_event loc (Prepared r ts own) w) 2 0 True False [] a"
    by (auto simp: shows_req_def at_pc_def goto_def prepare_frame)
qed

lemma sr_before:
  "shows_req r w 2 0 True False [] a \<Longrightarrow> shows_req r (run_event loc (BeforeSent r True) w) 3 0 True False [] a"
  by (auto simp: shows_req_def at_pc_def goto_def after_before_send_def)

lemma sr_chosen:
  "shows_req r w 3 0 True False [] a \<Longrightarrow> shows_req r (run_event loc (Chosen r True) w) 4 0 True True [] a"
  by (auto simp: shows_req_def at_pc_def goto_def choose_transport_def Let_def)

lemma sr_abort:
  assumes "shows_req r w p st True tr [] a" and "st \<noteq> 2" and "\<not> is_success n"
  shows "\<exists>ok. shows_req r (done_begin r n txt None [] w) p 2 True False [(0, ok)] a"
proof -
  obtain q where q: "reqs w r = Some q" "pc q = p" "rstate q = st" "fireGlobals q" "doneRuns q = []" "active w = a"
    using assms(1) unfolding shows_req_def by auto
  have st2: "rstate q \<noteq> 2" using q(3) assms(2) by simp
  note d = done_begin_first[OF q(1) st2 assms(3), of "txt" None "[]"]
  show ?thesis
    unfolding d shows_req_def using q by (simp add: settle_runs done_start_def)
qed

lemma sr_four:
  assumes "shows_req r w p st True tr [(0, ok)] a"
  shows "shows_req r (fold (run_event loc) [Continue r, Continue r, Continue r, Continue r] w) p st True tr [] (a - 1)"
proof -
  obtain q where q: "reqs w r = Some q" "pc q = p" "rstate q = st" "fireGlobals q" "hasTransport q = tr" "doneRuns q = [(0, ok)]" "active w = a"
    using assms unfolding shows_req_def by auto
  from done_four[OF q(1,6,4), of loc] q show ?thesis unfolding shows_req_def by auto
qed

lemma sr_sent:
  assumes "shows_req r w 4 2 True False [] a"
  shows "\<exists>ok. shows_req r (run_event loc (Sent r) w) 5 2 True False [(0, ok)] a"
proof -
  obtain q where q: "reqs w r = Some q" "pc q = 4" "rstate q = 2" "fireGlobals q" "hasTransport q = False" "doneRuns q = []" "active w = a"
    using assms unfolding shows_req_def by auto
  let ?w = "upd_req r (\<lambda>q. q\<lparr>timerSet := (async (rset q) \<and> 0 < timeout (rset q)), rstate := 1\<rparr>) w"
  have "shows_req r ?w 4 1 True False [] a" using q by (simp add: shows_req_def)
  then obtain ok where "shows_req r (done_begin r (-1) ''TypeError'' None [] ?w) 4 2 True False [(0, ok)] a"
    using sr_abort[of r ?w 4 1 False a "-1" "''TypeError''"] by (auto simp: is_success_def)
  then have "shows_req r (goto 5 r (done_begin r (-1) ''TypeError'' None [] ?w)) 5 2 True False [(0, ok)] a"
    by (auto simp: shows_req_def goto_def)
  then show ?thesis using q by (auto simp: at_pc_def send_def Let_def simp del: One_nat_def)
qed

text \<open>
  A handler of \<open>ajaxSend\<close> that aborts its request makes the counter wrong for good: \<open>ajax\<close> sets the state
  back to 1 and calls \<open>send\<close> on no transport, the exception reaches \<open>done\<close>, which runs a second
  time, and the counter, that was 0 before the request, is -1 after it.
\<close>

theorem abort_in_ajaxSend_breaks_the_counter:
  assumes g: "global s"
  shows "active (run_events loc (abort_in_send r s) no_requests) = - 1"
proof -
  let ?c = "[Continue r, Continue r, Continue r, Continue r]" and ?ev = "run_event loc"
  define w1 where "w1 = ?ev (New r None None s) no_requests"
  define w2 where "w2 = ?ev (Chosen r True) (?ev (BeforeSent r True) (?ev (Prepared r ''0'' False) (?ev (Prefiltered r) w1)))"
  define w3 where "w3 = fold ?ev ?c (?ev (Done r 0 ''abort'' None []) w2)"
  define w4 where "w4 = fold ?ev ?c (?ev (Sent r) w3)"
  have e: "run_events loc (abort_in_send r s) no_requests = w4"
    by (simp add: run_events_def abort_in_send_def w1_def w2_def w3_def w4_def)
  have "shows_req r w1 0 0 False False [] 0" "global (rset (the (reqs w1 r)))" using sr_new[of r loc s] g by (simp_all add: w1_def)
  then have "shows_req r w2 4 0 True True [] 1"
    unfolding w2_def by (intro sr_chosen sr_before sr_prepared sr_prefiltered)
  then obtain ok where "shows_req r (?ev (Done r 0 ''abort'' None []) w2) 4 2 True False [(0, ok)] 1"
    using sr_abort[of r w2 4 0 True 1 0 "''abort''"] by (auto simp: is_success_def)
  then have "shows_req r w3 4 2 True False [] 0" unfolding w3_def using sr_four[of r _ 4 2 False ok 1 loc] by simp
  then obtain ok2 where "shows_req r (?ev (Sent r) w3) 5 2 True False [(0, ok2)] 0" using sr_sent by blast
  then have "shows_req r w4 5 2 True False [] (- 1)" unfolding w4_def using sr_four[of r _ 5 2 False ok2 0 loc] by simp
  then show ?thesis unfolding e shows_req_def by blast
qed

section \<open>Witnesses\<close>

definition some_settings :: settings where
  "some_settings = \<lparr>url = ''/x'', atype = ''GET'', dataTypes = [], sdata = None, global = True, cache = None, ifModified = False,
     contentType = None, mimeType = None, crossDomain = None, headers = [], accepts = [], contents = [], responseFields = [],
     converters = [(''* text'', Same), (''text html'', Same), (''text json'', Conv Inr)], dataFilter = None, async = True, timeout = 0\<rparr>"

definition some_location :: "string \<times> string option \<times> string option" where
  "some_location = (''http:'', Some ''localhost'', None)"

theorem inspection_ends_witness:
  "inspectPrefiltersOrTransports 8 [(''json'', [1]), (''script'', [2])]
     (\<lambda>f s. (if f = 1 then Redirect ''script'' else Redirect ''json'', s)) True [''json''] () \<noteq> None"
  by (rule inspection_ends) (simp_all add: keeps_insp_def)

theorem conversion_fails_without_path_witness:
  "ajaxConvert some_settings [''html'', ''xml''] (Num 1) = Inl (NoConversion ''html to xml'')"
proof -
  have k: "map lower_char ''* text'' = ''* text''" "map lower_char ''text html'' = ''text html''" "map lower_char ''text json'' = ''text json''"
    by code_simp+
  have l: "lower_keys (converters some_settings) = converters some_settings"
    unfolding lower_keys_def some_settings_def settings.simps fold.simps comp_def prod.case k by simp
  have sep: "\<exists>a b. u @ '' '' @ v = a @ '' '' @ b \<and> sp \<notin> set a \<and> sp \<notin> set b" if "sp \<notin> set u" "sp \<notin> set v" for u v
    using that by blast
  have wk: "well_keyed (lower_keys (converters some_settings))"
    unfolding l using sep[of "''*''" "''text''"] sep[of "''text''" "''html''"] sep[of "''text''" "''json''"]
    by (simp add: some_settings_def well_keyed_def)
  have "converter_for (lower_keys (converters some_settings)) ''html'' ''xml'' = None"
    unfolding l by (simp add: converter_for_def some_settings_def)
  then have "\<forall>x\<in>{''html'', ''*''}. \<not> has_conv (lower_keys (converters some_settings)) x ''xml'' \<and>
    (\<forall>c. sp \<notin> set c \<longrightarrow> has_conv (lower_keys (converters some_settings)) x c \<longrightarrow> \<not> has_conv (lower_keys (converters some_settings)) c ''xml'')"
    using converter_none[OF wk, of "''html''" "''xml''"] by simp
  then show ?thesis using conversion_fails_without_path[OF wk, of "''html''" "''xml''" "Num 1"] by simp
qed

theorem active_counts_running_requests_witness:
  "let w = run_event some_location (Prefiltered 3) (run_event some_location (New 3 None None some_settings) no_requests)
   in active w = 1 \<and> int (card {r. \<exists>q. reqs w r = Some q \<and> running q}) = 1"
proof -
  let ?w1 = "run_event some_location (New 3 None None some_settings) no_requests"
  let ?w = "run_event some_location (Prefiltered 3) ?w1"
  have "ajax_reaches some_location ?w1" by (rule ajax_reaches.event[OF ajax_reaches.start]) (simp add: allowed_def)
  then have r: "ajax_reaches some_location ?w" by (rule ajax_reaches.event) (simp add: allowed_def)
  have "active ?w = 1"
    by (simp add: no_requests_def at_pc_def after_prefilters_def make_req_def some_settings_def Let_def goto_def upd_req_def fire_def)
  with active_counts_running_requests[OF r] show ?thesis by (simp add: Let_def)
qed

theorem abort_in_ajaxSend_breaks_the_counter_witness:
  "active (run_events some_location (abort_in_send 0 some_settings) no_requests) = - 1"
  by (rule abort_in_ajaxSend_breaks_the_counter) (simp add: some_settings_def)

end
