(* ===== verification/JQ_Transport.thy ===== *)
theory JQ_Transport
  imports JQ_Ajax JQ_Regex
begin

text \<open>
  The transports of jquery-1.6.4.js: requests by XMLHttpRequest with the table of their callbacks, the
  element that loads a script, and the prefilter and the life of jsonp requests.

  What the objects of the browser answer is part of the state and changes by events: a property that is
  read gives a value or throws. \<open>complete\<close>, the callback of the request, is called at the end of each
  operation and is recorded; \<open>JQ_Ajax\<close> models what it does.
\<close>

section \<open>Requests of the browser\<close>

datatype 'a read = Reads 'a | Throws string

record answers = \<comment> \<open>what an XMLHttpRequest answers\<close>
  a_ready :: "nat read"
  a_status :: "int read"
  a_headers :: "string read"
  a_xml :: "jsval option read" \<comment> \<open>a document with a root, or not\<close>
  a_text :: "string read"
  a_statusText :: "string read"
  a_abort :: "unit read"

record xhr =
  opened :: "string \<times> string \<times> bool \<times> (string \<times> string option) option" \<comment> \<open>type, address, async, name and password\<close>
  xfields :: "jsval props"
  xmime :: "string option"
  sent_headers :: "string props"
  sent_body :: "string option"
  listening :: bool \<comment> \<open>\<open>onreadystatechange\<close> is the callback, not \<open>noop\<close>\<close>
  xaborted :: bool
  ans :: answers

record tsettings = settings +
  username :: "string option"
  password :: "string option"
  xhrFields :: "jsval props"
  isLocal :: bool
  scriptCharset :: "string option"

record completion =
  c_status :: "int option"
  c_text :: "string option"
  c_responses :: "jsval props option"
  c_headers :: "string option"

record port = \<comment> \<open>one transport object with the variables of its closures\<close>
  pset :: tsettings
  pcallback :: bool \<comment> \<open>\<open>callback\<close> is set\<close>
  phandle :: "nat option"
  pxhr :: "xhr option"
  completions :: "completion list"

record xworld =
  ports :: "nat \<Rightarrow> port option"
  unloadAbort :: bool \<comment> \<open>\<open>xhrOnUnloadAbort\<close> is a function: the browser has \<open>ActiveXObject\<close>\<close>
  xhrId :: nat
  xhrCallbacks :: "(nat \<times> nat) list option" \<comment> \<open>handles and the transports of their callbacks\<close>
  unloadBound :: nat \<comment> \<open>how often the handler of \<open>unload\<close> has been bound\<close>

definition upd_port :: "nat \<Rightarrow> (port \<Rightarrow> port) \<Rightarrow> xworld \<Rightarrow> xworld" where
  "upd_port p f w = w\<lparr>ports := (ports w)(p := map_option f (ports w p))\<rparr>"

definition on_xhr :: "(xhr \<Rightarrow> xhr) \<Rightarrow> port \<Rightarrow> port" where
  "on_xhr f q = q\<lparr>pxhr := map_option f (pxhr q)\<rparr>"

definition given :: "string option \<Rightarrow> bool" where
  "given s \<longleftrightarrow> s \<noteq> None \<and> s \<noteq> Some []"

text \<open>The transport answers when the request stays on the site or the browser can cross it.\<close>

definition xhr_transport :: "bool \<Rightarrow> tsettings \<Rightarrow> port option" where
  "xhr_transport cors s =
     (if crossDomain s \<noteq> Some True \<or> cors
      then Some \<lparr>pset = s, pcallback = False, phandle = None, pxhr = None, completions = []\<rparr> else None)"

section \<open>The callback\<close>

text \<open>A completed response: filtered status, text, responses and headers, or what was read before a read threw.\<close>

definition filter_status :: "tsettings \<Rightarrow> jsval props \<Rightarrow> int \<Rightarrow> int" where
  "filter_status s rs st =
     (if st = 0 \<and> isLocal s \<and> crossDomain s \<noteq> Some True then (if truthy (pget rs ''text'') then 200 else 404)
      else if st = 1223 then 204 else st)"

definition no_response :: completion where
  "no_response = \<lparr>c_status = None, c_text = None, c_responses = None, c_headers = None\<rparr>"

text \<open>The reads in the order of the code, with what has been assigned when one throws.\<close>

definition read_response :: "tsettings \<Rightarrow> answers \<Rightarrow> completion \<times> string option" where
  "read_response s a =
     (case a_status a of
        Throws e \<Rightarrow> (no_response, Some e)
      | Reads st \<Rightarrow>
          (case a_headers a of
             Throws e \<Rightarrow> (no_response\<lparr>c_status := Some st\<rparr>, Some e)
           | Reads hs \<Rightarrow>
               let c1 = no_response\<lparr>c_status := Some st, c_headers := Some hs, c_responses := Some []\<rparr>
               in case a_xml a of
                    Throws e \<Rightarrow> (c1, Some e)
                  | Reads xml \<Rightarrow>
                      let rs = (case xml of Some x \<Rightarrow> [(''xml'', x)] | None \<Rightarrow> []); c2 = c1\<lparr>c_responses := Some rs\<rparr>
                      in case a_text a of
                           Throws e \<Rightarrow> (c2, Some e)
                         | Reads t \<Rightarrow>
                             let rs2 = rs @ [(''text'', Str t)]
                             in (c2\<lparr>c_responses := Some rs2, c_status := Some (filter_status s rs2 st),
                                   c_text := Some (case a_statusText a of Reads x \<Rightarrow> x | Throws e \<Rightarrow> [])\<rparr>, None)))"

text \<open>The calls of \<open>complete\<close>: for an exception, and whenever responses have been assigned.\<close>

definition completions_of :: "completion \<times> string option \<Rightarrow> completion list" where
  "completions_of r =
     (case snd r of Some e \<Rightarrow> [no_response\<lparr>c_status := Some (-1), c_text := Some e\<rparr>] | None \<Rightarrow> []) @
     (if c_responses (fst r) \<noteq> None then [fst r] else [])"

text \<open>The request is not active any more: \<open>callback\<close> is cleared, and a handle is given up.\<close>

definition retire :: "nat \<Rightarrow> xworld \<Rightarrow> xworld" where
  "retire p w =
     (case ports w p of
        None \<Rightarrow> w
      | Some q \<Rightarrow>
          let w1 = upd_port p (\<lambda>q. q\<lparr>pcallback := False\<rparr>) w
          in case phandle q of
               None \<Rightarrow> w1
             | Some h \<Rightarrow>
                 let w2 = upd_port p (on_xhr (\<lambda>x. x\<lparr>listening := False\<rparr>)) w1
                 in if unloadAbort w then w2\<lparr>xhrCallbacks := map_option (AList.delete h) (xhrCallbacks w2)\<rparr> else w2)"

definition abort_xhr :: "xhr \<Rightarrow> xhr" where
  "abort_xhr x =
     (case a_ready (ans x) of
        Throws e \<Rightarrow> x
      | Reads n \<Rightarrow> if n = 4 then x else (case a_abort (ans x) of Reads u \<Rightarrow> x\<lparr>xaborted := True\<rparr> | Throws e \<Rightarrow> x))"

definition complete :: "nat \<Rightarrow> completion list \<Rightarrow> xworld \<Rightarrow> xworld" where
  "complete p cs w = upd_port p (\<lambda>q. q\<lparr>completions := completions q @ cs\<rparr>) w"

definition xhr_callback :: "nat \<Rightarrow> bool \<Rightarrow> xworld \<Rightarrow> xworld" where
  "xhr_callback p isAbort w =
     (case ports w p of
        None \<Rightarrow> w
      | Some q \<Rightarrow>
          (case pxhr q of
             None \<Rightarrow> w
           | Some x \<Rightarrow>
               if \<not> pcallback q then w
               else if isAbort then upd_port p (on_xhr abort_xhr) (retire p w)
               else (case a_ready (ans x) of
                       Throws e \<Rightarrow> complete p (completions_of (no_response, Some e)) w
                     | Reads n \<Rightarrow>
                         if n = 4 then complete p (completions_of (read_response (pset q) (ans x))) (retire p w) else w)))"

section \<open>Sending\<close>

record browser = \<comment> \<open>what the host does during a \<open>send\<close>\<close>
  makes_standard :: bool
  makes_active :: bool
  b_open :: "unit read"
  overrides_mime :: bool
  takes_header :: "string \<Rightarrow> bool"
  b_send :: "unit read"
  after_send :: answers

definition createStandardXHR :: "browser \<Rightarrow> bool" where
  "createStandardXHR b = makes_standard b"

definition createActiveXHR :: "browser \<Rightarrow> bool" where
  "createActiveXHR b = makes_active b"

definition create_xhr :: "bool \<Rightarrow> tsettings \<Rightarrow> browser \<Rightarrow> bool" where
  "create_xhr ie s b = (if ie then \<not> isLocal s \<and> createStandardXHR b \<or> createActiveXHR b else createStandardXHR b)"

definition requested_with :: "tsettings \<Rightarrow> string props \<Rightarrow> string props" where
  "requested_with s hs =
     (if crossDomain s \<noteq> Some True \<and> \<not> given (map_of hs ''X-Requested-With'')
      then AList.update ''X-Requested-With'' ''XMLHttpRequest'' hs else hs)"

definition open_xhr :: "tsettings \<Rightarrow> browser \<Rightarrow> string props \<Rightarrow> xhr" where
  "open_xhr s b hs =
     \<lparr>opened = (atype s, url s, async s,
        if given (username s) then Some (the (username s), password s) else None),
      xfields = xhrFields s, xmime = (if given (mimeType s) \<and> overrides_mime b then mimeType s else None),
      sent_headers = takeWhile (\<lambda>(n, v). takes_header b n) (requested_with s hs),
      sent_body = (if hasContent (settings.truncate s) \<and> given (sdata s) then sdata s else None),
      listening = False, xaborted = False, ans = after_send b\<rparr>"

text \<open>A request that goes on: it takes a number, enters the table for \<open>unload\<close> and listens.\<close>

definition register :: "nat \<Rightarrow> xworld \<Rightarrow> xworld" where
  "register p w =
     (let h = Suc (xhrId w);
          w1 = w\<lparr>xhrId := h\<rparr>;
          w2 = (if unloadAbort w
                then (let w3 = (if xhrCallbacks w1 = None then w1\<lparr>xhrCallbacks := Some [], unloadBound := unloadBound w1 + 1\<rparr> else w1)
                      in w3\<lparr>xhrCallbacks := map_option (AList.update h p) (xhrCallbacks w3)\<rparr>)
                else w1)
      in upd_port p (\<lambda>q. on_xhr (\<lambda>x. x\<lparr>listening := True\<rparr>) (q\<lparr>phandle := Some h\<rparr>)) w2)"

definition xhr_send :: "nat \<Rightarrow> browser \<Rightarrow> string props \<Rightarrow> xworld \<Rightarrow> xworld outcome" where
  "xhr_send p b hs w =
     (case ports w p of
        None \<Rightarrow> Returned w
      | Some q \<Rightarrow>
          let s = pset q
          in if \<not> create_xhr (unloadAbort w) s b then Threw w
             else (case b_open b of
                     Throws e \<Rightarrow> Threw w
                   | Reads u \<Rightarrow>
                       (case b_send b of
                          Throws e \<Rightarrow> Threw w
                        | Reads u \<Rightarrow>
                            let w1 = upd_port p (\<lambda>q. q\<lparr>pxhr := Some (open_xhr s b hs), pcallback := True\<rparr>) w
                            in if \<not> async s then Returned (xhr_callback p False w1)
                               else (case a_ready (after_send b) of
                                       Throws e \<Rightarrow> Threw w1
                                     | Reads n \<Rightarrow> Returned (if n = 4 then xhr_callback p False w1 else register p w1)))))"

definition xhr_abort :: "nat \<Rightarrow> xworld \<Rightarrow> xworld" where
  "xhr_abort p w = (case ports w p of Some q \<Rightarrow> if pcallback q then xhr_callback p True w else w | None \<Rightarrow> w)"

definition xhrOnUnloadAbort :: "xworld \<Rightarrow> xworld" where
  "xhrOnUnloadAbort w = (case xhrCallbacks w of Some l \<Rightarrow> fold (\<lambda>(h, p). xhr_callback p True) l w | None \<Rightarrow> w)"

section \<open>A page with requests\<close>

text \<open>
  Transports are made and sent, the answers of an object change, whereupon the browser calls its
  listener, requests are aborted, and the page is left.
\<close>

datatype xevent =
    XNew nat bool tsettings
  | XSend nat browser "string props"
  | XChange nat answers
  | XAbort nat
  | XUnload

fun state_of :: "'w outcome \<Rightarrow> 'w" where
  "state_of (Returned w) = w"
| "state_of (Threw w) = w"

definition unsent :: "nat \<Rightarrow> xworld \<Rightarrow> bool" where
  "unsent p w \<longleftrightarrow> (case ports w p of Some q \<Rightarrow> pxhr q = None | None \<Rightarrow> False)"

definition hears :: "nat \<Rightarrow> xworld \<Rightarrow> bool" where
  "hears p w \<longleftrightarrow> (case ports w p of Some q \<Rightarrow> (case pxhr q of Some x \<Rightarrow> listening x | None \<Rightarrow> False) | None \<Rightarrow> False)"

fun run_xevent :: "xevent \<Rightarrow> xworld \<Rightarrow> xworld" where
  "run_xevent (XNew p cors s) w =
     (if ports w p = None then (case xhr_transport cors s of Some q \<Rightarrow> w\<lparr>ports := (ports w)(p := Some q)\<rparr> | None \<Rightarrow> w) else w)"
| "run_xevent (XSend p b hs) w = (if unsent p w then state_of (xhr_send p b hs w) else w)"
| "run_xevent (XChange p a) w =
     (let w1 = upd_port p (on_xhr (\<lambda>x. x\<lparr>ans := a\<rparr>)) w in if hears p w1 then xhr_callback p False w1 else w1)"
| "run_xevent (XAbort p) w = xhr_abort p w"
| "run_xevent XUnload w = (if 0 < unloadBound w then xhrOnUnloadAbort w else w)"

definition no_ports :: "bool \<Rightarrow> xworld" where
  "no_ports ie = \<lparr>ports = (\<lambda>p. None), unloadAbort = ie, xhrId = 0, xhrCallbacks = None, unloadBound = 0\<rparr>"

text \<open>The reads that leave a listener in place or run \<open>complete\<close> a second time when they throw.\<close>

definition readable :: "answers \<Rightarrow> bool" where
  "readable a \<longleftrightarrow> (case a_ready a of Reads n \<Rightarrow> True | _ \<Rightarrow> False) \<and> (case a_xml a of Reads x \<Rightarrow> True | _ \<Rightarrow> False) \<and>
     (case a_text a of Reads t \<Rightarrow> True | _ \<Rightarrow> False)"

fun readable_event :: "xevent \<Rightarrow> bool" where
  "readable_event (XSend p b hs) = readable (after_send b)"
| "readable_event (XChange p a) = readable a"
| "readable_event _ = True"

section \<open>What holds on every page\<close>

definition live :: "xworld \<Rightarrow> nat \<Rightarrow> nat \<Rightarrow> bool" where
  "live w h p \<longleftrightarrow> (case ports w p of Some q \<Rightarrow> phandle q = Some h \<and> pcallback q | None \<Rightarrow> False)"

definition port_ok :: "nat \<Rightarrow> port \<Rightarrow> bool" where
  "port_ok top_id q \<longleftrightarrow>
     (case pxhr q of
        None \<Rightarrow> phandle q = None \<and> \<not> pcallback q \<and> completions q = []
      | Some x \<Rightarrow> (listening x \<longleftrightarrow> pcallback q \<and> phandle q \<noteq> None) \<and> (\<forall>h. phandle q = Some h \<longrightarrow> h \<le> top_id))"

definition table_ok :: "xworld \<Rightarrow> bool" where
  "table_ok w \<longleftrightarrow>
     (if unloadAbort w
      then (case xhrCallbacks w of
              None \<Rightarrow> unloadBound w = 0 \<and> (\<forall>h p. \<not> live w h p)
            | Some l \<Rightarrow> unloadBound w = 1 \<and> distinct (map fst l) \<and> (\<forall>h p. (h, p) \<in> set l \<longleftrightarrow> live w h p))
      else xhrCallbacks w = None \<and> unloadBound w = 0)"

definition xinv :: "xworld \<Rightarrow> bool" where
  "xinv w \<longleftrightarrow> (\<forall>p q. ports w p = Some q \<longrightarrow> port_ok (xhrId w) q) \<and>
     (\<forall>p p' q q' h. ports w p = Some q \<longrightarrow> ports w p' = Some q' \<longrightarrow> phandle q = Some h \<longrightarrow> phandle q' = Some h \<longrightarrow> p = p') \<and>
     table_ok w"

definition once :: "xworld \<Rightarrow> bool" where
  "once w \<longleftrightarrow> (\<forall>p q. ports w p = Some q \<longrightarrow> length (completions q) \<le> 1 \<and> (pcallback q \<longrightarrow> completions q = []) \<and>
     (\<forall>x. pxhr q = Some x \<longrightarrow> pcallback q \<longrightarrow> readable (ans x)))"

inductive xreaches :: "(xevent \<Rightarrow> bool) \<Rightarrow> bool \<Rightarrow> xworld \<Rightarrow> bool" for ok ie where
  start: "xreaches ok ie (no_ports ie)"
| event: "xreaches ok ie w \<Longrightarrow> ok e \<Longrightarrow> xreaches ok ie (run_xevent e w)"

lemma upd_port_frame [simp]:
  "ports w p = Some q \<Longrightarrow> ports (upd_port p f w) = (ports w)(p := Some (f q))"
  "ports w p = None \<Longrightarrow> upd_port p f w = w"
  "xhrId (upd_port p f w) = xhrId w" "xhrCallbacks (upd_port p f w) = xhrCallbacks w"
  "unloadAbort (upd_port p f w) = unloadAbort w" "unloadBound (upd_port p f w) = unloadBound w"
  by (simp_all add: upd_port_def fun_upd_idem)

lemma on_xhr_frame [simp]:
  "phandle (on_xhr f q) = phandle q" "pcallback (on_xhr f q) = pcallback q" "completions (on_xhr f q) = completions q"
  "pset (on_xhr f q) = pset q" "pxhr (on_xhr f q) = map_option f (pxhr q)"
  by (simp_all add: on_xhr_def)

lemma abort_xhr_frame [simp]: "listening (abort_xhr x) = listening x" "ans (abort_xhr x) = ans x"
  by (simp_all add: abort_xhr_def split: read.split)

lemma live_upd:
  "ports w' = (ports w)(p := Some q') \<Longrightarrow>
   live w' h p' \<longleftrightarrow> (if p' = p then phandle q' = Some h \<and> pcallback q' else live w h p')"
  by (simp add: live_def)

lemma xinvD:
  assumes "xinv w"
  shows "ports w p = Some q \<Longrightarrow> port_ok (xhrId w) q" "table_ok w"
    "ports w p = Some q \<Longrightarrow> ports w p' = Some q' \<Longrightarrow> phandle q = Some h \<Longrightarrow> phandle q' = Some h \<Longrightarrow> p = p'"
  using assms unfolding xinv_def by blast+

lemma handle_bound:
  assumes "xinv w" "ports w p = Some q" "phandle q = Some h"
  shows "h \<le> xhrId w" "pxhr q \<noteq> None"
  using xinvD(1)[OF assms(1,2)] assms(3) by (auto simp: port_ok_def split: option.splits)

text \<open>The invariant of a page where one transport has changed.\<close>

lemma xinv_change:
  assumes inv: "xinv w" and w': "ports w' = (ports w)(p := Some q')" and ok: "port_ok (xhrId w') q'"
    and le: "xhrId w \<le> xhrId w'" and t: "table_ok w'"
    and h: "\<And>h p2 q2. phandle q' = Some h \<Longrightarrow> p2 \<noteq> p \<Longrightarrow> ports w p2 = Some q2 \<Longrightarrow> phandle q2 \<noteq> Some h"
  shows "xinv w'"
  unfolding xinv_def
proof (intro conjI allI impI t)
  show "port_ok (xhrId w') r" if "ports w' p2 = Some r" for p2 r
  proof (cases "p2 = p")
    case True
    with that w' ok show ?thesis by simp
  next
    case False
    with that w' have "port_ok (xhrId w) r" using xinvD(1)[OF inv] by simp
    with le show ?thesis by (auto simp: port_ok_def split: option.splits)
  qed
  show "p1 = p2" if "ports w' p1 = Some q1" "ports w' p2 = Some q2" "phandle q1 = Some k" "phandle q2 = Some k" for p1 p2 q1 q2 k
    using that w' h xinvD(3)[OF inv] by (cases "p1 = p"; cases "p2 = p") (auto split: if_splits)
qed

lemma table_keep:
  assumes "table_ok w" and "xhrCallbacks w' = xhrCallbacks w" "unloadAbort w' = unloadAbort w" "unloadBound w' = unloadBound w"
    and "\<And>h p. live w' h p = live w h p"
  shows "table_ok w'"
  using assms by (auto simp: table_ok_def split: option.splits)

text \<open>A change of one transport that keeps handle, callback and listener.\<close>

definition quiet :: "(port \<Rightarrow> port) \<Rightarrow> bool" where
  "quiet f \<longleftrightarrow> (\<forall>q. phandle (f q) = phandle q \<and> pcallback (f q) = pcallback q \<and>
     map_option listening (pxhr (f q)) = map_option listening (pxhr q) \<and>
     (pxhr q = None \<longrightarrow> completions (f q) = completions q))"

lemma xinv_quiet:
  assumes inv: "xinv w" and f: "quiet f"
  shows "xinv (upd_port p f w)"
proof (cases "ports w p")
  case (Some q)
  have q: "phandle (f q) = phandle q" "pcallback (f q) = pcallback q"
    "map_option listening (pxhr (f q)) = map_option listening (pxhr q)" "pxhr q = None \<longrightarrow> completions (f q) = completions q"
    using f by (simp_all add: quiet_def)
  have w': "ports (upd_port p f w) = (ports w)(p := Some (f q))" using Some by simp
  show ?thesis
  proof (rule xinv_change[OF inv w'])
    show "port_ok (xhrId (upd_port p f w)) (f q)"
      using xinvD(1)[OF inv Some] q by (cases "pxhr q"; cases "pxhr (f q)") (auto simp: port_ok_def)
    show "table_ok (upd_port p f w)"
      by (rule table_keep[OF xinvD(2)[OF inv]]) (simp_all add: live_upd[OF w'] q, simp add: live_def Some)
    show "phandle q2 \<noteq> Some h" if "phandle (f q) = Some h" "p2 \<noteq> p" "ports w p2 = Some q2" for h p2 q2
      using xinvD(3)[OF inv Some that(3)] that q(1) by auto
  qed simp
qed (use inv in simp)

lemma quiet_on_xhr: "(\<And>x. listening (f x) = listening x) \<Longrightarrow> quiet (on_xhr f)"
  by (simp add: quiet_def option.map_comp o_def)

definition retired :: "port \<Rightarrow> port" where
  "retired q = (if phandle q = None then q\<lparr>pcallback := False\<rparr> else on_xhr (\<lambda>x. x\<lparr>listening := False\<rparr>) (q\<lparr>pcallback := False\<rparr>))"

lemma retire_ports: "ports w p = Some q \<Longrightarrow> ports (retire p w) = (ports w)(p := Some (retired q))"
  by (auto simp: retire_def retired_def Let_def split: option.split)

lemma retire_world [simp]:
  "xhrId (retire p w) = xhrId w" "unloadAbort (retire p w) = unloadAbort w" "unloadBound (retire p w) = unloadBound w"
  by (auto simp: retire_def Let_def split: option.split)

lemma retire_table:
  "ports w p = Some q \<Longrightarrow> xhrCallbacks (retire p w) =
     (case phandle q of Some h \<Rightarrow> if unloadAbort w then map_option (AList.delete h) (xhrCallbacks w) else xhrCallbacks w
                      | None \<Rightarrow> xhrCallbacks w)"
  by (auto simp: retire_def Let_def split: option.split)

lemma retired_frame [simp]: "phandle (retired q) = phandle q" "\<not> pcallback (retired q)" "completions (retired q) = completions q"
  "pset (retired q) = pset q" "map_option ans (pxhr (retired q)) = map_option ans (pxhr q)"
  by (simp_all add: retired_def option.map_comp o_def)

lemma set_delete: "x \<in> set (AList.delete k xs) \<longleftrightarrow> x \<in> set xs \<and> fst x \<noteq> k"
  by (induction xs) auto

lemma xinv_retire:
  assumes inv: "xinv w" and q: "ports w p = Some q" and x: "pxhr q \<noteq> None"
  shows "xinv (retire p w)"
proof (rule xinv_change[OF inv retire_ports[OF q]])
  note w' = retire_ports[OF q] and ok = xinvD(1)[OF inv q] and t = xinvD(2)[OF inv]
  show "port_ok (xhrId (retire p w)) (retired q)"
    using ok x by (auto simp: port_ok_def retired_def split: option.splits)
  show "phandle q2 \<noteq> Some h" if "phandle (retired q) = Some h" "p2 \<noteq> p" "ports w p2 = Some q2" for h p2 q2
    using xinvD(3)[OF inv q that(3)] that by auto
  show "table_ok (retire p w)"
  proof (cases "unloadAbort w \<and> xhrCallbacks w \<noteq> None")
    case False
    with t show ?thesis
      by (auto simp: table_ok_def retire_table[OF q] live_upd[OF w'] split: option.splits if_splits)
  next
    case True
    then obtain l where l: "xhrCallbacks w = Some l" by auto
    have lv: "distinct (map fst l)" "(k, p2) \<in> set l \<longleftrightarrow> live w k p2" for k p2
      using t True l by (auto simp: table_ok_def)
    show ?thesis
    proof (cases "phandle q")
      case None
      then have "\<not> live w k p" for k using q by (simp add: live_def)
      then have "live (retire p w) k p2 = live w k p2" for k p2
        using live_upd[OF w', of k p2] None by auto
      then show ?thesis by (intro table_keep[OF t]) (simp_all add: retire_table[OF q] None)
    next
      case (Some h)
      have "k \<noteq> h" if "live w k p2" "p2 \<noteq> p" for k p2
        using that xinvD(3)[OF inv q, of p2] Some by (auto simp: live_def split: option.splits)
      moreover have "k = h" if "live w k p" for k using that q Some by (simp add: live_def)
      ultimately have "(k, p2) \<in> set (AList.delete h l) \<longleftrightarrow> live (retire p w) k p2" for k p2
        using lv(2)[of k p2] by (auto simp: live_upd[OF w'] set_delete)
      then show ?thesis
        using t True l lv(1) Some by (simp add: table_ok_def retire_table[OF q] distinct_delete)
    qed
  qed
qed simp

lemma xinv_complete: "xinv w \<Longrightarrow> ports w p = Some q \<Longrightarrow> pxhr q \<noteq> None \<Longrightarrow> xinv (complete p cs w)"
proof -
  assume inv: "xinv w" and q: "ports w p = Some q" "pxhr q \<noteq> None"
  have "complete p cs w = upd_port p (\<lambda>q. if pxhr q = None then q else q\<lparr>completions := completions q @ cs\<rparr>) w"
    using q by (auto simp: complete_def upd_port_def)
  then show ?thesis using xinv_quiet[OF inv] by (simp add: quiet_def)
qed

lemma callback_idle:
  assumes "\<And>q x. ports w p = Some q \<Longrightarrow> pxhr q = Some x \<Longrightarrow> \<not> pcallback q"
  shows "xhr_callback p b w = w"
  using assms by (auto simp: xhr_callback_def split: option.split)

lemma xinv_callback:
  assumes inv: "xinv w" shows "xinv (xhr_callback p b w)"
proof (cases "\<exists>q x. ports w p = Some q \<and> pxhr q = Some x \<and> pcallback q")
  case True
  then obtain q x where 2: "ports w p = Some q" "pxhr q = Some x" "pcallback q" by blast
  then have r: "xinv (retire p w)" using xinv_retire[OF inv 2(1)] by simp
  have "xinv (complete p cs (retire p w))" "xinv (complete p cs w)" for cs
    using xinv_complete[OF r retire_ports[OF 2(1), THEN fun_cong, of p, simplified]] xinv_complete[OF inv 2(1)] 2(2)
    by (simp_all add: retired_def)
  moreover have "xinv (upd_port p (on_xhr abort_xhr) (retire p w))"
    by (intro xinv_quiet r quiet_on_xhr) simp
  ultimately show ?thesis using 2 inv by (auto simp: xhr_callback_def split: read.splits)
next
  case False
  then have "xhr_callback p b w = w" by (intro callback_idle) blast
  with inv show ?thesis by simp
qed

lemma register_world:
  assumes "ports w p = Some q"
  shows "ports (register p w) = (ports w)(p := Some (on_xhr (\<lambda>x. x\<lparr>listening := True\<rparr>) (q\<lparr>phandle := Some (Suc (xhrId w))\<rparr>)))"
    and "xhrId (register p w) = Suc (xhrId w)" "unloadAbort (register p w) = unloadAbort w"
    and "xhrCallbacks (register p w) = (if unloadAbort w
      then Some (AList.update (Suc (xhrId w)) p (case xhrCallbacks w of Some l \<Rightarrow> l | None \<Rightarrow> [])) else xhrCallbacks w)"
    and "unloadBound (register p w) = (if unloadAbort w \<and> xhrCallbacks w = None then unloadBound w + 1 else unloadBound w)"
  using assms by (auto simp: register_def Let_def upd_port_def split: option.splits)

lemma update_new: "k \<notin> fst ` set xs \<Longrightarrow> AList.update k v xs = xs @ [(k, v)]"
  by (induction xs) auto

lemma xinv_register:
  assumes inv: "xinv w" and q: "ports w p = Some q" and x: "pxhr q \<noteq> None" "phandle q = None" "pcallback q"
  shows "xinv (register p w)"
proof (rule xinv_change[OF inv register_world(1)[OF q]])
  note R = register_world[OF q] and t = xinvD(2)[OF inv]
  let ?h = "Suc (xhrId w)"
  show "port_ok (xhrId (register p w)) (on_xhr (\<lambda>x. x\<lparr>listening := True\<rparr>) (q\<lparr>phandle := Some ?h\<rparr>))"
    using x by (auto simp: port_ok_def R(2) on_xhr_def)
  have new: "phandle q2 \<noteq> Some ?h" if "ports w p2 = Some q2" for p2 q2
    using handle_bound(1)[OF inv that] by fastforce
  then show "phandle q2 \<noteq> Some h" if "phandle (on_xhr (\<lambda>x. x\<lparr>listening := True\<rparr>) (q\<lparr>phandle := Some ?h\<rparr>)) = Some h" "p2 \<noteq> p"
    "ports w p2 = Some q2" for h p2 q2
    using that by auto
  have lv: "live (register p w) k p2 \<longleftrightarrow> (p2 = p \<and> k = ?h) \<or> live w k p2" for k p2
    using x(2,3) q by (auto simp: live_upd[OF R(1)]) (auto simp: live_def on_xhr_def)
  have lh: "\<not> live w ?h p2" for p2 using new by (auto simp: live_def split: option.splits)
  show "table_ok (register p w)"
  proof (cases "unloadAbort w")
    case False
    with t show ?thesis by (simp add: table_ok_def R)
  next
    case True
    define l where "l = (case xhrCallbacks w of Some l \<Rightarrow> l | None \<Rightarrow> [])"
    have l: "distinct (map fst l)" "(k, p2) \<in> set l \<longleftrightarrow> live w k p2" for k p2
      using t True by (auto simp: table_ok_def l_def split: option.splits)
    then have "?h \<notin> fst ` set l" using lh by auto
    then have "AList.update ?h p l = l @ [(?h, p)]" by (rule update_new)
    moreover have "unloadBound (register p w) = 1" using t True by (auto simp: R table_ok_def split: option.splits)
    ultimately show ?thesis
      using True l lv \<open>?h \<notin> fst ` set l\<close> by (auto simp: table_ok_def R l_def[symmetric])
  qed
qed (simp add: register_world[OF q])

lemma xinv_started:
  assumes inv: "xinv w" and q: "ports w p = Some q" "pxhr q = None" and x: "\<not> listening x"
  shows "xinv (upd_port p (\<lambda>q. q\<lparr>pxhr := Some x, pcallback := True\<rparr>) w)"
proof -
  have o: "phandle q = None" "\<not> pcallback q" using xinvD(1)[OF inv q(1)] q(2) by (simp_all add: port_ok_def)
  let ?f = "\<lambda>q. q\<lparr>pxhr := Some x, pcallback := True\<rparr>"
  have w': "ports (upd_port p ?f w) = (ports w)(p := Some (?f q))" using q by simp
  have lv: "live (upd_port p ?f w) k p2 = live w k p2" for k p2
    using o q by (auto simp: live_upd[OF w']) (simp add: live_def)
  show ?thesis
  proof (rule xinv_change[OF inv w'])
    show "table_ok (upd_port p ?f w)" by (rule table_keep[OF xinvD(2)[OF inv]]) (simp_all add: lv)
  qed (use o x in \<open>simp_all add: port_ok_def\<close>)
qed

text \<open>The cases of a \<open>send\<close>.\<close>

lemma send_cases:
  assumes q: "ports w p = Some q" and "P w"
    and P: "\<And>w1. w1 = upd_port p (\<lambda>q'. q'\<lparr>pxhr := Some (open_xhr (pset q) b hs), pcallback := True\<rparr>) w \<Longrightarrow>
      P w1 \<and> P (xhr_callback p False w1) \<and> P (register p w1)"
  shows "P (state_of (xhr_send p b hs w))"
proof -
  have "upd_port p (\<lambda>q. q\<lparr>pxhr := Some (open_xhr (pset q) b hs), pcallback := True\<rparr>) w =
      upd_port p (\<lambda>q'. q'\<lparr>pxhr := Some (open_xhr (pset q) b hs), pcallback := True\<rparr>) w"
    using q by (simp add: upd_port_def)
  then show ?thesis using q assms(2) P[OF refl]
    by (simp add: xhr_send_def Let_def split: read.split)
qed

lemma open_xhr_frame [simp]: "\<not> listening (open_xhr s b hs)" "ans (open_xhr s b hs) = after_send b"
  by (simp_all add: open_xhr_def)

lemma xinv_send:
  assumes inv: "xinv w" and "unsent p w"
  shows "xinv (state_of (xhr_send p b hs w))"
proof -
  obtain q where q: "ports w p = Some q" "pxhr q = None" using assms(2) by (auto simp: unsent_def split: option.splits)
  have o: "phandle q = None" using xinvD(1)[OF inv q(1)] q(2) by (simp add: port_ok_def)
  show ?thesis
  proof (rule send_cases[where P = xinv, OF q(1) inv])
    fix w1 assume w1: "w1 = upd_port p (\<lambda>q'. q'\<lparr>pxhr := Some (open_xhr (pset q) b hs), pcallback := True\<rparr>) w"
    then have i: "xinv w1" using xinv_started[OF inv q] by simp
    moreover have "xinv (register p w1)"
      by (rule xinv_register[OF i, of p "q\<lparr>pxhr := Some (open_xhr (pset q) b hs), pcallback := True\<rparr>"]) (use w1 q o in simp_all)
    ultimately show "xinv w1 \<and> xinv (xhr_callback p False w1) \<and> xinv (register p w1)" using xinv_callback by simp
  qed
qed

lemma xinv_unload: "xinv w \<Longrightarrow> xinv (fold (\<lambda>(h, p). xhr_callback p True) l w)"
  by (induction l arbitrary: w) (auto simp: xinv_callback)

lemma xinv_event: "xinv w \<Longrightarrow> xinv (run_xevent e w)"
proof (cases e)
  case (XNew p cors s)
  assume inv: "xinv w"
  show ?thesis
  proof (cases "ports w p = None \<and> xhr_transport cors s \<noteq> None")
    case True
    then obtain q where n: "ports w p = None" "xhr_transport cors s = Some q" by auto
    then have q: "pxhr q = None" "phandle q = None" "\<not> pcallback q" "completions q = []"
      by (auto simp: xhr_transport_def split: if_splits)
    have w': "ports (w\<lparr>ports := (ports w)(p := Some q)\<rparr>) = (ports w)(p := Some q)" by simp
    have "live (w\<lparr>ports := (ports w)(p := Some q)\<rparr>) k p2 = live w k p2" for k p2
      using q n by (auto simp: live_upd[OF w']) (simp add: live_def)
    then have "xinv (w\<lparr>ports := (ports w)(p := Some q)\<rparr>)"
      by (intro xinv_change[OF inv w'] table_keep[OF xinvD(2)[OF inv]]) (use q in \<open>simp_all add: port_ok_def\<close>)
    then show ?thesis using XNew n by simp
  qed (use XNew inv in auto)
next
  case (XChange p a)
  assume inv: "xinv w"
  have "xinv (upd_port p (on_xhr (\<lambda>x. x\<lparr>ans := a\<rparr>)) w)" by (intro xinv_quiet inv quiet_on_xhr) simp
  then show ?thesis using XChange by (simp add: Let_def xinv_callback)
qed (auto simp: xinv_send xhr_abort_def xhrOnUnloadAbort_def xinv_callback xinv_unload split: option.split)

lemma xinv_reachable: "xreaches ok ie w \<Longrightarrow> xinv w"
proof (induction rule: xreaches.induct)
  case start
  show ?case by (simp add: xinv_def no_ports_def table_ok_def live_def)
qed (simp add: xinv_event)

section \<open>Completion\<close>

text \<open>What a call of \<open>complete\<close> does to the request: it runs \<open>done\<close>.\<close>

definition tell :: "nat \<Rightarrow> completion \<Rightarrow> ajaxw \<Rightarrow> ajaxw" where
  "tell r c w = done_begin r (case c_status c of Some n \<Rightarrow> n | None \<Rightarrow> 0) (case c_text c of Some t \<Rightarrow> t | None \<Rightarrow> [])
     (c_responses c) (case c_headers c of Some h \<Rightarrow> h | None \<Rightarrow> []) w"

lemma done_begin_done: "reqs (done_begin r st native rs hdrs w) r = Some q \<Longrightarrow> rstate q = 2"
  by (auto simp: done_begin_def done_settle_def done_start_def Let_def split: option.splits if_splits)

lemma done_begin_again: "done_begin r st native rs hdrs (done_begin r st' native' rs' hdrs' w) = done_begin r st' native' rs' hdrs' w"
  using done_begin_done[of r st' native' rs' hdrs' w] by (simp add: done_begin_def[of r st] split: option.split)

lemma tell_first: "fold (tell r) (c # cs) w = tell r c w"
  by (induction cs arbitrary: c w) (simp_all add: tell_def done_begin_again)

lemma one_completion:
  assumes "readable a"
  shows "length (completions_of (read_response s a)) = 1"
  using assms by (auto simp: readable_def read_response_def completions_of_def no_response_def Let_def split: read.splits)

lemma onceD:
  assumes "once w" "ports w p = Some q"
  shows "length (completions q) \<le> 1" "pcallback q \<Longrightarrow> completions q = []" "pxhr q = Some x \<Longrightarrow> pcallback q \<Longrightarrow> readable (ans x)"
  using assms unfolding once_def by blast+

lemma once_change:
  assumes "once w" and "ports w' = (ports w)(p := Some q)" and "length (completions q) \<le> 1"
    and "pcallback q \<Longrightarrow> completions q = []" and "\<And>x. pxhr q = Some x \<Longrightarrow> pcallback q \<Longrightarrow> readable (ans x)"
  shows "once w'"
  using assms by (auto simp: once_def)

lemma once_callback:
  assumes "once w" shows "once (xhr_callback p b w)"
proof (cases "\<exists>q x. ports w p = Some q \<and> pxhr q = Some x \<and> pcallback q")
  case True
  then obtain q x where q: "ports w p = Some q" "pxhr q = Some x" "pcallback q" by blast
  note o = onceD[OF assms q(1)] and rp = retire_ports[OF q(1)]
  have rd: "readable (ans x)" using o(3) q by blast
  have c: "once (complete p cs (retire p w))" if "length cs \<le> 1" for cs
    by (rule once_change[OF assms, of _ p "(retired q)\<lparr>completions := cs\<rparr>"])
      (use o(2) q(3) rp that in \<open>simp_all add: complete_def upd_port_def\<close>)
  have a: "once (upd_port p (on_xhr abort_xhr) (retire p w))"
    by (rule once_change[OF assms, of _ p "on_xhr abort_xhr (retired q)"]) (use o(2) q(3) rp in \<open>simp_all add: upd_port_def\<close>)
  show ?thesis
  proof (cases "a_ready (ans x)")
    case (Reads n)
    with q assms c[of "completions_of (read_response (pset q) (ans x))"] a one_completion[OF rd, of "pset q"]
    show ?thesis by (simp add: xhr_callback_def)
  next
    case (Throws e)
    with rd show ?thesis by (simp add: readable_def)
  qed
next
  case False
  then have "xhr_callback p b w = w" by (intro callback_idle) blast
  with assms show ?thesis by simp
qed

lemma once_event:
  assumes o: "once w" and i: "xinv w" and e: "readable_event e"
  shows "once (run_xevent e w)"
proof (cases e)
  case (XNew p cors s)
  then show ?thesis using o by (auto simp: once_def xhr_transport_def)
next
  case (XSend p b hs)
  show ?thesis
  proof (cases "unsent p w")
    case True
    then obtain q where q: "ports w p = Some q" "pxhr q = None" by (auto simp: unsent_def split: option.splits)
    have cs: "completions q = []" using xinvD(1)[OF i q(1)] q(2) by (simp add: port_ok_def)
    have "once (state_of (xhr_send p b hs w))"
    proof (rule send_cases[where P = once, OF q(1) o])
      fix w1 assume w1: "w1 = upd_port p (\<lambda>q'. q'\<lparr>pxhr := Some (open_xhr (pset q) b hs), pcallback := True\<rparr>) w"
      let ?q = "q\<lparr>pxhr := Some (open_xhr (pset q) b hs), pcallback := True\<rparr>"
      have p1: "ports w1 = (ports w)(p := Some ?q)" using w1 q by simp
      have o1: "once w1" by (rule once_change[OF o p1]) (use cs e XSend in simp_all)
      have "once (register p w1)"
        by (rule once_change[OF o1 register_world(1)[of w1 p ?q]]) (use p1 cs e XSend in simp_all)
      with o1 show "once w1 \<and> once (xhr_callback p False w1) \<and> once (register p w1)" by (simp add: once_callback)
    qed
    with True XSend show ?thesis by simp
  qed (use XSend o in simp)
next
  case (XChange p a)
  have "once (upd_port p (on_xhr (\<lambda>x. x\<lparr>ans := a\<rparr>)) w)"
  proof (cases "ports w p")
    case (Some q)
    have "ports (upd_port p (on_xhr (\<lambda>x. x\<lparr>ans := a\<rparr>)) w) = (ports w)(p := Some (on_xhr (\<lambda>x. x\<lparr>ans := a\<rparr>) q))"
      using Some by simp
    then show ?thesis by (rule once_change[OF o]) (use onceD(1,2)[OF o Some] e XChange in auto)
  qed (use o in simp)
  then show ?thesis using XChange by (simp add: Let_def once_callback)
next
  case (XAbort p)
  then show ?thesis using o by (auto simp: xhr_abort_def once_callback split: option.split)
next
  case XUnload
  have "once (fold (\<lambda>(h, p). xhr_callback p True) l w)" for l using o by (induction l arbitrary: w) (auto simp: once_callback)
  then show ?thesis using XUnload o by (auto simp: xhrOnUnloadAbort_def split: option.split)
qed

lemma once_reachable: "xreaches readable_event ie w \<Longrightarrow> once w"
proof (induction rule: xreaches.induct)
  case start
  show ?case by (simp add: once_def no_ports_def)
next
  case (event w e)
  then show ?case using once_event xinv_reachable by blast
qed

lemma unload_kept:
  "unloadAbort (xhr_callback p b w) = unloadAbort w" "unloadAbort (register p w) = unloadAbort w"
  "unloadAbort (fold (\<lambda>(h, p). xhr_callback p True) l w) = unloadAbort w"
proof -
  show cb: "unloadAbort (xhr_callback p b w) = unloadAbort w" for p b w
    by (simp add: xhr_callback_def complete_def split: option.split read.split)
  show "unloadAbort (fold (\<lambda>(h, p). xhr_callback p True) l w) = unloadAbort w"
  proof (induction l arbitrary: w)
    case (Cons a l)
    then show ?case by (cases a) (simp only: fold_simps o_apply prod.case cb)
  qed simp
qed (simp add: register_def Let_def)

lemma send_unload [simp]: "unloadAbort (state_of (xhr_send p b hs w)) = unloadAbort w"
  by (simp add: xhr_send_def Let_def unload_kept split: option.split read.split)

lemma unload_reachable: "xreaches ok ie w \<Longrightarrow> unloadAbort w = ie"
proof (induction rule: xreaches.induct)
  case (event w e)
  have "unloadAbort (run_xevent e w) = unloadAbort w"
  proof (cases e)
    case (XNew p cors s)
    then show ?thesis by (cases "xhr_transport cors s") simp_all
  next
    case (XAbort p)
    then show ?thesis by (cases "ports w p") (simp_all add: xhr_abort_def unload_kept)
  next
    case XUnload
    then show ?thesis by (cases "xhrCallbacks w") (simp_all add: xhrOnUnloadAbort_def unload_kept)
  qed (simp_all add: Let_def unload_kept send_unload)
  with event.IH show ?case by simp
qed (simp add: no_ports_def)

text \<open>
  C33: as long as the state and the responses of the browser's objects can be read, a transport calls
  \<open>complete\<close> at most once, and not while its callback may still run; a browser with a table for \<open>unload\<close> has in it
  exactly the requests that are under way.
\<close>

theorem transport_completes_once:
  assumes "xreaches readable_event ie w"
  shows "(\<forall>p q. ports w p = Some q \<longrightarrow> length (completions q) \<le> 1 \<and> (pcallback q \<longrightarrow> completions q = [])) \<and>
    (\<forall>l h p. ie \<longrightarrow> xhrCallbacks w = Some l \<longrightarrow> (h, p) \<in> set l \<longleftrightarrow> live w h p)"
proof (intro conjI allI impI)
  note t = xinvD(2)[OF xinv_reachable[OF assms]] and o = onceD(1,2)[OF once_reachable[OF assms]]
  show "length (completions q) \<le> 1" "pcallback q \<Longrightarrow> completions q = []" if "ports w p = Some q" for p q
    using o[OF that] by simp_all
  show "(h, p) \<in> set l \<longleftrightarrow> live w h p" if "ie" "xhrCallbacks w = Some l" for l h p
    using t that unload_reachable[OF assms] by (simp add: table_ok_def)
qed

text \<open>When the text cannot be read after the status, \<open>complete\<close> runs for the exception and then for what had been read.\<close>

definition half_read :: "answers \<Rightarrow> int \<Rightarrow> string \<Rightarrow> string \<Rightarrow> bool" where
  "half_read a st hs e \<longleftrightarrow> a_ready a = Reads 4 \<and> a_status a = Reads st \<and> a_headers a = Reads hs \<and>
     (a_xml a = Throws e \<or> (case a_xml a of Reads x \<Rightarrow> a_text a = Throws e | Throws e' \<Rightarrow> False))"

text \<open>
  C34: a response whose text or document cannot be read ends the transport with two calls of \<open>complete\<close>, first
  with the exception and then with the status that the server sent; the request takes the first, so that it fails with the
  exception whatever the status was.
\<close>

theorem unreadable_response_fails_request:
  assumes "ports w p = Some q" "pxhr q = Some x" "pcallback q" "completions q = []" and a: "half_read (ans x) st hs e"
    and r: "reqs aw r = Some rq" "rstate rq \<noteq> 2"
  shows "\<exists>q' c1 c2 rq'. ports (xhr_callback p False w) p = Some q' \<and> completions q' = [c1, c2] \<and>
    c_status c1 = Some (-1) \<and> c_text c1 = Some e \<and> c_status c2 = Some st \<and> c_headers c2 = Some hs \<and>
    reqs (fold (tell r) (completions q') aw) r = Some rq' \<and> rstate rq' = 2 \<and>
    (deferred rq = None \<longrightarrow> deferred rq' = Some (Rejected (Some (Str e))))"
proof -
  let ?c1 = "no_response\<lparr>c_status := Some (-1), c_text := Some e\<rparr>"
  obtain c2 where cs: "completions_of (read_response (pset q) (ans x)) = [?c1, c2]" and
    c2: "c_status c2 = Some st" "c_headers c2 = Some hs"
    using a by (auto simp: half_read_def read_response_def completions_of_def no_response_def Let_def split: read.splits)
  have rp: "ports (retire p w) = (ports w)(p := Some (retired q))" by (rule retire_ports[OF assms(1)])
  have "ports (xhr_callback p False w) p = Some ((retired q)\<lparr>completions := [?c1, c2]\<rparr>)"
    using assms(1-4) a cs rp by (simp add: xhr_callback_def half_read_def complete_def upd_port_def)
  moreover have "fold (tell r) [?c1, c2] aw = done_begin r (-1) e None [] aw"
    unfolding tell_first by (simp add: tell_def no_response_def)
  moreover have "reqs (done_begin r (-1) e None [] aw) r = Some (done_settle (-1) e None (done_start (-1) [] rq))"
    using r by (simp add: done_begin_def is_success_def Let_def)
  moreover have "deferred rq = None \<longrightarrow> deferred (done_settle (-1) e None (done_start (-1) [] rq)) = Some (Rejected (Some (Str e)))"
    by (simp add: done_settle_def done_start_def Let_def outcome_of_def is_success_def done_response_def)
  moreover have "rstate (done_settle (-1) e None (done_start (-1) [] rq)) = 2"
    by (simp add: done_settle_def done_start_def Let_def)
  ultimately show ?thesis using c2 by (intro exI conjI) (assumption | simp add: no_response_def)+
qed

section \<open>Leaving the page\<close>

text \<open>The second state has the transports of the first, with their handles and completions, and no callback more.\<close>

definition calmer :: "xworld \<Rightarrow> xworld \<Rightarrow> bool" where
  "calmer w w' \<longleftrightarrow> (\<forall>p. rel_option (\<lambda>q q'. phandle q' = phandle q \<and> completions q' = completions q \<and> (pcallback q' \<longrightarrow> pcallback q))
     (ports w p) (ports w' p))"

lemma calmer_refl: "calmer w w"
  by (simp add: calmer_def option.rel_refl)

lemma calmer_trans:
  assumes "calmer w w1" "calmer w1 w2"
  shows "calmer w w2"
  unfolding calmer_def
proof
  fix p
  show "rel_option (\<lambda>q q'. phandle q' = phandle q \<and> completions q' = completions q \<and> (pcallback q' \<longrightarrow> pcallback q)) (ports w p) (ports w2 p)"
    using assms[unfolded calmer_def, rule_format, of p] by (cases "ports w p"; cases "ports w1 p"; cases "ports w2 p") auto
qed

lemma abort_calms:
  assumes "xinv w"
  shows "calmer w (xhr_callback p True w)" "ports (xhr_callback p True w) p = Some q \<Longrightarrow> \<not> pcallback q"
proof -
  have "calmer w (xhr_callback p True w) \<and> (\<forall>q. ports (xhr_callback p True w) p = Some q \<longrightarrow> \<not> pcallback q)"
  proof (cases "\<exists>q x. ports w p = Some q \<and> pxhr q = Some x \<and> pcallback q")
    case True
    then obtain q x where q: "ports w p = Some q" "pxhr q = Some x" "pcallback q" by blast
    have p2: "ports (xhr_callback p True w) = (ports w)(p := Some (on_xhr abort_xhr (retired q)))"
      using q retire_ports[OF q(1)] by (simp add: xhr_callback_def)
    then show ?thesis using q by (simp add: calmer_def option.rel_refl)
  next
    case False
    then have "xhr_callback p True w = w" by (intro callback_idle) blast
    moreover have "\<not> pcallback q" if "ports w p = Some q" for q
      using False that xinvD(1)[OF assms that] by (cases "pxhr q") (auto simp: port_ok_def)
    ultimately show ?thesis by (simp add: calmer_refl)
  qed
  then show "calmer w (xhr_callback p True w)" "ports (xhr_callback p True w) p = Some q \<Longrightarrow> \<not> pcallback q" by blast+
qed

lemma calmer_quiet: "calmer w w' \<Longrightarrow> (\<And>q. ports w p = Some q \<Longrightarrow> \<not> pcallback q) \<Longrightarrow> ports w' p = Some q' \<Longrightarrow> \<not> pcallback q'"
  unfolding calmer_def by (drule spec[of _ p]) (cases "ports w p"; auto)

lemma fold_abort_calms:
  "xinv w \<Longrightarrow> calmer w (fold (\<lambda>(h, p). xhr_callback p True) l w) \<and>
    (\<forall>p q. p \<in> snd ` set l \<longrightarrow> ports (fold (\<lambda>(h, p). xhr_callback p True) l w) p = Some q \<longrightarrow> \<not> pcallback q)"
proof (induction l arbitrary: w)
  case (Cons a l)
  obtain h p where a: "a = (h, p)" by (cases a)
  let ?w = "xhr_callback p True w" and ?f = "\<lambda>(h, p). xhr_callback p True"
  note IH = Cons.IH[OF xinv_callback[OF Cons.prems, of p True]] and A = abort_calms[OF Cons.prems, of p]
  have "calmer w (fold ?f l ?w)" using calmer_trans[OF A(1)] IH by blast
  moreover have "\<not> pcallback q" if "ports (fold ?f l ?w) p2 = Some q" "p2 = p \<or> p2 \<in> snd ` set l" for p2 q
    using that IH calmer_quiet[of ?w "fold ?f l ?w" p q] A(2) by blast
  ultimately show ?case by (auto simp: a)
qed (simp add: calmer_refl)

text \<open>
  Leaving the page aborts every request that has a handle and calls no \<open>complete\<close>.
\<close>

lemma unload_aborts_requests:
  assumes "xreaches ok True w" and "ports (run_xevent XUnload w) p = Some q"
  shows "(\<exists>q0. ports w p = Some q0 \<and> completions q = completions q0 \<and> phandle q = phandle q0) \<and> (phandle q \<noteq> None \<longrightarrow> \<not> pcallback q)"
proof -
  let ?w = "run_xevent XUnload w" and ?f = "\<lambda>(h, p). xhr_callback p True"
  have inv: "xinv w" and ie: "unloadAbort w" by (rule xinv_reachable[OF assms(1)]) (simp add: unload_reachable[OF assms(1)])
  have "calmer w ?w \<and> (phandle q \<noteq> None \<longrightarrow> \<not> pcallback q)"
  proof (cases "xhrCallbacks w")
    case None
    then have "?w = w" and "\<not> live w h p" for h using xinvD(2)[OF inv] ie by (simp_all add: table_ok_def)
    then show ?thesis using assms(2) by (auto simp: calmer_refl live_def)
  next
    case (Some l)
    then have w: "?w = fold ?f l w" and l: "\<And>h p. (h, p) \<in> set l \<longleftrightarrow> live w h p"
      using xinvD(2)[OF inv] ie by (simp_all add: table_ok_def xhrOnUnloadAbort_def)
    note F = fold_abort_calms[OF inv, of l]
    have "\<not> pcallback q" if h: "phandle q = Some h" for h
    proof
      assume "pcallback q"
      with F assms(2) h have "live w h p" unfolding w calmer_def live_def by (auto dest!: spec[of _ p] elim!: option.rel_cases)
      then have "p \<in> snd ` set l" using l by force
      with F assms(2) \<open>pcallback q\<close> show False unfolding w by blast
    qed
    then show ?thesis using F w by auto
  qed
  then show ?thesis using assms(2) unfolding calmer_def by (auto dest!: spec[of _ p] elim!: option.rel_cases)
qed

section \<open>Loading a script\<close>

text \<open>
  The transport of scripts from other sites: an element in front of the head's children, whose handlers
  take it out again. Elements are numbers; \<open>loads\<close> says which of them still have their handlers.
\<close>

datatype hnode = PageNode nat | Loader nat

record sport =
  s_set :: tsettings
  s_script :: "nat option" \<comment> \<open>the variable \<open>script\<close>\<close>
  s_started :: bool
  s_completions :: "(int \<times> string) list"

record sworld =
  sports :: "nat \<Rightarrow> sport option"
  head_nodes :: "hnode list"
  snext :: nat
  loads :: "nat \<Rightarrow> nat option" \<comment> \<open>the transport whose closure is \<open>onload\<close>\<close>
  ssrc :: "nat \<Rightarrow> string"
  scharset :: "nat \<Rightarrow> string option"

definition upd_sport :: "nat \<Rightarrow> (sport \<Rightarrow> sport) \<Rightarrow> sworld \<Rightarrow> sworld" where
  "upd_sport p f w = w\<lparr>sports := (sports w)(p := map_option f (sports w p))\<rparr>"

definition script_transport :: "tsettings \<Rightarrow> sport option" where
  "script_transport s =
     (if crossDomain s = Some True then Some \<lparr>s_set = s, s_script = None, s_started = False, s_completions = []\<rparr> else None)"

definition script_send :: "nat \<Rightarrow> sworld \<Rightarrow> sworld" where
  "script_send p w =
     (case sports w p of
        None \<Rightarrow> w
      | Some q \<Rightarrow>
          let e = snext w
          in upd_sport p (\<lambda>q. q\<lparr>s_script := Some e, s_started := True\<rparr>)
               (w\<lparr>snext := Suc e, loads := (loads w)(e := Some p), ssrc := (ssrc w)(e := url (s_set q)),
                  scharset := (scharset w)(e := if given (scriptCharset (s_set q)) then scriptCharset (s_set q) else None),
                  head_nodes := Loader e # head_nodes w\<rparr>))"

text \<open>\<open>/loaded|complete/\<close>\<close>

definition loaded_state :: re where
  "loaded_state = Alt (lit ''loaded'') (lit ''complete'')"

definition script_onload :: "nat \<Rightarrow> string \<Rightarrow> bool \<Rightarrow> sworld \<Rightarrow> sworld" where
  "script_onload p state isAbort w =
     (case sports w p of
        None \<Rightarrow> w
      | Some q \<Rightarrow>
          (case s_script q of
             None \<Rightarrow> w
           | Some e \<Rightarrow>
               if isAbort \<or> state = [] \<or> test loaded_state state
               then let w1 = w\<lparr>loads := (loads w)(e := None), head_nodes := filter (\<lambda>n. n \<noteq> Loader e) (head_nodes w)\<rparr>;
                        w2 = upd_sport p (\<lambda>q. q\<lparr>s_script := None\<rparr>) w1
                    in if isAbort then w2 else upd_sport p (\<lambda>q. q\<lparr>s_completions := s_completions q @ [(200, ''success'')]\<rparr>) w2
               else w))"

definition script_abort :: "nat \<Rightarrow> sworld \<Rightarrow> sworld" where
  "script_abort p w = (case sports w p of Some q \<Rightarrow> (if s_script q \<noteq> None then script_onload p [] True w else w) | None \<Rightarrow> w)"

datatype sevent =
    SNew nat tsettings
  | SSend nat
  | SLoad nat string \<comment> \<open>the browser calls the handler of an element, with its \<open>readyState\<close>\<close>
  | SAbort nat
  | SPage "hnode list" \<comment> \<open>the page gives the head other nodes, with loaders only out of those that are there\<close>

fun run_sevent :: "sevent \<Rightarrow> sworld \<Rightarrow> sworld" where
  "run_sevent (SNew p s) w =
     (if sports w p = None then (case script_transport s of Some q \<Rightarrow> w\<lparr>sports := (sports w)(p := Some q)\<rparr> | None \<Rightarrow> w) else w)"
| "run_sevent (SSend p) w = (case sports w p of Some q \<Rightarrow> if s_started q then w else script_send p w | None \<Rightarrow> w)"
| "run_sevent (SLoad e st) w = (case loads w e of Some p \<Rightarrow> script_onload p st False w | None \<Rightarrow> w)"
| "run_sevent (SAbort p) w = script_abort p w"
| "run_sevent (SPage ns) w =
     (if list_all (\<lambda>n. case n of Loader e \<Rightarrow> n \<in> set (head_nodes w) | _ \<Rightarrow> True) ns then w\<lparr>head_nodes := ns\<rparr> else w)"

definition no_scripts_loaded :: "hnode list \<Rightarrow> sworld" where
  "no_scripts_loaded ns =
     \<lparr>sports = (\<lambda>p. None), head_nodes = ns, snext = 0, loads = (\<lambda>e. None), ssrc = (\<lambda>e. []), scharset = (\<lambda>e. None)\<rparr>"

inductive sreaches :: "sworld \<Rightarrow> bool" where
  start: "list_all (\<lambda>n. case n of Loader e \<Rightarrow> False | _ \<Rightarrow> True) ns \<Longrightarrow> sreaches (no_scripts_loaded ns)"
| event: "sreaches w \<Longrightarrow> sreaches (run_sevent e w)"

definition sport_ok :: "sport \<Rightarrow> bool" where
  "sport_ok q \<longleftrightarrow> (s_script q \<noteq> None \<longrightarrow> s_started q \<and> s_completions q = []) \<and>
     (\<not> s_started q \<longrightarrow> s_completions q = []) \<and> length (s_completions q) \<le> 1"

definition sinv :: "sworld \<Rightarrow> bool" where
  "sinv w \<longleftrightarrow> (\<forall>p q. sports w p = Some q \<longrightarrow> sport_ok q) \<and>
     (\<forall>e p. loads w e = Some p \<longleftrightarrow> (\<exists>q. sports w p = Some q \<and> s_script q = Some e)) \<and>
     (\<forall>e. loads w e \<noteq> None \<longrightarrow> e < snext w) \<and> (\<forall>e. Loader e \<in> set (head_nodes w) \<longrightarrow> loads w e \<noteq> None)"

lemma sinvD:
  assumes "sinv w"
  shows "sports w p = Some q \<Longrightarrow> sport_ok q" "loads w e = Some p \<longleftrightarrow> (\<exists>q. sports w p = Some q \<and> s_script q = Some e)"
    "loads w e = Some p \<Longrightarrow> e < snext w" "Loader e \<in> set (head_nodes w) \<Longrightarrow> loads w e \<noteq> None"
  using assms unfolding sinv_def by blast+

lemma sinvI:
  assumes "\<And>p q. sports w p = Some q \<Longrightarrow> sport_ok q"
    and "\<And>e p. loads w e = Some p \<longleftrightarrow> (\<exists>q. sports w p = Some q \<and> s_script q = Some e)"
    and "\<And>e p. loads w e = Some p \<Longrightarrow> e < snext w" and "\<And>e. Loader e \<in> set (head_nodes w) \<Longrightarrow> loads w e \<noteq> None"
  shows "sinv w"
  using assms unfolding sinv_def by blast

lemma sinv_send:
  assumes inv: "sinv w" and q: "sports w p = Some q" "\<not> s_started q"
  shows "sinv (script_send p w)"
proof -
  let ?e = "snext w" and ?q = "q\<lparr>s_script := Some (snext w), s_started := True\<rparr>"
  have ok: "s_script q = None" "s_completions q = []" using sinvD(1)[OF inv q(1)] q(2) by (auto simp: sport_ok_def)
  have w': "sports (script_send p w) = (sports w)(p := Some ?q)" "loads (script_send p w) = (loads w)(?e := Some p)"
    "snext (script_send p w) = Suc ?e" "head_nodes (script_send p w) = Loader ?e # head_nodes w"
    using q(1) by (simp_all add: script_send_def upd_sport_def Let_def)
  have new: "loads w ?e = None" using sinvD(3)[OF inv, of ?e] by (cases "loads w ?e") auto
  then have "s_script q2 \<noteq> Some ?e" if "sports w p2 = Some q2" for p2 q2 using that sinvD(2)[OF inv, of ?e p2] by auto
  then show ?thesis
    using sinvD[OF inv] ok q(1) by (intro sinvI) (auto simp: w' sport_ok_def less_SucI split: if_splits)
qed

lemma sinv_onload:
  assumes inv: "sinv w"
  shows "sinv (script_onload p st b w)"
proof (cases "\<exists>q e. sports w p = Some q \<and> s_script q = Some e \<and> (b \<or> st = [] \<or> test loaded_state st)")
  case True
  then obtain q e where q: "sports w p = Some q" "s_script q = Some e" "b \<or> st = [] \<or> test loaded_state st" by blast
  let ?q = "q\<lparr>s_script := None, s_completions := s_completions q @ (if b then [] else [(200, ''success'')])\<rparr>"
  have ok: "s_started q" "s_completions q = []" using sinvD(1)[OF inv q(1)] q(2) by (auto simp: sport_ok_def)
  let ?w = "script_onload p st b w"
  have w': "sports ?w = (sports w)(p := Some ?q)" "loads ?w = (loads w)(e := None)" "snext ?w = snext w"
    "head_nodes ?w = filter (\<lambda>n. n \<noteq> Loader e) (head_nodes w)"
    using q by (auto simp: script_onload_def upd_sport_def Let_def)
  have e: "loads w e = Some p" using q sinvD(2)[OF inv] by blast
  have one: "p2 = p" if "sports w p2 = Some q2" "s_script q2 = Some e" for p2 q2
    using that e sinvD(2)[OF inv, of e p2] by auto
  have "loads ?w e2 = Some p2 \<longleftrightarrow> (\<exists>q2. sports ?w p2 = Some q2 \<and> s_script q2 = Some e2)" for e2 p2
  proof (cases "e2 = e")
    case True
    then have "s_script q2 \<noteq> Some e2" if "sports ?w p2 = Some q2" for q2
      using that one[of p2 q2] by (cases "p2 = p") (auto simp: w')
    with True show ?thesis by (simp add: w')
  next
    case False
    then show ?thesis using sinvD(2)[OF inv, of e2 p2] q by (cases "p2 = p") (simp_all add: w')
  qed
  moreover have "sport_ok q2" if "sports ?w p2 = Some q2" for p2 q2
    using that sinvD(1)[OF inv, of p2 q2] ok by (cases "p2 = p") (auto simp: w' sport_ok_def)
  moreover have "e2 < snext ?w" if "loads ?w e2 = Some p2" for e2 p2
    using that sinvD(3)[OF inv, of e2 p2] by (auto simp: w' split: if_splits)
  moreover have "loads ?w e2 \<noteq> None" if "Loader e2 \<in> set (head_nodes ?w)" for e2
    using that sinvD(4)[OF inv, of e2] by (auto simp: w')
  ultimately show ?thesis by (intro sinvI)
next
  case False
  then have "script_onload p st b w = w" by (auto simp: script_onload_def split: option.split)
  with inv show ?thesis by simp
qed

lemma sinv_reachable: "sreaches w \<Longrightarrow> sinv w"
proof (induction rule: sreaches.induct)
  case (start ns)
  then show ?case by (intro sinvI) (auto simp: no_scripts_loaded_def list_all_iff)
next
  case (event w e)
  note inv = event.IH
  show ?case
  proof (cases e)
    case (SNew p s)
    show ?thesis
    proof (cases "sports w p = None \<and> script_transport s \<noteq> None")
      case True
      then obtain q where q: "script_transport s = Some q" and n: "sports w p = None" by auto
      then have "s_script q = None" "sport_ok q" by (auto simp: script_transport_def sport_ok_def split: if_splits)
      with n have "sinv (w\<lparr>sports := (sports w)(p := Some q)\<rparr>)"
        using sinvD[OF inv] by (intro sinvI) (auto split: if_splits)
      with q n SNew show ?thesis by simp
    qed (use SNew inv in auto)
  next
    case (SSend p)
    then show ?thesis using inv sinv_send[OF inv, of p] by (auto split: option.split)
  next
    case (SLoad x st)
    then show ?thesis using inv sinv_onload by (auto split: option.split)
  next
    case (SAbort p)
    then show ?thesis using inv sinv_onload by (auto simp: script_abort_def split: option.split)
  next
    case (SPage ns)
    have "sinv (w\<lparr>head_nodes := ns\<rparr>)" if "list_all (\<lambda>n. case n of Loader e \<Rightarrow> n \<in> set (head_nodes w) | _ \<Rightarrow> True) ns"
    proof (rule sinvI)
      show "loads (w\<lparr>head_nodes := ns\<rparr>) x \<noteq> None" if "Loader x \<in> set (head_nodes (w\<lparr>head_nodes := ns\<rparr>))" for x
        using that \<open>list_all _ ns\<close> sinvD(4)[OF inv, of x] by (force simp: list_all_iff)
    qed (use sinvD[OF inv] in simp_all)
    with SPage inv show ?thesis by simp
  qed
qed

text \<open>
  A transport of scripts calls \<open>complete\<close> at most once, and the only loaders in the head are those
  of transports under way.
\<close>

lemma script_loaders_are_removed:
  assumes "sreaches w" and "sports w p = Some q"
  shows "length (s_completions q) \<le> 1" "s_script q \<noteq> None \<Longrightarrow> s_completions q = []"
    "Loader e \<in> set (head_nodes w) \<Longrightarrow> \<exists>p q. sports w p = Some q \<and> s_script q = Some e"
proof -
  note inv = sinv_reachable[OF assms(1)]
  show "length (s_completions q) \<le> 1" "s_script q \<noteq> None \<Longrightarrow> s_completions q = []"
    using sinvD(1)[OF inv assms(2)] by (auto simp: sport_ok_def)
  show "\<exists>p q. sports w p = Some q \<and> s_script q = Some e" if "Loader e \<in> set (head_nodes w)"
    using sinvD(4)[OF inv that] sinvD(2)[OF inv, of e] by auto
qed

section \<open>Requests answered by a call\<close>

text \<open>
  A jsonp request names a function of the window, which the script that answers it calls. What is under a
  name: nothing, another value, a function of the page, or the callback of a request. The worlds below hold the names, the
  values that were there before and the response of each request.
\<close>

datatype gvalue = GUndef | GValue nat | GFun nat | GJsonp nat

record jworld =
  window :: "string \<Rightarrow> gvalue"
  containers :: "nat \<Rightarrow> jsval option" \<comment> \<open>\<open>responseContainer\<close>\<close>
  previous :: "nat \<Rightarrow> gvalue"
  names :: "nat \<Rightarrow> string" \<comment> \<open>\<open>jsonpCallback\<close>\<close>
  jsc :: nat
  page_calls :: "(nat \<times> jsval) list"

datatype jcallback =
    JName string
  | JCount \<comment> \<open>the function of the settings, which counts\<close>
  | JReturns string \<comment> \<open>a function of the page and the name it returns\<close>

record jsettings = tsettings +
  jsonp :: "string option" \<comment> \<open>nothing for \<open>false\<close>\<close>
  jsonpCallback :: jcallback

definition callback_name :: "string \<Rightarrow> jsettings \<Rightarrow> jworld \<Rightarrow> string \<times> jworld" where
  "callback_name expando s w =
     (case jsonpCallback s of
        JName n \<Rightarrow> (n, w)
      | JReturns n \<Rightarrow> (n, w)
      | JCount \<Rightarrow> (expando @ ''_'' @ dec (jsc w), w\<lparr>jsc := Suc (jsc w)\<rparr>))"

text \<open>\<open>/(\=)\?(&|$)|\?\?/i\<close>\<close>

definition jsre :: re where
  "jsre = Alt (seqs [Grp 1 (ch CHR ''=''), ch CHR ''?'', Grp 2 (Alt (ch CHR ''&'') Eol)]) (lit ''??'')"

text \<open>The text of a replacement, with the references of the language to the match and its two groups.\<close>

fun expand :: "found \<Rightarrow> string \<Rightarrow> string \<Rightarrow> string" where
  "expand m s [] = []"
| "expand m s [c] = [c]"
| "expand m s (c # d # r) =
     (if c \<noteq> CHR ''$'' then c # expand m s (d # r)
      else if d = CHR ''$'' then CHR ''$'' # expand m s r
      else if d = CHR ''&'' then whole m @ expand m s r
      else if d = CHR 0x60 then take (index m) s @ expand m s r
      else if d = CHR 0x27 then drop (index m + length (whole m)) s @ expand m s r
      else if d = CHR ''1'' then gtext m 1 @ expand m s r
      else if d = CHR ''2'' then gtext m 2 @ expand m s r
      else if d = CHR ''0'' \<and> r \<noteq> [] \<and> hd r = CHR ''1'' then gtext m 1 @ expand m s (tl r)
      else if d = CHR ''0'' \<and> r \<noteq> [] \<and> hd r = CHR ''2'' then gtext m 2 @ expand m s (tl r)
      else c # expand m s (d # r))"

definition js_replace :: "re \<Rightarrow> string \<Rightarrow> string \<Rightarrow> string" where
  "js_replace r t s =
     (case exec r s of
        None \<Rightarrow> s
      | Some m \<Rightarrow> take (index m) s @ expand m s t @ drop (index m + length (whole m)) s)"

definition inspect_data :: "jsettings \<Rightarrow> bool" where
  "inspect_data s \<longleftrightarrow> contentType s = Some ''application/x-www-form-urlencoded'' \<and> sdata s \<noteq> None"

definition wants_jsonp :: "jsettings \<Rightarrow> bool" where
  "wants_jsonp s \<longleftrightarrow> (dataTypes s \<noteq> [] \<and> hd (dataTypes s) = ''jsonp'') \<or>
     (jsonp s \<noteq> None \<and> (test jsre (url s) \<or> (inspect_data s \<and> test jsre (the (sdata s)))))"

text \<open>The name goes where the address or the data ask for it, and otherwise behind the address.\<close>

definition jsonp_address :: "string \<Rightarrow> jsettings \<Rightarrow> string \<times> string option" where
  "jsonp_address n s =
     (case jsonp s of
        None \<Rightarrow> (url s, sdata s)
      | Some key \<Rightarrow>
          let t = ''$1'' @ n @ ''$2''; u = js_replace jsre t (url s)
          in if u \<noteq> url s then (u, sdata s)
             else let d = (if inspect_data s then map_option (js_replace jsre t) (sdata s) else sdata s)
                  in if d \<noteq> sdata s then (u, d) else (append_query u (key @ ''='' @ n), d))"

definition prefilter_jsonp :: "string \<Rightarrow> nat \<Rightarrow> jsettings \<Rightarrow> jworld \<Rightarrow> selection \<times> jsettings \<times> jworld" where
  "prefilter_jsonp expando r s w =
     (if \<not> wants_jsonp s then (Nothing, s, w)
      else case callback_name expando s w of (n, w1) \<Rightarrow>
        (Redirect ''script'',
         s\<lparr>jsonpCallback := JName n, url := fst (jsonp_address n s), sdata := snd (jsonp_address n s),
           dataTypes := ''json'' # tl (dataTypes s)\<rparr>,
         w1\<lparr>previous := (previous w1)(r := window w1 n), names := (names w1)(r := n), containers := (containers w1)(r := None),
            window := (window w1)(n := GJsonp r)\<rparr>))"

text \<open>A call of what the window has under a name; it throws when that is no function.\<close>

definition call_window :: "string \<Rightarrow> jsval \<Rightarrow> jworld \<Rightarrow> jworld outcome" where
  "call_window n v w =
     (case window w n of
        GJsonp r \<Rightarrow> Returned (w\<lparr>containers := (containers w)(r := Some v)\<rparr>)
      | GFun f \<Rightarrow> Returned (w\<lparr>page_calls := page_calls w @ [(f, v)]\<rparr>)
      | _ \<Rightarrow> Threw w)"

definition is_function :: "gvalue \<Rightarrow> bool" where
  "is_function g \<longleftrightarrow> (case g of GFun f \<Rightarrow> True | GJsonp r \<Rightarrow> True | _ \<Rightarrow> False)"

text \<open>What runs when the request is over, whichever way: the name gets back what was there.\<close>

definition jsonp_cleanup :: "nat \<Rightarrow> jworld \<Rightarrow> jworld" where
  "jsonp_cleanup r w =
     (let w1 = w\<lparr>window := (window w)(names w r := previous w r)\<rparr>
      in case containers w r of
           Some v \<Rightarrow> if is_function (previous w r) then state_of (call_window (names w r) v w1) else w1
         | None \<Rightarrow> w1)"

definition jsonp_convert :: "nat \<Rightarrow> jworld \<Rightarrow> jsval + jsval" where
  "jsonp_convert r w = (case containers w r of Some v \<Rightarrow> Inr v | None \<Rightarrow> Inl (Str (names w r @ '' was not called'')))"

text \<open>The settings with the converter of a request, when it is asked in a state of the page.\<close>

definition jsonp_ready :: "nat \<Rightarrow> jworld \<Rightarrow> settings \<Rightarrow> settings" where
  "jsonp_ready r w s = s\<lparr>converters := AList.update ''script json'' (Conv (\<lambda>v. jsonp_convert r w)) (converters s)\<rparr>"

section \<open>Settings of the two types\<close>

definition jsonp_defaults :: "jsettings \<Rightarrow> jsettings" where
  "jsonp_defaults s = s\<lparr>jsonp := Some ''callback'', jsonpCallback := JCount\<rparr>"

definition script_content :: "string \<Rightarrow> bool" where
  "script_content = test (Alt (lit ''javascript'') (lit ''ecmascript''))"

text \<open>\<open>eval\<close> runs a text as a script; it returns what it throws.\<close>

definition script_defaults :: "(string \<Rightarrow> jsval option) \<Rightarrow> settings \<Rightarrow> settings" where
  "script_defaults eval s =
     s\<lparr>accepts := AList.update ''script'' ''text/javascript, application/javascript, application/ecmascript, application/x-ecmascript'' (accepts s),
       contents := AList.update ''script'' script_content (contents s),
       converters := AList.update ''text script'' (Conv (\<lambda>v. case v of
           Str t \<Rightarrow> (case eval t of None \<Rightarrow> Inr v | Some e \<Rightarrow> Inl e) | _ \<Rightarrow> Inr v)) (converters s)\<rparr>"

definition prefilter_script :: "settings \<Rightarrow> settings" where
  "prefilter_script s =
     (let s1 = (if cache s = None then s\<lparr>cache := Some False\<rparr> else s)
      in if crossDomain s1 = Some True then s1\<lparr>atype := ''GET'', global := False\<rparr> else s1)"

section \<open>Several requests\<close>

definition begin_jsonp :: "string \<Rightarrow> nat \<Rightarrow> jsettings \<Rightarrow> jworld \<Rightarrow> jworld" where
  "begin_jsonp expando r s w = snd (snd (prefilter_jsonp expando r s w))"

text \<open>
  The requests under way, the latest first, and the page with them. A request begins under a name that no other one
  under way has; scripts call what they find, and requests end in any order.
\<close>

inductive jreaches :: "string \<Rightarrow> (string \<Rightarrow> gvalue) \<Rightarrow> nat list \<Rightarrow> jworld \<Rightarrow> bool" for expando g where
  start: "window w = g \<Longrightarrow> jreaches expando g [] w"
| opens: "jreaches expando g rs w \<Longrightarrow> wants_jsonp s \<Longrightarrow> r \<notin> set rs \<Longrightarrow>
    fst (callback_name expando s w) \<notin> names w ` set rs \<Longrightarrow> jreaches expando g (r # rs) (begin_jsonp expando r s w)"
| run: "jreaches expando g rs w \<Longrightarrow> jreaches expando g rs (state_of (call_window n v w))"
| ends: "jreaches expando g rs w \<Longrightarrow> r \<in> set rs \<Longrightarrow> jreaches expando g (filter (\<lambda>x. x \<noteq> r) rs) (jsonp_cleanup r w)"

lemma callback_name_world [simp]:
  "window (snd (callback_name x s w)) = window w" "names (snd (callback_name x s w)) = names w"
  "previous (snd (callback_name x s w)) = previous w" "containers (snd (callback_name x s w)) = containers w"
  "page_calls (snd (callback_name x s w)) = page_calls w"
  by (cases "jsonpCallback s"; simp add: callback_name_def)+

lemma begin_jsonp_world:
  assumes "wants_jsonp s" and "fst (callback_name x s w) = n"
  shows "window (begin_jsonp x r s w) = (window w)(n := GJsonp r)" "names (begin_jsonp x r s w) = (names w)(r := n)"
    "previous (begin_jsonp x r s w) = (previous w)(r := window w n)" "containers (begin_jsonp x r s w) = (containers w)(r := None)"
  using assms by (simp_all add: begin_jsonp_def prefilter_jsonp_def case_prod_beta)

lemma call_window_world [simp]:
  "window (state_of (call_window n v w)) = window w" "names (state_of (call_window n v w)) = names w"
  "previous (state_of (call_window n v w)) = previous w"
  by (simp_all add: call_window_def split: gvalue.split)

lemma jsonp_cleanup_world [simp]:
  "window (jsonp_cleanup r w) = (window w)(names w r := previous w r)" "names (jsonp_cleanup r w) = names w"
  "previous (jsonp_cleanup r w) = previous w"
  by (simp_all add: jsonp_cleanup_def Let_def split: option.split)

definition jsonp_inv :: "(string \<Rightarrow> gvalue) \<Rightarrow> nat list \<Rightarrow> jworld \<Rightarrow> bool" where
  "jsonp_inv g rs w \<longleftrightarrow> distinct (map (names w) rs) \<and> (\<forall>r\<in>set rs. window w (names w r) = GJsonp r \<and> previous w r = g (names w r)) \<and>
     (\<forall>n. n \<notin> names w ` set rs \<longrightarrow> window w n = g n)"

lemma jsonp_inv_reachable: "jreaches x g rs w \<Longrightarrow> jsonp_inv g rs w"
proof (induction rule: jreaches.induct)
  case (opens rs w s r)
  let ?n = "fst (callback_name x s w)"
  note B = begin_jsonp_world[OF opens.hyps(2) refl, where x = x and w = w and r = r]
  have "map (names (begin_jsonp x r s w)) rs = map (names w) rs" using opens.hyps(3) by (auto simp: B)
  moreover have "names w ra \<noteq> ?n" if "ra \<in> set rs" for ra using that opens.hyps(4) by (metis imageI)
  ultimately show ?case
    using opens.IH opens.hyps(3,4) by (auto simp: jsonp_inv_def B)
next
  case (run rs w n v)
  then show ?case by (simp add: jsonp_inv_def)
next
  case (ends rs w r)
  have d: "inj_on (names w) (set rs)" using ends.IH by (simp add: jsonp_inv_def distinct_map)
  have "distinct (map (names w) (filter (\<lambda>x. x \<noteq> r) rs))"
    using ends.IH by (auto simp: jsonp_inv_def distinct_map intro: inj_on_subset)
  moreover have "names w r' \<noteq> names w r" if "r' \<in> set rs" "r' \<noteq> r" for r'
    using that ends.hyps(2) d by (auto dest: inj_onD)
  ultimately show ?case using ends.IH ends.hyps(2) by (auto simp: jsonp_inv_def)
qed (simp add: jsonp_inv_def)

text \<open>
  C35: while jsonp requests under way have different names, each name holds the callback of its request, every other name holds
  what the page had put there, and when all requests are over, in whatever order, the window is as it was before.
\<close>

theorem jsonp_keeps_window:
  assumes "jreaches expando g rs w"
  shows "(\<forall>r\<in>set rs. window w (names w r) = GJsonp r) \<and> (\<forall>n. n \<notin> names w ` set rs \<longrightarrow> window w n = g n) \<and>
    (rs = [] \<longrightarrow> window w = g)"
  using jsonp_inv_reachable[OF assms] by (auto simp: jsonp_inv_def)

section \<open>The response of a request\<close>

lemma fold_lower_keys:
  assumes "\<forall>k\<in>fst ` set cvs. to_lower k = k"
  shows "map_of (fold (\<lambda>(k, c). AList.update (to_lower k) c) cvs m) k =
    (case map_of (rev cvs) k of Some c \<Rightarrow> Some c | None \<Rightarrow> map_of m k)"
  using assms
proof (induction cvs arbitrary: m)
  case (Cons a cvs)
  obtain k' c where a: "a = (k', c)" by (cases a)
  from Cons show ?case by (simp add: a map_add_def update_conv' split: option.split)
qed simp

lemma jsonp_converts:
  assumes "\<forall>k\<in>fst ` set (converters s). to_lower k = k" "distinct (map fst (converters s))"
  shows "ajaxConvert (jsonp_ready r w s) [''script'', ''json''] v =
    (case jsonp_convert r w of Inl e \<Rightarrow> Inl (Thrown e) | Inr x \<Rightarrow> Inr x)"
proof -
  let ?c = "AList.update ''script json'' (Conv (\<lambda>v. jsonp_convert r w)) (converters s)"
  have l: "to_lower ''script json'' = ''script json''" by code_simp
  have "fst ` set ?c = insert ''script json'' (fst ` set (converters s))" by (simp add: dom_update)
  then have k: "\<forall>k\<in>fst ` set ?c. to_lower k = k" using assms(1) l by auto
  have "map_of (rev ?c) = map_of ?c" using assms(2) by (subst map_of_inject_set) (simp_all add: distinct_update rev_map[symmetric])
  then have "map_of (lower_keys ?c) ''script json'' = Some (Conv (\<lambda>v. jsonp_convert r w))"
    using fold_lower_keys[OF k, of "[]" "''script json''"] by (simp add: lower_keys_def update_conv')
  then show ?thesis
    by (simp add: ajaxConvert_def jsonp_ready_def Let_def converter_for_def run_conv_def split: sum.split)
qed

text \<open>
  C36: a jsonp request whose script calls the function that the window has under its name is resolved with the
  argument of the call when the script has loaded, and otherwise rejected with the message that the function was not called.
\<close>

theorem jsonp_delivers:
  assumes s: "wants_jsonp s" and w1: "w1 = begin_jsonp expando r s w" and n: "n = names w1 r"
    and w2: "w2 = (if called then state_of (call_window n v w1) else w1)"
    and q: "reqs aw r = Some q" "rstate q \<noteq> 2" "deferred q = None" "ifModified (rset q) = False"
      "dataTypes (rset q) = [''script'', ''json'']" "rset q = jsonp_ready r w2 s0"
    and c: "\<forall>k\<in>fst ` set (converters s0). to_lower k = k" "distinct (map fst (converters s0))"
  shows "\<exists>q'. reqs (done_begin r 200 ''success'' None [] aw) r = Some q' \<and>
    deferred q' = Some (if called then Resolved (Some v) else Rejected (Some (Str (n @ '' was not called''))))"
proof -
  note B = begin_jsonp_world[OF s refl, where x = expando and w = w and r = r, folded w1]
  let ?q = "done_settle 200 ''success'' None (done_start 200 [] q)"
  have "jsonp_convert r w2 = (if called then Inr v else Inl (Str (n @ '' was not called'')))"
    unfolding w2 n by (simp add: jsonp_convert_def call_window_def B)
  then have "ajaxConvert (rset q) [''script'', ''json''] x =
      (if called then Inr v else Inl (Thrown (Str (n @ '' was not called''))))" for x
    unfolding q(6) jsonp_converts[OF c] by simp
  then have out: "outcome_of (rset q) 200 ''success'' (dataTypes (rset q), None) =
      (if called then (True, ''success'', Some v, 200) else (False, ''parsererror'', Some (Str (n @ '' was not called'')), 200))"
    using q(5) by (simp add: outcome_of_def is_success_def)
  have same: "s\<lparr>dataTypes := dataTypes s\<rparr> = s" for s :: settings by (cases s) simp
  have "deferred ?q = Some (if called then Resolved (Some v) else Rejected (Some (Str (n @ '' was not called''))))"
    using q(3) by (simp add: done_settle_def done_start_def done_response_def Let_def out same)
  moreover have "reqs (done_begin r 200 ''success'' None [] aw) r = Some ?q"
    using q(1,2,4) by (simp add: done_begin_def Let_def done_start_def)
  ultimately show ?thesis by blast
qed

text \<open>
  Two jsonp requests under way with the same name: whichever script answers, the later request gets the response and the
  earlier one counts as not called; and when the earlier one ends first, its dead callback stays in the window for good.
\<close>

theorem same_name_jsonp_confuses:
  assumes "wants_jsonp s1" "wants_jsonp s2" "jsonpCallback s1 = JName n" "jsonpCallback s2 = JName n" "a \<noteq> b"
    and w2: "w2 = begin_jsonp expando b s2 (begin_jsonp expando a s1 w)"
  shows "\<exists>w3. call_window n v w2 = Returned w3 \<and> jsonp_convert b w3 = Inr v \<and> jsonp_convert a w3 = Inl (Str (n @ '' was not called'')) \<and>
    window (jsonp_cleanup b (jsonp_cleanup a w3)) n = GJsonp a"
proof -
  have nm: "fst (callback_name expando s1 w) = n" "fst (callback_name expando s2 w') = n" for w w' :: jworld
    using assms(3,4) by (simp_all add: callback_name_def)
  note B = begin_jsonp_world[OF assms(1) nm(1), where w = w and r = a] begin_jsonp_world[OF assms(2) nm(2), where r = b]
  show ?thesis using assms(5) unfolding w2 by (simp add: call_window_def jsonp_convert_def B)
qed

section \<open>Witnesses\<close>

definition some_request :: tsettings where
  "some_request = settings.extend some_settings (tsettings.fields None None [] False None)"

definition answers_at :: "nat \<Rightarrow> string read \<Rightarrow> answers" where
  "answers_at n t = \<lparr>a_ready = Reads n, a_status = Reads 200, a_headers = Reads [], a_xml = Reads None, a_text = t,
     a_statusText = Reads ''OK'', a_abort = Reads ()\<rparr>"

definition some_host :: browser where
  "some_host = \<lparr>makes_standard = True, makes_active = True, b_open = Reads (), overrides_mime = True, takes_header = (\<lambda>n. True),
     b_send = Reads (), after_send = answers_at 1 (Reads [])\<rparr>"

definition some_xevents :: "xevent list" where
  "some_xevents = [XNew 0 False some_request, XSend 0 some_host [], XChange 0 (answers_at 4 (Reads ''hi''))]"

definition run_xevents :: "xevent list \<Rightarrow> xworld \<Rightarrow> xworld" where
  "run_xevents es w = fold run_xevent es w"

lemma xreaches_run: "xreaches ok ie w \<Longrightarrow> list_all ok es \<Longrightarrow> xreaches ok ie (run_xevents es w)"
proof (induction es arbitrary: w)
  case (Cons e es)
  then show ?case using xreaches.event[of ok ie w e] by (simp add: run_xevents_def)
qed (simp add: run_xevents_def)

lemma some_page_reached: "xreaches readable_event True (run_xevents some_xevents (no_ports True))"
  by (rule xreaches_run[OF xreaches.start]) code_simp

theorem transport_completes_once_witness:
  "\<exists>q. ports (run_xevents some_xevents (no_ports True)) 0 = Some q \<and> length (completions q) \<le> 1 \<and>
    map c_status (completions q) = [Some 200] \<and> \<not> pcallback q"
proof -
  let ?w = "run_xevents some_xevents (no_ports True)"
  have e: "map_option (\<lambda>q. (map c_status (completions q), pcallback q)) (ports ?w 0) = Some ([Some 200], False)"
    by code_simp
  then obtain q where q: "ports ?w 0 = Some q" by auto
  with e transport_completes_once[OF some_page_reached] show ?thesis by auto
qed

definition half_page :: xworld where
  "half_page = run_xevents [XNew 0 False some_request, XSend 0 (some_host\<lparr>after_send := answers_at 1 (Throws ''denied'')\<rparr>) []] (no_ports False)"

definition some_req :: req where
  "some_req = make_req some_location None None some_settings"

definition one_request :: ajaxw where
  "one_request = no_requests\<lparr>reqs := (\<lambda>r. if r = 0 then Some some_req else None)\<rparr>"

theorem unreadable_response_fails_request_witness:
  "\<exists>q' rq'. ports (xhr_callback 0 False (upd_port 0 (on_xhr (\<lambda>x. x\<lparr>ans := answers_at 4 (Throws ''denied'')\<rparr>)) half_page)) 0 = Some q' \<and>
    length (completions q') = 2 \<and> reqs (fold (tell 0) (completions q') one_request) 0 = Some rq' \<and>
    deferred rq' = Some (Rejected (Some (Str ''denied'')))"
proof -
  let ?w = "upd_port 0 (on_xhr (\<lambda>x. x\<lparr>ans := answers_at 4 (Throws ''denied'')\<rparr>)) half_page"
  have e: "map_option (\<lambda>q. (pcallback q, completions q, map_option (\<lambda>x. a_ready (ans x)) (pxhr q))) (ports half_page 0) = Some (True, [], Some (Reads 1))"
    by code_simp
  then obtain q x where q: "ports half_page 0 = Some q" "pxhr q = Some x" "pcallback q" "completions q = []" by auto
  have h: "half_read (ans (x\<lparr>ans := answers_at 4 (Throws ''denied'')\<rparr>)) 200 [] ''denied''"
    by (simp add: half_read_def answers_at_def)
  have w: "ports ?w 0 = Some (on_xhr (\<lambda>x. x\<lparr>ans := answers_at 4 (Throws ''denied'')\<rparr>) q)" using q(1) by simp
  have r: "reqs one_request 0 = Some some_req" "rstate some_req \<noteq> 2" "deferred some_req = None"
    by (simp_all add: one_request_def some_req_def make_req_def Let_def)
  show ?thesis
    using unreadable_response_fails_request[OF w _ _ _ h r(1,2)] q(2-4) r(3) by auto
qed

definition some_jsonp :: jsettings where
  "some_jsonp = tsettings.extend (some_request\<lparr>dataTypes := [''jsonp'']\<rparr>) (jsettings.fields (Some ''callback'') JCount)"

definition some_window :: jworld where
  "some_window = \<lparr>window = (\<lambda>n. if n = ''f'' then GFun 7 else GUndef), containers = (\<lambda>r. None), previous = (\<lambda>r. GUndef),
     names = (\<lambda>r. []), jsc = 5, page_calls = []\<rparr>"

lemma some_jsonp_wants: "wants_jsonp some_jsonp"
  by (simp add: wants_jsonp_def some_jsonp_def jsettings.defs tsettings.defs)

theorem jsonp_keeps_window_witness:
  "window (jsonp_cleanup 3 (begin_jsonp ''jQuery16'' 3 some_jsonp some_window)) = window some_window"
proof -
  have "jreaches ''jQuery16'' (window some_window) [] some_window" by (rule jreaches.start) simp
  then have "jreaches ''jQuery16'' (window some_window) [3] (begin_jsonp ''jQuery16'' 3 some_jsonp some_window)"
    by (rule jreaches.opens) (simp_all add: some_jsonp_wants)
  then have "jreaches ''jQuery16'' (window some_window) (filter (\<lambda>x. x \<noteq> 3) [3])
      (jsonp_cleanup 3 (begin_jsonp ''jQuery16'' 3 some_jsonp some_window))"
    by (rule jreaches.ends) simp
  from jsonp_keeps_window[OF this] show ?thesis by simp
qed

theorem same_name_jsonp_confuses_witness:
  "\<exists>w3. call_window ''cb'' (Num 1) (begin_jsonp [] 2 (some_jsonp\<lparr>jsonpCallback := JName ''cb''\<rparr>)
      (begin_jsonp [] 1 (some_jsonp\<lparr>jsonpCallback := JName ''cb''\<rparr>) some_window)) = Returned w3 \<and>
    jsonp_convert 2 w3 = Inr (Num 1) \<and> jsonp_convert 1 w3 = Inl (Str ''cb was not called'')"
proof -
  have w: "wants_jsonp (some_jsonp\<lparr>jsonpCallback := JName ''cb''\<rparr>)"
    by (simp add: wants_jsonp_def some_jsonp_def jsettings.defs tsettings.defs)
  show ?thesis
    using same_name_jsonp_confuses[OF w w, of "''cb''" 1 2 _ "[]" some_window "Num 1"] by auto
qed

definition jsonp_req :: "jworld \<Rightarrow> req" where
  "jsonp_req w = some_req\<lparr>rset := jsonp_ready 0 w (some_settings\<lparr>dataTypes := [''script'', ''json'']\<rparr>)\<rparr>"

theorem jsonp_delivers_witness:
  "\<exists>q'. reqs (done_begin 0 200 ''success'' None [] (no_requests\<lparr>reqs := (\<lambda>r. if r = 0 then Some (jsonp_req
       (state_of (call_window ''jQuery16_5'' (Num 42) (begin_jsonp ''jQuery16'' 0 some_jsonp some_window)))) else None)\<rparr>)) 0 = Some q' \<and>
    deferred q' = Some (Resolved (Some (Num 42)))"
proof -
  let ?w1 = "begin_jsonp ''jQuery16'' 0 some_jsonp some_window"
  let ?w2 = "state_of (call_window ''jQuery16_5'' (Num 42) ?w1)"
  let ?aw = "no_requests\<lparr>reqs := (\<lambda>r. if r = 0 then Some (jsonp_req ?w2) else None)\<rparr>"
  have n: "''jQuery16_5'' = names ?w1 0" by code_simp
  have c: "\<forall>k\<in>fst ` set (converters (some_settings\<lparr>dataTypes := [''script'', ''json'']\<rparr>)). to_lower k = k"
    "distinct (map fst (converters (some_settings\<lparr>dataTypes := [''script'', ''json'']\<rparr>)))" by code_simp+
  have q: "reqs ?aw 0 = Some (jsonp_req ?w2)" "rstate (jsonp_req ?w2) \<noteq> 2" "deferred (jsonp_req ?w2) = None"
    "ifModified (rset (jsonp_req ?w2)) = False" "dataTypes (rset (jsonp_req ?w2)) = [''script'', ''json'']"
    "rset (jsonp_req ?w2) = jsonp_ready 0 ?w2 (some_settings\<lparr>dataTypes := [''script'', ''json'']\<rparr>)"
    by (simp_all add: jsonp_req_def some_req_def make_req_def Let_def jsonp_ready_def some_settings_def)
  show ?thesis
    using jsonp_delivers[OF some_jsonp_wants refl n, of ?w2 True "Num 42", OF _ q c] by simp
qed

end
