(* ===== verification/JQ_Load.thy ===== *)
theory JQ_Load
  imports JQ_Ajax JQ_Attr JQ_Extend JQ_Regex
begin

text \<open>
  The functions around \<open>jQuery.ajax\<close> in jquery-1.6.4.js: settings made of defaults and options, the fields of a
  form and their serialisation, the short forms of requests, and \<open>load\<close>.
\<close>

section \<open>Settings made of objects\<close>

text \<open>\<open>flatOptions\<close>\<close>

definition flat_option :: "string \<Rightarrow> bool" where
  "flat_option k \<longleftrightarrow> k = ''context'' \<or> k = ''url''"

text \<open>The loop: flat options go to the target, the others into an object that is made for the first of them.\<close>

fun sort_options :: "nat \<Rightarrow> jsval \<Rightarrow> string list \<Rightarrow> nat option \<Rightarrow> heap \<Rightarrow> nat option \<times> heap" where
  "sort_options t src [] deep h = (deep, h)"
| "sort_options t src (k # ks) deep h =
     (let v = read h src k
      in if v = Undefined then sort_options t src ks deep h
         else if flat_option k then sort_options t src ks deep (obj_set t k v h)
         else (case deep of
                 Some d \<Rightarrow> sort_options t src ks deep (obj_set d k v h)
               | None \<Rightarrow> (case alloc empty_obj h of (d, h1) \<Rightarrow> sort_options t src ks (Some d) (obj_set d k v h1))))"

definition ajaxExtend :: "nat \<Rightarrow> nat \<Rightarrow> jsval \<Rightarrow> heap \<Rightarrow> heap option" where
  "ajaxExtend fuel t src h =
     (case sort_options t src (keys_of h src) None h of
        (None, h1) \<Rightarrow> Some h1
      | (Some d, h1) \<Rightarrow> extend_into fuel True t [Ref d] h1)"

text \<open>With two arguments the target takes the defaults and the settings, with one the defaults take it.\<close>

definition ajaxSetup :: "nat \<Rightarrow> nat \<Rightarrow> nat \<Rightarrow> jsval \<Rightarrow> heap \<Rightarrow> (nat \<times> heap) option" where
  "ajaxSetup fuel defaults target settings h =
     (if truthy settings
      then (case ajaxExtend fuel target (Ref defaults) h of
              None \<Rightarrow> None | Some h1 \<Rightarrow> map_option (Pair target) (ajaxExtend fuel target settings h1))
      else map_option (Pair defaults) (ajaxExtend fuel defaults (Ref target) h))"

text \<open>\<open>/^(?:about|app|app\-storage|.+\-extension|file|res|widget):$/\<close>\<close>

definition rlocalProtocol :: "string \<Rightarrow> bool" where
  "rlocalProtocol s = test (seqs [Bol, alts_of [lit ''about'', lit ''app'', lit ''app-storage'', Seq (some dot) (lit ''-extension''),
     lit ''file'', lit ''res'', lit ''widget''], ch CHR '':'', Eol]) s"

section \<open>The fields of forms\<close>

definition rselectTextarea :: "string \<Rightarrow> bool" where
  "rselectTextarea s \<longleftrightarrow> starts_with ''select'' (to_lower s) \<or> starts_with ''textarea'' (to_lower s)"

definition rinput :: "string \<Rightarrow> bool" where
  "rinput s \<longleftrightarrow> to_lower s \<in> set [''color'', ''date'', ''datetime'', ''datetime-local'', ''email'', ''hidden'', ''month'', ''number'',
     ''password'', ''range'', ''search'', ''tel'', ''text'', ''time'', ''url'', ''week'']"

text \<open>\<open>replace(/\r?\n/g, "\r\n")\<close>\<close>

fun rCRLF :: "string \<Rightarrow> string" where
  "rCRLF [] = []"
| "rCRLF (c # cs) =
     (if c = CHR 0x0A then CHR 0x0D # CHR 0x0A # rCRLF cs
      else if c = CHR 0x0D \<and> cs \<noteq> [] \<and> hd cs = CHR 0x0A then CHR 0x0D # CHR 0x0A # rCRLF (tl cs)
      else c # rCRLF cs)"

definition successful :: "browser \<Rightarrow> form \<Rightarrow> nat \<Rightarrow> bool" where
  "successful b w e =
     (let ps = nprops (nodes w e)
      in truthy (pget ps ''name'') \<and> \<not> truthy (pget ps ''disabled'') \<and>
         (truthy (pget ps ''checked'') \<or> rselectTextarea (ntag (nodes w e)) \<or> rinput (text_form b (pget ps ''type''))))"

text \<open>A value with its line ends; only a text has the method.\<close>

definition field_value :: "jsval \<Rightarrow> string option" where
  "field_value v = (case v of Str s \<Rightarrow> Some (rCRLF s) | _ \<Rightarrow> None)"

fun all_some :: "'a option list \<Rightarrow> 'a list option" where
  "all_some [] = Some []"
| "all_some (x # xs) = (case x of None \<Rightarrow> None | Some a \<Rightarrow> map_option ((#) a) (all_some xs))"

text \<open>The pairs of one element; \<open>None\<close> is a thrown exception.\<close>

definition fields_of :: "browser \<Rightarrow> chooser \<Rightarrow> form \<Rightarrow> nat \<Rightarrow> (string \<times> string) list option" where
  "fields_of b co w e =
     (let name = text_form b (pget (nprops (nodes w e)) ''name'')
      in case fn_val_get b co w e of
           None \<Rightarrow> None
         | Some (VMany vs) \<Rightarrow> all_some (map (\<lambda>v. map_option (Pair name) (field_value v)) vs)
         | Some (VOne v) \<Rightarrow> if nullish v then Some [] else map_option (\<lambda>x. [(name, x)]) (field_value v))"

definition serializeArray :: "browser \<Rightarrow> chooser \<Rightarrow> (nat \<Rightarrow> nat list option) \<Rightarrow> form \<Rightarrow> nat list \<Rightarrow> (string \<times> string) list option" where
  "serializeArray b co elements w es =
     (let controls = concat (map (\<lambda>e. case elements e of Some xs \<Rightarrow> xs | None \<Rightarrow> [e]) es)
      in map_option concat (all_some (map (fields_of b co w) (filter (successful b w) controls))))"

definition serialize :: "browser \<Rightarrow> chooser \<Rightarrow> (nat \<Rightarrow> nat list option) \<Rightarrow> form \<Rightarrow> nat list \<Rightarrow> string option" where
  "serialize b co elements w es = map_option (\<lambda>ps. param (FormFields ps) False) (serializeArray b co elements w es)"

section \<open>Reading it back\<close>

text \<open>How a server reads such a text: pieces between ampersands, the first equals sign, plus signs, bytes, characters.\<close>

definition hex_value :: "char \<Rightarrow> nat" where
  "hex_value c = (let n = of_char c in if n < 58 then n - 48 else if n < 71 then n - 55 else n - 87)"

fun unescape :: "string \<Rightarrow> nat list" where
  "unescape [] = []"
| "unescape (c # cs) =
     (if c = CHR ''+'' then 32 # unescape cs
      else case cs of
             a # b # r \<Rightarrow> if c = CHR ''%'' then (16 * hex_value a + hex_value b) # unescape r else of_char c # unescape cs
           | _ \<Rightarrow> of_char c # unescape cs)"

fun utf8 :: "nat list \<Rightarrow> string" where
  "utf8 [] = []"
| "utf8 (n # ns) =
     (if n < 128 then char_of n # utf8 ns
      else case ns of m # r \<Rightarrow> char_of (64 * (n - 192) + (m - 128)) # utf8 r | [] \<Rightarrow> [])"

definition form_text :: "string \<Rightarrow> string" where
  "form_text s = utf8 (unescape s)"

fun pieces :: "char \<Rightarrow> string \<Rightarrow> string list" where
  "pieces d [] = [[]]"
| "pieces d (c # cs) = (if c = d then [] # pieces d cs else (case pieces d cs of p # ps \<Rightarrow> (c # p) # ps | [] \<Rightarrow> [[c]]))"

definition form_piece :: "string \<Rightarrow> string \<times> string" where
  "form_piece s = (let k = takeWhile (\<lambda>c. c \<noteq> CHR ''='') s in (form_text k, form_text (drop (Suc (length k)) s)))"

definition form_decode :: "string \<Rightarrow> (string \<times> string) list" where
  "form_decode s = map form_piece (filter (\<lambda>p. p \<noteq> []) (pieces CHR ''&'' s))"

section \<open>Short forms\<close>

record call = \<comment> \<open>the options given to \<open>jQuery.ajax\<close>\<close>
  k_type :: string
  k_url :: string
  k_data :: "jsval option"
  k_success :: "nat option"
  k_dataType :: "string option"

datatype sarg = SFun nat | SVal jsval

definition shorthand :: "string \<Rightarrow> string \<Rightarrow> sarg \<Rightarrow> sarg \<Rightarrow> string option \<Rightarrow> call" where
  "shorthand meth u data cb type =
     (case data of
        SFun f \<Rightarrow> \<lparr>k_type = meth, k_url = u, k_data = None, k_success = Some f,
           k_dataType = (case type of Some t \<Rightarrow> if t = [] then (case cb of SVal (Str s) \<Rightarrow> Some s | _ \<Rightarrow> None) else type
                                    | None \<Rightarrow> (case cb of SVal (Str s) \<Rightarrow> Some s | _ \<Rightarrow> None))\<rparr>
      | SVal v \<Rightarrow> \<lparr>k_type = meth, k_url = u, k_data = (if v = Undefined then None else Some v),
           k_success = (case cb of SFun f \<Rightarrow> Some f | _ \<Rightarrow> None), k_dataType = type\<rparr>)"

definition getScript :: "string \<Rightarrow> sarg \<Rightarrow> call" where
  "getScript u cb = shorthand ''get'' u (SVal Undefined) cb (Some ''script'')"

definition getJSON :: "string \<Rightarrow> sarg \<Rightarrow> sarg \<Rightarrow> call" where
  "getJSON u data cb = shorthand ''get'' u data cb (Some ''json'')"

section \<open>load\<close>

datatype lparams = LNothing | LFun nat | LObject params | LText string

record loading =
  l_url :: string
  l_selector :: "string option"
  l_type :: string
  l_data :: "string option"
  l_callback :: "nat option"

text \<open>The request of a call; \<open>trad\<close> is the setting \<open>traditional\<close>.\<close>

definition load_request :: "bool \<Rightarrow> string \<Rightarrow> lparams \<Rightarrow> nat option \<Rightarrow> loading" where
  "load_request trad u ps cb =
     (let u1 = takeWhile (\<lambda>c. c \<noteq> CHR '' '') u; sel = drop (length u1) u
      in \<lparr>l_url = u1, l_selector = (if sel = [] then None else Some sel),
          l_type = (case ps of LObject a \<Rightarrow> ''POST'' | _ \<Rightarrow> ''GET''),
          l_data = (case ps of LObject a \<Rightarrow> Some (param a trad) | LText t \<Rightarrow> Some t | _ \<Rightarrow> None),
          l_callback = (case ps of LFun f \<Rightarrow> Some f | _ \<Rightarrow> cb)\<rparr>)"

text \<open>\<open>/<script\b[^<]*(?:(?!<\/script>)<[^<]*)*<\/script>/gi\<close>\<close>

definition liti :: "string \<Rightarrow> re" where
  "liti s = seqs (map (\<lambda>c. Cls False [One (lower_char c), One (upper_char c)]) s)"

definition rscript :: re where
  "rscript = seqs [liti ''<script'', Look False (Cls False [Word]), many (Cls True [One CHR ''<'']),
     many (seqs [Look False (liti ''</script>''), ch CHR ''<'', many (Cls True [One CHR ''<''])]), liti ''</script>'']"

primrec erase_all :: "re \<Rightarrow> nat \<Rightarrow> string \<Rightarrow> string" where
  "erase_all r 0 s = s"
| "erase_all r (Suc n) s =
     (case exec r s of
        None \<Rightarrow> s
      | Some m \<Rightarrow> take (index m) s @ erase_all r n (drop (index m + length (whole m)) s))"

definition strip_scripts :: "string \<Rightarrow> string" where
  "strip_scripts s = erase_all rscript (length s) s"

text \<open>What the elements get: the whole text, or what the selector finds in the text without scripts.\<close>

datatype injection = Whole string | Part string string

text \<open>The handler of the end: the injection for a resolved request, and the text given to the callback.\<close>

definition load_complete :: "loading \<Rightarrow> bool \<Rightarrow> string \<Rightarrow> string \<Rightarrow> injection option \<times> string" where
  "load_complete l resolved data responseText =
     (if resolved
      then (Some (case l_selector l of Some s \<Rightarrow> Part s (strip_scripts data) | None \<Rightarrow> Whole data), data)
      else (None, responseText))"

lemma crlf_begins: "rCRLF s \<noteq> [] \<Longrightarrow> hd (rCRLF s) \<noteq> CHR 0x0A"
  by (cases s) auto

lemma crlf_twice: "rCRLF (rCRLF s) = rCRLF s"
  by (induction s rule: rCRLF.induct) (auto dest: crlf_begins)

lemma char_noteq: "(of_char c :: nat) \<noteq> of_char d \<Longrightarrow> c \<noteq> d"
  by blast

definition escaped :: "char \<Rightarrow> string" where
  "escaped c = (if c = CHR '' '' then ''+'' else encode_char c)"

lemma of_hex_digit: "n < 16 \<Longrightarrow> (of_char (hex_digit n) :: nat) = (if n < 10 then 48 + n else 55 + n)"
  by (simp add: hex_digit_def of_char_of)

lemma hex_digit_facts:
  assumes "n < 16"
  shows "hex_value (hex_digit n) = n" "hex_digit n \<noteq> CHR ''%''" "hex_digit n \<noteq> CHR ''&''" "hex_digit n \<noteq> CHR ''=''"
    "hex_digit n \<noteq> CHR ''+''" "hex_digit n = CHR ''2'' \<longleftrightarrow> n = 2" "hex_digit n = CHR ''0'' \<longleftrightarrow> n = 0"
proof -
  note o = of_hex_digit[OF assms]
  show "hex_value (hex_digit n) = n" using assms by (simp add: hex_value_def o)
  show "hex_digit n \<noteq> CHR ''%''" "hex_digit n \<noteq> CHR ''&''" "hex_digit n \<noteq> CHR ''=''" "hex_digit n \<noteq> CHR ''+''"
    by (rule char_noteq, simp add: o)+
  have "hex_digit n = d \<longleftrightarrow> (if n < 10 then 48 + n else 55 + n) = of_char d" for d
    by (simp only: of_char_eq_iff o[symmetric])
  then show "hex_digit n = CHR ''2'' \<longleftrightarrow> n = 2" "hex_digit n = CHR ''0'' \<longleftrightarrow> n = 0" by simp_all
qed

lemma unreserved_plain: "unreserved c \<Longrightarrow> c \<noteq> CHR ''%'' \<and> c \<noteq> CHR ''&'' \<and> c \<noteq> CHR ''='' \<and> c \<noteq> CHR ''+'' \<and> c \<noteq> CHR '' ''"
  by (auto simp: unreserved_def is_upper_def is_lower_def is_digit_def Let_def)

lemma r20_other: "c \<noteq> CHR ''%'' \<Longrightarrow> r20 (c # cs) = c # r20 cs"
  by (cases "c # cs" rule: r20.cases) auto

lemma r20_hex:
  assumes "n < 256" "n \<noteq> 32"
  shows "r20 (hex_byte n @ cs) = hex_byte n @ r20 cs"
proof -
  have d: "n div 16 < 16" "n mod 16 < 16" using assms(1) by auto
  have "\<not> (n div 16 = 2 \<and> n mod 16 = 0)" using assms(2) by presburger
  then show ?thesis
    using hex_digit_facts[OF d(1)] hex_digit_facts[OF d(2)] by (simp add: hex_byte_def r20_other)
qed


lemma encode_char_hex:
  assumes "\<not> unreserved c"
  shows "encode_char c = (let n = of_char c :: nat in if n < 128 then hex_byte n else hex_byte (192 + n div 64) @ hex_byte (128 + n mod 64))"
  using assms by (simp add: encode_char_def)

lemma high_bytes: "192 + (of_char c :: nat) div 64 < 256" "128 + (of_char c :: nat) mod 64 < 256"
  using of_char_bound[of c] by linarith+

lemma r20_encoded: "r20 (encode_char c @ cs) = escaped c @ r20 cs"
proof (cases "unreserved c")
  case True
  then show ?thesis using unreserved_plain[OF True] by (simp add: escaped_def encode_char_def r20_other)
next
  case False
  show ?thesis
  proof (cases "c = CHR '' ''")
    case True
    have "encode_char CHR '' '' = ''%20''" by code_simp
    with True show ?thesis by (simp add: escaped_def)
  next
    case nsp: False
    then have "(of_char c :: nat) \<noteq> of_char CHR '' ''" by (simp only: of_char_eq_iff not_False_eq_True simp_thms)
    then have "(of_char c :: nat) \<noteq> 32" by simp
    then show ?thesis
      using False nsp of_char_bound[of c] high_bytes[of c] by (auto simp: escaped_def encode_char_hex Let_def r20_hex)
  qed
qed

definition escape :: "string \<Rightarrow> string" where
  "escape s = concat (map escaped s)"

lemma r20_uri: "r20 (encodeURIComponent s @ cs) = escape s @ r20 cs"
  by (induction s) (simp_all add: encodeURIComponent_def escape_def r20_encoded)

lemma r20_join: "r20 (join ''&'' (map (\<lambda>(k, v). encodeURIComponent k @ ''='' @ encodeURIComponent v) kvs)) =
  join ''&'' (map (\<lambda>(k, v). escape k @ ''='' @ escape v) kvs)"
proof (induction kvs rule: induct_list012)
  case (2 a)
  have "r20 [] = []" by simp
  with r20_uri[of "snd a" "[]"] show ?case by (cases a) (simp add: r20_uri r20_other)
next
  case (3 a b kvs)
  then show ?case by (cases a; cases b) (simp add: r20_uri r20_other)
qed simp

text \<open>The bytes of a character, and how escaping and reading carry them.\<close>

definition bytes_of :: "char \<Rightarrow> nat list" where
  "bytes_of c = (let n = of_char c in if n < 128 then [n] else [192 + n div 64, 128 + n mod 64])"

lemma unescape_hex: "n < 256 \<Longrightarrow> unescape (hex_byte n @ cs) = n # unescape cs"
  using hex_digit_facts(1)[of "n div 16"] hex_digit_facts(1)[of "n mod 16"] by (simp add: hex_byte_def)

lemma unescape_plain: "c \<noteq> CHR ''%'' \<Longrightarrow> c \<noteq> CHR ''+'' \<Longrightarrow> unescape (c # cs) = of_char c # unescape cs"
  by (simp split: list.split)

lemma unescape_escaped: "unescape (escaped c @ cs) = bytes_of c @ unescape cs"
proof (cases "c = CHR '' ''")
  case True
  then show ?thesis by (simp add: escaped_def bytes_of_def)
next
  case nsp: False
  show ?thesis
  proof (cases "unreserved c")
    case True
    then have "(of_char c :: nat) < 128"
      by (auto simp: unreserved_def is_upper_def is_lower_def is_digit_def Let_def)
    with True nsp unreserved_plain[OF True] show ?thesis
      by (simp add: escaped_def encode_char_def bytes_of_def unescape_plain del: unescape.simps)
  next
    case False
    with nsp show ?thesis using of_char_bound[of c] high_bytes[of c]
      by (simp add: escaped_def encode_char_hex bytes_of_def Let_def unescape_hex del: unescape.simps)
  qed
qed

lemma unescape_escape: "unescape (escape s @ cs) = concat (map bytes_of s) @ unescape cs"
  by (induction s) (simp_all add: escape_def unescape_escaped del: unescape.simps)

lemma utf8_bytes: "utf8 (bytes_of c @ ns) = c # utf8 ns"
proof (cases "(of_char c :: nat) < 128")
  case False
  have "64 * ((of_char c :: nat) div 64) + of_char c mod 64 = of_char c" by simp
  then have "char_of (64 * ((of_char c :: nat) div 64) + of_char c mod 64) = c" by (simp only: char_of_char)
  with False show ?thesis by (simp add: bytes_of_def Let_def)
qed (simp add: bytes_of_def)

lemma form_text_escape: "form_text (escape s) = s"
proof -
  have "utf8 (concat (map bytes_of s)) = s" by (induction s) (simp_all add: utf8_bytes)
  then show ?thesis using unescape_escape[of s "[]"] by (simp add: form_text_def)
qed

lemma escaped_chars:
  assumes "x \<in> set (escape s)"
  shows "x \<noteq> CHR ''&''" "x \<noteq> CHR ''=''"
proof -
  have hb: "x \<noteq> CHR ''&'' \<and> x \<noteq> CHR ''=''" if n: "x \<in> set (hex_byte n)" "n < 256" for n
  proof -
    have d: "n div 16 < 16" "n mod 16 < 16" using n(2) by auto
    show ?thesis using n(1) hex_digit_facts(3,4)[OF d(1)] hex_digit_facts(3,4)[OF d(2)] by (auto simp: hex_byte_def)
  qed
  have "x \<noteq> CHR ''&'' \<and> x \<noteq> CHR ''=''" if "x \<in> set (escaped c)" for c
  proof (cases "unreserved c")
    case True
    then show ?thesis using that unreserved_plain[OF True] by (auto simp: escaped_def encode_char_def)
  next
    case False
    note h = hb[OF _ of_char_bound[of c]] hb[OF _ high_bytes(1)[of c]] hb[OF _ high_bytes(2)[of c]]
    from False that show ?thesis
      by (simp add: escaped_def encode_char_hex Let_def split: if_splits) (use h in blast)+
  qed
  then show "x \<noteq> CHR ''&''" "x \<noteq> CHR ''=''" using assms by (auto simp: escape_def)
qed

lemma pieces_none: "d \<notin> set s \<Longrightarrow> pieces d s = [s]"
  by (induction s) auto

lemma pieces_append: "d \<notin> set s \<Longrightarrow> pieces d (s @ d # r) = s # pieces d r"
  by (induction s) auto

lemma pieces_join: "(\<And>p. p \<in> set ps \<Longrightarrow> d \<notin> set p) \<Longrightarrow> ps \<noteq> [] \<Longrightarrow> pieces d (join [d] ps) = ps"
  by (induction ps rule: induct_list012) (simp_all add: pieces_none pieces_append)

lemma piece_back: "form_piece (escape k @ ''='' @ escape v) = (k, v)"
proof -
  have "takeWhile (\<lambda>c. c \<noteq> CHR ''='') (escape k @ ''='' @ escape v) = escape k"
    using escaped_chars(2)[of _ k] by (subst takeWhile_append2) auto
  then show ?thesis by (simp add: form_piece_def Let_def form_text_escape)
qed

lemma encode_pairs_back: "form_decode (encode_pairs kvs) = kvs"
proof (cases "kvs = []")
  case True
  then show ?thesis by (simp add: encode_pairs_def form_decode_def)
next
  case False
  let ?ps = "map (\<lambda>(k, v). escape k @ ''='' @ escape v) kvs"
  have no_amp: "CHR ''&'' \<notin> set (escape s)" for s using escaped_chars(1) by blast
  have "pieces CHR ''&'' (join ''&'' ?ps) = ?ps"
    using no_amp False by (intro pieces_join) auto
  moreover have "filter (\<lambda>p. p \<noteq> []) ?ps = ?ps" by (auto simp: filter_id_conv)
  moreover have "map form_piece ?ps = kvs" using piece_back by (induction kvs) auto
  ultimately show ?thesis unfolding encode_pairs_def form_decode_def r20_join by simp
qed

section \<open>What a form submits\<close>

text \<open>
  The controls of a form as a page has them: a one-line field with its type, a text area, a check box or radio
  button, a select with its options, and a button or file field. Texts have line feeds for line ends.
\<close>

record choice =
  o_value :: string
  o_selected :: bool
  o_off :: bool \<comment> \<open>disabled itself\<close>
  o_group_off :: bool \<comment> \<open>in a disabled group\<close>

datatype widget =
    Line string string \<comment> \<open>type, text\<close>
  | Area string
  | Tick string bool string \<comment> \<open>type, checked, value\<close>
  | Pick bool "choice list" \<comment> \<open>several choices at once\<close>
  | Push string string \<comment> \<open>element, type\<close>

record control =
  c_name :: string
  c_off :: bool
  c_widget :: widget

definition line_types :: "string list" where
  "line_types = [''text'', ''search'', ''tel'', ''url'', ''email'', ''password'', ''hidden'', ''number'', ''range'', ''color'',
     ''date'', ''month'', ''week'', ''time'', ''datetime'', ''datetime-local'']"

text \<open>A text as it is sent: its lines with a carriage return and a line feed between them.\<close>

definition sent_text :: "string \<Rightarrow> string" where
  "sent_text s = join [CHR 0x0D, CHR 0x0A] (pieces CHR 0x0A s)"

definition open_choice :: "choice \<Rightarrow> bool" where
  "open_choice c \<longleftrightarrow> o_selected c \<and> \<not> o_off c \<and> \<not> o_group_off c"

definition sent_values :: "widget \<Rightarrow> string list" where
  "sent_values g = (case g of
      Line t s \<Rightarrow> [s] | Area s \<Rightarrow> [s] | Tick t on s \<Rightarrow> (if on then [s] else [])
    | Pick multi cs \<Rightarrow> map o_value (filter open_choice cs) | Push t u \<Rightarrow> [])"

text \<open>The pairs that a control submits: none without a name or when it is disabled.\<close>

definition submitted :: "control \<Rightarrow> (string \<times> string) list" where
  "submitted c = (if c_name c = [] \<or> c_off c then [] else map (\<lambda>s. (c_name c, sent_text s)) (sent_values (c_widget c)))"

text \<open>
  How the browser shows the controls to scripts. The value of a check box without the attribute is \<open>on\<close>, which
  browsers without \<open>checkOn\<close> do not say; the value of an option is in its text where the attribute is there but
  not specified; a select with a single choice has at most one selected option, which is not disabled.
\<close>

definition shows_choice :: "browser \<Rightarrow> form \<Rightarrow> nat \<Rightarrow> choice \<Rightarrow> bool" where
  "shows_choice b w i c \<longleftrightarrow>
     (let n = nodes w i
      in to_lower (ntag n) = ''option'' \<and> CHR 0x0D \<notin> set (o_value c) \<and>
         pget (nprops n) (if getAttribute b ''value'' n \<noteq> None \<and> \<not> specified b n ''value'' then ''text'' else ''value'') = Str (o_value c) \<and>
         pget (nprops n) ''selected'' = Bool (o_selected c) \<and>
         pget (nprops n) ''disabled'' = Bool (o_off c) \<and> (getAttribute b ''disabled'' n \<noteq> None) = o_off c \<and>
         (case parent_of w i of
            Some p \<Rightarrow> o_group_off c = (nodeName (nodes w p) ''optgroup'' \<and> pget (nprops (nodes w p)) ''disabled'' = Bool True) \<and>
              pget (nprops (nodes w p)) ''disabled'' \<in> {Undefined, Bool True, Bool False}
          | None \<Rightarrow> \<not> o_group_off c))"

definition first_selected :: "choice list \<Rightarrow> int" where
  "first_selected cs = (let k = length (takeWhile (\<lambda>c. \<not> o_selected c) cs) in if k < length cs then int k else - 1)"

definition shows_widget :: "browser \<Rightarrow> chooser \<Rightarrow> form \<Rightarrow> nat \<Rightarrow> widget \<Rightarrow> bool" where
  "shows_widget b co w e g \<longleftrightarrow>
     (let n = nodes w e; tag = to_lower (ntag n); ps = nprops n
      in case g of
           Line t s \<Rightarrow> tag = ''input'' \<and> t \<in> set line_types \<and> pget ps ''type'' = Str t \<and>
             (\<exists>r. pget ps ''value'' = Str r \<and> s = filter (\<lambda>c. c \<noteq> CHR 0x0D) r)
         | Area s \<Rightarrow> tag = ''textarea'' \<and> pget ps ''type'' = Str ''textarea'' \<and>
             (\<exists>r. pget ps ''value'' = Str r \<and> s = filter (\<lambda>c. c \<noteq> CHR 0x0D) r)
         | Tick t on s \<Rightarrow> tag = ''input'' \<and> (t = ''checkbox'' \<or> t = ''radio'') \<and> pget ps ''type'' = Str t \<and>
             pget ps ''checked'' = Bool on \<and> CHR 0x0D \<notin> set s \<and>
             (if getAttribute b ''value'' n = None then s = ''on'' \<and> (checkOn b \<longrightarrow> pget ps ''value'' = Str ''on'')
              else pget ps ''value'' = Str s)
         | Pick multi cs \<Rightarrow> tag = ''select'' \<and> pget ps ''type'' = Str (if multi then ''select-multiple'' else ''select-one'') \<and>
             list_all2 (shows_choice b w) (options_of w e) cs \<and> selectedIndex co w e = first_selected cs \<and>
             (multi \<or> length (filter o_selected cs) \<le> 1 \<and> filter open_choice cs = filter o_selected cs)
         | Push t u \<Rightarrow> (t = ''input'' \<or> t = ''button'') \<and> tag = t \<and> pget ps ''type'' = Str u \<and>
             u \<in> set [''button'', ''submit'', ''reset'', ''image'', ''file''] \<and> \<not> truthy (pget ps ''checked''))"

definition shows_control :: "browser \<Rightarrow> chooser \<Rightarrow> form \<Rightarrow> nat \<Rightarrow> control \<Rightarrow> bool" where
  "shows_control b co w e c \<longleftrightarrow> pget (nprops (nodes w e)) ''name'' = Str (c_name c) \<and>
     pget (nprops (nodes w e)) ''disabled'' = Bool (c_off c) \<and> shows_widget b co w e (c_widget c)"

primrec form_controls :: "(nat \<Rightarrow> nat list option) \<Rightarrow> nat list \<Rightarrow> nat list" where
  "form_controls elements [] = []"
| "form_controls elements (e # es) = (case elements e of Some xs \<Rightarrow> xs | None \<Rightarrow> [e]) @ form_controls elements es"

lemma form_controls_concat:
  "form_controls elements es = concat (map (\<lambda>e. case elements e of Some xs \<Rightarrow> xs | None \<Rightarrow> [e]) es)"
  by (induction es) auto

lemma pieces_ne: "pieces d s \<noteq> []"
  by (cases s) (auto split: list.split)

lemma join_more: "ps \<noteq> [] \<Longrightarrow> join d ((c # p) # ps) = c # join d (p # ps)"
  by (cases ps) auto

lemma sent_text_code: "CHR 0x0D \<notin> set s \<Longrightarrow> rCRLF s = sent_text s"
proof (induction s)
  case Nil
  show ?case by (simp add: sent_text_def)
next
  case (Cons c s)
  obtain p ps where p: "pieces CHR 0x0A s = p # ps" using pieces_ne[of "CHR 0x0A" s] by (cases "pieces CHR 0x0A s") auto
  have "join d ((c # p) # ps) = c # join d (p # ps)" for d by (cases ps) simp_all
  with Cons p show ?case by (auto simp: sent_text_def)
qed

lemma val_hook_of_type:
  assumes "to_lower (ntag n) = ''input'' \<or> to_lower (ntag n) = ''textarea''" and "pget (nprops n) ''type'' = Str t"
  shows "val_hook b n = val_hook_named b t"
proof -
  have "val_hook_named b (to_lower (ntag n)) = None"
    using assms(1) by (elim disjE) (simp_all only:, simp_all add: val_hook_named_def)
  then show ?thesis by (simp add: val_hook_def assms(2) text_form_def)
qed

lemma line_types_ok:
  assumes "t \<in> set line_types"
  shows "rinput t" "val_hook_named b t = None"
proof -
  have "list_all rinput line_types" by code_simp
  then show "rinput t" using assms by (simp add: list_all_iff)
  have "list_all (\<lambda>t. t \<noteq> ''option'' \<and> t \<noteq> ''select'' \<and> t \<noteq> ''radio'' \<and> t \<noteq> ''checkbox'' \<and> t \<noteq> ''button'') line_types"
    by code_simp
  then show "val_hook_named b t = None" using assms by (auto simp: list_all_iff val_hook_named_def)
qed

lemma not_a_line: "\<not> rinput ''checkbox''" "\<not> rinput ''radio''" "\<not> rinput ''button''" "\<not> rinput ''submit''" "\<not> rinput ''reset''"
  "\<not> rinput ''image''" "\<not> rinput ''file''"
  by code_simp+

lemma choice_value:
  assumes "shows_choice b w i c"
  shows "node_val b (nodes w i) = Str (o_value c)" "rCRLF (o_value c) = sent_text (o_value c)"
    "selectable b w i = open_choice c"
proof -
  let ?n = "nodes w i"
  have t: "to_lower (ntag ?n) = ''option''" and cr: "CHR 0x0D \<notin> set (o_value c)"
    using assms by (simp_all add: shows_choice_def Let_def)
  then have "val_hook b ?n = Some OptionHook" by (simp add: val_hook_def val_hook_named_def)
  moreover have "option_get b ?n = Str (o_value c)"
    using assms by (auto simp: shows_choice_def option_get_def Let_def split: if_splits)
  ultimately show "node_val b ?n = Str (o_value c)" by (simp add: node_val_def)
  show "rCRLF (o_value c) = sent_text (o_value c)" by (rule sent_text_code[OF cr])
  show "selectable b w i = open_choice c"
    using assms by (cases "parent_of w i") (auto simp: shows_choice_def selectable_def open_choice_def Let_def)
qed

lemma values_of_choices:
  assumes "list_all2 (shows_choice b w) is cs"
  shows "map (\<lambda>i. node_val b (nodes w i)) (filter (selectable b w) is) = map Str (map o_value (filter open_choice cs))"
    "all_some (map (\<lambda>v. map_option (Pair k) (field_value v)) (map Str (map o_value (filter open_choice cs)))) =
      Some (map (\<lambda>s. (k, sent_text s)) (map o_value (filter open_choice cs)))"
  using assms by (induction rule: list_all2_induct) (simp_all add: choice_value field_value_def)

lemma only_selected:
  assumes "length (filter P cs) \<le> 1" and "length (takeWhile (\<lambda>c. \<not> P c) cs) < length cs"
  shows "filter P cs = [cs ! length (takeWhile (\<lambda>c. \<not> P c) cs)]"
  using assms
proof (induction cs)
  case (Cons c cs)
  then show ?case by (cases "P c") auto
qed simp

lemma none_selected: "\<not> length (takeWhile (\<lambda>c. \<not> P c) cs) < length cs \<Longrightarrow> filter P cs = []"
  by (induction cs) (auto split: if_splits)

text \<open>The fields of a single control.\<close>

lemma control_fields:
  assumes "shows_control b co w e c"
  shows "(if successful b w e then fields_of b co w e else Some []) = Some (submitted c)"
proof -
  let ?n = "nodes w e" and ?k = "c_name c"
  have name: "pget (nprops ?n) ''name'' = Str ?k" and off: "pget (nprops ?n) ''disabled'' = Bool (c_off c)"
    and g: "shows_widget b co w e (c_widget c)" using assms by (simp_all add: shows_control_def)
  have ok: "successful b w e = (?k \<noteq> [] \<and> \<not> c_off c \<and>
      (truthy (pget (nprops ?n) ''checked'') \<or> rselectTextarea (ntag ?n) \<or> rinput (text_form b (pget (nprops ?n) ''type''))))"
    by (simp add: successful_def Let_def name off)
  have fields: "fields_of b co w e = (case fn_val_get b co w e of
           None \<Rightarrow> None
         | Some (VMany vs) \<Rightarrow> all_some (map (\<lambda>v. map_option (Pair ?k) (field_value v)) vs)
         | Some (VOne v) \<Rightarrow> if nullish v then Some [] else map_option (\<lambda>x. [(?k, x)]) (field_value v))"
    by (simp add: fields_of_def Let_def name text_form_def)
  have one: "fields_of b co w e = Some [(?k, sent_text s)]" if "fn_val_get b co w e = Some (VOne (Str s))" "CHR 0x0D \<notin> set s" for s
    using that by (simp add: fields field_value_def sent_text_code)
  show ?thesis
  proof (cases "?k = [] \<or> c_off c")
    case True
    then show ?thesis by (auto simp: ok submitted_def)
  next
    case False
    then have sub: "submitted c = map (\<lambda>s. (?k, sent_text s)) (sent_values (c_widget c))" by (auto simp: submitted_def)
    show ?thesis
    proof (cases "c_widget c")
      case (Line t s)
      then obtain r where r: "pget (nprops ?n) ''value'' = Str r" "s = filter (\<lambda>c. c \<noteq> CHR 0x0D) r"
        and t: "to_lower (ntag ?n) = ''input''" "t \<in> set line_types" "pget (nprops ?n) ''type'' = Str t"
        using g by (auto simp: shows_widget_def Let_def)
      have ty: "rinput t \<and> val_hook_named b t = None" using line_types_ok[OF t(2)] by simp
      then have "val_hook b ?n = None" using val_hook_of_type[OF _ t(3)] t(1) by simp
      then have "fn_val_get b co w e = Some (VOne (Str s))"
        using r by (simp add: fn_val_get_def node_val_def common_val_def rreturn_def)
      then show ?thesis using False ty t(3) r(2) one[of s] by (simp add: ok sub Line sent_values_def text_form_def)
    next
      case (Area s)
      then obtain r where r: "pget (nprops ?n) ''value'' = Str r" "s = filter (\<lambda>c. c \<noteq> CHR 0x0D) r"
        and t: "to_lower (ntag ?n) = ''textarea''" "pget (nprops ?n) ''type'' = Str ''textarea''"
        using g by (auto simp: shows_widget_def Let_def)
      have "val_hook b ?n = None" using val_hook_of_type[OF _ t(2)] t(1) by (simp add: val_hook_named_def)
      then have "fn_val_get b co w e = Some (VOne (Str s))"
        using r by (simp add: fn_val_get_def node_val_def common_val_def rreturn_def)
      moreover have "rselectTextarea (ntag ?n)" using t(1) by (simp add: rselectTextarea_def)
      ultimately show ?thesis using False r(2) one[of s] by (simp add: ok sub Area sent_values_def)
    next
      case (Tick t on s)
      then have t: "to_lower (ntag ?n) = ''input''" "t = ''checkbox'' \<or> t = ''radio''" "pget (nprops ?n) ''type'' = Str t"
        and on: "pget (nprops ?n) ''checked'' = Bool on" and cr: "CHR 0x0D \<notin> set s"
        and v: "if getAttribute b ''value'' ?n = None then s = ''on'' \<and> (checkOn b \<longrightarrow> pget (nprops ?n) ''value'' = Str ''on'')
              else pget (nprops ?n) ''value'' = Str s"
        using g by (simp_all add: shows_widget_def Let_def)
      have ty: "val_hook_named b t = Some RadioHook \<and> \<not> rinput t" using t(2) not_a_line by (auto simp: val_hook_named_def)
      then have "val_hook b ?n = Some RadioHook" using val_hook_of_type[OF _ t(3)] t(1) by simp
      then have "fn_val_get b co w e = Some (VOne (Str s))"
        using v cr by (auto simp: fn_val_get_def node_val_def common_val_def rreturn_def filter_id_conv split: if_splits)
      moreover have "\<not> rselectTextarea (ntag ?n)" using t(1) by (simp add: rselectTextarea_def)
      ultimately show ?thesis using False ty t(3) on cr one[of s] by (simp add: ok sub Tick sent_values_def text_form_def)
    next
      case (Pick multi cs)
      then have t: "to_lower (ntag ?n) = ''select''" "pget (nprops ?n) ''type'' = Str (if multi then ''select-multiple'' else ''select-one'')"
        and cs: "list_all2 (shows_choice b w) (options_of w e) cs" and ix: "selectedIndex co w e = first_selected cs"
        and single: "multi \<or> length (filter o_selected cs) \<le> 1 \<and> filter open_choice cs = filter o_selected cs"
        using g by (simp_all add: shows_widget_def Let_def)
      have hook: "val_hook b ?n = Some SelectHook" using t(1) by (simp add: val_hook_def val_hook_named_def)
      have r: "rselectTextarea (ntag ?n)" using t(1) by (simp add: rselectTextarea_def)
      let ?i = "length (takeWhile (\<lambda>c. \<not> o_selected c) cs)"
      have len: "length (options_of w e) = length cs" using cs by (rule list_all2_lengthD)
      show ?thesis
      proof (cases "?i < length cs")
        case none: False
        then have "filter open_choice cs = []"
          using none_selected[OF none] by (auto simp: filter_empty_conv open_choice_def)
        moreover have "fn_val_get b co w e = Some (VOne Null)"
          using none by (simp add: fn_val_get_def hook select_get_def ix first_selected_def Let_def)
        ultimately show ?thesis using False r by (simp add: ok sub Pick sent_values_def fields)
      next
        case some: True
        have at: "shows_choice b w (options_of w e ! ?i) (cs ! ?i)" using cs some len by (simp add: list_all2_nthD)
        show ?thesis
        proof (cases multi)
          case True
          then have "fn_val_get b co w e = Some (VMany (map Str (map o_value (filter open_choice cs))))"
            using some t(2) values_of_choices(1)[OF cs] by (simp add: fn_val_get_def hook select_get_def ix first_selected_def Let_def)
          then show ?thesis
            using False r values_of_choices(2)[OF cs, of ?k] by (simp add: ok sub Pick sent_values_def fields del: map_map)
        next
          case one_only: False
          then have "filter open_choice cs = [cs ! ?i]" using single only_selected[OF _ some] by simp
          moreover have "fn_val_get b co w e = Some (VOne (Str (o_value (cs ! ?i))))"
            using one_only some t(2) len choice_value(1)[OF at]
            by (simp add: fn_val_get_def hook select_get_def ix first_selected_def Let_def)
          ultimately show ?thesis using False r choice_value(2)[OF at] by (simp add: ok sub Pick sent_values_def fields field_value_def)
        qed
      qed
    next
      case (Push t u)
      then have "to_lower (ntag ?n) = ''input'' \<or> to_lower (ntag ?n) = ''button''" "pget (nprops ?n) ''type'' = Str u"
        "u \<in> set [''button'', ''submit'', ''reset'', ''image'', ''file'']" "\<not> truthy (pget (nprops ?n) ''checked'')"
        using g by (auto simp: shows_widget_def Let_def)
      then have "\<not> successful b w e" using not_a_line by (auto simp: ok rselectTextarea_def text_form_def)
      then show ?thesis by (simp add: sub Push sent_values_def)
    qed
  qed
qed

lemma fields_submitted:
  assumes "list_all2 (shows_control b co w) (form_controls elements es) cs"
  shows "serializeArray b co elements w es = Some (concat (map submitted cs))"
proof -
  have "map_option concat (all_some (map (fields_of b co w) (filter (successful b w) xs))) = Some (concat (map submitted cs))"
    if "list_all2 (shows_control b co w) xs cs" for xs
    using that
  proof (induction rule: list_all2_induct)
    case (Cons x xs c cs)
    then show ?case using control_fields[OF Cons(1)] by (auto split: if_splits)
  qed simp
  from this[OF assms] show ?thesis by (simp add: serializeArray_def Let_def form_controls_concat)
qed

text \<open>
  C37: what \<open>serialize\<close> makes of forms is read back, by the rules for such texts, as the names and values that their
  controls submit, in order: the controls with a name that are not disabled, the texts of fields with their line ends
  sent as two characters, the values of ticked boxes, and the options that are selected and not disabled.
\<close>

theorem serialize_roundtrip:
  assumes "list_all2 (shows_control b co w) (form_controls elements es) cs"
  shows "map_option form_decode (serialize b co elements w es) = Some (concat (map submitted cs))"
  by (simp add: serialize_def param_def encode_pairs_back fields_submitted[OF assms])

definition sample_node :: "string \<Rightarrow> (string \<times> jsval) list \<Rightarrow> node" where
  "sample_node tag ps = \<lparr>nkind = 1, ntag = tag, nprops = ps @ [(''disabled'', Bool False)],
     nattrs = (case map_of ps ''value'' of Some (Str v) \<Rightarrow> [(''value'', v)] | _ \<Rightarrow> []), nxml = False, nhasattr = True, nparent = True\<rparr>"

definition sample_choice :: "string \<Rightarrow> bool \<Rightarrow> node" where
  "sample_choice v x = sample_node ''OPTION'' [(''value'', Str v), (''selected'', Bool x)]"

definition sample_form :: form where
  "sample_form = \<lparr>nodes = (\<lambda>i. if i = 2 then sample_node ''TEXTAREA'' [(''name'', Str ''a&b''), (''type'', Str ''textarea''), (''value'', Str [CHR ''x'', CHR 0x0A, CHR ''='', CHR 0xE9])]
       else if i = 3 then sample_node ''INPUT'' [(''name'', Str ''t''), (''type'', Str ''checkbox''), (''value'', Str ''on''), (''checked'', Bool True)]
       else if i = 4 then sample_node ''SELECT'' [(''name'', Str ''s''), (''type'', Str ''select-multiple'')]
       else if i = 5 then sample_node ''INPUT'' [(''name'', Str ''go''), (''type'', Str ''submit''), (''value'', Str ''Go'')]
       else if i = 6 then sample_choice ''p'' True else if i = 7 then sample_choice ''q'' False else sample_choice ''r s'' True),
     options_of = (\<lambda>i. if i = 4 then [6, 7, 8] else []), found = (\<lambda>i. []), parent_of = (\<lambda>i. None)\<rparr>"

lemma sample_nodes:
  "nodes sample_form 2 = sample_node ''TEXTAREA'' [(''name'', Str ''a&b''), (''type'', Str ''textarea''), (''value'', Str [CHR ''x'', CHR 0x0A, CHR ''='', CHR 0xE9])]"
  "nodes sample_form 3 = sample_node ''INPUT'' [(''name'', Str ''t''), (''type'', Str ''checkbox''), (''value'', Str ''on''), (''checked'', Bool True)]"
  "nodes sample_form 4 = sample_node ''SELECT'' [(''name'', Str ''s''), (''type'', Str ''select-multiple'')]"
  "nodes sample_form 5 = sample_node ''INPUT'' [(''name'', Str ''go''), (''type'', Str ''submit''), (''value'', Str ''Go'')]"
  "nodes sample_form 6 = sample_choice ''p'' True" "nodes sample_form 7 = sample_choice ''q'' False" "nodes sample_form 8 = sample_choice ''r s'' True"
  "options_of sample_form 4 = [6, 7, 8]" "parent_of sample_form i = None"
  by (simp_all add: sample_form_def)

lemma lower_letters:
  "lower_char CHR ''A'' = CHR ''a''" "lower_char CHR ''C'' = CHR ''c''" "lower_char CHR ''E'' = CHR ''e''" "lower_char CHR ''I'' = CHR ''i''"
  "lower_char CHR ''L'' = CHR ''l''" "lower_char CHR ''N'' = CHR ''n''" "lower_char CHR ''O'' = CHR ''o''" "lower_char CHR ''P'' = CHR ''p''"
  "lower_char CHR ''R'' = CHR ''r''" "lower_char CHR ''S'' = CHR ''s''" "lower_char CHR ''T'' = CHR ''t''" "lower_char CHR ''U'' = CHR ''u''"
  "lower_char CHR ''X'' = CHR ''x''" "lower_char CHR ''v'' = CHR ''v''" "lower_char CHR ''a'' = CHR ''a''" "lower_char CHR ''l'' = CHR ''l''"
  "lower_char CHR ''u'' = CHR ''u''" "lower_char CHR ''e'' = CHR ''e''" "lower_char CHR ''d'' = CHR ''d''" "lower_char CHR ''i'' = CHR ''i''"
  "lower_char CHR ''s'' = CHR ''s''" "lower_char CHR ''b'' = CHR ''b''"
  by code_simp+

lemma sample_index: "selectedIndex demo_chooser sample_form 4 = 0"
proof -
  have "[0..<length (options_of sample_form 4)] = [0, 1, 2]" by (simp add: sample_nodes upt_rec)
  moreover have "is_selected sample_form (options_of sample_form 4 ! 0)"
    by (simp add: sample_nodes is_selected_def sample_choice_def sample_node_def get_or_def)
  ultimately show ?thesis by (simp add: demo_chooser_def)
qed

lemma sample_choices:
  "list_all2 (shows_choice demo_browser sample_form) [6, 7, 8]
    [\<lparr>o_value = ''p'', o_selected = True, o_off = False, o_group_off = False\<rparr>, \<lparr>o_value = ''q'', o_selected = False, o_off = False, o_group_off = False\<rparr>,
     \<lparr>o_value = ''r s'', o_selected = True, o_off = False, o_group_off = False\<rparr>]"
proof -
  have "shows_choice demo_browser sample_form i \<lparr>o_value = v, o_selected = x, o_off = False, o_group_off = False\<rparr>"
    if "nodes sample_form i = sample_choice v x" "CHR 0x0D \<notin> set v" for i v x
    using that by (simp add: shows_choice_def sample_nodes(9) sample_choice_def sample_node_def demo_browser_def getAttribute_def lower_letters get_or_def)
  then show ?thesis by (simp add: sample_nodes)
qed

theorem serialize_roundtrip_witness:
  "map_option form_decode (serialize demo_browser demo_chooser (\<lambda>e. if e = 1 then Some [2, 3, 4, 5] else None) sample_form [1]) =
    Some [(''a&b'', [CHR ''x'', CHR 0x0D, CHR 0x0A, CHR ''='', CHR 0xE9]), (''t'', ''on''), (''s'', ''p''), (''s'', ''r s'')]"
proof -
  let ?ch = "\<lambda>v x. \<lparr>o_value = v, o_selected = x, o_off = False, o_group_off = False\<rparr>"
  let ?ct = "\<lambda>k g. \<lparr>c_name = k, c_off = False, c_widget = g\<rparr>"
  let ?cs = "[?ct ''a&b'' (Area [CHR ''x'', CHR 0x0A, CHR ''='', CHR 0xE9]), ?ct ''t'' (Tick ''checkbox'' True ''on''),
    ?ct ''s'' (Pick True [?ch ''p'' True, ?ch ''q'' False, ?ch ''r s'' True]), ?ct ''go'' (Push ''input'' ''submit'')]"
  have shown: "list_all2 (shows_control demo_browser demo_chooser sample_form) (form_controls (\<lambda>e. if e = 1 then Some [2, 3, 4, 5] else None) [1]) ?cs"
  proof -
    note d = shows_control_def shows_widget_def sample_nodes sample_node_def get_or_def lower_letters Let_def
    have "shows_control demo_browser demo_chooser sample_form 2 (?ct ''a&b'' (Area [CHR ''x'', CHR 0x0A, CHR ''='', CHR 0xE9]))"
      by (simp add: d)
    moreover have "shows_control demo_browser demo_chooser sample_form 3 (?ct ''t'' (Tick ''checkbox'' True ''on''))"
      by (simp add: d demo_browser_def getAttribute_def)
    moreover have "shows_control demo_browser demo_chooser sample_form 4 (?ct ''s'' (Pick True [?ch ''p'' True, ?ch ''q'' False, ?ch ''r s'' True]))"
      using sample_choices by (simp add: d sample_index first_selected_def)
    moreover have "shows_control demo_browser demo_chooser sample_form 5 (?ct ''go'' (Push ''input'' ''submit''))"
      by (simp add: d)
    ultimately show ?thesis by simp
  qed
  have "concat (map submitted ?cs) = [(''a&b'', [CHR ''x'', CHR 0x0D, CHR 0x0A, CHR ''='', CHR 0xE9]), (''t'', ''on''), (''s'', ''p''), (''s'', ''r s'')]"
    by code_simp
  with serialize_roundtrip[OF shown] show ?thesis by simp
qed

lemma all_some_map: "all_some (map f xs) = Some ys \<Longrightarrow> list_all2 (\<lambda>x y. f x = Some y) xs ys"
  by (induction xs arbitrary: ys) (auto split: option.splits)

text \<open>Every value of the fields has its line ends in the form that is sent.\<close>

lemma field_values_crlf:
  assumes "serializeArray b co elements w es = Some ps" and "(k, v) \<in> set ps"
  shows "rCRLF v = v"
proof -
  let ?cs = "filter (successful b w) (concat (map (\<lambda>e. case elements e of Some xs \<Rightarrow> xs | None \<Rightarrow> [e]) es))"
  obtain pss where p: "all_some (map (fields_of b co w) ?cs) = Some pss" "ps = concat pss"
    using assms(1) by (auto simp: serializeArray_def Let_def)
  then obtain l where l: "l \<in> set pss" "(k, v) \<in> set l" using assms(2) by auto
  then obtain e where "fields_of b co w e = Some l"
    using all_some_map[OF p(1)] by (auto simp: list_all2_conv_all_nth in_set_conv_nth)
  moreover have fv: "rCRLF y = y" if "field_value x = Some y" for x y
    using that crlf_twice by (auto simp: field_value_def split: jsval.splits)
  moreover have "rCRLF v = v" if "all_some (map (\<lambda>x. map_option (Pair n) (field_value x)) vs) = Some l" for n vs
    using all_some_map[OF that] l(2) fv by (auto simp: list_all2_conv_all_nth in_set_conv_nth)
  ultimately show ?thesis
    using l(2) by (auto simp: fields_of_def Let_def split: option.splits vval.splits if_splits)
qed

text \<open>Taking the scripts out once may leave one.\<close>

lemma strip_leaves_a_script: "strip_scripts ''<scr<script></script>ipt>f()</script>'' = ''<script>f()</script>''"
  by code_simp

end
