(* ===== verification/JQ_Css.thy ===== *)
theory JQ_Css
  imports Complex_Main JQ_Data
begin

text \<open>
  Styles in jquery-1.6.4.js: \<open>jQuery.style\<close>, \<open>jQuery.css\<close>, \<open>fn.css\<close>, \<open>swap\<close>, the hooks of opacity, width, height and
  the right margin, the two ways to a computed style, \<open>getWH\<close>, and the filters \<open>hidden\<close> and \<open>visible\<close>.

  The world keeps the inline style objects of the elements and, for old versions of Internet Explorer, their runtime styles; reading
  a style may write to them for a moment. What the browser makes of the styles is an argument: the
  computed style, the sizes on the screen, and what a style object holds after an assignment. Numbers are reals without
  rounding, \<open>NaN\<close> is a value of its own, and infinities are left out.
\<close>

section \<open>Values of styles\<close>

text \<open>
  \<open>SPx r\<close> is the text of the number \<open>r\<close> followed by \<open>px\<close>; reading the number of such a text gives the number back.
\<close>

datatype sval = SUndef | SNull | STxt string | SPx real | SNum real | SNaN

fun struthy :: "sval \<Rightarrow> bool" where
  "struthy (STxt s) = (s \<noteq> [])"
| "struthy (SPx r) = True"
| "struthy (SNum r) = (r \<noteq> 0)"
| "struthy v = False"

definition nat_of_digits :: "string \<Rightarrow> nat" where
  "nat_of_digits ds = foldl (\<lambda>n c. 10 * n + (of_char c - 48)) 0 ds"

text \<open>The exponent at the head of a text, and what is left; nothing is read when no digit follows.\<close>

definition exponent_at :: "string \<Rightarrow> int \<times> string" where
  "exponent_at s = (case s of
      [] \<Rightarrow> (0, s)
    | e # t \<Rightarrow>
        if e = CHR ''e'' \<or> e = CHR ''E'' then
          (let u = (if t \<noteq> [] \<and> (hd t = CHR ''+'' \<or> hd t = CHR ''-'') then tl t else t);
               ds = takeWhile is_digit u;
               n = int (nat_of_digits ds)
           in if ds = [] then (0, s)
              else (if t \<noteq> [] \<and> hd t = CHR ''-'' then - n else n, dropWhile is_digit u))
        else (0, s))"

text \<open>A decimal number without sign at the head of a text, and what is left.\<close>

definition unsigned_at :: "string \<Rightarrow> (real \<times> string) option" where
  "unsigned_at s =
     (let a = takeWhile is_digit s;
          r = dropWhile is_digit s;
          dotted = r \<noteq> [] \<and> hd r = CHR ''.'';
          f = (if dotted then takeWhile is_digit (tl r) else []);
          r' = (if dotted then dropWhile is_digit (tl r) else r);
          (x, r'') = exponent_at r'
      in if a = [] \<and> f = [] then None
         else Some (real (nat_of_digits (a @ f)) / 10 ^ length f * (if 0 \<le> x then 10 ^ nat x else 1 / 10 ^ nat (- x)), r''))"

definition decimal_at :: "string \<Rightarrow> (real \<times> string) option" where
  "decimal_at s = (case s of
      [] \<Rightarrow> None
    | c # t \<Rightarrow>
        if c = CHR ''-'' then map_option (\<lambda>(r, u). (- r, u)) (unsigned_at t)
        else if c = CHR ''+'' then unsigned_at t
        else unsigned_at s)"

definition parseFloat :: "string \<Rightarrow> real option" where
  "parseFloat s = map_option fst (decimal_at (dropWhile is_space s))"

text \<open>The conversion of a text to a number, for decimal texts: blanks around it, nothing else.\<close>

definition js_number :: "string \<Rightarrow> real option" where
  "js_number s =
     (let t = dropWhile is_space s
      in if t = [] then Some 0
         else case decimal_at t of
             None \<Rightarrow> None
           | Some (r, u) \<Rightarrow> if list_all is_space u then Some r else None)"

fun parse :: "sval \<Rightarrow> real option" where
  "parse (STxt s) = parseFloat s"
| "parse (SPx r) = Some r"
| "parse (SNum r) = Some r"
| "parse _ = None"

text \<open>\<open>parseFloat( v ) || 0\<close>\<close>

definition px_of :: "sval \<Rightarrow> real" where
  "px_of v = (case parse v of None \<Rightarrow> 0 | Some r \<Rightarrow> r)"

fun to_number :: "sval \<Rightarrow> real option" where
  "to_number (STxt s) = js_number s"
| "to_number (SNum r) = Some r"
| "to_number SNull = Some 0"
| "to_number _ = None"

definition drop_minus :: "string \<Rightarrow> string" where
  "drop_minus s = (if s \<noteq> [] \<and> hd s = CHR ''-'' then tl s else s)"

text \<open>\<open>rnumpx\<close>, \<open>rnum\<close>: a whole number with or without \<open>px\<close>, and a text that begins with a digit.\<close>

fun rnumpx :: "sval \<Rightarrow> bool" where
  "rnumpx (STxt s) =
     (let t = drop_minus s
      in takeWhile is_digit t \<noteq> [] \<and> (dropWhile is_digit t = [] \<or> to_lower (dropWhile is_digit t) = ''px''))"
| "rnumpx (SPx r) = (of_int \<lfloor>r\<rfloor> = r)"
| "rnumpx (SNum r) = (of_int \<lfloor>r\<rfloor> = r)"
| "rnumpx _ = False"

fun rnum :: "sval \<Rightarrow> bool" where
  "rnum (STxt s) = (case drop_minus s of [] \<Rightarrow> False | c # _ \<Rightarrow> is_digit c)"
| "rnum (SPx r) = True"
| "rnum (SNum r) = True"
| "rnum _ = False"

text \<open>\<open>rrelNum\<close>: the sign before the equals sign, and the characters of the number behind it.\<close>

definition relative_char :: "char \<Rightarrow> bool" where
  "relative_char c \<longleftrightarrow> is_digit c \<or> c \<in> set ''-+.e''"

definition rrelNum :: "string \<Rightarrow> (bool \<times> string) option" where
  "rrelNum s = (case s of
      c # d # t \<Rightarrow>
        if (c = CHR ''-'' \<or> c = CHR ''+'') \<and> d = CHR ''='' \<and> takeWhile relative_char t \<noteq> []
        then Some (c = CHR ''+'', takeWhile relative_char t) else None
    | _ \<Rightarrow> None)"

text \<open>The name of a computed property: \<open>rupper\<close> puts a dash before capitals and before \<open>ms\<close> at the beginning.\<close>

definition css_dashed :: "string \<Rightarrow> string" where
  "css_dashed s = (if take 2 s = ''ms'' then CHR ''-'' # ''ms'' @ dashed (drop 2 s) else dashed s)"

section \<open>The world and the browser\<close>

record 'q cssw =
  inline :: "nat \<Rightarrow> string \<Rightarrow> sval" \<comment> \<open>\<open>elem.style\<close>\<close>
  runtime :: "nat \<Rightarrow> string \<Rightarrow> sval" \<comment> \<open>\<open>elem.runtimeStyle\<close>, undefined everywhere when there is none\<close>
  outside :: 'q

record 'q chost =
  isTextOrComment :: "nat \<Rightarrow> bool"
  hasStyle :: "nat \<Rightarrow> bool"
  assign :: "nat \<Rightarrow> string \<Rightarrow> sval \<Rightarrow> (string \<Rightarrow> sval) \<Rightarrow> string \<Rightarrow> sval" \<comment> \<open>a style object after an assignment\<close>
  w3c :: bool \<comment> \<open>\<open>document.defaultView.getComputedStyle\<close> is there; else \<open>currentStyle\<close> is\<close>
  hasView :: "nat \<Rightarrow> bool"
  computed :: "'q cssw \<Rightarrow> nat \<Rightarrow> (string \<Rightarrow> sval) option"
  attached :: "nat \<Rightarrow> bool" \<comment> \<open>within the root element of its document\<close>
  current :: "'q cssw \<Rightarrow> nat \<Rightarrow> (string \<Rightarrow> sval) option"
  pixelLeft :: "'q cssw \<Rightarrow> nat \<Rightarrow> real"
  offsetWidth :: "'q cssw \<Rightarrow> nat \<Rightarrow> real option"
  offsetHeight :: "'q cssw \<Rightarrow> nat \<Rightarrow> real option"
  numText :: "real \<Rightarrow> string" \<comment> \<open>a number as a text\<close>
  cssFloatOk :: bool
  opacityOk :: bool
  marginHook :: bool \<comment> \<open>the hook of the right margin has been added\<close>
  reliableHiddenOffsets :: bool

definition set_style :: "'q chost \<Rightarrow> nat \<Rightarrow> string \<Rightarrow> sval \<Rightarrow> 'q cssw \<Rightarrow> 'q cssw" where
  "set_style h e n v w = w\<lparr>inline := (inline w)(e := assign h e n v (inline w e))\<rparr>"

definition set_runtime :: "'q chost \<Rightarrow> nat \<Rightarrow> string \<Rightarrow> sval \<Rightarrow> 'q cssw \<Rightarrow> 'q cssw" where
  "set_runtime h e n v w = w\<lparr>runtime := (runtime w)(e := assign h e n v (runtime w e))\<rparr>"

section \<open>swap\<close>

fun swap_in :: "'q chost \<Rightarrow> nat \<Rightarrow> (string \<times> sval) list \<Rightarrow> 'q cssw \<Rightarrow> (string \<times> sval) list \<times> 'q cssw" where
  "swap_in h e [] w = ([], w)"
| "swap_in h e ((n, v) # os) w =
     (let (olds, w') = swap_in h e os (set_style h e n v w) in ((n, inline w e n) # olds, w'))"

fun swap_out :: "'q chost \<Rightarrow> nat \<Rightarrow> (string \<times> sval) list \<Rightarrow> 'q cssw \<Rightarrow> 'q cssw" where
  "swap_out h e [] w = w"
| "swap_out h e ((n, v) # olds) w = swap_out h e olds (set_style h e n v w)"

definition swap :: "'q chost \<Rightarrow> nat \<Rightarrow> (string \<times> sval) list \<Rightarrow> ('q cssw \<Rightarrow> 'a \<times> 'q cssw) \<Rightarrow> 'q cssw \<Rightarrow> 'a \<times> 'q cssw" where
  "swap h e options callback w =
     (let (olds, w1) = swap_in h e options w;
          (r, w2) = callback w1
      in (r, swap_out h e olds w2))"

definition cssShow :: "(string \<times> sval) list" where
  "cssShow = [(''position'', STxt ''absolute''), (''visibility'', STxt ''hidden''), (''display'', STxt ''block'')]"

section \<open>Names and hooks\<close>

datatype hook = HOpacity | HFilter | HSize | HMargin

definition cssNumber :: "string \<Rightarrow> bool" where
  "cssNumber n \<longleftrightarrow> n \<in> set [''fillOpacity'', ''fontWeight'', ''lineHeight'', ''opacity'', ''orphans'', ''widows'', ''zIndex'', ''zoom'']"

definition cssProps :: "'q chost \<Rightarrow> string \<Rightarrow> string" where
  "cssProps h n = (if n = ''float'' then (if cssFloatOk h then ''cssFloat'' else ''styleFloat'') else n)"

definition cssHooks :: "'q chost \<Rightarrow> string \<Rightarrow> hook option" where
  "cssHooks h n =
     (if n = ''opacity'' then Some (if opacityOk h then HOpacity else HFilter)
      else if n = ''width'' \<or> n = ''height'' then Some HSize
      else if n = ''marginRight'' \<and> marginHook h then Some HMargin
      else None)"

definition unstyled :: "'q chost \<Rightarrow> nat \<Rightarrow> bool" where
  "unstyled h e \<longleftrightarrow> isTextOrComment h e \<or> \<not> hasStyle h e"

section \<open>Opacity by filters\<close>

text \<open>A value as a text.\<close>

fun text_of :: "'q chost \<Rightarrow> sval \<Rightarrow> string" where
  "text_of h (STxt s) = s"
| "text_of h (SPx r) = numText h r @ ''px''"
| "text_of h (SNum r) = numText h r"
| "text_of h SNaN = ''NaN''"
| "text_of h SNull = ''null''"
| "text_of h SUndef = ''undefined''"

text \<open>What \<open>ropacity\<close> captures.\<close>

fun ropacity :: "string \<Rightarrow> string option" where
  "ropacity s =
     (if take 8 s = ''opacity='' then Some (takeWhile (\<lambda>c. c \<noteq> CHR '')'') (drop 8 s))
      else case s of [] \<Rightarrow> None | c # t \<Rightarrow> ropacity t)"

text \<open>The text before and behind the match of \<open>ralpha\<close>.\<close>

fun ralpha :: "string \<Rightarrow> (string \<times> string) option" where
  "ralpha s =
     (if to_lower (take 6 s) = ''alpha('' \<and> CHR '')'' \<in> set (drop 6 s)
      then Some ([], tl (dropWhile (\<lambda>c. c \<noteq> CHR '')'') (drop 6 s)))
      else case s of [] \<Rightarrow> None | c # t \<Rightarrow> map_option (\<lambda>(p, q). (c # p, q)) (ralpha t))"

declare ropacity.simps [simp del] ralpha.simps [simp del]

definition or_empty :: "'q chost \<Rightarrow> sval \<Rightarrow> string" where
  "or_empty h v = (if struthy v then text_of h v else [])"

definition filter_get :: "'q chost \<Rightarrow> nat \<Rightarrow> bool \<Rightarrow> 'q cssw \<Rightarrow> sval" where
  "filter_get h e calc w =
     (let f = (if calc then case current h w e of Some g \<Rightarrow> g ''filter'' | None \<Rightarrow> inline w e ''filter''
               else inline w e ''filter'')
      in case ropacity (or_empty h f) of
          Some d \<Rightarrow> STxt (case parseFloat d of Some r \<Rightarrow> numText h (r / 100) | None \<Rightarrow> ''NaN'')
        | None \<Rightarrow> STxt (if calc then ''1'' else []))"

text \<open>\<open>jQuery.isNaN\<close>\<close>

definition jq_isNaN :: "sval \<Rightarrow> bool" where
  "jq_isNaN v = (case v of
      STxt s \<Rightarrow> \<not> list_ex is_digit s \<or> js_number s = None
    | SNum r \<Rightarrow> False
    | _ \<Rightarrow> True)"

definition filter_set :: "'q chost \<Rightarrow> nat \<Rightarrow> sval \<Rightarrow> 'q cssw \<Rightarrow> 'q cssw" where
  "filter_set h e v w =
     (let num = to_number v;
          opa = (if jq_isNaN v then [] else ''alpha(opacity='' @ numText h (the num * 100) @ '')'');
          f = (case current h w e of
                 Some g \<Rightarrow> (if struthy (g ''filter'') then text_of h (g ''filter'') else or_empty h (inline w e ''filter''))
               | None \<Rightarrow> or_empty h (inline w e ''filter''));
          bare = (case ralpha f of Some (p, q) \<Rightarrow> p @ q | None \<Rightarrow> f);
          w1 = set_style h e ''zoom'' (SNum 1) w;
          clear = ((case num of Some r \<Rightarrow> 1 \<le> r | None \<Rightarrow> False) \<and> list_all is_space bare);
          w2 = (if clear then w1\<lparr>inline := (inline w1)(e := (inline w1 e)(''filter'' := STxt []))\<rparr> else w1)
      in if clear \<and> (case current h w2 e of Some g \<Rightarrow> \<not> struthy (g ''filter'') | None \<Rightarrow> False) then w2
         else set_style h e ''filter''
                (STxt (case ralpha f of Some (p, q) \<Rightarrow> p @ opa @ q | None \<Rightarrow> f @ '' '' @ opa)) w2)"

section \<open>Reading styles that are not computed\<close>

text \<open>The hooks with \<open>computed\<close> false; \<open>SUndef\<close> when they give nothing.\<close>

definition hook_plain :: "'q chost \<Rightarrow> hook \<Rightarrow> nat \<Rightarrow> 'q cssw \<Rightarrow> sval \<times> 'q cssw" where
  "hook_plain h k e w = (case k of
      HOpacity \<Rightarrow> (inline w e ''opacity'', w)
    | HFilter \<Rightarrow> (filter_get h e False w, w)
    | HSize \<Rightarrow> (SUndef, w)
    | HMargin \<Rightarrow> swap h e [(''display'', STxt ''inline-block'')] (\<lambda>w. (inline w e ''marginRight'', w)) w)"

text \<open>\<open>jQuery.style\<close> without a value\<close>

definition style_get :: "'q chost \<Rightarrow> nat \<Rightarrow> string \<Rightarrow> 'q cssw \<Rightarrow> sval \<times> 'q cssw" where
  "style_get h e name w =
     (if unstyled h e then (SUndef, w)
      else let orig = camelCase name; n = cssProps h orig
           in case cssHooks h orig of
               None \<Rightarrow> (inline w e n, w)
             | Some k \<Rightarrow> (let (ret, w1) = hook_plain h k e w
                 in if ret \<noteq> SUndef then (ret, w1) else (inline w1 e n, w1)))"

section \<open>Computed styles\<close>

definition getComputedStyle :: "'q chost \<Rightarrow> nat \<Rightarrow> string \<Rightarrow> 'q cssw \<Rightarrow> sval \<times> 'q cssw" where
  "getComputedStyle h e name w =
     (if \<not> hasView h e then (SUndef, w)
      else case computed h w e of
          None \<Rightarrow> (SUndef, w)
        | Some g \<Rightarrow>
            (let ret = g (css_dashed name)
             in if ret = STxt [] \<and> \<not> attached h e then style_get h e (css_dashed name) w else (ret, w)))"

definition currentStyle :: "'q chost \<Rightarrow> nat \<Rightarrow> string \<Rightarrow> 'q cssw \<Rightarrow> sval \<times> 'q cssw" where
  "currentStyle h e name w =
     (let ret = (case current h w e of None \<Rightarrow> SUndef | Some g \<Rightarrow> g name);
          rsLeft = runtime w e name;
          (ret1, w1) =
            (if \<not> rnumpx ret \<and> rnum ret then
               (let old = inline w e ''left'';
                    wa = (if struthy rsLeft
                          then set_runtime h e ''left'' (case current h w e of None \<Rightarrow> SUndef | Some g \<Rightarrow> g ''left'') w else w);
                    wb = set_style h e ''left'' (if name = ''fontSize'' then STxt ''1em'' else if struthy ret then ret else SNum 0) wa;
                    px = SPx (pixelLeft h wb e);
                    wc = set_style h e ''left'' old wb;
                    wd = (if struthy rsLeft then set_runtime h e ''left'' rsLeft wc else wc)
                in (px, wd))
             else (ret, w))
      in (if ret1 = STxt [] then STxt ''auto'' else ret1, w1))"

definition curCSS :: "'q chost \<Rightarrow> nat \<Rightarrow> string \<Rightarrow> 'q cssw \<Rightarrow> sval \<times> 'q cssw" where
  "curCSS h = (if w3c h then getComputedStyle h else currentStyle h)"

section \<open>Widths and heights\<close>

datatype extra = NoExtra | Padding | Border | Margin

definition offset_size :: "'q chost \<Rightarrow> string \<Rightarrow> 'q cssw \<Rightarrow> nat \<Rightarrow> real option" where
  "offset_size h name w e = (if name = ''width'' then offsetWidth h w e else offsetHeight h w e)"

definition sides :: "string \<Rightarrow> string list" where
  "sides name = (if name = ''width'' then [''Left'', ''Right''] else [''Top'', ''Bottom''])"

text \<open>\<open>parseFloat( jQuery.css( elem, name ) ) || 0\<close>\<close>

definition edge :: "(nat \<Rightarrow> string \<Rightarrow> 'q cssw \<Rightarrow> sval \<times> 'q cssw) \<Rightarrow> nat \<Rightarrow> string \<Rightarrow> 'q cssw \<Rightarrow> real \<times> 'q cssw" where
  "edge css e name w = (let (v, w1) = css e name w in (px_of v, w1))"

text \<open>The two bodies of \<open>jQuery.each( which, ... )\<close> in \<open>getWH\<close>.\<close>

definition take_edges :: "(nat \<Rightarrow> string \<Rightarrow> 'q cssw \<Rightarrow> sval \<times> 'q cssw) \<Rightarrow> nat \<Rightarrow> extra \<Rightarrow> string \<Rightarrow> real \<times> 'q cssw \<Rightarrow> real \<times> 'q cssw" where
  "take_edges css e x side vw =
     (let (v, w) = vw;
          (v1, w1) = (if x = NoExtra then (let (p, wp) = edge css e (''padding'' @ side) w in (v - p, wp)) else (v, w))
      in if x = Margin then (let (m, wm) = edge css e (''margin'' @ side) w1 in (v1 + m, wm))
         else (let (b, wb) = edge css e (''border'' @ side @ ''Width'') w1 in (v1 - b, wb)))"

definition add_edges :: "(nat \<Rightarrow> string \<Rightarrow> 'q cssw \<Rightarrow> sval \<times> 'q cssw) \<Rightarrow> nat \<Rightarrow> extra \<Rightarrow> string \<Rightarrow> real \<times> 'q cssw \<Rightarrow> real \<times> 'q cssw" where
  "add_edges css e x side vw =
     (let (v, w) = vw;
          (p, w1) = edge css e (''padding'' @ side) w;
          v1 = v + p;
          (v2, w2) = (if x \<noteq> Padding then (let (b, wb) = edge css e (''border'' @ side @ ''Width'') w1 in (v1 + b, wb)) else (v1, w1))
      in if x = Margin then (let (m, wm) = edge css e (''margin'' @ side) w2 in (v2 + m, wm)) else (v2, w2))"

fun negative :: "sval \<Rightarrow> bool" where
  "negative v = (case to_number v of Some r \<Rightarrow> r < 0 | None \<Rightarrow> False)"

text \<open>\<open>getWH\<close> without a size on the screen: the computed style, else the inline one, and the edges added to it.\<close>

definition getWH_css :: "'q chost \<Rightarrow> (nat \<Rightarrow> string \<Rightarrow> 'q cssw \<Rightarrow> sval \<times> 'q cssw) \<Rightarrow> nat \<Rightarrow> string \<Rightarrow> extra \<Rightarrow> 'q cssw \<Rightarrow> sval \<times> 'q cssw" where
  "getWH_css h css e name x w =
     (let (c, w1) = curCSS h e name w;
          c1 = (if negative c \<or> c = SUndef \<or> c = SNull then (if struthy (inline w1 e name) then inline w1 e name else SNum 0) else c);
          (v, w2) = (if x \<noteq> NoExtra then fold (add_edges css e x) (sides name) (px_of c1, w1) else (px_of c1, w1))
      in (SPx v, w2))"

definition getWH :: "'q chost \<Rightarrow> (nat \<Rightarrow> string \<Rightarrow> 'q cssw \<Rightarrow> sval \<times> 'q cssw) \<Rightarrow> nat \<Rightarrow> string \<Rightarrow> extra \<Rightarrow> 'q cssw \<Rightarrow> sval \<times> 'q cssw" where
  "getWH h css e name x w =
     (case offset_size h name w e of
        Some off \<Rightarrow>
          (if 0 < off then
             (let (v, w1) = (if x \<noteq> Border then fold (take_edges css e x) (sides name) (off, w) else (off, w)) in (SPx v, w1))
           else getWH_css h css e name x w)
      | None \<Rightarrow> getWH_css h css e name x w)"

text \<open>The hooks with \<open>computed\<close> true. The hook of width and height calls \<open>getWH\<close>.\<close>

definition size_get :: "'q chost \<Rightarrow> (nat \<Rightarrow> string \<Rightarrow> extra \<Rightarrow> 'q cssw \<Rightarrow> sval \<times> 'q cssw) \<Rightarrow> nat \<Rightarrow> string \<Rightarrow> extra \<Rightarrow> 'q cssw \<Rightarrow> sval \<times> 'q cssw" where
  "size_get h wh e name x w =
     (if offsetWidth h w e \<noteq> Some 0 then wh e name x w else swap h e cssShow (wh e name x) w)"

definition hook_computed :: "'q chost \<Rightarrow> (nat \<Rightarrow> string \<Rightarrow> extra \<Rightarrow> 'q cssw \<Rightarrow> sval \<times> 'q cssw) \<Rightarrow> hook \<Rightarrow> nat \<Rightarrow> string \<Rightarrow> extra \<Rightarrow> 'q cssw \<Rightarrow> sval \<times> 'q cssw" where
  "hook_computed h wh k e name x w = (case k of
      HOpacity \<Rightarrow> (let (ret, w1) = curCSS h e ''opacity'' w in (if ret = STxt [] then STxt ''1'' else ret, w1))
    | HFilter \<Rightarrow> (filter_get h e True w, w)
    | HSize \<Rightarrow> size_get h wh e name x w
    | HMargin \<Rightarrow> swap h e [(''display'', STxt ''inline-block'')] (curCSS h e ''margin-right'') w)"

text \<open>
  \<open>jQuery.css\<close> and \<open>getWH\<close> call each other: \<open>css\<close> asks \<open>getWH\<close> for a width or height, and \<open>getWH\<close> asks \<open>css\<close> for
  paddings, borders and margins, which have no hook of that kind. \<open>css_with\<close> is the body of \<open>jQuery.css\<close> over the function
  it calls, and \<open>css\<close> ties the knot in two levels; \<open>css_calls_itself\<close> shows that it is the recursion of the code.
\<close>

definition css_with :: "'q chost \<Rightarrow> (nat \<Rightarrow> string \<Rightarrow> extra \<Rightarrow> 'q cssw \<Rightarrow> sval \<times> 'q cssw) \<Rightarrow> nat \<Rightarrow> string \<Rightarrow> extra \<Rightarrow> 'q cssw \<Rightarrow> sval \<times> 'q cssw" where
  "css_with h wh e name x w =
     (let orig = camelCase name;
          n = cssProps h orig;
          n1 = (if n = ''cssFloat'' then ''float'' else n)
      in case cssHooks h orig of
          None \<Rightarrow> curCSS h e n1 w
        | Some k \<Rightarrow> (let (ret, w1) = hook_computed h wh k e n1 x w
            in if ret \<noteq> SUndef then (ret, w1) else curCSS h e n1 w1))"

definition css_edge :: "'q chost \<Rightarrow> nat \<Rightarrow> string \<Rightarrow> 'q cssw \<Rightarrow> sval \<times> 'q cssw" where
  "css_edge h e name = css_with h (\<lambda>e n x w. (SUndef, w)) e name NoExtra"

definition css :: "'q chost \<Rightarrow> nat \<Rightarrow> string \<Rightarrow> extra \<Rightarrow> 'q cssw \<Rightarrow> sval \<times> 'q cssw" where
  "css h = css_with h (getWH h (css_edge h))"

section \<open>Setting styles\<close>

text \<open>The hook of width and height when it sets: \<open>None\<close> when the value is to be left out.\<close>

definition size_set :: "sval \<Rightarrow> sval option" where
  "size_set v = (if rnumpx v then
       (case parse v of Some r \<Rightarrow> if 0 \<le> r then Some (SPx r) else None | None \<Rightarrow> None)
     else Some v)"

definition hook_set :: "'q chost \<Rightarrow> hook option \<Rightarrow> nat \<Rightarrow> sval \<Rightarrow> 'q cssw \<Rightarrow> sval option \<times> 'q cssw" where
  "hook_set h k e v w = (case k of
      Some HSize \<Rightarrow> (size_set v, w)
    | Some HFilter \<Rightarrow> (None, filter_set h e v w)
    | _ \<Rightarrow> (Some v, w))"

text \<open>A relative value made a number; other values are left as they are.\<close>

definition relative_value :: "'q chost \<Rightarrow> nat \<Rightarrow> string \<Rightarrow> sval \<Rightarrow> 'q cssw \<Rightarrow> sval \<times> 'q cssw" where
  "relative_value h e n v w = (case v of
      STxt s \<Rightarrow>
        (case rrelNum s of
          None \<Rightarrow> (v, w)
        | Some (up, ds) \<Rightarrow>
            (let (c, w1) = css h e n NoExtra w
             in (case (js_number ds, parse c) of
                   (Some d, Some r) \<Rightarrow> SNum ((if up then 1 else -1) * d + r)
                 | _ \<Rightarrow> SNaN, w1)))
    | _ \<Rightarrow> (v, w))"

text \<open>\<open>jQuery.style\<close> with a value that is not undefined.\<close>

definition style_set :: "'q chost \<Rightarrow> nat \<Rightarrow> string \<Rightarrow> sval \<Rightarrow> 'q cssw \<Rightarrow> 'q cssw" where
  "style_set h e name v w =
     (if unstyled h e then w
      else let orig = camelCase name; n = cssProps h orig;
               (v1, w1) = relative_value h e n v w
           in if v1 = SNull \<or> v1 = SUndef \<or> v1 = SNaN then w1
              else let v2 = (case v1 of SNum r \<Rightarrow> if cssNumber orig then v1 else SPx r | _ \<Rightarrow> v1)
                   in case hook_set h (cssHooks h orig) e v2 w1 of
                       (Some v3, w2) \<Rightarrow> set_style h e n v3 w2
                     | (None, w2) \<Rightarrow> w2)"

section \<open>fn.css and the filters\<close>

text \<open>A value for \<open>fn.css\<close>: one for all elements, or a function of the index and the value so far.\<close>

datatype cval = CVal sval | CFun "nat \<Rightarrow> sval \<Rightarrow> sval"

text \<open>The function that \<open>fn.css\<close> gives to \<open>jQuery.access\<close>.\<close>

definition css_or_style :: "'q chost \<Rightarrow> nat \<Rightarrow> string \<Rightarrow> sval \<Rightarrow> 'q cssw \<Rightarrow> 'q cssw" where
  "css_or_style h e name v w = (if v \<noteq> SUndef then style_set h e name v w else snd (css h e name NoExtra w))"

fun css_each :: "'q chost \<Rightarrow> string \<Rightarrow> cval \<Rightarrow> nat \<Rightarrow> nat list \<Rightarrow> 'q cssw \<Rightarrow> 'q cssw" where
  "css_each h name v i [] w = w"
| "css_each h name (CVal v) i (e # es) w = css_each h name (CVal v) (Suc i) es (css_or_style h e name v w)"
| "css_each h name (CFun f) i (e # es) w =
     (let (c, w1) = css h e name NoExtra w
      in css_each h name (CFun f) (Suc i) es (css_or_style h e name (f i c) w1))"

definition fn_css_get :: "'q chost \<Rightarrow> nat list \<Rightarrow> string \<Rightarrow> 'q cssw \<Rightarrow> sval \<times> 'q cssw" where
  "fn_css_get h es name w = (case es of [] \<Rightarrow> (SUndef, w) | e # _ \<Rightarrow> css h e name NoExtra w)"

definition fn_css_set :: "'q chost \<Rightarrow> nat list \<Rightarrow> string \<Rightarrow> cval \<Rightarrow> 'q cssw \<Rightarrow> 'q cssw" where
  "fn_css_set h es name v w = (if v = CVal SUndef then w else css_each h name v 0 es w)"

text \<open>An object of properties, its keys in order; an undefined value reads the property of the first element.\<close>

definition fn_css_map :: "'q chost \<Rightarrow> nat list \<Rightarrow> (string \<times> cval) list \<Rightarrow> 'q cssw \<Rightarrow> 'q cssw" where
  "fn_css_map h es props w =
     fold (\<lambda>(name, v) w. if v = CVal SUndef then snd (fn_css_get h es name w) else css_each h name v 0 es w) props w"

definition filter_hidden :: "'q chost \<Rightarrow> nat \<Rightarrow> 'q cssw \<Rightarrow> bool \<times> 'q cssw" where
  "filter_hidden h e w =
     (if offsetWidth h w e = Some 0 \<and> offsetHeight h w e = Some 0 then (True, w)
      else if reliableHiddenOffsets h then (False, w)
      else let own = inline w e ''display'';
               (d, w1) = (if struthy own then (own, w) else css h e ''display'' NoExtra w)
           in (d = STxt ''none'', w1))"

definition filter_visible :: "'q chost \<Rightarrow> nat \<Rightarrow> 'q cssw \<Rightarrow> bool \<times> 'q cssw" where
  "filter_visible h e w = (let (b, w1) = filter_hidden h e w in (\<not> b, w1))"

section \<open>The recursion of css and getWH\<close>

lemma camelCase_edges:
  assumes "side \<in> {''Left'', ''Right'', ''Top'', ''Bottom''}"
  shows "camelCase (''padding'' @ side) = ''padding'' @ side"
    and "camelCase (''margin'' @ side) = ''margin'' @ side"
    and "camelCase (''border'' @ side @ ''Width'') = ''border'' @ side @ ''Width''"
  using assms by (auto simp: camelCase_def)

lemma sides_of: "side \<in> set (sides name) \<Longrightarrow> side \<in> {''Left'', ''Right'', ''Top'', ''Bottom''}"
  by (auto simp: sides_def split: if_splits)

lemma css_edge_any:
  assumes "camelCase n \<noteq> ''width''" "camelCase n \<noteq> ''height''"
  shows "css_with h wh e n NoExtra = css_edge h e n"
  using assms by (intro ext) (simp add: css_with_def css_edge_def cssHooks_def hook_computed_def Let_def)

lemma css_of_edges:
  assumes "side \<in> set (sides name)"
  shows "css h e (''padding'' @ side) NoExtra = css_edge h e (''padding'' @ side)"
    and "css h e (''margin'' @ side) NoExtra = css_edge h e (''margin'' @ side)"
    and "css h e (''border'' @ side @ ''Width'') NoExtra = css_edge h e (''border'' @ side @ ''Width'')"
proof -
  note c = camelCase_edges[OF sides_of[OF assms]]
  show "css h e (''padding'' @ side) NoExtra = css_edge h e (''padding'' @ side)"
    unfolding css_def by (rule css_edge_any) (simp_all only: c, simp_all)
  show "css h e (''margin'' @ side) NoExtra = css_edge h e (''margin'' @ side)"
    unfolding css_def by (rule css_edge_any) (simp_all only: c, simp_all)
  show "css h e (''border'' @ side @ ''Width'') NoExtra = css_edge h e (''border'' @ side @ ''Width'')"
    unfolding css_def by (rule css_edge_any) (simp_all only: c, simp_all)
qed

lemma edge_of_css:
  assumes "side \<in> set (sides name)"
  shows "edge (\<lambda>e n. css h e n NoExtra) e (''padding'' @ side) = edge (css_edge h) e (''padding'' @ side)"
    and "edge (\<lambda>e n. css h e n NoExtra) e (''margin'' @ side) = edge (css_edge h) e (''margin'' @ side)"
    and "edge (\<lambda>e n. css h e n NoExtra) e (''border'' @ side @ ''Width'') = edge (css_edge h) e (''border'' @ side @ ''Width'')"
  by (intro ext, simp only: edge_def css_of_edges[OF assms])+

lemma fold_over_sides:
  assumes "\<And>side vw. side \<in> set ss \<Longrightarrow> f side vw = g side vw"
  shows "fold f ss vw = fold g ss vw"
  using assms by (intro fold_cong) auto

lemma getWH_of_css: "getWH h (\<lambda>e n. css h e n NoExtra) = getWH h (css_edge h)"
proof -
  have t: "fold (take_edges (\<lambda>e n. css h e n NoExtra) e x) (sides name) vw = fold (take_edges (css_edge h) e x) (sides name) vw" for e x name vw
    by (rule fold_over_sides) (simp only: take_edges_def edge_of_css)
  have a: "fold (add_edges (\<lambda>e n. css h e n NoExtra) e x) (sides name) vw = fold (add_edges (css_edge h) e x) (sides name) vw" for e x name vw
    by (rule fold_over_sides) (simp only: add_edges_def edge_of_css)
  show ?thesis
    by (intro ext) (simp only: getWH_def getWH_css_def t a)
qed

text \<open>\<open>css\<close> is the mutual recursion of the code.\<close>

theorem css_calls_itself: "css h = css_with h (getWH h (\<lambda>e n. css h e n NoExtra))"
  unfolding getWH_of_css by (simp add: css_def)

section \<open>Reading a style leaves the styles as they were\<close>

text \<open>
  The properties that a read writes for a moment. An assignment to one of them changes no other
  property, and what the style object holds under one of them can be assigned to it again.
\<close>

definition swapped :: "string list" where
  "swapped = [''position'', ''visibility'', ''display'', ''left'']"

definition writable :: "'q chost \<Rightarrow> nat \<Rightarrow> (string \<Rightarrow> sval) \<Rightarrow> bool" where
  "writable h e st \<longleftrightarrow> (\<forall>n\<in>set swapped. \<forall>st'. assign h e n (st n) st' n = st n)"

definition restores :: "'q chost \<Rightarrow> nat \<Rightarrow> bool" where
  "restores h e \<longleftrightarrow> (\<forall>n\<in>set swapped. \<forall>v st.
     (\<forall>m. m \<noteq> n \<longrightarrow> assign h e n v st m = st m) \<and> (writable h e st \<longrightarrow> writable h e (assign h e n v st)))"

text \<open>No runtime style, or a browser that has none.\<close>

definition quiet :: "'q chost \<Rightarrow> nat \<Rightarrow> 'q cssw \<Rightarrow> bool" where
  "quiet h e w \<longleftrightarrow> writable h e (inline w e) \<and> (w3c h \<or> (\<forall>n. \<not> struthy (runtime w e n)))"

definition reads_only :: "'q chost \<Rightarrow> nat \<Rightarrow> ('q cssw \<Rightarrow> 'a \<times> 'q cssw) \<Rightarrow> bool" where
  "reads_only h e f \<longleftrightarrow> (\<forall>w. quiet h e w \<longrightarrow> snd (f w) = w)"

lemma restores_other: "restores h e \<Longrightarrow> n \<in> set swapped \<Longrightarrow> m \<noteq> n \<Longrightarrow> assign h e n v st m = st m"
  unfolding restores_def by blast

lemma restores_writable: "restores h e \<Longrightarrow> n \<in> set swapped \<Longrightarrow> writable h e st \<Longrightarrow> writable h e (assign h e n v st)"
  unfolding restores_def by blast

lemma writableD: "writable h e st \<Longrightarrow> n \<in> set swapped \<Longrightarrow> assign h e n (st n) st' n = st n"
  unfolding writable_def by blast

lemma reads_onlyD: "reads_only h e f \<Longrightarrow> quiet h e w \<Longrightarrow> snd (f w) = w"
  unfolding reads_only_def by blast

lemma reads_onlyI: "(\<And>w. quiet h e w \<Longrightarrow> snd (f w) = w) \<Longrightarrow> reads_only h e f"
  unfolding reads_only_def by blast

lemma reads_pair: "reads_only h e f \<Longrightarrow> quiet h e w \<Longrightarrow> f w = (fst (f w), w)"
  using reads_onlyD[of h e f w] by (cases "f w") simp

lemma swap_in_styles:
  assumes "restores h e" "set (map fst os) \<subseteq> set swapped" "distinct (map fst os)"
  shows "\<exists>st. swap_in h e os w = (map (\<lambda>(n, v). (n, inline w e n)) os, w\<lparr>inline := (inline w)(e := st)\<rparr>) \<and>
      (\<forall>m. m \<notin> set (map fst os) \<longrightarrow> st m = inline w e m) \<and> (writable h e (inline w e) \<longrightarrow> writable h e st)"
  using assms(2,3)
proof (induction os arbitrary: w)
  case Nil
  then show ?case by (intro exI[of _ "inline w e"]) simp
next
  case (Cons nv os)
  obtain n v where nv: "nv = (n, v)" by (cases nv)
  have n: "n \<in> set swapped" "n \<notin> set (map fst os)" using Cons.prems by (auto simp: nv)
  define w0 where "w0 = set_style h e n v w"
  have w0: "inline w0 e = assign h e n v (inline w e)" by (simp add: w0_def set_style_def)
  obtain st where st: "swap_in h e os w0 = (map (\<lambda>(n, v). (n, inline w0 e n)) os, w0\<lparr>inline := (inline w0)(e := st)\<rparr>)"
      "\<forall>m. m \<notin> set (map fst os) \<longrightarrow> st m = inline w0 e m" "writable h e (inline w0 e) \<longrightarrow> writable h e st"
  proof -
    have "set (map fst os) \<subseteq> set swapped" "distinct (map fst os)" using Cons.prems by auto
    from Cons.IH[OF this, of w0] show ?thesis using that by blast
  qed
  have same: "inline w0 e m = inline w e m" if "m \<noteq> n" for m
    using restores_other[OF assms(1) n(1) that] by (simp add: w0)
  have same': "inline w0 e (fst x) = inline w e (fst x)" if "x \<in> set os" for x
    using n(2) that by (intro same) auto
  have olds: "map (\<lambda>(n, v). (n, inline w0 e n)) os = map (\<lambda>(n, v). (n, inline w e n)) os"
    by (rule map_cong) (simp_all add: case_prod_beta same')
  have w': "w0\<lparr>inline := (inline w0)(e := st)\<rparr> = w\<lparr>inline := (inline w)(e := st)\<rparr>"
    by (simp add: w0_def set_style_def)
  have "swap_in h e ((n, v) # os) w = ((n, inline w e n) # map (\<lambda>(n, v). (n, inline w e n)) os, w\<lparr>inline := (inline w)(e := st)\<rparr>)"
    using st(1) by (simp add: w0_def[symmetric] olds w')
  moreover have "\<forall>m. m \<notin> set (map fst (nv # os)) \<longrightarrow> st m = inline w e m"
    using st(2) same by (simp add: nv)
  moreover have "writable h e (inline w e) \<longrightarrow> writable h e st"
    using st(3) restores_writable[OF assms(1) n(1)] by (simp add: w0)
  ultimately show ?case unfolding nv by (intro exI[of _ st]) (simp add: fun_upd_def)
qed

lemma swap_out_styles:
  assumes "restores h e" "set (map fst olds) \<subseteq> set swapped" "distinct (map fst olds)"
    and "\<forall>(n, v)\<in>set olds. \<forall>st. assign h e n v st n = v"
  shows "swap_out h e olds w =
    w\<lparr>inline := (inline w)(e := (\<lambda>m. case map_of olds m of Some v \<Rightarrow> v | None \<Rightarrow> inline w e m))\<rparr>"
  using assms(2-)
proof (induction olds arbitrary: w)
  case (Cons nv olds)
  obtain n v where nv: "nv = (n, v)" by (cases nv)
  have n: "n \<in> set swapped" "map_of olds n = None" "assign h e n v (inline w e) n = v"
    using Cons.prems by (auto simp: nv map_of_eq_None_iff)
  have "(\<lambda>m. case map_of olds m of Some v \<Rightarrow> v | None \<Rightarrow> assign h e n v (inline w e) m)
      = (\<lambda>m. case map_of (nv # olds) m of Some v \<Rightarrow> v | None \<Rightarrow> inline w e m)"
    using n restores_other[OF assms(1) n(1)] by (auto simp: nv split: option.split)
  moreover have "swap_out h e (nv # olds) w = swap_out h e olds (set_style h e n v w)" by (simp add: nv)
  moreover have "swap_out h e olds (set_style h e n v w) = (set_style h e n v w)\<lparr>inline := (inline (set_style h e n v w))(e :=
      (\<lambda>m. case map_of olds m of Some v \<Rightarrow> v | None \<Rightarrow> inline (set_style h e n v w) e m))\<rparr>"
    by (rule Cons.IH) (use Cons.prems in auto)
  ultimately show ?case by (simp add: set_style_def fun_upd_def nv cong: if_cong option.case_cong)
qed simp

lemma swap_reads:
  assumes r: "restores h e" "set (map fst os) \<subseteq> set swapped" "distinct (map fst os)"
    and f: "reads_only h e f" and q: "quiet h e w"
  shows "quiet h e (snd (swap_in h e os w))" "swap h e os f w = (fst (f (snd (swap_in h e os w))), w)"
proof -
  obtain st where st: "swap_in h e os w = (map (\<lambda>(n, v). (n, inline w e n)) os, w\<lparr>inline := (inline w)(e := st)\<rparr>)"
      "\<forall>m. m \<notin> set (map fst os) \<longrightarrow> st m = inline w e m" "writable h e (inline w e) \<longrightarrow> writable h e st"
    using swap_in_styles[OF r] by blast
  let ?w = "w\<lparr>inline := (inline w)(e := st)\<rparr>" and ?o = "map (\<lambda>(n, v). (n, inline w e n)) os"
  have q': "quiet h e ?w" using q st(3) by (simp add: quiet_def)
  then show "quiet h e (snd (swap_in h e os w))" by (simp add: st(1))
  have m: "map_of ?o m = (if m \<in> set (map fst os) then Some (inline w e m) else None)" for m
    by (induction os) auto
  have "swap_out h e ?o ?w = w"
  proof (subst swap_out_styles[OF r(1)])
    show "set (map fst ?o) \<subseteq> set swapped" "distinct (map fst ?o)" using r(2,3) by (simp_all add: case_prod_beta comp_def)
    show "\<forall>(n, v)\<in>set ?o. \<forall>st. assign h e n v st n = v"
      using q r(2) by (auto simp: quiet_def intro!: writableD)
    have "(\<lambda>m. case map_of ?o m of Some v \<Rightarrow> v | None \<Rightarrow> inline ?w e m) = inline w e"
      using st(2) by (auto simp: m)
    then show "?w\<lparr>inline := (inline ?w)(e := (\<lambda>m. case map_of ?o m of Some v \<Rightarrow> v | None \<Rightarrow> inline ?w e m))\<rparr> = w"
      by simp
  qed
  then show "swap h e os f w = (fst (f (snd (swap_in h e os w))), w)"
    using reads_onlyD[OF f q'] by (simp add: swap_def st(1) case_prod_beta)
qed

lemma swap_reads_only:
  assumes "restores h e" "set (map fst os) \<subseteq> set swapped" "distinct (map fst os)" "reads_only h e f"
  shows "reads_only h e (swap h e os f)"
  by (rule reads_onlyI) (simp add: swap_reads(2)[OF assms])

lemma show_names: "set (map fst cssShow) \<subseteq> set swapped" "distinct (map fst cssShow)"
  "set (map fst [(''display'', v)]) \<subseteq> set swapped" "distinct (map fst [(''display'', v)])"
  by (simp_all add: cssShow_def swapped_def)

lemma reads_only_value: "reads_only h e (\<lambda>w. (g w, w))"
  by (simp add: reads_only_def)

lemma style_get_reads:
  assumes "restores h e"
  shows "reads_only h e (style_get h e name)"
proof -
  have k: "reads_only h e (hook_plain h k e)" for k
    by (cases k) (simp_all add: hook_plain_def[abs_def] reads_only_value swap_reads_only[OF assms show_names(3,4) reads_only_value])
  show ?thesis
    by (rule reads_onlyI) (simp add: style_get_def Let_def case_prod_beta reads_onlyD[OF k] split: option.split)
qed

lemma getComputedStyle_reads:
  assumes "restores h e"
  shows "reads_only h e (getComputedStyle h e name)"
  by (rule reads_onlyI) (simp add: getComputedStyle_def Let_def reads_onlyD[OF style_get_reads[OF assms]] split: option.split)

lemma currentStyle_reads:
  assumes r: "restores h e" and old: "\<not> w3c h"
  shows "reads_only h e (currentStyle h e name)"
proof (rule reads_onlyI)
  fix w
  assume q: "quiet h e w"
  have l: "''left'' \<in> set swapped" by (simp add: swapped_def)
  have undo: "set_style h e ''left'' (inline w e ''left'') (set_style h e ''left'' v w) = w" for v
  proof -
    have "assign h e ''left'' (inline w e ''left'') (assign h e ''left'' v (inline w e)) m = inline w e m" for m
      using writableD[OF _ l, of h e "inline w e"] restores_other[OF r l] q
      by (cases "m = ''left''") (simp_all add: quiet_def)
    then have "assign h e ''left'' (inline w e ''left'') (assign h e ''left'' v (inline w e)) = inline w e" by blast
    then show ?thesis by (simp add: set_style_def)
  qed
  have "\<not> struthy (runtime w e name)" using q old by (simp add: quiet_def)
  then show "snd (currentStyle h e name w) = w"
    by (simp add: currentStyle_def Let_def case_prod_beta undo)
qed

lemma curCSS_reads: "restores h e \<Longrightarrow> reads_only h e (curCSS h e name)"
  by (simp add: curCSS_def getComputedStyle_reads currentStyle_reads)

lemma edge_reads: "reads_only h e (f e n) \<Longrightarrow> quiet h e w \<Longrightarrow> edge f e n w = (px_of (fst (f e n w)), w)"
  by (subst edge_def, subst reads_pair) simp_all

lemma hook_computed_reads:
  assumes "restores h e" "\<And>name x. k = HSize \<Longrightarrow> reads_only h e (wh e name x)"
  shows "reads_only h e (hook_computed h wh k e name x)"
proof (cases k)
  case HSize
  have wh: "reads_only h e (wh e name x)" for name x using assms(2)[OF HSize] .
  show ?thesis
    by (rule reads_onlyI)
      (simp add: HSize hook_computed_def size_get_def reads_onlyD[OF wh] reads_onlyD[OF swap_reads_only[OF assms(1) show_names(1,2) wh]])
next
  case HOpacity
  then show ?thesis
    by (intro reads_onlyI) (simp add: hook_computed_def case_prod_beta Let_def reads_onlyD[OF curCSS_reads[OF assms(1)]])
next
  case HMargin
  then show ?thesis
    by (intro reads_onlyI) (simp add: hook_computed_def reads_onlyD[OF swap_reads_only[OF assms(1) show_names(3,4) curCSS_reads[OF assms(1)]]])
qed (simp add: hook_computed_def[abs_def] reads_only_def)

lemma css_with_reads:
  assumes "restores h e" "\<And>name x. reads_only h e (wh e name x)"
  shows "reads_only h e (css_with h wh e name x)"
proof (rule reads_onlyI)
  fix w
  assume q: "quiet h e w"
  have k: "snd (hook_computed h wh k e n x w) = w" for k n
    using hook_computed_reads[OF assms(1), of k wh n x] assms(2) q by (simp add: reads_onlyD)
  show "snd (css_with h wh e name x w) = w"
    by (simp add: css_with_def Let_def case_prod_beta k reads_onlyD[OF curCSS_reads[OF assms(1)] q] split: option.split)
qed

lemma css_edge_reads: "restores h e \<Longrightarrow> reads_only h e (css_edge h e name)"
  unfolding css_edge_def by (rule css_with_reads) (simp_all add: reads_only_value)

text \<open>The width of an edge of the box of an element.\<close>

definition edge_px :: "'q chost \<Rightarrow> nat \<Rightarrow> 'q cssw \<Rightarrow> string \<Rightarrow> real" where
  "edge_px h e w n = px_of (fst (css h e n NoExtra w))"

lemma edge_is:
  assumes "restores h e" "quiet h e w" "side \<in> set (sides name)"
  shows "edge (css_edge h) e (''padding'' @ side) w = (edge_px h e w (''padding'' @ side), w)"
    and "edge (css_edge h) e (''margin'' @ side) w = (edge_px h e w (''margin'' @ side), w)"
    and "edge (css_edge h) e (''border'' @ side @ ''Width'') w = (edge_px h e w (''border'' @ side @ ''Width''), w)"
  by (simp_all only: edge_reads[where f = "css_edge h", OF css_edge_reads[OF assms(1)] assms(2)] edge_px_def css_of_edges[OF assms(3)])

definition paddings :: "'q chost \<Rightarrow> nat \<Rightarrow> string \<Rightarrow> 'q cssw \<Rightarrow> real" where
  "paddings h e name w = (\<Sum>side\<leftarrow>sides name. edge_px h e w (''padding'' @ side))"

definition borders :: "'q chost \<Rightarrow> nat \<Rightarrow> string \<Rightarrow> 'q cssw \<Rightarrow> real" where
  "borders h e name w = (\<Sum>side\<leftarrow>sides name. edge_px h e w (''border'' @ side @ ''Width''))"

definition margins :: "'q chost \<Rightarrow> nat \<Rightarrow> string \<Rightarrow> 'q cssw \<Rightarrow> real" where
  "margins h e name w = (\<Sum>side\<leftarrow>sides name. edge_px h e w (''margin'' @ side))"

lemma two_sides: "\<exists>a b. sides name = [a, b]"
  by (simp add: sides_def)

lemma taken:
  assumes "restores h e" "quiet h e w"
  shows "fold (take_edges (css_edge h) e x) (sides name) (v, w) =
    (v - (if x = NoExtra then paddings h e name w else 0)
       + (if x = Margin then margins h e name w else - borders h e name w), w)"
proof -
  obtain a b where ab: "sides name = [a, b]" using two_sides by blast
  have "a \<in> set (sides name)" "b \<in> set (sides name)" by (simp_all add: ab)
  note e = this[THEN edge_is(1)[OF assms]] this[THEN edge_is(2)[OF assms]] this[THEN edge_is(3)[OF assms]]
  show ?thesis
    by (simp add: ab take_edges_def e Let_def paddings_def borders_def margins_def del: append.simps append_Cons)
qed

lemma added:
  assumes "restores h e" "quiet h e w"
  shows "fold (add_edges (css_edge h) e x) (sides name) (v, w) =
    (v + paddings h e name w + (if x \<noteq> Padding then borders h e name w else 0)
       + (if x = Margin then margins h e name w else 0), w)"
proof -
  obtain a b where ab: "sides name = [a, b]" using two_sides by blast
  have "a \<in> set (sides name)" "b \<in> set (sides name)" by (simp_all add: ab)
  note e = this[THEN edge_is(1)[OF assms]] this[THEN edge_is(2)[OF assms]] this[THEN edge_is(3)[OF assms]]
  show ?thesis
    by (simp add: ab add_edges_def e Let_def paddings_def borders_def margins_def del: append.simps append_Cons)
qed

text \<open>The value that the fallback of \<open>getWH\<close> begins with.\<close>

definition fallback_size :: "'q chost \<Rightarrow> nat \<Rightarrow> string \<Rightarrow> 'q cssw \<Rightarrow> real" where
  "fallback_size h e name w =
     (let c = fst (curCSS h e name w)
      in px_of (if negative c \<or> c = SUndef \<or> c = SNull then (if struthy (inline w e name) then inline w e name else SNum 0) else c))"

text \<open>The size that \<open>getWH\<close> finds, and what the edges asked for make of it.\<close>

definition content_size :: "'q chost \<Rightarrow> nat \<Rightarrow> string \<Rightarrow> 'q cssw \<Rightarrow> real" where
  "content_size h e name w =
     (case offset_size h name w e of
        Some off \<Rightarrow> if 0 < off then off - paddings h e name w - borders h e name w else fallback_size h e name w
      | None \<Rightarrow> fallback_size h e name w)"

definition with_edges :: "'q chost \<Rightarrow> nat \<Rightarrow> string \<Rightarrow> 'q cssw \<Rightarrow> extra \<Rightarrow> real \<Rightarrow> real" where
  "with_edges h e name w x v = (case x of
      NoExtra \<Rightarrow> v
    | Padding \<Rightarrow> v + paddings h e name w
    | Border \<Rightarrow> v + paddings h e name w + borders h e name w
    | Margin \<Rightarrow> v + paddings h e name w + borders h e name w + margins h e name w)"

lemma getWH_css_is:
  assumes "restores h e" "quiet h e w"
  shows "getWH_css h (css_edge h) e name x w = (SPx (with_edges h e name w x (fallback_size h e name w)), w)"
proof -
  have c: "snd (curCSS h e name w) = w" by (rule reads_onlyD[OF curCSS_reads[OF assms(1)] assms(2)])
  show ?thesis
    by (cases x) (simp_all add: getWH_css_def case_prod_beta Let_def c added[OF assms] with_edges_def fallback_size_def)
qed

lemma getWH_is:
  assumes "restores h e" "quiet h e w"
  shows "getWH h (css_edge h) e name x w = (SPx (with_edges h e name w x (content_size h e name w)), w)"
proof (cases "offset_size h name w e")
  case None
  then show ?thesis by (simp add: getWH_def content_size_def getWH_css_is[OF assms])
next
  case (Some off)
  then show ?thesis
    by (cases x) (simp_all add: getWH_def content_size_def getWH_css_is[OF assms] taken[OF assms] with_edges_def)
qed

lemma getWH_reads: "restores h e \<Longrightarrow> reads_only h e (getWH h (css_edge h) e name x)"
  by (rule reads_onlyI) (simp add: getWH_is)

lemma css_reads: "restores h e \<Longrightarrow> reads_only h e (css h e name x)"
  unfolding css_def by (rule css_with_reads[where wh = "getWH h (css_edge h)"]) (simp_all add: getWH_reads)

text \<open>
  C26: Provided that the browser takes back the values of styles that it gave, and that it has \<open>getComputedStyle\<close> or the element has
  no runtime style, reading a computed style, a size included, leaves all styles as they were, whatever hooks
  it runs and whatever it assigns for a moment.
\<close>

theorem css_leaves_styles:
  assumes "restores h e" "quiet h e w"
  shows "snd (css h e name x w) = w"
  by (rule reads_onlyD[OF css_reads[OF assms(1)] assms(2)])

section \<open>Sizes of boxes\<close>

text \<open>The world in which a size is measured: with the styles of \<open>cssShow\<close> when the element takes no width.\<close>

definition measured :: "'q chost \<Rightarrow> nat \<Rightarrow> 'q cssw \<Rightarrow> 'q cssw" where
  "measured h e w = (if offsetWidth h w e \<noteq> Some 0 then w else snd (swap_in h e cssShow w))"

lemma measured_quiet:
  assumes "restores h e" "quiet h e w"
  shows "quiet h e (measured h e w)"
  using swap_reads(1)[OF assms(1) show_names(1,2) reads_only_value[where g = "\<lambda>_. ()"] assms(2)] assms(2)
  by (simp add: measured_def)

lemma size_name: "name \<in> {''width'', ''height''} \<Longrightarrow> camelCase name = name \<and> cssProps h name = name \<and> cssHooks h name = Some HSize \<and> name \<notin> set swapped"
proof -
  have "camelCase ''width'' = ''width''" "camelCase ''height'' = ''height''" by code_simp+
  then show "name \<in> {''width'', ''height''} \<Longrightarrow> camelCase name = name \<and> cssProps h name = name \<and> cssHooks h name = Some HSize \<and> name \<notin> set swapped"
    by (elim insertE) (simp_all add: cssProps_def cssHooks_def swapped_def)
qed

lemma css_size:
  assumes "restores h e" "quiet h e w" "name \<in> {''width'', ''height''}"
  shows "css h e name x w = (SPx (with_edges h e name (measured h e w) x (content_size h e name (measured h e w))), w)"
proof -
  note n = size_name[OF assms(3), of h]
  have m: "name \<noteq> ''cssFloat''" using assms(3) by auto
  show ?thesis
  proof (cases "offsetWidth h w e = Some 0")
    case True
    have s: "swap h e cssShow (getWH h (css_edge h) e name x) w = (fst (getWH h (css_edge h) e name x (measured h e w)), w)"
      using swap_reads(2)[OF assms(1) show_names(1,2) getWH_reads[OF assms(1)] assms(2)] True by (simp add: measured_def)
    show ?thesis
      by (simp add: css_def css_with_def Let_def n m hook_computed_def size_get_def True s getWH_is[OF assms(1) measured_quiet[OF assms(1,2)]])
  next
    case False
    then show ?thesis
      by (simp add: css_def css_with_def Let_def n m hook_computed_def size_get_def measured_def getWH_is[OF assms(1,2)])
  qed
qed

text \<open>
  C27: The sizes of an element are nested in both branches of \<open>getWH\<close> and whether or not the
  element has to be shown for the measure: the inner size is the size and the paddings, the outer size adds the borders,
  the outer size with margins adds the margins, all measured in one world; and the world is left as it was.
\<close>

theorem box_sizes_nested:
  assumes "restores h e" "quiet h e w" "name \<in> {''width'', ''height''}"
  shows "\<exists>c. css h e name NoExtra w = (SPx c, w) \<and>
    css h e name Padding w = (SPx (c + paddings h e name (measured h e w)), w) \<and>
    css h e name Border w = (SPx (c + paddings h e name (measured h e w) + borders h e name (measured h e w)), w) \<and>
    css h e name Margin w = (SPx (c + paddings h e name (measured h e w) + borders h e name (measured h e w) + margins h e name (measured h e w)), w)"
  by (intro exI[of _ "content_size h e name (measured h e w)"]) (simp add: css_size[OF assms] with_edges_def)

section \<open>Setting a size\<close>






text \<open>
  A negative width or height is left out when it is a whole number, and written to the style when it is not:
  the expression that recognizes numbers in the hook has no place for a fraction.
\<close>

theorem negative_sizes:
  assumes "name \<in> {''width'', ''height''}" "\<not> unstyled h e" "r < 0"
  shows "style_set h e name (SNum r) w = (if of_int \<lfloor>r\<rfloor> = r then w else set_style h e name (SPx r) w)"
proof -
  have "\<not> cssNumber name" using assms(1) by (auto simp: cssNumber_def)
  then show ?thesis
    using assms(2,3) size_name[OF assms(1), of h]
    by (simp add: style_set_def relative_value_def hook_set_def size_set_def Let_def)
qed

section \<open>Old browsers\<close>

text \<open>
  The read that converts a length to pixels saves the runtime style of the name it reads and gives it
  back as \<open>left\<close>: when the two are not the same property, a mere read changes where the element is.
\<close>

theorem reading_moves_runtime_left:
  assumes "\<not> w3c h" "current h w e = Some g" "\<not> rnumpx (g name)" "rnum (g name)" "struthy (runtime w e name)"
    and "\<And>v st. assign h e ''left'' v st ''left'' = v"
  shows "runtime (snd (curCSS h e name w)) e ''left'' = runtime w e name"
  using assms by (simp add: curCSS_def currentStyle_def Let_def set_style_def set_runtime_def)

lemma take_no_equals: "CHR ''='' \<notin> set p \<Longrightarrow> take 8 (p @ ''alpha('' @ s) = ''opacity='' \<Longrightarrow> take 2 s = ''op'' \<Longrightarrow> False"
proof -
  assume p: "CHR ''='' \<notin> set p" and t: "take 8 (p @ ''alpha('' @ s) = ''opacity=''" and s: "take 2 s = ''op''"
  obtain s' where s': "s = ''op'' @ s'" using s by (metis append_take_drop_id)
  have "take 8 ((p @ ''alpha(op'') @ s') = take 8 (p @ ''alpha(op'')" by (subst take_append) simp
  then have "take 8 (p @ ''alpha('' @ s) = take 8 (p @ ''alpha(op'')" by (simp add: s')
  then have "take 8 (p @ ''alpha(op'') = ''opacity=''" using t by (simp only:)
  then have "CHR ''='' \<in> set (take 8 (p @ ''alpha(op''))" by (simp only:) simp
  then have "CHR ''='' \<in> set (p @ ''alpha(op'')" by (rule in_set_takeD)
  then show False using p by simp
qed

lemma ropacity_skip: "take 8 (c # s) \<noteq> ''opacity='' \<Longrightarrow> ropacity (c # s) = ropacity s"
  by (subst ropacity.simps) (simp only: if_False list.case)

lemma ropacity_alpha:
  assumes "CHR ''='' \<notin> set p" "CHR '')'' \<notin> set n"
  shows "ropacity (p @ ''alpha(opacity='' @ n @ CHR '')'' # q) = Some n"
  using assms(1)
proof (induction p)
  case Nil
  have "ropacity (''alpha(opacity='' @ n @ CHR '')'' # q) = ropacity (''opacity='' @ n @ CHR '')'' # q)"
    by (simp add: ropacity.simps)
  also have "\<dots> = Some (takeWhile (\<lambda>c. c \<noteq> CHR '')'') (n @ CHR '')'' # q))"
    by (subst ropacity.simps) simp
  also have "takeWhile (\<lambda>c. c \<noteq> CHR '')'') (n @ CHR '')'' # q) = n"
    using assms(2) by (subst takeWhile_append2) auto
  finally show ?case by simp
next
  case (Cons c p)
  have "take 8 ((c # p) @ ''alpha('' @ ''opacity='' @ n @ CHR '')'' # q) \<noteq> ''opacity=''"
    using take_no_equals[OF Cons.prems, of "''opacity='' @ n @ CHR '')'' # q"] by auto
  then have "ropacity (c # (p @ ''alpha('' @ ''opacity='' @ n @ CHR '')'' # q)) = ropacity (p @ ''alpha('' @ ''opacity='' @ n @ CHR '')'' # q)"
    by (intro ropacity_skip) (simp only: append_Cons not_False_eq_True)
  then show ?case using Cons by (simp only: append.simps) simp
qed

text \<open>
  Opacity in a browser that only knows filters: a value below one that was set is what is read back, whatever other
  filters the element has, as long as no other filter before it has a value.
\<close>

theorem opacity_filter_roundtrip:
  assumes "\<not> opacityOk h" "\<not> unstyled h e" "current h w e = None" "r < 1"
    and "\<And>v st. assign h e ''filter'' v st ''filter'' = v" "\<And>v st. assign h e ''zoom'' v st ''filter'' = st ''filter''"
    and "parseFloat (numText h (r * 100)) = Some (r * 100)" "CHR '')'' \<notin> set (numText h (r * 100))"
    and "CHR ''='' \<notin> set (case ralpha (or_empty h (inline w e ''filter'')) of Some (p, q) \<Rightarrow> p | None \<Rightarrow> or_empty h (inline w e ''filter''))"
  shows "fst (style_get h e ''opacity'' (style_set h e ''opacity'' (SNum r) w)) = STxt (numText h r)"
proof -
  have o: "camelCase ''opacity'' = ''opacity''" by code_simp
  have p: "cssProps h ''opacity'' = ''opacity''" by (simp add: cssProps_def)
  have k: "cssHooks h ''opacity'' = Some HFilter" using assms(1) by (simp add: cssHooks_def)
  have n: "cssNumber ''opacity''" by (simp add: cssNumber_def)
  let ?f = "or_empty h (inline w e ''filter'')" and ?n = "numText h (r * 100)"
  define t where "t = (case ralpha ?f of Some (p, q) \<Rightarrow> p @ ''alpha(opacity='' @ ?n @ '')'' @ q | None \<Rightarrow> ?f @ '' '' @ ''alpha(opacity='' @ ?n @ '')'')"
  have "style_set h e ''opacity'' (SNum r) w = filter_set h e (SNum r) w"
    using assms(2) by (simp add: style_set_def Let_def o p k n relative_value_def hook_set_def)
  moreover have "inline (filter_set h e (SNum r) w) e ''filter'' = STxt t"
    using assms(3-5) by (simp add: filter_set_def Let_def jq_isNaN_def set_style_def t_def cong: option.case_cong)
  moreover have "ropacity t = Some ?n"
  proof (cases "ralpha ?f")
    case None
    have "ropacity ((?f @ '' '') @ ''alpha(opacity='' @ ?n @ CHR '')'' # []) = Some ?n"
      by (rule ropacity_alpha) (use assms(8,9) None in auto)
    then show ?thesis by (simp add: t_def None)
  next
    case (Some pq)
    obtain p q where pq: "pq = (p, q)" by (cases pq)
    have "ropacity (p @ ''alpha(opacity='' @ ?n @ CHR '')'' # q) = Some ?n"
      by (rule ropacity_alpha) (use assms(8,9) Some pq in auto)
    then show ?thesis by (simp add: t_def Some pq)
  qed
  moreover have "or_empty h (STxt t) = t" by (simp add: or_empty_def)
  ultimately show ?thesis
    using assms(2,7) by (simp add: style_get_def Let_def o p k hook_plain_def filter_get_def)
qed

section \<open>Examples\<close>

text \<open>A page of one box with paddings of 3 and borders of 1 pixel, whose style object holds what it is given.\<close>

definition box_page :: "unit chost" where
  "box_page =
    \<lparr>isTextOrComment = (\<lambda>_. False), hasStyle = (\<lambda>_. True), assign = (\<lambda>e n v st. st(n := v)), w3c = True,
     hasView = (\<lambda>_. True),
     computed = (\<lambda>w e. Some (\<lambda>n. if take 7 n = ''padding'' then STxt ''3px'' else if take 6 n = ''border'' then STxt ''1px'' else inline w e (camelCase n))),
     attached = (\<lambda>_. True), current = (\<lambda>w e. None), pixelLeft = (\<lambda>w e. 0),
     offsetWidth = (\<lambda>w e. if inline w e ''display'' = STxt ''none'' then Some 0 else case inline w e ''width'' of SPx r \<Rightarrow> Some (r + 8) | _ \<Rightarrow> Some 0),
     offsetHeight = (\<lambda>w e. if inline w e ''display'' = STxt ''none'' then Some 0 else case inline w e ''height'' of SPx r \<Rightarrow> Some (r + 8) | _ \<Rightarrow> Some 0),
     numText = (\<lambda>r. show_int \<lfloor>r\<rfloor>), cssFloatOk = True, opacityOk = True, marginHook = False, reliableHiddenOffsets = True\<rparr>"

definition box_world :: "unit cssw" where
  "box_world = \<lparr>inline = (\<lambda>_ n. if n = ''width'' then SPx 10 else STxt []), runtime = (\<lambda>_ _. SUndef), outside = ()\<rparr>"

lemma box_restores: "restores box_page 0"
  by (simp add: restores_def writable_def box_page_def)

lemma box_quiet: "quiet box_page 0 w"
  by (simp add: quiet_def writable_def box_page_def)

lemma box_edge:
  assumes "n \<in> {''paddingLeft'', ''paddingRight'', ''borderLeftWidth'', ''borderRightWidth''}"
  shows "edge_px box_page 0 w n = (if take 7 n = ''padding'' then 3 else 1)"
proof -
  have c: "camelCase n = n" using camelCase_edges[of "''Left''"] camelCase_edges[of "''Right''"] assms by auto
  have d: "css_dashed ''paddingLeft'' = ''padding-left''" "css_dashed ''paddingRight'' = ''padding-right''"
    "css_dashed ''borderLeftWidth'' = ''border-left-width''" "css_dashed ''borderRightWidth'' = ''border-right-width''"
    by code_simp+
  have p: "parseFloat ''3px'' = Some 3" "parseFloat ''1px'' = Some 1" by code_simp+
  have k: "cssProps box_page n = n" "cssHooks box_page n = None" "n \<noteq> ''cssFloat''"
    using assms by (auto simp: cssProps_def cssHooks_def box_page_def)
  have "css box_page 0 n NoExtra w = getComputedStyle box_page 0 n w"
    by (simp add: css_def css_with_def c k curCSS_def) (simp add: box_page_def)
  also have "\<dots> = (if take 7 (css_dashed n) = ''padding'' then STxt ''3px'' else if take 6 (css_dashed n) = ''border'' then STxt ''1px'' else inline w 0 (camelCase (css_dashed n)), w)"
    by (simp add: getComputedStyle_def box_page_def)
  also have "\<dots> = (STxt (if take 7 n = ''padding'' then ''3px'' else ''1px''), w)"
    using assms by (elim insertE emptyE) (simp_all only: d, simp_all)
  finally show ?thesis by (simp add: edge_px_def px_of_def p)
qed

lemma box_edges: "paddings box_page 0 ''width'' w = 6" "borders box_page 0 ''width'' w = 2"
  by (simp_all add: paddings_def borders_def sides_def box_edge)



lemma css_leaves_styles_witness:
  "snd (css box_page 0 ''height'' Margin box_world) = box_world \<and> offsetWidth box_page (snd (css box_page 0 ''height'' Margin box_world)) 0 = Some 18"
  using css_leaves_styles[OF box_restores box_quiet, of "''height''" Margin box_world]
  by (simp add: box_page_def box_world_def)

lemma box_sizes_nested_witness:
  "\<exists>c. css box_page 0 ''width'' NoExtra box_world = (SPx c, box_world) \<and> css box_page 0 ''width'' Border box_world = (SPx (c + 8), box_world)"
  using box_sizes_nested[OF box_restores box_quiet, of "''width''" box_world] by (auto simp: box_edges)


end
