(* ===== verification/JQ_Offset.thy ===== *)
theory JQ_Offset
  imports JQ_Css
begin

text \<open>
  Offsets and dimensions in jquery-1.6.4.js: \<open>fn.offset\<close> in both variants, \<open>jQuery.offset.bodyOffset\<close> and
  \<open>setOffset\<close>, \<open>position\<close>, \<open>offsetParent\<close>, \<open>scrollLeft\<close> and \<open>scrollTop\<close>, \<open>width\<close>, \<open>height\<close>, and the inner and outer sizes.

  There is one document in one window. Where boxes are on the screen is an argument, as a function of the
  styles (the world of \<open>JQ_Css\<close>); so are the answers of the tests of the browser's peculiarities.
\<close>

section \<open>The page\<close>

record 'q ohost =
  styles :: "'q chost"
  owned :: "nat \<Rightarrow> bool" \<comment> \<open>the node has an \<open>ownerDocument\<close>\<close>
  body :: nat
  docElem :: nat
  nodeName :: "nat \<Rightarrow> string"
  parentNode :: "nat \<Rightarrow> nat option"
  offsetParent :: "'q cssw \<Rightarrow> nat \<Rightarrow> nat option"
  rect :: "'q cssw \<Rightarrow> nat \<Rightarrow> (real \<times> real) option" \<comment> \<open>top and left of \<open>getBoundingClientRect\<close>; \<open>None\<close> when it throws\<close>
  clientPos :: "'q cssw \<Rightarrow> nat \<Rightarrow> real \<times> real" \<comment> \<open>\<open>clientTop\<close>, \<open>clientLeft\<close>\<close>
  offsetPos :: "'q cssw \<Rightarrow> nat \<Rightarrow> real \<times> real" \<comment> \<open>\<open>offsetTop\<close>, \<open>offsetLeft\<close>\<close>
  scrollPos :: "'q cssw \<Rightarrow> nat \<Rightarrow> real \<times> real" \<comment> \<open>\<open>scrollTop\<close>, \<open>scrollLeft\<close> of an element\<close>
  pageOffset :: "'q cssw \<Rightarrow> (real \<times> real) option" \<comment> \<open>\<open>pageYOffset\<close>, \<open>pageXOffset\<close> of the window\<close>
  scrollTo :: "real \<Rightarrow> real \<Rightarrow> 'q cssw \<Rightarrow> 'q cssw" \<comment> \<open>left, then top\<close>
  scrollElem :: "bool \<Rightarrow> nat \<Rightarrow> real \<Rightarrow> 'q cssw \<Rightarrow> 'q cssw" \<comment> \<open>an assignment to \<open>scrollTop\<close> (true) or \<open>scrollLeft\<close>\<close>
  lookOf :: "'q cssw \<Rightarrow> nat \<Rightarrow> string \<Rightarrow> sval" \<comment> \<open>the object of the computed or current style\<close>
  boxModel :: bool
  doesNotAddBorder :: bool
  doesAddBorderForTableAndCells :: bool
  supportsFixedPosition :: bool
  subtractsBorderForOverflowNotVisible :: bool
  doesNotIncludeMarginInBodyOffset :: bool

text \<open>\<open>a || b\<close> on numbers\<close>

definition or_num :: "real \<Rightarrow> real \<Rightarrow> real" where
  "or_num a b = (if a \<noteq> 0 then a else b)"

definition jq_contains :: "'q ohost \<Rightarrow> nat \<Rightarrow> bool" where
  "jq_contains h e = attached (styles h) e"

definition margin_px :: "'q ohost \<Rightarrow> nat \<Rightarrow> string \<Rightarrow> 'q cssw \<Rightarrow> real \<times> 'q cssw" where
  "margin_px h e n w = (let (v, w1) = css (styles h) e n NoExtra w in (px_of v, w1))"

section \<open>offset\<close>

type_synonym pos = "real \<times> real" \<comment> \<open>top and left\<close>

definition bodyOffset :: "'q ohost \<Rightarrow> nat \<Rightarrow> 'q cssw \<Rightarrow> pos \<times> 'q cssw" where
  "bodyOffset h b w =
     (let (t, l) = offsetPos h w b
      in if doesNotIncludeMarginInBodyOffset h
         then (let (mt, w1) = margin_px h b ''marginTop'' w; (ml, w2) = margin_px h b ''marginLeft'' w1
               in ((t + mt, l + ml), w2))
         else ((t, l), w))"

text \<open>How far the page is scrolled, as \<open>offset\<close> reads it.\<close>

definition scrolled :: "'q ohost \<Rightarrow> 'q cssw \<Rightarrow> pos" where
  "scrolled h w =
     (let page = (case pageOffset h w of Some p \<Rightarrow> p | None \<Rightarrow> (0, 0));
          root = (if boxModel h then scrollPos h w (docElem h) else (0, 0));
          b = scrollPos h w (body h)
      in (or_num (fst page) (or_num (fst root) (fst b)), or_num (snd page) (or_num (snd root) (snd b))))"

definition client_edge :: "'q ohost \<Rightarrow> 'q cssw \<Rightarrow> pos" where
  "client_edge h w =
     (let r = clientPos h w (docElem h); b = clientPos h w (body h)
      in (or_num (fst r) (fst b), or_num (snd r) (snd b)))"

definition on_page :: "'q ohost \<Rightarrow> 'q cssw \<Rightarrow> pos \<Rightarrow> pos" where
  "on_page h w box = (fst box + fst (scrolled h w) - fst (client_edge h w), snd box + snd (scrolled h w) - snd (client_edge h w))"

text \<open>The variant with \<open>getBoundingClientRect\<close>; \<open>None\<close> is \<open>null\<close>.\<close>

definition offset :: "'q ohost \<Rightarrow> nat \<Rightarrow> 'q cssw \<Rightarrow> pos option \<times> 'q cssw" where
  "offset h e w =
     (if \<not> owned h e then (None, w)
      else if e = body h then (let (p, w1) = bodyOffset h e w in (Some p, w1))
      else (case rect h w e of
          None \<Rightarrow> (Some (0, 0), w)
        | Some box \<Rightarrow> (Some (if jq_contains h e then on_page h w box else box), w)))"

subsection \<open>The variant that walks up\<close>

record walk =
  wtop :: real
  wleft :: real
  wparent :: "nat option" \<comment> \<open>the offset parent that is waited for\<close>
  wprev :: nat \<comment> \<open>the element whose style was computed last\<close>

definition add_pos :: "pos \<Rightarrow> walk \<Rightarrow> walk" where
  "add_pos p k = k\<lparr>wtop := wtop k + fst p, wleft := wleft k + snd p\<rparr>"

definition border_of :: "'q ohost \<Rightarrow> 'q cssw \<Rightarrow> nat \<Rightarrow> pos" where
  "border_of h w e = (px_of (lookOf h w e ''borderTopWidth''), px_of (lookOf h w e ''borderLeftWidth''))"

definition rtable :: "string \<Rightarrow> bool" where
  "rtable s \<longleftrightarrow> to_lower s \<in> {''table'', ''td'', ''th''}"

text \<open>The body of the loop for one ancestor.\<close>

definition walk_step :: "'q ohost \<Rightarrow> 'q cssw \<Rightarrow> nat \<Rightarrow> walk \<Rightarrow> walk" where
  "walk_step h w e k =
     (let k1 = add_pos (- fst (scrollPos h w e), - snd (scrollPos h w e)) k;
          k2 = (if wparent k1 = Some e then
                  (let ka = add_pos (offsetPos h w e) k1;
                       kb = (if doesNotAddBorder h \<and> \<not> (doesAddBorderForTableAndCells h \<and> rtable (nodeName h e))
                             then add_pos (border_of h w e) ka else ka)
                   in kb\<lparr>wparent := offsetParent h w e\<rparr>)
                else k1);
          k3 = (if subtractsBorderForOverflowNotVisible h \<and> lookOf h w e ''overflow'' \<noteq> STxt ''visible''
                then add_pos (border_of h w e) k2 else k2)
      in k3\<lparr>wprev := e\<rparr>)"

definition fixed_pos :: "'q ohost \<Rightarrow> 'q cssw \<Rightarrow> walk \<Rightarrow> bool" where
  "fixed_pos h w k \<longleftrightarrow> supportsFixedPosition h \<and> lookOf h w (wprev k) ''position'' = STxt ''fixed''"

partial_function (option) walk_up :: "'q ohost \<Rightarrow> 'q cssw \<Rightarrow> nat \<Rightarrow> walk \<Rightarrow> walk option" where
  "walk_up h w e k =
     (case parentNode h e of
        None \<Rightarrow> Some k
      | Some p \<Rightarrow>
          if p = body h \<or> p = docElem h \<or> fixed_pos h w k then Some k
          else walk_up h w p (walk_step h w p k))"

definition walk_end :: "'q ohost \<Rightarrow> 'q cssw \<Rightarrow> walk \<Rightarrow> pos" where
  "walk_end h w k =
     (let position = lookOf h w (wprev k) ''position'';
          k1 = (if position = STxt ''relative'' \<or> position = STxt ''static'' then add_pos (offsetPos h w (body h)) k else k);
          r = scrollPos h w (docElem h); b = scrollPos h w (body h);
          k2 = (if fixed_pos h w k then add_pos (max (fst r) (fst b), max (snd r) (snd b)) k1 else k1)
      in (wtop k2, wleft k2))"

text \<open>The outer option is \<open>None\<close> when the loop does not end.\<close>

definition offset_walk :: "'q ohost \<Rightarrow> nat \<Rightarrow> 'q cssw \<Rightarrow> (pos option \<times> 'q cssw) option" where
  "offset_walk h e w =
     (if \<not> owned h e then Some (None, w)
      else if e = body h then (let (p, w1) = bodyOffset h e w in Some (Some p, w1))
      else map_option (\<lambda>k. (Some (walk_end h w k), w))
        (walk_up h w e \<lparr>wtop = fst (offsetPos h w e), wleft = snd (offsetPos h w e), wparent = offsetParent h w e, wprev = e\<rparr>))"

section \<open>offsetParent and position\<close>

definition rroot :: "string \<Rightarrow> bool" where
  "rroot s \<longleftrightarrow> to_lower s \<in> {''body'', ''html''}"

text \<open>The loop of \<open>offsetParent\<close>: the result is the positioned element, or none; with the world after its reads.\<close>

partial_function (option) offset_loop :: "'q ohost \<Rightarrow> nat option \<Rightarrow> 'q cssw \<Rightarrow> (nat option \<times> 'q cssw) option" where
  "offset_loop h p w =
     (case p of
        None \<Rightarrow> Some (None, w)
      | Some e \<Rightarrow>
          if rroot (nodeName h e) then Some (p, w)
          else if fst (css (styles h) e ''position'' NoExtra w) = STxt ''static''
          then offset_loop h (offsetParent h (snd (css (styles h) e ''position'' NoExtra w)) e) (snd (css (styles h) e ''position'' NoExtra w))
          else Some (p, snd (css (styles h) e ''position'' NoExtra w)))"

definition first_parent :: "'q ohost \<Rightarrow> nat \<Rightarrow> 'q cssw \<Rightarrow> (nat option \<times> 'q cssw) option" where
  "first_parent h e w = offset_loop h (Some (case offsetParent h w e of Some p \<Rightarrow> p | None \<Rightarrow> body h)) w"

text \<open>\<open>fn.offsetParent\<close> over a set; elements without one are left out by \<open>map\<close>.\<close>

fun fn_offsetParent :: "'q ohost \<Rightarrow> nat list \<Rightarrow> 'q cssw \<Rightarrow> (nat list \<times> 'q cssw) option" where
  "fn_offsetParent h [] w = Some ([], w)"
| "fn_offsetParent h (e # es) w =
     (case first_parent h e w of
        None \<Rightarrow> None
      | Some (p, w1) \<Rightarrow>
          (case fn_offsetParent h es w1 of
             None \<Rightarrow> None
           | Some (ps, w2) \<Rightarrow> Some ((case p of Some q \<Rightarrow> q # ps | None \<Rightarrow> ps), w2)))"

text \<open>
  \<open>fn.position\<close> of the first element: \<open>None\<close> when it throws, for want of an offset or an offset parent, or does not end.
\<close>

definition position :: "'q ohost \<Rightarrow> nat list \<Rightarrow> 'q cssw \<Rightarrow> (pos option \<times> 'q cssw) option" where
  "position h es w =
     (case es of
        [] \<Rightarrow> Some (None, w)
      | e # _ \<Rightarrow>
          (case fn_offsetParent h es w of
             Some (p # _, w1) \<Rightarrow>
               (let (o1, w2) = offset h e w1;
                    (o2, w3) = (if rroot (nodeName h p) then (Some (0, 0), w2) else offset h p w2);
                    (mt, w4) = margin_px h e ''marginTop'' w3;
                    (ml, w5) = margin_px h e ''marginLeft'' w4;
                    (bt, w6) = margin_px h p ''borderTopWidth'' w5;
                    (bl, w7) = margin_px h p ''borderLeftWidth'' w6
                in case (o1, o2) of
                     (Some a, Some b) \<Rightarrow> Some (Some (fst a - mt - (fst b + bt), snd a - ml - (snd b + bl)), w7)
                   | _ \<Rightarrow> None)
           | _ \<Rightarrow> None))"

section \<open>setOffset\<close>

text \<open>\<open>options\<close>: the wanted top and left, where given, and the function \<open>using\<close> where there is one.\<close>

record 'q oopts =
  otop :: "real option"
  oleft :: "real option"
  ousing :: "((string \<times> real) list \<Rightarrow> 'q cssw \<Rightarrow> 'q cssw) option"

datatype 'q oarg = Opts "'q oopts" | OptsOf "nat \<Rightarrow> pos option \<Rightarrow> 'q oopts"

definition offset_props :: "'q oopts \<Rightarrow> pos \<Rightarrow> pos \<Rightarrow> (string \<times> real) list" where
  "offset_props wish curOffset cur =
     (case otop wish of Some t \<Rightarrow> [(''top'', t - fst curOffset + fst cur)] | None \<Rightarrow> []) @
     (case oleft wish of Some l \<Rightarrow> [(''left'', l - snd curOffset + snd cur)] | None \<Rightarrow> [])"

definition apply_offset :: "'q ohost \<Rightarrow> nat \<Rightarrow> 'q oopts \<Rightarrow> pos option \<Rightarrow> pos \<Rightarrow> 'q cssw \<Rightarrow> 'q cssw option" where
  "apply_offset h e wish curOffset cur w =
     (if curOffset = None \<and> (otop wish \<noteq> None \<or> oleft wish \<noteq> None) then None
      else let props = offset_props wish (case curOffset of Some p \<Rightarrow> p | None \<Rightarrow> (0, 0)) cur
           in Some (case ousing wish of
               Some f \<Rightarrow> f props w
             | None \<Rightarrow> fn_css_map (styles h) [e] (map (\<lambda>(n, r). (n, CVal (SNum r))) props) w))"

text \<open>\<open>None\<close> when the call throws, or does not end in \<open>position\<close>.\<close>

definition setOffset :: "'q ohost \<Rightarrow> nat \<Rightarrow> 'q oarg \<Rightarrow> nat \<Rightarrow> 'q cssw \<Rightarrow> 'q cssw option" where
  "setOffset h e options i w =
     (let (pos, w1) = css (styles h) e ''position'' NoExtra w;
          w2 = (if pos = STxt ''static'' then set_style (styles h) e ''position'' (STxt ''relative'') w1 else w1);
          (curOffset, w3) = offset h e w2;
          (curTop, w4) = css (styles h) e ''top'' NoExtra w3;
          (curLeft, w5) = css (styles h) e ''left'' NoExtra w4;
          calculate = (pos \<in> {STxt ''absolute'', STxt ''fixed''} \<and> (curTop = STxt ''auto'' \<or> curLeft = STxt ''auto''));
          cur = (if calculate
                 then (case position h [e] w5 of Some (Some p, w6) \<Rightarrow> Some (p, w6) | _ \<Rightarrow> None)
                 else Some ((px_of curTop, px_of curLeft), w5))
      in case cur of
          None \<Rightarrow> None
        | Some (p, w6) \<Rightarrow>
            apply_offset h e (case options of Opts wish \<Rightarrow> wish | OptsOf f \<Rightarrow> f i curOffset) curOffset p w6)"

fun fn_offset_set :: "'q ohost \<Rightarrow> 'q oarg \<Rightarrow> nat \<Rightarrow> nat list \<Rightarrow> 'q cssw \<Rightarrow> 'q cssw option" where
  "fn_offset_set h options i [] w = Some w"
| "fn_offset_set h options i (e # es) w =
     (case setOffset h e options i w of
        None \<Rightarrow> None
      | Some w1 \<Rightarrow> fn_offset_set h options (Suc i) es w1)"

section \<open>Scrolling\<close>

datatype target = TWindow | TDocument | TElement nat

fun getWindow :: "target \<Rightarrow> bool" where
  "getWindow TWindow = True"
| "getWindow TDocument = True"
| "getWindow (TElement e) = False"

definition pick :: "bool \<Rightarrow> pos \<Rightarrow> real" where
  "pick vert p = (if vert then fst p else snd p)"

definition scroll_of :: "'q ohost \<Rightarrow> bool \<Rightarrow> target \<Rightarrow> 'q cssw \<Rightarrow> real" where
  "scroll_of h vert t w =
     (case t of
        TElement e \<Rightarrow> pick vert (scrollPos h w e)
      | _ \<Rightarrow> (case pageOffset h w of
            Some p \<Rightarrow> pick vert p
          | None \<Rightarrow> or_num (if boxModel h then pick vert (scrollPos h w (docElem h)) else 0) (pick vert (scrollPos h w (body h)))))"

text \<open>\<open>scrollTop\<close> (true) and \<open>scrollLeft\<close> without a value; \<open>None\<close> is \<open>null\<close>.\<close>

definition scroll_get :: "'q ohost \<Rightarrow> bool \<Rightarrow> target list \<Rightarrow> 'q cssw \<Rightarrow> real option" where
  "scroll_get h vert ts w = (case ts of [] \<Rightarrow> None | t # _ \<Rightarrow> Some (scroll_of h vert t w))"

definition scroll_one :: "'q ohost \<Rightarrow> bool \<Rightarrow> real \<Rightarrow> target \<Rightarrow> 'q cssw \<Rightarrow> 'q cssw" where
  "scroll_one h vert v t w =
     (if getWindow t
      then scrollTo h (if vert then scroll_of h False TWindow w else v) (if vert then v else scroll_of h True TWindow w) w
      else case t of TElement e \<Rightarrow> scrollElem h vert e v w | _ \<Rightarrow> w)"

definition scroll_set :: "'q ohost \<Rightarrow> bool \<Rightarrow> real \<Rightarrow> target list \<Rightarrow> 'q cssw \<Rightarrow> 'q cssw" where
  "scroll_set h vert v ts w = fold (scroll_one h vert v) ts w"

section \<open>Dimensions\<close>

text \<open>The sizes of nodes that \<open>width\<close> (true) and \<open>height\<close> look at for a window or document.\<close>

record 'q sizes =
  clientSize :: "bool \<Rightarrow> 'q cssw \<Rightarrow> nat \<Rightarrow> real"
  scrollSize :: "bool \<Rightarrow> 'q cssw \<Rightarrow> nat \<Rightarrow> real"
  boxSize :: "bool \<Rightarrow> 'q cssw \<Rightarrow> nat \<Rightarrow> real" \<comment> \<open>\<open>offsetWidth\<close>, \<open>offsetHeight\<close>\<close>
  standards :: bool \<comment> \<open>\<open>compatMode\<close> is \<open>CSS1Compat\<close>\<close>

definition size_of_type :: "bool \<Rightarrow> string" where
  "size_of_type wide = (if wide then ''width'' else ''height'')"

definition window_size :: "'q ohost \<Rightarrow> 'q sizes \<Rightarrow> bool \<Rightarrow> 'q cssw \<Rightarrow> real" where
  "window_size h z wide w =
     (let d = clientSize z wide w (docElem h)
      in or_num (if standards z then d else 0) (or_num (clientSize z wide w (body h)) d))"

definition document_size :: "'q ohost \<Rightarrow> 'q sizes \<Rightarrow> bool \<Rightarrow> 'q cssw \<Rightarrow> real" where
  "document_size h z wide w =
     max (clientSize z wide w (docElem h))
       (max (max (scrollSize z wide w (body h)) (scrollSize z wide w (docElem h)))
         (max (boxSize z wide w (body h)) (boxSize z wide w (docElem h))))"

definition dim_get :: "'q ohost \<Rightarrow> 'q sizes \<Rightarrow> bool \<Rightarrow> target list \<Rightarrow> 'q cssw \<Rightarrow> sval \<times> 'q cssw" where
  "dim_get h z wide ts w =
     (case ts of
        [] \<Rightarrow> (SNull, w)
      | TWindow # _ \<Rightarrow> (SNum (window_size h z wide w), w)
      | TDocument # _ \<Rightarrow> (SNum (document_size h z wide w), w)
      | TElement e # _ \<Rightarrow>
          (let (orig, w1) = css (styles h) e (size_of_type wide) NoExtra w
           in (case parse orig of Some r \<Rightarrow> SNum r | None \<Rightarrow> orig, w1)))"

text \<open>\<open>size + "px"\<close> unless \<open>size\<close> is a text\<close>

fun with_px :: "sval \<Rightarrow> sval" where
  "with_px (SNum r) = SPx r"
| "with_px SNaN = STxt ''NaNpx''"
| "with_px SNull = STxt ''nullpx''"
| "with_px v = v"

text \<open>A call with a size on a set whose first element is a node; an undefined size reads.\<close>

definition dim_set :: "'q ohost \<Rightarrow> bool \<Rightarrow> nat list \<Rightarrow> sval \<Rightarrow> 'q cssw \<Rightarrow> 'q cssw" where
  "dim_set h wide es v w =
     (if v = SUndef then snd (fn_css_get (styles h) es (size_of_type wide) w)
      else fn_css_set (styles h) es (size_of_type wide) (CVal (with_px v)) w)"

fun dim_each :: "'q ohost \<Rightarrow> 'q sizes \<Rightarrow> bool \<Rightarrow> (nat \<Rightarrow> sval \<Rightarrow> sval) \<Rightarrow> nat \<Rightarrow> nat list \<Rightarrow> 'q cssw \<Rightarrow> 'q cssw" where
  "dim_each h z wide f i [] w = w"
| "dim_each h z wide f i (e # es) w =
     (let (old, w1) = dim_get h z wide [TElement e] w
      in dim_each h z wide f (Suc i) es (dim_set h wide [e] (f i old) w1))"

definition parsed :: "sval \<Rightarrow> sval" where
  "parsed v = (case parse v of Some r \<Rightarrow> SNum r | None \<Rightarrow> SNaN)"

definition innerSize :: "'q ohost \<Rightarrow> bool \<Rightarrow> nat list \<Rightarrow> 'q cssw \<Rightarrow> sval \<times> 'q cssw" where
  "innerSize h wide es w =
     (case es of
        [] \<Rightarrow> (SNull, w)
      | e # _ \<Rightarrow> if hasStyle (styles h) e
          then (let (v, w1) = css (styles h) e (size_of_type wide) Padding w in (parsed v, w1)) else (SNull, w))"

definition outerSize :: "'q ohost \<Rightarrow> bool \<Rightarrow> bool \<Rightarrow> nat list \<Rightarrow> 'q cssw \<Rightarrow> sval \<times> 'q cssw" where
  "outerSize h wide margin es w =
     (case es of
        [] \<Rightarrow> (SNull, w)
      | e # _ \<Rightarrow> if hasStyle (styles h) e
          then (let (v, w1) = css (styles h) e (size_of_type wide) (if margin then Margin else Border) w in (parsed v, w1))
          else (SNull, w))"

section \<open>Default displays\<close>

text \<open>
  \<open>defaultDisplay\<close>: the cache \<open>elemdisplay\<close>, the frame with its document, and the children of the body. What a fresh element shows
  as in the page and in an empty frame are arguments.
\<close>

record displays =
  elemdisplay :: "(string \<times> string) list"
  iframe :: bool \<comment> \<open>the frame has been made\<close>
  iframeDoc :: bool \<comment> \<open>its document has been written\<close>
  bodyChildren :: "nat list"
  nextNode :: nat
  iframeNode :: nat
  frameWrites :: nat \<comment> \<open>how often the document of the frame was written\<close>

record dhost =
  inPage :: "string \<Rightarrow> string" \<comment> \<open>the computed display of a fresh element at the end of the body\<close>
  inFrame :: "string \<Rightarrow> string"
  reusesFrame :: bool \<comment> \<open>\<open>iframe.createElement\<close> is there\<close>

definition frame_display :: "dhost \<Rightarrow> string \<Rightarrow> displays \<Rightarrow> string \<times> displays" where
  "frame_display h name d =
     (let d1 = (if iframe d then d else d\<lparr>iframe := True, iframeNode := nextNode d, nextNode := Suc (nextNode d)\<rparr>);
          d2 = d1\<lparr>bodyChildren := bodyChildren d1 @ [iframeNode d1]\<rparr>;
          d3 = (if \<not> iframeDoc d2 \<or> \<not> reusesFrame h then d2\<lparr>iframeDoc := True, frameWrites := Suc (frameWrites d2)\<rparr> else d2)
      in (inFrame h name, d3\<lparr>bodyChildren := remove1 (iframeNode d3) (bodyChildren d3)\<rparr>))"

definition defaultDisplay :: "dhost \<Rightarrow> string \<Rightarrow> displays \<Rightarrow> string \<times> displays" where
  "defaultDisplay h name d =
     (if get_or [] (elemdisplay d) name \<noteq> [] then (get_or [] (elemdisplay d) name, d)
      else let e = nextNode d;
               d1 = d\<lparr>bodyChildren := bodyChildren d @ [e], nextNode := Suc e\<rparr>;
               d2 = d1\<lparr>bodyChildren := remove1 e (bodyChildren d1)\<rparr>;
               (display, d3) = (if inPage h name = ''none'' \<or> inPage h name = [] then frame_display h name d2 else (inPage h name, d2));
               d4 = d3\<lparr>elemdisplay := AList.update name display (elemdisplay d3)\<rparr>
           in (display, d4))"

section \<open>What offset gives back after it was set\<close>

text \<open>
  \<open>placed\<close>: the element has a position other than static, and no automatic place that has to be calculated.
  \<open>displaces\<close> is what browsers do with the box of a placed element that is rendered, when only its own \<open>top\<close> and \<open>left\<close> are given:
  in pixels they move the box by their change, each for itself, and the page does not scroll.
\<close>

definition placed :: "'q ohost \<Rightarrow> nat \<Rightarrow> 'q cssw \<Rightarrow> bool" where
  "placed h e w \<longleftrightarrow> quiet (styles h) e w \<and> rect h w e \<noteq> None \<and>
     fst (css (styles h) e ''position'' NoExtra w) \<noteq> STxt ''static'' \<and>
     (fst (css (styles h) e ''position'' NoExtra w) \<in> {STxt ''absolute'', STxt ''fixed''} \<longrightarrow>
        fst (css (styles h) e ''top'' NoExtra w) \<noteq> STxt ''auto'' \<and> fst (css (styles h) e ''left'' NoExtra w) \<noteq> STxt ''auto'')"

definition place_px :: "'q ohost \<Rightarrow> nat \<Rightarrow> string \<Rightarrow> 'q cssw \<Rightarrow> real" where
  "place_px h e n w = px_of (fst (css (styles h) e n NoExtra w))"

definition same_page :: "'q ohost \<Rightarrow> 'q cssw \<Rightarrow> 'q cssw \<Rightarrow> bool" where
  "same_page h w w' \<longleftrightarrow> scrolled h w' = scrolled h w \<and> client_edge h w' = client_edge h w"

definition given :: "'q ohost \<Rightarrow> nat \<Rightarrow> string \<Rightarrow> real option \<Rightarrow> 'q cssw \<Rightarrow> 'q cssw" where
  "given h e n v w = (case v of None \<Rightarrow> w | Some r \<Rightarrow> set_style (styles h) e n (SPx r) w)"

definition displaces :: "'q ohost \<Rightarrow> nat \<Rightarrow> 'q cssw \<Rightarrow> bool" where
  "displaces h e w \<longleftrightarrow> (\<forall>t l a b. rect h w e = Some (t, l) \<longrightarrow>
     (let w2 = given h e ''left'' b (given h e ''top'' a w)
      in same_page h w w2 \<and>
         rect h w2 e = Some (t + (case a of None \<Rightarrow> 0 | Some r \<Rightarrow> r - place_px h e ''top'' w),
                             l + (case b of None \<Rightarrow> 0 | Some r \<Rightarrow> r - place_px h e ''left'' w))))"

text \<open>The world after \<open>setOffset\<close> has seen to the position.\<close>

definition positioned :: "'q ohost \<Rightarrow> nat \<Rightarrow> 'q cssw \<Rightarrow> 'q cssw" where
  "positioned h e w =
     (if fst (css (styles h) e ''position'' NoExtra w) = STxt ''static''
      then set_style (styles h) e ''position'' (STxt ''relative'') w else w)"

lemma place_names: "n \<in> {''top'', ''left''} \<Longrightarrow> camelCase n = n \<and> cssProps h n = n \<and> cssHooks h n = None \<and> \<not> cssNumber n"
proof -
  have "camelCase ''top'' = ''top''" "camelCase ''left'' = ''left''" by code_simp+
  then show "n \<in> {''top'', ''left''} \<Longrightarrow> camelCase n = n \<and> cssProps h n = n \<and> cssHooks h n = None \<and> \<not> cssNumber n"
    by (elim insertE) (simp_all add: cssProps_def cssHooks_def cssNumber_def)
qed

lemma set_place:
  assumes "n \<in> {''top'', ''left''}" "\<not> unstyled (styles h) e"
  shows "css_each (styles h) n (CVal (SNum r)) 0 [e] w = set_style (styles h) e n (SPx r) w"
  using assms(2) place_names[OF assms(1), of "styles h"]
  by (simp add: css_or_style_def style_set_def relative_value_def hook_set_def Let_def)

lemma offset_is:
  assumes "owned h e" "e \<noteq> body h" "jq_contains h e" "rect h w e = Some p"
  shows "offset h e w = (Some (on_page h w p), w)"
  using assms by (simp add: offset_def)

lemma on_page_moved:
  assumes "same_page h w w'"
  shows "on_page h w' (t + dt, l + dl) = (fst (on_page h w (t, l)) + dt, snd (on_page h w (t, l)) + dl)"
  using assms by (simp add: on_page_def same_page_def)

lemma setOffset_placed:
  assumes "restores (styles h) e" "quiet (styles h) e w" "owned h e" "e \<noteq> body h" "jq_contains h e"
    and p: "placed h e (positioned h e w)" and r: "rect h (positioned h e w) e = Some (t, l)"
  shows "setOffset h e (Opts wish) i w =
    apply_offset h e wish (Some (on_page h (positioned h e w) (t, l)))
      (place_px h e ''top'' (positioned h e w), place_px h e ''left'' (positioned h e w)) (positioned h e w)"
proof -
  let ?w = "positioned h e w"
  have reads: "snd (css (styles h) e n NoExtra v) = v" if "quiet (styles h) e v" for n v
    by (rule reads_onlyD[OF css_reads[OF assms(1)] that])
  have pos: "css (styles h) e ''position'' NoExtra w = (fst (css (styles h) e ''position'' NoExtra w), w)"
    using reads[OF assms(2)] by (metis prod.collapse)
  have q: "quiet (styles h) e ?w" using p by (simp add: placed_def)
  have tl: "css (styles h) e n NoExtra ?w = (fst (css (styles h) e n NoExtra ?w), ?w)" for n
    using reads[OF q] by (metis prod.collapse)
  have o: "offset h e ?w = (Some (on_page h ?w (t, l)), ?w)" by (rule offset_is[OF assms(3-5) r])
  have nc: "\<not> (fst (css (styles h) e ''position'' NoExtra w) \<in> {STxt ''absolute'', STxt ''fixed''} \<and>
      (fst (css (styles h) e ''top'' NoExtra ?w) = STxt ''auto'' \<or> fst (css (styles h) e ''left'' NoExtra ?w) = STxt ''auto''))"
    using p by (auto simp: placed_def positioned_def split: if_splits)
  have w2: "(if fst (css (styles h) e ''position'' NoExtra w) = STxt ''static''
      then set_style (styles h) e ''position'' (STxt ''relative'') w else w) = ?w" by (simp add: positioned_def)
  show ?thesis
    unfolding setOffset_def
    by (subst pos, simp only: Let_def prod.case w2 o, subst tl[of "''top''"], simp only: prod.case, subst tl[of "''left''"])
      (simp only: prod.case nc if_False option.case oarg.case place_px_def)
qed

text \<open>
  C29: For an element in the document that is not its body, that is rendered and positioned (made relative when it was static) with a
  place that is not automatic, and whose box browsers move by the changes of its \<open>top\<close> and \<open>left\<close>: what \<open>offset\<close> is asked to be it is
  afterwards, for top and left each. A coordinate that was given is read back, and one that was not given is the one the positioned
  element had, which is the one before the call when the element was not static.
\<close>

theorem set_offset_roundtrip:
  assumes "restores (styles h) e" "quiet (styles h) e w" "owned h e" "e \<noteq> body h" "jq_contains h e" "\<not> unstyled (styles h) e"
    and "placed h e (positioned h e w)" "displaces h e (positioned h e w)"
  shows "\<exists>w' t l. setOffset h e (Opts \<lparr>otop = top', oleft = left', ousing = None\<rparr>) i w = Some w' \<and>
    fst (offset h e (positioned h e w)) = Some (t, l) \<and>
    (fst (css (styles h) e ''position'' NoExtra w) \<noteq> STxt ''static'' \<longrightarrow> fst (offset h e w) = Some (t, l)) \<and>
    fst (offset h e w') = Some ((case top' of Some a \<Rightarrow> a | None \<Rightarrow> t), (case left' of Some a \<Rightarrow> a | None \<Rightarrow> l))"
proof -
  let ?w = "positioned h e w" and ?s = "styles h"
  obtain t l where r: "rect h ?w e = Some (t, l)" using assms(7) by (auto simp: placed_def)
  let ?cur = "on_page h ?w (t, l)"
  have o: "offset h e ?w = (Some ?cur, ?w)" by (rule offset_is[OF assms(3-5) r])
  let ?a = "map_option (\<lambda>a. a - fst ?cur + place_px h e ''top'' ?w) top'"
  let ?b = "map_option (\<lambda>a. a - snd ?cur + place_px h e ''left'' ?w) left'"
  define w2 where "w2 = given h e ''left'' ?b (given h e ''top'' ?a ?w)"
  have "setOffset h e (Opts \<lparr>otop = top', oleft = left', ousing = None\<rparr>) i w = Some w2"
    unfolding setOffset_placed[OF assms(1-5,7) r] w2_def
    by (cases top'; cases left')
      (simp_all add: apply_offset_def offset_props_def fn_css_map_def set_place[OF _ assms(6)] given_def del: css_each.simps)
  moreover have w2: "same_page h ?w w2"
      "rect h w2 e = Some (t + (case top' of Some a \<Rightarrow> a - fst ?cur | None \<Rightarrow> 0), l + (case left' of Some a \<Rightarrow> a - snd ?cur | None \<Rightarrow> 0))"
    using assms(8) r unfolding displaces_def w2_def Let_def by (cases top'; cases left'; simp)+
  have "fst (offset h e w2) = Some ((case top' of Some a \<Rightarrow> a | None \<Rightarrow> fst ?cur), (case left' of Some a \<Rightarrow> a | None \<Rightarrow> snd ?cur))"
    unfolding offset_is[OF assms(3-5) w2(2)] on_page_moved[OF w2(1)]
    by (cases top'; cases left') simp_all
  moreover have "fst (css ?s e ''position'' NoExtra w) \<noteq> STxt ''static'' \<longrightarrow> fst (offset h e w) = Some ?cur"
  proof
    assume "fst (css ?s e ''position'' NoExtra w) \<noteq> STxt ''static''"
    then have "?w = w" by (simp add: positioned_def)
    with o show "fst (offset h e w) = Some ?cur" by simp
  qed
  ultimately show ?thesis using o by (intro exI[of _ w2] exI[of _ "fst ?cur"] exI[of _ "snd ?cur"]) simp
qed

section \<open>The loops end\<close>

declare offset_loop.simps [simp del]
declare walk_up.simps [simp del]

text \<open>An element that the loop of \<open>offsetParent\<close> goes past.\<close>

definition passed :: "'q ohost \<Rightarrow> 'q cssw \<Rightarrow> nat \<Rightarrow> bool" where
  "passed h w e \<longleftrightarrow> \<not> rroot (nodeName h e) \<and> fst (css (styles h) e ''position'' NoExtra w) = STxt ''static''"

definition readable :: "'q ohost \<Rightarrow> 'q cssw \<Rightarrow> bool" where
  "readable h w \<longleftrightarrow> (\<forall>e. restores (styles h) e \<and> quiet (styles h) e w)"

lemma offset_loop_step:
  assumes "readable h w"
  shows "offset_loop h (Some e) w = (if passed h w e then offset_loop h (offsetParent h w e) w else Some (Some e, w))"
proof -
  have "snd (css (styles h) e ''position'' NoExtra w) = w"
    by (rule reads_onlyD[OF css_reads]) (use assms in \<open>simp_all add: readable_def\<close>)
  then show ?thesis by (subst offset_loop.simps) (simp add: passed_def)
qed

lemma offset_loop_None: "offset_loop h None w = Some (None, w)"
  by (subst offset_loop.simps) simp

text \<open>
  C30: On a page whose offset parents lead to an end, the loop of \<open>offsetParent\<close> ends and leaves the styles
  as they were; it gives the first element on the way up that is positioned or a root, and everything before it is static.
\<close>

theorem offsetParent_is_first_positioned:
  assumes "readable h w" and up: "\<And>a b. offsetParent h w a = Some b \<Longrightarrow> depth b < (depth a :: nat)"
  shows "\<exists>es p. offset_loop h (Some e) w = Some (p, w) \<and> es \<noteq> [] \<and> hd es = e \<and>
    successively (\<lambda>a b. offsetParent h w a = Some b) es \<and> (\<forall>a\<in>set (butlast es). passed h w a) \<and>
    p = (if passed h w (last es) then None else Some (last es)) \<and> (passed h w (last es) \<longrightarrow> offsetParent h w (last es) = None)"
proof (induction "depth e" arbitrary: e rule: less_induct)
  case less
  show ?case
  proof (cases "passed h w e")
    case False
    then show ?thesis by (intro exI[of _ "[e]"] exI[of _ "Some e"]) (simp add: offset_loop_step[OF assms(1)])
  next
    case True
    show ?thesis
    proof (cases "offsetParent h w e")
      case None
      then show ?thesis using True
        by (intro exI[of _ "[e]"] exI[of _ None]) (simp add: offset_loop_step[OF assms(1)] offset_loop_None)
    next
      case (Some b)
      obtain es p where es: "offset_loop h (Some b) w = Some (p, w)" "es \<noteq> []" "hd es = b"
          "successively (\<lambda>a b. offsetParent h w a = Some b) es" "\<forall>a\<in>set (butlast es). passed h w a"
          "p = (if passed h w (last es) then None else Some (last es))" "passed h w (last es) \<longrightarrow> offsetParent h w (last es) = None"
        using less[OF up[OF Some]] by blast
      have "successively (\<lambda>a b. offsetParent h w a = Some b) (e # es)" using es(2-4) Some by (cases es) simp_all
      then show ?thesis
        using es True Some by (intro exI[of _ "e # es"] exI[of _ p]) (simp add: offset_loop_step[OF assms(1), of e])
    qed
  qed
qed

text \<open>The walking variant of \<open>offset\<close> is a fold over the ancestors below the body, up to a fixed one.\<close>

fun walk_over :: "'q ohost \<Rightarrow> 'q cssw \<Rightarrow> nat list \<Rightarrow> walk \<Rightarrow> walk" where
  "walk_over h w [] k = k"
| "walk_over h w (p # ps) k =
     (if p = body h \<or> p = docElem h \<or> fixed_pos h w k then k else walk_over h w ps (walk_step h w p k))"

fun ancestors_of :: "'q ohost \<Rightarrow> nat \<Rightarrow> nat list \<Rightarrow> bool" where
  "ancestors_of h e [] \<longleftrightarrow> parentNode h e = None"
| "ancestors_of h e (p # ps) \<longleftrightarrow> parentNode h e = Some p \<and> ancestors_of h p ps"

theorem walk_up_is_fold: "ancestors_of h e ps \<Longrightarrow> walk_up h w e k = Some (walk_over h w ps k)"
  by (induction ps arbitrary: e k) (subst walk_up.simps; simp)+

lemma ancestors_exist:
  assumes up: "\<And>a b. parentNode h a = Some b \<Longrightarrow> depth b < (depth a :: nat)"
  shows "\<exists>ps. ancestors_of h e ps"
proof (induction "depth e" arbitrary: e rule: less_induct)
  case less
  show ?case
  proof (cases "parentNode h e")
    case None
    then show ?thesis by (intro exI[of _ "[]"]) simp
  next
    case (Some p)
    obtain ps where "ancestors_of h p ps" using less[OF up[OF Some]] by blast
    then show ?thesis using Some by (intro exI[of _ "p # ps"]) simp
  qed
qed

theorem offset_walk_ends:
  assumes "\<And>a b. parentNode h a = Some b \<Longrightarrow> depth b < (depth a :: nat)"
  shows "\<exists>r. offset_walk h e w = Some r"
proof -
  obtain ps where "ancestors_of h e ps" using ancestors_exist[of h depth e] assms by blast
  then show ?thesis by (simp add: offset_walk_def walk_up_is_fold split: prod.split)
qed

section \<open>Scrolling\<close>

text \<open>What one of \<open>scrollTop\<close> and \<open>scrollLeft\<close> sets on a window is read back, and the other one keeps its value.\<close>

theorem scroll_roundtrip:
  assumes "\<And>x y w. pageOffset h (scrollTo h x y w) = Some (y, x)" "pageOffset h w \<noteq> None" "getWindow t"
  shows "scroll_get h vert [t] (scroll_set h vert v [t] w) = Some v"
    "scroll_get h (\<not> vert) [t] (scroll_set h vert v [t] w) = scroll_get h (\<not> vert) [t] w"
  using assms by (cases t; auto simp: scroll_get_def scroll_set_def scroll_one_def scroll_of_def pick_def)+

section \<open>Default displays\<close>

text \<open>The nodes of the page are older than the next one, and the frame is not among the children of the body.\<close>

definition displays_ok :: "displays \<Rightarrow> bool" where
  "displays_ok d \<longleftrightarrow> (\<forall>e\<in>set (bodyChildren d). e < nextNode d) \<and>
     (iframe d \<longrightarrow> iframeNode d < nextNode d \<and> iframeNode d \<notin> set (bodyChildren d))"

lemma remove1_last: "x \<notin> set xs \<Longrightarrow> remove1 x (xs @ [x]) = xs"
  by (simp add: remove1_append)

lemma frame_display_children:
  assumes "displays_ok d"
  shows "bodyChildren (snd (frame_display h name d)) = bodyChildren d" "displays_ok (snd (frame_display h name d))"
proof -
  have n: "nextNode d \<notin> set (bodyChildren d)" using assms by (auto simp: displays_ok_def)
  show c: "bodyChildren (snd (frame_display h name d)) = bodyChildren d"
    using assms n by (cases "iframe d") (simp_all add: frame_display_def Let_def displays_ok_def remove1_last)
  have "nextNode d \<le> nextNode (snd (frame_display h name d)) \<and>
      iframeNode (snd (frame_display h name d)) \<notin> set (bodyChildren d) \<and>
      iframeNode (snd (frame_display h name d)) < nextNode (snd (frame_display h name d))"
    using assms n by (cases "iframe d") (simp_all add: frame_display_def Let_def displays_ok_def)
  moreover have "\<forall>e\<in>set (bodyChildren d). e < nextNode d" using assms by (simp add: displays_ok_def)
  ultimately show "displays_ok (snd (frame_display h name d))"
    by (auto simp: displays_ok_def c)
qed

text \<open>
  The cache is filled by the first call and answers the next ones; the children of the body are what they were, so the
  invariant holds before every call.
\<close>

theorem default_display_cached:
  assumes "displays_ok d" "defaultDisplay h name d = (r, d')"
  shows "bodyChildren d' = bodyChildren d" "displays_ok d'" "r \<noteq> [] \<Longrightarrow> defaultDisplay h name d' = (r, d')"
proof -
  have n: "nextNode d \<notin> set (bodyChildren d)" using assms(1) by (auto simp: displays_ok_def)
  define d2 where "d2 = d\<lparr>bodyChildren := remove1 (nextNode d) (bodyChildren d @ [nextNode d]), nextNode := Suc (nextNode d)\<rparr>"
  have d2: "bodyChildren d2 = bodyChildren d" "displays_ok d2"
    using assms(1) by (auto simp: d2_def remove1_last[OF n] displays_ok_def)
  define x where "x = (if inPage h name = ''none'' \<or> inPage h name = [] then frame_display h name d2 else (inPage h name, d2))"
  have x: "bodyChildren (snd x) = bodyChildren d" "displays_ok (snd x)"
    using frame_display_children[OF d2(2)] d2 by (simp_all add: x_def)
  define y where "y = (snd x)\<lparr>elemdisplay := AList.update name (fst x) (elemdisplay (snd x))\<rparr>"
  have y: "bodyChildren y = bodyChildren d" "displays_ok y" using x by (simp_all add: y_def displays_ok_def)
  have e: "(r, d') = (if get_or [] (elemdisplay d) name \<noteq> [] then (get_or [] (elemdisplay d) name, d) else (fst x, y))"
  proof -
    have "d\<lparr>bodyChildren := bodyChildren d @ [nextNode d], nextNode := Suc (nextNode d)\<rparr>
        \<lparr>bodyChildren := remove1 (nextNode d) (bodyChildren (d\<lparr>bodyChildren := bodyChildren d @ [nextNode d], nextNode := Suc (nextNode d)\<rparr>))\<rparr> = d2"
      by (simp add: d2_def)
    then show ?thesis
      unfolding assms(2)[symmetric] by (simp only: defaultDisplay_def Let_def case_prod_beta x_def[symmetric] y_def[symmetric])
  qed
  show "bodyChildren d' = bodyChildren d" "displays_ok d'"
    using e assms(1) y by (simp_all split: if_splits)
  have "get_or [] (elemdisplay y) name = fst x" by (simp add: y_def)
  then show "r \<noteq> [] \<Longrightarrow> defaultDisplay h name d' = (r, d')"
    using e by (simp add: defaultDisplay_def split: if_splits)
qed

section \<open>Examples\<close>

text \<open>The page of one box again, a child (0) of the body (1): where it is on the screen follows from its inline place.\<close>

definition box_host :: "unit ohost" where
  "box_host =
    \<lparr>styles = box_page, owned = (\<lambda>_. True), body = 1, docElem = 2, nodeName = (\<lambda>n. if n = 1 then ''BODY'' else if n = 2 then ''HTML'' else ''DIV''),
     parentNode = (\<lambda>n. if n = 0 then Some 1 else if n = 1 then Some 2 else None),
     offsetParent = (\<lambda>w n. if n = 0 then Some 1 else None),
     rect = (\<lambda>w n. if n = 0 then Some (100 + px_of (inline w 0 ''top''), 20 + px_of (inline w 0 ''left'')) else Some (0, 0)),
     clientPos = (\<lambda>w n. (2, 2)), offsetPos = (\<lambda>w n. (0, 0)), scrollPos = (\<lambda>w n. (0, 0)), pageOffset = (\<lambda>w. Some (50, 0)),
     scrollTo = (\<lambda>x y w. w), scrollElem = (\<lambda>v n x w. w), lookOf = (\<lambda>w n s. inline w n s), boxModel = True,
     doesNotAddBorder = False, doesAddBorderForTableAndCells = False, supportsFixedPosition = True,
     subtractsBorderForOverflowNotVisible = False, doesNotIncludeMarginInBodyOffset = False\<rparr>"

definition static_world :: "unit cssw" where
  "static_world = \<lparr>inline = (\<lambda>_ n. if n = ''position'' then STxt ''static'' else STxt []), runtime = (\<lambda>_ _. SUndef), outside = ()\<rparr>"

lemma box_css:
  assumes "n \<in> {''position'', ''top'', ''left''}"
  shows "css box_page e n x w = (inline w e n, w)"
proof -
  have c: "camelCase ''position'' = ''position''" "camelCase ''top'' = ''top''" "camelCase ''left'' = ''left''" by code_simp+
  have d: "css_dashed ''position'' = ''position''" "css_dashed ''top'' = ''top''" "css_dashed ''left'' = ''left''" by code_simp+
  have k: "camelCase n = n" "css_dashed n = n" "cssProps box_page n = n" "cssHooks box_page n = None" "n \<noteq> ''cssFloat''"
      "take 7 n \<noteq> ''padding''" "take 6 n \<noteq> ''border''"
    using assms c d by (auto simp: cssProps_def cssHooks_def)
  show ?thesis
    by (simp add: css_def css_with_def k curCSS_def getComputedStyle_def) (simp add: box_page_def k)
qed

lemma box_any: "restores box_page e" "quiet box_page e w"
  by (simp_all add: restores_def quiet_def writable_def box_page_def)

lemma box_displaces: "displaces box_host 0 w"
proof -
  have h: "styles box_host = box_page" "rect box_host w 0 = Some (100 + px_of (inline w 0 ''top''), 20 + px_of (inline w 0 ''left''))" for w
    by (simp_all add: box_host_def)
  have s: "same_page box_host w w'" for w w' by (simp add: same_page_def scrolled_def client_edge_def box_host_def)
  have i: "inline (set_style box_page 0 n v w) 0 m = (if m = n then v else inline w 0 m)" for n v w m
    by (simp add: set_style_def box_page_def)
  have x: "px_of (SPx r) = r" for r by (simp add: px_of_def)
  show ?thesis by (auto simp: displaces_def Let_def s place_px_def h box_css i x given_def split: option.split)
qed

lemma box_positioned: "placed box_host 0 (positioned box_host 0 static_world)"
proof -
  have h: "styles box_host = box_page" "rect box_host w 0 \<noteq> None" for w by (simp_all add: box_host_def)
  have i: "inline (set_style box_page 0 n v w) 0 m = (if m = n then v else inline w 0 m)" for n v w m
    by (simp add: set_style_def box_page_def)
  show ?thesis by (simp add: placed_def positioned_def h box_css box_any i) (simp add: static_world_def)
qed

lemma set_offset_roundtrip_witness:
  "\<exists>w'. setOffset box_host 0 (Opts \<lparr>otop = Some 7, oleft = None, ousing = None\<rparr>) 0 static_world = Some w' \<and>
    fst (offset box_host 0 w') = Some (7, 18)"
proof -
  have b: "restores (styles box_host) 0" "quiet (styles box_host) 0 static_world" "owned box_host 0" "0 \<noteq> body box_host"
      "jq_contains box_host 0" "\<not> unstyled (styles box_host) 0"
    using box_any by (simp_all add: box_host_def jq_contains_def unstyled_def) (simp_all add: box_page_def)
  obtain w' t l where w: "setOffset box_host 0 (Opts \<lparr>otop = Some 7, oleft = None, ousing = None\<rparr>) 0 static_world = Some w'"
      "fst (offset box_host 0 (positioned box_host 0 static_world)) = Some (t, l)" "fst (offset box_host 0 w') = Some (7, l)"
    using set_offset_roundtrip[OF b box_positioned box_displaces, of "Some 7" None 0] by auto
  have h: "styles box_host = box_page" by (simp add: box_host_def)
  have "inline (positioned box_host 0 static_world) 0 ''left'' = STxt []"
    by (simp add: positioned_def h box_css set_style_def) (simp add: static_world_def box_page_def)
  moreover have "parseFloat [] = None" by code_simp
  ultimately have "l = 18"
    using w(2) by (simp add: offset_def box_host_def on_page_def scrolled_def client_edge_def or_num_def jq_contains_def box_page_def px_of_def)
  then show ?thesis using w by auto
qed

lemma offsetParent_is_first_positioned_witness: "\<exists>es p. offset_loop box_host (Some 0) static_world = Some (p, static_world) \<and> hd es = (0 :: nat)"
proof -
  have r: "readable box_host static_world" using box_any by (simp add: readable_def box_host_def)
  have "offsetParent box_host static_world a = Some b \<Longrightarrow> (\<lambda>n. 1 - n) b < (\<lambda>n. 1 - n) a" for a b
    by (simp add: box_host_def split: if_splits)
  from offsetParent_is_first_positioned[where depth = "\<lambda>n. 1 - n" and e = 0, OF r this] show ?thesis by blast
qed

end
