(* ===== verification/JQ_Init.thy ===== *)
theory JQ_Init
  imports JQ_Util JQ_Regex
begin

text \<open>
  The entry of jquery-1.6.4.js, \<open>jQuery.fn.init\<close>, and the functions around it: \<open>noConflict\<close>, \<open>parseJSON\<close>, \<open>parseXML\<close>,
  \<open>globalEval\<close>, \<open>uaMatch\<close> and \<open>doScrollCheck\<close>.

  The expressions are those of the source, matched by \<open>JQ_Regex\<close>. The document, the making of elements and fragments, the
  selector engine and the parsers of the browser are arguments.
\<close>

section \<open>Expressions\<close>

definition quickExpr :: re where
  "quickExpr = Seq Bol (Alt
     (seqs [many (Cls True [One CHR ''#'', One CHR ''<'']), Grp 1 (seqs [ch CHR ''<'', some any_char, ch CHR ''>'']),
        many (Cls True [One CHR ''>'']), Eol])
     (seqs [ch CHR ''#'', Grp 2 (many (Cls False [Word, One CHR ''-''])), Eol]))"

definition rsingleTag :: re where
  "rsingleTag = seqs [Bol, ch CHR ''<'', Grp 1 (some (Cls False [Word])), many (Cls False [Space]), opt (ch CHR ''/''),
     ch CHR ''>'', opt (seqs [lit ''</'', Back 1, ch CHR ''>'']), Eol]"

definition hex_digit :: re where
  "hex_digit = Cls False (Digit # map One ''abcdefABCDEF'')"

definition rvalidchars :: re where
  "rvalidchars = seqs [Bol, many (Cls False (Space # map One ''],:{}'')), Eol]"

definition backslash :: char where
  "backslash = CHR 0x5C"

definition quote :: char where
  "quote = CHR 0x22"

definition rvalidescape :: re where
  "rvalidescape = Seq (ch backslash)
     (Alt (Cls False (map One (quote # backslash # ''/bfnrt''))) (seqs [ch CHR ''u'', hex_digit, hex_digit, hex_digit, hex_digit]))"

definition json_text :: re where
  "json_text = seqs [ch quote, many (Cls True (map One [quote, backslash, CHR 0x0A, CHR 0x0D])), ch quote]"

definition json_number :: re where
  "json_number = seqs [opt (ch CHR ''-''), some (Cls False [Digit]), opt (Seq (ch CHR ''.'') (many (Cls False [Digit]))),
     opt (seqs [Cls False (map One ''eE''), opt (Cls False (map One ''+-'')), some (Cls False [Digit])])]"

definition rvalidtokens :: re where
  "rvalidtokens = Alt json_text (alts_of [lit ''true'', lit ''false'', lit ''null'', json_number])"

definition rvalidbraces :: re where
  "rvalidbraces = Seq (Alt Bol (Alt (ch CHR '':'') (ch CHR '','')))
     (some (Seq (many (Cls False [Space])) (ch CHR ''['')))"

definition version_chars :: re where
  "version_chars = some (Cls False [Word, One CHR ''.''])"

definition rwebkit :: re where
  "rwebkit = seqs [Grp 1 (lit ''webkit''), Cls False (map One '' /''), Grp 2 version_chars]"

definition ropera :: re where
  "ropera = seqs [Grp 1 (lit ''opera''), opt (Seq (many dot) (lit ''version'')), Cls False (map One '' /''), Grp 2 version_chars]"

definition rmsie :: re where
  "rmsie = seqs [Grp 1 (lit ''msie''), ch CHR '' '', Grp 2 version_chars]"

definition rmozilla :: re where
  "rmozilla = Seq (Grp 1 (lit ''mozilla'')) (opt (seqs [Rep False dot, lit '' rv:'', Grp 2 version_chars]))"

section \<open>The entry\<close>

text \<open>A set of elements with the properties \<open>selector\<close> and \<open>context\<close>.\<close>

record jqset =
  items :: "nat list"
  jsel :: string
  jctx :: "nat option"

datatype selector =
    Falsy \<comment> \<open>missing, null, or the empty text\<close>
  | Node nat
  | Text string
  | Func nat
  | JQ jqset
  | Items "nat list" \<comment> \<open>an array of nodes\<close>

datatype 'a icontext = NoContext | OfNode nat | OfSet jqset | Plain 'a \<comment> \<open>a plain object: attributes\<close>

record ('a, 'w) ihost =
  document :: nat
  bodyNode :: "'w \<Rightarrow> nat option"
  ownerDoc :: "'w \<Rightarrow> nat \<Rightarrow> nat option"
  getElementById :: "'w \<Rightarrow> string \<Rightarrow> nat option"
  parentOf :: "'w \<Rightarrow> nat \<Rightarrow> nat option"
  idOf :: "'w \<Rightarrow> nat \<Rightarrow> string"
  createElement :: "nat \<Rightarrow> string \<Rightarrow> 'w \<Rightarrow> nat \<times> 'w"
  setAttrs :: "nat \<Rightarrow> 'a \<Rightarrow> 'w \<Rightarrow> 'w" \<comment> \<open>\<open>fn.attr\<close> with an object, for one element\<close>
  fragment :: "string \<Rightarrow> nat \<Rightarrow> 'w \<Rightarrow> nat list \<times> 'w" \<comment> \<open>the nodes that \<open>buildFragment\<close> makes of markup\<close>
  findNodes :: "nat list \<Rightarrow> string \<Rightarrow> 'w \<Rightarrow> nat list" \<comment> \<open>\<open>fn.find\<close>\<close>
  onReady :: "nat \<Rightarrow> 'w \<Rightarrow> 'w"

definition rootjQuery :: "('a, 'w) ihost \<Rightarrow> jqset" where
  "rootjQuery h = \<lparr>items = [document h], jsel = [], jctx = Some (document h)\<rparr>"

definition fn_find :: "('a, 'w) ihost \<Rightarrow> jqset \<Rightarrow> string \<Rightarrow> 'w \<Rightarrow> jqset" where
  "fn_find h s q w = \<lparr>items = findNodes h (items s) q w, jsel = (if jsel s = [] then q else jsel s @ '' '' @ q), jctx = jctx s\<rparr>"

text \<open>The document in which markup is built.\<close>

definition doc_of :: "('a, 'w) ihost \<Rightarrow> 'a icontext \<Rightarrow> 'w \<Rightarrow> nat" where
  "doc_of h c w =
     (let own = (\<lambda>n. case ownerDoc h w n of Some d \<Rightarrow> d | None \<Rightarrow> n)
      in case c of
          OfNode n \<Rightarrow> own n
        | OfSet s \<Rightarrow> (case items s of [] \<Rightarrow> document h | n # _ \<Rightarrow> own n)
        | _ \<Rightarrow> document h)"

definition looks_like_markup :: "string \<Rightarrow> bool" where
  "looks_like_markup s \<longleftrightarrow> s \<noteq> [] \<and> hd s = CHR ''<'' \<and> last s = CHR ''>'' \<and> 3 \<le> length s"

text \<open>The variable \<open>match\<close>: the markup, or else the id.\<close>

datatype quick = Markup string | Id string | NoQuick

definition quick_match :: "string \<Rightarrow> quick" where
  "quick_match s =
     (if looks_like_markup s then Markup s
      else case exec quickExpr s of
          None \<Rightarrow> NoQuick
        | Some m \<Rightarrow> (if gtext m 1 \<noteq> [] then Markup (gtext m 1) else Id (gtext m 2)))"

definition init_markup :: "('a, 'w) ihost \<Rightarrow> string \<Rightarrow> string \<Rightarrow> 'a icontext \<Rightarrow> 'w \<Rightarrow> jqset \<times> 'w" where
  "init_markup h s html c w =
     (let (ns, w1) = (case exec rsingleTag s of
          Some m \<Rightarrow>
            (case c of
               Plain attrs \<Rightarrow>
                 (let (n, w1) = createElement h (document h) (gtext m 1) w in ([n], setAttrs h n attrs w1))
             | _ \<Rightarrow> (let (n, w1) = createElement h (doc_of h c w) (gtext m 1) w in ([n], w1)))
        | None \<Rightarrow> fragment h html (doc_of h c w) w)
      in (\<lparr>items = ns, jsel = [], jctx = None\<rparr>, w1))"

definition init_id :: "('a, 'w) ihost \<Rightarrow> string \<Rightarrow> string \<Rightarrow> 'w \<Rightarrow> jqset" where
  "init_id h s i w =
     (case getElementById h w i of
        Some e \<Rightarrow>
          (if parentOf h w e = None then \<lparr>items = [], jsel = s, jctx = Some (document h)\<rparr>
           else if idOf h w e \<noteq> i then fn_find h (rootjQuery h) s w
           else \<lparr>items = [e], jsel = s, jctx = Some (document h)\<rparr>)
      | None \<Rightarrow> \<lparr>items = [], jsel = s, jctx = Some (document h)\<rparr>)"

definition init_find :: "('a, 'w) ihost \<Rightarrow> string \<Rightarrow> 'a icontext \<Rightarrow> 'w \<Rightarrow> jqset" where
  "init_find h s c w =
     (case c of
        NoContext \<Rightarrow> fn_find h (rootjQuery h) s w
      | OfSet cs \<Rightarrow> fn_find h cs s w
      | OfNode n \<Rightarrow> fn_find h \<lparr>items = [n], jsel = [], jctx = Some n\<rparr> s w
      | Plain a \<Rightarrow> fn_find h \<lparr>items = [], jsel = [], jctx = None\<rparr> s w)"

definition init_text :: "('a, 'w) ihost \<Rightarrow> string \<Rightarrow> 'a icontext \<Rightarrow> 'w \<Rightarrow> jqset \<times> 'w" where
  "init_text h s c w =
     (case quick_match s of
        Markup html \<Rightarrow> init_markup h s html c w
      | Id i \<Rightarrow> (case c of NoContext \<Rightarrow> (init_id h s i w, w) | _ \<Rightarrow> (init_find h s c w, w))
      | NoQuick \<Rightarrow> (init_find h s c w, w))"

definition jq_init :: "('a, 'w) ihost \<Rightarrow> selector \<Rightarrow> 'a icontext \<Rightarrow> 'w \<Rightarrow> jqset \<times> 'w" where
  "jq_init h s c w =
     (case s of
        Falsy \<Rightarrow> (\<lparr>items = [], jsel = [], jctx = None\<rparr>, w)
      | Node n \<Rightarrow> (\<lparr>items = [n], jsel = [], jctx = Some n\<rparr>, w)
      | Text t \<Rightarrow>
          (if t = [] then (\<lparr>items = [], jsel = [], jctx = None\<rparr>, w)
           else case (c, bodyNode h w) of
               (NoContext, Some b) \<Rightarrow>
                 (if t = ''body'' then (\<lparr>items = [b], jsel = t, jctx = Some (document h)\<rparr>, w) else init_text h t c w)
             | _ \<Rightarrow> init_text h t c w)
      | Func f \<Rightarrow> (rootjQuery h, onReady h f w)
      | JQ s \<Rightarrow> (s, w)
      | Items ns \<Rightarrow> (\<lparr>items = ns, jsel = [], jctx = None\<rparr>, w))"

section \<open>noConflict\<close>

text \<open>The two global names, as numbers of the values they hold; \<open>ours\<close> is this library.\<close>

record globals =
  dollar :: nat
  jquery :: nat

definition noConflict :: "nat \<Rightarrow> globals \<Rightarrow> bool \<Rightarrow> globals \<Rightarrow> globals" where
  "noConflict ours saved deep g =
     (let g1 = (if dollar g = ours then g\<lparr>dollar := dollar saved\<rparr> else g)
      in if deep \<and> jquery g1 = ours then g1\<lparr>jquery := jquery saved\<rparr> else g1)"

section \<open>Parsers\<close>

datatype 'v parsed = PNull | PValue 'v | PThrew string

record 'v parsers =
  nativeJSON :: "(string \<Rightarrow> 'v parsed) option"
  evalText :: "string \<Rightarrow> 'v parsed" \<comment> \<open>\<open>new Function\<close>, called\<close>
  parseDoc :: "string \<Rightarrow> 'v option" \<comment> \<open>\<open>None\<close> when the parser throws or gives nothing\<close>
  hasRoot :: "'v \<Rightarrow> bool"
  parserErrors :: "'v \<Rightarrow> nat"

definition looks_like_json :: "string \<Rightarrow> bool" where
  "looks_like_json s \<longleftrightarrow>
     test rvalidchars (replace_all rvalidbraces [] (replace_all rvalidtokens '']'' (replace_all rvalidescape ''@'' s)))"

text \<open>\<open>None\<close> stands for data that are not a text.\<close>

definition parseJSON :: "'v parsers \<Rightarrow> string option \<Rightarrow> 'v parsed" where
  "parseJSON p data =
     (case data of
        None \<Rightarrow> PNull
      | Some d \<Rightarrow>
          (if d = [] then PNull
           else let t = jq_trim (Some d)
                in case nativeJSON p of
                    Some f \<Rightarrow> f t
                  | None \<Rightarrow> if looks_like_json t then evalText p (''return '' @ t) else PThrew (''Invalid JSON: '' @ t)))"

definition parseXML :: "'v parsers \<Rightarrow> string \<Rightarrow> 'v parsed" where
  "parseXML p data =
     (case parseDoc p data of
        Some x \<Rightarrow> (if \<not> hasRoot p x \<or> parserErrors p x \<noteq> 0 then PThrew (''Invalid XML: '' @ data) else PValue x)
      | None \<Rightarrow> PThrew (''Invalid XML: '' @ data))"

text \<open>\<open>globalEval\<close>: the script runs unless it is blank.\<close>

definition globalEval :: "(string \<Rightarrow> 'w \<Rightarrow> 'w) \<Rightarrow> string \<Rightarrow> 'w \<Rightarrow> 'w" where
  "globalEval run data w = (if list_ex (\<lambda>c. \<not> is_space c) data then run data w else w)"

section \<open>The browser\<close>

fun has_part :: "string \<Rightarrow> string \<Rightarrow> bool" where
  "has_part p [] \<longleftrightarrow> p = []"
| "has_part p (c # cs) \<longleftrightarrow> take (length p) (c # cs) = p \<or> has_part p cs"

definition uaMatch :: "string \<Rightarrow> string \<times> string" where
  "uaMatch ua =
     (let u = to_lower ua;
          m = or_else (exec rwebkit u) (or_else (exec ropera u) (or_else (exec rmsie u)
                (if has_part ''compatible'' u then None else exec rmozilla u)))
      in case m of
          None \<Rightarrow> ([], ''0'')
        | Some f \<Rightarrow> (gtext f 1, if gtext f 2 = [] then ''0'' else gtext f 2))"

text \<open>
  \<open>doScrollCheck\<close> on the state of the ready event; \<open>stuck\<close> tells whether \<open>doScroll\<close> throws. The first result tells
  whether the check is to be tried again after a millisecond.
\<close>

definition doScrollCheck :: "bool \<Rightarrow> ready_state \<Rightarrow> bool \<times> ready_state outcome" where
  "doScrollCheck stuck s =
     (if isReady s then (False, Returned s)
      else if stuck then (True, Returned s)
      else (False, ready False s))"

section \<open>What an expression can read\<close>

lemma advance_0 [simp]: "advance 0 s = s"
  by (simp add: advance_def)

lemma advance_advance [simp]: "advance m (advance n s) = advance (n + m) s"
  by (simp add: advance_def add.commute)

lemma advance_simps [simp]:
  "at_pos (advance n s) = at_pos s + n" "left (advance n s) = drop n (left s)" "caps (advance n s) = caps s"
  by (simp_all add: advance_def)

lemma turns_of_class:
  assumes "turns g n (attempt (Cls neg cs)) s k = Some m"
  shows "\<exists>j\<le>length (left s). list_all (in_class neg cs) (take j (left s)) \<and> k (advance j s) = Some m"
  using assms
proof (induction n arbitrary: s)
  case 0
  then show ?case by (intro exI[of _ 0]) simp
next
  case (Suc n)
  have more: "\<exists>j\<le>length (left s). list_all (in_class neg cs) (take j (left s)) \<and> k (advance j s) = Some m"
    if "attempt (Cls neg cs) s (\<lambda>s'. if at_pos s' = at_pos s then None else turns g n (attempt (Cls neg cs)) s' k) = Some m"
  proof (cases "left s")
    case Nil
    with that show ?thesis by simp
  next
    case (Cons c t)
    with that have c: "in_class neg cs c" and r: "turns g n (attempt (Cls neg cs)) (advance 1 s) k = Some m"
      by (auto split: if_splits)
    obtain j where j: "j \<le> length t" "list_all (in_class neg cs) (take j t)" "k (advance (1 + j) s) = Some m"
      using Suc.IH[OF r] Cons by auto
    then show ?thesis using c Cons by (intro exI[of _ "Suc j"]) simp
  qed
  have "attempt (Cls neg cs) s (\<lambda>s'. if at_pos s' = at_pos s then None else turns g n (attempt (Cls neg cs)) s' k) = Some m \<or> k s = Some m"
    using Suc.prems by (auto simp: Let_def or_else_def simp del: attempt.simps split: if_splits option.splits)
  then show ?case
  proof
    assume "k s = Some m"
    then show ?thesis by (intro exI[of _ 0]) simp
  qed (rule more)
qed

lemma turns_take_all:
  assumes "list_all (in_class neg cs) (left s)" "k (advance (length (left s)) s) = Some m"
  shows "turns True (length (left s)) (attempt (Cls neg cs)) s k = Some m"
  using assms
proof (induction "length (left s)" arbitrary: s)
  case 0
  then show ?case by simp
next
  case (Suc n)
  then obtain c t where c: "left s = c # t" by (cases "left s") auto
  have "turns True (length (left (advance 1 s))) (attempt (Cls neg cs)) (advance 1 s) k = Some m"
    by (rule Suc.hyps(1)) (use Suc.prems Suc.hyps(2) c in simp_all)
  then show ?case using Suc.prems c by (simp add: Let_def)
qed

primrec may_read :: "re \<Rightarrow> char \<Rightarrow> bool" where
  "may_read Eps c = False"
| "may_read (Cls neg cs) c = in_class neg cs c"
| "may_read (Seq a b) c = (may_read a c \<or> may_read b c)"
| "may_read (Alt a b) c = (may_read a c \<or> may_read b c)"
| "may_read (Rep g a) c = may_read a c"
| "may_read (Grp i a) c = may_read a c"
| "may_read (Back i) c = True"
| "may_read (Look b a) c = False"
| "may_read Bol c = False"
| "may_read Eol c = False"

text \<open>A match goes on in the text over characters that the expression reads.\<close>

definition reads_to :: "(char \<Rightarrow> bool) \<Rightarrow> mstate \<Rightarrow> mstate \<Rightarrow> bool" where
  "reads_to P s m \<longleftrightarrow> (\<exists>n\<le>length (left s). at_pos m = at_pos s + n \<and> left m = drop n (left s) \<and> list_all P (take n (left s)))"

lemma reads_toI: "n \<le> length (left s) \<Longrightarrow> at_pos m = at_pos s + n \<Longrightarrow> left m = drop n (left s) \<Longrightarrow> list_all P (take n (left s)) \<Longrightarrow> reads_to P s m"
  unfolding reads_to_def by blast

lemma reads_to_refl: "at_pos m = at_pos s \<Longrightarrow> left m = left s \<Longrightarrow> reads_to P s m"
  by (rule reads_toI[of 0]) simp_all

lemma reads_to_trans:
  assumes "reads_to P s s'" "reads_to Q s' m"
  shows "reads_to (\<lambda>c. P c \<or> Q c) s m"
proof -
  obtain a where a: "a \<le> length (left s)" "at_pos s' = at_pos s + a" "left s' = drop a (left s)" "list_all P (take a (left s))"
    using assms(1) unfolding reads_to_def by blast
  obtain b where b: "b \<le> length (left s')" "at_pos m = at_pos s' + b" "left m = drop b (left s')" "list_all Q (take b (left s'))"
    using assms(2) unfolding reads_to_def by blast
  show ?thesis
  proof (rule reads_toI[of "a + b"])
    show "list_all (\<lambda>c. P c \<or> Q c) (take (a + b) (left s))"
      using a(4) b(4) by (auto simp: take_add a(3) list_all_iff)
  qed (use a b in \<open>simp_all add: add.commute add.left_commute\<close>)
qed

lemma reads_to_mono: "reads_to P s m \<Longrightarrow> (\<And>c. P c \<Longrightarrow> Q c) \<Longrightarrow> reads_to Q s m"
  unfolding reads_to_def list_all_iff by blast

lemma turns_go_on:
  assumes "\<And>s m. m \<in> set (f s) \<Longrightarrow> reads_to P s m"
  shows "m \<in> set (all_turns g n f s) \<Longrightarrow> reads_to P s m"
proof (induction n arbitrary: s)
  case 0
  then show ?case by (simp add: reads_to_refl)
next
  case (Suc n)
  have "m = s \<or> (\<exists>s'\<in>set (f s). m \<in> set (all_turns g n f s'))"
    using Suc.prems by (auto simp: Let_def split: if_splits)
  then show ?case
  proof
    assume "\<exists>s'\<in>set (f s). m \<in> set (all_turns g n f s')"
    then obtain s' where s': "s' \<in> set (f s)" "m \<in> set (all_turns g n f s')" by blast
    show ?thesis by (rule reads_to_mono[OF reads_to_trans[OF assms[OF s'(1)] Suc.IH[OF s'(2)]]]) blast
  qed (simp add: reads_to_refl)
qed

lemma matches_go_on: "m \<in> set (all_matches r s) \<Longrightarrow> reads_to (may_read r) s m"
proof (induction r arbitrary: s m)
  case (Cls neg cs)
  then show ?case
    by (cases "left s") (auto intro: reads_toI[of 1] split: if_splits)
next
  case (Seq a b)
  then obtain s' where s': "s' \<in> set (all_matches a s)" "m \<in> set (all_matches b s')" by auto
  show ?case by (rule reads_to_mono[OF reads_to_trans[OF Seq.IH(1)[OF s'(1)] Seq.IH(2)[OF s'(2)]]]) simp
next
  case (Alt a b)
  then have "m \<in> set (all_matches a s) \<or> m \<in> set (all_matches b s)" by simp
  then show ?case
  proof
    assume "m \<in> set (all_matches a s)"
    then show ?thesis by (rule reads_to_mono[OF Alt.IH(1)]) simp
  next
    assume "m \<in> set (all_matches b s)"
    then show ?thesis by (rule reads_to_mono[OF Alt.IH(2)]) simp
  qed
next
  case (Rep g a)
  show ?case by (rule reads_to_mono[OF turns_go_on[of "all_matches a" "may_read a"]]) (use Rep in auto)
next
  case (Grp i a)
  then obtain s' where s': "s' \<in> set (all_matches a s)" "m = capture i s s'" by auto
  then show ?case using Grp.IH[OF s'(1)] by (simp add: reads_to_def capture_def)
next
  case (Back i)
  then show ?case
  proof (cases "map_of (caps s) i")
    case (Some w)
    with Back have w: "take (length w) (left s) = w" "m = advance (length w) s" by (auto split: if_splits)
    then have "length w \<le> length (left s)" by (metis length_take min.cobounded1)
    with w show ?thesis by (intro reads_toI[of "length w"]) (simp_all add: list_all_iff)
  qed (simp add: reads_to_refl)
next
  case (Look b a)
  then show ?case by (cases "all_matches a s") (auto intro!: reads_to_refl split: if_splits)
qed (auto intro: reads_to_refl split: if_splits)

lemma attempt_match: "attempt r s Some = Some m \<Longrightarrow> m \<in> set (all_matches r s)"
  by (cases "all_matches r s") (simp_all add: attempt_is_first_match)

section \<open>What a replacement keeps\<close>

lemma replace_keeps:
  assumes "\<And>i s' m. set s' \<subseteq> A \<Longrightarrow> attempt r \<lparr>at_pos = i, left = s', caps = []\<rparr> Some = Some m \<Longrightarrow>
      c \<notin> set (take (at_pos m - i) s')"
    and "set s \<subseteq> A" "c \<in> set s"
  shows "c \<in> set (replace_from r t i s)"
  using assms(2,3)
proof (induction "length s" arbitrary: i s rule: less_induct)
  case less
  obtain d cs where s: "s = d # cs" using less.prems(2) by (cases s) auto
  have step: "c \<in> set (d # replace_from r t (Suc i) cs)"
    using less.hyps[of cs "Suc i"] less.prems by (auto simp: s)
  show ?case
  proof (cases "attempt r \<lparr>at_pos = i, left = s, caps = []\<rparr> Some")
    case None
    then show ?thesis using step by (subst replace_from.simps) (simp add: s)
  next
    case (Some m)
    show ?thesis
    proof (cases "i < at_pos m")
      case True
      let ?n = "at_pos m - i"
      have "c \<notin> set (take ?n s)" by (rule assms(1)[OF less.prems(1) Some])
      moreover have "c \<in> set (take ?n s @ drop ?n s)" using less.prems(2) by simp
      ultimately have c: "c \<in> set (drop ?n s)" by (metis Un_iff set_append)
      have "c \<in> set (replace_from r t (at_pos m) (drop ?n s))"
      proof (rule less.hyps)
        show "length (drop ?n s) < length s" using True by (simp add: s)
        show "set (drop ?n s) \<subseteq> A" using less.prems(1) by (meson order_trans set_drop_subset)
      qed (rule c)
      then show ?thesis using True Some by (subst replace_from.simps) (simp add: s)
    next
      case False
      then show ?thesis using step Some by (subst replace_from.simps) (auto simp: s)
    qed
  qed
qed

lemma replace_within: "set (replace_from r (\<lambda>_. t) i s) \<subseteq> set t \<union> set s"
proof (induction "length s" arbitrary: i s rule: less_induct)
  case less
  have step: "set (case s of [] \<Rightarrow> [] | c # cs \<Rightarrow> c # replace_from r (\<lambda>_. t) (Suc i) cs) \<subseteq> set t \<union> set s"
    using less[of "tl s" "Suc i"] by (cases s) auto
  show ?case
  proof (cases "attempt r \<lparr>at_pos = i, left = s, caps = []\<rparr> Some")
    case None
    then show ?thesis using step by (subst replace_from.simps) simp
  next
    case (Some m)
    show ?thesis
    proof (cases "i < at_pos m \<and> s \<noteq> []")
      case True
      have "set (replace_from r (\<lambda>_. t) (at_pos m) (drop (at_pos m - i) s)) \<subseteq> set t \<union> set (drop (at_pos m - i) s)"
        by (rule less) (use True in \<open>auto simp flip: length_greater_0_conv\<close>)
      then show ?thesis using True Some set_drop_subset[of "at_pos m - i" s] by (subst replace_from.simps) auto
    next
      case False
      then show ?thesis using step Some by (subst replace_from.simps) auto
    qed
  qed
qed

text \<open>An expression takes no character away that it cannot read.\<close>

lemma replace_unread:
  assumes "\<And>i s' m. set s' \<subseteq> A \<Longrightarrow> all_matches r \<lparr>at_pos = i, left = s', caps = []\<rparr> = all_matches r' \<lparr>at_pos = i, left = s', caps = []\<rparr>"
    and "\<not> may_read r' c" "set s \<subseteq> A" "c \<in> set s"
  shows "c \<in> set (replace_all r t s)"
  unfolding replace_all_def
proof (rule replace_keeps[OF _ assms(3,4)])
  fix i s' m
  assume "set s' \<subseteq> A" "attempt r \<lparr>at_pos = i, left = s', caps = []\<rparr> Some = Some m"
  then have "m \<in> set (all_matches r' \<lparr>at_pos = i, left = s', caps = []\<rparr>)"
    using assms(1) attempt_match by metis
  from matches_go_on[OF this] obtain n where "at_pos m = i + n" "list_all (may_read r') (take n s')"
    by (auto simp: reads_to_def)
  then show "c \<notin> set (take (at_pos m - i) s')" using assms(2) by (auto simp: list_all_iff)
qed

section \<open>JSON\<close>

text \<open>The characters of JSON outside of its texts.\<close>

definition json_char :: "char \<Rightarrow> bool" where
  "json_char c \<longleftrightarrow> is_digit c \<or> is_space c \<or> c = backslash \<or> c = quote \<or> c \<in> set '']['' \<or> c \<in> set '',:{}./+-abcdefABCDEFrnlstu''"

lemma json_reads:
  assumes "\<not> json_char c"
  shows "\<not> may_read rvalidescape c" "\<not> may_read (alts_of [lit ''true'', lit ''false'', lit ''null'', json_number]) c"
    "\<not> may_read rvalidbraces c" "\<not> in_class False (Space # map cset.One ''],:{}'') c"
  using assms
  by (auto simp: json_char_def rvalidescape_def json_number_def rvalidbraces_def hex_digit_def ch_def lit_def in_class_def backslash_def quote_def)

lemma no_json_text:
  assumes "quote \<notin> set (left s)"
  shows "all_matches rvalidtokens s = all_matches (alts_of [lit ''true'', lit ''false'', lit ''null'', json_number]) s"
proof -
  have "all_matches json_text s = []"
    using assms by (cases "left s") (auto simp: json_text_def ch_def in_class_def)
  then show ?thesis by (simp add: rvalidtokens_def del: alts_of.simps)
qed

lemma not_like_json:
  assumes "quote \<notin> set t" "c \<in> set t" "\<not> json_char c"
  shows "\<not> looks_like_json t"
proof
  assume l: "looks_like_json t"
  define a where "a = replace_all rvalidescape ''@'' t"
  define b where "b = replace_all rvalidtokens '']'' a"
  define d where "d = replace_all rvalidbraces [] b"
  have ca: "c \<in> set a" unfolding a_def
    by (rule replace_unread[where A = UNIV and r' = rvalidescape]) (use assms json_reads in auto)
  have qa: "set a \<subseteq> - {quote}"
    using replace_within[of rvalidescape "''@''" 0 t] assms(1) by (auto simp: a_def replace_all_def quote_def)
  have cb: "c \<in> set b" unfolding b_def
    by (rule replace_unread[where A = "- {quote}", OF no_json_text _ qa ca]) (use assms json_reads in auto)
  have cd: "c \<in> set d" unfolding d_def
    by (rule replace_unread[where A = UNIV and r' = rvalidbraces]) (use assms json_reads cb in auto)
  have "test rvalidchars d" using l by (simp add: looks_like_json_def a_def b_def d_def)
  then obtain m where m: "exec_from rvalidchars 0 d = Some m" by (auto simp: test_def exec_def)
  have late: "exec_from rvalidchars (Suc i) s = None" for i s
  proof (induction s arbitrary: i)
    case Nil
    then show ?case by (subst exec_from.simps) (simp add: rvalidchars_def)
  next
    case (Cons x s)
    then show ?case by (subst exec_from.simps) (simp add: rvalidchars_def)
  qed
  obtain m' where "attempt rvalidchars \<lparr>at_pos = 0, left = d, caps = []\<rparr> Some = Some m'"
    using m late by (subst (asm) exec_from.simps) (auto split: option.splits list.splits)
  then have "turns True (length d) (attempt (Cls False (Space # map cset.One ''],:{}''))) \<lparr>at_pos = 0, left = d, caps = []\<rparr>
      (\<lambda>s'. attempt Eol s' Some) = Some m'"
    by (simp add: rvalidchars_def del: turns.simps attempt.simps(2))
  from turns_of_class[OF this] obtain j where "j \<le> length d" "list_all (in_class False (Space # map cset.One ''],:{}'')) (take j d)" "drop j d = []"
    by (auto split: if_splits)
  then have "list_all (in_class False (Space # map cset.One ''],:{}'')) d" by simp
  then show False using cd json_reads(4)[OF assms(3)] by (auto simp: list_all_iff)
qed

text \<open>
  C11: Where the browser has no parser of its own, a text without quotation marks that has any character but those
  of numbers, the three words and the signs of JSON, such as a parenthesis or an equals sign, is an error and is not evaluated.
\<close>

theorem no_code_in_json:
  assumes "nativeJSON p = None" "quote \<notin> set data" "c \<in> set (jq_trim (Some data))" "\<not> json_char c"
  shows "parseJSON p (Some data) = PThrew (''Invalid JSON: '' @ jq_trim (Some data))"
proof -
  obtain l r where "data = l @ jq_trim (Some data) @ r" using trim_parts by blast
  then have q: "quote \<notin> set (jq_trim (Some data))" using assms(2) by (metis Un_iff set_append)
  have "data \<noteq> []"
  proof
    assume "data = []"
    then show False using assms(3) by (simp add: jq_trim_def trim_right_def trim_left_def)
  qed
  then show ?thesis
    using not_like_json[OF q assms(3,4)] assms(1) by (simp add: parseJSON_def Let_def)
qed

section \<open>Markup and ids\<close>

lemma quick_late: "exec_from quickExpr (Suc i) s = None"
proof (induction s arbitrary: i)
  case Nil
  then show ?case by (subst exec_from.simps) (simp add: quickExpr_def del: seqs.simps)
next
  case (Cons x s)
  then show ?case by (subst exec_from.simps) (simp add: quickExpr_def del: seqs.simps)
qed

lemma quick_exec:
  "exec quickExpr s = (case attempt quickExpr \<lparr>at_pos = 0, left = s, caps = []\<rparr> Some of
     Some m \<Rightarrow> Some \<lparr>index = 0, whole = take (at_pos m) s, group = caps m\<rparr> | None \<Rightarrow> None)"
  unfolding exec_def
  by (subst exec_from.simps) (auto simp: quick_late split: option.split list.split)

text \<open>The two alternatives of the expression.\<close>

definition quick_markup :: re where
  "quick_markup = seqs [many (Cls True [cset.One CHR ''#'', cset.One CHR ''<'']), Grp 1 (seqs [ch CHR ''<'', some any_char, ch CHR ''>'']),
     many (Cls True [cset.One CHR ''>'']), Eol]"

definition quick_id :: re where
  "quick_id = seqs [ch CHR ''#'', Grp 2 (many (Cls False [Word, cset.One CHR ''-''])), Eol]"

lemma quick_parts:
  "attempt quickExpr \<lparr>at_pos = 0, left = s, caps = []\<rparr> Some =
     or_else (attempt quick_markup \<lparr>at_pos = 0, left = s, caps = []\<rparr> Some) (attempt quick_id \<lparr>at_pos = 0, left = s, caps = []\<rparr> Some)"
  by (simp add: quickExpr_def quick_markup_def quick_id_def del: seqs.simps)

lemma drop_hash:
  assumes "CHR ''<'' \<notin> set p" "list_all (\<lambda>c. c \<noteq> CHR ''#'' \<and> c \<noteq> CHR ''<'') (take j (p @ CHR ''#'' # q))"
    "drop j (p @ CHR ''#'' # q) = c # t"
  shows "c \<noteq> CHR ''<''"
proof -
  have j: "j \<le> length p"
  proof (rule ccontr)
    assume "\<not> j \<le> length p"
    then have "CHR ''#'' \<in> set (take j (p @ CHR ''#'' # q))" by (cases "j - length p") simp_all
    then show False using assms(2) by (auto simp: list_all_iff)
  qed
  have "c = (p @ CHR ''#'' # q) ! j" using assms(3) by (metis append_Cons drop_eq_Nil2 hd_drop_conv_nth leI list.distinct(1) list.sel(1) order.strict_iff_not)
  then show ?thesis using j assms(1) by (cases "j = length p") (auto simp: nth_append in_set_conv_nth)
qed

lemma hash_is_no_markup:
  assumes "CHR ''<'' \<notin> set p" "s = p @ CHR ''#'' # q"
  shows "attempt quick_markup \<lparr>at_pos = 0, left = s, caps = []\<rparr> Some = None"
proof (rule ccontr)
  assume "attempt quick_markup \<lparr>at_pos = 0, left = s, caps = []\<rparr> Some \<noteq> None"
  then obtain m where "attempt quick_markup \<lparr>at_pos = 0, left = s, caps = []\<rparr> Some = Some m" by blast
  then have "\<exists>k. turns True (length s) (attempt (Cls True [cset.One CHR ''#'', cset.One CHR ''<''])) \<lparr>at_pos = 0, left = s, caps = []\<rparr>
      (\<lambda>s'. attempt (Grp 1 (seqs [ch CHR ''<'', some any_char, ch CHR ''>''])) s' k) = Some m"
    by (auto simp add: quick_markup_def simp del: turns.simps attempt.simps(2) attempt.simps(6))
  then obtain k where "turns True (length s) (attempt (Cls True [cset.One CHR ''#'', cset.One CHR ''<''])) \<lparr>at_pos = 0, left = s, caps = []\<rparr>
      (\<lambda>s'. attempt (Grp 1 (seqs [ch CHR ''<'', some any_char, ch CHR ''>''])) s' k) = Some m" by blast
  from turns_of_class[OF this] obtain j where j: "list_all (in_class True [cset.One CHR ''#'', cset.One CHR ''<'']) (take j s)"
      "attempt (Grp 1 (seqs [ch CHR ''<'', some any_char, ch CHR ''>''])) (advance j \<lparr>at_pos = 0, left = s, caps = []\<rparr>) k = Some m"
    by auto
  then obtain c t where c: "drop j s = c # t" "c = CHR ''<''"
    by (auto simp: ch_def in_class_def split: list.splits if_splits)
  have "list_all (\<lambda>c. c \<noteq> CHR ''#'' \<and> c \<noteq> CHR ''<'') (take j s)" using j(1) by (auto simp: in_class_def list_all_iff)
  then show False using drop_hash[OF assms(1)] c unfolding assms(2) by blast
qed

lemma attempt_ch: "attempt (ch c) s k = (case left s of [] \<Rightarrow> None | x # _ \<Rightarrow> if x = c then k (advance 1 s) else None)"
  by (auto simp: ch_def in_class_def split: list.split)

lemma quick_id_turns:
  assumes "s = advance 1 \<lparr>at_pos = 0, left = CHR ''#'' # t, caps = []\<rparr>"
  shows "attempt quick_id \<lparr>at_pos = 0, left = CHR ''#'' # t, caps = []\<rparr> Some =
    turns True (length t) (attempt (Cls False [Word, cset.One CHR ''-''])) s (\<lambda>s'. attempt Eol (capture 2 s s') Some)"
  unfolding quick_id_def
  by (simp add: attempt_ch assms del: turns.simps attempt.simps(2) One_nat_def)

lemma quick_id_caps:
  assumes "attempt quick_id \<lparr>at_pos = 0, left = s, caps = []\<rparr> Some = Some m"
  shows "\<exists>x. caps m = [(2, x)]"
proof -
  obtain t where s: "s = CHR ''#'' # t"
    using assms by (cases s) (auto simp: quick_id_def attempt_ch split: if_splits)
  from turns_of_class[OF assms[unfolded s quick_id_turns[OF refl]]] show ?thesis by (auto simp: capture_def split: if_splits)
qed

lemma hash_quick:
  assumes "CHR ''<'' \<notin> set p" "s = p @ CHR ''#'' # q"
  shows "\<exists>i. quick_match s = Id i \<or> quick_match s = NoQuick"
proof -
  have "\<not> looks_like_markup s" using assms by (cases p) (auto simp: looks_like_markup_def)
  moreover have "attempt quickExpr \<lparr>at_pos = 0, left = s, caps = []\<rparr> Some = attempt quick_id \<lparr>at_pos = 0, left = s, caps = []\<rparr> Some"
    by (simp add: quick_parts hash_is_no_markup[OF assms])
  ultimately show ?thesis
    using quick_id_caps[of s]
    by (auto simp: quick_match_def quick_exec gtext_def grp_def split: option.splits)
qed

text \<open>
  C10: A text in which a number sign comes before the first \<open><\<close>, as the part of an address behind the number sign
  does, is never taken for markup: whatever else is in it, no element is made.
\<close>

theorem hash_before_markup_makes_nothing:
  assumes "CHR ''<'' \<notin> set p" "s = p @ CHR ''#'' # q"
  shows "snd (jq_init h (Text s) c w) = w"
proof -
  have "snd (init_text h s c w) = w"
    using hash_quick[OF assms] by (auto simp: init_text_def split: icontext.split)
  then show ?thesis by (auto simp: jq_init_def split: icontext.split option.split)
qed

lemma quick_of_id:
  assumes "list_all (in_class False [Word, cset.One CHR ''-'']) name"
  shows "quick_match (CHR ''#'' # name) = Id name"
proof -
  let ?a = "\<lparr>at_pos = 0, left = CHR ''#'' # name, caps = []\<rparr>"
  let ?b = "advance 1 ?a"
  have e: "attempt Eol (capture 2 ?b (advance (length (left ?b)) ?b)) Some = Some (capture 2 ?b (advance (length name) ?b))"
    by (simp add: capture_def)
  have "turns True (length (left ?b)) (attempt (Cls False [Word, cset.One CHR ''-''])) ?b (\<lambda>s'. attempt Eol (capture 2 ?b s') Some)
      = Some (capture 2 ?b (advance (length name) ?b))"
    by (rule turns_take_all) (use assms e in simp_all)
  moreover have "length (left ?b) = length name" by simp
  ultimately have "attempt quick_id ?a Some = Some (capture 2 ?b (advance (length name) ?b))"
    by (simp only: quick_id_turns[OF refl])
  moreover have "attempt quick_markup ?a Some = None"
    by (rule hash_is_no_markup[of "[]"]) simp_all
  ultimately have "attempt quickExpr ?a Some = Some (capture 2 ?b (advance (length name) ?b))"
    by (simp add: quick_parts)
  moreover have "\<not> looks_like_markup (CHR ''#'' # name)" by (simp add: looks_like_markup_def)
  ultimately show ?thesis
    by (simp add: quick_match_def quick_exec gtext_def grp_def capture_def)
qed

text \<open>
  C?: A number sign and a name of word characters and dashes gives the element that the document has under this id, with
  the text as selector, and an empty set when the document has none; nothing is searched and nothing made.
\<close>

theorem id_selector_finds_the_element:
  assumes "list_all (in_class False [Word, cset.One CHR ''-'']) name"
    and "\<And>e. getElementById h w name = Some e \<Longrightarrow> parentOf h w e \<noteq> None \<and> idOf h w e = name"
  shows "jq_init h (Text (CHR ''#'' # name)) NoContext w =
    (\<lparr>items = (case getElementById h w name of Some e \<Rightarrow> [e] | None \<Rightarrow> []), jsel = CHR ''#'' # name, jctx = Some (document h)\<rparr>, w)"
proof -
  have "init_text h (CHR ''#'' # name) NoContext w = (init_id h (CHR ''#'' # name) name w, w)"
    by (simp add: init_text_def quick_of_id[OF assms(1)])
  moreover have "init_id h (CHR ''#'' # name) name w =
      \<lparr>items = (case getElementById h w name of Some e \<Rightarrow> [e] | None \<Rightarrow> []), jsel = CHR ''#'' # name, jctx = Some (document h)\<rparr>"
    using assms(2) by (auto simp: init_id_def split: option.split)
  ultimately show ?thesis by (auto simp: jq_init_def split: option.split)
qed

section \<open>The globals\<close>

text \<open>
  \<open>noConflict(true)\<close> gives both names back when they are the library's and touches no name that someone else has
  taken; a second call changes nothing, unless the saved values are the library itself.
\<close>

theorem noConflict_gives_back:
  "dollar (noConflict ours saved deep g) = (if dollar g = ours then dollar saved else dollar g) \<and>
   jquery (noConflict ours saved deep g) = (if deep \<and> jquery g = ours then jquery saved else jquery g)"
  by (simp add: noConflict_def Let_def)

lemma noConflict_twice:
  "dollar saved \<noteq> ours \<Longrightarrow> jquery saved \<noteq> ours \<Longrightarrow> noConflict ours saved deep (noConflict ours saved deep g) = noConflict ours saved deep g"
  by (simp add: noConflict_def Let_def)

section \<open>Examples\<close>

lemma browsers:
  "uaMatch ''Mozilla/5.0 (Windows; rv:2.0) Firefox/4'' = (''mozilla'', ''2.0'')"
  "uaMatch ''Mozilla/4.0 (compatible; MSIE 7.0b)'' = (''msie'', ''7.0b'')"
  "uaMatch ''Opera/9.8 Version/10'' = (''opera'', ''10'')"
  "uaMatch ''lynx'' = ([], ''0'')"
  by code_simp+

text \<open>A document with the body 1 and an element 2 of the id \<open>menu\<close>; the world counts the nodes made.\<close>

definition small_page :: "(unit, nat) ihost" where
  "small_page =
    \<lparr>document = 0, bodyNode = (\<lambda>w. Some 1), ownerDoc = (\<lambda>w n. Some 0),
     getElementById = (\<lambda>w i. if i = ''menu'' then Some 2 else None), parentOf = (\<lambda>w n. Some 1), idOf = (\<lambda>w n. ''menu''),
     createElement = (\<lambda>d t w. (w, Suc w)), setAttrs = (\<lambda>n a w. w), fragment = (\<lambda>s d w. ([w], Suc w)),
     findNodes = (\<lambda>ns q w. []), onReady = (\<lambda>f w. w)\<rparr>"

lemma markup_makes: "jq_init small_page (Text ''<p/>'') NoContext 7 = (\<lparr>items = [7], jsel = [], jctx = None\<rparr>, 8)"
  by code_simp

lemma hash_before_markup_makes_nothing_witness: "snd (jq_init small_page (Text ''a#<img onerror=x>'') NoContext 7) = 7"
  using hash_before_markup_makes_nothing[of "''a''" "''a#<img onerror=x>''" "''<img onerror=x>''" small_page NoContext 7] by simp

lemma id_selector_finds_the_element_witness:
  "jq_init small_page (Text ''#menu'') NoContext 7 = (\<lparr>items = [2], jsel = ''#menu'', jctx = Some 0\<rparr>, 7)"
proof -
  have a: "list_all (in_class False [Word, cset.One CHR ''-'']) ''menu''" by code_simp
  have b: "getElementById small_page 7 ''menu'' = Some e \<Longrightarrow> parentOf small_page 7 e \<noteq> None \<and> idOf small_page 7 e = ''menu''" for e
    by (simp add: small_page_def)
  show ?thesis using id_selector_finds_the_element[OF a b] by (simp add: small_page_def)
qed

definition no_parsers :: "unit parsers" where
  "no_parsers = \<lparr>nativeJSON = None, evalText = (\<lambda>s. PValue ()), parseDoc = (\<lambda>s. None), hasRoot = (\<lambda>_. True), parserErrors = (\<lambda>_. 0)\<rparr>"

lemma no_code_in_json_witness:
  "parseJSON no_parsers (Some ''[alert(1)]'') = PThrew ''Invalid JSON: [alert(1)]'' \<and> parseJSON no_parsers (Some ''[1, -2.5e3, null]'') = PValue ()"
proof -
  have a: "quote \<notin> set ''[alert(1)]''" by (simp add: quote_def)
  have b: "CHR ''('' \<in> set (jq_trim (Some ''[alert(1)]''))" "jq_trim (Some ''[alert(1)]'') = ''[alert(1)]''" by code_simp+
  have d: "\<not> json_char CHR ''(''" by (simp add: json_char_def is_digit_def is_space_def backslash_def quote_def)
  have "parseJSON no_parsers (Some ''[1, -2.5e3, null]'') = PValue ()" by code_simp
  then show ?thesis using no_code_in_json[OF _ a b(1) d, of no_parsers] b(2) by (simp add: no_parsers_def)
qed

end
