(* ===== verification/JQ_Qsa.thy ===== *)
theory JQ_Qsa
  imports JQ_Init JQ_Sizzle
begin

text \<open>
  The ways of the selector engine that ask the browser: the function that takes the place of \<open>Sizzle\<close> where there is
  \<open>querySelectorAll\<close>, \<open>matchesSelector\<close>, and the searches that replace others where the browser's are unreliable.

  The world keeps the attribute \<open>id\<close> of the nodes, which the function sets for a moment. What the browser finds is an argument. The
  engine (\<open>JQ_Sizzle\<close>), which is called when the browser gives up, calls \<open>Sizzle\<close> again, for \<open>:has\<close> and for selectors
  with positions, and what it calls then is the new function: it is given here as a functional of the function it calls, and the knot is
  tied with fuel for the depth of these calls.
\<close>

section \<open>The browser\<close>

type_synonym ids = "nat \<Rightarrow> string option" \<comment> \<open>\<open>getAttribute("id")\<close>\<close>

text \<open>
  A search: the query, the context, the results to add to, the seed, and the ids; \<open>None\<close> when it throws.
\<close>

type_synonym search = "string \<Rightarrow> nat option \<Rightarrow> nat list \<Rightarrow> nat list option \<Rightarrow> ids \<Rightarrow> nat list option \<times> ids"

record qhost =
  qdocument :: nat
  qtype :: "nat \<Rightarrow> nat"
  qname :: "nat \<Rightarrow> string"
  qparent :: "nat \<Rightarrow> nat option"
  qbody :: "nat \<Rightarrow> nat option"
  qxml :: "nat \<Rightarrow> bool"
  qtags :: "nat \<Rightarrow> string \<Rightarrow> nat list" \<comment> \<open>\<open>getElementsByTagName\<close>\<close>
  qclasses :: "(nat \<Rightarrow> string \<Rightarrow> nat list) option" \<comment> \<open>\<open>getElementsByClassName\<close>, where the engine uses it\<close>
  qbyId :: "ids \<Rightarrow> nat \<Rightarrow> string \<Rightarrow> nat option"
  qall :: "ids \<Rightarrow> nat \<Rightarrow> string \<Rightarrow> nat list option" \<comment> \<open>\<open>querySelectorAll\<close>; \<open>None\<close> when it throws\<close>
  qmatches :: "nat \<Rightarrow> string \<Rightarrow> bool option" \<comment> \<open>the browser's \<open>matchesSelector\<close>\<close>
  qengine :: "search \<Rightarrow> search" \<comment> \<open>\<open>oldSizzle\<close>, which calls the new \<open>Sizzle\<close>\<close>
  qpseudoWorks :: bool
  qdisconnectedMatch :: bool
  qinDocument :: "nat \<Rightarrow> bool" \<comment> \<open>\<open>node.document\<close> is there and not a fragment\<close>

section \<open>Expressions\<close>

definition rquick :: re where
  "rquick = alts_of
     [Seq Bol (Grp 1 (Seq (some (Cls False [Word])) Eol)),
      seqs [Bol, ch CHR ''.'', Grp 2 (Seq (some (Cls False [Word, cset.One CHR ''-''])) Eol)],
      seqs [Bol, ch CHR ''#'', Grp 3 (Seq (some (Cls False [Word, cset.One CHR ''-''])) Eol)]]"

definition rhierarchy :: re where
  "rhierarchy = seqs [Bol, many (Cls False [Space]), Cls False [cset.One CHR ''+'', cset.One CHR ''~'']]"

definition apostrophe :: char where
  "apostrophe = CHR 0x27"

definition rattrValue :: re where
  "rattrValue = seqs [ch CHR ''='', many (Cls False [Space]), Grp 1 (many (Cls True [cset.One apostrophe, cset.One quote, cset.One CHR '']''])),
     many (Cls False [Space]), ch CHR '']'']"

section \<open>Sizzle over the browser's search\<close>

definition escape_quotes :: "string \<Rightarrow> string" where
  "escape_quotes s = concat (map (\<lambda>c. if c = apostrophe then [backslash, c] else [c]) s)"

definition sizzle_id :: string where
  "sizzle_id = ''__sizzle__''"

definition scoped :: "string \<Rightarrow> string \<Rightarrow> string" where
  "scoped nid query = ''[id='' @ [apostrophe] @ nid @ [apostrophe] @ ''] '' @ query"

text \<open>\<open>makeArray\<close>\<close>

definition make_array :: "nat list \<Rightarrow> nat list \<Rightarrow> nat list" where
  "make_array found results = results @ found"

text \<open>
  The branch for an element: the id is set or taken as it is, the browser searches, and in the end a new id
  is taken away. The result is what was found, if the search was made and did not throw; the context, which the branch may have
  changed; and the ids.
\<close>

definition search_element :: "qhost \<Rightarrow> string \<Rightarrow> nat \<Rightarrow> ids \<Rightarrow> nat list option \<times> nat \<times> ids" where
  "search_element h query c w =
     (let old = w c;
          fresh = (old = None \<or> old = Some []);
          nid = (if fresh then sizzle_id else escape_quotes (the old));
          w1 = (if fresh then w(c := Some sizzle_id) else w);
          relative = test rhierarchy query;
          c1 = (if relative then (case qparent h c of Some p \<Rightarrow> p | None \<Rightarrow> c) else c);
          r = (if \<not> relative \<or> qparent h c \<noteq> None then qall h w1 c1 (scoped nid query) else None)
      in (r, c1, if fresh then w1(c := None) else w1))"

text \<open>The branch for a document: \<open>None\<close> when the browser's search throws.\<close>

definition search_document :: "qhost \<Rightarrow> string \<Rightarrow> found option \<Rightarrow> nat \<Rightarrow> ids \<Rightarrow> nat list option" where
  "search_document h query m c w =
     (if query = ''body'' \<and> qbody h c \<noteq> None then Some [the (qbody h c)]
      else case m of
          Some f \<Rightarrow>
            (if gtext f 3 \<noteq> [] then
               (case qbyId h w c (gtext f 3) of
                  Some e \<Rightarrow>
                    (if qparent h e = None then Some []
                     else if w e = Some (gtext f 3) then Some [e]
                     else qall h w c query)
                | None \<Rightarrow> Some [])
             else qall h w c query)
        | None \<Rightarrow> qall h w c query)"

text \<open>The tag or class that the query is, when the browser is asked for it at once.\<close>

definition search_name :: "qhost \<Rightarrow> string \<Rightarrow> found option \<Rightarrow> nat \<Rightarrow> nat list option" where
  "search_name h query m c =
     (case m of
        None \<Rightarrow> None
      | Some f \<Rightarrow>
          (if qtype h c \<noteq> 1 \<and> qtype h c \<noteq> 9 then None
           else if gtext f 1 \<noteq> [] then Some (qtags h c query)
           else if gtext f 2 \<noteq> [] then map_option (\<lambda>by. by c (gtext f 2)) (qclasses h)
           else None))"

definition qsa_body :: "qhost \<Rightarrow> search \<Rightarrow> search" where
  "qsa_body h siz query context extra seed w =
     (let c = (case context of Some n \<Rightarrow> n | None \<Rightarrow> qdocument h);
          give = (\<lambda>ns w. (Some (make_array ns extra), w));
          fall_back = (\<lambda>c w. qengine h siz query (Some c) extra seed w)
      in if seed \<noteq> None \<or> qxml h c then fall_back c w
         else let m = exec rquick query
              in case search_name h query m c of
                  Some ns \<Rightarrow> give ns w
                | None \<Rightarrow>
                    (if qtype h c = 9 then
                       (case search_document h query m c w of Some ns \<Rightarrow> give ns w | None \<Rightarrow> fall_back c w)
                     else if qtype h c = 1 \<and> to_lower (qname h c) \<noteq> ''object'' then
                       (case search_element h query c w of
                          (Some ns, c1, w1) \<Rightarrow> give ns w1
                        | (None, c1, w1) \<Rightarrow> fall_back c1 w1)
                     else fall_back c w))"

text \<open>The fuel is the depth of the calls; a search that runs out of it counts as one that throws.\<close>

primrec qsa_Sizzle :: "nat \<Rightarrow> qhost \<Rightarrow> search" where
  "qsa_Sizzle 0 h = (\<lambda>query context extra seed w. (None, w))"
| "qsa_Sizzle (Suc n) h = qsa_body h (qsa_Sizzle n h)"

section \<open>matchesSelector\<close>

text \<open>The values of attribute selectors are put in quotation marks.\<close>

definition quote_values :: "string \<Rightarrow> string" where
  "quote_values expr = replace_from rattrValue
     (\<lambda>m. ''='' @ [apostrophe] @ (case map_of (caps m) 1 of Some v \<Rightarrow> v | None \<Rightarrow> []) @ [apostrophe] @ '']'') 0 expr"

definition matchesSelector :: "qhost \<Rightarrow> search \<Rightarrow> nat \<Rightarrow> string \<Rightarrow> ids \<Rightarrow> bool option \<times> ids" where
  "matchesSelector h siz node expr w =
     (let q = quote_values expr;
          slow = (let (r, w1) = siz q None [] (Some [node]) w in (map_option (\<lambda>ns. ns \<noteq> []) r, w1));
          asked = (if qpseudoWorks h \<or> \<not> test (match_re PSEUDO) q \<and> \<not> has_part ''!='' q then qmatches h node q else None)
      in if qxml h node then slow
         else case asked of
             Some r \<Rightarrow> if r \<or> \<not> qdisconnectedMatch h \<or> qinDocument h node then (Some r, w) else slow
           | None \<Rightarrow> slow)"

section \<open>Searches that replace others\<close>

text \<open>Where \<open>getElementById\<close> finds by name too; the outer option is \<open>None\<close> when nothing is returned.\<close>

definition find_ID :: "qhost \<Rightarrow> string \<Rightarrow> nat \<Rightarrow> bool \<Rightarrow> ids \<Rightarrow> nat list option" where
  "find_ID h i c isXML w =
     (if qtype h c = 9 \<and> \<not> isXML
      then (case qbyId h w c i of
              Some e \<Rightarrow> (if w e = Some i then Some [e] else None)
            | None \<Rightarrow> Some [])
      else None)"

definition filter_ID :: "qhost \<Rightarrow> nat \<Rightarrow> string \<Rightarrow> ids \<Rightarrow> bool" where
  "filter_ID h e i w \<longleftrightarrow> qtype h e = 1 \<and> w e = Some i"

text \<open>Where \<open>getElementsByTagName("*")\<close> finds comments.\<close>

definition find_TAG :: "qhost \<Rightarrow> string \<Rightarrow> nat \<Rightarrow> nat list" where
  "find_TAG h t c = (if t = ''*'' then filter (\<lambda>e. qtype h e = 1) (qtags h c t) else qtags h c t)"

definition find_CLASS :: "qhost \<Rightarrow> string \<Rightarrow> nat \<Rightarrow> bool \<Rightarrow> nat list option" where
  "find_CLASS h t c isXML = (if isXML then None else map_option (\<lambda>by. by c t) (qclasses h))"

section \<open>What the function keeps\<close>

lemma search_element_ids:
  assumes "search_element h query c w = (r, c1, w1)"
  shows "w1 = (if w c = Some [] then w(c := None) else w)"
  using assms by (auto simp: search_element_def Let_def)

text \<open>The ids that calls of a search can lead to, and an engine that changes ids only through the searches it calls.\<close>

inductive_set id_steps :: "search \<Rightarrow> (ids \<times> ids) set" for siz where
  id_step: "(w, snd (siz query context extra seed w)) \<in> id_steps siz"

definition through_calls :: "(search \<Rightarrow> search) \<Rightarrow> bool" where
  "through_calls eng \<longleftrightarrow> (\<forall>siz query context extra seed w. (w, snd (eng siz query context extra seed w)) \<in> (id_steps siz)\<^sup>*)"

definition ids_kept :: "(ids \<times> ids) set" where
  "ids_kept = {(w, w'). \<forall>e. w' e = w e \<or> w e = Some [] \<and> w' e = None}"

lemma kept_trans: "(u, v) \<in> ids_kept \<Longrightarrow> (v, w) \<in> ids_kept \<Longrightarrow> (u, w) \<in> ids_kept"
  by (simp add: ids_kept_def) (metis option.distinct(1))

lemma kept_rtrancl: "(v, w) \<in> S\<^sup>* \<Longrightarrow> S \<subseteq> ids_kept \<Longrightarrow> (v, w) \<in> ids_kept"
proof (induction rule: rtrancl_induct)
  case (step x y)
  then show ?case using kept_trans by blast
qed (simp add: ids_kept_def)

lemma qsa_body_keeps:
  assumes "through_calls (qengine h)" and "id_steps siz \<subseteq> ids_kept"
  shows "(w, snd (qsa_body h siz query context extra seed w)) \<in> ids_kept"
proof -
  have eng: "(v, snd (qengine h siz query c extra sd v)) \<in> ids_kept" for c sd and v :: ids
    using assms(1) kept_rtrancl[OF _ assms(2)] unfolding through_calls_def by blast
  define c where "c = (case context of Some n \<Rightarrow> n | None \<Rightarrow> qdocument h)"
  obtain r c1 w1 where s: "search_element h query c w = (r, c1, w1)" by (cases "search_element h query c w")
  have w1: "w1 = (if w c = Some [] then w(c := None) else w)" by (rule search_element_ids[OF s])
  then have k: "(w, w1) \<in> ids_kept" "(w, w) \<in> ids_kept" by (auto simp: ids_kept_def)
  then have f: "(w, snd (qengine h siz query c extra sd w1)) \<in> ids_kept" for c sd
    using eng[of w1 c sd] kept_trans by blast
  show ?thesis
    using k f eng[of w] unfolding qsa_body_def c_def[symmetric] by (simp add: Let_def s split: option.split)
qed

text \<open>
  C15: when the engine changes ids only through the searches it calls, a search leaves the ids of all nodes as they were, whatever it
  finds, and also when the browser throws and the engine searches again from other elements, with one exception: elements whose
  attribute \<open>id\<close> is there but empty may lose it.
\<close>

theorem search_leaves_ids:
  assumes "through_calls (qengine h)"
  shows "snd (qsa_Sizzle n h query context extra seed w) e = w e \<or>
    w e = Some [] \<and> snd (qsa_Sizzle n h query context extra seed w) e = None"
proof -
  have "(v, snd (qsa_Sizzle n h q c x s v)) \<in> ids_kept" for q c x s v
  proof (induction n arbitrary: q c x s v)
    case (Suc n)
    have "id_steps (qsa_Sizzle n h) \<subseteq> ids_kept" using Suc by (auto elim: id_steps.cases)
    then show ?case using qsa_body_keeps[OF assms] by simp
  qed (simp add: ids_kept_def)
  then show ?thesis by (simp add: ids_kept_def)
qed

text \<open>
  When the browser throws on a query that begins with \<open>+\<close> or \<open>~\<close>, as it does for the positions and other pseudo
  classes that only the engine knows, the engine gets the parent of the element as context: it looks for the siblings of the parent.
\<close>

theorem engine_gets_the_parent:
  assumes "qtype h c = 1" "to_lower (qname h c) \<noteq> ''object''" "\<not> qxml h c" "w c = Some i" "i \<noteq> []"
    and "test rhierarchy query" "exec rquick query = None" "qparent h c = Some p" "qall h w p (scoped (escape_quotes i) query) = None"
  shows "qsa_body h siz query (Some c) extra None w = qengine h siz query (Some p) extra None w"
proof -
  have "search_element h query c w = (None, p, w)"
    using assms(4-6,8,9) by (simp add: search_element_def)
  moreover have "search_name h query (exec rquick query) c = None" by (simp add: search_name_def assms(7))
  ultimately show ?thesis using assms(1-3) by (simp only: qsa_body_def Let_def) simp
qed

section \<open>Examples\<close>

text \<open>
  A document 0 with the paragraphs 1 and 2; the browser knows \<open>b\<close> but not \<open>:has\<close>, for which the engine calls the search again
  from each paragraph.
\<close>

definition has_engine :: "search \<Rightarrow> search" where
  "has_engine siz query context extra seed w =
     (if query = ''p:has(b)'' then
        (case siz ''b i'' (Some 1) [] None w of (r1, w1) \<Rightarrow> case siz ''b i'' (Some 2) [] None w1 of (r2, w2) \<Rightarrow>
           (Some (extra @ (if r1 = Some [] then [] else [1]) @ (if r2 = Some [] then [] else [2])), w2))
      else (None, w))"

definition two_paragraphs :: qhost where
  "two_paragraphs = \<lparr>qdocument = 0, qtype = (\<lambda>n. if n = 0 then 9 else 1), qname = (\<lambda>n. ''P''), qparent = (\<lambda>n. Some 0), qbody = (\<lambda>n. None),
     qxml = (\<lambda>n. False), qtags = (\<lambda>c t. []), qclasses = None, qbyId = (\<lambda>w c i. None),
     qall = (\<lambda>w c q. if q = ''p:has(b)'' then None else Some (if c = 2 then [3] else [])),
     qmatches = (\<lambda>n q. None), qengine = has_engine, qpseudoWorks = True, qdisconnectedMatch = False, qinDocument = (\<lambda>n. True)\<rparr>"

lemma has_engine_through: "through_calls has_engine"
proof -
  have "(w, snd (has_engine siz query context extra seed w)) \<in> (id_steps siz)\<^sup>*" for siz query extra seed w and "context" :: "nat option"
  proof -
    let ?w1 = "snd (siz ''b i'' (Some 1) [] None w)"
    have "(w, ?w1) \<in> id_steps siz" "(?w1, snd (siz ''b i'' (Some 2) [] None ?w1)) \<in> id_steps siz" by (rule id_step)+
    then have "(w, snd (siz ''b i'' (Some 2) [] None ?w1)) \<in> (id_steps siz)\<^sup>*" by (meson rtrancl.simps r_into_rtrancl)
    then show ?thesis by (simp add: has_engine_def split_beta)
  qed
  then show ?thesis by (simp add: through_calls_def)
qed

definition empty_and_named :: ids where
  "empty_and_named n = (if n = 1 then Some [] else if n = 2 then Some ''x'' else None)"

text \<open>The search finds the second paragraph, and the first loses its empty attribute.\<close>

lemma search_example:
  "let r = qsa_Sizzle 2 two_paragraphs ''p:has(b)'' None [] None empty_and_named
   in fst r = Some [2] \<and> snd r 1 = None"
  by code_simp

theorem search_leaves_ids_witness:
  "snd (qsa_Sizzle 2 two_paragraphs ''p:has(b)'' None [] None empty_and_named) 2 = Some ''x''"
  using search_leaves_ids[of two_paragraphs 2 "''p:has(b)''" None "[]" None empty_and_named 2] has_engine_through
  by (simp add: two_paragraphs_def empty_and_named_def del: qsa_Sizzle.simps)

lemma quoting: "quote_values ''a[b=c d ]:x'' = ''a[b='' @ [apostrophe] @ ''c d '' @ [apostrophe] @ '']:x''"
  by code_simp

end
