(* ===== verification/JQ_Special.thy ===== *)
theory JQ_Special
  imports JQ_Trigger
begin

text \<open>
  The special events of jquery-1.6.4.js for browsers in which \<open>submit\<close>, \<open>change\<close>, \<open>focus\<close> and \<open>blur\<close> do not bubble, and
  the methods named after events (\<open>click\<close>, \<open>focus\<close> and the others).

  The handlers are added to the registry of \<open>JQ_Event\<close> and the simulated events go through the dispatch of \<open>JQ_Trigger\<close>. What the
  controls of a form hold is an argument.
\<close>

section \<open>A simulated event\<close>

text \<open>\<open>event.originalEvent = {}\<close>\<close>

definition empty_native :: native_event where
  "empty_native = \<lparr>canPrevent = False, canStop = False, nPrevented = False, nStopped = False, returnValue = True, cancelBubble = False\<rparr>"

text \<open>The function \<open>trigger\<close> of the file: the donor is an event of another type. The result is the donor afterwards.\<close>

definition simulate :: "site \<Rightarrow> string \<Rightarrow> nat \<Rightarrow> event \<Rightarrow> world \<Rightarrow> (event \<times> world) outcome" where
  "simulate st ty elem donor w =
     (case event_handle st elem [] (donor\<lparr>etype := ty, originalEvent := Some empty_native, liveFired := None\<rparr>) w of
        Threw (x, ev, w1) \<Rightarrow> Threw (donor, w1)
      | Returned (x, ev, w1) \<Rightarrow> Returned (if isDefaultPrevented ev then preventDefault donor else donor, w1))"

section \<open>Controls of forms\<close>

record 'w controls =
  fname :: "nat \<Rightarrow> string"
  ftype :: "nat \<Rightarrow> string"
  freadOnly :: "nat \<Rightarrow> bool"
  finForm :: "nat \<Rightarrow> bool" \<comment> \<open>\<open>closest("form")\<close> finds one\<close>
  fvalue :: "'w \<Rightarrow> nat \<Rightarrow> jsval"
  fchecked :: "'w \<Rightarrow> nat \<Rightarrow> bool"
  findex :: "'w \<Rightarrow> nat \<Rightarrow> int" \<comment> \<open>\<open>selectedIndex\<close>\<close>
  fselected :: "'w \<Rightarrow> nat \<Rightarrow> bool list" \<comment> \<open>\<open>selected\<close> of the options\<close>

definition is_named :: "'w controls \<Rightarrow> string \<Rightarrow> nat \<Rightarrow> bool" where
  "is_named c n e \<longleftrightarrow> to_lower (fname c e) = n"

definition rformElems :: "string \<Rightarrow> bool" where
  "rformElems s \<longleftrightarrow> to_lower s \<in> {''textarea'', ''input'', ''select''}"

section \<open>submit\<close>

definition button_type :: "'w controls \<Rightarrow> nat \<Rightarrow> string" where
  "button_type c e = (if is_named c ''input'' e \<or> is_named c ''button'' e then ftype c e else [])"

definition submit_click :: "'w controls \<Rightarrow> site \<Rightarrow> nat \<Rightarrow> event \<Rightarrow> world \<Rightarrow> (event \<times> world) outcome" where
  "submit_click c st this ev w =
     (let ty = button_type c (target ev)
      in if (ty = ''submit'' \<or> ty = ''image'') \<and> finForm c (target ev) then simulate st ''submit'' this ev w
         else Returned (ev, w))"

definition submit_key :: "'w controls \<Rightarrow> site \<Rightarrow> nat \<Rightarrow> int \<Rightarrow> event \<Rightarrow> world \<Rightarrow> (event \<times> world) outcome" where
  "submit_key c st this keyCode ev w =
     (let ty = button_type c (target ev)
      in if (ty = ''text'' \<or> ty = ''password'') \<and> finForm c (target ev) \<and> keyCode = 13 then simulate st ''submit'' this ev w
         else Returned (ev, w))"

text \<open>
  The hooks; \<open>onclick\<close> and \<open>onkey\<close> are the two functions that \<open>setup\<close> makes. As in \<open>JQ_Event\<close> the first result of a hook tells
  whether it returned something else than false.
\<close>

definition submit_setup :: "'w controls \<Rightarrow> page \<Rightarrow> nat \<Rightarrow> nat \<Rightarrow> nat \<Rightarrow> estate \<Rightarrow> (bool \<times> estate) option" where
  "submit_setup c pg onclick onkey e s =
     (if is_named c ''form'' e then Some (False, s)
      else do {
        s1 \<leftarrow> event_add pg e ''click.specialSubmit'' (HFun onclick) Undefined s;
        s2 \<leftarrow> event_add pg e ''keypress.specialSubmit'' (HFun onkey) Undefined s1;
        Some (True, s2)
      })"

definition submit_teardown :: "page \<Rightarrow> nat \<Rightarrow> nat \<Rightarrow> estate \<Rightarrow> (bool \<times> estate) option" where
  "submit_teardown pg n e s = do {
     s1 \<leftarrow> event_remove pg n e (RTypes ''.specialSubmit'') HNone None s;
     Some (True, s1)
   }"

section \<open>change\<close>

record 'w cworld =
  change_data :: "nat \<Rightarrow> jsval" \<comment> \<open>the private datum \<open>_change_data\<close>, undefined for none\<close>
  controls_of :: 'w

fun dashes :: "string list \<Rightarrow> string" where
  "dashes [] = []"
| "dashes [x] = x"
| "dashes (x # y # ys) = x @ ''-'' @ dashes (y # ys)"

definition input_type :: "'w controls \<Rightarrow> nat \<Rightarrow> string" where
  "input_type c e = (if is_named c ''input'' e then ftype c e else [])"

definition getVal :: "'w controls \<Rightarrow> 'w \<Rightarrow> nat \<Rightarrow> jsval" where
  "getVal c w e =
     (let ty = input_type c e
      in if ty = ''radio'' \<or> ty = ''checkbox'' then Bool (fchecked c w e)
         else if ty = ''select-multiple''
         then (if findex c w e > -1 then Str (dashes (map (\<lambda>b. if b then ''true'' else ''false'') (fselected c w e))) else Str [])
         else if is_named c ''select'' e then Num (findex c w e)
         else fvalue c w e)"

text \<open>\<open>_data\<close> with an undefined value only reads.\<close>

definition put_change :: "nat \<Rightarrow> jsval \<Rightarrow> 'w cworld \<Rightarrow> 'w cworld" where
  "put_change e v w = (if v = Undefined then w else w\<lparr>change_data := (change_data w)(e := v)\<rparr>)"

definition testChange :: "'w controls \<Rightarrow> (event \<Rightarrow> nat \<Rightarrow> 'w cworld \<Rightarrow> 'w cworld) \<Rightarrow> event \<Rightarrow> 'w cworld \<Rightarrow> 'w cworld" where
  "testChange c trig ev w =
     (let e = target ev
      in if \<not> rformElems (fname c e) \<or> freadOnly c e then w
         else let data = change_data w e;
                  val = getVal c (controls_of w) e;
                  w1 = (if etype ev \<noteq> ''focusout'' \<or> ftype c e \<noteq> ''radio'' then put_change e val w else w)
              in if data = Undefined \<or> val = data then w1
                 else if \<not> nullish data \<or> truthy val
                 then trig (ev\<lparr>etype := ''change'', liveFired := None\<rparr>) e w1
                 else w1)"

text \<open>The filters by their type; \<open>keyCode\<close> is used by \<open>keydown\<close> only.\<close>

definition changeFilter :: "'w controls \<Rightarrow> (event \<Rightarrow> nat \<Rightarrow> 'w cworld \<Rightarrow> 'w cworld) \<Rightarrow> string \<Rightarrow> int \<Rightarrow> event \<Rightarrow> 'w cworld \<Rightarrow> 'w cworld" where
  "changeFilter c trig ty keyCode ev w =
     (let e = target ev; it = input_type c e
      in if ty = ''focusout'' \<or> ty = ''beforedeactivate'' then testChange c trig ev w
         else if ty = ''click'' then
           (if it = ''radio'' \<or> it = ''checkbox'' \<or> is_named c ''select'' e then testChange c trig ev w else w)
         else if ty = ''keydown'' then
           (if keyCode = 13 \<and> \<not> is_named c ''textarea'' e \<or> keyCode = 32 \<and> (it = ''checkbox'' \<or> it = ''radio'') \<or> it = ''select-multiple''
            then testChange c trig ev w else w)
         else if ty = ''beforeactivate'' \<or> ty = ''focus'' then put_change e (getVal c (controls_of w) e) w
         else w)"

definition changeFilters :: "string list" where
  "changeFilters = [''focusout'', ''beforedeactivate'', ''click'', ''keydown'', ''beforeactivate'', ''focus'']"

text \<open>\<open>filters\<close> gives the function of each type.\<close>

fun add_filters :: "page \<Rightarrow> nat \<Rightarrow> (string \<Rightarrow> nat) \<Rightarrow> string list \<Rightarrow> estate \<Rightarrow> estate option" where
  "add_filters pg e filters [] s = Some s"
| "add_filters pg e filters (t # ts) s = do {
     s1 \<leftarrow> event_add pg e (t @ ''.specialChange'') (HFun (filters t)) Undefined s;
     add_filters pg e filters ts s1
   }"

definition change_setup :: "'w controls \<Rightarrow> page \<Rightarrow> (string \<Rightarrow> nat) \<Rightarrow> nat \<Rightarrow> estate \<Rightarrow> (bool \<times> estate) option" where
  "change_setup c pg filters e s =
     (if ftype c e = ''file'' then Some (False, s)
      else do {
        s1 \<leftarrow> add_filters pg e filters changeFilters s;
        Some (rformElems (fname c e), s1)
      })"

definition change_teardown :: "'w controls \<Rightarrow> page \<Rightarrow> nat \<Rightarrow> nat \<Rightarrow> estate \<Rightarrow> (bool \<times> estate) option" where
  "change_teardown c pg n e s = do {
     s1 \<leftarrow> event_remove pg n e (RTypes ''.specialChange'') HNone None s;
     Some (rformElems (fname c e), s1)
   }"

section \<open>focusin and focusout\<close>

record fstate =
  attaches :: int
  capturing :: bool \<comment> \<open>the document has the capturing listener\<close>

definition focus_setup :: "fstate \<Rightarrow> fstate" where
  "focus_setup s = s\<lparr>attaches := attaches s + 1, capturing := (capturing s \<or> attaches s = 0)\<rparr>"

definition focus_teardown :: "fstate \<Rightarrow> fstate" where
  "focus_teardown s = s\<lparr>attaches := attaches s - 1, capturing := (capturing s \<and> attaches s - 1 \<noteq> 0)\<rparr>"

text \<open>
  The capturing handler: \<open>e\<close> is the browser's event after \<open>jQuery.event.fix\<close>. The first result tells whether the
  browser's own action is to be prevented.
\<close>

definition focus_handler :: "site \<Rightarrow> string \<Rightarrow> event \<Rightarrow> world \<Rightarrow> (bool \<times> world) outcome option" where
  "focus_handler st fix e w =
     (case trigger_at st (TEvent (e\<lparr>etype := fix, originalEvent := Some empty_native\<rparr>)) [] (target e) False w of
        None \<Rightarrow> None
      | Some (Threw (x, ev, w1)) \<Rightarrow> Some (Threw (False, w1))
      | Some (Returned (x, ev, w1)) \<Rightarrow>
          Some (Returned ((case ev of Some e1 \<Rightarrow> isDefaultPrevented e1 | None \<Rightarrow> isDefaultPrevented e), w1)))"

section \<open>Methods named after events\<close>

datatype margs = NoArgs | OneArg harg | TwoArgs jsval harg

definition event_method :: "site \<Rightarrow> string \<Rightarrow> margs \<Rightarrow> nat list \<Rightarrow> world \<Rightarrow> world outcome option" where
  "event_method st name a this w =
     (let bound = (\<lambda>data h. map_option (\<lambda>s. Returned (w\<lparr>reg := s\<rparr>)) (bind (dpage st) name data h this (reg w)))
      in case a of
          NoArgs \<Rightarrow> trigger_each st name [] this w
        | OneArg h \<Rightarrow> bound Null h
        | TwoArgs data h \<Rightarrow> bound data h)"

section \<open>The capturing listener\<close>

text \<open>
  The elements with handlers for the type: the registry calls \<open>setup\<close> for the first handler of an element and \<open>teardown\<close> when
  the last one is gone.
\<close>

inductive focus_reach :: "nat set \<Rightarrow> fstate \<Rightarrow> bool" where
  start: "focus_reach {} \<lparr>attaches = 0, capturing = False\<rparr>"
| first_handler: "focus_reach S s \<Longrightarrow> e \<notin> S \<Longrightarrow> focus_reach (insert e S) (focus_setup s)"
| last_handler: "focus_reach S s \<Longrightarrow> e \<in> S \<Longrightarrow> focus_reach (S - {e}) (focus_teardown s)"

text \<open>
  C?: The counter is the number of elements with handlers, and the document has the capturing listener
  exactly while there is one.
\<close>

theorem one_listener_while_wanted:
  assumes "focus_reach S s"
  shows "finite S \<and> attaches s = int (card S) \<and> capturing s = (S \<noteq> {})"
  using assms
proof (induction rule: focus_reach.induct)
  case (first_handler S s e)
  then show ?case by (auto simp: focus_setup_def)
next
  case (last_handler S s e)
  then obtain T where T: "S = insert e T" "e \<notin> T" by (meson Set.set_insert)
  then have "S - {e} = T" "finite T" using last_handler by auto
  then show ?case using last_handler T by (simp add: focus_teardown_def)
qed simp

section \<open>Which changes are seen\<close>

text \<open>A text control that holds a text, with the texts for which a change was triggered.\<close>

type_synonym typed = "string \<times> string list"

definition typing :: "string \<Rightarrow> typed cworld \<Rightarrow> typed cworld" where
  "typing v w = w\<lparr>controls_of := (v, snd (controls_of w))\<rparr>"

definition logging :: "event \<Rightarrow> nat \<Rightarrow> typed cworld \<Rightarrow> typed cworld" where
  "logging ev e w = w\<lparr>controls_of := (fst (controls_of w), snd (controls_of w) @ [fst (controls_of w)])\<rparr>"

definition text_control :: "typed controls \<Rightarrow> nat \<Rightarrow> bool" where
  "text_control c e \<longleftrightarrow> rformElems (fname c e) \<and> \<not> freadOnly c e \<and> ftype c e \<noteq> ''radio'' \<and>
     (\<forall>w. getVal c w e = Str (fst w))"

definition checks :: "typed controls \<Rightarrow> event \<Rightarrow> string list \<Rightarrow> typed cworld \<Rightarrow> typed cworld" where
  "checks c ev vs w = fold (\<lambda>v w. testChange c logging ev (typing v w)) vs w"

lemma check_once:
  assumes "text_control c (target ev)" "change_data w (target ev) = Str a"
  shows "change_data (testChange c logging ev (typing v w)) (target ev) = Str v \<and>
    snd (controls_of (testChange c logging ev (typing v w))) = snd (controls_of w) @ (if a = v then [] else [v])"
  using assms by (auto simp: text_control_def testChange_def Let_def typing_def logging_def put_change_def)

text \<open>
  C25: The change events of a text control are the differences between what one check saw and the next: whatever is
  typed and whichever events make the checks, a text is reported when it is not the one of the check before, and only then.
\<close>

theorem changes_are_differences:
  assumes "text_control c (target ev)" "change_data w (target ev) = Str a"
  shows "snd (controls_of (checks c ev vs w)) = snd (controls_of w) @ map snd (filter (\<lambda>(x, y). x \<noteq> y) (zip (a # vs) vs))"
  using assms(2)
proof (induction vs arbitrary: w a)
  case Nil
  then show ?case by (simp add: checks_def)
next
  case (Cons v vs)
  let ?w = "testChange c logging ev (typing v w)"
  have "change_data ?w (target ev) = Str v" "snd (controls_of ?w) = snd (controls_of w) @ (if a = v then [] else [v])"
    using check_once[OF assms(1) Cons.prems] by blast+
  then show ?case using Cons.IH[of ?w v] by (simp add: checks_def)
qed

text \<open>
  The type of a control is only asked for when it is an input, so the branch for selects of several choices is
  never taken: a change that leaves the first chosen option as it was is not seen.
\<close>

theorem choices_behind_the_first_are_missed:
  assumes "is_named c ''select'' e" "e = target ev" "findex c (controls_of w) e = i" "change_data w e = Num i"
  shows "testChange c trig ev w = w"
proof -
  have "input_type c e = []" using assms(1) by (simp add: input_type_def is_named_def)
  then have "getVal c (controls_of w) e = Num i" using assms by (simp add: getVal_def Let_def)
  then show ?thesis
    using assms(2,4) by (auto simp: testChange_def Let_def put_change_def fun_upd_idem)
qed

section \<open>The hooks and the registry\<close>

lemma event_add_keeps:
  assumes "unhooked pg types" "ev_inv pg s" "\<not> is_text pg e" "accepts pg e"
  shows "\<exists>s'. event_add pg e types (HFun f) data s = Some s' \<and> ev_inv pg s' \<and>
    (\<forall>e'. e' \<noteq> e \<longrightarrow> pdata s' e' = pdata s e' \<and> native s' e' = native s e')"
proof -
  have "fun_of (HFun f) = Some f" by (simp add: fun_of_def)
  from event_add_adds[OF assms(1,2) this assms(3,4)] show ?thesis by blast
qed

lemma add_filters_keep:
  assumes "\<not> is_text pg e" "accepts pg e"
  shows "\<forall>t\<in>set ts. unhooked pg (t @ ''.specialChange'') \<Longrightarrow> ev_inv pg s \<Longrightarrow> \<exists>s'. add_filters pg e filters ts s = Some s' \<and> ev_inv pg s' \<and>
    (\<forall>e'. e' \<noteq> e \<longrightarrow> pdata s' e' = pdata s e' \<and> native s' e' = native s e')"
proof (induction ts arbitrary: s)
  case (Cons t ts)
  obtain s1 where s1: "event_add pg e (t @ ''.specialChange'') (HFun (filters t)) Undefined s = Some s1" "ev_inv pg s1"
      "\<forall>e'. e' \<noteq> e \<longrightarrow> pdata s1 e' = pdata s e' \<and> native s1 e' = native s e'"
    using event_add_keeps[OF _ Cons.prems(2) assms] Cons.prems(1) by (meson list.set_intros(1))
  from Cons.IH[OF _ s1(2)] Cons.prems(1) obtain s' where s': "add_filters pg e filters ts s1 = Some s'" "ev_inv pg s'"
      "\<forall>e'. e' \<noteq> e \<longrightarrow> pdata s' e' = pdata s1 e' \<and> native s' e' = native s1 e'" by auto
  then show ?case using s1 by simp
qed simp

text \<open>The setup hooks of \<open>submit\<close> and \<open>change\<close> end, keep the invariant of the registry and touch no other element.\<close>

theorem special_setups_keep_registry:
  assumes "\<forall>t\<in>set changeFilters. unhooked pg (t @ ''.specialChange'')"
    "unhooked pg ''click.specialSubmit''" "unhooked pg ''keypress.specialSubmit''"
    and elem: "\<not> is_text pg e" "accepts pg e" and inv: "ev_inv pg s"
  shows "\<exists>s'. submit_setup c pg f g e s = Some (\<not> is_named c ''form'' e, s') \<and> ev_inv pg s' \<and>
      (\<forall>e'. e' \<noteq> e \<longrightarrow> pdata s' e' = pdata s e' \<and> native s' e' = native s e')"
    and "\<exists>b s'. change_setup c pg filters e s = Some (b, s') \<and> ev_inv pg s' \<and>
      (\<forall>e'. e' \<noteq> e \<longrightarrow> pdata s' e' = pdata s e' \<and> native s' e' = native s e')"
proof -
  show "\<exists>s'. submit_setup c pg f g e s = Some (\<not> is_named c ''form'' e, s') \<and> ev_inv pg s' \<and>
      (\<forall>e'. e' \<noteq> e \<longrightarrow> pdata s' e' = pdata s e' \<and> native s' e' = native s e')"
  proof (cases "is_named c ''form'' e")
    case False
    obtain s1 where s1: "event_add pg e ''click.specialSubmit'' (HFun f) Undefined s = Some s1" "ev_inv pg s1"
        "\<forall>e'. e' \<noteq> e \<longrightarrow> pdata s1 e' = pdata s e' \<and> native s1 e' = native s e'"
      using event_add_keeps[OF assms(2) inv elem] by blast
    obtain s2 where s2: "event_add pg e ''keypress.specialSubmit'' (HFun g) Undefined s1 = Some s2" "ev_inv pg s2"
        "\<forall>e'. e' \<noteq> e \<longrightarrow> pdata s2 e' = pdata s1 e' \<and> native s2 e' = native s1 e'"
      using event_add_keeps[OF assms(3) s1(2) elem] by blast
    show ?thesis using s1 s2 False by (simp add: submit_setup_def)
  qed (simp add: submit_setup_def inv)
  show "\<exists>b s'. change_setup c pg filters e s = Some (b, s') \<and> ev_inv pg s' \<and>
      (\<forall>e'. e' \<noteq> e \<longrightarrow> pdata s' e' = pdata s e' \<and> native s' e' = native s e')"
    using add_filters_keep[OF elem assms(1) inv, of filters] inv by (auto simp: change_setup_def)
qed

section \<open>Examples\<close>

lemma one_listener_while_wanted_witness:
  "capturing (focus_teardown (focus_setup (focus_setup \<lparr>attaches = 0, capturing = False\<rparr>))) = True"
proof -
  have "focus_reach ({1, 2} - {1}) (focus_teardown (focus_setup (focus_setup \<lparr>attaches = 0, capturing = False\<rparr>)))"
    by (intro focus_reach.last_handler focus_reach.first_handler focus_reach.start) simp_all
  from one_listener_while_wanted[OF this] show ?thesis by simp
qed

definition one_input :: "typed controls" where
  "one_input = \<lparr>fname = (\<lambda>e. ''INPUT''), ftype = (\<lambda>e. ''text''), freadOnly = (\<lambda>e. False), finForm = (\<lambda>e. True),
     fvalue = (\<lambda>w e. Str (fst w)), fchecked = (\<lambda>w e. False), findex = (\<lambda>w e. 0), fselected = (\<lambda>w e. [])\<rparr>"

lemma changes_are_differences_witness:
  "snd (controls_of (checks one_input (new_event ''focusout'') [''a'', ''b'', ''b'', ''a'']
     \<lparr>change_data = (\<lambda>e. Str ''a''), controls_of = (''a'', [])\<rparr>)) = [''b'', ''a'']"
proof -
  have i: "to_lower ''INPUT'' = ''input''" by code_simp
  have "text_control one_input (target (new_event ''focusout''))"
    using i by (simp add: text_control_def one_input_def rformElems_def getVal_def input_type_def is_named_def)
  from changes_are_differences[OF this, of "\<lparr>change_data = (\<lambda>e. Str ''a''), controls_of = (''a'', [])\<rparr>" "''a''" "[''a'', ''b'', ''b'', ''a'']"]
  show ?thesis by simp
qed

end
