(* ===== verification/Spec2Isabelle.thy ===== *)
theory Spec2Isabelle
  imports JQ_Deferred JQ_Queue JQ_Extend JQ_Util JQ_Traverse JQ_Match JQ_Trigger JQ_Live JQ_Attr JQ_Moves JQ_Fx JQ_Ajax JQ_Transport JQ_Load JQ_Offset JQ_Qsa JQ_Special
begin

text \<open>
  The repository integrates the NCache distributed cache into .NET frameworks. Its programs are C#
  adapters over the client library of NCache, which is not in the repository, and the browser code that
  its web applications ship. By far the largest share of its source is that browser code, and
  the script that the SignalR integration serves, src/AspNet.SignalR/SignalR.NCache/Scripts/jquery-1.6.4.js, is
  what this library models and verifies. Names of functions below are those of that file; its line numbers
  are in the manifest beside this library.

  \<^bold>\<open>The program and its parts.\<close> The script is one closure with a few pieces of state shared by its components:
  a table from numbers to the data of elements (\<open>jQuery.cache\<close>, with the number of an element in its expando
  property), a counter of numbers for functions (\<open>jQuery.guid\<close>), a list of running animations (\<open>jQuery.timers\<close>),
  tables of request prefilters and transports, and a counter of running requests (\<open>jQuery.active\<close>). The data store
  carries the function queues and the event handlers of each element. The callback lists (\<open>_Deferred\<close>) carry the ready
  event, the ends of queues and the life of a request. The queues carry the animations. The browser and
  the functions of the user are outside; they are arguments of the definitions. The traversing methods and the events take the
  answers of the selector engine as arguments too, and \<open>JQ_Sizzle\<close> models that engine by itself.

  \<^bold>\<open>Theories.\<close>

    \<^item> \<open>JQ_Prelude\<close>: values, truth and null tests, returning and throwing, objects as association lists in insertion
      order, the locale \<open>keyed_store\<close> of stores read by key and its interpretation on objects, characters and decimals.
    \<^item> \<open>JQ_Deferred\<close>: \<open>_Deferred\<close> (done, resolveWith, cancel), \<open>Deferred\<close> (then, fail, always, pipe), \<open>when\<close>. A state \<open>world\<close>
      holds all callback lists; user functions are programs (\<open>prog\<close>) that may call back. Shown: one firing for each
      list, never both resolved and rejected, order, exceptions, late registration, \<open>when\<close>.
    \<^item> \<open>JQ_Data\<close>: \<open>jQuery.data\<close>, \<open>removeData\<close>, \<open>hasData\<close>, \<open>acceptData\<close>, \<open>camelCase\<close>, \<open>fn.data\<close> with the data- attributes. Shown:
      the store invariant, locality, the round trip of a value, what removal keeps, and a stale read after a bulk write.
      The locale \<open>private_store\<close> states what queues rely on; \<open>JQ_Data\<close> interprets it.
    \<^item> \<open>JQ_Queue\<close>: \<open>queue\<close>, \<open>dequeue\<close>, \<open>_mark\<close>, \<open>_unmark\<close>, \<open>clearQueue\<close>, \<open>promise\<close>, \<open>handleQueueMarkDefer\<close>. Queues are arrays in
      a store of their own, since the code keeps references to them. Shown: a refinement of abstract queues, first in
      first out, the fx sentinel, exceptions, the counting of busy elements.
    \<^item> \<open>JQ_Extend\<close>: \<open>type\<close>, \<open>isPlainObject\<close>, \<open>isEmptyObject\<close>, \<open>extend\<close> on a heap of objects. Shown: what a deep extend
      writes, when it returns and when it does not, what a shallow extend gives.
    \<^item> \<open>JQ_Util\<close>: \<open>each\<close>, \<open>map\<close>, \<open>grep\<close>, \<open>inArray\<close>, \<open>merge\<close>, \<open>makeArray\<close>, \<open>access\<close>, \<open>proxy\<close>, \<open>trim\<close>, the sets of elements,
      and the ready event (\<open>ready\<close>, \<open>holdReady\<close>, \<open>bindReady\<close>) as a step relation.
    \<^item> \<open>JQ_DOM\<close>, \<open>JQ_Traverse\<close>: documents, the loops \<open>dir\<close>, \<open>nth\<close>, \<open>sibling\<close>, \<open>sortOrder\<close> with \<open>siblingCheck\<close>, \<open>uniqueSort\<close>, \<open>getText\<close>; the
      methods \<open>filter\<close>, \<open>not\<close>, \<open>is\<close>, \<open>find\<close>, \<open>has\<close>, \<open>add\<close>, \<open>closest\<close>, \<open>index\<close> and the walks. Shown: sortOrder is document order,
      the loops end, closest finds the nearest, siblings are what comes before and after.
    \<^item> \<open>JQ_Class\<close>: \<open>addClass\<close>, \<open>removeClass\<close>, \<open>toggleClass\<close>, \<open>hasClass\<close> on class strings, and their meaning on lists of names.
    \<^item> \<open>JQ_Event\<close>: \<open>jQuery.event.add\<close> and \<open>remove\<close>, \<open>bind\<close>, \<open>one\<close>, \<open>unbind\<close>. Shown: an invariant that types the handlers, removal as a filter,
      the round trip of bind and unbind, the test of namespaces, and an unbinding that never ends.
    \<^item> \<open>JQ_Trigger\<close>: \<open>jQuery.Event\<close>, \<open>event.handle\<close>, \<open>trigger\<close>, \<open>triggerHandler\<close>, \<open>fix\<close>. Shown: the walk up a document ends and which stops it
      makes, the window is missed by events of the document, the global trigger.
    \<^item> \<open>JQ_Fx\<close>: \<open>jQuery.fx\<close> (custom, step, tick, stop), \<open>animate\<close>, \<open>speed\<close>, \<open>show\<close>, \<open>hide\<close>, \<open>toggle\<close>, \<open>fadeTo\<close>, \<open>stop\<close>. Shown: bounds of the animated value,
      a tick steps every timer, how a tick can drop a running one.
    \<^item> \<open>JQ_Ajax\<close>: \<open>ajaxPrefilter\<close> and \<open>ajaxTransport\<close> tables and their inspection, \<open>ajaxHandleResponses\<close>, \<open>ajaxConvert\<close>, \<open>param\<close>, and \<open>jQuery.ajax\<close> as a
      machine of events over many requests. Shown: inspection ends, when a conversion fails, the counter of running
      requests, and how an abort breaks it.
    \<^item> \<open>JQ_Live\<close>: \<open>live\<close>, \<open>die\<close>, \<open>delegate\<close>, \<open>undelegate\<close>, the hooks of \<open>jQuery.event.special.live\<close> on the registry, \<open>liveHandler\<close>, \<open>mouseenter\<close> and
      \<open>mouseleave\<close>, \<open>toggle\<close>, \<open>hover\<close>. Shown: the flat loop of \<open>liveHandler\<close> is a walk level by level, die undoes live, toggle takes turns.
    \<^item> \<open>JQ_Attr\<close>: \<open>attr\<close>, \<open>removeAttr\<close>, \<open>prop\<close>, \<open>removeProp\<close> with the tables of fixes and hooks, and \<open>val\<close>. Shown: the round trip of an attribute, what boolean
      attributes read as, the round trip of a select for several choices.
    \<^item> \<open>JQ_Manip\<close>, \<open>JQ_Moves\<close>: \<open>append\<close>, \<open>prepend\<close>, \<open>before\<close>, \<open>after\<close> and their reversed forms, \<open>remove\<close>, \<open>detach\<close>, \<open>empty\<close>, \<open>clone\<close>, \<open>text\<close>, \<open>html\<close>,
      \<open>replaceWith\<close>, \<open>wrapAll\<close>, \<open>wrapInner\<close>, \<open>unwrap\<close>, with \<open>domManip\<close>, \<open>buildFragment\<close>, \<open>clean\<close>, \<open>cleanData\<close>, \<open>cloneCopyEvent\<close>, on a world of
      the document, the registry and the cache of fragments. Shown: the document stays a forest under any calls, where
      inserted nodes come to be, what \<open>remove\<close> forgets, the round trip of text.
    \<^item> \<open>JQ_Regex\<close>, \<open>JQ_Sizzle\<close>, \<open>JQ_Match\<close>: a backtracking matcher of regular expressions, shown to give the first of all matches; the
      selector engine with its expressions: \<open>Sizzle\<close>, \<open>Sizzle.find\<close>, \<open>Sizzle.filter\<close>, the relations, \<open>dirCheck\<close>, \<open>dirNodeCheck\<close>, \<open>posProcess\<close>. Shown: the
      walks that share marks find the nearest node, \<open>:nth-child\<close>, the ending of its loops, and a selector without an end.
    \<^item> \<open>JQ_Transport\<close>: the transports by XMLHttpRequest (\<open>send\<close>, its callback, \<open>abort\<close>, \<open>xhrOnUnloadAbort\<close>), by a script element, and the jsonp
      prefilter, as machines of events of the browser and the page. Shown: one call of \<open>complete\<close> for each transport, and when there are two, the table of
      requests under way, the names in the window, what a jsonp request is resolved with (with \<open>done\<close> and \<open>ajaxConvert\<close> of \<open>JQ_Ajax\<close>).
    \<^item> \<open>JQ_Load\<close>: \<open>serialize\<close>, \<open>serializeArray\<close>, \<open>load\<close>, \<open>get\<close>, \<open>post\<close>, \<open>ajaxSetup\<close>. Shown: the text of a form is read back as its fields.
    \<^item> \<open>JQ_Css\<close>: \<open>style\<close>, \<open>css\<close>, \<open>fn.css\<close>, \<open>swap\<close>, the hooks, both ways to a computed style and \<open>getWH\<close>, on inline and runtime styles. Shown: a read leaves the styles
      as they were, sizes are nested by their edges, a size that was set is read back, and so is an opacity by filters.
    \<^item> \<open>JQ_Offset\<close>: \<open>offset\<close>, \<open>setOffset\<close>, \<open>position\<close>, \<open>offsetParent\<close>, scrolling, \<open>width\<close> and \<open>height\<close>, \<open>defaultDisplay\<close>. Shown: the round trip of an offset, what
      \<open>offsetParent\<close> finds, the walk of \<open>offset\<close> as a fold over the ancestors, the round trip of scrolling, the cache of displays.
    \<^item> \<open>JQ_Init\<close>: \<open>jQuery.fn.init\<close> with its expressions, \<open>noConflict\<close>, \<open>parseJSON\<close>, \<open>parseXML\<close>, \<open>globalEval\<close>, \<open>uaMatch\<close>, \<open>doScrollCheck\<close>. Shown: what an expression can
      read and what a replacement keeps, when a text is not taken for markup, what \<open>parseJSON\<close> does not evaluate, the search by id.
    \<^item> \<open>JQ_Qsa\<close>: the function in the place of \<open>Sizzle\<close> over \<open>querySelectorAll\<close>, \<open>matchesSelector\<close>, the searches that replace unreliable ones. Shown: ids are given back, the short
      ways agree with the browser's search, and the engine is given the wrong context.
    \<^item> \<open>JQ_Special\<close>: the hooks and handlers of \<open>submit\<close>, \<open>change\<close> and \<open>focusin\<close> for browsers where these do not bubble, and the methods named after events. Shown: change events
      are the differences between checks, the listener of \<open>focusin\<close> is there while it is wanted, the hooks keep the registry.

  \<^bold>\<open>How the code is modelled.\<close> A function that works on shared state takes the state and returns it. An exception is the
  constructor \<open>Threw\<close> of a result, and a missing value is \<open>None\<close> or \<open>Undefined\<close>. A loop or recursion that may not end is a \<open>partial_function\<close> or
  takes fuel, and its result \<open>None\<close> means that it has not ended. Callbacks are arguments: functions of the state, which may run
  any operation where the theorem says so.

  \<^bold>\<open>Fuel and bounds.\<close> The callback lists count nested calls: \<open>exec\<close> spends a unit for each, the invariants hold on the result
  of every run whatever the fuel, and \<open>resolve_runs_all_in_order\<close> runs with the number of callbacks plus three.
  \<open>deep_extend_returns\<close> asks for a depth above the rank of the sources, and \<open>deep_extend_of_a_cycle_never_returns\<close> holds for
  every fuel. \<open>event_remove\<close> calls itself one level deep for types with a name, so two units are enough, and
  \<open>namespace_only_unbind_never_ends\<close> holds for every fuel. \<open>inspection_ends\<close> bounds the redirections by twice the number of keys. The
  walks of documents, the bubbling and the tick are partial functions without fuel, proved to end on every tree and list. The selector
  engine has a depth of nested calls; its own loops have fuel of the length of the selector or the depth of the document, which
  \<open>sizzle_ends_with_its_calls\<close> shows to be enough.

  \<^bold>\<open>Assumptions.\<close> Characters are 8-bit. Numbers are integers in counters and indices and reals in animations. The sorting
  of arrays is the host's. Hypotheses on arguments of the model (a function leaves the tree alone, a hook leaves the list of
  its type alone) are named in each theorem, and a witness runs the theorem on concrete arguments.

  \<^bold>\<open>Not modelled.\<close> Of the script: the tests of browser features, which are experiments on the host and arguments here, what the host's
  parsers make of markup, JSON and XML, where boxes come to be on the screen, and \<open>jQuery.sub\<close>.
  The other scripts are released copies of third-party libraries (later jQuery, Bootstrap, validation, Modernizr), their minified
  forms or editor documentation. The C# adapters forward to the NCache client, whose source is not in the repository.
\<close>

end
